(* ===== verification/TsPrelude.thy ===== *)
theory TsPrelude
  imports Main "HOL-Library.Word" "HOL-Library.Multiset"
begin

unbundle bit_operations_syntax

text \<open>
  Shared ground of the development: the named collections of rewrite rules the component
  theories feed, the C data model (addresses, NUL-terminated strings, \<open>size_t\<close>
  arithmetic, signed characters) and the generic lemmas on lists and options that the
  component proofs use.
\<close>

named_theorems ts_defs \<open>unfoldings of non-recursive operations\<close>
named_theorems ts_inv \<open>preservation lemmas of component invariants\<close>


section \<open>The C data model\<close>

text \<open>
  Addresses are natural numbers, a pointer is an optional address (\<open>None\<close> is
  \<open>NULL\<close>). The program is modelled on its LP64 targets: \<open>unsigned\<close> and \<open>int\<close> have 32 bits,
  \<open>long\<close>, \<open>size_t\<close> and \<open>ts_time_t\<close> 64.
\<close>

type_synonym addr = nat
type_synonym 'a ptr = "addr option"
type_synonym cuint = "32 word"
type_synonym cchar = char

definition NUL :: char where
  "NUL = CHR 0x00"

text \<open>A C string held in a byte array is the bytes up to the first NUL.\<close>

definition cstr :: "char list \<Rightarrow> string" where
  "cstr bs = takeWhile (\<lambda>c. c \<noteq> NUL) bs"

text \<open>\<open>char\<close> is signed on the supported targets.\<close>

definition char_val :: "char \<Rightarrow> int" where
  "char_val c = (if of_char c < (128::int) then of_char c else of_char c - 256)"

text \<open>\<open>size_t\<close> subtraction wraps around.\<close>

definition size_sub :: "nat \<Rightarrow> nat \<Rightarrow> nat" where
  "size_sub a b = (a + 2 ^ 64 - b) mod 2 ^ 64"

lemma size_sub_le:
  assumes "b \<le> a" and "a < 2 ^ 64"
  shows "size_sub a b = a - b"
proof -
  have "a + 2 ^ 64 - b = (a - b) + 2 ^ 64" using assms by simp
  moreover have "a - b < 2 ^ 64" using assms by simp
  ultimately show ?thesis unfolding size_sub_def by (metis mod_add_self2 mod_less)
qed

lemma size_sub_wrap:
  assumes "a < b" and "b \<le> 2 ^ 64"
  shows "size_sub a b = a + 2 ^ 64 - b"
  using assms unfolding size_sub_def by (intro mod_less) linarith

lemma cstr_no_nul [simp]: "NUL \<notin> set (cstr bs)"
  by (auto simp: cstr_def dest: set_takeWhileD)

lemma cstr_append_nul [simp]: "NUL \<notin> set xs \<Longrightarrow> cstr (xs @ NUL # ys) = xs"
  unfolding cstr_def by (subst takeWhile_append2) auto

lemma cstr_id [simp]: "NUL \<notin> set xs \<Longrightarrow> cstr xs = xs"
  by (auto simp: cstr_def)


section \<open>Lists\<close>

lemma drop_Cons_nth: "drop i xs = y # ys \<Longrightarrow> i < length xs \<and> xs ! i = y \<and> drop (Suc i) xs = ys"
  by (metis drop_Suc drop_eq_Nil2 list.sel(3) linorder_not_le list.discI nth_via_drop tl_drop)

lemma distinct_concat_update:
  assumes "i < length cs" and "distinct (concat cs)" and "distinct c"
    and "set c \<inter> set (concat (take i cs @ drop (Suc i) cs)) = {}"
  shows "distinct (concat (cs[i := c]))"
proof -
  have eq: "cs = take i cs @ cs ! i # drop (Suc i) cs"
    using assms(1) by (rule id_take_nth_drop)
  have "distinct (concat (take i cs @ cs ! i # drop (Suc i) cs))"
    using assms(2) eq by simp
  then show ?thesis
    using assms(1,3,4) by (auto simp: upd_conv_take_nth_drop)
qed

lemma distinct_concat_disjoint:
  "distinct (concat cs) \<Longrightarrow> i < length cs \<Longrightarrow> j < length cs \<Longrightarrow> i \<noteq> j \<Longrightarrow>
   set (cs ! i) \<inter> set (cs ! j) = {}"
proof (induction cs arbitrary: i j)
  case (Cons c cs)
  have "set c \<inter> set (cs ! k) = {}" if "k < length cs" for k
    using Cons.prems(1) that nth_mem [OF that] by fastforce
  with Cons show ?case by (cases i; cases j) auto
qed simp

lemma distinct_concat_split:
  assumes "i < length cs" and "distinct (concat cs)"
  shows "distinct (cs ! i)" and "set (cs ! i) \<inter> set (concat (take i cs @ drop (Suc i) cs)) = {}"
proof -
  have "concat cs = concat (take i cs) @ cs ! i @ concat (drop (Suc i) cs)"
    using id_take_nth_drop [OF assms(1)] by (metis concat.simps(2) concat_append)
  with assms(2) have "distinct (concat (take i cs) @ cs ! i @ concat (drop (Suc i) cs))" by simp
  then show "distinct (cs ! i)" and "set (cs ! i) \<inter> set (concat (take i cs @ drop (Suc i) cs)) = {}"
    by (auto simp del: set_concat)
qed

lemma distinct_concat_filter:
  assumes "distinct (concat cs)" and "i < length cs"
  shows "distinct (concat (cs[i := filter P (cs ! i)]))"
proof -
  note sp = distinct_concat_split [OF assms(2,1)]
  show ?thesis using sp by (intro distinct_concat_update assms) auto
qed

lemma set_concat_update:
  assumes "i < length cs"
  shows "set (concat (cs[i := c])) = set c \<union> set (concat (take i cs @ drop (Suc i) cs))"
  using assms by (auto simp: upd_conv_take_nth_drop)

lemma set_concat_split:
  assumes "i < length cs"
  shows "set (concat cs) = set (cs ! i) \<union> set (concat (take i cs @ drop (Suc i) cs))"
  using set_concat_update [OF assms, of "cs ! i"] by simp

lemma set_concat_subset: "xs \<in> set xss \<Longrightarrow> set xs \<subseteq> set (concat xss)"
  by auto

lemma mset_concat_update:
  assumes "i < length ws"
  shows "mset (concat (ws[i := q])) + mset (ws ! i) = mset (concat ws) + mset q"
proof -
  have "concat ws = concat (take i ws) @ ws ! i @ concat (drop (Suc i) ws)"
    using id_take_nth_drop [OF assms] by (metis concat.simps(2) concat_append)
  then show ?thesis
    using assms by (simp add: upd_conv_take_nth_drop)
qed

text \<open>Conversion of an \<open>int\<close> operand to \<open>unsigned\<close>.\<close>

definition to_unsigned :: "int \<Rightarrow> nat" where
  "to_unsigned x = nat (x mod 2 ^ 32)"

end
