(* ===== verification/HashMap.thy ===== *)
theory HashMap
  imports TsPrelude
begin

text \<open>
  The intrusive hash map of \<open>libtscommon/hashmap.c\<close>: objects carry their key and the
  link to the next object of the bucket, the map holds one head pointer per bucket and a
  mutex. The model keeps the store explicit: a heap from addresses to objects, so that the
  in-place relinking of \<open>hm_set_next\<close> and an object's stale link are visible. Key and link
  offsets (\<open>hm_off_key\<close>, \<open>hm_off_next\<close>, \<open>hm_indirect\<close>) become the two fields of the object.
  The mutex is the flag \<open>hm_locked\<close>: locking a locked mutex blocks (\<open>HmBlocked\<close>).
  The second half relates the store to a finite map from keys to addresses.
\<close>

section \<open>State\<close>

datatype hm_type = HASH_MAP_STATIC | HASH_MAP_DYNAMIC

datatype hm_ret = HASH_MAP_OK | HASH_MAP_DUPLICATE | HASH_MAP_NOT_FOUND

datatype hm_error = HmBlocked | HmFault | HmAssert

record 'k hm_item =
  hi_key :: 'k
  hi_next :: "addr option"

type_synonym 'k hm_heap = "addr \<Rightarrow> 'k hm_item option"

record 'k hashmap =
  hm_size :: nat
  hm_heads :: "addr option list"
  hm_type :: hm_type
  hm_locked :: bool
  hm_name :: "string option"
  hm_hash_key :: "'k \<Rightarrow> nat"
  hm_compare :: "'k \<Rightarrow> 'k \<Rightarrow> bool"

section \<open>Operations\<close>

definition hm_next :: "'k hm_heap \<Rightarrow> addr \<Rightarrow> addr option option" where
  "hm_next h a = map_option hi_next (h a)"

definition hm_set_next :: "'k hm_heap \<Rightarrow> addr \<Rightarrow> addr option \<Rightarrow> 'k hm_heap" where
  "hm_set_next h a n = (case h a of None \<Rightarrow> h | Some it \<Rightarrow> h(a \<mapsto> it\<lparr>hi_next := n\<rparr>))"

definition hm_hash_object :: "'k hashmap \<Rightarrow> 'k hm_item \<Rightarrow> nat" where
  "hm_hash_object hm it = hm_hash_key hm (hi_key it)"

definition hash_map_init :: "'k hashmap \<Rightarrow> string option \<Rightarrow> 'k hashmap" where
  "hash_map_init hm name =
     (let hm1 = hm\<lparr>hm_heads := replicate (hm_size hm) None, hm_locked := False\<rparr>
      in case name of None \<Rightarrow> hm1 | Some s \<Rightarrow> hm1\<lparr>hm_name := Some s\<rparr>)"

definition hash_map_create :: "'k hashmap \<Rightarrow> string \<Rightarrow> 'k hashmap" where
  "hash_map_create base name =
     (let hm = \<lparr>hm_size = hm_size base, hm_heads = replicate (hm_size base) None,
                hm_type = HASH_MAP_DYNAMIC, hm_locked = False, hm_name = None,
                hm_hash_key = hm_hash_key base, hm_compare = hm_compare base\<rparr>
      in (hash_map_init hm None)\<lparr>hm_name := Some name\<rparr>)"

definition hash_map_destroy :: "'k hashmap \<Rightarrow> hm_error + 'k hashmap" where
  "hash_map_destroy hm =
     (if \<exists>i < hm_size hm. hm_heads hm ! i \<noteq> None then Inl HmAssert
      else Inr (hm\<lparr>hm_name := None\<rparr>))"

text \<open>
  The bucket walk of \<open>hash_map_insert\<close>: \<open>Inl\<close> the object with an equal key, \<open>Inr\<close> the tail.
  The loops over a bucket run as long as the links do, so they are partial functions:
  \<open>None\<close> stands for a cyclic bucket or a link to a dead object.
\<close>

partial_function (option) hm_insert_walk ::
    "'k hashmap \<Rightarrow> 'k hm_heap \<Rightarrow> addr \<Rightarrow> 'k hm_item \<Rightarrow> (addr + addr) option" where
  "hm_insert_walk hm h iter ob =
     (case h iter of
        None \<Rightarrow> None
      | Some it \<Rightarrow>
          if hm_compare hm (hi_key it) (hi_key ob) then Some (Inl iter)
          else (case hi_next it of
                  None \<Rightarrow> Some (Inr iter)
                | Some n \<Rightarrow> hm_insert_walk hm h n ob))"

definition hash_map_insert ::
    "'k hashmap \<Rightarrow> 'k hm_heap \<Rightarrow> addr \<Rightarrow> hm_error + ('k hashmap \<times> 'k hm_heap \<times> hm_ret)" where
  "hash_map_insert hm h object =
     (case h object of
        None \<Rightarrow> Inl HmFault
      | Some ob \<Rightarrow>
          let hash = hm_hash_object hm ob in
          if hm_locked hm then Inl HmBlocked
          else if length (hm_heads hm) \<le> hash then Inl HmFault
          else (case hm_heads hm ! hash of
                  None \<Rightarrow> Inr (hm\<lparr>hm_heads := (hm_heads hm)[hash := Some object]\<rparr>, h, HASH_MAP_OK)
                | Some head \<Rightarrow>
                    (case hm_insert_walk hm h head ob of
                       None \<Rightarrow> Inl HmFault
                     | Some (Inl _) \<Rightarrow> Inr (hm, h, HASH_MAP_DUPLICATE)
                     | Some (Inr tail) \<Rightarrow> Inr (hm, hm_set_next h tail (Some object), HASH_MAP_OK))))"

text \<open>The bucket walk of \<open>hash_map_remove\<close>: the object whose link is the removed one.\<close>

partial_function (option) hm_remove_walk ::
    "'k hm_heap \<Rightarrow> addr \<Rightarrow> addr \<Rightarrow> addr option option" where
  "hm_remove_walk h iter object =
     (case h iter of
        None \<Rightarrow> None
      | Some it \<Rightarrow>
          if hi_next it = Some object then Some (Some iter)
          else (case hi_next it of
                  None \<Rightarrow> Some None
                | Some n \<Rightarrow> hm_remove_walk h n object))"

text \<open>The early return on an empty bucket does not unlock the mutex.\<close>

definition hash_map_remove ::
    "'k hashmap \<Rightarrow> 'k hm_heap \<Rightarrow> addr \<Rightarrow> hm_error + ('k hashmap \<times> 'k hm_heap \<times> hm_ret)" where
  "hash_map_remove hm h object =
     (case h object of
        None \<Rightarrow> Inl HmFault
      | Some ob \<Rightarrow>
          let hash = hm_hash_object hm ob in
          if hm_locked hm then Inl HmBlocked
          else if length (hm_heads hm) \<le> hash then Inl HmFault
          else (case hm_heads hm ! hash of
                  None \<Rightarrow> Inr (hm\<lparr>hm_locked := True\<rparr>, h, HASH_MAP_NOT_FOUND)
                | Some head \<Rightarrow>
                    if head = object
                    then Inr (hm\<lparr>hm_heads := (hm_heads hm)[hash := hi_next ob]\<rparr>, h, HASH_MAP_OK)
                    else (case hm_remove_walk h head object of
                            None \<Rightarrow> Inl HmFault
                          | Some None \<Rightarrow> Inr (hm, h, HASH_MAP_NOT_FOUND)
                          | Some (Some iter) \<Rightarrow>
                              Inr (hm, hm_set_next h iter (hi_next ob), HASH_MAP_OK))))"

partial_function (option) hm_find_walk ::
    "'k hashmap \<Rightarrow> 'k hm_heap \<Rightarrow> addr option \<Rightarrow> 'k \<Rightarrow> addr option option" where
  "hm_find_walk hm h iter key =
     (case iter of
        None \<Rightarrow> Some None
      | Some a \<Rightarrow>
          (case h a of
             None \<Rightarrow> None
           | Some it \<Rightarrow>
               if hm_compare hm (hi_key it) key then Some (Some a)
               else hm_find_walk hm h (hi_next it) key))"

definition hash_map_find_nolock ::
    "'k hashmap \<Rightarrow> 'k hm_heap \<Rightarrow> 'k \<Rightarrow> hm_error + addr option" where
  "hash_map_find_nolock hm h key =
     (let hash = hm_hash_key hm key in
      if length (hm_heads hm) \<le> hash then Inl HmFault
      else (case hm_find_walk hm h (hm_heads hm ! hash) key of
              None \<Rightarrow> Inl HmFault
            | Some r \<Rightarrow> Inr r))"

definition hash_map_find ::
    "'k hashmap \<Rightarrow> 'k hm_heap \<Rightarrow> 'k \<Rightarrow> hm_error + addr option" where
  "hash_map_find hm h key =
     (if hm_locked hm then Inl HmBlocked else hash_map_find_nolock hm h key)"

text \<open>
  \<open>hash_map_walk\<close>: the callback takes the object and its argument (here threaded as a state)
  and answers with the bits \<open>HM_WALKER_STOP\<close> and \<open>HM_WALKER_REMOVE\<close>.
\<close>

definition HM_WALKER_CONTINUE :: cuint where "HM_WALKER_CONTINUE = 0"
definition HM_WALKER_STOP :: cuint where "HM_WALKER_STOP = 1"
definition HM_WALKER_REMOVE :: cuint where "HM_WALKER_REMOVE = 2"

type_synonym 's hm_walker = "addr \<Rightarrow> 's \<Rightarrow> cuint \<times> 's"

definition hm_unlink ::
    "nat \<Rightarrow> addr option \<Rightarrow> addr option \<Rightarrow> addr option list \<Rightarrow> 'k hm_heap \<Rightarrow>
     addr option list \<times> 'k hm_heap" where
  "hm_unlink i prev nxt hs h =
     (case prev of None \<Rightarrow> (hs[i := nxt], h) | Some p \<Rightarrow> (hs, hm_set_next h p nxt))"

partial_function (option) hm_walk_chain ::
    "'s hm_walker \<Rightarrow> nat \<Rightarrow> addr option \<Rightarrow> addr option \<Rightarrow> addr option list \<Rightarrow> 'k hm_heap \<Rightarrow> 's \<Rightarrow>
     (addr option \<times> addr option \<times> addr option list \<times> 'k hm_heap \<times> 's) option" where
  "hm_walk_chain func i prev iter hs h s =
     (case iter of
        None \<Rightarrow> Some (None, prev, hs, h, s)
      | Some a \<Rightarrow>
          (case h a of
             None \<Rightarrow> None
           | Some it \<Rightarrow>
               let ret = fst (func a s); s1 = snd (func a s); rem = (ret AND HM_WALKER_REMOVE \<noteq> 0);
                   (hs1, h1) = (if rem then hm_unlink i prev (hi_next it) hs h else (hs, h));
                   prev1 = (if rem then prev else Some a)
               in if ret AND HM_WALKER_STOP \<noteq> 0 then Some (Some a, prev1, hs1, h1, s1)
                  else hm_walk_chain func i prev1 (hi_next it) hs1 h1 s1))"

fun hm_walk_buckets ::
    "'s hm_walker \<Rightarrow> nat list \<Rightarrow> addr option list \<Rightarrow> 'k hm_heap \<Rightarrow> 's \<Rightarrow>
     (addr option \<times> addr option list \<times> 'k hm_heap \<times> 's) option" where
  "hm_walk_buckets func [] hs h s = Some (None, hs, h, s)"
| "hm_walk_buckets func (i # is) hs h s =
     (case hm_walk_chain func i None (hs ! i) hs h s of
        None \<Rightarrow> None
      | Some (stop, prev, hs1, h1, s1) \<Rightarrow>
          if stop \<noteq> None then Some (stop, hs1, h1, s1)
          else hm_walk_buckets func is (if prev = None then hs1[i := None] else hs1) h1 s1)"

definition hash_map_walk ::
    "'k hashmap \<Rightarrow> 'k hm_heap \<Rightarrow> 's hm_walker \<Rightarrow> 's \<Rightarrow>
     hm_error + (addr option \<times> 'k hashmap \<times> 'k hm_heap \<times> 's)" where
  "hash_map_walk hm h func arg =
     (if hm_locked hm then Inl HmBlocked
      else case hm_walk_buckets func [0..<hm_size hm] (hm_heads hm) h arg of
             None \<Rightarrow> Inl HmFault
           | Some (r, hs1, h1, s1) \<Rightarrow> Inr (r, hm\<lparr>hm_heads := hs1\<rparr>, h1, s1))"

text \<open>\<open>hm_string_hash\<close> sums the (signed) characters in an \<open>unsigned\<close> and masks the sum.\<close>

definition hm_string_hash :: "char list \<Rightarrow> cuint \<Rightarrow> cuint" where
  "hm_string_hash key msk =
     (foldl (\<lambda>hash c. hash + word_of_int (char_val c)) 0 (cstr key)) AND msk"

text \<open>The map that \<open>DECLARE_HASH_MAP_STRKEY(name, type, size, key, next, mask)\<close> declares.\<close>

definition DECLARE_HASH_MAP_STRKEY :: "string \<Rightarrow> nat \<Rightarrow> cuint \<Rightarrow> string hashmap" where
  "DECLARE_HASH_MAP_STRKEY name sz msk =
     \<lparr>hm_size = sz, hm_heads = replicate sz None, hm_type = HASH_MAP_STATIC,
      hm_locked = False, hm_name = Some name,
      hm_hash_key = (\<lambda>key. unat (hm_string_hash key msk)), hm_compare = (=)\<rparr>"

lemmas hm_ops = hash_map_insert_def hash_map_remove_def hash_map_find_def
  hash_map_find_nolock_def hash_map_walk_def hm_hash_object_def


section \<open>Buckets as lists\<close>

text \<open>\<open>hm_list h p xs\<close>: following the links from \<open>p\<close> visits exactly the live objects \<open>xs\<close>.\<close>

fun hm_list :: "'k hm_heap \<Rightarrow> addr option \<Rightarrow> addr list \<Rightarrow> bool" where
  "hm_list h p [] = (p = None)"
| "hm_list h p (a # as) =
     (p = Some a \<and> (case h a of None \<Rightarrow> False | Some it \<Rightarrow> hm_list h (hi_next it) as))"

definition hm_key :: "'k hm_heap \<Rightarrow> addr \<Rightarrow> 'k option" where
  "hm_key h a = map_option hi_key (h a)"

text \<open>
  The representation predicate: \<open>cs\<close> are the buckets. Each object is in the bucket of its
  hash, no object and no key occurs twice, and the mutex is free.
\<close>

definition hm_rep :: "'k hashmap \<Rightarrow> 'k hm_heap \<Rightarrow> addr list list \<Rightarrow> bool" where
  "hm_rep hm h cs \<longleftrightarrow>
     \<not> hm_locked hm \<and> hm_compare hm = (=) \<and> (\<forall>k. hm_hash_key hm k < hm_size hm) \<and>
     length (hm_heads hm) = hm_size hm \<and> length cs = hm_size hm \<and>
     (\<forall>i < hm_size hm. hm_list h (hm_heads hm ! i) (cs ! i)) \<and>
     distinct (concat cs) \<and>
     (\<forall>i < hm_size hm. \<forall>a \<in> set (cs ! i). \<exists>k. hm_key h a = Some k \<and> hm_hash_key hm k = i) \<and>
     inj_on (hm_key h) (set (concat cs))"

text \<open>The abstract state is the finite map from keys to the addresses of the linked objects.\<close>

definition hm_refines :: "'k hashmap \<Rightarrow> 'k hm_heap \<Rightarrow> ('k \<rightharpoonup> addr) \<Rightarrow> bool" where
  "hm_refines hm h m \<longleftrightarrow>
     (\<exists>cs. hm_rep hm h cs \<and> (\<forall>k a. m k = Some a \<longleftrightarrow> a \<in> set (concat cs) \<and> hm_key h a = Some k))"

lemma hm_list_upd [simp]: "a \<notin> set xs \<Longrightarrow> hm_list (h(a := v)) p xs = hm_list h p xs"
  by (induction xs arbitrary: p) (auto split: option.splits)

lemma hm_list_live: "hm_list h p xs \<Longrightarrow> a \<in> set xs \<Longrightarrow> \<exists>it. h a = Some it"
  by (induction xs arbitrary: p) (auto split: option.splits)

lemma hm_set_next_notin [simp]:
  "a \<notin> set xs \<Longrightarrow> hm_list (hm_set_next h a n) p xs = hm_list h p xs"
  by (auto simp: hm_set_next_def split: option.splits)

lemma hm_key_set_next [simp]: "hm_key (hm_set_next h a n) b = hm_key h b"
  by (auto simp: hm_set_next_def hm_key_def split: option.splits)

lemma hm_list_snoc:
  assumes "hm_list h p (xs @ [t])" and "distinct (xs @ [t])"
    and "h ob = Some it" and "hi_next it = None" and "ob \<notin> set (xs @ [t])"
  shows "hm_list (hm_set_next h t (Some ob)) p (xs @ [t, ob])"
  using assms
  by (induction xs arbitrary: p)
     (auto simp: hm_set_next_def split: option.splits if_splits)

lemma hm_list_cut:
  assumes "hm_list h p (xs @ t # ob # ys)" and "distinct (xs @ t # ob # ys)"
    and "h ob = Some it"
  shows "hm_list (hm_set_next h t (hi_next it)) p (xs @ t # ys)"
  using assms
  by (induction xs arbitrary: p)
     (auto simp: hm_set_next_def split: option.splits if_splits)

lemma hm_find_walk_list:
  assumes "hm_list h p xs"
  shows "hm_find_walk hm h p k =
    Some (List.find (\<lambda>a. \<exists>it. h a = Some it \<and> hm_compare hm (hi_key it) k) xs)"
  using assms
proof (induction xs arbitrary: p)
  case Nil
  then show ?case by (simp add: hm_find_walk.simps)
next
  case (Cons a xs)
  then show ?case
    by (subst hm_find_walk.simps) (auto split: option.splits)
qed

lemma hm_insert_walk_list:
  assumes "hm_list h (Some a) (a # xs)"
  shows "hm_insert_walk hm h a ob =
    Some (case List.find (\<lambda>b. \<exists>it. h b = Some it \<and> hm_compare hm (hi_key it) (hi_key ob)) (a # xs) of
            Some b \<Rightarrow> Inl b | None \<Rightarrow> Inr (last (a # xs)))"
  using assms
proof (induction xs arbitrary: a)
  case Nil
  then show ?case by (subst hm_insert_walk.simps) (auto split: option.splits)
next
  case (Cons b xs)
  then show ?case by (subst hm_insert_walk.simps) (auto split: option.splits)
qed

lemma hm_remove_walk_found:
  assumes "hm_list h (Some a) (a # xs)" and "distinct (a # xs)" and "ob \<in> set xs"
  shows "\<exists>ys t zs. a # xs = ys @ t # ob # zs \<and> hm_remove_walk h a ob = Some (Some t)"
  using assms
proof (induction xs arbitrary: a)
  case (Cons b xs)
  show ?case
  proof (cases "b = ob")
    case True
    with Cons.prems show ?thesis
      by (intro exI [of _ "[]"] exI [of _ a] exI [of _ xs], subst hm_remove_walk.simps)
         (auto split: option.splits)
  next
    case False
    with Cons.prems obtain ys t zs where
      split: "b # xs = ys @ t # ob # zs" and walk: "hm_remove_walk h b ob = Some (Some t)"
      using Cons.IH [of b] by (auto split: option.splits)
    have "hm_remove_walk h a ob = hm_remove_walk h b ob"
      using Cons.prems(1) False by (subst hm_remove_walk.simps) (auto split: option.splits)
    with walk have "hm_remove_walk h a ob = Some (Some t)" by simp
    with split show ?thesis by (metis append_Cons)
  qed
qed simp

lemma hm_remove_walk_missing:
  assumes "hm_list h (Some a) (a # xs)" and "ob \<notin> set xs"
  shows "hm_remove_walk h a ob = Some None"
  using assms
proof (induction xs arbitrary: a)
  case Nil
  then show ?case by (subst hm_remove_walk.simps) (auto split: option.splits)
next
  case (Cons b xs)
  then show ?case by (subst hm_remove_walk.simps) (auto split: option.splits)
qed


section \<open>Refinement to a map\<close>

lemma hm_refinesE:
  assumes "hm_refines hm h m"
  obtains cs where "hm_rep hm h cs"
    and "\<And>k a. m k = Some a \<longleftrightarrow> a \<in> set (concat cs) \<and> hm_key h a = Some k"
  using assms unfolding hm_refines_def by blast

lemma hm_rep_bucket:
  assumes "hm_rep hm h cs"
  shows "a \<in> set (concat cs) \<and> hm_key h a = Some k \<longleftrightarrow>
         a \<in> set (cs ! hm_hash_key hm k) \<and> hm_key h a = Some k"
proof -
  have "a \<in> set (cs ! hm_hash_key hm k)" if a: "a \<in> set (concat cs)" and k: "hm_key h a = Some k"
  proof -
    from a obtain xs where "xs \<in> set cs" "a \<in> set xs" by auto
    then obtain i where i: "i < length cs" "a \<in> set (cs ! i)"
      by (metis in_set_conv_nth)
    with assms k have "hm_hash_key hm k = i" by (fastforce simp: hm_rep_def)
    with i show ?thesis by simp
  qed
  moreover have "a \<in> set (concat cs)" if "a \<in> set (cs ! hm_hash_key hm k)"
    using assms that by (auto simp: hm_rep_def intro!: bexI [of _ "cs ! hm_hash_key hm k"])
  ultimately show ?thesis by blast
qed

lemma find_unique:
  assumes "\<And>x y. x \<in> set xs \<Longrightarrow> y \<in> set xs \<Longrightarrow> P x \<Longrightarrow> P y \<Longrightarrow> x = y"
  shows "List.find P xs = Some a \<longleftrightarrow> a \<in> set xs \<and> P a"
  using assms
proof (induction xs)
  case (Cons x xs)
  then show ?case by (cases "P x") auto
qed simp

text \<open>The search in the bucket of a key is the abstract lookup.\<close>

lemma hm_bucket_find:
  assumes rep: "hm_rep hm h cs"
    and m: "\<And>k a. m k = Some a \<longleftrightarrow> a \<in> set (concat cs) \<and> hm_key h a = Some k"
  shows "List.find (\<lambda>a. \<exists>it. h a = Some it \<and> hm_compare hm (hi_key it) k)
           (cs ! hm_hash_key hm k) = m k"
proof -
  let ?P = "\<lambda>a. hm_key h a = Some k"
  have P: "(\<lambda>a. \<exists>it. h a = Some it \<and> hm_compare hm (hi_key it) k) = ?P"
    using rep by (auto simp: hm_rep_def hm_key_def fun_eq_iff)
  have uniq: "x = y" if "x \<in> set (cs ! hm_hash_key hm k)" "y \<in> set (cs ! hm_hash_key hm k)" "?P x" "?P y"
    for x y
  proof -
    have "x \<in> set (concat cs)" "y \<in> set (concat cs)"
      using that hm_rep_bucket [OF rep] by blast+
    moreover have "inj_on (hm_key h) (set (concat cs))" using rep by (simp only: hm_rep_def)
    ultimately show ?thesis using that(3,4) by (metis inj_onD)
  qed
  have "List.find ?P (cs ! hm_hash_key hm k) = Some a \<longleftrightarrow> m k = Some a" for a
    using find_unique [of "cs ! hm_hash_key hm k" ?P a] uniq m hm_rep_bucket [OF rep, of a k] by blast
  then show ?thesis
    unfolding P by (metis not_Some_eq)
qed

lemma hash_map_find_refines:
  assumes "hm_refines hm h m"
  shows "hash_map_find hm h k = Inr (m k)"
proof -
  from assms obtain cs where rep: "hm_rep hm h cs"
    and m: "\<And>k a. m k = Some a \<longleftrightarrow> a \<in> set (concat cs) \<and> hm_key h a = Some k"
    by (rule hm_refinesE) blast
  have "hm_list h (hm_heads hm ! hm_hash_key hm k) (cs ! hm_hash_key hm k)"
    using rep by (auto simp: hm_rep_def)
  from hm_find_walk_list [OF this] hm_bucket_find [OF rep m]
  have "hm_find_walk hm h (hm_heads hm ! hm_hash_key hm k) k = Some (m k)" by simp
  then show ?thesis
    using rep by (auto simp: hash_map_find_def hash_map_find_nolock_def Let_def hm_rep_def not_le)
qed

text \<open>Replacing one bucket, with the links of the other buckets untouched.\<close>

lemma hm_rep_update:
  assumes rep: "hm_rep hm h cs" and i: "i < hm_size hm"
    and lst: "hm_list h' hd' c"
    and other: "\<And>j xs. j < hm_size hm \<Longrightarrow> j \<noteq> i \<Longrightarrow> hm_list h (hm_heads hm ! j) (cs ! j) \<Longrightarrow>
                  hm_list h' (hm_heads hm ! j) (cs ! j)"
    and keys: "\<And>a. hm_key h' a = hm_key h a"
    and dist: "distinct c" and disj: "set c \<inter> set (concat (take i cs @ drop (Suc i) cs)) = {}"
    and hash: "\<And>a. a \<in> set c \<Longrightarrow> \<exists>k. hm_key h a = Some k \<and> hm_hash_key hm k = i"
    and inj: "inj_on (hm_key h) (set c \<union> set (concat (take i cs @ drop (Suc i) cs)))"
  shows "hm_rep (hm\<lparr>hm_heads := (hm_heads hm)[i := hd']\<rparr>) h' (cs[i := c])"
proof -
  have len: "length cs = hm_size hm" "length (hm_heads hm) = hm_size hm"
    using rep by (auto simp: hm_rep_def)
  have "distinct (concat (cs[i := c]))"
    using rep i len dist disj by (intro distinct_concat_update) (auto simp: hm_rep_def)
  moreover have "inj_on (hm_key h') (set (concat (cs[i := c])))"
    using inj keys i len by (subst set_concat_update) (auto simp: inj_on_def)
  moreover have "hm_list h' ((hm_heads hm)[i := hd'] ! j) (cs[i := c] ! j)" if "j < hm_size hm" for j
    using that rep other lst len i by (cases "j = i") (auto simp: hm_rep_def)
  moreover have "\<exists>k. hm_key h' a = Some k \<and> hm_hash_key hm k = j"
    if "j < hm_size hm" "a \<in> set (cs[i := c] ! j)" for j a
    using that rep hash len i keys by (cases "j = i") (auto simp: hm_rep_def)
  ultimately show ?thesis
    using rep len by (auto simp: hm_rep_def)
qed



lemma hm_rep_dest:
  assumes "hm_rep hm h cs" and "i < hm_size hm"
  shows "\<not> hm_locked hm" and "length (hm_heads hm) = hm_size hm" and "length cs = hm_size hm"
    and "hm_list h (hm_heads hm ! i) (cs ! i)" and "inj_on (hm_key h) (set (concat cs))"
    and "distinct (cs ! i)" and "set (cs ! i) \<inter> set (concat (take i cs @ drop (Suc i) cs)) = {}"
    and "set (concat cs) = set (cs ! i) \<union> set (concat (take i cs @ drop (Suc i) cs))"
proof -
  show "\<not> hm_locked hm" and "length (hm_heads hm) = hm_size hm" and len: "length cs = hm_size hm"
    and "hm_list h (hm_heads hm ! i) (cs ! i)" and "inj_on (hm_key h) (set (concat cs))"
    using assms by (simp_all add: hm_rep_def del: set_concat)
  have i: "i < length cs" and d: "distinct (concat cs)"
    using assms len by (simp_all add: hm_rep_def)
  show "distinct (cs ! i)" and "set (cs ! i) \<inter> set (concat (take i cs @ drop (Suc i) cs)) = {}"
    and "set (concat cs) = set (cs ! i) \<union> set (concat (take i cs @ drop (Suc i) cs))"
    using distinct_concat_split [OF i d] set_concat_split [OF i] by blast+
qed

lemma hm_rep_hash: "hm_rep hm h cs \<Longrightarrow> hm_hash_key hm k < hm_size hm"
  by (simp add: hm_rep_def)

lemma hm_rep_other_bucket:
  assumes "hm_rep hm h cs" and "i < hm_size hm" and "j < hm_size hm" and "j \<noteq> i"
    and "a \<in> set (cs ! i)"
  shows "a \<notin> set (cs ! j)"
proof
  assume "a \<in> set (cs ! j)"
  with assms obtain k k' where "hm_key h a = Some k" "hm_hash_key hm k = i"
    "hm_key h a = Some k'" "hm_hash_key hm k' = j"
    unfolding hm_rep_def by blast
  with assms(4) show False by simp
qed

text \<open>Adding an object at the end of its bucket adds one entry to the map.\<close>

lemma hm_refines_append:
  assumes rep: "hm_rep hm h cs"
    and m: "\<And>k a. m k = Some a \<longleftrightarrow> a \<in> set (concat cs) \<and> hm_key h a = Some k"
    and key: "hm_key h object = Some k" and fresh: "m k = None" and notin: "object \<notin> set (concat cs)"
    and lst: "hm_list h' hd' (cs ! hm_hash_key hm k @ [object])"
    and keys: "\<And>a. hm_key h' a = hm_key h a"
    and other: "\<And>j. j < hm_size hm \<Longrightarrow> j \<noteq> hm_hash_key hm k \<Longrightarrow>
         hm_list h (hm_heads hm ! j) (cs ! j) \<Longrightarrow> hm_list h' (hm_heads hm ! j) (cs ! j)"
  shows "hm_refines (hm\<lparr>hm_heads := (hm_heads hm)[hm_hash_key hm k := hd']\<rparr>) h' (m(k \<mapsto> object))"
proof -
  let ?i = "hm_hash_key hm k"
  let ?c = "cs ! ?i @ [object]" and ?rest = "concat (take ?i cs @ drop (Suc ?i) cs)"
  note i = hm_rep_hash [OF rep, of k]
  note d = hm_rep_dest [OF rep i]
  have "hm_key h object \<notin> hm_key h ` set (concat cs)"
  proof
    assume "hm_key h object \<in> hm_key h ` set (concat cs)"
    then obtain b where "b \<in> set (concat cs)" "hm_key h b = Some k"
      using key by (metis imageE)
    with m fresh show False by force
  qed
  then have inj: "inj_on (hm_key h) (insert object (set (concat cs)))"
    using d(5) notin by (simp add: inj_on_insert del: set_concat)
  have rep': "hm_rep (hm\<lparr>hm_heads := (hm_heads hm)[?i := hd']\<rparr>) h' (cs[?i := ?c])"
  proof (rule hm_rep_update [OF rep i lst _ keys])
    show "distinct ?c" "set ?c \<inter> set ?rest = {}"
      using d(6,7,8) notin by (auto simp del: set_concat)
    have "set ?c \<union> set ?rest = insert object (set (concat cs))"
      unfolding d(8) by (simp del: set_concat)
    then show "inj_on (hm_key h) (set ?c \<union> set ?rest)"
      using inj by (simp only:)
    show "\<exists>k. hm_key h a = Some k \<and> hm_hash_key hm k = ?i" if "a \<in> set ?c" for a
      using that rep i key by (auto simp: hm_rep_def simp del: set_concat)
  qed (rule other)
  have "set (concat (cs[?i := ?c])) = insert object (set (concat cs))"
    using set_concat_update [of ?i cs ?c] i d(3,8) by auto
  moreover have "\<not> (a \<in> set (concat cs) \<and> hm_key h a = Some k)" for a
    using m [of k a] fresh by simp
  ultimately show ?thesis
    unfolding hm_refines_def using rep' m key keys
    by (intro exI [of _ "cs[?i := ?c]"]) (auto simp del: set_concat)
qed


lemma hash_map_insert_refines:
  assumes ref: "hm_refines hm h m" and ob: "h object = Some it" "hi_next it = None"
    and fresh: "m (hi_key it) = None" and unlinked: "object \<notin> ran m"
  shows "\<exists>hm' h'. hash_map_insert hm h object = Inr (hm', h', HASH_MAP_OK) \<and>
           hm_refines hm' h' (m(hi_key it \<mapsto> object)) \<and> (\<forall>a. hm_key h' a = hm_key h a) \<and>
           (\<forall>a. a \<notin> ran m \<longrightarrow> h' a = h a)"
proof -
  let ?k = "hi_key it" and ?i = "hm_hash_key hm (hi_key it)"
  from ref obtain cs where rep: "hm_rep hm h cs"
    and m: "\<And>k a. m k = Some a \<longleftrightarrow> a \<in> set (concat cs) \<and> hm_key h a = Some k"
    by (rule hm_refinesE) blast
  note i = hm_rep_hash [OF rep, of ?k]
  note d = hm_rep_dest [OF rep i]
  have key: "hm_key h object = Some ?k" using ob by (simp add: hm_key_def)
  have notin: "object \<notin> set (concat cs)" using unlinked key m by (force simp: ran_def)
  note app = hm_refines_append [OF rep m key fresh notin]
  show ?thesis
  proof (cases "cs ! ?i")
    case Nil
    with d have head: "hm_heads hm ! ?i = None" by simp
    have "hm_refines (hm\<lparr>hm_heads := (hm_heads hm)[?i := Some object]\<rparr>) h (m(?k \<mapsto> object))"
      using Nil ob by (intro app) auto
    with head i d(1,2) ob show ?thesis
      by (auto simp: hash_map_insert_def hm_hash_object_def)
  next
    case (Cons a xs)
    have head: "hm_heads hm ! ?i = Some a" and lst: "hm_list h (Some a) (a # xs)"
      using d(4) Cons by (auto split: option.splits)
    obtain ys t where split: "a # xs = ys @ [t]" and t_last: "t = last (a # xs)"
      by (metis append_butlast_last_id list.distinct(1))
    have bucket: "cs ! ?i = ys @ [t]" using Cons split by simp
    have "List.find (\<lambda>b. \<exists>it'. h b = Some it' \<and> hm_compare hm (hi_key it') ?k) (a # xs) = None"
      using hm_bucket_find [OF rep m, of ?k] Cons fresh by simp
    with hm_insert_walk_list [OF lst, of hm it]
    have walk: "hm_insert_walk hm h a it = Some (Inr t)" by (simp add: t_last)
    have "object \<notin> set (cs ! ?i)" using notin d(8) by blast
    then have lst': "hm_list (hm_set_next h t (Some object)) (hm_heads hm ! ?i) (cs ! ?i @ [object])"
      using d(4,6) ob hm_list_snoc [of h _ ys t object it] unfolding bucket by simp
    have t: "t \<in> set (cs ! ?i)" using bucket by simp
    have other: "hm_list (hm_set_next h t (Some object)) (hm_heads hm ! j) (cs ! j)"
      if "j < hm_size hm" "j \<noteq> ?i" "hm_list h (hm_heads hm ! j) (cs ! j)" for j
    proof -
      have "t \<notin> set (cs ! j)"
        using hm_rep_other_bucket [OF rep i] that t by blast
      with that show ?thesis by simp
    qed
    have "hm_refines (hm\<lparr>hm_heads := (hm_heads hm)[?i := hm_heads hm ! ?i]\<rparr>)
            (hm_set_next h t (Some object)) (m(?k \<mapsto> object))"
      by (rule app [OF lst' _ other]) auto
    then have "hm_refines hm (hm_set_next h t (Some object)) (m(?k \<mapsto> object))" by simp
    moreover have "t \<in> ran m"
      using t d(8) m rep i unfolding ran_def hm_rep_def by (metis (mono_tags) UnI1 mem_Collect_eq)
    then have "hm_set_next h t (Some object) b = h b" if "b \<notin> ran m" for b
      using that by (auto simp: hm_set_next_def split: option.splits)
    ultimately show ?thesis
      using walk head i d(1,2) ob
      by (auto simp: hash_map_insert_def hm_hash_object_def)
  qed
qed

lemma hash_map_insert_duplicate:
  assumes ref: "hm_refines hm h m" and ob: "h object = Some it"
    and dup: "m (hi_key it) = Some a"
  shows "hash_map_insert hm h object = Inr (hm, h, HASH_MAP_DUPLICATE)"
proof -
  let ?i = "hm_hash_key hm (hi_key it)"
  from ref obtain cs where rep: "hm_rep hm h cs"
    and m: "\<And>k a. m k = Some a \<longleftrightarrow> a \<in> set (concat cs) \<and> hm_key h a = Some k"
    by (rule hm_refinesE) blast
  note i = hm_rep_hash [OF rep, of "hi_key it"]
  note d = hm_rep_dest [OF rep i]
  note fnd = hm_bucket_find [OF rep m, of "hi_key it", unfolded dup]
  then obtain b xs where c: "cs ! ?i = b # xs" by (cases "cs ! ?i") auto
  have head: "hm_heads hm ! ?i = Some b" and lst: "hm_list h (Some b) (b # xs)"
    using d(4) c by (auto split: option.splits)
  have "hm_insert_walk hm h b it = Some (Inl a)"
    using hm_insert_walk_list [OF lst, of hm it] fnd c by simp
  with head i d(1,2) ob show ?thesis
    by (auto simp: hash_map_insert_def hm_hash_object_def)
qed


text \<open>Taking an object out of its bucket deletes one entry of the map.\<close>

lemma hm_refines_delete:
  assumes rep: "hm_rep hm h cs"
    and m: "\<And>k a. m k = Some a \<longleftrightarrow> a \<in> set (concat cs) \<and> hm_key h a = Some k"
    and key: "hm_key h object = Some k" and ob: "object \<in> set (cs ! hm_hash_key hm k)"
    and c: "cs ! hm_hash_key hm k = xs @ object # ys"
    and lst: "hm_list h' hd' (xs @ ys)"
    and keys: "\<And>a. hm_key h' a = hm_key h a"
    and other: "\<And>j. j < hm_size hm \<Longrightarrow> j \<noteq> hm_hash_key hm k \<Longrightarrow>
         hm_list h (hm_heads hm ! j) (cs ! j) \<Longrightarrow> hm_list h' (hm_heads hm ! j) (cs ! j)"
  shows "hm_refines (hm\<lparr>hm_heads := (hm_heads hm)[hm_hash_key hm k := hd']\<rparr>) h' (m(k := None))"
proof -
  let ?i = "hm_hash_key hm k" and ?c = "xs @ ys"
  let ?rest = "concat (take ?i cs @ drop (Suc ?i) cs)"
  note i = hm_rep_hash [OF rep, of k]
  note d = hm_rep_dest [OF rep i]
  have sub: "set ?c \<subseteq> set (cs ! ?i)" and dist: "distinct ?c" and notin: "object \<notin> set ?c"
    using c d(6) by auto
  have all: "set ?c \<union> set ?rest = set (concat cs) - {object}"
    using d(7,8) c d(6) ob by (auto simp del: set_concat)
  have rep': "hm_rep (hm\<lparr>hm_heads := (hm_heads hm)[?i := hd']\<rparr>) h' (cs[?i := ?c])"
  proof (rule hm_rep_update [OF rep i lst _ keys dist])
    show "set ?c \<inter> set ?rest = {}" using d(7) sub by blast
    show "inj_on (hm_key h) (set ?c \<union> set ?rest)"
      unfolding all using d(5) by (rule inj_on_subset) blast
    show "\<exists>k. hm_key h a = Some k \<and> hm_hash_key hm k = ?i" if "a \<in> set ?c" for a
      using that sub rep i unfolding hm_rep_def by blast
  qed (rule other)
  have set': "set (concat (cs[?i := ?c])) = set (concat cs) - {object}"
    using set_concat_update [of ?i cs ?c] i d(3) all by (simp del: set_concat)
  have uniq: "a = object" if "a \<in> set (concat cs)" "hm_key h a = Some k" for a
    using inj_onD [OF d(5), of a object] that key ob d(8) by (metis UnI1)
  have "(m(k := None)) k' = Some a \<longleftrightarrow> a \<in> set (concat (cs[?i := ?c])) \<and> hm_key h' a = Some k'" for k' a
  proof (cases "k' = k")
    case True
    then show ?thesis unfolding set' keys using uniq by auto
  next
    case False
    then have "(m(k := None)) k' = Some a \<longleftrightarrow> a \<in> set (concat cs) \<and> hm_key h a = Some k'"
      using m [of k' a] by simp
    moreover have "a \<noteq> object" if "hm_key h a = Some k'" using that key False by auto
    ultimately show ?thesis unfolding set' keys by blast
  qed
  with rep' show ?thesis unfolding hm_refines_def by blast
qed

lemma hash_map_remove_refines:
  assumes ref: "hm_refines hm h m" and ob: "h object = Some it"
    and linked: "m (hi_key it) = Some object"
  shows "\<exists>hm' h'. hash_map_remove hm h object = Inr (hm', h', HASH_MAP_OK) \<and>
           hm_refines hm' h' (m(hi_key it := None)) \<and> (\<forall>a. hm_key h' a = hm_key h a)"
proof -
  let ?k = "hi_key it" and ?i = "hm_hash_key hm (hi_key it)"
  from ref obtain cs where rep: "hm_rep hm h cs"
    and m: "\<And>k a. m k = Some a \<longleftrightarrow> a \<in> set (concat cs) \<and> hm_key h a = Some k"
    by (rule hm_refinesE) blast
  note i = hm_rep_hash [OF rep, of ?k]
  note d = hm_rep_dest [OF rep i]
  have key: "hm_key h object = Some ?k" using ob by (simp add: hm_key_def)
  have inb: "object \<in> set (cs ! ?i)" using linked m hm_rep_bucket [OF rep, of object ?k] by blast
  note del = hm_refines_delete [OF rep m key inb]
  from inb obtain a xs where c: "cs ! ?i = a # xs" by (cases "cs ! ?i") auto
  have head: "hm_heads hm ! ?i = Some a" and lst: "hm_list h (Some a) (a # xs)"
    using d(4) c by (auto split: option.splits)
  show ?thesis
  proof (cases "a = object")
    case True
    have "hm_list h (hi_next it) ([] @ xs)" using lst ob True by simp
    then have "hm_refines (hm\<lparr>hm_heads := (hm_heads hm)[?i := hi_next it]\<rparr>) h (m(?k := None))"
      using c True by (intro del [where xs = "[]" and ys = xs]) auto
    with True head i d(1,2) ob show ?thesis
      by (auto simp: hash_map_remove_def hm_hash_object_def)
  next
    case False
    with inb c have "object \<in> set xs" by simp
    moreover have "distinct (a # xs)" using d(6) c by simp
    ultimately obtain ys t zs where split: "a # xs = ys @ t # object # zs"
      and walk: "hm_remove_walk h a object = Some (Some t)"
      using hm_remove_walk_found [OF lst] by blast
    have c': "cs ! ?i = (ys @ [t]) @ object # zs" using c split by simp
    have t: "t \<in> set (cs ! ?i)" using c' by simp
    have "hm_list (hm_set_next h t (hi_next it)) (hm_heads hm ! ?i) ((ys @ [t]) @ zs)"
      using hm_list_cut [of h _ ys t object zs it] d(4,6) ob unfolding c' by simp
    then have "hm_refines (hm\<lparr>hm_heads := (hm_heads hm)[?i := hm_heads hm ! ?i]\<rparr>)
                 (hm_set_next h t (hi_next it)) (m(?k := None))"
      using hm_rep_other_bucket [OF rep i _ _ t] by (intro del [OF c']) auto
    then have "hm_refines hm (hm_set_next h t (hi_next it)) (m(?k := None))" by simp
    with walk False head i d(1,2) ob show ?thesis
      by (auto simp: hash_map_remove_def hm_hash_object_def)
  qed
qed

lemma hash_map_remove_missing:
  assumes ref: "hm_refines hm h m" and ob: "h object = Some it"
    and unlinked: "m (hi_key it) \<noteq> Some object"
  shows "hash_map_remove hm h object =
    (if hm_heads hm ! hm_hash_key hm (hi_key it) = None
     then Inr (hm\<lparr>hm_locked := True\<rparr>, h, HASH_MAP_NOT_FOUND)
     else Inr (hm, h, HASH_MAP_NOT_FOUND))"
proof -
  let ?k = "hi_key it" and ?i = "hm_hash_key hm (hi_key it)"
  from ref obtain cs where rep: "hm_rep hm h cs"
    and m: "\<And>k a. m k = Some a \<longleftrightarrow> a \<in> set (concat cs) \<and> hm_key h a = Some k"
    by (rule hm_refinesE) blast
  note i = hm_rep_hash [OF rep, of ?k]
  note d = hm_rep_dest [OF rep i]
  have key: "hm_key h object = Some ?k" using ob by (simp add: hm_key_def)
  have notin: "object \<notin> set (cs ! ?i)"
    using unlinked m hm_rep_bucket [OF rep, of object ?k] key by blast
  show ?thesis
  proof (cases "cs ! ?i")
    case Nil
    with d i ob show ?thesis
      by (auto simp: hash_map_remove_def hm_hash_object_def Let_def)
  next
    case (Cons a xs)
    then have lst: "hm_list h (Some a) (a # xs)" and head: "hm_heads hm ! ?i = Some a"
      using d(4) by (auto split: option.splits)
    have "hm_remove_walk h a object = Some None"
      using hm_remove_walk_missing [OF lst] notin Cons by simp
    with head notin Cons d i ob show ?thesis
      by (auto simp: hash_map_remove_def hm_hash_object_def Let_def)
  qed
qed


lemma hash_map_locked_blocks:
  assumes "hm_locked hm" and "h object = Some it"
  shows "hash_map_insert hm h object = Inl HmBlocked" "hash_map_remove hm h object = Inl HmBlocked"
    "hash_map_find hm h k = Inl HmBlocked" "hash_map_walk hm h func arg = Inl HmBlocked"
  using assms by (simp_all add: hm_ops)

lemma hm_refines_init:
  assumes "hm_compare hm = (=)" and "\<And>k. hm_hash_key hm k < hm_size hm"
  shows "hm_refines (hash_map_init hm name) h Map.empty"
proof -
  have "hm_rep (hash_map_init hm name) h (replicate (hm_size hm) [])"
    using assms by (auto simp: hm_rep_def hash_map_init_def Let_def inj_on_def split: option.split)
  then show ?thesis
    unfolding hm_refines_def by (intro exI [of _ "replicate (hm_size hm) []"]) auto
qed

lemma hm_string_hash_bound: "unat (hm_string_hash key msk) \<le> unat msk"
  unfolding hm_string_hash_def by (metis word_and_le1 word_le_nat_alt)

lemma hm_refines_strkey:
  assumes "unat msk < sz"
  shows "hm_refines (hash_map_init (DECLARE_HASH_MAP_STRKEY name sz msk) nm) h Map.empty"
  using assms hm_string_hash_bound [of _ msk]
  by (intro hm_refines_init) (auto simp: DECLARE_HASH_MAP_STRKEY_def intro: le_less_trans)


section \<open>Walking\<close>

text \<open>
  A walker that never stops: it answers \<open>HM_WALKER_REMOVE\<close> on the objects of \<open>P\<close> and
  \<open>HM_WALKER_CONTINUE\<close> on the others, and updates its argument by \<open>upd\<close>.
\<close>

definition hm_sweep :: "(addr \<Rightarrow> bool) \<Rightarrow> (addr \<Rightarrow> 's \<Rightarrow> 's) \<Rightarrow> 's hm_walker" where
  "hm_sweep P upd a s = (if P a then HM_WALKER_REMOVE else HM_WALKER_CONTINUE, upd a s)"

definition hm_prev :: "addr list \<Rightarrow> addr option" where
  "hm_prev ks = (if ks = [] then None else Some (last ks))"

definition hm_same :: "addr set \<Rightarrow> 'k hm_heap \<Rightarrow> 'k hm_heap \<Rightarrow> bool" where
  "hm_same A h h' \<longleftrightarrow> (\<forall>q ys. set ys \<inter> A = {} \<longrightarrow> hm_list h' q ys = hm_list h q ys) \<and>
     hm_key h' = hm_key h"

lemma hm_same_refl [simp]: "hm_same A h h"
  by (simp add: hm_same_def)

lemma hm_same_trans: "hm_same A h h1 \<Longrightarrow> hm_same B h1 h2 \<Longrightarrow> A \<subseteq> C \<Longrightarrow> B \<subseteq> C \<Longrightarrow> hm_same C h h2"
  unfolding hm_same_def by (metis Int_mono order_refl subset_empty)

lemma hm_same_set_next: "t \<in> A \<Longrightarrow> hm_same A h (hm_set_next h t n)"
proof -
  assume "t \<in> A"
  then have "t \<notin> set ys" if "set ys \<inter> A = {}" for ys using that by auto
  then show ?thesis by (auto simp: hm_same_def)
qed

lemma hm_list_after:
  "hm_list h p (ks @ a # xs) \<Longrightarrow> h a = Some it \<Longrightarrow> hm_list h (hi_next it) xs"
  by (induction ks arbitrary: p) (auto split: option.splits)

lemma hm_sweep_bits [simp]:
  "(fst (hm_sweep P upd a s) AND HM_WALKER_REMOVE \<noteq> 0) = P a"
  "fst (hm_sweep P upd a s) AND HM_WALKER_STOP = 0"
  "snd (hm_sweep P upd a s) = upd a s"
  by (simp_all add: hm_sweep_def HM_WALKER_REMOVE_def HM_WALKER_STOP_def HM_WALKER_CONTINUE_def)

text \<open>One removal: the link (or the head) before the object is moved past it.\<close>

lemma hm_unlink_list:
  assumes "hm_list h (hs ! i) (ks @ a # xs)" and "distinct (ks @ a # xs)" and "h a = Some it"
    and "i < length hs" and "hm_unlink i (hm_prev ks) (hi_next it) hs h = (hs1, h1)"
  shows "hm_list h1 (hs1 ! i) (ks @ xs) \<and> hm_list h1 (hi_next it) xs \<and> (\<exists>v. hs1 = hs[i := v]) \<and>
    hm_same (set ks) h h1"
proof (cases ks rule: rev_cases)
  case Nil
  then show ?thesis using assms by (auto simp: hm_unlink_def hm_prev_def)
next
  case (snoc zs t)
  have eq: "hs1 = hs" "h1 = hm_set_next h t (hi_next it)"
    using assms(5) snoc by (simp_all add: hm_unlink_def hm_prev_def)
  have "hm_list h1 (hi_next it) xs"
    using assms(2) snoc hm_list_after [OF assms(1,3)] by (simp add: eq)
  moreover have "hm_list h1 (hs1 ! i) (zs @ t # xs)"
    unfolding eq using assms(1-3) snoc by (intro hm_list_cut) simp_all
  moreover have "\<exists>v. hs1 = hs[i := v]" unfolding eq by (rule exI [of _ "hs ! i"]) simp
  moreover have "hm_same (set ks) h h1" unfolding eq snoc by (rule hm_same_set_next) simp
  ultimately show ?thesis using snoc by simp
qed

text \<open>
  The chain loop, with the objects kept so far (\<open>ks\<close>) before those still to visit (\<open>xs\<close>).
\<close>

lemma hm_walk_chain_list:
  assumes "hm_list h (hs ! i) (ks @ xs)" and "hm_list h p xs" and "distinct (ks @ xs)" and "i < length hs"
  shows "\<exists>hs' h'. hm_walk_chain (hm_sweep P upd) i (hm_prev ks) p hs h s =
      Some (None, hm_prev (ks @ filter (\<lambda>a. \<not> P a) xs), hs', h', foldl (\<lambda>s a. upd a s) s xs) \<and>
    (\<exists>v. hs' = hs[i := v]) \<and> hm_list h' (hs' ! i) (ks @ filter (\<lambda>a. \<not> P a) xs) \<and>
    hm_same (set (ks @ xs)) h h'"
  using assms
proof (induction xs arbitrary: ks p hs h s)
  case Nil
  then show ?case by (auto simp: hm_walk_chain.simps intro!: exI [of _ "hs ! i"])
next
  case (Cons a xs)
  from Cons.prems(2) obtain it where it: "p = Some a" "h a = Some it" "hm_list h (hi_next it) xs"
    by (auto split: option.splits)
  show ?case
  proof (cases "P a")
    case True
    obtain hs1 h1 where un: "hm_unlink i (hm_prev ks) (hi_next it) hs h = (hs1, h1)" by fastforce
    from hm_unlink_list [OF Cons.prems(1,3) it(2) Cons.prems(4) un]
    have u: "hm_list h1 (hs1 ! i) (ks @ xs)" "hm_list h1 (hi_next it) xs" "\<exists>v. hs1 = hs[i := v]"
      "hm_same (set ks) h h1" by auto
    have "distinct (ks @ xs)" "i < length hs1" using Cons.prems(3,4) u(3) by auto
    from Cons.IH [OF u(1,2) this, of "upd a s"] obtain hs' h' where r:
      "hm_walk_chain (hm_sweep P upd) i (hm_prev ks) (hi_next it) hs1 h1 (upd a s) =
        Some (None, hm_prev (ks @ filter (\<lambda>a. \<not> P a) xs), hs', h', foldl (\<lambda>s a. upd a s) (upd a s) xs)"
      "\<exists>v. hs' = hs1[i := v]" "hm_list h' (hs' ! i) (ks @ filter (\<lambda>a. \<not> P a) xs)"
      "hm_same (set (ks @ xs)) h1 h'" by blast
    have "hm_same (set (ks @ a # xs)) h h'" by (rule hm_same_trans [OF u(4) r(4)]) auto
    moreover have "hm_walk_chain (hm_sweep P upd) i (hm_prev ks) p hs h s =
        hm_walk_chain (hm_sweep P upd) i (hm_prev ks) (hi_next it) hs1 h1 (upd a s)"
      by (subst hm_walk_chain.simps) (simp add: it Let_def True un)
    ultimately show ?thesis using r u(3) True by auto
  next
    case False
    have "hm_list h (hs ! i) ((ks @ [a]) @ xs)" "distinct ((ks @ [a]) @ xs)"
      using Cons.prems by simp_all
    from Cons.IH [OF this(1) it(3) this(2) Cons.prems(4), of "upd a s"] obtain hs' h' where r:
      "hm_walk_chain (hm_sweep P upd) i (hm_prev (ks @ [a])) (hi_next it) hs h (upd a s) =
        Some (None, hm_prev ((ks @ [a]) @ filter (\<lambda>a. \<not> P a) xs), hs', h', foldl (\<lambda>s a. upd a s) (upd a s) xs)"
      "\<exists>v. hs' = hs[i := v]" "hm_list h' (hs' ! i) ((ks @ [a]) @ filter (\<lambda>a. \<not> P a) xs)"
      "hm_same (set ((ks @ [a]) @ xs)) h h'" by blast
    have "hm_prev (ks @ [a]) = Some a" by (simp add: hm_prev_def)
    then have "hm_walk_chain (hm_sweep P upd) i (hm_prev ks) p hs h s =
        hm_walk_chain (hm_sweep P upd) i (hm_prev (ks @ [a])) (hi_next it) hs h (upd a s)"
      by (subst hm_walk_chain.simps) (simp add: it Let_def False)
    then show ?thesis using r False by auto
  qed
qed

lemma hm_walk_buckets_list:
  assumes "\<forall>j < length hs. hm_list h (hs ! j) (cs ! j)" and "length cs = length hs"
    and "distinct (concat cs)" and "distinct is" and "set is \<subseteq> {..<length hs}"
  shows "\<exists>hs' h'. hm_walk_buckets (hm_sweep P upd) is hs h s =
      Some (None, hs', h', foldl (\<lambda>s a. upd a s) s (concat (map ((!) cs) is))) \<and>
    length hs' = length hs \<and> hm_key h' = hm_key h \<and>
    (\<forall>j < length hs. hm_list h' (hs' ! j) (if j \<in> set is then filter (\<lambda>a. \<not> P a) (cs ! j) else cs ! j))"
  using assms
proof (induction "is" arbitrary: hs h s cs)
  case Nil
  then show ?case by auto
next
  case (Cons i js)
  let ?f = "filter (\<lambda>a. \<not> P a) (cs ! i)"
  have i: "i < length hs" "distinct (cs ! i)" using Cons.prems by (auto simp: distinct_concat_iff)
  then have "hm_list h (hs ! i) ([] @ cs ! i)" "distinct ([] @ cs ! i)" "hm_list h (hs ! i) (cs ! i)"
    using Cons.prems(1) by auto
  from hm_walk_chain_list [OF this(1,3,2) i(1), of P upd s] obtain hs1 h1 v where c:
    "hm_walk_chain (hm_sweep P upd) i None (hs ! i) hs h s =
        Some (None, hm_prev ?f, hs1, h1, foldl (\<lambda>s a. upd a s) s (cs ! i))"
    "hs1 = hs[i := v]" "hm_list h1 (hs1 ! i) ?f" "hm_same (set (cs ! i)) h h1"
    by (auto simp: hm_prev_def)
  have same: "(if hm_prev ?f = None then hs1[i := None] else hs1) = hs1"
    using c(2,3) i(1) by (auto simp: hm_prev_def simp del: filter_False split: if_splits)
  let ?cs = "cs[i := ?f]"
  have disj: "set (cs ! j) \<inter> set (cs ! i) = {}" if "j < length hs" "j \<noteq> i" for j
    using that i(1) Cons.prems(2) by (intro distinct_concat_disjoint [OF Cons.prems(3)]) simp_all
  have "\<forall>j < length hs1. hm_list h1 (hs1 ! j) (?cs ! j)"
    using c(2-4) Cons.prems(1,2) i(1) disj by (auto simp: nth_list_update hm_same_def)
  moreover have "distinct (concat ?cs)"
    using i(1) Cons.prems(2) by (intro distinct_concat_filter [OF Cons.prems(3)]) simp
  moreover have "length ?cs = length hs1" "distinct js" "set js \<subseteq> {..<length hs1}"
    using Cons.prems c(2) by auto
  ultimately obtain hs' h' where r: "hm_walk_buckets (hm_sweep P upd) js hs1 h1 (foldl (\<lambda>s a. upd a s) s (cs ! i)) =
      Some (None, hs', h', foldl (\<lambda>s a. upd a s) (foldl (\<lambda>s a. upd a s) s (cs ! i)) (concat (map ((!) ?cs) js)))"
    "length hs' = length hs1" "hm_key h' = hm_key h1"
    "\<forall>j < length hs1. hm_list h' (hs' ! j) (if j \<in> set js then filter (\<lambda>a. \<not> P a) (?cs ! j) else ?cs ! j)"
    using Cons.IH [of hs1 h1 ?cs "foldl (\<lambda>s a. upd a s) s (cs ! i)"] by blast
  have "i \<notin> set js" using Cons.prems(4) by simp
  then have mp: "map ((!) ?cs) js = map ((!) cs) js" by (intro map_cong [OF refl] nth_list_update_neq) auto
  have "hm_walk_buckets (hm_sweep P upd) (i # js) hs h s =
      Some (None, hs', h', foldl (\<lambda>s a. upd a s) s (concat (map ((!) cs) (i # js))))"
    using r(1) [unfolded mp] c(1) same by simp
  moreover have "\<forall>j < length hs. hm_list h' (hs' ! j)
      (if j \<in> set (i # js) then filter (\<lambda>a. \<not> P a) (cs ! j) else cs ! j)"
    using r(4) c(2) i(1) \<open>i \<notin> set js\<close> Cons.prems(2) by (auto simp: nth_list_update split: if_splits)
  moreover have "hm_key h1 = hm_key h" using c(4) by (simp add: hm_same_def)
  moreover have "length hs' = length hs" using r(2) c(2) by simp
  ultimately show ?case using r(3) by metis
qed

lemma hash_map_walk_refines:
  assumes ref: "hm_refines hm h m"
  shows "\<exists>order hm' h'. distinct order \<and> set order = ran m \<and>
    hash_map_walk hm h (hm_sweep P upd) arg = Inr (None, hm', h', foldl (\<lambda>s a. upd a s) arg order) \<and>
    hm_refines hm' h' (\<lambda>k. if (\<exists>a. m k = Some a \<and> P a) then None else m k)"
proof -
  let ?F = "filter (\<lambda>a. \<not> P a)"
  from ref obtain cs where rep: "hm_rep hm h cs"
    and m: "\<And>k a. m k = Some a \<longleftrightarrow> a \<in> set (concat cs) \<and> hm_key h a = Some k"
    by (rule hm_refinesE) blast
  have len: "length cs = hm_size hm" "length (hm_heads hm) = hm_size hm" and dist: "distinct (concat cs)"
    and lst: "\<forall>j < length (hm_heads hm). hm_list h (hm_heads hm ! j) (cs ! j)"
    using rep by (auto simp: hm_rep_def)
  have all: "map ((!) cs) [0..<hm_size hm] = cs" using len(1) by (metis map_nth)
  have "length cs = length (hm_heads hm)" "set [0..<hm_size hm] \<subseteq> {..<length (hm_heads hm)}"
    using len by auto
  from hm_walk_buckets_list [OF lst this(1) dist distinct_upt this(2), of P upd arg, unfolded all]
  obtain hs' h' where w: "hm_walk_buckets (hm_sweep P upd) [0..<hm_size hm] (hm_heads hm) h arg =
      Some (None, hs', h', foldl (\<lambda>s a. upd a s) arg (concat cs))" "length hs' = length (hm_heads hm)"
    "hm_key h' = hm_key h" "\<forall>j < length (hm_heads hm). hm_list h' (hs' ! j)
       (if j \<in> set [0..<hm_size hm] then ?F (cs ! j) else cs ! j)"
    by blast
  have cat: "concat (map ?F cs) = ?F (concat cs)" by (simp add: filter_concat)
  have "inj_on (hm_key h) {x \<in> set (concat cs). \<not> P x}"
    using rep by (auto simp: hm_rep_def inj_on_def simp del: set_concat)
  with rep len w(2-4) have "hm_rep (hm\<lparr>hm_heads := hs'\<rparr>) h' (map ?F cs)"
    unfolding hm_rep_def cat
    by (simp add: distinct_filter del: set_concat)
  moreover have "(if (\<exists>a. m k = Some a \<and> P a) then None else m k) = Some a \<longleftrightarrow> m k = Some a \<and> \<not> P a" for k a
    by auto
  ultimately have "hm_refines (hm\<lparr>hm_heads := hs'\<rparr>) h' (\<lambda>k. if (\<exists>a. m k = Some a \<and> P a) then None else m k)"
    unfolding hm_refines_def
    by (intro exI [of _ "map ?F cs"]) (auto simp: cat m w(3) simp del: set_concat)
  moreover have "set (concat cs) = ran m"
  proof -
    have "\<exists>k. hm_key h a = Some k" if "a \<in> set (concat cs)" for a
    proof -
      from that obtain c where "c \<in> set cs" "a \<in> set c" by auto
      then obtain i where "i < hm_size hm" "a \<in> set (cs ! i)" using len by (metis in_set_conv_nth)
      then show ?thesis using rep unfolding hm_rep_def by blast
    qed
    then show ?thesis by (auto simp: ran_def m simp del: set_concat)
  qed
  moreover have "hash_map_walk hm h (hm_sweep P upd) arg =
      Inr (None, hm\<lparr>hm_heads := hs'\<rparr>, h', foldl (\<lambda>s a. upd a s) arg (concat cs))"
    using rep w(1) by (simp add: hash_map_walk_def hm_rep_def)
  ultimately show ?thesis using dist by blast
qed

section \<open>The table interface\<close>

text \<open>
  What the registries of the program (request schedulers, random generators, dispatchers,
  workload types, thread pools) rely on: looking up a key gives the registered object,
  registering an unlinked object with a new key succeeds and adds exactly that entry.
\<close>

locale object_table =
  fixes repr :: "'s \<Rightarrow> ('k \<rightharpoonup> addr) \<Rightarrow> bool"
    and key_of :: "'s \<Rightarrow> addr \<Rightarrow> 'k option"
    and unlinked :: "'s \<Rightarrow> addr \<Rightarrow> bool"
    and reg :: "'s \<Rightarrow> addr \<Rightarrow> 's option"
    and look :: "'s \<Rightarrow> 'k \<Rightarrow> addr option"
  assumes look_repr: "repr s m \<Longrightarrow> look s k = m k"
    and reg_new: "repr s m \<Longrightarrow> key_of s a = Some k \<Longrightarrow> unlinked s a \<Longrightarrow> m k = None \<Longrightarrow> a \<notin> ran m \<Longrightarrow>
      \<exists>s'. reg s a = Some s' \<and> repr s' (m(k \<mapsto> a)) \<and> key_of s' = key_of s \<and>
           (\<forall>b. b \<notin> ran m \<and> unlinked s b \<longrightarrow> unlinked s' b)"
begin

primrec reg_all :: "'s \<Rightarrow> addr list \<Rightarrow> 's option" where
  "reg_all s [] = Some s"
| "reg_all s (a # as) = (case reg s a of None \<Rightarrow> None | Some s' \<Rightarrow> reg_all s' as)"

lemma reg_all_repr:
  assumes "repr s m" and "\<And>a. a \<in> set as \<Longrightarrow> unlinked s a \<and> key_of s a \<noteq> None \<and> a \<notin> ran m"
    and "\<And>a. a \<in> set as \<Longrightarrow> m (the (key_of s a)) = None"
    and "distinct as" and "inj_on (key_of s) (set as)"
  shows "\<exists>s'. reg_all s as = Some s' \<and> key_of s' = key_of s \<and>
           repr s' (m ++ map_of (rev (map (\<lambda>a. (the (key_of s a), a)) as)))"
  using assms
proof (induction as arbitrary: s m)
  case Nil
  then show ?case by simp
next
  case (Cons a as)
  have "unlinked s a" "key_of s a \<noteq> None" "a \<notin> ran m" "m (the (key_of s a)) = None"
    using Cons.prems(2,3) [of a] by simp_all
  then obtain k where k: "key_of s a = Some k" and "m k = None" "unlinked s a" "a \<notin> ran m"
    by auto
  from reg_new [OF Cons.prems(1) k \<open>unlinked s a\<close> \<open>m k = None\<close> \<open>a \<notin> ran m\<close>] obtain s' where s': "reg s a = Some s'"
    "repr s' (m(k \<mapsto> a))" "key_of s' = key_of s" "\<And>b. b \<notin> ran m \<and> unlinked s b \<longrightarrow> unlinked s' b"
    by blast
  have ran: "ran (m(k \<mapsto> a)) = insert a (ran m)" using \<open>m k = None\<close> by (rule ran_map_upd)
  have "the (key_of s b) \<noteq> k" if "b \<in> set as" for b
    using that Cons.prems(2,4,5) k by (metis distinct.simps(2) inj_on_contraD list.set_intros option.exhaust_sel)
  note k_new = this
  have prem: "unlinked s' b \<and> key_of s' b \<noteq> None \<and> b \<notin> ran (m(k \<mapsto> a))"
    "(m(k \<mapsto> a)) (the (key_of s' b)) = None" if b: "b \<in> set as" for b
  proof -
    have "b \<noteq> a" using b Cons.prems(4) by auto
    moreover have "unlinked s b" "key_of s b \<noteq> None" "b \<notin> ran m" "m (the (key_of s b)) = None"
      using Cons.prems(2,3) [of b] b by simp_all
    ultimately show "unlinked s' b \<and> key_of s' b \<noteq> None \<and> b \<notin> ran (m(k \<mapsto> a))"
      "(m(k \<mapsto> a)) (the (key_of s' b)) = None"
      using s'(3,4) k_new [OF b] unfolding ran by auto
  qed
  have "\<exists>s''. reg_all s' as = Some s'' \<and> key_of s'' = key_of s' \<and>
           repr s'' (m(k \<mapsto> a) ++ map_of (rev (map (\<lambda>a. (the (key_of s' a), a)) as)))"
    using Cons.prems(4,5) s'(3) by (intro Cons.IH [OF s'(2) prem]) auto
  with s' k show ?case by auto
qed

lemma reg_all_look:
  assumes "repr s Map.empty" and "\<And>a. a \<in> set as \<Longrightarrow> unlinked s a \<and> key_of s a \<noteq> None"
    and "distinct as" and "inj_on (key_of s) (set as)"
  shows "\<exists>s'. reg_all s as = Some s' \<and> key_of s' = key_of s \<and>
           (\<forall>a \<in> set as. look s' (the (key_of s a)) = Some a)"
proof -
  let ?kv = "\<lambda>a. (the (key_of s a), a)"
  obtain s' where s': "reg_all s as = Some s'" "key_of s' = key_of s"
    "repr s' (Map.empty ++ map_of (rev (map ?kv as)))"
    using reg_all_repr [of s Map.empty as] assms by auto
  have inj: "inj_on (\<lambda>a. the (key_of s a)) (set as)"
    using assms(2,4) by (intro inj_onI) (metis inj_onD option.expand)
  have "map_of (rev (map ?kv as)) (the (key_of s a)) = Some a" if "a \<in> set as" for a
    using that assms(3) inj by (intro map_of_is_SomeI) (auto simp: distinct_map comp_def rev_map)
  with s' look_repr [OF s'(3)] show ?thesis by (auto simp: map_add_def)
qed

end

definition hm_table_insert :: "'k hashmap \<times> 'k hm_heap \<Rightarrow> addr \<Rightarrow> ('k hashmap \<times> 'k hm_heap) option" where
  "hm_table_insert s a =
     (case hash_map_insert (fst s) (snd s) a of
        Inr (hm', h', HASH_MAP_OK) \<Rightarrow> Some (hm', h') | _ \<Rightarrow> None)"

definition hm_table_find :: "'k hashmap \<times> 'k hm_heap \<Rightarrow> 'k \<Rightarrow> addr option" where
  "hm_table_find s k = (case hash_map_find (fst s) (snd s) k of Inr r \<Rightarrow> r | Inl _ \<Rightarrow> None)"

definition hm_unlinked :: "'k hashmap \<times> 'k hm_heap \<Rightarrow> addr \<Rightarrow> bool" where
  "hm_unlinked s a \<longleftrightarrow> hm_next (snd s) a = Some None"

interpretation hmt: object_table
  "\<lambda>s m. hm_refines (fst s) (snd s) m" "\<lambda>s. hm_key (snd s)" hm_unlinked hm_table_insert hm_table_find
proof
  show "hm_table_find s k = m k" if "hm_refines (fst s) (snd s) m"
    for s :: "'k hashmap \<times> 'k hm_heap" and m k
    using hash_map_find_refines [OF that] by (simp add: hm_table_find_def)
next
  fix s :: "'k hashmap \<times> 'k hm_heap" and m a k
  assume ref: "hm_refines (fst s) (snd s) m" and key: "hm_key (snd s) a = Some k"
    and unl: "hm_unlinked s a" and new: "m k = None" and ran: "a \<notin> ran m"
  from key unl obtain it where it: "snd s a = Some it" "hi_next it = None" "hi_key it = k"
    by (auto simp: hm_key_def hm_unlinked_def hm_next_def)
  from it(3) new have "m (hi_key it) = None" by simp
  from hash_map_insert_refines [OF ref it(1,2) this ran, unfolded it(3)]
  obtain hm' h' where "hash_map_insert (fst s) (snd s) a = Inr (hm', h', HASH_MAP_OK)"
    "hm_refines hm' h' (m(k \<mapsto> a))" "\<And>b. hm_key h' b = hm_key (snd s) b"
    "\<And>b. b \<notin> ran m \<Longrightarrow> h' b = snd s b" by blast
  then show "\<exists>s'. hm_table_insert s a = Some s' \<and> hm_refines (fst s') (snd s') (m(k \<mapsto> a)) \<and>
      hm_key (snd s') = hm_key (snd s) \<and> (\<forall>b. b \<notin> ran m \<and> hm_unlinked s b \<longrightarrow> hm_unlinked s' b)"
    by (intro exI [of _ "(hm', h')"]) (auto simp: hm_table_insert_def hm_unlinked_def hm_next_def fun_eq_iff)
qed


section \<open>Properties\<close>

text \<open>
  C10. Lookup: \<open>hash_map_find\<close> on a well-formed table returns exactly the object the abstract map
  holds under the key, and \<open>NULL\<close> when it holds none; the walk over the bucket ends.
\<close>

theorem hash_map_find_correct:
  assumes "hm_refines hm h m"
  shows "hash_map_find hm h k = Inr (m k)"
  using assms by (rule hash_map_find_refines)

text \<open>A table with one object, reached by registering it in an empty table.\<close>

definition demo_map :: "string hashmap" where
  "demo_map = hash_map_init (DECLARE_HASH_MAP_STRKEY ''demo'' 8 7) None"

definition demo_heap :: "string hm_heap" where
  "demo_heap = [5 \<mapsto> \<lparr>hi_key = ''rr'', hi_next = None\<rparr>, 6 \<mapsto> \<lparr>hi_key = ''user'', hi_next = None\<rparr>,
     7 \<mapsto> \<lparr>hi_key = ''rr'', hi_next = None\<rparr>]"

definition demo_map1 :: "string hashmap" where
  "demo_map1 = demo_map\<lparr>hm_heads := (hm_heads demo_map)[4 := Some 5]\<rparr>"

lemma demo_map_refines: "hm_refines demo_map h Map.empty"
  unfolding demo_map_def by (rule hm_refines_strkey) simp

lemma demo_hash: "hm_hash_key demo_map ''rr'' = 4" "hm_hash_key demo_map1 ''rr'' = 4"
    "hm_hash_key demo_map ''user'' = 7" "hm_hash_key demo_map1 ''user'' = 7"
  by (simp_all add: demo_map_def demo_map1_def hash_map_init_def DECLARE_HASH_MAP_STRKEY_def
      hm_string_hash_def cstr_def NUL_def char_val_def)

lemma demo_at: "demo_heap 5 = Some \<lparr>hi_key = ''rr'', hi_next = None\<rparr>"
    "demo_heap 6 = Some \<lparr>hi_key = ''user'', hi_next = None\<rparr>"
    "demo_heap 7 = Some \<lparr>hi_key = ''rr'', hi_next = None\<rparr>"
  by (simp_all add: demo_heap_def)

lemma demo_map1_insert: "hash_map_insert demo_map demo_heap 5 = Inr (demo_map1, demo_heap, HASH_MAP_OK)"
proof -
  have "length (hm_heads demo_map) = 8" "hm_heads demo_map ! 4 = None" "\<not> hm_locked demo_map"
    by (simp_all add: demo_map_def hash_map_init_def DECLARE_HASH_MAP_STRKEY_def)
  then show ?thesis
    by (simp add: hash_map_insert_def hm_hash_object_def demo_hash demo_map1_def demo_at)
qed

lemma demo_map1_refines: "hm_refines demo_map1 demo_heap [''rr'' \<mapsto> 5]"
  using hash_map_insert_refines [OF demo_map_refines, of demo_heap 5 "\<lparr>hi_key = ''rr'', hi_next = None\<rparr>"]
  by (auto simp: demo_map1_insert demo_at)

theorem hash_map_find_correct_witness:
  "hash_map_find demo_map1 demo_heap ''rr'' = Inr (Some 5) \<and> hash_map_find demo_map1 demo_heap ''user'' = Inr None"
  using hash_map_find_correct [OF demo_map1_refines, of "''rr''"]
    hash_map_find_correct [OF demo_map1_refines, of "''user''"] by simp

text \<open>
  C9. Insertion: an unlinked object with a new key is added, the table then represents the
  map extended by it and all keys are kept; an object whose key is present leaves table and
  store as they were and reports \<open>HASH_MAP_DUPLICATE\<close>.
\<close>

theorem hash_map_insert_correct:
  assumes "hm_refines hm h m" and "h object = Some it" and "hi_next it = None" and "object \<notin> ran m"
  shows "case m (hi_key it) of
      None \<Rightarrow> \<exists>hm' h'. hash_map_insert hm h object = Inr (hm', h', HASH_MAP_OK) \<and>
               hm_refines hm' h' (m(hi_key it \<mapsto> object)) \<and> (\<forall>a. hm_key h' a = hm_key h a)
    | Some _ \<Rightarrow> hash_map_insert hm h object = Inr (hm, h, HASH_MAP_DUPLICATE)"
proof (cases "m (hi_key it)")
  case None
  with hash_map_insert_refines [OF assms(1,2,3) None assms(4)] show ?thesis by auto
next
  case (Some a)
  with hash_map_insert_duplicate [OF assms(1,2) Some] show ?thesis by simp
qed

theorem hash_map_insert_correct_witness:
  "hash_map_insert demo_map1 demo_heap 7 = Inr (demo_map1, demo_heap, HASH_MAP_DUPLICATE) \<and>
   (\<exists>hm' h'. hash_map_insert demo_map1 demo_heap 6 = Inr (hm', h', HASH_MAP_OK) \<and>
      hm_refines hm' h' [''rr'' \<mapsto> 5, ''user'' \<mapsto> 6])"
  using hash_map_insert_correct [OF demo_map1_refines demo_at(3)]
    hash_map_insert_correct [OF demo_map1_refines demo_at(2)]
  by auto

text \<open>
  C31. Removal: removing a linked object succeeds, wherever it stands in its bucket, and the
  table then represents the map without its key.
\<close>

theorem hash_map_remove_correct:
  assumes "hm_refines hm h m" and "h object = Some it" and "m (hi_key it) = Some object"
  shows "\<exists>hm' h'. hash_map_remove hm h object = Inr (hm', h', HASH_MAP_OK) \<and>
           hm_refines hm' h' (m(hi_key it := None)) \<and> (\<forall>a. hm_key h' a = hm_key h a)"
  using hash_map_remove_refines [OF assms] by blast

theorem hash_map_remove_correct_witness:
  "\<exists>hm' h'. hash_map_remove demo_map1 demo_heap 5 = Inr (hm', h', HASH_MAP_OK) \<and>
     hm_refines hm' h' (Map.empty :: string \<rightharpoonup> addr)"
  using hash_map_remove_correct [OF demo_map1_refines demo_at(1)]
  by auto

text \<open>
  C32. A walk with a callback that removes the objects of a set \<open>P\<close> and never stops visits every
  object exactly once, threads the callback's argument through the visits, and leaves the
  table representing the map without the removed objects.
\<close>

theorem hash_map_walk_removes:
  assumes "hm_refines hm h m"
  shows "\<exists>order hm' h'. distinct order \<and> set order = ran m \<and>
    hash_map_walk hm h (hm_sweep P upd) arg = Inr (None, hm', h', foldl (\<lambda>s a. upd a s) arg order) \<and>
    hm_refines hm' h' (\<lambda>k. if (\<exists>a. m k = Some a \<and> P a) then None else m k)"
  using assms by (rule hash_map_walk_refines)

theorem hash_map_walk_removes_witness:
  "\<exists>order hm' h'. distinct order \<and> set order = ran [''rr'' \<mapsto> (5 :: addr)] \<and>
    hash_map_walk demo_map1 demo_heap (hm_sweep (\<lambda>a. a = 5) (\<lambda>a s. s + a)) 0 =
      Inr (None, hm', h', foldl (\<lambda>s a. s + a) 0 order) \<and>
    hm_refines hm' h' (\<lambda>k. if (\<exists>a. [''rr'' \<mapsto> (5 :: addr)] k = Some a \<and> a = 5) then None else [''rr'' \<mapsto> 5] k)"
  by (rule hash_map_walk_removes [OF demo_map1_refines])

text \<open>
  Removing an object that is not linked: when its bucket is empty \<open>hash_map_remove\<close>
  returns with the mutex of the table held, and from then on every operation on the table
  blocks; otherwise it reports \<open>HASH_MAP_NOT_FOUND\<close> and changes nothing.
\<close>

theorem hash_map_remove_missing_locks:
  assumes "hm_refines hm h m" and "h object = Some it" and "m (hi_key it) \<noteq> Some object"
  shows "\<exists>hm'. hash_map_remove hm h object = Inr (hm', h, HASH_MAP_NOT_FOUND) \<and>
    (if hm_heads hm ! hm_hash_key hm (hi_key it) = None
     then (\<forall>k. hash_map_find hm' h k = Inl HmBlocked) \<and> hash_map_insert hm' h object = Inl HmBlocked
     else hm' = hm)"
  using hash_map_remove_missing [OF assms] hash_map_locked_blocks [of "hm\<lparr>hm_locked := True\<rparr>" h object it] assms(2)
  by (cases "hm_heads hm ! hm_hash_key hm (hi_key it)") auto

theorem hash_map_remove_missing_locks_witness:
  "\<exists>hm'. hash_map_remove demo_map1 demo_heap 6 = Inr (hm', demo_heap, HASH_MAP_NOT_FOUND) \<and>
     hash_map_find hm' demo_heap ''rr'' = Inl HmBlocked"
proof -
  have "hm_heads demo_map1 ! 7 = None"
    by (simp add: demo_map1_def demo_map_def hash_map_init_def DECLARE_HASH_MAP_STRKEY_def)
  then show ?thesis
    using hash_map_remove_missing_locks [OF demo_map1_refines demo_at(2)]
    by (auto simp: demo_hash)
qed

end
