(* ===== verification/RequestQueue.thy ===== *)
theory RequestQueue
  imports TsPrelude
begin

text \<open>
  The arrival-ordered request queues of the thread pool (\<open>libtsload/threadpool.c\<close>) and the
  queue-based dispatchers (\<open>libtsload/tpdisp/queue.c\<close>, \<open>tpdisp.h\<close>). A queue is the list of its
  requests in link order; a list node is the address of the request that embeds it, so a
  hint (\<open>list_node_t*\<close>) is an optional address. Dereferencing \<open>NULL\<close>, using a node that is
  not linked and a failed \<open>assert\<close> are values of \<open>tp_error\<close>.
\<close>

section \<open>Requests and their order\<close>

record tp_workload =
  wl_name :: string
  wl_start_clock :: int
  wl_current_step :: int

record request =
  rq_addr :: addr
  rq_step :: int
  rq_id :: int
  rq_user_id :: int
  rq_thread_id :: int
  rq_sched_time :: int
  rq_flags :: cuint
  rq_workload :: tp_workload

datatype tp_error = TpNullDeref | TpUnlinked | TpAssert | TpBadWorker

definition tp_compare_requests :: "request \<Rightarrow> request \<Rightarrow> int" where
  "tp_compare_requests rq1 rq2 =
     (let time1 = rq_sched_time rq1 + wl_start_clock (rq_workload rq1);
          time2 = rq_sched_time rq2 + wl_start_clock (rq_workload rq2)
      in if time2 > time1 then 100
         else if time2 < time1 then -100
         else rq_id rq2 - rq_id rq1)"

section \<open>Insertion with hints\<close>

text \<open>Positions in the queue: the linked request at an address, what follows and precedes it.\<close>

definition rq_at :: "request list \<Rightarrow> addr \<Rightarrow> request option" where
  "rq_at q a = List.find (\<lambda>r. rq_addr r = a) q"

definition nodes_after :: "request list \<Rightarrow> addr \<Rightarrow> request list" where
  "nodes_after q a = tl (dropWhile (\<lambda>r. rq_addr r \<noteq> a) q)"

definition nodes_before :: "request list \<Rightarrow> addr \<Rightarrow> request list" where
  "nodes_before q a = rev (takeWhile (\<lambda>r. rq_addr r \<noteq> a) q)"

text \<open>\<open>__list_add(rq, prev, next)\<close>: links \<open>rq\<close> between two nodes, which have to be neighbours.\<close>

definition list_add_between :: "request \<Rightarrow> addr \<Rightarrow> addr \<Rightarrow> request list \<Rightarrow> tp_error + request list" where
  "list_add_between rq p n q =
     (case nodes_after q p of
        y # ys \<Rightarrow>
          if rq_addr y = n
          then Inr (takeWhile (\<lambda>r. rq_addr r \<noteq> p) q @
                    (case rq_at q p of None \<Rightarrow> [] | Some r \<Rightarrow> [r]) @ rq # y # ys)
          else Inl TpAssert
      | [] \<Rightarrow> Inl TpAssert)"

text \<open>The two search loops: the node passed last and the node at which the loop broke off.\<close>

fun tp_search_forward :: "request \<Rightarrow> addr \<Rightarrow> request list \<Rightarrow> addr \<times> addr option" where
  "tp_search_forward rq prev [] = (prev, None)"
| "tp_search_forward rq prev (r # rs) =
     (if tp_compare_requests rq r \<ge> 0 then (prev, Some (rq_addr r))
      else tp_search_forward rq (rq_addr r) rs)"

fun tp_search_backward :: "request \<Rightarrow> addr \<Rightarrow> request list \<Rightarrow> addr \<times> addr option" where
  "tp_search_backward rq nxt [] = (nxt, None)"
| "tp_search_backward rq nxt (r # rs) =
     (if tp_compare_requests r rq \<ge> 0 then (nxt, Some (rq_addr r))
      else tp_search_backward rq (rq_addr r) rs)"

type_synonym hints = "addr option \<times> addr option"

definition tp_insert_request_impl ::
    "request list \<Rightarrow> request \<Rightarrow> hints \<Rightarrow> tp_error + (request list \<times> hints)" where
  "tp_insert_request_impl q rq hs =
     (let me = rq_addr rq in
      if q = [] then Inr ([rq], (Some me, Some me))
      else case snd hs of
        None \<Rightarrow> Inl TpNullDeref
      | Some next \<Rightarrow>
        (case rq_at q next of
           None \<Rightarrow> Inl TpUnlinked
         | Some next_rq \<Rightarrow>
           if tp_compare_requests rq next_rq < 0 then
             (case tp_search_forward rq next (nodes_after q next) of
                (p, None) \<Rightarrow> Inr (q @ [rq], (Some p, Some me))
              | (p, Some n) \<Rightarrow>
                  (case list_add_between rq p n q of
                     Inl e \<Rightarrow> Inl e | Inr q' \<Rightarrow> Inr (q', (Some me, Some n))))
           else
             (case fst hs of
                None \<Rightarrow> Inl TpNullDeref
              | Some prev \<Rightarrow>
                (case rq_at q prev of
                   None \<Rightarrow> Inl TpUnlinked
                 | Some prev_rq \<Rightarrow>
                   if tp_compare_requests rq prev_rq \<ge> 0 then
                     (case tp_search_backward rq prev (nodes_before q prev) of
                        (n, None) \<Rightarrow> Inr (rq # q, (Some me, Some n))
                      | (n, Some p) \<Rightarrow>
                          (case list_add_between rq p n q of
                             Inl e \<Rightarrow> Inl e | Inr q' \<Rightarrow> Inr (q', (Some me, Some n))))
                   else
                     (case list_add_between rq prev next q of
                        Inl e \<Rightarrow> Inl e | Inr q' \<Rightarrow> Inr (q', (Some me, Some next)))))))"

definition tp_insert_request_initnodes :: "request list \<Rightarrow> hints" where
  "tp_insert_request_initnodes q =
     (case q of
        [] \<Rightarrow> (None, None)
      | [r] \<Rightarrow> (Some (rq_addr r), Some (rq_addr r))
      | r1 # r2 # _ \<Rightarrow> (Some (rq_addr r1), Some (rq_addr r2)))"

text \<open>
  The two loops of \<open>tp_distribute_requests\<close>: without trace requests, \<open>wls_rq_count\<close> requests
  are created (\<open>wl_create_request\<close> is the argument \<open>create\<close>, which threads the state of the
  workload); otherwise the requests of the trace are unlinked from the step one by one, the
  workloads of the request's chain are held (the argument \<open>hold\<close>) and the step's count is
  incremented. Each request is linked with the hints of the previous one.
\<close>

record workload_step =
  wls_rq_count :: nat
  wls_trace_rqs :: "request list"

fun tp_create_requests ::
    "('s \<Rightarrow> request \<times> 's) \<Rightarrow> nat \<Rightarrow> request list \<Rightarrow> hints \<Rightarrow> 's \<Rightarrow> tp_error + (request list \<times> 's)" where
  "tp_create_requests create 0 q hs s = Inr (q, s)"
| "tp_create_requests create (Suc rq_count) q hs s =
     (let (rq, s1) = create s
      in case tp_insert_request_impl q rq hs of
           Inl e \<Rightarrow> Inl e
         | Inr (q', hs') \<Rightarrow> tp_create_requests create rq_count q' hs' s1)"

fun tp_attach_trace_requests ::
    "(request \<Rightarrow> 's \<Rightarrow> 's) \<Rightarrow> request list \<Rightarrow> nat \<Rightarrow> request list \<Rightarrow> hints \<Rightarrow> 's \<Rightarrow>
     tp_error + (request list \<times> nat \<times> 's)" where
  "tp_attach_trace_requests hold [] rq_count q hs s = Inr (q, rq_count, s)"
| "tp_attach_trace_requests hold (rq # rqs) rq_count q hs s =
     (case tp_insert_request_impl q rq hs of
        Inl e \<Rightarrow> Inl e
      | Inr (q', hs') \<Rightarrow> tp_attach_trace_requests hold rqs (rq_count + 1) q' hs' (hold rq s))"

definition tp_distribute_requests ::
    "('s \<Rightarrow> request \<times> 's) \<Rightarrow> (request \<Rightarrow> 's \<Rightarrow> 's) \<Rightarrow> workload_step \<Rightarrow> request list \<Rightarrow> 's \<Rightarrow>
     tp_error + (request list \<times> workload_step \<times> 's)" where
  "tp_distribute_requests create hold step tp_rq_head s =
     (let hs = tp_insert_request_initnodes tp_rq_head
      in if wls_trace_rqs step = []
         then (case tp_create_requests create (wls_rq_count step) tp_rq_head hs s of
                 Inl e \<Rightarrow> Inl e | Inr (q, s1) \<Rightarrow> Inr (q, step, s1))
         else (case tp_attach_trace_requests hold (wls_trace_rqs step) (wls_rq_count step) tp_rq_head hs s of
                 Inl e \<Rightarrow> Inl e
               | Inr (q, n, s1) \<Rightarrow> Inr (q, step\<lparr>wls_rq_count := n, wls_trace_rqs := []\<rparr>, s1)))"

text \<open>Linking a given list of requests one by one, with the hints passed on.\<close>

fun tp_link_requests :: "request list \<Rightarrow> hints \<Rightarrow> request list \<Rightarrow> tp_error + (request list \<times> hints)" where
  "tp_link_requests q hs [] = Inr (q, hs)"
| "tp_link_requests q hs (rq # rqs) =
     (case tp_insert_request_impl q rq hs of
        Inl e \<Rightarrow> Inl e
      | Inr (q', hs') \<Rightarrow> tp_link_requests q' hs' rqs)"

fun created_requests :: "('s \<Rightarrow> request \<times> 's) \<Rightarrow> nat \<Rightarrow> 's \<Rightarrow> request list \<times> 's" where
  "created_requests create 0 s = ([], s)"
| "created_requests create (Suc n) s =
     (let (rq, s1) = create s; (rqs, s2) = created_requests create n s1 in (rq # rqs, s2))"

text \<open>
  \<open>tpd_relink_request_queue\<close>: a request whose arrival time changed is moved to its place in
  the worker's queue. A request that is not on it is left alone; finding that queue by the worker's
  number, with the assertion on the number, is \<open>tpd_relink_request\<close> of \<open>TpDispatch\<close>.
\<close>

definition tpd_relink_request_queue :: "request list \<Rightarrow> request \<Rightarrow> tp_error + request list" where
  "tpd_relink_request_queue q rq =
     (if rq_at q (rq_addr rq) = None then Inr q
      else
        let prev_rq = (case nodes_before q (rq_addr rq) of [] \<Rightarrow> None | r # _ \<Rightarrow> Some r);
            next_rq = (case nodes_after q (rq_addr rq) of [] \<Rightarrow> None | r # _ \<Rightarrow> Some r);
            need1 = (case prev_rq of None \<Rightarrow> False | Some r \<Rightarrow> tp_compare_requests rq r \<ge> 0);
            need2 = (case next_rq of None \<Rightarrow> False | Some r \<Rightarrow> tp_compare_requests rq r < 0)
        in if need1 \<or> need2
           then (case tp_insert_request_impl (filter (\<lambda>r. rq_addr r \<noteq> rq_addr rq) q) rq
                        (map_option rq_addr prev_rq, map_option rq_addr next_rq) of
                   Inl e \<Rightarrow> Inl e | Inr (q', _) \<Rightarrow> Inr q')
           else Inr q)"


section \<open>Ordered queues\<close>

text \<open>The facts on ordered lists that hold for any total preorder of requests.\<close>

locale queue_order =
  fixes le :: "'r \<Rightarrow> 'r \<Rightarrow> bool"
  assumes le_total: "le a b \<or> le b a"
    and le_trans: "le a b \<Longrightarrow> le b c \<Longrightarrow> le a c"
begin

definition ordered :: "'r list \<Rightarrow> bool" where
  "ordered q \<longleftrightarrow> sorted_wrt le q"

lemma le_refl: "le a a"
  using le_total by blast

lemma ordered_insert:
  assumes "ordered (xs @ ys)" and "\<And>x. x \<in> set xs \<Longrightarrow> le x z" and "\<And>y. y \<in> set ys \<Longrightarrow> le z y"
  shows "ordered (xs @ z # ys)"
  using assms by (auto simp: ordered_def sorted_wrt_append)

lemma ordered_le_last:
  assumes "ordered (xs @ p # ys)" and "le p z" and "x \<in> set (xs @ [p])"
  shows "le x z"
  using assms le_trans by (auto simp: ordered_def sorted_wrt_append)

lemma ordered_le_first:
  assumes "ordered (xs @ n # ys)" and "le z n" and "y \<in> set (n # ys)"
  shows "le z y"
  using assms le_trans by (auto simp: ordered_def sorted_wrt_append)

text \<open>Putting an element between two neighbours it lies between keeps the order.\<close>

lemma ordered_between:
  assumes "ordered (xs @ p # n # ys)" and "le p z" and "le z n"
  shows "ordered (xs @ p # z # n # ys)"
  using ordered_insert [of "xs @ [p]" "n # ys" z] assms
    ordered_le_last [of xs p "n # ys" z] ordered_le_first [of "xs @ [p]" n ys z] by auto

lemma ordered_snoc: "ordered (xs @ [p]) \<Longrightarrow> le p z \<Longrightarrow> ordered ((xs @ [p]) @ [z])"
  using ordered_insert [of "xs @ [p]" "[]" z] ordered_le_last [of xs p "[]" z] by auto

lemma ordered_Cons: "ordered (n # ys) \<Longrightarrow> le z n \<Longrightarrow> ordered (z # n # ys)"
  using ordered_insert [of "[]" "n # ys" z] ordered_le_first [of "[]" n ys z] by auto

end

definition arrives_before :: "request \<Rightarrow> request \<Rightarrow> bool" where
  "arrives_before rq1 rq2 \<longleftrightarrow> tp_compare_requests rq1 rq2 \<ge> 0"

interpretation rqo: queue_order arrives_before
  by unfold_locales (auto simp: arrives_before_def tp_compare_requests_def Let_def split: if_splits)

lemma compare_neg: "tp_compare_requests a b < 0 \<longleftrightarrow> \<not> arrives_before a b"
  by (auto simp: arrives_before_def)

lemma not_arrives_before: "\<not> arrives_before a b \<Longrightarrow> arrives_before b a"
  using rqo.le_total by blast

text \<open>A queue with its linked nodes distinct, in arrival order.\<close>

definition rq_queue :: "request list \<Rightarrow> bool" where
  "rq_queue q \<longleftrightarrow> rqo.ordered q \<and> distinct (map rq_addr q)"

text \<open>Hints that fit a queue: one node, or two neighbours.\<close>

definition hints_ok :: "request list \<Rightarrow> hints \<Rightarrow> bool" where
  "hints_ok q hs \<longleftrightarrow> q = [] \<or>
     (\<exists>xs r ys. q = xs @ r # ys \<and> hs = (Some (rq_addr r), Some (rq_addr r))) \<or>
     (\<exists>xs r1 r2 ys. q = xs @ r1 # r2 # ys \<and> hs = (Some (rq_addr r1), Some (rq_addr r2)))"

lemma hints_ok_single: "hints_ok (xs @ r # ys) (Some (rq_addr r), Some (rq_addr r))"
  unfolding hints_ok_def by blast

lemma hints_ok_pair: "hints_ok (xs @ r1 # r2 # ys) (Some (rq_addr r1), Some (rq_addr r2))"
  unfolding hints_ok_def by blast

lemma position_split:
  assumes "distinct (map rq_addr (xs @ r # ys))"
  shows "rq_at (xs @ r # ys) (rq_addr r) = Some r"
    and "nodes_after (xs @ r # ys) (rq_addr r) = ys"
    and "nodes_before (xs @ r # ys) (rq_addr r) = rev xs"
    and "takeWhile (\<lambda>s. rq_addr s \<noteq> rq_addr r) (xs @ r # ys) = xs"
proof -
  have "\<forall>x \<in> set xs. rq_addr x \<noteq> rq_addr r" using assms by (auto simp: image_iff)
  then show "rq_at (xs @ r # ys) (rq_addr r) = Some r"
    and "nodes_after (xs @ r # ys) (rq_addr r) = ys"
    and "nodes_before (xs @ r # ys) (rq_addr r) = rev xs"
    and "takeWhile (\<lambda>s. rq_addr s \<noteq> rq_addr r) (xs @ r # ys) = xs"
    unfolding rq_at_def nodes_after_def nodes_before_def
    by (induction xs) auto
qed

lemma list_add_between_split:
  assumes "distinct (map rq_addr (xs @ p # n # ys))"
  shows "list_add_between rq (rq_addr p) (rq_addr n) (xs @ p # n # ys) = Inr (xs @ p # rq # n # ys)"
  using position_split [OF assms] by (simp add: list_add_between_def)


text \<open>
  The forward search, started after the node \<open>r0\<close>, stops before the first request that
  arrives later than \<open>rq\<close>; the backward search after the last one that arrives earlier.
\<close>

lemma search_forward_none:
  "\<forall>r \<in> set rs. \<not> arrives_before rq r \<Longrightarrow>
   tp_search_forward rq (rq_addr r0) rs = (rq_addr (last (r0 # rs)), None)"
  by (induction rs arbitrary: r0) (auto simp: arrives_before_def)

lemma search_forward_found:
  "\<forall>u \<in> set us. \<not> arrives_before rq u \<Longrightarrow> arrives_before rq r \<Longrightarrow>
   tp_search_forward rq (rq_addr r0) (us @ r # vs) = (rq_addr (last (r0 # us)), Some (rq_addr r))"
  by (induction us arbitrary: r0) (auto simp: arrives_before_def)

lemma search_backward_none:
  "\<forall>r \<in> set rs. \<not> arrives_before r rq \<Longrightarrow>
   tp_search_backward rq (rq_addr r0) rs = (rq_addr (last (r0 # rs)), None)"
  by (induction rs arbitrary: r0) (auto simp: arrives_before_def)

lemma search_backward_found:
  "\<forall>u \<in> set us. \<not> arrives_before u rq \<Longrightarrow> arrives_before r rq \<Longrightarrow>
   tp_search_backward rq (rq_addr r0) (us @ r # vs) = (rq_addr (last (r0 # us)), Some (rq_addr r))"
  by (induction us arbitrary: r0) (auto simp: arrives_before_def)

text \<open>
  The result of an insertion: one request more, a queue that was in order stays in order,
  hints that fit again.
\<close>

definition inserted :: "request list \<Rightarrow> request \<Rightarrow> tp_error + (request list \<times> hints) \<Rightarrow> bool" where
  "inserted q rq res \<longleftrightarrow>
     (\<exists>q' hs'. res = Inr (q', hs') \<and> distinct (map rq_addr q') \<and> (rqo.ordered q \<longrightarrow> rqo.ordered q') \<and>
        mset q' = add_mset rq (mset q) \<and> hints_ok q' hs')"

lemma inserted_between:
  assumes q: "distinct (map rq_addr (xs @ p # n # ys))" and new: "rq_addr rq \<notin> rq_addr ` set (xs @ p # n # ys)"
    and "arrives_before p rq" and "arrives_before rq n"
  shows "inserted (xs @ p # n # ys) rq
    (case list_add_between rq (rq_addr p) (rq_addr n) (xs @ p # n # ys) of
       Inl e \<Rightarrow> Inl e | Inr q' \<Rightarrow> Inr (q', (Some (rq_addr rq), Some (rq_addr n))))"
proof -
  have "distinct (map rq_addr (xs @ p # rq # n # ys))"
    "rqo.ordered (xs @ p # n # ys) \<longrightarrow> rqo.ordered (xs @ p # rq # n # ys)"
    using assms rqo.ordered_between by auto
  moreover have "hints_ok (xs @ p # rq # n # ys) (Some (rq_addr rq), Some (rq_addr n))"
    using hints_ok_pair [of "xs @ [p]" rq n ys] by simp
  ultimately show ?thesis
    using q by (simp add: inserted_def list_add_between_split)
qed

lemma inserted_tail:
  assumes "distinct (map rq_addr (xs @ [p]))" and "rq_addr rq \<notin> rq_addr ` set (xs @ [p])" and "arrives_before p rq"
  shows "inserted (xs @ [p]) rq (Inr ((xs @ [p]) @ [rq], (Some (rq_addr p), Some (rq_addr rq))))"
proof -
  have "distinct (map rq_addr ((xs @ [p]) @ [rq]))" "rqo.ordered (xs @ [p]) \<longrightarrow> rqo.ordered ((xs @ [p]) @ [rq])"
    using assms rqo.ordered_snoc [of xs p rq] by auto
  moreover have "hints_ok ((xs @ [p]) @ [rq]) (Some (rq_addr p), Some (rq_addr rq))"
    using hints_ok_pair [of xs p rq "[]"] by simp
  ultimately show ?thesis by (auto simp: inserted_def)
qed

lemma inserted_head:
  assumes "distinct (map rq_addr (n # ys))" and "rq_addr rq \<notin> rq_addr ` set (n # ys)" and "arrives_before rq n"
  shows "inserted (n # ys) rq (Inr (rq # n # ys, (Some (rq_addr rq), Some (rq_addr n))))"
proof -
  have "distinct (map rq_addr (rq # n # ys))" "rqo.ordered (n # ys) \<longrightarrow> rqo.ordered (rq # n # ys)"
    using assms rqo.ordered_Cons [of n ys rq] by auto
  moreover have "hints_ok (rq # n # ys) (Some (rq_addr rq), Some (rq_addr n))"
    using hints_ok_pair [of "[]" rq n ys] by simp
  ultimately show ?thesis by (auto simp: inserted_def)
qed

text \<open>Forward search from a node \<open>r0\<close> that arrives before the new request.\<close>

lemma inserted_forward:
  assumes q: "distinct (map rq_addr q)" and split: "q = xs @ r0 # rs" and new: "rq_addr rq \<notin> rq_addr ` set q"
    and after: "\<not> arrives_before rq r0"
  shows "inserted q rq
    (case tp_search_forward rq (rq_addr r0) (nodes_after q (rq_addr r0)) of
       (p, None) \<Rightarrow> Inr (q @ [rq], (Some p, Some (rq_addr rq)))
     | (p, Some n) \<Rightarrow>
         (case list_add_between rq p n q of
            Inl e \<Rightarrow> Inl e | Inr q' \<Rightarrow> Inr (q', (Some (rq_addr rq), Some n))))"
proof -
  have na: "nodes_after q (rq_addr r0) = rs"
    using q unfolding split by (intro position_split)
  show ?thesis
  proof (cases "\<exists>r \<in> set rs. arrives_before rq r")
    case False
    obtain zs p where zp: "r0 # rs = zs @ [p]" "p = last (r0 # rs)"
      by (metis append_butlast_last_id list.distinct(1))
    have "p = r0 \<or> p \<in> set rs" using zp(2) last_in_set [of "r0 # rs"] by auto
    then have pb: "arrives_before p rq" using False after not_arrives_before by blast
    have eq: "q = (xs @ zs) @ [p]" using split zp(1) by simp
    have ins: "inserted q rq (Inr (q @ [rq], (Some (rq_addr p), Some (rq_addr rq))))"
      using q new unfolding eq by (rule inserted_tail [OF _ _ pb])
    have sf: "tp_search_forward rq (rq_addr r0) rs = (rq_addr p, None)"
      using False unfolding zp(2) by (intro search_forward_none) blast
    show ?thesis using ins by (simp add: na sf)
  next
    case True
    then obtain us r vs where rs: "rs = us @ r # vs" "arrives_before rq r"
      "\<forall>u \<in> set us. \<not> arrives_before rq u"
      using split_list_first_prop [of rs "\<lambda>r. arrives_before rq r"] by auto
    obtain zs p where zp: "r0 # us = zs @ [p]" "p = last (r0 # us)"
      by (metis append_butlast_last_id list.distinct(1))
    have "p = r0 \<or> p \<in> set us" using zp(2) last_in_set [of "r0 # us"] by auto
    then have p: "arrives_before p rq" using rs(3) after not_arrives_before by blast
    have eq: "q = (xs @ zs) @ p # r # vs" using split rs(1) zp(1) by (metis append.assoc append_Cons append_Nil)
    have sf: "tp_search_forward rq (rq_addr r0) rs = (rq_addr p, Some (rq_addr r))"
      using search_forward_found [OF rs(3,2), of r0 vs] by (simp only: rs(1) zp(2))
    have "inserted q rq (case list_add_between rq (rq_addr p) (rq_addr r) q of
       Inl e \<Rightarrow> Inl e | Inr q' \<Rightarrow> Inr (q', (Some (rq_addr rq), Some (rq_addr r))))"
      using q new unfolding eq by (rule inserted_between [OF _ _ p rs(2)])
    then show ?thesis by (simp add: na sf)
  qed
qed

lemma inserted_backward:
  assumes q: "distinct (map rq_addr q)" and split: "q = xs @ r0 # rs" and new: "rq_addr rq \<notin> rq_addr ` set q"
    and before: "arrives_before rq r0"
  shows "inserted q rq
    (case tp_search_backward rq (rq_addr r0) (nodes_before q (rq_addr r0)) of
       (n, None) \<Rightarrow> Inr (rq # q, (Some (rq_addr rq), Some n))
     | (n, Some p) \<Rightarrow>
         (case list_add_between rq p n q of
            Inl e \<Rightarrow> Inl e | Inr q' \<Rightarrow> Inr (q', (Some (rq_addr rq), Some n))))"
proof -
  have nb: "nodes_before q (rq_addr r0) = rev xs"
    using q unfolding split by (intro position_split)
  show ?thesis
  proof (cases "\<exists>r \<in> set xs. arrives_before r rq")
    case False
    obtain n zs where nz: "xs @ [r0] = n # zs" by (cases xs) auto
    have n: "n = last (r0 # rev xs)" using nz by (cases xs) auto
    have "n = r0 \<or> n \<in> set xs" using nz by (cases xs) auto
    then have "arrives_before rq n" using False before not_arrives_before by blast
    moreover have eq: "q = n # zs @ rs" using split nz by (metis append.assoc append_Cons append_Nil)
    ultimately have "inserted q rq (Inr (rq # q, (Some (rq_addr rq), Some (rq_addr n))))"
      using q new by (simp add: inserted_head)
    then show ?thesis
      using False search_backward_none [of "rev xs" rq r0] unfolding nb n by simp
  next
    case True
    then obtain us r vs where xs: "rev xs = us @ r # vs" "arrives_before r rq"
      "\<forall>u \<in> set us. \<not> arrives_before u rq"
      using split_list_first_prop [of "rev xs" "\<lambda>r. arrives_before r rq"] by auto
    obtain n zs where nz: "rev us @ [r0] = n # zs" by (cases "rev us") auto
    have n: "n = last (r0 # us)" using nz by (cases us rule: rev_cases) auto
    have "n = r0 \<or> n \<in> set us" unfolding n using last_in_set [of "r0 # us"] by auto
    then have nb': "arrives_before rq n" using xs(3) before not_arrives_before by blast
    have "xs = rev vs @ r # rev us" using xs(1) by (metis append.assoc append_Cons append_Nil rev.simps(2) rev_append rev_rev_ident)
    then have eq: "q = rev vs @ r # n # zs @ rs" using split nz by (metis append.assoc append_Cons append_Nil)
    have sb: "tp_search_backward rq (rq_addr r0) (rev xs) = (rq_addr n, Some (rq_addr r))"
      using search_backward_found [OF xs(3,2), of r0 vs] by (simp only: xs(1) n)
    have "inserted q rq (case list_add_between rq (rq_addr r) (rq_addr n) q of
       Inl e \<Rightarrow> Inl e | Inr q' \<Rightarrow> Inr (q', (Some (rq_addr rq), Some (rq_addr n))))"
      using q new unfolding eq by (rule inserted_between [OF _ _ xs(2) nb'])
    then show ?thesis by (simp add: nb sb)
  qed
qed


lemma hints_ok_cases:
  assumes "hints_ok q hs" and "q \<noteq> []"
  shows "\<exists>xs r1 ys r2 zs. q = xs @ r1 # ys \<and> q = zs @ r2 # (if r1 = r2 then ys else tl ys) \<and>
    hs = (Some (rq_addr r1), Some (rq_addr r2)) \<and> (r1 = r2 \<or> zs = xs @ [r1])"
proof -
  from assms consider xs r ys where "q = xs @ r # ys" "hs = (Some (rq_addr r), Some (rq_addr r))"
    | xs r1 r2 ys where "q = xs @ r1 # r2 # ys" "hs = (Some (rq_addr r1), Some (rq_addr r2))"
    unfolding hints_ok_def by blast
  then show ?thesis
  proof cases
    case (1 xs r ys)
    then show ?thesis
      by (intro exI [of _ xs] exI [of _ r] exI [of _ ys] exI [of _ r] exI [of _ xs]) simp
  next
    case (2 xs r1 r2 ys)
    show ?thesis
    proof (cases "r1 = r2")
      case True
      with 2 show ?thesis
        by (intro exI [of _ xs] exI [of _ r1] exI [of _ "r2 # ys"] exI [of _ r2] exI [of _ xs]) simp
    next
      case False
      with 2 show ?thesis
        by (intro exI [of _ xs] exI [of _ r1] exI [of _ "r2 # ys"] exI [of _ r2] exI [of _ "xs @ [r1]"]) simp
    qed
  qed
qed

text \<open>Inserting with hints that fit never fails and keeps a queue in arrival order.\<close>

lemma tp_insert_request_inserted:
  assumes d: "distinct (map rq_addr q)" and new: "rq_addr rq \<notin> rq_addr ` set q" and hs: "hints_ok q hs"
  shows "inserted q rq (tp_insert_request_impl q rq hs)"
proof (cases "q = []")
  case True
  then show ?thesis
    using hints_ok_single [of "[]" rq "[]"]
    by (simp add: inserted_def tp_insert_request_impl_def rq_queue_def rqo.ordered_def Let_def)
next
  case ne: False
  then obtain xs r1 ys r2 zs where
    sp: "q = xs @ r1 # ys" "q = zs @ r2 # (if r1 = r2 then ys else tl ys)"
    "hs = (Some (rq_addr r1), Some (rq_addr r2))" "r1 = r2 \<or> zs = xs @ [r1]"
    using hints_ok_cases [OF hs ne] by blast
  have at: "rq_at q (rq_addr r1) = Some r1" "rq_at q (rq_addr r2) = Some r2"
    using position_split(1) d sp(1,2) by metis+
  consider (fwd) "\<not> arrives_before rq r2" | (bwd) "arrives_before rq r2" "arrives_before rq r1"
    | (mid) "arrives_before rq r2" "\<not> arrives_before rq r1" by blast
  then show ?thesis
  proof cases
    case fwd
    then show ?thesis
      using inserted_forward [OF d sp(2) new fwd] ne at sp(3)
      by (simp add: tp_insert_request_impl_def Let_def compare_neg)
  next
    case bwd
    then show ?thesis
      using inserted_backward [OF d sp(1) new bwd(2)] ne at sp(3)
      by (simp add: tp_insert_request_impl_def Let_def compare_neg flip: arrives_before_def)
  next
    case mid
    then have "r1 \<noteq> r2" by auto
    with sp have eq: "q = xs @ r1 # r2 # tl ys" by simp
    have "inserted q rq (case list_add_between rq (rq_addr r1) (rq_addr r2) q of
       Inl e \<Rightarrow> Inl e | Inr q' \<Rightarrow> Inr (q', (Some (rq_addr rq), Some (rq_addr r2))))"
      using d new unfolding eq
      by (rule inserted_between [OF _ _ not_arrives_before [OF mid(2)] mid(1)])
    then show ?thesis
      using mid ne at sp(3) by (simp add: tp_insert_request_impl_def Let_def compare_neg flip: arrives_before_def)
  qed
qed

lemma hints_ok_initnodes: "hints_ok q (tp_insert_request_initnodes q)"
proof (cases q)
  case (Cons r ys)
  then show ?thesis
    using hints_ok_pair [of "[]" r] hints_ok_single [of "[]" r "[]"]
    by (cases ys) (auto simp: tp_insert_request_initnodes_def)
qed (simp add: hints_ok_def)

lemma tp_link_requests_sorted:
  assumes "rq_queue q" and "hints_ok q hs" and "distinct (map rq_addr (q @ rqs))"
  shows "\<exists>q' hs'. tp_link_requests q hs rqs = Inr (q', hs') \<and> rq_queue q' \<and> hints_ok q' hs' \<and>
           mset q' = mset q + mset rqs"
  using assms
proof (induction rqs arbitrary: q hs)
  case (Cons rq rqs)
  have "inserted q rq (tp_insert_request_impl q rq hs)"
    using Cons.prems by (intro tp_insert_request_inserted) auto
  with Cons.prems(1) obtain q1 hs1 where q1: "tp_insert_request_impl q rq hs = Inr (q1, hs1)" "rq_queue q1"
    "mset q1 = add_mset rq (mset q)" "hints_ok q1 hs1"
    by (auto simp: inserted_def rq_queue_def)
  have "set q1 = insert rq (set q)" using q1(3) by (metis set_mset_add_mset_insert set_mset_mset)
  then have "distinct (map rq_addr (q1 @ rqs))"
    using Cons.prems(3) q1(2) by (auto simp: rq_queue_def)
  from Cons.IH [OF q1(2,4) this] q1 show ?case by auto
qed simp


lemma relink_position:
  assumes "distinct (map rq_addr (xs @ rq # ys))"
  shows "filter (\<lambda>r. rq_addr r \<noteq> rq_addr rq) (xs @ rq # ys) = xs @ ys"
proof -
  have "filter (\<lambda>r. rq_addr r \<noteq> rq_addr rq) xs = xs" "filter (\<lambda>r. rq_addr r \<noteq> rq_addr rq) ys = ys"
    using assms by (auto simp: image_iff intro!: filter_True)
  then show ?thesis by simp
qed

lemma hints_ok_neighbours:
  assumes "xs \<noteq> []" and "ys \<noteq> []"
  shows "hints_ok (xs @ ys) (Some (rq_addr (last xs)), Some (rq_addr (hd ys)))"
  using hints_ok_pair [of _ "last xs" "hd ys" "tl ys"] assms by (cases xs rule: rev_cases) auto

text \<open>
  Relinking a request of which the rest of the queue is ordered: it moves to its place,
  unless it is the last node and has to move backwards.
\<close>

lemma relink_ordered:
  assumes q: "rq_queue (xs @ ys)" and d: "distinct (map rq_addr (xs @ rq # ys))"
    and not_last: "ys \<noteq> [] \<or> xs = [] \<or> \<not> arrives_before rq (last xs)"
  shows "\<exists>q'. tpd_relink_request_queue (xs @ rq # ys) rq = Inr q' \<and> rq_queue q' \<and>
           mset q' = mset (xs @ rq # ys)"
proof -
  note pos = position_split [OF d] relink_position [OF d]
  have new: "rq_addr rq \<notin> rq_addr ` set (xs @ ys)" using d by auto
  have rest: "distinct (map rq_addr (xs @ ys))" using d by simp
  define need where "need \<longleftrightarrow> (xs \<noteq> [] \<and> arrives_before rq (last xs)) \<or> (ys \<noteq> [] \<and> \<not> arrives_before rq (hd ys))"
  define hs where "hs = (map_option rq_addr (if xs = [] then None else Some (last xs)),
                         map_option rq_addr (if ys = [] then None else Some (hd ys)))"
  have unfold: "tpd_relink_request_queue (xs @ rq # ys) rq =
    (if need then (case tp_insert_request_impl (xs @ ys) rq hs of Inl e \<Rightarrow> Inl e | Inr (q', _) \<Rightarrow> Inr q')
     else Inr (xs @ rq # ys))"
    unfolding tpd_relink_request_queue_def Let_def pos need_def hs_def
    by (cases xs rule: rev_cases; cases ys) (auto simp: compare_neg simp flip: arrives_before_def)
  show ?thesis
  proof (cases need)
    case False
    have "rqo.ordered (xs @ rq # ys)"
    proof (rule rqo.ordered_insert)
      show "rqo.ordered (xs @ ys)" using q by (simp add: rq_queue_def)
      then show "arrives_before x rq" if "x \<in> set xs" for x
        using that False not_arrives_before rqo.ordered_le_last [of _ "last xs" ys rq x]
        by (cases xs rule: rev_cases) (auto simp: need_def)
      show "arrives_before rq y" if "y \<in> set ys" for y
        using that False q rqo.ordered_le_first [of xs "hd ys" "tl ys" rq y]
        by (cases ys) (auto simp: need_def rq_queue_def)
    qed
    with False d unfold show ?thesis by (simp add: rq_queue_def)
  next
    case True
    have "inserted (xs @ ys) rq (tp_insert_request_impl (xs @ ys) rq hs)"
    proof (cases "xs = []")
      case True
      with \<open>need\<close> obtain y ys' where ys: "ys = y # ys'" "\<not> arrives_before rq y"
        by (cases ys) (auto simp: need_def)
      have "inserted ys rq (tp_insert_request_impl ys rq (Some (rq_addr y), Some (rq_addr y)))"
        using tp_insert_request_inserted [of ys rq] hints_ok_single [of "[]" y ys'] rest new True ys(1) by simp
      moreover have "tp_insert_request_impl ys rq (p, Some (rq_addr y)) =
          tp_insert_request_impl ys rq (p', Some (rq_addr y))" for p p'
        using ys by (simp add: tp_insert_request_impl_def Let_def compare_neg rq_at_def)
      ultimately show ?thesis using True ys(1) by (simp add: hs_def) metis
    next
      case False
      with \<open>need\<close> not_last have "ys \<noteq> []" by (auto simp: need_def)
      with False show ?thesis
        using tp_insert_request_inserted [OF rest new hints_ok_neighbours [of xs ys]] by (simp add: hs_def)
    qed
    then show ?thesis using True unfold q by (auto simp: inserted_def rq_queue_def)
  qed
qed

lemma relink_last_null:
  assumes d: "distinct (map rq_addr (xs @ [rq]))" and "xs \<noteq> []" and "arrives_before rq (last xs)"
  shows "tpd_relink_request_queue (xs @ [rq]) rq = Inl TpNullDeref"
  using assms position_split [OF d] relink_position [OF d]
  by (cases xs rule: rev_cases) (auto simp: tpd_relink_request_queue_def tp_insert_request_impl_def
      arrives_before_def Let_def)

section \<open>Distribution of a step\<close>

lemma tp_create_requests_link:
  "tp_create_requests create n q hs s =
     map_sum id (\<lambda>(q', _). (q', snd (created_requests create n s)))
       (tp_link_requests q hs (fst (created_requests create n s)))"
  by (induction n arbitrary: q hs s) (auto simp: Let_def split: prod.splits sum.splits)

lemma tp_attach_trace_link:
  "tp_attach_trace_requests hold rqs n q hs s =
     map_sum id (\<lambda>(q', _). (q', n + length rqs, foldl (\<lambda>s r. hold r s) s rqs)) (tp_link_requests q hs rqs)"
  by (induction rqs arbitrary: q hs n s) (auto split: prod.splits sum.splits)

definition step_requests :: "('s \<Rightarrow> request \<times> 's) \<Rightarrow> workload_step \<Rightarrow> 's \<Rightarrow> request list" where
  "step_requests create step s =
     (if wls_trace_rqs step = [] then fst (created_requests create (wls_rq_count step) s)
      else wls_trace_rqs step)"

text \<open>
  C5. \<open>tp_distribute_requests\<close> links every request of the step, created or taken from the trace,
  into the pool's queue exactly once: the queue stays sorted by arrival time, loses nothing,
  and no hint is dereferenced when it is null or not linked.
\<close>

theorem tp_distribute_requests_sorted:
  assumes "rq_queue q" and "distinct (map rq_addr (q @ step_requests create step s))"
  shows "\<exists>q' step' s'. tp_distribute_requests create hold step q s = Inr (q', step', s') \<and>
           rq_queue q' \<and> mset q' = mset q + mset (step_requests create step s) \<and>
           wls_trace_rqs step' = [] \<and> wls_rq_count step' = wls_rq_count step + length (wls_trace_rqs step)"
  using tp_link_requests_sorted [OF assms(1) hints_ok_initnodes assms(2)]
  by (auto simp: tp_distribute_requests_def tp_create_requests_link tp_attach_trace_link
      step_requests_def Let_def split: prod.splits if_splits)

definition demo_wl :: tp_workload where
  "demo_wl = \<lparr>wl_name = ''w'', wl_start_clock = 0, wl_current_step = 1\<rparr>"

definition demo_rq :: "addr \<Rightarrow> int \<Rightarrow> request" where
  "demo_rq a t = \<lparr>rq_addr = a, rq_step = 1, rq_id = int a, rq_user_id = 0, rq_thread_id = -1,
     rq_sched_time = t, rq_flags = 0, rq_workload = demo_wl\<rparr>"

lemmas demo_rq_simps = demo_rq_def demo_wl_def arrives_before_def tp_compare_requests_def Let_def

lemma demo_queue: "rq_queue [demo_rq 1 10, demo_rq 2 30]"
  by (simp add: rq_queue_def rqo.ordered_def demo_rq_simps)

theorem tp_distribute_requests_sorted_witness:
  "\<exists>q' step' s'. tp_distribute_requests (\<lambda>s. (demo_rq s 0, s + 1)) (\<lambda>r s. s)
       \<lparr>wls_rq_count = 0, wls_trace_rqs = [demo_rq 3 40, demo_rq 4 20]\<rparr>
       [demo_rq 1 10, demo_rq 2 30] 0 = Inr (q', step', s') \<and>
     rq_queue q' \<and> mset q' = {# demo_rq 1 10, demo_rq 2 30, demo_rq 3 40, demo_rq 4 20 #}"
  using tp_distribute_requests_sorted [OF demo_queue, of "\<lambda>s. (demo_rq s 0, s + 1)"
    "\<lparr>wls_rq_count = 0, wls_trace_rqs = [demo_rq 3 40, demo_rq 4 20]\<rparr>" 0 "\<lambda>r s. s"]
  by (auto simp: step_requests_def demo_rq_def)

text \<open>
  C35. Moving a request whose arrival time changed keeps the worker's queue sorted and complete,
  when the request is not the last one of a queue whose previous request arrives later.
\<close>

theorem tpd_relink_keeps_order:
  assumes "rq_queue (xs @ ys)" and "distinct (map rq_addr (xs @ rq # ys))"
    and "ys \<noteq> [] \<or> xs = [] \<or> \<not> arrives_before rq (last xs)"
  shows "\<exists>q'. tpd_relink_request_queue (xs @ rq # ys) rq = Inr q' \<and> rq_queue q' \<and>
           mset q' = mset (xs @ rq # ys)"
  using relink_ordered [OF assms] .

theorem tpd_relink_keeps_order_witness:
  "\<exists>q'. tpd_relink_request_queue [demo_rq 3 99, demo_rq 1 10, demo_rq 2 30] (demo_rq 3 99) = Inr q' \<and> rq_queue q' \<and>
     mset q' = {# demo_rq 3 99, demo_rq 1 10, demo_rq 2 30 #}"
  using tpd_relink_keeps_order [of "[]" "[demo_rq 1 10, demo_rq 2 30]" "demo_rq 3 99"] demo_queue
  by (auto simp: demo_rq_def)

text \<open>
  When the last request of a worker's queue has to move forward, \<open>tpd_relink_request_queue\<close>
  passes a null \<open>next\<close> hint to \<open>tp_insert_request_impl\<close>, which dereferences it.
\<close>

theorem tpd_relink_last_faults:
  assumes "distinct (map rq_addr (xs @ [rq]))" and "xs \<noteq> []" and "arrives_before rq (last xs)"
  shows "tpd_relink_request_queue (xs @ [rq]) rq = Inl TpNullDeref"
  using relink_last_null [OF assms] .

theorem tpd_relink_last_faults_witness:
  "tpd_relink_request_queue [demo_rq 1 10, demo_rq 3 5] (demo_rq 3 5) = Inl TpNullDeref"
  using tpd_relink_last_faults [of "[demo_rq 1 10]" "demo_rq 3 5"] by (simp add: demo_rq_simps)

end
