(* ===== verification/TpDispatch.thy ===== *)
theory TpDispatch
  imports RequestQueue HashMap
begin

text \<open>
  Thread-pool dispatchers: the worker selectors of \<open>tpdisp.h\<close> and \<open>tpdisp/queue.c\<close>, the
  distribution of a step's requests over the workers' queues, the return of unfinished
  requests, the worker side of a queue, and the registry of dispatcher classes of
  \<open>libtsload/tpdisp.c\<close>. \<open>rand()\<close> is a parameter \<open>rnd\<close> that threads its state.
\<close>

section \<open>Thread pool and worker selection\<close>

record thread_pool =
  tp_num_threads :: nat
  tp_discard :: bool
  tp_is_dead :: bool
  tp_rq_head :: "request list"
  tp_workers :: "request list list"

type_synonym 's selector = "nat \<Rightarrow> int \<Rightarrow> request \<Rightarrow> 's \<Rightarrow> int \<times> 's"

definition tpd_next_wid_rr :: "'s selector" where
  "tpd_next_wid_rr n wid rq s =
     (let wid1 = wid + 1 in if wid1 = int n then (0, s) else (wid1, s))"

definition tpd_first_wid_rand :: "('s \<Rightarrow> int \<times> 's) \<Rightarrow> nat \<Rightarrow> 's \<Rightarrow> int \<times> 's" where
  "tpd_first_wid_rand rnd n s = (let (r, s1) = rnd s in (int (to_unsigned r mod n), s1))"

definition tpd_next_wid_rand :: "('s \<Rightarrow> int \<times> 's) \<Rightarrow> 's selector" where
  "tpd_next_wid_rand rnd n wid rq s = tpd_first_wid_rand rnd n s"

definition tpd_next_wid_user :: "'s selector" where
  "tpd_next_wid_user n wid rq s = (int (to_unsigned (rq_user_id rq) mod n), s)"

definition tpd_next_wid_trace :: "('s \<Rightarrow> int \<times> 's) \<Rightarrow> 's selector" where
  "tpd_next_wid_trace rnd n wid rq s =
     (if rq_thread_id rq < 0 then tpd_next_wid_rand rnd n wid rq s
      else (int (to_unsigned (rq_thread_id rq) mod n), s))"

record tpd_fill_up =
  fill_requests :: cuint
  num_rqs :: cuint
  first_wid :: int
  fu_wid :: int

datatype tpd_ret = TPD_OK | TPD_ERROR | TPD_BAD

definition tpd_preinit_fill_up :: "cuint \<Rightarrow> int \<Rightarrow> tpd_fill_up" where
  "tpd_preinit_fill_up num_requests fwid =
     \<lparr>fill_requests = num_requests, num_rqs = 0, first_wid = fwid, fu_wid = fwid\<rparr>"

definition tpd_init_fill_up :: "thread_pool \<Rightarrow> tpd_fill_up \<Rightarrow> tpd_ret" where
  "tpd_init_fill_up tp f =
     (if to_unsigned (first_wid f) \<ge> tp_num_threads tp then TPD_ERROR else TPD_OK)"

definition tpd_next_wid_fill_up :: "tpd_fill_up selector" where
  "tpd_next_wid_fill_up n wid rq f =
     (let f1 = f\<lparr>num_rqs := num_rqs f + 1\<rparr>;
          f2 = (if num_rqs f1 = fill_requests f1
                then let f3 = f1\<lparr>num_rqs := 0, fu_wid := fu_wid f1 + 1\<rparr>
                     in if to_unsigned (fu_wid f3) = n then f3\<lparr>fu_wid := 0\<rparr> else f3
                else f1)
      in (fu_wid f2, f2))"

section \<open>Distribution over the workers\<close>

text \<open>
  The loop of \<open>tpd_control_sleep_queue\<close>: requests left over from earlier steps are not
  touched; the others get their worker id and are linked into that worker's queue.
\<close>

fun tpd_dispatch ::
    "'s selector \<Rightarrow> nat \<Rightarrow> bool \<Rightarrow> request list \<Rightarrow> int \<Rightarrow> 's \<Rightarrow> request list list \<Rightarrow> hints list \<Rightarrow>
     tp_error + (request list \<times> request list list \<times> 's)" where
  "tpd_dispatch next_wid n discard [] wid s ws nodes = Inr ([], ws, s)"
| "tpd_dispatch next_wid n discard (rq # rqs) wid s ws nodes =
     (if rq_step rq \<noteq> wl_current_step (rq_workload rq)
      then map_sum id (\<lambda>(out, r). (rq # out, r)) (tpd_dispatch next_wid n discard rqs wid s ws nodes)
      else
        let (wid1, s1) = next_wid n wid rq s;
            rq1 = rq\<lparr>rq_thread_id := wid1\<rparr>;
            i = nat wid1
        in if wid1 < 0 \<or> length ws \<le> i then Inl TpBadWorker
           else if discard \<or> nodes ! i = (None, None)
           then map_sum id (\<lambda>(out, r). (rq1 # out, r))
                  (tpd_dispatch next_wid n discard rqs wid1 s1 (ws[i := ws ! i @ [rq1]]) nodes)
           else (case tp_insert_request_impl (ws ! i) rq1 (nodes ! i) of
                   Inl e \<Rightarrow> Inl e
                 | Inr (q, hs) \<Rightarrow>
                     map_sum id (\<lambda>(out, r). (rq1 # out, r))
                       (tpd_dispatch next_wid n discard rqs wid1 s1 (ws[i := q]) (nodes[i := hs]))))"

definition tpd_control_sleep_queue ::
    "'s selector \<Rightarrow> thread_pool \<Rightarrow> int \<Rightarrow> 's \<Rightarrow> tp_error + (thread_pool \<times> 's)" where
  "tpd_control_sleep_queue next_wid tp wid s =
     (case tpd_dispatch next_wid (tp_num_threads tp) (tp_discard tp) (tp_rq_head tp) wid s
             (tp_workers tp) (map tp_insert_request_initnodes (tp_workers tp)) of
        Inl e \<Rightarrow> Inl e
      | Inr (out, ws, s1) \<Rightarrow> Inr (tp\<lparr>tp_rq_head := out, tp_workers := ws\<rparr>, s1))"

definition tpd_control_sleep_rr ::
    "('s \<Rightarrow> int \<times> 's) \<Rightarrow> thread_pool \<Rightarrow> 's \<Rightarrow> tp_error + (thread_pool \<times> 's)" where
  "tpd_control_sleep_rr rnd tp s =
     (let (wid, s1) = tpd_first_wid_rand rnd (tp_num_threads tp) s
      in tpd_control_sleep_queue tpd_next_wid_rr tp wid s1)"

definition tpd_control_sleep_rand ::
    "('s \<Rightarrow> int \<times> 's) \<Rightarrow> thread_pool \<Rightarrow> 's \<Rightarrow> tp_error + (thread_pool \<times> 's)" where
  "tpd_control_sleep_rand rnd tp s =
     (let (wid, s1) = tpd_first_wid_rand rnd (tp_num_threads tp) s
      in tpd_control_sleep_queue (tpd_next_wid_rand rnd) tp wid s1)"

definition tpd_control_sleep_user :: "thread_pool \<Rightarrow> 's \<Rightarrow> tp_error + (thread_pool \<times> 's)" where
  "tpd_control_sleep_user tp s = tpd_control_sleep_queue tpd_next_wid_user tp 0 s"

definition tpd_control_sleep_fill_up ::
    "thread_pool \<Rightarrow> tpd_fill_up \<Rightarrow> tp_error + (thread_pool \<times> tpd_fill_up)" where
  "tpd_control_sleep_fill_up tp f =
     tpd_control_sleep_queue tpd_next_wid_fill_up tp (first_wid f)
       (f\<lparr>fu_wid := first_wid f, num_rqs := 0\<rparr>)"

definition tpd_control_sleep_trace ::
    "('s \<Rightarrow> int \<times> 's) \<Rightarrow> thread_pool \<Rightarrow> 's \<Rightarrow> tp_error + (thread_pool \<times> 's)" where
  "tpd_control_sleep_trace rnd tp s = tpd_control_sleep_queue (tpd_next_wid_trace rnd) tp 0 s"

text \<open>
  \<open>tpd_control_report_queue\<close> at the end of a step: the pool's list is taken for the report;
  unless unfinished requests are discarded, those still on a worker's queue go back to it
  (each is linked at the front). The result is the new pool and the reported list.
\<close>

fun tpd_return_unfinished :: "request list \<Rightarrow> request list \<Rightarrow> request list \<Rightarrow> request list \<times> request list" where
  "tpd_return_unfinished [] rq_list head = (rq_list, head)"
| "tpd_return_unfinished (rq # w) rq_list head =
     tpd_return_unfinished w (filter (\<lambda>r. rq_addr r \<noteq> rq_addr rq) rq_list) (rq # head)"

fun tpd_report_workers ::
    "bool \<Rightarrow> request list list \<Rightarrow> request list \<Rightarrow> request list \<Rightarrow>
     request list list \<times> request list \<times> request list" where
  "tpd_report_workers discard [] rq_list head = ([], rq_list, head)"
| "tpd_report_workers discard (w # ws) rq_list head =
     (let (w1, rl1, hd1) = (if discard then ([], rq_list, head)
                            else (let (rl, hd) = tpd_return_unfinished w rq_list head in (w, rl, hd)));
          (ws1, rl2, hd2) = tpd_report_workers discard ws rl1 hd1
      in (w1 # ws1, rl2, hd2))"

definition tpd_control_report_queue :: "thread_pool \<Rightarrow> thread_pool \<times> request list" where
  "tpd_control_report_queue tp =
     (let (ws, rq_list, head) = tpd_report_workers (tp_discard tp) (tp_workers tp) (tp_rq_head tp) []
      in (tp\<lparr>tp_workers := ws, tp_rq_head := head\<rparr>, rq_list))"

section \<open>The worker's side of a queue\<close>

text \<open>
  One round of \<open>tpd_wqueue_pick\<close>: it returns the first request, which stays linked until
  \<open>tpd_wqueue_done\<close>; \<open>None\<close> as outer result means that the worker waits on its condition
  variable. A dead pool is only noticed after such a wait (\<open>woken\<close>).
\<close>

definition RQF_DEQUEUED :: cuint where "RQF_DEQUEUED = 0x0200"

definition tpd_wqueue_pick :: "thread_pool \<Rightarrow> bool \<Rightarrow> nat \<Rightarrow> (request option \<times> thread_pool) option" where
  "tpd_wqueue_pick tp woken w =
     (case tp_workers tp ! w of
        [] \<Rightarrow> if woken \<and> tp_is_dead tp then Some (None, tp) else None
      | rq # rqs \<Rightarrow>
          let rq1 = rq\<lparr>rq_flags := rq_flags rq OR RQF_DEQUEUED\<rparr>
          in Some (Some rq1, tp\<lparr>tp_workers := (tp_workers tp)[w := rq1 # rqs]\<rparr>))"

definition tpd_wqueue_done :: "thread_pool \<Rightarrow> nat \<Rightarrow> request \<Rightarrow> thread_pool" where
  "tpd_wqueue_done tp w rq =
     tp\<lparr>tp_workers := (tp_workers tp)[w := filter (\<lambda>r. rq_addr r \<noteq> rq_addr rq) (tp_workers tp ! w)]\<rparr>"

definition tpd_wqueue_put :: "thread_pool \<Rightarrow> nat \<Rightarrow> request \<Rightarrow> thread_pool" where
  "tpd_wqueue_put tp w rq = tp\<lparr>tp_workers := (tp_workers tp)[w := tp_workers tp ! w @ [rq]]\<rparr>"

text \<open>\<open>tpd_get_queue_len_queue\<close>: how many requests at the front of the queue have arrived.\<close>

fun tpd_queue_len :: "int \<Rightarrow> int \<Rightarrow> request list \<Rightarrow> nat" where
  "tpd_queue_len clock cur_time [] = 0"
| "tpd_queue_len clock cur_time (r # rs) =
     (if rq_sched_time r + clock > cur_time then 0 else Suc (tpd_queue_len clock cur_time rs))"

definition tpd_get_queue_len_queue :: "thread_pool \<Rightarrow> nat \<Rightarrow> request \<Rightarrow> int \<Rightarrow> nat" where
  "tpd_get_queue_len_queue tp w rq cur_time =
     tpd_queue_len (wl_start_clock (rq_workload rq)) cur_time (tp_workers tp ! w)"

text \<open>
  \<open>tpd_relink_request_queue\<close> on the pool: a request that is on no queue yet is left alone, the
  number of its worker is asserted, and it moves within the queue of that worker. A request
  linked to the queue of another worker than the one it names would be moved with the wrong
  list head, which is the fault \<open>TpUnlinked\<close> here.
\<close>

definition tpd_relink_request :: "thread_pool \<Rightarrow> request \<Rightarrow> tp_error + thread_pool" where
  "tpd_relink_request tp rq =
     (if \<forall>w \<in> set (tp_workers tp). rq_at w (rq_addr rq) = None then Inr tp
      else if rq_thread_id rq < 0 \<or> int (tp_num_threads tp) \<le> rq_thread_id rq then Inl TpAssert
      else let i = nat (rq_thread_id rq); w = tp_workers tp ! i
           in if rq_at w (rq_addr rq) = None then Inl TpUnlinked
              else map_sum id (\<lambda>q. tp\<lparr>tp_workers := (tp_workers tp)[i := q]\<rparr>) (tpd_relink_request_queue w rq))"

section \<open>Registry of dispatcher classes\<close>

definition tpd_hash_map :: "string hashmap" where
  "tpd_hash_map = DECLARE_HASH_MAP_STRKEY ''tpd_hash_map'' 8 7"

definition tpdisp_register ::
    "string hashmap \<times> string hm_heap \<Rightarrow> addr \<Rightarrow> hm_error + (string hashmap \<times> string hm_heap \<times> hm_ret)" where
  "tpdisp_register s cls = hash_map_insert (fst s) (hm_set_next (snd s) cls None) cls"

definition tpdisp_unregister ::
    "string hashmap \<times> string hm_heap \<Rightarrow> addr \<Rightarrow> hm_error + (string hashmap \<times> string hm_heap \<times> hm_ret)" where
  "tpdisp_unregister s cls = hash_map_remove (fst s) (snd s) cls"

text \<open>The classes \<open>tpdisp_init\<close> registers, by the addresses of the class objects.\<close>

definition tpd_classes :: "string list" where
  "tpd_classes = [''round-robin'', ''random'', ''user'', ''trace'', ''fill-up'', ''first-free'', ''benchmark'']"

fun tpdisp_register_all ::
    "string hashmap \<times> string hm_heap \<Rightarrow> addr list \<Rightarrow> hm_error + (string hashmap \<times> string hm_heap)" where
  "tpdisp_register_all s [] = Inr s"
| "tpdisp_register_all s (c # cs) =
     (case tpdisp_register s c of
        Inl e \<Rightarrow> Inl e | Inr (hm, h, _) \<Rightarrow> tpdisp_register_all (hm, h) cs)"

definition tpdisp_init :: "string hm_heap \<Rightarrow> addr list \<Rightarrow> hm_error + (string hashmap \<times> string hm_heap)" where
  "tpdisp_init h classes =
     tpdisp_register_all (hash_map_init tpd_hash_map (Some ''tpd_hash_map''), h) classes"


section \<open>What a selector has to promise\<close>

definition in_current_step :: "request \<Rightarrow> bool" where
  "in_current_step rq \<longleftrightarrow> rq_step rq = wl_current_step (rq_workload rq)"

lemma in_current_step_thread_id [simp]: "in_current_step (r\<lparr>rq_thread_id := t\<rparr>) = in_current_step r"
  by (simp add: in_current_step_def)

lemma arrives_before_thread_id [simp]:
  "arrives_before (r\<lparr>rq_thread_id := t\<rparr>) r' = arrives_before r r'"
  "arrives_before r (r'\<lparr>rq_thread_id := t\<rparr>) = arrives_before r r'"
  by (simp_all add: arrives_before_def tp_compare_requests_def Let_def)

text \<open>
  A queue to which the rest \<open>rqs\<close> of the step can still be linked, with the hints kept for it.
  Where requests are appended, order (\<open>srt\<close>) can only be kept when they come in order.
\<close>

definition worker_ok :: "bool \<Rightarrow> bool \<Rightarrow> request list \<Rightarrow> request list \<Rightarrow> hints \<Rightarrow> bool" where
  "worker_ok discard srt rqs q hs \<longleftrightarrow> distinct (map rq_addr q) \<and>
     (discard \<or> hs = (None, None) \<or> hints_ok q hs) \<and>
     (srt \<longrightarrow> rqo.ordered q \<and>
        (discard \<or> hs = (None, None) \<longrightarrow> rqo.ordered (q @ filter in_current_step rqs)))"

lemma worker_ok_tail: "worker_ok d srt (rq # rqs) q hs \<Longrightarrow> worker_ok d srt rqs q hs"
  by (auto simp: worker_ok_def rqo.ordered_def sorted_wrt_append split: if_splits)

lemma worker_ok_append:
  assumes ok: "worker_ok d srt (rq # rqs) q hs" and h: "d \<or> hs = (None, None)"
    and new: "rq_addr rq \<notin> rq_addr ` set q" and cur: "in_current_step rq"
  shows "worker_ok d srt rqs (q @ [rq\<lparr>rq_thread_id := t\<rparr>]) hs"
  using assms by (auto simp: worker_ok_def rqo.ordered_def sorted_wrt_append)

text \<open>
  What becomes of a request of the pool's list: one of the current step gets the number of an
  existing worker, any other is the same as before. \<open>rq_on i\<close>: the requests worker \<open>i\<close> is given.
\<close>

definition rq_assigned :: "nat \<Rightarrow> request \<Rightarrow> request \<Rightarrow> bool" where
  "rq_assigned n r r' \<longleftrightarrow>
     (if in_current_step r then \<exists>i < n. r' = r\<lparr>rq_thread_id := int i\<rparr> else r' = r)"

definition rq_on :: "nat \<Rightarrow> request \<Rightarrow> bool" where
  "rq_on i r \<longleftrightarrow> in_current_step r \<and> rq_thread_id r = int i"

text \<open>
  The contract of the function argument \<open>next_wid\<close> of \<open>tpd_control_sleep_queue\<close>: from a
  good state it names an existing worker and leaves a good state.
\<close>

locale wid_selector =
  fixes n :: nat and next_wid :: "'s selector" and good :: "int \<Rightarrow> 's \<Rightarrow> bool"
  assumes next_range: "good wid s \<Longrightarrow> next_wid n wid rq s = (wid1, s1) \<Longrightarrow>
      0 \<le> wid1 \<and> nat wid1 < n \<and> good wid1 s1"
begin

lemma dispatch_link:
  assumes sel: "next_wid n wid rq s = (wid1, s1)" and rng: "0 \<le> wid1" "nat wid1 < n"
    and len: "length ws = n" "length nodes = n"
    and ok: "worker_ok d srt (rq # rqs) (ws ! nat wid1) (nodes ! nat wid1)"
    and new: "rq_addr rq \<notin> rq_addr ` set (ws ! nat wid1)"
    and cur: "in_current_step rq"
  shows "\<exists>q hs. worker_ok d srt rqs q hs \<and> mset q = add_mset (rq\<lparr>rq_thread_id := wid1\<rparr>) (mset (ws ! nat wid1)) \<and>
      tpd_dispatch next_wid n d (rq # rqs) wid s ws nodes =
        map_sum id (\<lambda>(out, r). (rq\<lparr>rq_thread_id := wid1\<rparr> # out, r))
          (tpd_dispatch next_wid n d rqs wid1 s1 (ws[nat wid1 := q]) (nodes[nat wid1 := hs]))"
proof (cases "d \<or> nodes ! nat wid1 = (None, None)")
  case True
  with assms worker_ok_append [OF ok True new cur] show ?thesis
    by (intro exI [of _ "ws ! nat wid1 @ [rq\<lparr>rq_thread_id := wid1\<rparr>]"] exI [of _ "nodes ! nat wid1"])
       (auto simp: in_current_step_def Let_def)
next
  case False
  let ?rq = "rq\<lparr>rq_thread_id := wid1\<rparr>" and ?i = "nat wid1"
  from False ok have "distinct (map rq_addr (ws ! ?i))" "hints_ok (ws ! ?i) (nodes ! ?i)"
    and srt: "srt \<longrightarrow> rqo.ordered (ws ! ?i)" by (auto simp: worker_ok_def)
  with new have "inserted (ws ! ?i) ?rq (tp_insert_request_impl (ws ! ?i) ?rq (nodes ! ?i))"
    by (intro tp_insert_request_inserted) auto
  then obtain q hs where q: "tp_insert_request_impl (ws ! ?i) ?rq (nodes ! ?i) = Inr (q, hs)"
    "distinct (map rq_addr q)" "mset q = add_mset ?rq (mset (ws ! ?i))" "hints_ok q hs"
    "srt \<longrightarrow> rqo.ordered q"
    using srt by (auto simp: inserted_def)
  then have "q \<noteq> []" by auto
  with q(4) have "hs \<noteq> (None, None)" by (auto simp: hints_ok_def)
  with False q have "worker_ok d srt rqs q hs" by (auto simp: worker_ok_def)
  with False assms q show ?thesis
    by (intro exI [of _ q] exI [of _ hs]) (auto simp: in_current_step_def Let_def)
qed

text \<open>
  What distributing \<open>rqs\<close> over the queues \<open>ws\<close> is to give, with the workers of \<open>S\<close> those for
  which order is claimed.
\<close>

definition dispatched ::
    "nat set \<Rightarrow> request list \<Rightarrow> request list list \<Rightarrow> tp_error + (request list \<times> request list list \<times> 's) \<Rightarrow> bool" where
  "dispatched S rqs ws res \<longleftrightarrow>
     (\<exists>out ws' s'. res = Inr (out, ws', s') \<and> length ws' = n \<and> list_all2 (rq_assigned n) rqs out \<and>
        (\<forall>i < n. mset (ws' ! i) = mset (ws ! i) + mset (filter (rq_on i) out)) \<and>
        (\<forall>i < n. i \<in> S \<longrightarrow> rqo.ordered (ws' ! i)))"

lemma dispatched_skip:
  assumes "dispatched S rqs ws res" and "\<not> in_current_step rq"
  shows "dispatched S (rq # rqs) ws (map_sum id (\<lambda>(out, r). (rq # out, r)) res)"
  using assms unfolding dispatched_def by (force simp: rq_assigned_def rq_on_def)

lemma dispatched_link:
  assumes res: "dispatched S rqs (ws[i := q]) res" and i: "i < n" "length ws = n"
    and q: "mset q = add_mset (rq\<lparr>rq_thread_id := int i\<rparr>) (mset (ws ! i))" and cur: "in_current_step rq"
  shows "dispatched S (rq # rqs) ws (map_sum id (\<lambda>(out, r). (rq\<lparr>rq_thread_id := int i\<rparr> # out, r)) res)"
proof -
  from res obtain out ws' s' where r: "res = Inr (out, ws', s')" "length ws' = n"
    "list_all2 (rq_assigned n) rqs out"
    "\<forall>j < n. mset (ws' ! j) = mset (ws[i := q] ! j) + mset (filter (rq_on j) out)"
    "\<forall>j < n. j \<in> S \<longrightarrow> rqo.ordered (ws' ! j)"
    unfolding dispatched_def by blast
  have "mset (ws' ! j) = mset (ws ! j) + mset (filter (rq_on j) (rq\<lparr>rq_thread_id := int i\<rparr> # out))"
    if "j < n" for j
    using r(4) that i q cur by (cases "j = i") (simp_all add: rq_on_def)
  moreover have "rq_assigned n rq (rq\<lparr>rq_thread_id := int i\<rparr>)" using cur i by (auto simp: rq_assigned_def)
  ultimately show ?thesis
    unfolding dispatched_def using r
    by (intro exI [of _ "rq\<lparr>rq_thread_id := int i\<rparr> # out"] exI [of _ ws'] exI [of _ s']) simp
qed

lemma dispatch_ok:
  assumes "good wid s" and "length ws = n" and "length nodes = n"
    and "\<And>i. i < n \<Longrightarrow> worker_ok d (i \<in> S) rqs (ws ! i) (nodes ! i)"
    and "distinct (map rq_addr (concat ws @ filter in_current_step rqs))"
  shows "dispatched S rqs ws (tpd_dispatch next_wid n d rqs wid s ws nodes)"
  using assms
proof (induction rqs arbitrary: wid s ws nodes)
  case Nil
  then show ?case by (auto simp: worker_ok_def dispatched_def)
next
  case (Cons rq rqs)
  show ?case
  proof (cases "in_current_step rq")
    case False
    have "dispatched S rqs ws (tpd_dispatch next_wid n d rqs wid s ws nodes)"
      using Cons.prems False by (intro Cons.IH) (auto intro: worker_ok_tail [of d _ rq])
    with False dispatched_skip show ?thesis by (simp add: in_current_step_def)
  next
    case True
    obtain wid1 s1 where sel: "next_wid n wid rq s = (wid1, s1)" by (cases "next_wid n wid rq s")
    define i where "i = nat wid1"
    have rng: "0 \<le> wid1" "i < n" "good wid1 s1" and wi: "wid1 = int i"
      using next_range [OF Cons.prems(1) sel] by (simp_all add: i_def)
    let ?cur = "filter in_current_step rqs"
    have "set (ws ! i) \<subseteq> set (concat ws)" using rng(2) Cons.prems(2) by (metis nth_mem set_concat_subset)
    then have "rq_addr rq \<notin> rq_addr ` set (ws ! i)" using Cons.prems(5) True by auto
    from dispatch_link [OF sel rng(1) _ Cons.prems(2,3) _ _ True, folded i_def, OF rng(2) Cons.prems(4) [OF rng(2)] this]
    obtain q hs where q: "worker_ok d (i \<in> S) rqs q hs" "mset q = add_mset (rq\<lparr>rq_thread_id := int i\<rparr>) (mset (ws ! i))"
      and unf: "tpd_dispatch next_wid n d (rq # rqs) wid s ws nodes =
          map_sum id (\<lambda>(out, r). (rq\<lparr>rq_thread_id := int i\<rparr> # out, r))
            (tpd_dispatch next_wid n d rqs wid1 s1 (ws[i := q]) (nodes[i := hs]))"
      unfolding wi by blast
    have "mset (map rq_addr (concat (ws[i := q]) @ ?cur)) = mset (map rq_addr (concat ws @ rq # ?cur))"
      using mset_concat_update [of i ws q] rng(2) Cons.prems(2) q(2) by (simp add: mset_map)
    moreover have "distinct (map rq_addr (concat ws @ rq # ?cur))" using Cons.prems(5) True by simp
    ultimately have "distinct (map rq_addr (concat (ws[i := q]) @ ?cur))" by (metis mset_eq_imp_distinct_iff)
    moreover have "worker_ok d (j \<in> S) rqs (ws[i := q] ! j) (nodes[i := hs] ! j)" if "j < n" for j
      using that Cons.prems(2,3) worker_ok_tail [OF Cons.prems(4)] q(1) by (cases "j = i") auto
    ultimately have "dispatched S rqs (ws[i := q])
        (tpd_dispatch next_wid n d rqs wid1 s1 (ws[i := q]) (nodes[i := hs]))"
      using Cons.IH [OF rng(3)] Cons.prems(2,3) by simp
    then show ?thesis unfolding unf by (rule dispatched_link [OF _ rng(2) Cons.prems(2) q(2) True])
  qed
qed

end


section \<open>The selectors keep the contract\<close>

interpretation rr: wid_selector n tpd_next_wid_rr "\<lambda>wid s. 0 \<le> wid \<and> wid < int n" for n
  by unfold_locales (auto simp: tpd_next_wid_rr_def Let_def split: if_splits)

lemma to_unsigned_mod: "0 < n \<Longrightarrow> 0 \<le> int (to_unsigned x mod n) \<and> nat (int (to_unsigned x mod n)) < n"
  by simp

interpretation user: wid_selector n tpd_next_wid_user "\<lambda>wid s. 0 < n" for n
  by unfold_locales (auto simp: tpd_next_wid_user_def)

interpretation rnd: wid_selector n "tpd_next_wid_rand rnd" "\<lambda>wid s. 0 < n" for n rnd
  by unfold_locales
     (auto simp: tpd_next_wid_rand_def tpd_first_wid_rand_def Let_def split: prod.splits)

interpretation trace: wid_selector n "tpd_next_wid_trace rnd" "\<lambda>wid s. 0 < n" for n rnd
  by unfold_locales
     (auto simp: tpd_next_wid_trace_def tpd_next_wid_rand_def tpd_first_wid_rand_def Let_def
        split: prod.splits if_splits)

lemma to_unsigned_small: "0 \<le> x \<Longrightarrow> x < 2 ^ 31 \<Longrightarrow> to_unsigned x = nat x"
  by (simp add: to_unsigned_def)

interpretation fill: wid_selector n tpd_next_wid_fill_up
    "\<lambda>wid f. 0 \<le> fu_wid f \<and> fu_wid f < int n \<and> n < 2 ^ 31" for n
  by unfold_locales
     (auto simp: tpd_next_wid_fill_up_def Let_def to_unsigned_small split: if_splits)

text \<open>
  A thread pool at the start of a step. Requests left over from earlier steps may be on the
  pool's list and on a worker's queue at once, in any order; the requests of this step are
  not on a queue yet.
\<close>

definition tp_step_ready :: "thread_pool \<Rightarrow> bool" where
  "tp_step_ready tp \<longleftrightarrow> 0 < tp_num_threads tp \<and> tp_num_threads tp < 2 ^ 31 \<and>
     length (tp_workers tp) = tp_num_threads tp \<and>
     distinct (map rq_addr (concat (tp_workers tp) @ filter in_current_step (tp_rq_head tp)))"

text \<open>
  Whether worker \<open>i\<close> can keep its queue in arrival order: insertion keeps the order of a queue
  that holds something, unless requests are discarded; an empty queue is appended to.
\<close>

definition tp_keeps_order :: "thread_pool \<Rightarrow> nat \<Rightarrow> bool" where
  "tp_keeps_order tp i \<longleftrightarrow>
     (if tp_workers tp ! i = [] then rqo.ordered (filter in_current_step (tp_rq_head tp))
      else \<not> tp_discard tp \<and> rqo.ordered (tp_workers tp ! i))"

text \<open>
  The outcome of a distribution: every request of the current step has the number of a worker
  and is on exactly the queue of that worker, requests left over are as they were on the pool's
  list and on the queues, and the queues that can keep their order are in order.
\<close>

definition tp_distributed :: "thread_pool \<Rightarrow> tp_error + (thread_pool \<times> 's) \<Rightarrow> bool" where
  "tp_distributed tp res \<longleftrightarrow>
     (\<exists>tp' s'. res = Inr (tp', s') \<and> length (tp_workers tp') = tp_num_threads tp \<and>
        list_all2 (rq_assigned (tp_num_threads tp)) (tp_rq_head tp) (tp_rq_head tp') \<and>
        (\<forall>i < tp_num_threads tp.
           mset (tp_workers tp' ! i) = mset (tp_workers tp ! i) + mset (filter (rq_on i) (tp_rq_head tp'))) \<and>
        (\<forall>i < tp_num_threads tp. tp_keeps_order tp i \<longrightarrow> rqo.ordered (tp_workers tp' ! i)))"

lemma distinct_concat_nth:
  "distinct (map f (concat xss)) \<Longrightarrow> i < length xss \<Longrightarrow> distinct (map f (xss ! i))"
  by (induction xss arbitrary: i) (auto simp: less_Suc_eq_0_disj)

lemma worker_ok_start:
  assumes "tp_step_ready tp" and "i < tp_num_threads tp"
  shows "worker_ok (tp_discard tp) (tp_keeps_order tp i) (tp_rq_head tp) (tp_workers tp ! i)
           (tp_insert_request_initnodes (tp_workers tp ! i))"
proof -
  let ?w = "tp_workers tp ! i"
  have "distinct (map rq_addr ?w)"
    using assms by (intro distinct_concat_nth) (simp_all add: tp_step_ready_def)
  moreover have "tp_insert_request_initnodes ?w = (None, None) \<longleftrightarrow> ?w = []"
    by (auto simp: tp_insert_request_initnodes_def split: list.splits)
  ultimately show ?thesis
    using hints_ok_initnodes [of ?w] by (auto simp: worker_ok_def tp_keeps_order_def rqo.ordered_def)
qed

context wid_selector
begin

lemma control_sleep_ok:
  assumes "tp_step_ready tp" and "n = tp_num_threads tp" and "good wid s"
  shows "tp_distributed tp (tpd_control_sleep_queue next_wid tp wid s)"
proof -
  let ?ws = "tp_workers tp"
  have len: "length ?ws = n" using assms by (simp add: tp_step_ready_def)
  have "dispatched {i. tp_keeps_order tp i} (tp_rq_head tp) ?ws
      (tpd_dispatch next_wid n (tp_discard tp) (tp_rq_head tp) wid s ?ws (map tp_insert_request_initnodes ?ws))"
    using assms(1,3) len worker_ok_start [OF assms(1)] assms(2)
    by (intro dispatch_ok) (simp_all add: tp_step_ready_def)
  then show ?thesis
    using assms(2) unfolding dispatched_def tp_distributed_def tpd_control_sleep_queue_def by fastforce
qed

end

lemma first_wid_rand_range:
  "0 < n \<Longrightarrow> tpd_first_wid_rand rnd n s = (wid, s1) \<Longrightarrow> 0 \<le> wid \<and> wid < int n"
  by (auto simp: tpd_first_wid_rand_def Let_def split: prod.splits)

lemma tp_step_readyD: "tp_step_ready tp \<Longrightarrow> 0 < tp_num_threads tp"
  by (simp add: tp_step_ready_def)

lemma control_sleep_rr_distributed:
  assumes "tp_step_ready tp"
  shows "tp_distributed tp (tpd_control_sleep_rr rnd tp s)"
proof -
  obtain wid s1 where w: "tpd_first_wid_rand rnd (tp_num_threads tp) s = (wid, s1)" by force
  from rr.control_sleep_ok [OF assms refl first_wid_rand_range [OF tp_step_readyD [OF assms] w]] w
  show ?thesis by (simp add: tpd_control_sleep_rr_def)
qed

lemma control_sleep_rand_distributed:
  assumes "tp_step_ready tp"
  shows "tp_distributed tp (tpd_control_sleep_rand rnd tp s)"
  using rnd.control_sleep_ok [OF assms refl] tp_step_readyD [OF assms]
  by (auto simp: tpd_control_sleep_rand_def Let_def split: prod.splits)

lemma control_sleep_fill_up_distributed:
  assumes "tp_step_ready tp" and "tpd_init_fill_up tp f = TPD_OK" and "- (2 ^ 31) \<le> first_wid f" "first_wid f < 2 ^ 31"
  shows "tp_distributed tp (tpd_control_sleep_fill_up tp f)"
proof -
  have r: "to_unsigned (first_wid f) < tp_num_threads tp" "tp_num_threads tp < 2 ^ 31"
    using assms(1,2) by (auto simp: tpd_init_fill_up_def tp_step_ready_def split: if_splits)
  have "0 \<le> first_wid f"
  proof (rule ccontr)
    assume "\<not> 0 \<le> first_wid f"
    then have "(first_wid f + 2 ^ 32) mod 2 ^ 32 = first_wid f + 2 ^ 32"
      using assms(3) by (intro mod_pos_pos_trivial) auto
    then have "first_wid f mod 2 ^ 32 = first_wid f + 2 ^ 32" by simp
    with r assms(3) show False by (simp add: to_unsigned_def)
  qed
  with r assms(4) have "0 \<le> first_wid f \<and> first_wid f < int (tp_num_threads tp)"
    by (simp add: to_unsigned_small)
  then show ?thesis
    unfolding tpd_control_sleep_fill_up_def using r(2)
    by (intro fill.control_sleep_ok [OF assms(1) refl]) simp
qed

section \<open>Which worker gets which request\<close>

fun wid_seq :: "'s selector \<Rightarrow> nat \<Rightarrow> int \<Rightarrow> 's \<Rightarrow> request list \<Rightarrow> int list" where
  "wid_seq next_wid n wid s [] = []"
| "wid_seq next_wid n wid s (rq # rqs) =
     (let (wid1, s1) = next_wid n wid rq s in wid1 # wid_seq next_wid n wid1 s1 rqs)"

lemma dispatch_wids:
  assumes "tpd_dispatch next_wid n d rqs wid s ws nodes = Inr (out, ws', s')"
  shows "map rq_thread_id (filter in_current_step out) = wid_seq next_wid n wid s (filter in_current_step rqs)"
  using assms
proof (induction rqs arbitrary: wid s ws nodes out)
  case Nil
  then show ?case by simp
next
  case (Cons rq rqs)
  show ?case
  proof (cases "in_current_step rq")
    case False
    then obtain o1 where "tpd_dispatch next_wid n d rqs wid s ws nodes = Inr (o1, ws', s')" "out = rq # o1"
      using Cons.prems by (cases "tpd_dispatch next_wid n d rqs wid s ws nodes") (auto simp: in_current_step_def)
    with Cons.IH False show ?thesis by simp
  next
    case True
    obtain wid1 s1 where sel: "next_wid n wid rq s = (wid1, s1)" by (cases "next_wid n wid rq s")
    let ?rq = "rq\<lparr>rq_thread_id := wid1\<rparr>"
    have cur: "in_current_step ?rq" using True by (simp add: in_current_step_def)
    from Cons.prems True sel
    have "\<exists>ws1 nodes1 o1. out = ?rq # o1 \<and> tpd_dispatch next_wid n d rqs wid1 s1 ws1 nodes1 = Inr (o1, ws', s')"
      by (auto simp: in_current_step_def Let_def map_sum_def split: if_splits sum.splits prod.splits)
    then show ?thesis using Cons.IH sel True cur by auto
  qed
qed

lemma control_sleep_wids:
  assumes "tpd_control_sleep_queue next_wid tp wid s = Inr (tp', s')"
  shows "map rq_thread_id (filter in_current_step (tp_rq_head tp')) =
     wid_seq next_wid (tp_num_threads tp) wid s (filter in_current_step (tp_rq_head tp))"
  using assms dispatch_wids
  by (fastforce simp: tpd_control_sleep_queue_def split: sum.splits prod.splits)


lemma wid_seq_rr:
  assumes "0 \<le> wid" and "wid < int n"
  shows "wid_seq tpd_next_wid_rr n wid s rqs = map (\<lambda>j. (wid + 1 + int j) mod int n) [0..<length rqs]"
  using assms
proof (induction rqs arbitrary: wid)
  case (Cons rq rqs)
  let ?w = "(wid + 1) mod int n"
  have next_w: "tpd_next_wid_rr n wid rq s = (?w, s)"
    using Cons.prems by (cases "wid + 1 = int n") (auto simp: tpd_next_wid_rr_def Let_def)
  have "wid_seq tpd_next_wid_rr n ?w s rqs = map (\<lambda>j. (?w + 1 + int j) mod int n) [0..<length rqs]"
    using Cons.prems by (intro Cons.IH) auto
  also have "\<dots> = map (\<lambda>j. (wid + 1 + int (Suc j)) mod int n) [0..<length rqs]"
  proof (rule map_cong [OF refl])
    fix j
    have "(?w + (1 + int j)) mod int n = (wid + 1 + (1 + int j)) mod int n" by (rule mod_add_left_eq)
    then show "(?w + 1 + int j) mod int n = (wid + 1 + int (Suc j)) mod int n" by (simp add: algebra_simps)
  qed
  also have "\<dots> = map (\<lambda>j. (wid + 1 + int j) mod int n) [Suc 0..<Suc (length rqs)]"
    by (simp only: map_Suc_upt [symmetric] map_map comp_def)
  finally show ?case by (simp add: next_w upt_conv_Cons del: upt_Suc)
qed simp

text \<open>
  The fill-up selector: from worker \<open>w\<close> with \<open>c\<close> requests counted, the \<open>j\<close>-th request goes to
  the worker \<open>(c + j + 1) div N\<close> further.
\<close>

lemma fill_up_next:
  assumes "0 \<le> fu_wid f" "fu_wid f < int n" "n < 2 ^ 31" "num_rqs f < fill_requests f"
  defines "c1 \<equiv> unat (num_rqs f) + 1" and "N \<equiv> unat (fill_requests f)"
  shows "\<exists>f1. tpd_next_wid_fill_up n wid rq f = (fu_wid f1, f1) \<and> fill_requests f1 = fill_requests f \<and>
     fu_wid f1 = (fu_wid f + int (c1 div N)) mod int n \<and> unat (num_rqs f1) = c1 mod N \<and>
     num_rqs f1 < fill_requests f1"
proof -
  have lt: "unat (num_rqs f) < N" "N < 2 ^ 32" using assms(4) unsigned_less [of "fill_requests f"]
    by (simp_all add: N_def word_less_nat_alt)
  then have c1: "unat (num_rqs f + 1) = c1" by (simp add: c1_def unat_plus_if')
  show ?thesis
  proof (cases "c1 = N")
    case True
    then have eq: "num_rqs f + 1 = fill_requests f" using c1 by (simp add: N_def word_unat_eq_iff)
    have "to_unsigned (fu_wid f + 1) = nat (fu_wid f + 1)" using assms(1-3) by (intro to_unsigned_small) auto
    then have "to_unsigned (fu_wid f + 1) = n \<longleftrightarrow> fu_wid f + 1 = int n" using assms(1) by auto
    moreover have "0 < fill_requests f" using lt(1) by (simp add: N_def word_less_nat_alt)
    ultimately show ?thesis using True eq assms(1,2) lt
      by (auto simp: tpd_next_wid_fill_up_def Let_def c1_def)
  next
    case False
    then have "num_rqs f + 1 \<noteq> fill_requests f" using c1 by (auto simp: N_def)
    moreover have "c1 < N" using False lt by (simp add: c1_def)
    ultimately show ?thesis using c1 assms(1,2)
      by (auto simp: tpd_next_wid_fill_up_def Let_def N_def word_less_nat_alt)
  qed
qed

lemma div_shift:
  assumes "0 < N"
  shows "(c + m) div N = c div N + (c mod N + m) div (N :: nat)"
proof -
  have "c + m = (c mod N + m) + c div N * N" using div_mult_mod_eq [of c N] by linarith
  then have "(c + m) div N = ((c mod N + m) + c div N * N) div N" by simp
  also have "\<dots> = c div N + (c mod N + m) div N" using assms by (intro div_mult_self1) simp
  finally show ?thesis .
qed

lemma wid_seq_fill_up:
  assumes "0 \<le> fu_wid f" "fu_wid f < int n" "n < 2 ^ 31" "num_rqs f < fill_requests f"
  shows "wid_seq tpd_next_wid_fill_up n wid f rqs =
    map (\<lambda>j. (fu_wid f + int ((unat (num_rqs f) + 1 + j) div unat (fill_requests f))) mod int n) [0..<length rqs]"
  using assms
proof (induction rqs arbitrary: wid f)
  case (Cons rq rqs)
  let ?c = "unat (num_rqs f) + 1" and ?N = "unat (fill_requests f)"
  from fill_up_next [OF Cons.prems, of wid rq] obtain f1 where f1:
    "tpd_next_wid_fill_up n wid rq f = (fu_wid f1, f1)" "fill_requests f1 = fill_requests f"
    "fu_wid f1 = (fu_wid f + int (?c div ?N)) mod int n" "unat (num_rqs f1) = ?c mod ?N" "num_rqs f1 < fill_requests f1"
    by blast
  have N: "0 < ?N" using Cons.prems(4) by (simp add: word_less_nat_alt)
  have "wid_seq tpd_next_wid_fill_up n (fu_wid f1) f1 rqs =
    map (\<lambda>j. (fu_wid f1 + int ((unat (num_rqs f1) + 1 + j) div unat (fill_requests f1))) mod int n) [0..<length rqs]"
    using Cons.prems f1 by (intro Cons.IH) auto
  also have "\<dots> = map (\<lambda>j. (fu_wid f + int ((?c + Suc j) div ?N)) mod int n) [0..<length rqs]"
  proof (rule map_cong [OF refl])
    fix j
    have "(?c + Suc j) div ?N = ?c div ?N + (?c mod ?N + 1 + j) div ?N"
      using div_shift [OF N, of ?c "Suc j"] by simp
    then show "(fu_wid f1 + int ((unat (num_rqs f1) + 1 + j) div unat (fill_requests f1))) mod int n =
        (fu_wid f + int ((?c + Suc j) div ?N)) mod int n"
      unfolding f1(2,3,4) by (simp add: mod_add_left_eq add.assoc)
  qed
  also have "\<dots> = map (\<lambda>j. (fu_wid f + int ((?c + j) div ?N)) mod int n) [Suc 0..<Suc (length rqs)]"
    by (simp only: map_Suc_upt [symmetric] map_map comp_def)
  finally show ?case using f1 by (simp add: upt_conv_Cons del: upt_Suc)
qed simp

section \<open>The registry of dispatcher classes\<close>

lemma hm_refines_set_next_unlinked:
  assumes "hm_refines hm h m" and "a \<notin> ran m"
  shows "hm_refines hm (hm_set_next h a n) m"
proof -
  from assms(1) obtain cs where rep: "hm_rep hm h cs"
    and m: "\<And>k a. m k = Some a \<longleftrightarrow> a \<in> set (concat cs) \<and> hm_key h a = Some k"
    by (rule hm_refinesE) blast
  have notin: "a \<notin> set (cs ! i)" if i: "i < hm_size hm" for i
  proof
    assume a: "a \<in> set (cs ! i)"
    then obtain k where "hm_key h a = Some k" using rep i unfolding hm_rep_def by blast
    moreover have "a \<in> set (concat cs)" using a i rep by (auto simp: hm_rep_def)
    ultimately show False using m assms(2) by (auto simp: ran_def simp del: set_concat)
  qed
  have "hm_rep hm (hm_set_next h a n) cs"
    using rep notin unfolding hm_rep_def inj_on_def by (simp del: set_concat)
  then show ?thesis using m unfolding hm_refines_def by (auto simp del: set_concat)
qed

definition tpd_table_register ::
    "string hashmap \<times> string hm_heap \<Rightarrow> addr \<Rightarrow> (string hashmap \<times> string hm_heap) option" where
  "tpd_table_register s cls =
     (case tpdisp_register s cls of Inr (hm, h, HASH_MAP_OK) \<Rightarrow> Some (hm, h) | _ \<Rightarrow> None)"

text \<open>Registration clears the link of the class object first, so any object may be registered.\<close>

interpretation tpr: object_table
  "\<lambda>s m. hm_refines (fst s) (snd s) m" "\<lambda>s. hm_key (snd s)" "\<lambda>_ _. True" tpd_table_register hm_table_find
proof
  show "hm_table_find s k = m k" if "hm_refines (fst s) (snd s) m" for s :: "string hashmap \<times> string hm_heap" and m k
    using that by (rule hmt.look_repr)
next
  fix s :: "string hashmap \<times> string hm_heap" and m a k
  assume ref: "hm_refines (fst s) (snd s) m" and key: "hm_key (snd s) a = Some k"
    and new: "m k = None" and ran: "a \<notin> ran m"
  let ?h = "hm_set_next (snd s) a None"
  from key obtain z where z: "snd s a = Some z" "hi_key z = k" by (auto simp: hm_key_def)
  define it where "it = z\<lparr>hi_next := None\<rparr>"
  have it: "?h a = Some it" "hi_next it = None" "hi_key it = k"
    using z by (simp_all add: hm_set_next_def it_def)
  from it(3) new have "m (hi_key it) = None" by simp
  from hash_map_insert_refines [OF hm_refines_set_next_unlinked [OF ref ran] it(1,2) this ran, unfolded it(3)]
  obtain hm' h' where "hash_map_insert (fst s) ?h a = Inr (hm', h', HASH_MAP_OK)"
    "hm_refines hm' h' (m(k \<mapsto> a))" "\<And>b. hm_key h' b = hm_key (snd s) b" by auto
  then show "\<exists>s'. tpd_table_register s a = Some s' \<and> hm_refines (fst s') (snd s') (m(k \<mapsto> a)) \<and>
      hm_key (snd s') = hm_key (snd s) \<and> (\<forall>b. b \<notin> ran m \<and> True \<longrightarrow> True)"
    by (intro exI [of _ "(hm', h')"]) (auto simp: tpd_table_register_def tpdisp_register_def fun_eq_iff)
qed

lemma tpdisp_register_all_reg:
  "tpr.reg_all s cs = Some s' \<Longrightarrow> tpdisp_register_all s cs = Inr s'"
  by (induction cs arbitrary: s)
     (auto simp: tpd_table_register_def split: option.splits sum.splits prod.splits hm_ret.splits)

section \<open>Unfinished requests\<close>

lemma return_unfinished:
  "tpd_return_unfinished w rl hd0 =
     (filter (\<lambda>r. rq_addr r \<notin> rq_addr ` set w) rl, rev w @ hd0)"
  by (induction w arbitrary: rl hd0) (auto simp: conj_commute)

lemma report_workers_keep:
  "tpd_report_workers False ws rl hd0 =
     (ws, filter (\<lambda>r. rq_addr r \<notin> rq_addr ` set (concat ws)) rl, rev (concat ws) @ hd0)"
  by (induction ws arbitrary: rl hd0)
     (auto simp: return_unfinished Let_def image_Un conj_commute simp del: set_concat)

lemma report_workers_discard:
  "tpd_report_workers True ws rl hd0 = (replicate (length ws) [], rl, hd0)"
  by (induction ws arbitrary: rl hd0) (auto simp: Let_def)

section \<open>Moving a request within the pool\<close>

lemma rq_at_split:
  assumes "distinct (map rq_addr (xs @ rq # ys))"
  shows "rq_at (xs @ rq # ys) (rq_addr rq) = Some rq"
  using position_split(1) [OF assms] .

text \<open>
  On the pool, a linked request that names its worker moves within the queue of that worker,
  as in the queue alone; a request that was linked to no queue yet changes nothing.
\<close>

lemma relink_request_linked:
  assumes i: "i < tp_num_threads tp" "length (tp_workers tp) = tp_num_threads tp" "rq_thread_id rq = int i"
    and w: "tp_workers tp ! i = xs @ rq # ys" and q: "rq_queue (xs @ ys)"
    and d: "distinct (map rq_addr (xs @ rq # ys))" and last: "ys \<noteq> [] \<or> xs = [] \<or> \<not> arrives_before rq (last xs)"
  shows "\<exists>q'. tpd_relink_request tp rq = Inr (tp\<lparr>tp_workers := (tp_workers tp)[i := q']\<rparr>) \<and>
    rq_queue q' \<and> mset q' = mset (tp_workers tp ! i)"
proof -
  have "tp_workers tp ! i \<in> set (tp_workers tp)" using i by simp
  then have linked: "(\<forall>w \<in> set (tp_workers tp). rq_at w (rq_addr rq) = None) = False"
    using rq_at_split [OF d] w by force
  obtain q' where "tpd_relink_request_queue (xs @ rq # ys) rq = Inr q'" "rq_queue q'" "mset q' = mset (xs @ rq # ys)"
    using relink_ordered [OF q d last] by blast
  then show ?thesis
    using rq_at_split [OF d] i w unfolding tpd_relink_request_def Let_def linked by (intro exI [of _ q']) simp
qed

lemma relink_request_unlinked:
  assumes "rq_addr rq \<notin> rq_addr ` set (concat (tp_workers tp))"
  shows "tpd_relink_request tp rq = Inr tp"
proof -
  have "rq_at w (rq_addr rq) = None" if "w \<in> set (tp_workers tp)" for w
    using that assms unfolding rq_at_def find_None_iff by (metis UN_I image_eqI set_concat)
  then show ?thesis by (simp add: tpd_relink_request_def)
qed

section \<open>Properties\<close>

text \<open>
  C7. Whatever \<open>rand()\<close> returns, the round-robin, random, per-user and trace dispatchers put
  every request of the current step on exactly one worker's queue, that of the worker whose
  number is written into the request, and name no worker outside the pool. Requests left over
  from earlier steps, which \<open>tpd_control_report_queue\<close> keeps both on the pool's list and on their
  worker's queue, are not touched. A queue that holds requests in arrival order stays in order,
  unless the pool discards; an empty queue is filled in arrival order when the pool's list has
  the requests of the step in that order.
\<close>

theorem tpd_control_sleep_distributes:
  assumes "tp_step_ready tp"
  shows "tp_distributed tp (tpd_control_sleep_rr rnd tp s) \<and> tp_distributed tp (tpd_control_sleep_rand rnd tp s) \<and>
    tp_distributed tp (tpd_control_sleep_user tp s) \<and> tp_distributed tp (tpd_control_sleep_trace rnd tp s)"
  unfolding tpd_control_sleep_user_def tpd_control_sleep_trace_def
  using assms tp_step_readyD [OF assms]
  by (intro conjI control_sleep_rr_distributed control_sleep_rand_distributed
      user.control_sleep_ok [OF _ refl] trace.control_sleep_ok [OF _ refl])

definition demo_tp :: thread_pool where
  "demo_tp = \<lparr>tp_num_threads = 2, tp_discard = False, tp_is_dead = False,
     tp_rq_head = [demo_rq 3 5, demo_rq 4 20, demo_rq 5 25], tp_workers = [[demo_rq 1 10, demo_rq 2 30], []]\<rparr>"

lemma demo_tp_ready: "tp_step_ready demo_tp"
  by (simp add: tp_step_ready_def demo_tp_def in_current_step_def demo_rq_def demo_wl_def)

text \<open>
  A pool in the middle of its work: \<open>tpd_control_report_queue\<close> left two requests on the queue of
  the first worker and on the pool's list, there in reverse; then the next step began and two
  requests of it were linked.
\<close>

definition demo_old_rq :: "addr \<Rightarrow> int \<Rightarrow> request" where
  "demo_old_rq a t = (demo_rq a t)\<lparr>rq_step := 0, rq_thread_id := 0\<rparr>"

definition demo_leftover_tp :: thread_pool where
  "demo_leftover_tp = fst (tpd_control_report_queue
     \<lparr>tp_num_threads = 2, tp_discard = False, tp_is_dead = False,
      tp_rq_head = [demo_old_rq 1 10, demo_old_rq 2 15, demo_old_rq 3 30],
      tp_workers = [[demo_old_rq 1 10, demo_old_rq 3 30], []]\<rparr>)"

definition demo_next_tp :: thread_pool where
  "demo_next_tp = demo_leftover_tp
     \<lparr>tp_rq_head := projr (map_sum id fst (tp_link_requests (tp_rq_head demo_leftover_tp)
        (tp_insert_request_initnodes (tp_rq_head demo_leftover_tp)) [demo_rq 4 20, demo_rq 5 25]))\<rparr>"

lemma demo_next_tp_eq:
  "demo_next_tp = \<lparr>tp_num_threads = 2, tp_discard = False, tp_is_dead = False,
     tp_rq_head = [demo_old_rq 3 30, demo_old_rq 1 10, demo_rq 4 20, demo_rq 5 25],
     tp_workers = [[demo_old_rq 1 10, demo_old_rq 3 30], []]\<rparr>"
  by (simp add: demo_next_tp_def demo_leftover_tp_def tpd_control_report_queue_def demo_old_rq_def
      tp_insert_request_initnodes_def tp_insert_request_impl_def rq_at_def nodes_after_def demo_rq_simps)

lemma demo_next_ready: "tp_step_ready demo_next_tp"
  by (simp add: tp_step_ready_def demo_next_tp_eq in_current_step_def demo_old_rq_def demo_rq_def demo_wl_def)

theorem tpd_control_sleep_distributes_witness:
  "tp_distributed demo_next_tp (tpd_control_sleep_rr (\<lambda>s. (s * 7 + 3, s + 1)) demo_next_tp (0 :: int))"
  by (rule tpd_control_sleep_distributes [OF demo_next_ready, THEN conjunct1])

text \<open>
  The fill-up dispatcher distributes in the same way, once \<open>tpd_init_fill_up\<close> has accepted
  the first worker id, also when that id is a negative \<open>int\<close> of the configuration (which
  the unsigned comparison refuses).
\<close>

theorem tpd_control_sleep_fill_up_distributes:
  assumes "tp_step_ready tp" and "tpd_init_fill_up tp f = TPD_OK"
    and "- (2 ^ 31) \<le> first_wid f" "first_wid f < 2 ^ 31"
  shows "tp_distributed tp (tpd_control_sleep_fill_up tp f)"
  using control_sleep_fill_up_distributed [OF assms] .

theorem tpd_control_sleep_fill_up_distributes_witness:
  "tp_distributed demo_tp (tpd_control_sleep_fill_up demo_tp (tpd_preinit_fill_up 2 1))"
  by (rule tpd_control_sleep_fill_up_distributes [OF demo_tp_ready])
     (simp_all add: tpd_init_fill_up_def tpd_preinit_fill_up_def demo_tp_def to_unsigned_def)

text \<open>
  The round-robin dispatcher assigns the requests of a step to the workers in circular
  order, starting after the worker drawn by \<open>rand()\<close>.
\<close>

theorem tpd_rr_circular:
  assumes "0 < tp_num_threads tp" and "tpd_control_sleep_rr rnd tp s = Inr (tp', s')"
  shows "map rq_thread_id (filter in_current_step (tp_rq_head tp')) =
    map (\<lambda>j. (fst (tpd_first_wid_rand rnd (tp_num_threads tp) s) + 1 + int j) mod int (tp_num_threads tp))
      [0..<length (filter in_current_step (tp_rq_head tp))]"
proof -
  obtain wid s1 where w: "tpd_first_wid_rand rnd (tp_num_threads tp) s = (wid, s1)" by force
  with assms(2) have "tpd_control_sleep_queue tpd_next_wid_rr tp wid s1 = Inr (tp', s')"
    by (simp add: tpd_control_sleep_rr_def)
  from control_sleep_wids [OF this] first_wid_rand_range [OF assms(1) w] show ?thesis
    by (simp add: w wid_seq_rr)
qed

theorem tpd_rr_circular_witness:
  "\<exists>tp' s'. tpd_control_sleep_rr (\<lambda>s. (s, s + 1)) demo_tp 0 = Inr (tp', s') \<and>
     map rq_thread_id (filter in_current_step (tp_rq_head tp')) = [1, 0, 1]"
proof -
  from control_sleep_rr_distributed [OF demo_tp_ready, of "\<lambda>s. (s, s + 1)" 0] obtain tp' s'
    where r: "tpd_control_sleep_rr (\<lambda>s. (s, s + 1)) demo_tp 0 = Inr (tp', s')" by (auto simp: tp_distributed_def)
  moreover have "filter in_current_step (tp_rq_head demo_tp) = tp_rq_head demo_tp" "length (tp_rq_head demo_tp) = 3"
    by (simp_all add: demo_tp_def in_current_step_def demo_rq_def demo_wl_def)
  moreover have "tp_num_threads demo_tp = 2" by (simp add: demo_tp_def)
  ultimately show ?thesis using tpd_rr_circular [OF _ r]
    by (simp add: tpd_first_wid_rand_def to_unsigned_def numeral_3_eq_3)
qed

text \<open>
  The fill-up dispatcher with parameter \<open>n = N\<close> sends the \<open>j\<close>-th request of a step (from 0)
  to the worker \<open>(j + 1) div N\<close> after the first one: each worker gets \<open>N\<close> consecutive
  requests except the first, which gets \<open>N - 1\<close>.
\<close>

theorem tpd_fill_up_blocks:
  assumes "0 \<le> first_wid f" "first_wid f < int (tp_num_threads tp)" "tp_num_threads tp < 2 ^ 31"
    and "0 < fill_requests f" and "tpd_control_sleep_fill_up tp f = Inr (tp', f')"
  shows "map rq_thread_id (filter in_current_step (tp_rq_head tp')) =
    map (\<lambda>j. (first_wid f + int ((j + 1) div unat (fill_requests f))) mod int (tp_num_threads tp))
      [0..<length (filter in_current_step (tp_rq_head tp))]"
  using control_sleep_wids [OF assms(5) [unfolded tpd_control_sleep_fill_up_def]] assms(1-4)
    wid_seq_fill_up [of "f\<lparr>fu_wid := first_wid f, num_rqs := 0\<rparr>"]
  by simp

theorem tpd_fill_up_blocks_witness:
  "\<exists>tp' f'. tpd_control_sleep_fill_up demo_tp (tpd_preinit_fill_up 2 0) = Inr (tp', f') \<and>
     map rq_thread_id (filter in_current_step (tp_rq_head tp')) = [0, 1, 1]"
proof -
  let ?f = "tpd_preinit_fill_up 2 0"
  have "tp_distributed demo_tp (tpd_control_sleep_fill_up demo_tp ?f)"
    by (rule control_sleep_fill_up_distributed [OF demo_tp_ready])
       (simp_all add: tpd_init_fill_up_def tpd_preinit_fill_up_def demo_tp_def to_unsigned_def)
  then obtain tp' f' where r: "tpd_control_sleep_fill_up demo_tp ?f = Inr (tp', f')" by (auto simp: tp_distributed_def)
  moreover have "filter in_current_step (tp_rq_head demo_tp) = tp_rq_head demo_tp" "length (tp_rq_head demo_tp) = 3"
    by (simp_all add: demo_tp_def in_current_step_def demo_rq_def demo_wl_def)
  moreover have "tp_num_threads demo_tp = 2" by (simp add: demo_tp_def)
  ultimately show ?thesis using tpd_fill_up_blocks [OF _ _ _ _ r]
    by (simp add: tpd_preinit_fill_up_def numeral_3_eq_3)
qed

text \<open>
  At the end of a step with \<open>discard\<close> off, exactly the requests still on a worker's queue
  are returned to the pool and the others reported, none lost; but the returned requests
  stand in the pool's queue in reverse of the workers' order.
\<close>

theorem tpd_control_report_returns:
  assumes "\<not> tp_discard tp" and "tpd_control_report_queue tp = (tp', reported)"
  shows "tp_rq_head tp' = rev (concat (tp_workers tp)) \<and> tp_workers tp' = tp_workers tp \<and>
    reported = filter (\<lambda>r. rq_addr r \<notin> rq_addr ` set (concat (tp_workers tp))) (tp_rq_head tp)"
  using assms by (auto simp: tpd_control_report_queue_def report_workers_keep Let_def simp del: set_concat)

theorem tpd_control_report_returns_witness:
  "tp_rq_head (fst (tpd_control_report_queue demo_tp)) = [demo_rq 2 30, demo_rq 1 10]"
  using tpd_control_report_returns [of demo_tp "fst (tpd_control_report_queue demo_tp)" "snd (tpd_control_report_queue demo_tp)"]
  by (simp add: demo_tp_def)

text \<open>
  The reversal has a consequence: \<open>tp_insert_request_impl\<close> searches the pool's list as if it were
  in arrival order, so the requests of the next step may be linked out of order among
  themselves, and a worker with an empty queue, which is appended to, serves them in that order.
  Here the requests with the times 20, 5 and 25 are created after two leftovers (10 and 30, on
  the queue of the second worker); the first worker gets 5, 25, 20.
\<close>

definition demo_reversed_tp :: thread_pool where
  "demo_reversed_tp = fst (tpd_control_report_queue
     \<lparr>tp_num_threads = 2, tp_discard = False, tp_is_dead = False,
      tp_rq_head = [demo_old_rq 1 10, demo_old_rq 3 30],
      tp_workers = [[], [demo_old_rq 1 10, demo_old_rq 3 30]]\<rparr>)"

lemma demo_reversed_head: "tp_rq_head demo_reversed_tp = [demo_old_rq 3 30, demo_old_rq 1 10]"
  by (simp add: demo_reversed_tp_def tpd_control_report_queue_def)

theorem tpd_leftovers_break_order:
  "\<exists>head hs tp' s'. tp_link_requests (tp_rq_head demo_reversed_tp)
       (tp_insert_request_initnodes (tp_rq_head demo_reversed_tp))
       [demo_rq 4 20, demo_rq 5 5, demo_rq 6 25] = Inr (head, hs) \<and>
     tpd_control_sleep_user (demo_reversed_tp\<lparr>tp_rq_head := head\<rparr>) () = Inr (tp', s') \<and>
     map rq_sched_time (tp_workers tp' ! 0) = [5, 25, 20]"
proof -
  let ?head = "[demo_rq 5 5, demo_rq 6 25, demo_old_rq 3 30, demo_old_rq 1 10, demo_rq 4 20]"
  have "tp_link_requests (tp_rq_head demo_reversed_tp) (tp_insert_request_initnodes (tp_rq_head demo_reversed_tp))
      [demo_rq 4 20, demo_rq 5 5, demo_rq 6 25] = Inr (?head, (Some 6, Some 3))"
    by (simp add: demo_reversed_head demo_old_rq_def tp_insert_request_initnodes_def tp_insert_request_impl_def
        list_add_between_def rq_at_def nodes_after_def nodes_before_def demo_rq_simps)
  moreover have "tp_workers demo_reversed_tp = [[], [demo_old_rq 1 10, demo_old_rq 3 30]]"
    "tp_num_threads demo_reversed_tp = 2" "\<not> tp_discard demo_reversed_tp"
    by (simp_all add: demo_reversed_tp_def tpd_control_report_queue_def)
  moreover have "tpd_dispatch tpd_next_wid_user 2 False ?head 0 () [[], w] [(None, None), hs] =
      Inr ([rq (demo_rq 5 5), rq (demo_rq 6 25), demo_old_rq 3 30, demo_old_rq 1 10, rq (demo_rq 4 20)],
        [[rq (demo_rq 5 5), rq (demo_rq 6 25), rq (demo_rq 4 20)], w], ())"
    if "rq = rq_thread_id_update (\<lambda>_. 0)" for w hs rq
    by (simp add: that tpd_next_wid_user_def Let_def to_unsigned_def demo_old_rq_def demo_rq_def demo_wl_def)
  ultimately show ?thesis
    by (simp add: tpd_control_sleep_user_def tpd_control_sleep_queue_def tp_insert_request_initnodes_def demo_rq_def)
qed

text \<open>
  After \<open>tpdisp_init\<close> every built-in dispatcher class is found under its name, whatever its
  link field held before.
\<close>

theorem tpdisp_init_finds:
  assumes "length classes = length tpd_classes" and "distinct classes"
    and "\<forall>i < length tpd_classes. hm_key h (classes ! i) = Some (tpd_classes ! i)"
  shows "\<exists>hm h'. tpdisp_init h classes = Inr (hm, h') \<and>
    (\<forall>i < length tpd_classes. hash_map_find hm h' (tpd_classes ! i) = Inr (Some (classes ! i)))"
proof -
  let ?s = "(hash_map_init tpd_hash_map (Some ''tpd_hash_map''), h)"
  have ref: "hm_refines (fst ?s) (snd ?s) Map.empty"
    by (simp add: tpd_hash_map_def hm_refines_strkey)
  have names: "distinct tpd_classes" by (simp add: tpd_classes_def)
  have keys: "map (hm_key h) classes = map Some tpd_classes"
    using assms(1,3) by (intro nth_equalityI) auto
  then have "inj_on (hm_key h) (set classes)"
    using assms(2) names by (metis distinct_map inj_Some inj_on_subset subset_UNIV)
  moreover have "hm_key h a \<noteq> None" if "a \<in> set classes" for a
    using that assms by (auto simp: in_set_conv_nth)
  ultimately have "\<exists>s'. tpr.reg_all ?s classes = Some s' \<and> hm_key (snd s') = hm_key (snd ?s) \<and>
      (\<forall>a \<in> set classes. hm_table_find s' (the (hm_key (snd ?s) a)) = Some a)"
    using assms(2) by (intro tpr.reg_all_look [OF ref]) simp_all
  then obtain s' where s': "tpr.reg_all ?s classes = Some s'"
    "\<And>a. a \<in> set classes \<Longrightarrow> hm_table_find s' (the (hm_key h a)) = Some a" by auto
  have "hm_table_find s' (tpd_classes ! i) = Some (classes ! i)" if "i < length tpd_classes" for i
    using s'(2) [of "classes ! i"] that assms(1,3) by simp
  then have "hash_map_find (fst s') (snd s') (tpd_classes ! i) = Inr (Some (classes ! i))"
    if "i < length tpd_classes" for i
    using that by (fastforce simp: hm_table_find_def split: sum.splits)
  moreover have "tpdisp_init h classes = Inr (fst s', snd s')"
    using tpdisp_register_all_reg [OF s'(1)] by (simp add: tpdisp_init_def)
  ultimately show ?thesis by blast
qed

definition demo_class_heap :: "string hm_heap" where
  "demo_class_heap a = (if a < length tpd_classes then Some \<lparr>hi_key = tpd_classes ! a, hi_next = Some 99\<rparr> else None)"

theorem tpdisp_init_finds_witness:
  "\<exists>hm h'. tpdisp_init demo_class_heap [0..<length tpd_classes] = Inr (hm, h') \<and>
    (\<forall>i < length tpd_classes. hash_map_find hm h' (tpd_classes ! i) = Inr (Some ([0..<length tpd_classes] ! i)))"
  by (rule tpdisp_init_finds) (simp_all add: demo_class_heap_def hm_key_def)

end
