(* ===== verification/SyncQueue.thy ===== *)
theory SyncQueue
  imports TsPrelude
begin

text \<open>
  The synchronized queue of \<open>libtscommon/syncqueue.c\<close>, twice: the linked elements that the
  critical sections of \<open>squeue_push\<close>, \<open>squeue_pop\<close> and \<open>squeue_destroy\<close> update, refined to a
  list; and the interleaving of producers, consumers and the destroying thread around them, as
  a step relation in which a critical section is one step and the condition variable holds the
  set of waiting consumers. What POSIX leaves undefined (a mutex or a condition variable that
  is destroyed while in use or used after it is destroyed) and a dangling pointer that is
  followed end in a state marked as faulty.
\<close>

section \<open>Linked elements\<close>

record 'a squeue_el =
  s_next :: "addr option"
  s_data :: 'a

record squeue =
  sq_head :: "addr option"
  sq_tail :: "addr option"
  sq_is_destroyed :: bool

type_synonym 'a sq_heap = "addr \<Rightarrow> 'a squeue_el option"

datatype sq_error = SqFault | SqAssert

definition squeue_init :: squeue where
  "squeue_init = \<lparr>sq_head = None, sq_tail = None, sq_is_destroyed = False\<rparr>"

definition sq_set_next :: "'a sq_heap \<Rightarrow> addr \<Rightarrow> addr \<Rightarrow> 'a sq_heap" where
  "sq_set_next h a n = (case h a of None \<Rightarrow> h | Some el \<Rightarrow> h(a \<mapsto> el\<lparr>s_next := Some n\<rparr>))"

text \<open>
  \<open>squeue_push\<close>: \<open>el\<close> is the freshly allocated element; the flag of the result says whether
  the caller notifies one waiting consumer after unlocking.
\<close>

definition squeue_push ::
    "squeue \<Rightarrow> 'a sq_heap \<Rightarrow> addr \<Rightarrow> 'a \<Rightarrow> sq_error + (squeue \<times> 'a sq_heap \<times> bool)" where
  "squeue_push sq h el object =
     (let h1 = h(el \<mapsto> \<lparr>s_next = None, s_data = object\<rparr>) in
      case (sq_head sq, sq_tail sq) of
        (None, Some _) \<Rightarrow> Inl SqAssert
      | (None, None) \<Rightarrow> Inr (sq\<lparr>sq_head := Some el\<rparr>, h1, True)
      | (Some head, None) \<Rightarrow>
          if h1 head = None then Inl SqFault
          else Inr (sq\<lparr>sq_tail := Some el\<rparr>, sq_set_next h1 head el, False)
      | (Some head, Some tail) \<Rightarrow>
          if h1 tail = None then Inl SqFault
          else Inr (sq\<lparr>sq_tail := Some el\<rparr>, sq_set_next h1 tail el, False))"

text \<open>
  One round of the loop of \<open>squeue_pop\<close>: \<open>None\<close> when the queue is empty and the caller has
  to wait, otherwise the extracted object. The element is freed.
\<close>

definition squeue_pop_round ::
    "squeue \<Rightarrow> 'a sq_heap \<Rightarrow> sq_error + ('a option \<times> squeue \<times> 'a sq_heap)" where
  "squeue_pop_round sq h =
     (case sq_head sq of
        None \<Rightarrow> Inr (None, sq, h)
      | Some a \<Rightarrow>
          (case h a of
             None \<Rightarrow> Inl SqFault
           | Some el \<Rightarrow>
               let sq1 = sq\<lparr>sq_head := s_next el\<rparr>;
                   sq2 = (if sq_tail sq1 = sq_head sq1 then sq1\<lparr>sq_tail := None\<rparr> else sq1)
               in Inr (Some (s_data el), sq2, h(a := None))))"

text \<open>
  The critical section of \<open>squeue_destroy\<close> frees the elements in order and sets the flag; the
  head pointer is left as it is. The freed objects are the first result. The destruction of
  the mutex and the condition variable that follows is two steps of the interleaving below.
\<close>

partial_function (option) squeue_free_all ::
    "addr option \<Rightarrow> 'a sq_heap \<Rightarrow> ('a list \<times> 'a sq_heap) option" where
  "squeue_free_all p h =
     (case p of
        None \<Rightarrow> Some ([], h)
      | Some a \<Rightarrow>
          (case h a of
             None \<Rightarrow> None
           | Some el \<Rightarrow>
               Option.bind (squeue_free_all (s_next el) (h(a := None)))
                 (\<lambda>(ds, h1). Some (s_data el # ds, h1))))"

definition squeue_destroy :: "squeue \<Rightarrow> 'a sq_heap \<Rightarrow> sq_error + ('a list \<times> squeue \<times> 'a sq_heap)" where
  "squeue_destroy sq h =
     (case squeue_free_all (sq_head sq) h of
        None \<Rightarrow> Inl SqFault
      | Some (ds, h1) \<Rightarrow> Inr (ds, sq\<lparr>sq_is_destroyed := True\<rparr>, h1))"

section \<open>Interleaving\<close>

text \<open>
  A consumer is in \<open>squeue_pop\<close> (\<open>Waiting\<close> in \<open>cv_wait\<close>, \<open>Notified\<close> when woken and about to
  take the mutex again), elsewhere (\<open>Running\<close>), or has returned from \<open>squeue_pop\<close> without an
  object (\<open>Finished\<close>). \<open>sy_pending\<close> counts the producers that have left the critical section of
  \<open>squeue_push\<close> and have still to call \<open>cv_notify_one\<close>; \<open>sy_locked\<close> says that a consumer
  returned without unlocking the mutex; \<open>sy_stage\<close> is how far the thread in \<open>squeue_destroy\<close>
  has come: behind its critical section, behind \<open>mutex_destroy\<close>, behind \<open>cv_destroy\<close>.
  \<open>sy_fault\<close> marks undefined behaviour, after which nothing is claimed. \<open>sy_pushed\<close> and
  \<open>sy_popped\<close> are the history of the completed operations.
\<close>

datatype consumer = Running | Waiting | Notified | Finished

datatype destroy_stage = Alive | Flagged | MutexDestroyed | CvDestroyed

record 'a sq_sys =
  sy_q :: squeue
  sy_heap :: "'a sq_heap"
  sy_cons :: "nat \<Rightarrow> consumer"
  sy_pending :: nat
  sy_locked :: bool
  sy_stage :: destroy_stage
  sy_fault :: bool
  sy_pushed :: "'a list"
  sy_popped :: "'a list"

definition sq_sys_init :: "nat \<Rightarrow> 'a sq_sys" where
  "sq_sys_init n = \<lparr>sy_q = squeue_init, sy_heap = Map.empty,
     sy_cons = (\<lambda>i. if i < n then Running else Finished),
     sy_pending = 0, sy_locked = False, sy_stage = Alive, sy_fault = False, sy_pushed = [], sy_popped = []\<rparr>"

definition notify_all :: "(nat \<Rightarrow> consumer) \<Rightarrow> (nat \<Rightarrow> consumer)" where
  "notify_all c = (\<lambda>i. if c i = Waiting then Notified else c i)"

text \<open>Whether \<open>mutex_lock\<close> succeeds now, and whether the mutex still exists.\<close>

definition sq_mutex_exists :: "'a sq_sys \<Rightarrow> bool" where
  "sq_mutex_exists s \<longleftrightarrow> sy_stage s = Alive \<or> sy_stage s = Flagged"

definition sq_can_lock :: "'a sq_sys \<Rightarrow> bool" where
  "sq_can_lock s \<longleftrightarrow> \<not> sy_fault s \<and> sq_mutex_exists s \<and> \<not> sy_locked s"

text \<open>
  A consumer that looks at the head of the queue: one that calls \<open>squeue_pop\<close>, or one whose
  \<open>cv_wait\<close> returned while the queue is not destroyed.
\<close>

definition sq_at_head :: "'a sq_sys \<Rightarrow> nat \<Rightarrow> bool" where
  "sq_at_head s i \<longleftrightarrow> sy_cons s i = Running \<or> sy_cons s i = Notified \<and> \<not> sq_is_destroyed (sy_q s)"

text \<open>
  One step is one critical section, one notification or one destruction. \<open>wake\<close> is
  \<open>cv_notify_one\<close> with a waiting consumer, \<open>idle\<close> the same call with none; \<open>spurious\<close> is a
  return of \<open>cv_wait\<close> without notification, which the condition variables allow; \<open>leave\<close> is the
  return of \<open>squeue_pop\<close> after a destroy, which keeps the mutex. The rules named \<open>_fault\<close> are
  the undefined cases: pushing to or popping from a dangling element, locking a destroyed
  mutex, notifying a destroyed condition variable, destroying a mutex that is locked or that a
  consumer in \<open>cv_wait\<close> refers to, and destroying a condition variable on which a consumer waits.
\<close>

inductive sq_step :: "'a sq_sys \<Rightarrow> 'a sq_sys \<Rightarrow> bool" where
  push: "sq_can_lock s \<Longrightarrow> sy_heap s el = None \<Longrightarrow>
     squeue_push (sy_q s) (sy_heap s) el x = Inr (q, h, nfy) \<Longrightarrow>
     sq_step s (s\<lparr>sy_q := q, sy_heap := h, sy_pushed := sy_pushed s @ [x],
                  sy_pending := sy_pending s + (if nfy then 1 else 0)\<rparr>)"
| push_fault: "sq_can_lock s \<Longrightarrow> sy_heap s el = None \<Longrightarrow>
     squeue_push (sy_q s) (sy_heap s) el x = Inl e \<Longrightarrow> sq_step s (s\<lparr>sy_fault := True\<rparr>)"
| wake: "\<not> sy_fault s \<Longrightarrow> sy_stage s \<noteq> CvDestroyed \<Longrightarrow> sy_pending s = Suc k \<Longrightarrow> sy_cons s i = Waiting \<Longrightarrow>
     sq_step s (s\<lparr>sy_pending := k, sy_cons := (sy_cons s)(i := Notified)\<rparr>)"
| idle: "\<not> sy_fault s \<Longrightarrow> sy_stage s \<noteq> CvDestroyed \<Longrightarrow> sy_pending s = Suc k \<Longrightarrow> \<forall>i. sy_cons s i \<noteq> Waiting \<Longrightarrow>
     sq_step s (s\<lparr>sy_pending := k\<rparr>)"
| notify_fault: "\<not> sy_fault s \<Longrightarrow> sy_stage s = CvDestroyed \<Longrightarrow> sy_pending s = Suc k \<Longrightarrow>
     sq_step s (s\<lparr>sy_fault := True\<rparr>)"
| spurious: "\<not> sy_fault s \<Longrightarrow> sy_cons s i = Waiting \<Longrightarrow>
     sq_step s (s\<lparr>sy_cons := (sy_cons s)(i := Notified)\<rparr>)"
| pop: "sq_can_lock s \<Longrightarrow> sq_at_head s i \<Longrightarrow>
     squeue_pop_round (sy_q s) (sy_heap s) = Inr (Some x, q, h) \<Longrightarrow>
     sq_step s (s\<lparr>sy_q := q, sy_heap := h, sy_cons := (sy_cons s)(i := Running),
                  sy_popped := sy_popped s @ [x]\<rparr>)"
| wait: "sq_can_lock s \<Longrightarrow> sq_at_head s i \<Longrightarrow>
     squeue_pop_round (sy_q s) (sy_heap s) = Inr (None, q, h) \<Longrightarrow>
     sq_step s (s\<lparr>sy_cons := (sy_cons s)(i := Waiting)\<rparr>)"
| pop_fault: "sq_can_lock s \<Longrightarrow> sq_at_head s i \<Longrightarrow>
     squeue_pop_round (sy_q s) (sy_heap s) = Inl e \<Longrightarrow> sq_step s (s\<lparr>sy_fault := True\<rparr>)"
| leave: "sq_can_lock s \<Longrightarrow> sy_cons s i = Notified \<Longrightarrow> sq_is_destroyed (sy_q s) \<Longrightarrow>
     sq_step s (s\<lparr>sy_cons := (sy_cons s)(i := Finished), sy_locked := True\<rparr>)"
| lock_fault: "\<not> sy_fault s \<Longrightarrow> \<not> sq_mutex_exists s \<Longrightarrow> sq_step s (s\<lparr>sy_fault := True\<rparr>)"
| destroy: "sq_can_lock s \<Longrightarrow> sy_stage s = Alive \<Longrightarrow>
     squeue_destroy (sy_q s) (sy_heap s) = Inr (ds, q, h) \<Longrightarrow>
     sq_step s (s\<lparr>sy_q := q, sy_heap := h, sy_cons := notify_all (sy_cons s), sy_stage := Flagged\<rparr>)"
| mutex_destroy: "\<not> sy_fault s \<Longrightarrow> sy_stage s = Flagged \<Longrightarrow> \<not> sy_locked s \<Longrightarrow>
     \<forall>i. sy_cons s i \<noteq> Waiting \<and> sy_cons s i \<noteq> Notified \<Longrightarrow>
     sq_step s (s\<lparr>sy_stage := MutexDestroyed\<rparr>)"
| mutex_destroy_fault: "\<not> sy_fault s \<Longrightarrow> sy_stage s = Flagged \<Longrightarrow>
     sy_locked s \<or> sy_cons s i = Waiting \<or> sy_cons s i = Notified \<Longrightarrow>
     sq_step s (s\<lparr>sy_fault := True\<rparr>)"
| cv_destroy: "\<not> sy_fault s \<Longrightarrow> sy_stage s = MutexDestroyed \<Longrightarrow> \<forall>i. sy_cons s i \<noteq> Waiting \<Longrightarrow>
     sq_step s (s\<lparr>sy_stage := CvDestroyed\<rparr>)"
| cv_destroy_fault: "\<not> sy_fault s \<Longrightarrow> sy_stage s = MutexDestroyed \<Longrightarrow> sy_cons s i = Waiting \<Longrightarrow>
     sq_step s (s\<lparr>sy_fault := True\<rparr>)"

inductive sq_reachable :: "nat \<Rightarrow> 'a sq_sys \<Rightarrow> bool" for n where
  start: "sq_reachable n (sq_sys_init n)"
| step: "sq_reachable n s \<Longrightarrow> sq_step s t \<Longrightarrow> sq_reachable n t"

inductive_cases sq_stepE: "sq_step s t"

lemmas sq_lock_simps = sq_can_lock_def sq_mutex_exists_def sq_at_head_def

section \<open>Refinement to a list\<close>

fun sq_list :: "'a sq_heap \<Rightarrow> addr option \<Rightarrow> addr list \<Rightarrow> bool" where
  "sq_list h p [] = (p = None)"
| "sq_list h p (a # as) =
     (p = Some a \<and> (case h a of None \<Rightarrow> False | Some el \<Rightarrow> sq_list h (s_next el) as))"

definition sq_data :: "'a sq_heap \<Rightarrow> addr \<Rightarrow> 'a option" where
  "sq_data h a = map_option s_data (h a)"

text \<open>The tail pointer is only set when the queue has at least two elements.\<close>

definition sq_rep :: "squeue \<Rightarrow> 'a sq_heap \<Rightarrow> 'a list \<Rightarrow> bool" where
  "sq_rep sq h xs \<longleftrightarrow>
     (\<exists>as. sq_list h (sq_head sq) as \<and> distinct as \<and> map (sq_data h) as = map Some xs \<and>
        sq_tail sq = (if length as \<le> 1 then None else Some (last as)))"

lemma sq_list_upd [simp]: "a \<notin> set as \<Longrightarrow> sq_list (h(a := v)) p as = sq_list h p as"
  by (induction as arbitrary: p) (auto split: option.splits)

lemma sq_list_live: "sq_list h p as \<Longrightarrow> a \<in> set as \<Longrightarrow> h a \<noteq> None"
  by (induction as arbitrary: p) (auto split: option.splits)

lemma sq_list_snoc:
  assumes "sq_list h p (as @ [t])" and "distinct (as @ [t])" and "el \<notin> set (as @ [t])"
    and "h el = Some e" "s_next e = None"
  shows "sq_list (sq_set_next h t el) p (as @ [t, el])"
  using assms
  by (induction as arbitrary: p) (auto simp: sq_set_next_def split: option.splits if_splits)

lemma sq_data_set_next [simp]: "sq_data (sq_set_next h a n) = sq_data h"
  by (rule ext) (auto simp: sq_set_next_def sq_data_def split: option.splits)

lemma map_sq_data_upd [simp]:
  "a \<notin> set as \<Longrightarrow> map (sq_data (h(a := v))) as = map (sq_data h) as"
  by (induction as) (auto simp: sq_data_def)

lemma squeue_push_rep:
  assumes rep: "sq_rep sq h xs" and fresh: "h el = None"
  shows "\<exists>sq' h'. squeue_push sq h el x = Inr (sq', h', xs = []) \<and> sq_rep sq' h' (xs @ [x]) \<and>
           sq_is_destroyed sq' = sq_is_destroyed sq \<and> (\<forall>a. h' a = None \<longleftrightarrow> a \<noteq> el \<and> h a = None)"
proof -
  from rep obtain as where as: "sq_list h (sq_head sq) as" "distinct as" "map (sq_data h) as = map Some xs"
    "sq_tail sq = (if length as \<le> 1 then None else Some (last as))"
    unfolding sq_rep_def by blast
  let ?h = "h(el \<mapsto> \<lparr>s_next = None, s_data = x\<rparr>)"
  have el: "el \<notin> set as" using sq_list_live [OF as(1)] fresh by blast
  have lst: "sq_list ?h (sq_head sq) as" using as(1) el by simp
  have data: "map (sq_data ?h) (as @ [el]) = map Some (xs @ [x])"
    using as(3) el by (simp add: sq_data_def [of _ el])
  show ?thesis
  proof (cases as rule: rev_cases)
    case Nil
    with as data have "sq_rep (sq\<lparr>sq_head := Some el\<rparr>) ?h (xs @ [x])"
      unfolding sq_rep_def by (intro exI [of _ "[el]"]) (auto simp: sq_data_def)
    with Nil as show ?thesis by (auto simp: squeue_push_def)
  next
    case (snoc bs t)
    have "sq_list (sq_set_next ?h t el) (sq_head sq) (bs @ [t, el])"
      using lst as(2) el unfolding snoc by (intro sq_list_snoc) auto
    then have "sq_rep (sq\<lparr>sq_tail := Some el\<rparr>) (sq_set_next ?h t el) (xs @ [x])"
      using as(2) el data snoc unfolding sq_rep_def
      by (intro exI [of _ "as @ [el]"]) auto
    moreover have "sq_set_next ?h t el a = None \<longleftrightarrow> a \<noteq> el \<and> h a = None" for a
      by (auto simp: sq_set_next_def split: option.splits)
    moreover have "xs \<noteq> []" using as(3) snoc by auto
    moreover have "?h t \<noteq> None" using sq_list_live [OF as(1)] snoc by simp
    then have "squeue_push sq h el x = Inr (sq\<lparr>sq_tail := Some el\<rparr>, sq_set_next ?h t el, False)"
      using as(1,4) snoc by (cases bs) (auto simp: squeue_push_def split: option.splits)
    ultimately show ?thesis by auto
  qed
qed

lemma squeue_pop_empty: "sq_rep sq h [] \<Longrightarrow> squeue_pop_round sq h = Inr (None, sq, h)"
  by (auto simp: sq_rep_def squeue_pop_round_def)

lemma squeue_pop_rep:
  assumes "sq_rep sq h (x # xs)"
  shows "\<exists>sq' h'. squeue_pop_round sq h = Inr (Some x, sq', h') \<and> sq_rep sq' h' xs \<and>
           sq_is_destroyed sq' = sq_is_destroyed sq"
proof -
  from assms obtain a as where as: "sq_list h (sq_head sq) (a # as)" "distinct (a # as)"
    "map (sq_data h) (a # as) = map Some (x # xs)"
    "sq_tail sq = (if as = [] then None else Some (last as))"
    unfolding sq_rep_def by (auto simp: map_eq_Cons_conv Suc_le_eq split: if_splits)
  then obtain el where el: "h a = Some el" "sq_head sq = Some a" "s_data el = x"
    "sq_list (h(a := None)) (s_next el) as"
    by (auto simp: sq_data_def split: option.splits)
  have data: "map (sq_data (h(a := None))) as = map Some xs"
    using as(2,3) by simp
  have "sq_tail sq = s_next el \<longleftrightarrow> length as \<le> 1"
    using as(2,4) el(4) by (cases as; cases "tl as") (auto split: option.splits)
  with as(2,4) el data show ?thesis
    unfolding sq_rep_def squeue_pop_round_def by (auto simp: Let_def intro!: exI [of _ as])
qed

lemma squeue_free_all_list:
  "sq_list h p as \<Longrightarrow> distinct as \<Longrightarrow> map (sq_data h) as = map Some xs \<Longrightarrow>
   squeue_free_all p h = Some (xs, \<lambda>a. if a \<in> set as then None else h a)"
proof (induction as arbitrary: p h xs)
  case Nil
  then show ?case by (simp add: squeue_free_all.simps)
next
  case (Cons a as)
  then obtain el ys where el: "p = Some a" "h a = Some el" "sq_list h (s_next el) as"
      "xs = s_data el # ys" "map (sq_data h) as = map Some ys"
    by (cases xs) (auto simp: sq_data_def [of _ a] split: option.splits)
  let ?h = "h(a := None)"
  have "sq_list ?h (s_next el) as" "map (sq_data ?h) as = map Some ys" "distinct as"
    using Cons.prems(2) el by simp_all
  from Cons.IH [OF this(1,3,2)]
  have "squeue_free_all (s_next el) ?h = Some (ys, \<lambda>b. if b \<in> set as then None else ?h b)" .
  moreover have "(\<lambda>b. if b \<in> set as then None else ?h b) = (\<lambda>b. if b \<in> set (a # as) then None else h b)"
    by auto
  ultimately show ?case using el by (simp add: squeue_free_all.simps [of "Some a"])
qed

lemma squeue_destroy_rep:
  assumes "sq_rep sq h xs"
  shows "\<exists>h'. squeue_destroy sq h = Inr (xs, sq\<lparr>sq_is_destroyed := True\<rparr>, h') \<and>
           (\<forall>a. h' a = None \<or> h' a = h a) \<and> (\<forall>a. sq_head sq = Some a \<longrightarrow> h' a = None)"
proof -
  from assms obtain as where as: "sq_list h (sq_head sq) as" "distinct as" "map (sq_data h) as = map Some xs"
    unfolding sq_rep_def by blast
  moreover from as(1) have "sq_head sq = Some a \<longrightarrow> a \<in> set as" for a by (cases as) auto
  ultimately show ?thesis
    by (simp add: squeue_destroy_def squeue_free_all_list [OF as])
qed

section \<open>The contract of a first-in-first-out queue\<close>

locale fifo =
  fixes rep :: "'s \<Rightarrow> 'a list \<Rightarrow> bool"
    and fresh :: "'s \<Rightarrow> 'e \<Rightarrow> bool"
    and enq :: "'s \<Rightarrow> 'e \<Rightarrow> 'a \<Rightarrow> ('s \<times> bool) option"
    and deq :: "'s \<Rightarrow> ('a option \<times> 's) option"
  assumes enq_rep: "rep s xs \<Longrightarrow> fresh s e \<Longrightarrow>
      \<exists>s'. enq s e x = Some (s', xs = []) \<and> rep s' (xs @ [x])"
    and deq_empty: "rep s [] \<Longrightarrow> deq s = Some (None, s)"
    and deq_rep: "rep s (x # xs) \<Longrightarrow> \<exists>s'. deq s = Some (Some x, s') \<and> rep s' xs"
begin

definition history :: "'s \<Rightarrow> 'a list \<Rightarrow> 'a list \<Rightarrow> bool" where
  "history s ins outs \<longleftrightarrow> (\<exists>xs. rep s xs \<and> ins = outs @ xs)"

lemma history_enq:
  assumes "history s ins outs" and "fresh s e" and "enq s e x = Some (s', n)"
  shows "history s' (ins @ [x]) outs"
proof -
  from assms(1) obtain xs where "rep s xs" "ins = outs @ xs" unfolding history_def by blast
  with enq_rep [OF \<open>rep s xs\<close> assms(2), of x] assms(3) show ?thesis by (auto simp: history_def)
qed

lemma history_deq:
  assumes "history s ins outs" and "deq s = Some (Some x, s')"
  shows "history s' ins (outs @ [x])"
proof -
  from assms(1) obtain xs where "rep s xs" "ins = outs @ xs" unfolding history_def by blast
  with deq_empty deq_rep assms(2) show ?thesis by (cases xs) (fastforce simp: history_def)+
qed

lemma history_empty:
  assumes "history s ins outs" and "deq s = Some (None, s')"
  shows "ins = outs"
proof -
  from assms(1) obtain xs where "rep s xs" "ins = outs @ xs" unfolding history_def by blast
  with deq_rep assms(2) show ?thesis by (cases xs) fastforce+
qed

lemma history_live:
  assumes "history s ins outs" and "ins \<noteq> outs"
  shows "\<exists>x s'. deq s = Some (Some x, s') \<and> x = ins ! length outs"
proof -
  from assms(1) obtain xs where "rep s xs" "ins = outs @ xs" unfolding history_def by blast
  with deq_rep assms(2) show ?thesis by (cases xs) (fastforce simp: nth_append)+
qed

end

definition sq_enq :: "squeue \<times> 'a sq_heap \<Rightarrow> addr \<Rightarrow> 'a \<Rightarrow> ((squeue \<times> 'a sq_heap) \<times> bool) option" where
  "sq_enq s el x = (case squeue_push (fst s) (snd s) el x of
     Inl _ \<Rightarrow> None | Inr (q, h, nfy) \<Rightarrow> Some ((q, h), nfy))"

definition sq_deq :: "squeue \<times> 'a sq_heap \<Rightarrow> ('a option \<times> (squeue \<times> 'a sq_heap)) option" where
  "sq_deq s = (case squeue_pop_round (fst s) (snd s) of
     Inl _ \<Rightarrow> None | Inr (x, q, h) \<Rightarrow> Some (x, (q, h)))"

interpretation sqf: fifo "\<lambda>s xs. sq_rep (fst s) (snd s) xs" "\<lambda>s el. snd s el = None" sq_enq sq_deq
proof unfold_locales
  fix s :: "squeue \<times> 'a sq_heap" and xs el and x :: 'a
  assume "sq_rep (fst s) (snd s) xs" "snd s el = None"
  then show "\<exists>s'. sq_enq s el x = Some (s', xs = []) \<and> sq_rep (fst s') (snd s') (xs @ [x])"
    using squeue_push_rep [of "fst s" "snd s" xs el x] by (force simp: sq_enq_def)
next
  fix s :: "squeue \<times> 'a sq_heap"
  assume "sq_rep (fst s) (snd s) []"
  then show "sq_deq s = Some (None, s)" by (simp add: sq_deq_def squeue_pop_empty)
next
  fix s :: "squeue \<times> 'a sq_heap" and x xs
  assume "sq_rep (fst s) (snd s) (x # xs)"
  then show "\<exists>s'. sq_deq s = Some (Some x, s') \<and> sq_rep (fst s') (snd s') xs"
    using squeue_pop_rep [of "fst s" "snd s" x xs] by (force simp: sq_deq_def)
qed

section \<open>Invariants of the interleaving\<close>

abbreviation sq_hist :: "'a sq_sys \<Rightarrow> bool" where
  "sq_hist s \<equiv> sqf.history (sy_q s, sy_heap s) (sy_pushed s) (sy_popped s)"

lemma squeue_push_destroyed:
  "squeue_push q h el x = Inr (q', h', n) \<Longrightarrow> sq_is_destroyed q' = sq_is_destroyed q"
  by (auto simp: squeue_push_def Let_def split: option.splits if_splits)

lemma squeue_pop_destroyed:
  "squeue_pop_round q h = Inr (x, q', h') \<Longrightarrow> sq_is_destroyed q' = sq_is_destroyed q"
  by (auto simp: squeue_pop_round_def Let_def split: option.splits if_splits)

lemma squeue_destroy_destroyed:
  "squeue_destroy q h = Inr (ds, q', h') \<Longrightarrow> sq_is_destroyed q'"
  by (auto simp: squeue_destroy_def split: option.splits)

lemmas sq_flag = squeue_push_destroyed squeue_pop_destroyed squeue_destroy_destroyed

lemma sq_step_history:
  assumes "sq_step s t" and "\<not> sq_is_destroyed (sy_q s) \<Longrightarrow> sq_hist s" and "\<not> sq_is_destroyed (sy_q t)"
  shows "sq_hist t"
  using assms(1)
proof cases
  case (push el x q h nfy)
  with assms have "sq_hist s" using sq_flag(1) [OF push(4)] by simp
  then have "sqf.history (q, h) (sy_pushed s @ [x]) (sy_popped s)"
    by (rule sqf.history_enq [of _ _ _ el _ _ nfy]) (use push in \<open>simp_all add: sq_enq_def\<close>)
  then show ?thesis using push by simp
next
  case (pop i x q h)
  with assms have "sq_hist s" using sq_flag(2) [OF pop(4)] by simp
  then have "sqf.history (q, h) (sy_pushed s) (sy_popped s @ [x])"
    by (rule sqf.history_deq) (use pop in \<open>simp add: sq_deq_def\<close>)
  then show ?thesis using pop by simp
next
  case (destroy ds q h)
  then show ?thesis using assms(3) sq_flag(3) [OF destroy(4)] by simp
qed (use assms in auto)

lemma sq_reachable_history:
  "sq_reachable n s \<Longrightarrow> \<not> sq_is_destroyed (sy_q s) \<Longrightarrow> sq_hist s"
proof (induction rule: sq_reachable.induct)
  case start
  have "sq_rep squeue_init (Map.empty :: 'a sq_heap) []"
    by (auto simp: sq_rep_def squeue_init_def intro!: exI [of _ "[]"])
  then show ?case by (simp add: sq_sys_init_def sqf.history_def)
next
  case (step s t)
  then show ?case by (rule_tac sq_step_history) auto
qed


text \<open>The single-consumer wake-up invariant.\<close>

definition sq_wake_inv :: "'a sq_sys \<Rightarrow> bool" where
  "sq_wake_inv s \<longleftrightarrow> (\<forall>i > 0. sy_cons s i = Finished) \<and>
     (\<not> sq_is_destroyed (sy_q s) \<longrightarrow> sy_cons s 0 = Waiting \<longrightarrow> sq_head (sy_q s) \<noteq> None \<longrightarrow>
        sy_pending s > 0)"

lemma squeue_push_notifies:
  "squeue_push q h el x = Inr (q', h', n) \<Longrightarrow> n = (sq_head q = None)"
  by (auto simp: squeue_push_def Let_def split: option.splits if_splits)

lemma squeue_pop_wait_empty:
  "squeue_pop_round q h = Inr (None, q', h') \<Longrightarrow> sq_head q = None"
  by (auto simp: squeue_pop_round_def Let_def split: option.splits)

lemma only_consumer_0:
  "\<forall>i > 0. c i = Finished \<Longrightarrow> c i = Waiting \<or> c i = Running \<or> c i = Notified \<Longrightarrow> i = (0 :: nat)"
  by (cases i) auto

lemma sq_at_headD: "sq_at_head s i \<Longrightarrow> sy_cons s i = Running \<or> sy_cons s i = Notified"
  by (auto simp: sq_at_head_def)

lemma sq_step_wake_inv: "sq_step s t \<Longrightarrow> sq_wake_inv s \<Longrightarrow> sq_wake_inv t"
proof (induction rule: sq_step.induct)
  case (push s el x q h nfy)
  then show ?case using squeue_push_destroyed [OF push(3)] squeue_push_notifies [OF push(3)]
    by (auto simp: sq_wake_inv_def)
next
  case (wait s i q h)
  then show ?case using squeue_pop_wait_empty [OF wait(3)] only_consumer_0 [of "sy_cons s" i] sq_at_headD [OF wait(2)]
    by (auto simp: sq_wake_inv_def)
next
  case (destroy s ds q h)
  then show ?case using sq_flag(3) [OF destroy(3)] by (auto simp: sq_wake_inv_def notify_all_def)
next
  case (wake s k i)
  then show ?case using only_consumer_0 [of "sy_cons s" i] by (auto simp: sq_wake_inv_def)
next
  case (spurious s i)
  then show ?case using only_consumer_0 [of "sy_cons s" i] by (auto simp: sq_wake_inv_def)
next
  case (pop s i x q h)
  then show ?case using only_consumer_0 [of "sy_cons s" i] squeue_pop_destroyed [OF pop(3)] sq_at_headD [OF pop(2)]
    by (auto simp: sq_wake_inv_def)
next
  case (leave s i)
  then show ?case using only_consumer_0 [of "sy_cons s" i] by (auto simp: sq_wake_inv_def)
qed (auto simp: sq_wake_inv_def)

lemma sq_reachable_wake_inv: "sq_reachable 1 s \<Longrightarrow> sq_wake_inv s"
proof (induction rule: sq_reachable.induct)
  case start
  then show ?case by (simp add: sq_wake_inv_def sq_sys_init_def)
next
  case (step s t)
  then show ?case by (blast intro: sq_step_wake_inv)
qed

text \<open>
  A consumer that leaves after a destroy keeps the mutex, so no second one leaves and the mutex
  is not destroyed in a defined way.
\<close>

definition sq_leave_inv :: "nat \<Rightarrow> 'a sq_sys \<Rightarrow> bool" where
  "sq_leave_inv n s \<longleftrightarrow>
     (sq_is_destroyed (sy_q s) \<longleftrightarrow> sy_stage s \<noteq> Alive) \<and>
     (sy_locked s \<longrightarrow> sy_stage s = Flagged) \<and>
     (\<not> sq_mutex_exists s \<longrightarrow> (\<forall>i. sy_cons s i \<noteq> Waiting \<and> sy_cons s i \<noteq> Notified)) \<and>
     (\<not> sy_locked s \<longrightarrow> (\<forall>i < n. sy_cons s i \<noteq> Finished)) \<and>
     (\<forall>i < n. \<forall>j < n. sy_cons s i = Finished \<longrightarrow> sy_cons s j = Finished \<longrightarrow> i = j)"

lemma sq_step_leave_inv: "sq_step s t \<Longrightarrow> sq_leave_inv n s \<Longrightarrow> sq_leave_inv n t"
proof (induction rule: sq_step.induct)
  case (push s el x q h nfy)
  then show ?case using squeue_push_destroyed [OF push(3)]
    by (auto simp: sq_leave_inv_def sq_can_lock_def sq_mutex_exists_def)
next
  case (pop s i x q h)
  then show ?case using squeue_pop_destroyed [OF pop(3)]
    by (auto simp: sq_leave_inv_def sq_can_lock_def sq_mutex_exists_def)
next
  case (destroy s ds q h)
  then show ?case using sq_flag(3) [OF destroy(3)]
    by (auto simp: sq_leave_inv_def notify_all_def sq_mutex_exists_def)
qed (auto simp: sq_leave_inv_def sq_can_lock_def sq_mutex_exists_def)

lemma sq_reachable_leave_inv: "sq_reachable n s \<Longrightarrow> sq_leave_inv n s"
proof (induction rule: sq_reachable.induct)
  case start
  then show ?case by (simp add: sq_leave_inv_def sq_sys_init_def squeue_init_def sq_mutex_exists_def)
next
  case (step s t)
  then show ?case by (blast intro: sq_step_leave_inv)
qed

section \<open>Properties\<close>

text \<open>
  C12. The queue is first in first out under every interleaving of producers and consumers:
  in every reachable state of a queue that is not destroyed the linked elements hold, in
  order, the pushed objects that have not been popped, so the popped objects are a prefix of
  the pushed ones, none lost or duplicated.
\<close>

theorem squeue_fifo:
  assumes "sq_reachable n s" and "\<not> sq_is_destroyed (sy_q s)"
  shows "\<exists>xs. sq_rep (sy_q s) (sy_heap s) xs \<and> sy_pushed s = sy_popped s @ xs"
  using sq_reachable_history [OF assms] by (simp add: sqf.history_def)

definition sq_two_pushed :: "nat sq_sys" where
  "sq_two_pushed = (sq_sys_init 2)\<lparr>sy_q := \<lparr>sq_head = Some 1, sq_tail = Some 2, sq_is_destroyed = False\<rparr>,
     sy_heap := [1 \<mapsto> \<lparr>s_next = Some 2, s_data = 10\<rparr>, 2 \<mapsto> \<lparr>s_next = None, s_data = 20\<rparr>],
     sy_pending := 1, sy_pushed := [10, 20]\<rparr>"

lemma sq_two_pushed_reachable: "sq_reachable 2 sq_two_pushed"
proof -
  let ?h1 = "[1 \<mapsto> \<lparr>s_next = None, s_data = 10\<rparr>] :: nat sq_heap"
  let ?q1 = "\<lparr>sq_head = Some 1, sq_tail = None, sq_is_destroyed = False\<rparr>"
  let ?s1 = "(sq_sys_init 2)\<lparr>sy_q := ?q1, sy_heap := ?h1, sy_pending := 1, sy_pushed := [10]\<rparr>"
  have "sq_step (sq_sys_init 2) ?s1"
    using sq_step.push [of "sq_sys_init 2 :: nat sq_sys" 1 10 ?q1 ?h1 True]
    by (simp add: sq_sys_init_def squeue_init_def squeue_push_def sq_lock_simps)
  then have "sq_reachable 2 ?s1" by (blast intro: sq_reachable.intros)
  moreover have "sq_step ?s1 sq_two_pushed"
    using sq_step.push [of ?s1 2 20 "sy_q sq_two_pushed" "sy_heap sq_two_pushed" False]
    by (simp add: sq_sys_init_def squeue_push_def sq_two_pushed_def sq_set_next_def fun_upd_twist sq_lock_simps)
  ultimately show ?thesis by (rule sq_reachable.step)
qed

theorem squeue_fifo_witness:
  "\<exists>xs. sq_rep (sy_q sq_two_pushed) (sy_heap sq_two_pushed) xs \<and> sy_pushed sq_two_pushed = sy_popped sq_two_pushed @ xs"
  by (rule squeue_fifo [OF sq_two_pushed_reachable]) (simp add: sq_two_pushed_def)

text \<open>
  C34. With one consumer no wake-up is lost: in a reachable state in which the consumer waits
  in \<open>squeue_pop\<close> of a queue that holds elements, a producer that found the queue empty is
  still about to notify it.
\<close>

theorem squeue_no_lost_wakeup:
  assumes "sq_reachable 1 s" and "\<not> sq_is_destroyed (sy_q s)"
    and "sy_cons s 0 = Waiting" and "sy_pushed s \<noteq> sy_popped s"
  shows "sy_pending s > 0"
proof -
  from sq_reachable_history [OF assms(1,2)] obtain xs
    where "sq_rep (sy_q s) (sy_heap s) xs" "sy_pushed s = sy_popped s @ xs"
    by (auto simp: sqf.history_def)
  with assms(4) have "sq_head (sy_q s) \<noteq> None" by (cases xs) (auto simp: sq_rep_def)
  with sq_reachable_wake_inv [OF assms(1)] assms(2,3) show ?thesis by (auto simp: sq_wake_inv_def)
qed

definition sq_woken_late :: "nat sq_sys" where
  "sq_woken_late = (sq_sys_init 1)\<lparr>sy_q := \<lparr>sq_head = Some 1, sq_tail = None, sq_is_destroyed = False\<rparr>,
     sy_heap := [1 \<mapsto> \<lparr>s_next = None, s_data = 10\<rparr>], sy_cons := (\<lambda>i. if i = 0 then Waiting else Finished),
     sy_pending := 1, sy_pushed := [10]\<rparr>"

lemma sq_woken_late_reachable: "sq_reachable 1 sq_woken_late"
proof -
  let ?s1 = "(sq_sys_init 1 :: nat sq_sys)\<lparr>sy_cons := (sy_cons (sq_sys_init 1 :: nat sq_sys))(0 := Waiting)\<rparr>"
  have "sq_step (sq_sys_init 1) ?s1"
    by (rule sq_step.wait) (simp_all add: sq_sys_init_def squeue_init_def squeue_pop_round_def sq_lock_simps)
  then have "sq_reachable 1 ?s1" by (blast intro: sq_reachable.intros)
  moreover have "(sy_cons (sq_sys_init 1 :: nat sq_sys))(0 := Waiting) = (\<lambda>i. if i = 0 then Waiting else Finished)"
    by (auto simp: sq_sys_init_def)
  then have "sq_step ?s1 sq_woken_late"
    using sq_step.push [of ?s1 1 10 "sy_q sq_woken_late" "sy_heap sq_woken_late" True]
    by (simp add: sq_sys_init_def squeue_init_def squeue_push_def sq_woken_late_def sq_lock_simps)
  ultimately show ?thesis by (rule sq_reachable.step)
qed

theorem squeue_no_lost_wakeup_witness:
  "sy_cons sq_woken_late 0 = Waiting \<and> sy_pending sq_woken_late > 0"
  using squeue_no_lost_wakeup [OF sq_woken_late_reachable] by (simp add: sq_woken_late_def sq_sys_init_def)

text \<open>
  C36. \<open>squeue_pop\<close> returns with the mutex held when the queue was destroyed. So at most one of the
  consumers that wait at a destroy ever returns; the others stay blocked on the mutex, the
  mutex stays locked, and \<open>squeue_destroy\<close> never gets past \<open>mutex_destroy\<close> in a defined way:
  every step it makes from there is the destruction of a locked mutex.
\<close>

theorem squeue_one_consumer_leaves:
  assumes "sq_reachable n s" and "i < n" and "sy_cons s i = Finished"
  shows "sy_locked s \<and> sq_is_destroyed (sy_q s) \<and> sy_stage s = Flagged \<and>
    (\<forall>j < n. j \<noteq> i \<longrightarrow> sy_cons s j \<noteq> Finished) \<and>
    (\<forall>t. sq_step s t \<longrightarrow> sy_fault t \<or> sy_locked t \<and> sy_stage t = Flagged \<and> sy_q t = sy_q s)"
proof -
  have inv: "sq_leave_inv n s" using sq_reachable_leave_inv [OF assms(1)] .
  have l: "sy_locked s" "sy_stage s = Flagged" using inv assms(2,3) by (auto simp: sq_leave_inv_def)
  have "sy_fault t \<or> sy_locked t \<and> sy_stage t = Flagged \<and> sy_q t = sy_q s" if "sq_step s t" for t
    using that l by cases (simp_all add: sq_can_lock_def)
  then show ?thesis using inv l assms(2,3) by (auto simp: sq_leave_inv_def)
qed

definition sq_destroyed_waiters :: "bool \<Rightarrow> consumer \<Rightarrow> consumer \<Rightarrow> bool \<Rightarrow> nat sq_sys" where
  "sq_destroyed_waiters d a b l = \<lparr>sy_q = squeue_init\<lparr>sq_is_destroyed := d\<rparr>, sy_heap = Map.empty,
     sy_cons = (\<lambda>i. if i = 0 then a else if i = 1 then b else Finished), sy_pending = 0,
     sy_locked = l, sy_stage = (if d then Flagged else Alive), sy_fault = False, sy_pushed = [], sy_popped = []\<rparr>"

lemma sq_destroyed_waiters_reachable:
  "sq_reachable 2 (sq_destroyed_waiters True Finished Notified True)"
proof -
  let ?w = "sq_destroyed_waiters"
  have init: "sq_sys_init 2 = ?w False Running Running False"
    by (auto simp: sq_destroyed_waiters_def sq_sys_init_def squeue_init_def)
  have upd: "(sy_cons (?w d a b l))(0 := a') = sy_cons (?w d a' b l)"
    "(sy_cons (?w d a b l))(1 := b') = sy_cons (?w d a b' l)" for d a b l a' b'
    by (auto simp: sq_destroyed_waiters_def)
  have 1: "sq_step (?w False Running Running False) (?w False Waiting Running False)"
    using sq_step.wait [of "?w False Running Running False" 0] unfolding upd
    by (simp add: sq_destroyed_waiters_def squeue_init_def squeue_pop_round_def sq_lock_simps)
  have 2: "sq_step (?w False Waiting Running False) (?w False Waiting Waiting False)"
    using sq_step.wait [of "?w False Waiting Running False" 1] unfolding upd
    by (simp add: sq_destroyed_waiters_def squeue_init_def squeue_pop_round_def sq_lock_simps)
  have nf: "notify_all (sy_cons (?w False Waiting Waiting False)) = sy_cons (?w True Notified Notified False)"
    by (auto simp: sq_destroyed_waiters_def notify_all_def)
  have 3: "sq_step (?w False Waiting Waiting False) (?w True Notified Notified False)"
    using sq_step.destroy [of "?w False Waiting Waiting False"] unfolding nf
    by (simp add: sq_destroyed_waiters_def squeue_init_def squeue_destroy_def squeue_free_all.simps
          sq_sys_init_def sq_lock_simps)
  have 4: "sq_step (?w True Notified Notified False) (?w True Finished Notified True)"
    using sq_step.leave [of "?w True Notified Notified False" 0] unfolding upd
    by (simp add: sq_destroyed_waiters_def squeue_init_def sq_lock_simps)
  have "sq_reachable 2 (?w False Running Running False)"
    using sq_reachable.start [of 2, where 'a = nat] unfolding init .
  then show ?thesis using 1 2 3 4 by (blast intro: sq_reachable.step)
qed

theorem squeue_one_consumer_leaves_witness:
  "sy_locked (sq_destroyed_waiters True Finished Notified True) \<and>
   sy_cons (sq_destroyed_waiters True Finished Notified True) 1 \<noteq> Finished"
  using squeue_one_consumer_leaves [OF sq_destroyed_waiters_reachable, of 0]
  by (simp add: sq_destroyed_waiters_def)

text \<open>
  A consumer in \<open>squeue_pop\<close> at the time of the destroy is never got rid of in a defined way: if
  \<open>squeue_destroy\<close> gets past \<open>mutex_destroy\<close>, every consumer is outside \<open>squeue_pop\<close>.
\<close>

lemma squeue_destroy_completes_without_waiters:
  assumes "sq_reachable n s" and "\<not> sq_mutex_exists s" and "i < n"
  shows "sy_cons s i = Running"
  using sq_reachable_leave_inv [OF assms(1)] assms(2,3)
  by (cases "sy_cons s i") (auto simp: sq_leave_inv_def sq_mutex_exists_def)

end
