(* ===== verification/JsonNode.thy ===== *)
theory JsonNode
  imports TsPrelude
begin

text \<open>
  JSON trees of \<open>libtsjson\<close> (\<open>node.c\<close>, \<open>common.c\<close>, \<open>error.c\<close>): nodes, type checks, lookups,
  typed getters, constructors, copies and the release of string references. A node is a
  value of a datatype with the fields of \<open>json_node_t\<close>; the list of children replaces the
  linked list, and a pointer to a child is its position. The thread's error number is passed
  explicitly; \<open>None\<close> as the outcome of a lookup is the dereference of a null name. Doubles are
  a type parameter.
\<close>

section \<open>Data\<close>

datatype json_tag = JSON_STR_DYNAMIC | JSON_STR_CONST | JSON_STR_REFERENCE

type_synonym json_str = "json_tag \<times> string"

datatype json_type =
    JSON_ANY | JSON_NUMBER_INTEGER | JSON_NUMBER_FLOAT
  | JSON_NULL | JSON_STRING | JSON_NUMBER | JSON_BOOLEAN | JSON_ARRAY | JSON_NODE

datatype json_code =
    JSON_OK | JSON_INTERNAL_ERROR | JSON_INVALID_TYPE | JSON_NOT_FOUND | JSON_NOT_CHILD
  | JSON_UNUSED_CHILD | JSON_OVERFLOW
  | JSON_END_OF_BUFFER | JSON_VALUE_INVALID | JSON_NUMBER_INVALID | JSON_NUMBER_OVERFLOW
  | JSON_LITERAL_INVALID | JSON_STRING_UNESCAPED | JSON_STRING_INVALID_ESC | JSON_OBJECT_INVALID
  | JSON_INVALID_UNICODE_CHR | JSON_BUFFER_OVERFLOW | JSON_FILE_ERROR

datatype 'd jn_data = JUnset | JInt int | JDouble 'd | JStr json_str | JBool bool

datatype 'd json_node =
  Json_Node (jn_name: "json_str option") (jn_type: json_type) (jn_is_integer: bool)
    (jn_touched: bool) (jn_data: "'d jn_data") (jn_children_count: nat)
    (jn_child_head: "'d json_node list")

fun jn_set_name :: "json_str option \<Rightarrow> 'd json_node \<Rightarrow> 'd json_node" where
  "jn_set_name n (Json_Node _ t i u d c ch) = Json_Node n t i u d c ch"

fun jn_set_touched :: "bool \<Rightarrow> 'd json_node \<Rightarrow> 'd json_node" where
  "jn_set_touched u (Json_Node n t i _ d c ch) = Json_Node n t i u d c ch"

fun jn_set_data :: "bool \<Rightarrow> 'd jn_data \<Rightarrow> 'd json_node \<Rightarrow> 'd json_node" where
  "jn_set_data i d (Json_Node n t _ u _ c ch) = Json_Node n t i u d c ch"

fun jn_set_children :: "nat \<Rightarrow> 'd json_node list \<Rightarrow> 'd json_node \<Rightarrow> 'd json_node" where
  "jn_set_children c ch (Json_Node n t i u d _ _) = Json_Node n t i u d c ch"

section \<open>Error text\<close>

text \<open>
  \<open>json_set_error(error)\<close> without a format takes its text from \<open>json_error_msg_text\<close> when
  \<open>-error < json_error_msg_count\<close>, and leaves the message as it was otherwise.
\<close>

definition json_error_number :: "json_code \<Rightarrow> int" where
  "json_error_number e =
     (case e of JSON_OK \<Rightarrow> 0 | JSON_INTERNAL_ERROR \<Rightarrow> -1 | JSON_INVALID_TYPE \<Rightarrow> -2
      | JSON_NOT_FOUND \<Rightarrow> -3 | JSON_NOT_CHILD \<Rightarrow> -4 | JSON_UNUSED_CHILD \<Rightarrow> -5 | JSON_OVERFLOW \<Rightarrow> -6
      | JSON_END_OF_BUFFER \<Rightarrow> -11 | JSON_VALUE_INVALID \<Rightarrow> -12 | JSON_NUMBER_INVALID \<Rightarrow> -13
      | JSON_NUMBER_OVERFLOW \<Rightarrow> -14 | JSON_LITERAL_INVALID \<Rightarrow> -15 | JSON_STRING_UNESCAPED \<Rightarrow> -16
      | JSON_STRING_INVALID_ESC \<Rightarrow> -17 | JSON_OBJECT_INVALID \<Rightarrow> -18
      | JSON_INVALID_UNICODE_CHR \<Rightarrow> -31 | JSON_BUFFER_OVERFLOW \<Rightarrow> -32 | JSON_FILE_ERROR \<Rightarrow> -33)"

definition json_error_msg_text :: "string list" where
  "json_error_msg_text =
     [''OK'', ''Internal error'', ''attribute ?? have invalid type'', ''attribute ?? not found'',
      ''attribute ?? is unused'', ''integer overflow'']"

definition json_error_msg_count :: int where "json_error_msg_count = 5"

definition json_set_error_text :: "json_code \<Rightarrow> string \<Rightarrow> string" where
  "json_set_error_text e msg =
     (if - json_error_number e < json_error_msg_count
      then json_error_msg_text ! nat (- json_error_number e) else msg)"

section \<open>Type checks\<close>

definition json_check_type :: "'d json_node option \<Rightarrow> json_type \<Rightarrow> json_code" where
  "json_check_type node type =
     (case node of
        None \<Rightarrow> JSON_NOT_FOUND
      | Some nd \<Rightarrow>
          if type = JSON_ANY then JSON_OK
          else
            let check_number = (type = JSON_NUMBER_INTEGER \<or> type = JSON_NUMBER_FLOAT);
                is_integer = (type = JSON_NUMBER_INTEGER);
                type1 = (if check_number then JSON_NUMBER else type)
            in if jn_type nd \<noteq> type1 then JSON_INVALID_TYPE
               else if check_number \<and> jn_is_integer nd \<noteq> is_integer then JSON_INVALID_TYPE
               else JSON_OK)"

definition json_type_hinted :: "'d json_node \<Rightarrow> json_type" where
  "json_type_hinted node =
     (if jn_type node = JSON_NUMBER
      then (if jn_is_integer node then JSON_NUMBER_INTEGER else JSON_NUMBER_FLOAT)
      else jn_type node)"

definition json_check_unused :: "bool \<Rightarrow> 'd json_node \<Rightarrow> json_code" where
  "json_check_unused json_ignore_unused node =
     (if json_ignore_unused then JSON_OK
      else if list_ex (\<lambda>child. \<not> jn_touched child) (jn_child_head node) then JSON_UNUSED_CHILD
      else JSON_OK)"

section \<open>Lookup of children\<close>

text \<open>The walk of \<open>json_find_opt\<close>: a null name is passed to \<open>strcmp\<close> (outer \<open>None\<close>).\<close>

fun json_find_walk :: "string \<Rightarrow> nat \<Rightarrow> 'd json_node list \<Rightarrow> nat option option" where
  "json_find_walk name i [] = Some None"
| "json_find_walk name i (nd # nds) =
     (case jn_name nd of
        None \<Rightarrow> None
      | Some (_, s) \<Rightarrow> if s = name then Some (Some i) else json_find_walk name (Suc i) nds)"

definition json_touch_child :: "'d json_node \<Rightarrow> nat \<Rightarrow> 'd json_node" where
  "json_touch_child parent i =
     (let ch = jn_child_head parent
      in jn_set_children (jn_children_count parent) (ch[i := jn_set_touched True (ch ! i)]) parent)"

definition json_find_opt ::
    "'d json_node \<Rightarrow> string \<Rightarrow> json_code \<Rightarrow> (nat option \<times> 'd json_node \<times> json_code) option" where
  "json_find_opt parent name e =
     (if jn_type parent \<noteq> JSON_NODE then Some (None, parent, JSON_INVALID_TYPE)
      else case json_find_walk name 0 (jn_child_head parent) of
             None \<Rightarrow> None
           | Some None \<Rightarrow> Some (None, parent, e)
           | Some (Some i) \<Rightarrow> Some (Some i, json_touch_child parent i, e))"

definition json_find ::
    "'d json_node \<Rightarrow> string \<Rightarrow> json_code \<Rightarrow> (nat option \<times> 'd json_node \<times> json_code) option" where
  "json_find parent name e =
     (case json_find_opt parent name e of
        None \<Rightarrow> None
      | Some (None, p, _) \<Rightarrow> Some (None, p, JSON_NOT_FOUND)
      | Some (Some i, p, e1) \<Rightarrow> Some (Some i, p, e1))"

text \<open>
  \<open>json_getitem\<close> reports an index out of bounds and then walks the list all the same.
\<close>

definition json_getitem :: "'d json_node \<Rightarrow> nat \<Rightarrow> json_code \<Rightarrow> nat option \<times> json_code" where
  "json_getitem parent nid e =
     (if jn_type parent \<noteq> JSON_ARRAY \<and> jn_type parent \<noteq> JSON_NODE then (None, JSON_INVALID_TYPE)
      else
        let e1 = (if nid \<ge> jn_children_count parent then JSON_NOT_FOUND else e)
        in if nid < length (jn_child_head parent) then (Some nid, e1) else (None, JSON_INTERNAL_ERROR))"

definition list_del_at :: "nat \<Rightarrow> 'a list \<Rightarrow> 'a list" where
  "list_del_at i xs = take i xs @ drop (Suc i) xs"

text \<open>\<open>json_popitem\<close> unlinks the child but leaves the count of children.\<close>

definition json_popitem ::
    "'d json_node \<Rightarrow> nat \<Rightarrow> json_code \<Rightarrow> 'd json_node option \<times> 'd json_node \<times> json_code" where
  "json_popitem parent nid e =
     (case json_getitem parent nid e of
        (None, e1) \<Rightarrow> (None, parent, e1)
      | (Some i, e1) \<Rightarrow>
          (Some (jn_child_head parent ! i),
           jn_set_children (jn_children_count parent) (list_del_at i (jn_child_head parent)) parent, e1))"

definition json_first :: "'d json_node \<Rightarrow> json_code \<Rightarrow> nat option \<times> json_code" where
  "json_first parent e =
     (if jn_type parent \<noteq> JSON_ARRAY \<and> jn_type parent \<noteq> JSON_NODE then (None, JSON_INVALID_TYPE)
      else if jn_children_count parent = 0 then (None, e) else (Some 0, e))"

section \<open>Typed getters\<close>

text \<open>
  The common shape of the getters: find the child, check its type, convert its value. The
  outcome is the return code, the value written through the pointer argument, the parent
  (with the child marked as used) and the error number.
\<close>

type_synonym ('d, 'v) json_got = "(json_code \<times> 'v option \<times> 'd json_node \<times> json_code) option"

definition json_get ::
    "json_type \<Rightarrow> ('d json_node \<Rightarrow> json_code + 'v) \<Rightarrow> 'd json_node \<Rightarrow> string \<Rightarrow> json_code \<Rightarrow> ('d, 'v) json_got" where
  "json_get type conv parent name e =
     (case json_find parent name e of
        None \<Rightarrow> None
      | Some (i, p, e1) \<Rightarrow>
          let node = map_option (\<lambda>i. jn_child_head p ! i) i;
              err = json_check_type node type
          in if err \<noteq> JSON_OK
             then Some (err, None, p, if err = JSON_NOT_FOUND then e1 else err)
             else (case conv (the node) of
                     Inl err1 \<Rightarrow> Some (err1, None, p, err1)
                   | Inr v \<Rightarrow> Some (JSON_OK, Some v, p, e1)))"

definition jn_int :: "'d json_node \<Rightarrow> int" where
  "jn_int node = (case jn_data node of JInt i \<Rightarrow> i | _ \<Rightarrow> 0)"

text \<open>\<open>DECLARE_JSON_GET_INTEGER(suffix, type, min, max)\<close> and its instances.\<close>

definition json_get_integer ::
    "int \<Rightarrow> int \<Rightarrow> 'd json_node \<Rightarrow> string \<Rightarrow> json_code \<Rightarrow> ('d, int) json_got" where
  "json_get_integer lo hi =
     json_get JSON_NUMBER_INTEGER
       (\<lambda>node. if jn_int node < lo \<or> jn_int node > hi then Inl JSON_OVERFLOW else Inr (jn_int node))"

definition json_get_integer_i64 :: "'d json_node \<Rightarrow> string \<Rightarrow> json_code \<Rightarrow> ('d, int) json_got" where
  "json_get_integer_i64 = json_get JSON_NUMBER_INTEGER (\<lambda>node. Inr (jn_int node))"

definition json_get_integer_u8 :: "'d json_node \<Rightarrow> string \<Rightarrow> json_code \<Rightarrow> ('d, int) json_got" where
  "json_get_integer_u8 = json_get_integer 0 255"

definition json_get_integer_u16 :: "'d json_node \<Rightarrow> string \<Rightarrow> json_code \<Rightarrow> ('d, int) json_got" where
  "json_get_integer_u16 = json_get_integer 0 65535"

definition json_get_integer_u32 :: "'d json_node \<Rightarrow> string \<Rightarrow> json_code \<Rightarrow> ('d, int) json_got" where
  "json_get_integer_u32 = json_get_integer 0 4294967295"

definition json_get_integer_i8 :: "'d json_node \<Rightarrow> string \<Rightarrow> json_code \<Rightarrow> ('d, int) json_got" where
  "json_get_integer_i8 = json_get_integer (-128) 127"

definition json_get_integer_i16 :: "'d json_node \<Rightarrow> string \<Rightarrow> json_code \<Rightarrow> ('d, int) json_got" where
  "json_get_integer_i16 = json_get_integer (-32768) 32767"

definition json_get_integer_i32 :: "'d json_node \<Rightarrow> string \<Rightarrow> json_code \<Rightarrow> ('d, int) json_got" where
  "json_get_integer_i32 = json_get_integer (-2147483648) 2147483647"

definition json_get_integer_tm :: "'d json_node \<Rightarrow> string \<Rightarrow> json_code \<Rightarrow> ('d, int) json_got" where
  "json_get_integer_tm = json_get_integer 0 (2 ^ 63 - 1)"

definition json_get_string :: "'d json_node \<Rightarrow> string \<Rightarrow> json_code \<Rightarrow> ('d, string) json_got" where
  "json_get_string = json_get JSON_STRING (\<lambda>node. case jn_data node of JStr (_, s) \<Rightarrow> Inr s | _ \<Rightarrow> Inr [])"

text \<open>\<open>strncpy(val, s, len)\<close>: copies up to \<open>len\<close> characters and pads with \<open>NUL\<close>.\<close>

definition strncpy_buf :: "string \<Rightarrow> nat \<Rightarrow> char list" where
  "strncpy_buf s len = take len s @ replicate (len - length s) NUL"

definition json_get_string_copy ::
    "nat \<Rightarrow> 'd json_node \<Rightarrow> string \<Rightarrow> json_code \<Rightarrow> ('d, char list) json_got" where
  "json_get_string_copy len =
     json_get JSON_STRING
       (\<lambda>node. case jn_data node of
          JStr (_, s) \<Rightarrow> if len < length s then Inl JSON_OVERFLOW else Inr (strncpy_buf s len)
        | _ \<Rightarrow> Inr [])"

definition json_get_boolean :: "'d json_node \<Rightarrow> string \<Rightarrow> json_code \<Rightarrow> ('d, bool) json_got" where
  "json_get_boolean = json_get JSON_BOOLEAN (\<lambda>node. Inr (jn_data node = JBool True))"

definition json_get_double :: "'d \<Rightarrow> 'd json_node \<Rightarrow> string \<Rightarrow> json_code \<Rightarrow> ('d, 'd) json_got" where
  "json_get_double d0 = json_get JSON_NUMBER_FLOAT (\<lambda>node. case jn_data node of JDouble d \<Rightarrow> Inr d | _ \<Rightarrow> Inr d0)"

definition json_get_double_n ::
    "(int \<Rightarrow> 'd) \<Rightarrow> 'd \<Rightarrow> 'd json_node \<Rightarrow> string \<Rightarrow> json_code \<Rightarrow> ('d, 'd) json_got" where
  "json_get_double_n of_i64 d0 =
     json_get JSON_NUMBER
       (\<lambda>node. if jn_is_integer node then Inr (of_i64 (jn_int node))
              else case jn_data node of JDouble d \<Rightarrow> Inr d | _ \<Rightarrow> Inr d0)"

definition json_get_array :: "'d json_node \<Rightarrow> string \<Rightarrow> json_code \<Rightarrow> ('d, 'd json_node) json_got" where
  "json_get_array = json_get JSON_ARRAY (\<lambda>node. Inr node)"

definition json_get_node :: "'d json_node \<Rightarrow> string \<Rightarrow> json_code \<Rightarrow> ('d, 'd json_node) json_got" where
  "json_get_node = json_get JSON_NODE (\<lambda>node. Inr node)"

section \<open>Constructors and updates\<close>

text \<open>The extractors on a node itself, which fall back to a default.\<close>

definition json_as_integer :: "'d json_node option \<Rightarrow> int" where
  "json_as_integer node =
     (case node of Some nd \<Rightarrow> if json_check_type node JSON_NUMBER_INTEGER \<noteq> JSON_OK then -1 else jn_int nd | None \<Rightarrow> -1)"

definition json_as_double :: "'d \<Rightarrow> 'd json_node option \<Rightarrow> 'd" where
  "json_as_double zero node =
     (case node of
        Some nd \<Rightarrow> if json_check_type node JSON_NUMBER_FLOAT \<noteq> JSON_OK then zero
                  else (case jn_data nd of JDouble d \<Rightarrow> d | _ \<Rightarrow> zero)
      | None \<Rightarrow> zero)"

definition json_as_double_n :: "(int \<Rightarrow> 'd) \<Rightarrow> 'd json_node option \<Rightarrow> 'd" where
  "json_as_double_n of_i64 node =
     (case node of
        Some nd \<Rightarrow> if json_check_type node JSON_NUMBER \<noteq> JSON_OK then of_i64 0
                  else if jn_is_integer nd then of_i64 (jn_int nd)
                  else (case jn_data nd of JDouble d \<Rightarrow> d | _ \<Rightarrow> of_i64 0)
      | None \<Rightarrow> of_i64 0)"

definition json_as_string :: "'d json_node option \<Rightarrow> string option" where
  "json_as_string node =
     (case node of
        Some nd \<Rightarrow> if json_check_type node JSON_STRING \<noteq> JSON_OK then None
                  else (case jn_data nd of JStr s \<Rightarrow> Some (snd s) | _ \<Rightarrow> None)
      | None \<Rightarrow> None)"

definition json_as_boolean :: "'d json_node option \<Rightarrow> bool" where
  "json_as_boolean node =
     (case node of
        Some nd \<Rightarrow> json_check_type node JSON_BOOLEAN = JSON_OK \<and> jn_data nd = JBool True
      | None \<Rightarrow> False)"

text \<open>
  \<open>json_node_create\<close> leaves \<open>jn_is_integer\<close> and \<open>jn_data\<close> as the allocator returned them; they are
  read for a number or value node only, whose constructor sets them.
\<close>

definition json_node_create :: "json_type \<Rightarrow> 'd json_node" where
  "json_node_create type = Json_Node None type False False JUnset 0 []"

definition json_add_node :: "'d json_node \<Rightarrow> json_str option \<Rightarrow> 'd json_node \<Rightarrow> 'd json_node" where
  "json_add_node parent name node =
     jn_set_children (jn_children_count parent + 1) (jn_child_head parent @ [jn_set_name name node]) parent"

text \<open>
  \<open>json_remove_node\<close>: \<open>i\<close> is the position of the node when its \<open>jn_parent\<close> is \<open>parent\<close>. The
  count is an \<open>unsigned\<close>.
\<close>

definition json_remove_node :: "'d json_node \<Rightarrow> nat option \<Rightarrow> 'd json_node \<times> json_code" where
  "json_remove_node parent i =
     (case i of
        None \<Rightarrow> (parent, JSON_NOT_CHILD)
      | Some i \<Rightarrow>
          (jn_set_children ((jn_children_count parent + 2 ^ 32 - 1) mod 2 ^ 32)
             (list_del_at i (jn_child_head parent)) parent, JSON_OK))"

definition json_new_integer :: "int \<Rightarrow> 'd json_node" where
  "json_new_integer v = jn_set_data True (JInt v) (json_node_create JSON_NUMBER)"

definition json_new_double :: "'d \<Rightarrow> 'd json_node" where
  "json_new_double v = jn_set_data False (JDouble v) (json_node_create JSON_NUMBER)"

definition json_new_string :: "json_str \<Rightarrow> 'd json_node" where
  "json_new_string v = jn_set_data False (JStr v) (json_node_create JSON_STRING)"

definition json_new_boolean :: "bool \<Rightarrow> 'd json_node" where
  "json_new_boolean v = jn_set_data False (JBool v) (json_node_create JSON_BOOLEAN)"

definition json_new_array :: "'d json_node" where
  "json_new_array = json_node_create JSON_ARRAY"

definition json_str_create :: "string \<Rightarrow> json_str" where
  "json_str_create s = (JSON_STR_DYNAMIC, s)"

definition json_new_node :: "string option \<Rightarrow> 'd json_node" where
  "json_new_node node_class =
     (let node = json_node_create JSON_NODE
      in case node_class of
           None \<Rightarrow> node
         | Some s \<Rightarrow> json_add_node node (Some (JSON_STR_CONST, ''_type'')) (json_new_string (json_str_create s)))"

text \<open>The setters; the second result is the error number.\<close>

definition json_set_integer :: "'d json_node \<Rightarrow> int \<Rightarrow> json_code \<Rightarrow> 'd json_node \<times> json_code" where
  "json_set_integer node v e =
     (if jn_type node = JSON_NUMBER \<and> jn_is_integer node then jn_set_data True (JInt v) node else node,
      JSON_INVALID_TYPE)"

definition json_set_double :: "'d json_node \<Rightarrow> 'd \<Rightarrow> json_code \<Rightarrow> 'd json_node \<times> json_code" where
  "json_set_double node v e =
     (if jn_type node = JSON_NUMBER \<and> \<not> jn_is_integer node then jn_set_data False (JDouble v) node else node, e)"

definition json_set_boolean :: "'d json_node \<Rightarrow> bool \<Rightarrow> json_code \<Rightarrow> 'd json_node \<times> json_code" where
  "json_set_boolean node v e =
     (if jn_type node = JSON_BOOLEAN then jn_set_data (jn_is_integer node) (JBool v) node else node,
      JSON_INVALID_TYPE)"

section \<open>Copies and string references\<close>

text \<open>
  \<open>json_buf_hold\<close> and \<open>json_buf_rele\<close> count the references to the parsed buffer; \<open>json_str_free\<close>
  releases one for a string with the tag \<open>R\<close>, and \<open>json_str_copy\<close> takes one.
\<close>

definition json_str_refs :: "json_str \<Rightarrow> nat" where
  "json_str_refs s = (if fst s = JSON_STR_REFERENCE then 1 else 0)"

definition json_str_free :: "json_str \<Rightarrow> int \<Rightarrow> int" where
  "json_str_free s ref_count = (if fst s = JSON_STR_REFERENCE then ref_count - 1 else ref_count)"

definition json_set_string :: "'d json_node \<Rightarrow> json_str \<Rightarrow> int \<Rightarrow> 'd json_node \<times> json_code \<times> int" where
  "json_set_string node v ref_count =
     (if jn_type node = JSON_STRING
      then (jn_set_data (jn_is_integer node) (JStr v) node, JSON_INVALID_TYPE,
            (case jn_data node of JStr s \<Rightarrow> json_str_free s ref_count | _ \<Rightarrow> ref_count))
      else (node, JSON_INVALID_TYPE, ref_count))"

definition json_str_copy :: "json_str \<Rightarrow> int \<Rightarrow> json_str \<times> int" where
  "json_str_copy s ref_count =
     (case fst s of
        JSON_STR_DYNAMIC \<Rightarrow> (json_str_create (snd s), ref_count)
      | JSON_STR_REFERENCE \<Rightarrow> (s, ref_count + 1)
      | JSON_STR_CONST \<Rightarrow> (s, ref_count))"

definition json_free_data :: "json_type \<Rightarrow> 'd jn_data \<Rightarrow> int \<Rightarrow> int" where
  "json_free_data t d ref_count =
     (if t = JSON_STRING then (case d of JStr s \<Rightarrow> json_str_free s ref_count | _ \<Rightarrow> ref_count) else ref_count)"

primrec json_node_destroy :: "'d json_node \<Rightarrow> int \<Rightarrow> int" where
  "json_node_destroy (Json_Node n t i u d c ch) ref_count =
     (let rc1 = fold (\<lambda>f rc. f rc) (map json_node_destroy ch) ref_count;
          rc2 = (case n of None \<Rightarrow> rc1 | Some s \<Rightarrow> json_str_free s rc1)
      in json_free_data t d rc2)"

definition json_node_create_copy :: "'d json_node \<Rightarrow> int \<Rightarrow> 'd json_node \<times> int" where
  "json_node_create_copy node ref_count =
     (let (name, rc1) = (case jn_name node of
                           None \<Rightarrow> (None, ref_count)
                         | Some s \<Rightarrow> (let (s1, rc) = json_str_copy s ref_count in (Some s1, rc)));
          (d, rc2) = (if jn_type node = JSON_STRING
                      then (case jn_data node of
                              JStr s \<Rightarrow> (let (s1, rc) = json_str_copy s rc1 in (JStr s1, rc))
                            | d \<Rightarrow> (d, rc1))
                      else (jn_data node, rc1))
      in (Json_Node name (jn_type node) (jn_is_integer node) False d 0 [], rc2))"

function json_copy_node :: "'d json_node \<Rightarrow> int \<Rightarrow> 'd json_node \<times> int"
  and json_copy_children :: "'d json_node list \<Rightarrow> 'd json_node \<Rightarrow> int \<Rightarrow> 'd json_node \<times> int" where
  "json_copy_node node ref_count =
     (let (copy, rc) = json_node_create_copy node ref_count
      in json_copy_children (jn_child_head node) copy rc)"
| "json_copy_children [] copy rc = (copy, rc)"
| "json_copy_children (child # chs) copy rc =
     (let (child_copy, rc1) = json_copy_node child rc
      in json_copy_children chs
           (jn_set_children (jn_children_count copy + 1) (jn_child_head copy @ [child_copy]) copy) rc1)"
  by pat_completeness auto
termination
  by (relation "measure (\<lambda>x. case x of Inl (n, _) \<Rightarrow> size n | Inr (ns, _) \<Rightarrow> size_list size ns)")
     (auto simp: jn_child_head_def split: json_node.splits)

section \<open>Well-formed trees\<close>

text \<open>
  The cached number of children is right, children of a \<open>JSON_NODE\<close> are named and those of a
  \<open>JSON_ARRAY\<close> are not, other nodes have none; the type hints are not node types.
\<close>

fun jn_wf :: "'d json_node \<Rightarrow> bool" where
  "jn_wf (Json_Node n t i u d c ch) \<longleftrightarrow>
     c = length ch \<and> t \<notin> {JSON_ANY, JSON_NUMBER_INTEGER, JSON_NUMBER_FLOAT} \<and>
     (t \<notin> {JSON_NODE, JSON_ARRAY} \<longrightarrow> ch = []) \<and>
     (\<forall>x \<in> set ch. jn_wf x \<and> (jn_name x \<noteq> None \<longleftrightarrow> t = JSON_NODE))"

lemma jn_set_simps [simp]:
  "jn_name (jn_set_name n x) = n" "jn_type (jn_set_name n x) = jn_type x"
  "jn_touched (jn_set_touched b x) = b" "jn_name (jn_set_touched b x) = jn_name x"
  "jn_type (jn_set_touched b x) = jn_type x" "jn_data (jn_set_touched b x) = jn_data x"
  "jn_is_integer (jn_set_touched b x) = jn_is_integer x"
  "jn_child_head (jn_set_children c ch x) = ch" "jn_children_count (jn_set_children c ch x) = c"
  "jn_type (jn_set_children c ch x) = jn_type x" "jn_name (jn_set_children c ch x) = jn_name x"
  by (cases x; simp)+

lemma jn_wf_set_name [simp]: "jn_wf (jn_set_name n x) = jn_wf x"
  by (cases x) simp

lemma jn_wf_set_touched [simp]: "jn_wf (jn_set_touched b x) = jn_wf x"
  by (cases x) simp

lemma jn_wf_children:
  assumes "jn_wf p"
  shows "jn_children_count p = length (jn_child_head p)"
    and "x \<in> set (jn_child_head p) \<Longrightarrow> jn_wf x"
    and "x \<in> set (jn_child_head p) \<Longrightarrow> jn_name x \<noteq> None \<longleftrightarrow> jn_type p = JSON_NODE"
  using assms by (cases p; auto)+

lemma jn_wf_set_children:
  assumes "jn_wf p" and "c = length ch" and "jn_type p \<in> {JSON_NODE, JSON_ARRAY}"
    and "\<And>x. x \<in> set ch \<Longrightarrow> jn_wf x \<and> (jn_name x \<noteq> None \<longleftrightarrow> jn_type p = JSON_NODE)"
  shows "jn_wf (jn_set_children c ch p)"
  using assms by (cases p) auto

lemma json_touch_child_wf:
  assumes "jn_wf p" and "jn_type p = JSON_NODE" and "i < length (jn_child_head p)"
  shows "jn_wf (json_touch_child p i)"
proof -
  have "jn_wf x \<and> (jn_name x \<noteq> None \<longleftrightarrow> jn_type p = JSON_NODE)"
    if x: "x \<in> set ((jn_child_head p)[i := jn_set_touched True (jn_child_head p ! i)])" for x
  proof (cases "x \<in> set (jn_child_head p)")
    case True
    then show ?thesis using jn_wf_children [OF assms(1)] by blast
  next
    case False
    with x assms(3) have "x = jn_set_touched True (jn_child_head p ! i)"
      by (meson set_update_subset_insert insertE subsetD)
    then show ?thesis using jn_wf_children [OF assms(1)] assms(3) nth_mem by fastforce
  qed
  then show ?thesis
    using assms jn_wf_children(1) [OF assms(1)] unfolding json_touch_child_def Let_def
    by (intro jn_wf_set_children) auto
qed

lemma json_add_node_wf:
  assumes "jn_wf p" and "jn_wf x" and "jn_type p = JSON_NODE \<and> name \<noteq> None \<or> jn_type p = JSON_ARRAY \<and> name = None"
  shows "jn_wf (json_add_node p name x)"
  unfolding json_add_node_def
  using assms jn_wf_children [OF assms(1)] by (intro jn_wf_set_children) auto

section \<open>Lookup\<close>

definition json_has_name :: "string \<Rightarrow> 'd json_node \<Rightarrow> bool" where
  "json_has_name name x \<longleftrightarrow> map_option snd (jn_name x) = Some name"

definition json_first_named :: "string \<Rightarrow> 'd json_node list \<Rightarrow> nat option" where
  "json_first_named name ch =
     (if \<exists>x \<in> set ch. json_has_name name x then Some (length (takeWhile (\<lambda>x. \<not> json_has_name name x) ch)) else None)"

lemma json_find_walk_named:
  assumes "\<forall>x \<in> set ch. jn_name x \<noteq> None"
  shows "json_find_walk name i ch = Some (map_option (\<lambda>j. i + j) (json_first_named name ch))"
  using assms
proof (induction ch arbitrary: i)
  case (Cons x ch)
  then show ?case
    by (cases "\<exists>y \<in> set ch. json_has_name name y")
       (auto simp: json_first_named_def json_has_name_def [of _ x])
qed (simp add: json_first_named_def)

lemma json_find_node:
  assumes "jn_wf p" and "jn_type p = JSON_NODE"
  shows "json_find p name e =
    (case json_first_named name (jn_child_head p) of
       None \<Rightarrow> Some (None, p, JSON_NOT_FOUND)
     | Some i \<Rightarrow> Some (Some i, json_touch_child p i, e))"
proof -
  have "\<forall>x \<in> set (jn_child_head p). jn_name x \<noteq> None" using jn_wf_children(3) [OF assms(1)] assms(2) by blast
  from json_find_walk_named [OF this, of name 0] show ?thesis
    using assms(2) by (cases "json_first_named name (jn_child_head p)") (simp_all add: json_find_def json_find_opt_def)
qed

lemma json_first_named_Some:
  assumes "json_first_named name ch = Some i"
  shows "i < length ch" and "json_has_name name (ch ! i)" and "\<And>j. j < i \<Longrightarrow> \<not> json_has_name name (ch ! j)"
proof -
  let ?t = "takeWhile (\<lambda>x. \<not> json_has_name name x) ch"
  from assms have ex: "\<exists>x \<in> set ch. json_has_name name x" and i: "i = length ?t"
    by (auto simp: json_first_named_def split: if_splits)
  then have "?t \<noteq> ch" by (metis takeWhile_eq_all_conv)
  then show len: "i < length ch" unfolding i by (metis le_neq_implies_less length_takeWhile_le takeWhile_eq_take take_all_iff)
  then show "json_has_name name (ch ! i)" unfolding i using nth_length_takeWhile by blast
  show "\<not> json_has_name name (ch ! j)" if "j < i" for j
    using that unfolding i by (metis nth_mem set_takeWhileD takeWhile_nth)
qed

section \<open>Reference counting\<close>

definition jn_data_refs :: "json_type \<Rightarrow> 'd jn_data \<Rightarrow> nat" where
  "jn_data_refs t d = (if t = JSON_STRING then (case d of JStr s \<Rightarrow> json_str_refs s | _ \<Rightarrow> 0) else 0)"

definition jn_name_refs :: "json_str option \<Rightarrow> nat" where
  "jn_name_refs n = (case n of None \<Rightarrow> 0 | Some s \<Rightarrow> json_str_refs s)"

fun jn_refs :: "'d json_node \<Rightarrow> nat" where
  "jn_refs (Json_Node n t i u d c ch) = jn_name_refs n + jn_data_refs t d + sum_list (map jn_refs ch)"

lemma json_str_free_refs: "json_str_free s rc = rc - int (json_str_refs s)"
  by (simp add: json_str_free_def json_str_refs_def)

lemma json_free_data_refs: "json_free_data t d rc = rc - int (jn_data_refs t d)"
  by (cases d) (simp_all add: json_free_data_def jn_data_refs_def json_str_free_refs)

lemma json_node_destroy_refs: "json_node_destroy node rc = rc - int (jn_refs node)"
proof (induction node arbitrary: rc)
  case (Json_Node n t i u d c ch)
  have "fold (\<lambda>f rc. f rc) (map json_node_destroy ch) rc = rc - int (sum_list (map jn_refs ch))" for rc
    using Json_Node by (induction ch arbitrary: rc) auto
  then show ?case
    by (auto simp: json_free_data_refs jn_name_refs_def json_str_free_refs split: option.splits)
qed

text \<open>A copy is the same tree with nothing marked as used.\<close>

fun jn_fresh :: "'d json_node \<Rightarrow> 'd json_node" where
  "jn_fresh (Json_Node n t i u d c ch) = Json_Node n t i False d (length ch) (map jn_fresh ch)"

lemma json_str_copy_refs: "json_str_copy s rc = (s, rc + int (json_str_refs s))"
  by (cases s) (auto simp: json_str_copy_def json_str_refs_def json_str_create_def split: json_tag.splits)

lemma json_node_create_copy_refs:
  "json_node_create_copy (Json_Node n t i u d c ch) rc =
     (Json_Node n t i False d 0 [], rc + int (jn_name_refs n) + int (jn_data_refs t d))"
  by (auto simp: json_node_create_copy_def json_str_copy_refs jn_name_refs_def jn_data_refs_def Let_def
      split: option.splits jn_data.splits)

lemma json_copy_refs:
  fixes node :: "'d json_node" and chs :: "'d json_node list"
  shows
  "json_copy_node node rc = (jn_fresh node, rc + int (jn_refs node))"
  "json_copy_children chs cp rc =
     (jn_set_children (jn_children_count cp + length chs) (jn_child_head cp @ map jn_fresh chs) cp,
      rc + int (sum_list (map jn_refs chs)))"
proof (induction node rc and chs cp rc rule: json_copy_node_json_copy_children.induct)
  case (1 node rc)
  then show ?case
    by (cases node) (simp add: json_node_create_copy_refs del: json_copy_children.simps)
next
  case (2 cp rc)
  then show ?case by (cases cp) simp
next
  case (3 child chs cp rc)
  then show ?case by (cases cp) simp
qed

lemma jn_refs_fresh [simp]: "jn_refs (jn_fresh node) = jn_refs node"
proof (induction node)
  case (Json_Node n t i u d c ch)
  then have "map jn_refs (map jn_fresh ch) = map jn_refs ch" by auto
  then show ?case by (simp del: map_map)
qed

section \<open>Properties\<close>

text \<open>
  \<open>json_find\<close> on a well-formed object never dereferences a null name; it returns the first
  child with the name, marks exactly that child as used and keeps the tree well-formed, or
  reports \<open>JSON_NOT_FOUND\<close> and changes nothing when no child has the name.
\<close>

theorem json_find_correct:
  assumes "jn_wf p" and "jn_type p = JSON_NODE"
  shows "case json_find p name e of
      None \<Rightarrow> False
    | Some (None, p', e') \<Rightarrow> p' = p \<and> e' = JSON_NOT_FOUND \<and> (\<forall>x \<in> set (jn_child_head p). \<not> json_has_name name x)
    | Some (Some i, p', e') \<Rightarrow> i < length (jn_child_head p) \<and> json_has_name name (jn_child_head p ! i) \<and>
        (\<forall>j < i. \<not> json_has_name name (jn_child_head p ! j)) \<and> e' = e \<and> jn_wf p' \<and>
        jn_child_head p' = (jn_child_head p)[i := jn_set_touched True (jn_child_head p ! i)]"
proof (cases "json_first_named name (jn_child_head p)")
  case None
  then show ?thesis using json_find_node [OF assms] by (auto simp: json_first_named_def split: if_splits)
next
  case (Some i)
  note named = json_first_named_Some [OF Some]
  have "jn_child_head (json_touch_child p i) = (jn_child_head p)[i := jn_set_touched True (jn_child_head p ! i)]"
    by (simp add: json_touch_child_def Let_def)
  with json_touch_child_wf [OF assms named(1)] named show ?thesis
    by (simp add: json_find_node [OF assms] Some)
qed

definition demo_node :: "nat json_node" where
  "demo_node = json_add_node (json_add_node (json_new_node None) (Some (JSON_STR_CONST, ''n'')) (json_new_integer 300))
     (Some (JSON_STR_CONST, ''s'')) (json_new_string (JSON_STR_REFERENCE, ''abc''))"

lemmas demo_node_simps = demo_node_def json_add_node_def json_new_node_def json_node_create_def
  json_new_integer_def json_new_string_def

lemma demo_node_wf: "jn_wf demo_node" "jn_type demo_node = JSON_NODE"
  by (simp_all add: demo_node_simps)

theorem json_find_correct_witness:
  "json_find demo_node ''s'' JSON_OK = Some (Some 1, json_touch_child demo_node 1, JSON_OK) \<and>
   jn_wf (json_touch_child demo_node 1)"
proof -
  have r: "json_find demo_node ''s'' JSON_OK = Some (Some 1, json_touch_child demo_node 1, JSON_OK)"
    by (simp add: json_find_def json_find_opt_def demo_node_simps)
  with json_find_correct [OF demo_node_wf, of "''s''" JSON_OK] show ?thesis by simp
qed

text \<open>
  The integer getters, on every branch: the value is written exactly when the first child
  with the name is an integer within the bounds of the target type; a missing child, a
  child of another type and an integer out of bounds give their own codes, and nothing is
  written.
\<close>

theorem json_get_integer_correct:
  assumes "jn_wf p" and "jn_type p = JSON_NODE"
  shows "json_get_integer lo hi p name e =
    (case json_first_named name (jn_child_head p) of
       None \<Rightarrow> Some (JSON_NOT_FOUND, None, p, JSON_NOT_FOUND)
     | Some i \<Rightarrow>
         let x = jn_child_head p ! i; p' = json_touch_child p i
         in if json_type_hinted x \<noteq> JSON_NUMBER_INTEGER then Some (JSON_INVALID_TYPE, None, p', JSON_INVALID_TYPE)
            else if lo \<le> jn_int x \<and> jn_int x \<le> hi then Some (JSON_OK, Some (jn_int x), p', e)
            else Some (JSON_OVERFLOW, None, p', JSON_OVERFLOW))"
proof (cases "json_first_named name (jn_child_head p)")
  case None
  then show ?thesis by (simp add: json_get_integer_def json_get_def json_find_node [OF assms] json_check_type_def)
next
  case (Some i)
  let ?x = "jn_child_head p ! i"
  have "jn_wf ?x" using json_first_named_Some(1) [OF Some] jn_wf_children(2) [OF assms(1)] by simp
  then have t: "jn_type ?x \<noteq> JSON_NUMBER_INTEGER" by (cases ?x) auto
  have x: "jn_child_head (json_touch_child p i) ! i = jn_set_touched True ?x"
    using json_first_named_Some(1) [OF Some] by (simp add: json_touch_child_def Let_def)
  have "jn_int (jn_set_touched True ?x) = jn_int ?x" by (simp add: jn_int_def)
  with t x show ?thesis
    by (auto simp: json_get_integer_def json_get_def json_find_node [OF assms] Some json_check_type_def
        json_type_hinted_def Let_def)
qed

theorem json_get_integer_correct_witness:
  "json_get_integer_u8 demo_node ''n'' JSON_OK = Some (JSON_OVERFLOW, None, json_touch_child demo_node 0, JSON_OVERFLOW) \<and>
   json_get_integer_u16 demo_node ''n'' JSON_OK = Some (JSON_OK, Some 300, json_touch_child demo_node 0, JSON_OK)"
proof -
  have "json_first_named ''n'' (jn_child_head demo_node) = Some 0" "json_type_hinted (jn_child_head demo_node ! 0) = JSON_NUMBER_INTEGER"
    "jn_int (jn_child_head demo_node ! 0) = 300"
    by (simp_all add: json_first_named_def json_has_name_def demo_node_simps json_type_hinted_def jn_int_def)
  then show ?thesis
    unfolding json_get_integer_u8_def json_get_integer_u16_def json_get_integer_correct [OF demo_node_wf]
    by simp
qed

text \<open>
  \<open>json_copy_node\<close> gives the same tree with nothing marked as used, whatever the depth, takes
  one reference of the parsed buffer per referenced string, and destroying the copy releases
  exactly these.
\<close>

theorem json_copy_destroy:
  assumes "json_copy_node node rc = (cp, rc')"
  shows "cp = jn_fresh node \<and> rc' = rc + int (jn_refs node) \<and> json_node_destroy cp rc' = rc"
  using assms by (auto simp: json_copy_refs(1) json_node_destroy_refs simp del: json_copy_node.simps)

theorem json_copy_destroy_witness:
  "json_copy_node demo_node 4 = (jn_fresh demo_node, 5) \<and> json_node_destroy (jn_fresh demo_node) 5 = 4"
proof -
  have 1: "json_copy_node demo_node 4 = (jn_fresh demo_node, 5)"
    by (simp add: json_copy_refs(1) demo_node_simps jn_name_refs_def jn_data_refs_def json_str_refs_def
        del: json_copy_node.simps)
  from json_copy_destroy [OF 1] show ?thesis using 1 by simp
qed

text \<open>
  \<open>json_popitem\<close> unlinks the child without decrementing \<open>jn_children_count\<close>: afterwards the
  index of the former last child passes the bounds check, and \<open>json_getitem\<close> reports
  \<open>JSON_INTERNAL_ERROR\<close> for it.
\<close>

theorem json_popitem_desync:
  assumes "jn_wf p" and "jn_type p \<in> {JSON_ARRAY, JSON_NODE}" and "i < length (jn_child_head p)"
    and "json_popitem p i e = (x, p', e')"
  shows "x = Some (jn_child_head p ! i) \<and> jn_children_count p' = Suc (length (jn_child_head p')) \<and>
    json_getitem p' (length (jn_child_head p')) e = (None, JSON_INTERNAL_ERROR)"
  using assms jn_wf_children(1) [OF assms(1)]
  by (auto simp: json_popitem_def json_getitem_def list_del_at_def Let_def split: if_splits)

theorem json_popitem_desync_witness:
  "\<exists>p'. json_popitem demo_node 0 JSON_OK = (Some (jn_child_head demo_node ! 0), p', JSON_OK) \<and>
     jn_children_count p' = 2 \<and> length (jn_child_head p') = 1"
proof -
  obtain x p' e' where r: "json_popitem demo_node 0 JSON_OK = (x, p', e')" by (metis prod_cases3)
  have "0 < length (jn_child_head demo_node)" by (simp add: demo_node_simps)
  with json_popitem_desync [OF demo_node_wf(1) _ this r] r show ?thesis
    by (auto simp: demo_node_simps json_popitem_def json_getitem_def list_del_at_def)
qed

text \<open>
  \<open>json_get_string_copy\<close> accepts a string that is exactly as long as the buffer and then
  leaves the buffer without a terminating \<open>NUL\<close>; with room for one more character the buffer
  holds the string, terminated.
\<close>

theorem json_get_string_copy_termination:
  assumes "jn_wf p" and "jn_type p = JSON_NODE" and "json_first_named name (jn_child_head p) = Some i"
    and "jn_type (jn_child_head p ! i) = JSON_STRING" and "jn_data (jn_child_head p ! i) = JStr (tag, s)"
    and "NUL \<notin> set s" and "length s \<le> len"
  shows "\<exists>buf. json_get_string_copy len p name e = Some (JSON_OK, Some buf, json_touch_child p i, e) \<and>
    length buf = len \<and> cstr buf = s \<and> (NUL \<in> set buf \<longleftrightarrow> length s < len)"
proof -
  have x: "jn_child_head (json_touch_child p i) ! i = jn_set_touched True (jn_child_head p ! i)"
    using json_first_named_Some(1) [OF assms(3)] by (simp add: json_touch_child_def Let_def)
  have "json_get_string_copy len p name e = Some (JSON_OK, Some (strncpy_buf s len), json_touch_child p i, e)"
    using assms(4-7) x
    by (simp add: json_get_string_copy_def json_get_def json_find_node [OF assms(1,2)] assms(3) json_check_type_def Let_def)
  moreover have "cstr (strncpy_buf s len) = s"
    using assms(6,7) by (cases "len - length s") (simp_all add: strncpy_buf_def)
  ultimately show ?thesis using assms(6,7) by (auto simp: strncpy_buf_def)
qed

theorem json_get_string_copy_termination_witness:
  "\<exists>buf. json_get_string_copy 3 demo_node ''s'' JSON_OK = Some (JSON_OK, Some buf, json_touch_child demo_node 1, JSON_OK) \<and>
    NUL \<notin> set buf"
proof -
  have "json_first_named ''s'' (jn_child_head demo_node) = Some 1"
    by (simp add: json_first_named_def json_has_name_def demo_node_simps)
  from json_get_string_copy_termination [OF demo_node_wf this, of JSON_STR_REFERENCE "''abc''" 3 JSON_OK] show ?thesis
    by (auto simp: demo_node_simps NUL_def)
qed

end
