(* ===== verification/JsonParser.thy ===== *)
theory JsonParser
  imports JsonNode
begin

text \<open>
  The JSON parser of \<open>libtsjson/parser.c\<close>. The state is the position of \<open>struct json_parser\<close>
  together with the buffer, which the parser modifies in place (strings are unescaped and
  terminated inside it), and the buffer's reference count. The buffer is the \<open>size\<close> bytes of
  \<open>json_buffer_t\<close>; \<open>json_buf_from_file\<close> allocates one byte more and sets it to \<open>NUL\<close>, so a read
  at or after \<open>size\<close> gives \<open>NUL\<close>. A caller of \<open>json_buf_create\<close> has to see to that byte itself: for a
  buffer without it the reads at \<open>size\<close>, which the model answers with \<open>NUL\<close>, are outside of the memory
  that was handed over. \<open>strtod\<close> is a parameter: it returns the value, the number of
  characters consumed and whether \<open>errno\<close> became \<open>ERANGE\<close>. The mutual recursion of values and
  containers takes fuel; \<open>json_parse\<close> gives it twice the size of the buffer and one more,
  which is proved to be enough.
\<close>

section \<open>State\<close>

record jparser =
  lineno :: nat
  newline :: nat
  index :: nat
  jbuf :: "char list"
  ref_count :: int

definition bget :: "char list \<Rightarrow> nat \<Rightarrow> char" where
  "bget buf i = (if i < length buf then buf ! i else NUL)"

definition cur_char :: "jparser \<Rightarrow> char" where
  "cur_char st = bget (jbuf st) (index st)"

definition INC_STATE :: "jparser \<Rightarrow> jparser" where
  "INC_STATE st = st\<lparr>index := index st + 1\<rparr>"

definition PUT_STATE :: "nat \<Rightarrow> jparser \<Rightarrow> jparser" where
  "PUT_STATE idx st = st\<lparr>index := idx\<rparr>"

section \<open>White space\<close>

definition json_whitespace_table :: "nat list" where
  "json_whitespace_table = replicate 9 0 @ [1, 2, 1, 1, 1] @ replicate 18 0 @ [1] @ replicate 223 0"

definition JSON_NOTSPACE :: nat where "JSON_NOTSPACE = 0"
definition JSON_NEWLINE :: nat where "JSON_NEWLINE = 2"
definition JSON_SPACE :: nat where "JSON_SPACE = 1"

function skip_whitespace_loop :: "char list \<Rightarrow> nat \<Rightarrow> nat \<Rightarrow> nat \<Rightarrow> nat \<times> nat \<times> nat" where
  "skip_whitespace_loop buf ln nl idx =
     (if idx < length buf then
        (let mode = json_whitespace_table ! of_char (buf ! idx);
             ln1 = (if mode = JSON_NEWLINE then ln + 1 else ln);
             nl1 = (if mode = JSON_NEWLINE then idx else nl)
         in if mode = JSON_NOTSPACE then (ln1, nl1, idx)
            else skip_whitespace_loop buf ln1 nl1 (idx + 1))
      else (ln, nl, idx))"
  by pat_completeness auto
termination by (relation "measure (\<lambda>(buf, _, _, idx). length buf - idx)") auto

declare skip_whitespace_loop.simps [simp del]

definition skip_whitespace :: "jparser \<Rightarrow> bool \<times> jparser" where
  "skip_whitespace st =
     (let (ln, nl, idx) = skip_whitespace_loop (jbuf st) (lineno st) (newline st) (index st)
      in (idx < length (jbuf st), st\<lparr>lineno := ln, newline := nl, index := idx\<rparr>))"

section \<open>Strings\<close>

definition char_in :: "char \<Rightarrow> char \<Rightarrow> char \<Rightarrow> bool" where
  "char_in lo c hi \<longleftrightarrow> char_val lo \<le> char_val c \<and> char_val c \<le> char_val hi"

definition hex_char_to_int :: "char \<Rightarrow> int" where
  "hex_char_to_int c =
     (if char_in (CHR ''0'') c (CHR ''9'') then char_val c - char_val (CHR ''0'')
      else if char_in (CHR ''a'') c (CHR ''f'') then char_val c - char_val (CHR ''a'') + 10
      else if char_in (CHR ''A'') c (CHR ''F'') then char_val c - char_val (CHR ''A'') + 10
      else -1)"

definition unicode_from_hex :: "char list \<Rightarrow> nat \<Rightarrow> int" where
  "unicode_from_hex buf i =
     (let u = hex_char_to_int (bget buf i); l = hex_char_to_int (bget buf (i + 1))
      in if l = -1 \<or> u = -1 then -1 else u * 16 + l)"

text \<open>\<open>bytes_of ch\<close>: the UTF-8 bytes written for a code point, and \<open>count\<close>'s increment.\<close>

definition byte :: "nat \<Rightarrow> char" where "byte n = char_of (n mod 256)"

definition utf8_bytes :: "nat \<Rightarrow> char list" where
  "utf8_bytes ch =
     (if ch < 0x80 then [byte ch]
      else if ch < 0x800 then [byte (0xc0 + ch div 64), byte (0x80 + ch mod 64)]
      else [byte (0xe0 + ch div 4096), byte (0x80 + (ch div 64) mod 64), byte (0x80 + ch mod 64)])"

text \<open>\<open>*dst++ = ...\<close> for each of the bytes.\<close>

fun bput :: "char list \<Rightarrow> nat \<Rightarrow> char list \<Rightarrow> char list" where
  "bput buf i [] = buf"
| "bput buf i (c # cs) = bput (buf[i := c]) (i + 1) cs"

definition simple_escape :: "char \<Rightarrow> char option" where
  "simple_escape c =
     (if c = CHR ''n'' then Some (CHR 0x0A) else if c = CHR ''b'' then Some (CHR 0x08)
      else if c = CHR ''f'' then Some (CHR 0x0C) else if c = CHR ''r'' then Some (CHR 0x0D)
      else if c = CHR ''t'' then Some (CHR 0x09)
      else if c = CHR 0x5C \<or> c = CHR ''/'' \<or> c = CHR 0x22 then Some c
      else None)"

text \<open>
  The loop of \<open>unescape_string\<close>: \<open>str\<close> reads ahead of \<open>dst\<close>, which writes into the same buffer.
  The outcome is the error with the position it is reported at, or the number of characters
  cut out and the new buffer.
\<close>

function unescape_loop ::
    "char list \<Rightarrow> nat \<Rightarrow> nat \<Rightarrow> nat \<Rightarrow> nat \<Rightarrow> (json_code \<times> nat) \<times> char list + nat \<times> char list" where
  "unescape_loop buf str dst end_p cnt =
     (if str < end_p then
        (if bget buf str = CHR 0x5C then
           (let str1 = str + 1; c = bget buf str1 in
            if c = CHR ''u'' then
              (if str1 + 5 \<le> end_p then
                 (let c1 = unicode_from_hex buf (str1 + 1); c2 = unicode_from_hex buf (str1 + 3);
                      ch = nat (c1 * 256 + c2)
                  in if c1 > 0 \<and> c2 > 0 then
                       (if 0xD800 \<le> ch \<and> ch \<le> 0xDBFF then Inl ((JSON_STRING_INVALID_ESC, str1), buf)
                        else let bs = utf8_bytes ch
                             in unescape_loop (bput buf dst bs) (str1 + 5) (dst + length bs) end_p
                                  (cnt + 1 + (5 - length bs)))
                     else Inl ((JSON_STRING_INVALID_ESC, str1), buf))
               else Inl ((JSON_END_OF_BUFFER, str1), buf))
            else (case simple_escape c of
                    None \<Rightarrow> Inl ((JSON_STRING_INVALID_ESC, str1), buf)
                  | Some b \<Rightarrow> unescape_loop (buf[dst := b]) (str1 + 1) (dst + 1) end_p (cnt + 1)))
         else unescape_loop (if str \<noteq> dst then buf[dst := bget buf str] else buf) (str + 1) (dst + 1) end_p cnt)
      else Inr (cnt, buf))"
  by pat_completeness auto
termination by (relation "measure (\<lambda>(buf, str, dst, end_p, cnt). end_p - str)") auto

declare unescape_loop.simps [simp del]

definition unescape_string :: "jparser \<Rightarrow> nat \<Rightarrow> nat \<Rightarrow> jparser \<times> (json_code + nat)" where
  "unescape_string st idx to =
     (case unescape_loop (jbuf st) idx idx to 0 of
        Inl ((e, pos), buf) \<Rightarrow> (st\<lparr>jbuf := buf, index := pos\<rparr>, Inl e)
      | Inr (cnt, buf) \<Rightarrow> (st\<lparr>jbuf := buf\<rparr>, Inr cnt))"

text \<open>The scan for the closing quote: an error with its position, or the quote's position.\<close>

function string_scan :: "char list \<Rightarrow> nat \<Rightarrow> bool \<Rightarrow> (json_code \<times> nat) + (nat \<times> bool)" where
  "string_scan buf idx have_escaped =
     (if bget buf idx = CHR 0x22 then Inr (idx, have_escaped)
      else if bget buf idx = CHR 0x0A then Inl (JSON_STRING_UNESCAPED, idx)
      else
        let esc = (bget buf idx = CHR 0x5C); idx1 = (if esc then idx + 1 else idx)
        in if idx1 \<ge> length buf then Inl (JSON_END_OF_BUFFER, idx1)
           else string_scan buf (idx1 + 1) (have_escaped \<or> esc))"
  by pat_completeness auto
termination by (relation "measure (\<lambda>(buf, idx, _). length buf - idx)") (auto simp: Let_def)

declare string_scan.simps [simp del]

text \<open>\<open>json_str_reference\<close> tags and terminates the string inside the buffer and holds the buffer.\<close>

definition json_str_reference :: "jparser \<Rightarrow> nat \<Rightarrow> nat \<Rightarrow> jparser \<times> json_str" where
  "json_str_reference st from to =
     (let buf = (jbuf st)[from - 1 := CHR ''R'', to := NUL]
      in (st\<lparr>jbuf := buf, ref_count := ref_count st + 1\<rparr>, (JSON_STR_REFERENCE, cstr (drop from buf))))"

definition json_parse_string :: "jparser \<Rightarrow> jparser \<times> (json_code + json_str)" where
  "json_parse_string st =
     (let st1 = INC_STATE st; from = index st1 in
      case string_scan (jbuf st1) from False of
        Inl (e, pos) \<Rightarrow> (PUT_STATE pos st1, Inl e)
      | Inr (to, have_escaped) \<Rightarrow>
          (let st2 = PUT_STATE (to + 1) st1 in
           if have_escaped
           then (case unescape_string st2 from to of
                   (st3, Inl e) \<Rightarrow> (st3, Inl e)
                 | (st3, Inr ret) \<Rightarrow>
                     (let (st4, s) = json_str_reference st3 from (to - ret) in (st4, Inr s)))
           else (let (st4, s) = json_str_reference st2 from to in (st4, Inr s))))"

section \<open>Numbers\<close>

text \<open>
  The bits of \<open>json_number_chr_table\<close>: \<open>INVAL\<close>, \<open>INT\<close> and \<open>FLOAT\<close>, one per character.
\<close>

datatype num_mode = JSON_NUM_MODE_INVAL | JSON_NUM_MODE_INT | JSON_NUM_MODE_FLOAT

definition is_digit :: "char \<Rightarrow> bool" where
  "is_digit c \<longleftrightarrow> char_in (CHR ''0'') c (CHR ''9'')"

definition number_table_get :: "char \<Rightarrow> num_mode" where
  "number_table_get c =
     (if is_digit c \<or> c = CHR ''+'' \<or> c = CHR ''-'' then JSON_NUM_MODE_INT
      else if c = CHR ''.'' \<or> c = CHR ''e'' \<or> c = CHR ''E'' then JSON_NUM_MODE_FLOAT
      else JSON_NUM_MODE_INVAL)"

text \<open>The scan: the position after the number's characters and whether the float bit is set.\<close>

function number_scan :: "char list \<Rightarrow> nat \<Rightarrow> bool \<Rightarrow> nat \<times> bool" where
  "number_scan buf idx is_float =
     (let m = number_table_get (bget buf idx); fl = (is_float \<or> m = JSON_NUM_MODE_FLOAT) in
      if m = JSON_NUM_MODE_INVAL then (idx, fl)
      else if idx + 1 < length buf then number_scan buf (idx + 1) fl
      else (idx + 1, fl))"
  by pat_completeness auto
termination by (relation "measure (\<lambda>(buf, idx, _). length buf - idx)") auto

declare number_scan.simps [simp del]

text \<open>\<open>strtoll(literal, &endptr, 10)\<close>: value, characters consumed, out of range.\<close>

definition is_space :: "char \<Rightarrow> bool" where
  "is_space c \<longleftrightarrow> c = CHR '' '' \<or> char_in (CHR 0x09) c (CHR 0x0D)"

definition digit_val :: "char \<Rightarrow> int" where
  "digit_val c = char_val c - char_val (CHR ''0'')"

definition dec_value :: "char list \<Rightarrow> int" where
  "dec_value ds = foldl (\<lambda>v c. v * 10 + digit_val c) 0 ds"

definition strtoll :: "char list \<Rightarrow> int \<times> nat \<times> bool" where
  "strtoll s =
     (let ws = takeWhile is_space s; s1 = drop (length ws) s;
          neg = (s1 \<noteq> [] \<and> s1 ! 0 = CHR ''-'');
          sg = (if s1 \<noteq> [] \<and> (s1 ! 0 = CHR ''-'' \<or> s1 ! 0 = CHR ''+'') then 1 else 0);
          ds = takeWhile is_digit (drop sg s1);
          v = (if neg then - dec_value ds else dec_value ds)
      in if ds = [] then (0, 0, False)
         else if v > 2 ^ 63 - 1 then (2 ^ 63 - 1, length ws + sg + length ds, True)
         else if v < - (2 ^ 63) then (- (2 ^ 63), length ws + sg + length ds, True)
         else (v, length ws + sg + length ds, False))"

type_synonym 'd strtod_fun = "char list \<Rightarrow> 'd \<times> nat \<times> bool"

text \<open>\<open>json_parse_number\<close>: the outcome is the flag \<open>jn_is_integer\<close> and the value for the node.\<close>

definition json_parse_number :: "'d strtod_fun \<Rightarrow> jparser \<Rightarrow> jparser \<times> (json_code + bool \<times> 'd jn_data)" where
  "json_parse_number strtod st =
     (let idx0 = index st; literal = drop idx0 (jbuf st);
          (idx, is_float) = number_scan (jbuf st) idx0 False;
          st1 = PUT_STATE idx st;
          (value, len, erange) =
            (if is_float then (let (d, n, r) = strtod literal in (JDouble d, n, r))
             else (let (i, n, r) = strtoll literal in (JInt i, n, r)))
      in if erange then (st1, Inl JSON_NUMBER_OVERFLOW)
         else if idx0 + len \<noteq> idx then (st1, Inl JSON_NUMBER_INVALID)
         else (st1, Inr (\<not> is_float, value)))"

text \<open>\<open>json_set_number\<close> runs the number parser on a caller's string.\<close>

definition json_set_number :: "'d strtod_fun \<Rightarrow> 'd json_node \<Rightarrow> string \<Rightarrow> 'd json_node \<times> json_code" where
  "json_set_number strtod node s =
     (case json_parse_number strtod \<lparr>lineno = 0, newline = 0, index = 0, jbuf = s, ref_count = 0\<rparr> of
        (_, Inl e) \<Rightarrow> (node, e)
      | (_, Inr (is_int, v)) \<Rightarrow> (jn_set_data is_int v node, JSON_OK))"

section \<open>Literals\<close>

text \<open>\<open>strncmp(literal, data, len)\<close> reads up to the first difference, so never past a \<open>NUL\<close>.\<close>

definition json_parse_literal :: "jparser \<Rightarrow> string \<Rightarrow> nat \<Rightarrow> jparser \<times> json_code" where
  "json_parse_literal st literal len =
     (let idx = index st in
      if idx \<ge> size_sub (length (jbuf st)) len then (st, JSON_END_OF_BUFFER)
      else if map (bget (jbuf st)) [idx..<idx + len] \<noteq> literal then (st, JSON_LITERAL_INVALID)
      else (PUT_STATE (idx + len) st, JSON_OK))"

section \<open>Values and containers\<close>

text \<open>The error exits of \<open>json_parse_node\<close>: the object (and with it its children) is destroyed.\<close>

type_synonym 'd json_parsed = "(jparser \<times> (json_code + 'd json_node)) option"

definition json_node_fail :: "jparser \<Rightarrow> 'd json_node \<Rightarrow> json_code \<Rightarrow> 'd json_parsed" where
  "json_node_fail st obj e = Some (st\<lparr>ref_count := json_node_destroy obj (ref_count st)\<rparr>, Inl e)"

definition json_name_free :: "jparser \<Rightarrow> json_str option \<Rightarrow> jparser" where
  "json_name_free st name =
     (case name of None \<Rightarrow> st | Some s \<Rightarrow> st\<lparr>ref_count := json_str_free s (ref_count st)\<rparr>)"

text \<open>The part of the loop that parses an element's name and the colon (for objects).\<close>

definition json_parse_name :: "bool \<Rightarrow> jparser \<Rightarrow> jparser \<times> (json_code + json_str option)" where
  "json_parse_name is_array st =
     (if is_array then (st, Inr None)
      else if cur_char st \<noteq> CHR 0x22 then (st, Inl JSON_OBJECT_INVALID)
      else (case json_parse_string st of
              (st1, Inl e) \<Rightarrow> (st1, Inl e)
            | (st1, Inr name) \<Rightarrow>
                (let (more, st2) = skip_whitespace st1 in
                 if \<not> more then (json_name_free st2 (Some name), Inl JSON_END_OF_BUFFER)
                 else if cur_char st2 \<noteq> CHR '':'' then (json_name_free st2 (Some name), Inl JSON_OBJECT_INVALID)
                 else (INC_STATE st2, Inr (Some name)))))"

definition json_literal_node :: "jparser \<times> json_code \<Rightarrow> 'd json_node \<Rightarrow> 'd json_parsed" where
  "json_literal_node r node =
     (case r of (st, JSON_OK) \<Rightarrow> Some (st, Inr node) | (st, e) \<Rightarrow> Some (st, Inl e))"

fun json_parse_value :: "'d strtod_fun \<Rightarrow> nat \<Rightarrow> jparser \<Rightarrow> 'd json_parsed"
  and json_parse_elements :: "'d strtod_fun \<Rightarrow> nat \<Rightarrow> bool \<Rightarrow> jparser \<Rightarrow> 'd json_node \<Rightarrow> 'd json_parsed" where
  "json_parse_value strtod 0 st = None"
| "json_parse_value strtod (Suc fuel) st =
     (let (more, st1) = skip_whitespace st; c = cur_char st1 in
      if \<not> more then Some (st1, Inl JSON_END_OF_BUFFER)
      else if c = CHR ''{'' \<or> c = CHR ''['' then
        (let is_array = (c = CHR ''['');
             obj = json_node_create (if is_array then JSON_ARRAY else JSON_NODE);
             (more2, st2) = skip_whitespace (INC_STATE st1)
         in if \<not> more2 then json_node_fail st2 obj JSON_END_OF_BUFFER
            else json_parse_elements strtod fuel is_array st2 obj)
      else if c = CHR 0x22 then
        (case json_parse_string st1 of
           (st2, Inl e) \<Rightarrow> Some (st2, Inl e)
         | (st2, Inr s) \<Rightarrow> Some (st2, Inr (jn_set_data False (JStr s) (json_node_create JSON_STRING))))
      else if c = CHR ''t'' then
        json_literal_node (json_parse_literal st1 ''true'' 4) (jn_set_data False (JBool True) (json_node_create JSON_BOOLEAN))
      else if c = CHR ''f'' then
        json_literal_node (json_parse_literal st1 ''false'' 5) (jn_set_data False (JBool False) (json_node_create JSON_BOOLEAN))
      else if c = CHR ''n'' then
        json_literal_node (json_parse_literal st1 ''null'' 4) (json_node_create JSON_NULL)
      else if number_table_get c = JSON_NUM_MODE_INT then
        (case json_parse_number strtod st1 of
           (st2, Inl e) \<Rightarrow> Some (st2, Inl e)
         | (st2, Inr (is_int, v)) \<Rightarrow> Some (st2, Inr (jn_set_data is_int v (json_node_create JSON_NUMBER))))
      else Some (st1, Inl JSON_VALUE_INVALID))"
| "json_parse_elements strtod 0 is_array st obj = None"
| "json_parse_elements strtod (Suc fuel) is_array st obj =
     (let end_char = (if is_array then CHR '']'' else CHR ''}'') in
      if cur_char st = end_char then Some (INC_STATE st, Inr obj)
      else case json_parse_name is_array st of
        (st1, Inl e) \<Rightarrow> json_node_fail st1 obj e
      | (st1, Inr name) \<Rightarrow>
          (case json_parse_value strtod fuel st1 of
             None \<Rightarrow> None
           | Some (st2, Inl e) \<Rightarrow> json_node_fail (json_name_free st2 name) obj e
           | Some (st2, Inr v) \<Rightarrow>
               (let (more, st3) = skip_whitespace st2 in
                if \<not> more
                then json_node_fail
                       ((json_name_free st3 name)\<lparr>ref_count := json_node_destroy v (ref_count (json_name_free st3 name))\<rparr>)
                       obj JSON_END_OF_BUFFER
                else
                  let obj1 = json_add_node obj name v in
                  if cur_char st3 = end_char then Some (INC_STATE st3, Inr obj1)
                  else if cur_char st3 \<noteq> CHR '','' then json_node_fail st3 obj1 JSON_OBJECT_INVALID
                  else
                    let (more2, st4) = skip_whitespace (INC_STATE st3) in
                    if \<not> more2 then json_node_fail st4 obj1 JSON_END_OF_BUFFER
                    else json_parse_elements strtod fuel is_array st4 obj1)))"

text \<open>
  \<open>json_parse\<close> holds the buffer while it parses; the final \<open>json_buf_rele\<close> frees the buffer when
  it drops the last reference. The second result is the reference count afterwards.
\<close>

definition json_fuel :: "char list \<Rightarrow> nat" where
  "json_fuel data = 2 * length data + 1"

definition json_parse :: "'d strtod_fun \<Rightarrow> char list \<Rightarrow> ((json_code + 'd json_node) \<times> int) option" where
  "json_parse strtod data =
     (case json_parse_value strtod (json_fuel data)
             \<lparr>lineno = 1, newline = 0, index = 0, jbuf = data, ref_count = 1\<rparr> of
        None \<Rightarrow> None
      | Some (st, r) \<Rightarrow> Some (r, ref_count st - 1))"

section \<open>Positions and references\<close>

lemma skip_whitespace_loop_pos:
  "skip_whitespace_loop buf ln nl idx = (ln', nl', idx') \<Longrightarrow>
     idx \<le> idx' \<and> (idx' < length buf \<longrightarrow> json_whitespace_table ! of_char (buf ! idx') = JSON_NOTSPACE) \<and>
     (idx \<le> length buf \<longrightarrow> idx' \<le> length buf)"
proof (induction buf ln nl idx rule: skip_whitespace_loop.induct)
  case (1 buf ln nl idx)
  note IH = 1(1) [OF _ refl refl refl]
  from 1(2) have eq: "(if idx < length buf then
        (let mode = json_whitespace_table ! of_char (buf ! idx);
             ln1 = (if mode = JSON_NEWLINE then ln + 1 else ln);
             nl1 = (if mode = JSON_NEWLINE then idx else nl)
         in if mode = JSON_NOTSPACE then (ln1, nl1, idx)
            else skip_whitespace_loop buf ln1 nl1 (idx + 1))
      else (ln, nl, idx)) = (ln', nl', idx')"
    unfolding skip_whitespace_loop.simps [of buf ln nl idx] .
  show ?case
  proof (cases "idx < length buf \<and> json_whitespace_table ! of_char (buf ! idx) \<noteq> JSON_NOTSPACE")
    case True
    with IH eq show ?thesis by (simp add: Let_def)
  next
    case False
    with eq show ?thesis by (auto simp: Let_def split: if_splits)
  qed
qed

lemma skip_whitespace_state:
  assumes "skip_whitespace st = (mo, st')"
  shows "jbuf st' = jbuf st" "ref_count st' = ref_count st" "index st \<le> index st'"
    "mo \<longleftrightarrow> index st' < length (jbuf st)"
    "index st \<le> length (jbuf st) \<Longrightarrow> index st' \<le> length (jbuf st)"
  using assms skip_whitespace_loop_pos [of "jbuf st" "lineno st" "newline st" "index st"]
  by (auto simp: skip_whitespace_def split: prod.splits)

lemma INC_STATE_simps [simp]:
  "index (INC_STATE st) = Suc (index st)" "jbuf (INC_STATE st) = jbuf st" "ref_count (INC_STATE st) = ref_count st"
  by (simp_all add: INC_STATE_def)

lemma PUT_STATE_simps [simp]:
  "index (PUT_STATE i st) = i" "jbuf (PUT_STATE i st) = jbuf st" "ref_count (PUT_STATE i st) = ref_count st"
  by (simp_all add: PUT_STATE_def)

lemma length_bput [simp]: "length (bput buf i bs) = length buf"
  by (induction bs arbitrary: buf i) auto

lemma unescape_loop_length:
  "length buf = n \<Longrightarrow>
   (case unescape_loop buf str dst end_p cnt of Inl (_, buf') \<Rightarrow> length buf' = n | Inr (_, buf') \<Rightarrow> length buf' = n)"
proof (induction "end_p - str" arbitrary: buf str dst cnt rule: less_induct)
  case less
  have IH: "str < end_p \<Longrightarrow> str < str' \<Longrightarrow> length buf' = n \<Longrightarrow>
     (case unescape_loop buf' str' dst' end_p cnt' of Inl (_, buf') \<Rightarrow> length buf' = n | Inr (_, buf') \<Rightarrow> length buf' = n)"
    for buf' str' dst' cnt' by (rule less.hyps) auto
  from less.prems show ?case
    by (subst unescape_loop.simps) (simp add: Let_def IH split: option.split)
qed

lemma string_scan_found:
  "string_scan buf idx esc = Inr (to, esc') \<Longrightarrow> idx \<le> to \<and> to < length buf"
proof (induction buf idx esc rule: string_scan.induct)
  case (1 buf idx esc)
  note IH = 1(1) [OF _ _ refl refl]
  have q: "bget buf idx = CHR 0x22 \<Longrightarrow> idx < length buf" by (auto simp: bget_def NUL_def split: if_splits)
  show ?case using 1(2) IH q
    unfolding string_scan.simps [of buf idx esc] by (auto simp: Let_def split: if_splits)
qed

lemma json_str_reference_state:
  assumes "json_str_reference st from to = (st', s)"
  shows "index st' = index st" "length (jbuf st') = length (jbuf st)" "ref_count st' = ref_count st + 1"
    "json_str_refs s = 1"
  using assms by (auto simp: json_str_reference_def Let_def json_str_refs_def)

lemma json_parse_string_state:
  assumes "json_parse_string st = (st', r)"
  shows "length (jbuf st') = length (jbuf st)"
    and "\<And>e. r = Inl e \<Longrightarrow> ref_count st' = ref_count st"
    and "\<And>s. r = Inr s \<Longrightarrow> ref_count st' = ref_count st + 1 \<and> json_str_refs s = 1 \<and>
           index st < index st' \<and> index st' \<le> length (jbuf st)"
proof -
  have "length (jbuf st') = length (jbuf st) \<and>
    (case r of Inl e \<Rightarrow> ref_count st' = ref_count st
     | Inr s \<Rightarrow> ref_count st' = ref_count st + 1 \<and> json_str_refs s = 1 \<and>
           index st < index st' \<and> index st' \<le> length (jbuf st))"
  proof (cases "string_scan (jbuf st) (Suc (index st)) False")
    case (Inl x)
    with assms show ?thesis by (cases x) (auto simp: json_parse_string_def Let_def)
  next
    case (Inr x)
    obtain to esc where x: "x = (to, esc)" by (cases x)
    with Inr have scan: "string_scan (jbuf st) (Suc (index st)) False = Inr (to, esc)" by simp
    note pos = string_scan_found [OF scan]
    let ?st2 = "PUT_STATE (to + 1) (INC_STATE st)"
    show ?thesis
    proof (cases esc)
      case False
      with assms scan obtain s where "json_str_reference ?st2 (Suc (index st)) to = (st', s)" "r = Inr s"
        by (auto simp: json_parse_string_def Let_def split: prod.splits)
      with json_str_reference_state [OF this(1)] pos show ?thesis by simp
    next
      case True
      obtain st3 u where un: "unescape_string ?st2 (Suc (index st)) to = (st3, u)" by force
      have st3: "length (jbuf st3) = length (jbuf st)" "ref_count st3 = ref_count st" "u = Inr n \<Longrightarrow> index st3 = to + 1" for n
        using un unescape_loop_length [of "jbuf st" "length (jbuf st)" "Suc (index st)" "Suc (index st)" to 0]
        by (auto simp: unescape_string_def split: sum.splits prod.splits)
      show ?thesis
      proof (cases u)
        case (Inl e)
        with assms scan un True st3 show ?thesis by (auto simp: json_parse_string_def Let_def)
      next
        case (Inr n)
        with assms scan un True obtain s where "json_str_reference st3 (Suc (index st)) (to - n) = (st', s)" "r = Inr s"
          by (auto simp: json_parse_string_def Let_def split: prod.splits)
        with json_str_reference_state [OF this(1)] pos st3 Inr show ?thesis by simp
      qed
    qed
  qed
  then show "length (jbuf st') = length (jbuf st)"
    and "\<And>e. r = Inl e \<Longrightarrow> ref_count st' = ref_count st"
    and "\<And>s. r = Inr s \<Longrightarrow> ref_count st' = ref_count st + 1 \<and> json_str_refs s = 1 \<and>
           index st < index st' \<and> index st' \<le> length (jbuf st)"
    by auto
qed

lemma number_scan_pos:
  "number_scan buf idx fl = (idx', fl') \<Longrightarrow> idx < length buf \<Longrightarrow>
     idx \<le> idx' \<and> idx' \<le> length buf \<and> (number_table_get (bget buf idx) \<noteq> JSON_NUM_MODE_INVAL \<longrightarrow> idx < idx')"
proof (induction buf idx fl rule: number_scan.induct)
  case (1 buf idx fl)
  note IH = 1(1) [OF refl refl]
  show ?case using 1(2,3) IH
    unfolding number_scan.simps [of buf idx fl] by (auto simp: Let_def split: if_splits)
qed

lemma json_parse_number_state:
  assumes "json_parse_number strtod st = (st', r)" and "index st < length (jbuf st)"
    and "number_table_get (cur_char st) = JSON_NUM_MODE_INT"
  shows "jbuf st' = jbuf st" "ref_count st' = ref_count st" "index st < index st'" "index st' \<le> length (jbuf st)"
proof -
  obtain idx fl where sc: "number_scan (jbuf st) (index st) False = (idx, fl)" by force
  have "st' = PUT_STATE idx st"
    using assms(1) sc by (auto simp: json_parse_number_def Let_def split: prod.splits if_splits)
  moreover have "index st < idx \<and> idx \<le> length (jbuf st)"
    using number_scan_pos [OF sc assms(2)] assms(3) by (auto simp: cur_char_def)
  ultimately show "jbuf st' = jbuf st" "ref_count st' = ref_count st" "index st < index st'"
    "index st' \<le> length (jbuf st)" by auto
qed

lemma json_parse_literal_state:
  assumes "json_parse_literal st lit len = (st', e)" and "length lit = len" "0 < len" and "NUL \<notin> set lit"
  shows "jbuf st' = jbuf st" "ref_count st' = ref_count st"
    and "e = JSON_OK \<Longrightarrow> index st < index st' \<and> index st' \<le> length (jbuf st)"
proof -
  show "jbuf st' = jbuf st" "ref_count st' = ref_count st"
    using assms(1) by (auto simp: json_parse_literal_def Let_def split: if_splits)
  show "index st < index st' \<and> index st' \<le> length (jbuf st)" if ok: "e = JSON_OK"
  proof -
    from assms(1) ok have m: "map (bget (jbuf st)) [index st..<index st + len] = lit" and i: "index st' = index st + len"
      by (auto simp: json_parse_literal_def Let_def split: if_splits)
    have "index st + len - 1 \<in> set [index st..<index st + len]" using assms(3) by simp
    then have "bget (jbuf st) (index st + len - 1) \<in> set lit" using m by (metis image_eqI set_map)
    then have "index st + len - 1 < length (jbuf st)" using assms(4) by (auto simp: bget_def split: if_splits)
    then show ?thesis using i assms(3) by simp
  qed
qed

lemma json_parse_name_state:
  assumes "json_parse_name is_array st = (st', r)" and "index st < length (jbuf st)"
  shows "length (jbuf st') = length (jbuf st)"
    and "\<And>e. r = Inl e \<Longrightarrow> ref_count st' = ref_count st"
    and "\<And>nm. r = Inr nm \<Longrightarrow> ref_count st' = ref_count st + int (jn_name_refs nm) \<and> index st \<le> index st' \<and>
           index st' \<le> length (jbuf st) \<and> (nm = None \<longleftrightarrow> is_array)"
proof -
  have "length (jbuf st') = length (jbuf st) \<and>
    (case r of Inl e \<Rightarrow> ref_count st' = ref_count st
     | Inr nm \<Rightarrow> ref_count st' = ref_count st + int (jn_name_refs nm) \<and> index st \<le> index st' \<and>
           index st' \<le> length (jbuf st) \<and> (nm = None \<longleftrightarrow> is_array))"
  proof (cases "is_array \<or> cur_char st \<noteq> CHR 0x22")
    case True
    with assms show ?thesis by (auto simp: json_parse_name_def jn_name_refs_def split: if_splits)
  next
    case False
    obtain st1 q where q: "json_parse_string st = (st1, q)" by force
    note str = json_parse_string_state [OF q]
    show ?thesis
    proof (cases q)
      case (Inl e)
      with False assms q str show ?thesis by (auto simp: json_parse_name_def)
    next
      case (Inr nm)
      obtain mo st2 where sk: "skip_whitespace st1 = (mo, st2)" by force
      note ws = skip_whitespace_state [OF sk]
      from str(1) str(3) [OF Inr] ws False assms(1) q Inr sk show ?thesis
        by (auto simp: json_parse_name_def json_name_free_def json_str_free_refs jn_name_refs_def split: if_splits)
    qed
  qed
  then show "length (jbuf st') = length (jbuf st)"
    and "\<And>e. r = Inl e \<Longrightarrow> ref_count st' = ref_count st"
    and "\<And>nm. r = Inr nm \<Longrightarrow> ref_count st' = ref_count st + int (jn_name_refs nm) \<and> index st \<le> index st' \<and>
           index st' \<le> length (jbuf st) \<and> (nm = None \<longleftrightarrow> is_array)"
    by auto
qed

text \<open>
  What a parser call leaves behind: on an error every reference taken is released; on success
  the references are those of the node's strings, the position has moved on within the
  buffer, and the node is well-formed.
\<close>

definition value_inv :: "jparser \<Rightarrow> 'd json_parsed \<Rightarrow> bool" where
  "value_inv st res \<longleftrightarrow>
     (case res of
        None \<Rightarrow> True
      | Some (st', Inl e) \<Rightarrow> length (jbuf st') = length (jbuf st) \<and> ref_count st' = ref_count st
      | Some (st', Inr nd) \<Rightarrow> length (jbuf st') = length (jbuf st) \<and>
          ref_count st' = ref_count st + int (jn_refs nd) \<and>
          index st < index st' \<and> index st' \<le> length (jbuf st) \<and> jn_wf nd \<and> jn_name nd = None)"

definition elements_inv :: "jparser \<Rightarrow> 'd json_node \<Rightarrow> 'd json_parsed \<Rightarrow> bool" where
  "elements_inv st obj res \<longleftrightarrow>
     (case res of
        None \<Rightarrow> True
      | Some (st', Inl e) \<Rightarrow> length (jbuf st') = length (jbuf st) \<and> ref_count st' = ref_count st - int (jn_refs obj)
      | Some (st', Inr nd) \<Rightarrow> length (jbuf st') = length (jbuf st) \<and>
          ref_count st' = ref_count st - int (jn_refs obj) + int (jn_refs nd) \<and>
          index st < index st' \<and> index st' \<le> length (jbuf st) \<and> jn_wf nd \<and> jn_name nd = None)"

lemma jn_refs_set_name: "jn_name v = None \<Longrightarrow> jn_refs (jn_set_name nm v) = jn_name_refs nm + jn_refs v"
  by (cases v) (simp add: jn_name_refs_def)

lemma json_add_node_refs:
  "jn_name v = None \<Longrightarrow> jn_refs (json_add_node obj nm v) = jn_refs obj + jn_name_refs nm + jn_refs v"
  by (cases obj) (simp add: json_add_node_def jn_refs_set_name)

lemma json_name_free_state [simp]:
  "jbuf (json_name_free st nm) = jbuf st" "ref_count (json_name_free st nm) = ref_count st - int (jn_name_refs nm)"
  "index (json_name_free st nm) = index st"
  by (auto simp: json_name_free_def jn_name_refs_def json_str_free_refs split: option.splits)

lemma literal_inv:
  assumes "json_parse_literal st lit len = (st', e)" and "length lit = len" "0 < len" and "NUL \<notin> set lit"
    and "jn_refs nd = 0" "jn_wf nd" "jn_name nd = None"
  shows "value_inv st (json_literal_node (st', e) nd)"
  using json_parse_literal_state [OF assms(1-4)] assms(5-)
  by (cases e) (auto simp: value_inv_def json_literal_node_def)

text \<open>An outcome measured from an earlier position, after white space and the like.\<close>

lemma parsed_cases:
  obtains "res = None" | st e where "res = Some (st, Inl e)" | st nd where "res = Some (st, Inr nd)"
  by (cases res) (auto, metis sum.exhaust)

lemma value_inv_later:
  assumes "value_inv st1 res" and "length (jbuf st1) = length (jbuf st)" "ref_count st1 = ref_count st" "index st \<le> index st1"
  shows "value_inv st res"
  using assms by (cases res rule: parsed_cases) (simp_all add: value_inv_def)

lemma elements_inv_later:
  assumes "elements_inv st1 obj1 res" and "length (jbuf st1) = length (jbuf st)"
    "ref_count st1 - int (jn_refs obj1) = ref_count st - int (jn_refs obj)" "index st \<le> index st1"
  shows "elements_inv st obj res"
  using assms by (cases res rule: parsed_cases) (simp_all add: elements_inv_def)

lemma elements_value:
  "elements_inv st obj res \<Longrightarrow> jn_refs obj = 0 \<Longrightarrow> value_inv st res"
  by (cases res rule: parsed_cases) (simp_all add: elements_inv_def value_inv_def)

lemma elements_fail:
  assumes "length (jbuf st1) = length (jbuf st)"
    "ref_count st1 - int (jn_refs obj1) = ref_count st - int (jn_refs obj)"
  shows "elements_inv st obj (json_node_fail st1 obj1 e)"
  using assms by (simp add: elements_inv_def json_node_fail_def json_node_destroy_refs)

lemma json_parse_step_inv:
  assumes V: "\<And>st. value_inv st (json_parse_value strtod fuel st)"
    and E: "\<And>is_array st obj. index st < length (jbuf st) \<Longrightarrow> jn_wf obj \<Longrightarrow> jn_name obj = None \<Longrightarrow>
        jn_type obj = (if is_array then JSON_ARRAY else JSON_NODE) \<Longrightarrow>
        elements_inv st obj (json_parse_elements strtod fuel is_array st obj)"
  shows "value_inv st (json_parse_value strtod (Suc fuel) st)"
proof -
  obtain mo st1 where sk: "skip_whitespace st = (mo, st1)" by force
  note ws = skip_whitespace_state [OF sk]
  have "value_inv st1 (json_parse_value strtod (Suc fuel) st)"
  proof (cases mo)
    case False
    then show ?thesis using sk by (simp add: value_inv_def)
  next
    case True
    note lt = ws(4) [unfolded ws(1) [symmetric]]
    consider (cont) "cur_char st1 = CHR ''{'' \<or> cur_char st1 = CHR ''[''" | (str) "cur_char st1 = CHR 0x22"
      | (t) "cur_char st1 = CHR ''t''" | (f) "cur_char st1 = CHR ''f''" | (n) "cur_char st1 = CHR ''n''"
      | (other) "cur_char st1 \<notin> {CHR ''{'', CHR ''['', CHR 0x22, CHR ''t'', CHR ''f'', CHR ''n''}" by auto
    then show ?thesis
    proof cases
      case cont
      let ?arr = "cur_char st1 = CHR ''[''"
      let ?obj = "json_node_create (if ?arr then JSON_ARRAY else JSON_NODE) :: 'a json_node"
      obtain mo2 st2 where sk2: "skip_whitespace (INC_STATE st1) = (mo2, st2)" by force
      note ws2 = skip_whitespace_state [OF sk2]
      have obj: "jn_wf ?obj" "jn_name ?obj = None" "jn_refs ?obj = 0" "jn_type ?obj = (if ?arr then JSON_ARRAY else JSON_NODE)"
        by (simp_all add: json_node_create_def jn_name_refs_def jn_data_refs_def)
      have "value_inv st1 (if \<not> mo2 then json_node_fail st2 ?obj JSON_END_OF_BUFFER else json_parse_elements strtod fuel ?arr st2 ?obj)"
      proof (cases mo2)
        case False
        then show ?thesis using ws2 obj
          by (simp add: value_inv_def json_node_fail_def json_node_destroy_refs)
      next
        case True
        have "elements_inv st2 ?obj (json_parse_elements strtod fuel ?arr st2 ?obj)"
          using True ws2 obj by (intro E) auto
        then have "value_inv st2 (json_parse_elements strtod fuel ?arr st2 ?obj)" using obj(3) by (rule elements_value)
        then show ?thesis using True ws2 by (auto intro: value_inv_later)
      qed
      then show ?thesis using cont True sk sk2 by (simp add: Let_def)
    next
      case str
      obtain st2 q where q: "json_parse_string st1 = (st2, q)" by force
      note state = json_parse_string_state [OF q]
      show ?thesis using str True sk q state
        by (cases q) (auto simp: value_inv_def json_node_create_def jn_name_refs_def jn_data_refs_def)
    next
      case t
      obtain st2 e where l: "json_parse_literal st1 ''true'' 4 = (st2, e)" by force
      show ?thesis using t True sk l
        by (simp add: literal_inv [OF l] json_node_create_def jn_name_refs_def jn_data_refs_def NUL_def)
    next
      case f
      obtain st2 e where l: "json_parse_literal st1 ''false'' 5 = (st2, e)" by force
      show ?thesis using f True sk l
        by (simp add: literal_inv [OF l] json_node_create_def jn_name_refs_def jn_data_refs_def NUL_def)
    next
      case n
      obtain st2 e where l: "json_parse_literal st1 ''null'' 4 = (st2, e)" by force
      show ?thesis using n True sk l
        by (simp add: literal_inv [OF l] json_node_create_def jn_name_refs_def jn_data_refs_def NUL_def)
    next
      case other
      show ?thesis
      proof (cases "number_table_get (cur_char st1) = JSON_NUM_MODE_INT")
        case False
        then show ?thesis using other True sk by (simp add: value_inv_def)
      next
        case num: True
        obtain st2 q where q: "json_parse_number strtod st1 = (st2, q)" by force
        have "index st1 < length (jbuf st1)" using lt True by simp
        note state = json_parse_number_state [OF q this num]
        show ?thesis using other True sk q state num
          by (cases q) (auto simp: value_inv_def json_node_create_def jn_name_refs_def jn_data_refs_def)
      qed
    qed
  qed
  then show ?thesis using ws by (auto intro: value_inv_later)
qed

lemma json_elements_step_inv:
  assumes V: "\<And>st. value_inv st (json_parse_value strtod fuel st)"
    and E: "\<And>st obj. index st < length (jbuf st) \<Longrightarrow> jn_wf obj \<Longrightarrow> jn_name obj = None \<Longrightarrow>
        jn_type obj = (if is_array then JSON_ARRAY else JSON_NODE) \<Longrightarrow>
        elements_inv st obj (json_parse_elements strtod fuel is_array st obj)"
    and st: "index st < length (jbuf st)" and obj: "jn_wf obj" "jn_name obj = None"
      "jn_type obj = (if is_array then JSON_ARRAY else JSON_NODE)"
  shows "elements_inv st obj (json_parse_elements strtod (Suc fuel) is_array st obj)"
proof (cases "cur_char st = (if is_array then CHR '']'' else CHR ''}'')")
  case True
  then show ?thesis using st obj by (simp add: elements_inv_def)
next
  case False
  obtain st1 q where q: "json_parse_name is_array st = (st1, q)" by force
  note nm_state = json_parse_name_state [OF q st]
  show ?thesis
  proof (cases q)
    case (Inl e)
    then show ?thesis using False q nm_state by (auto intro: elements_fail)
  next
    case (Inr nm)
    note nm = nm_state(1) nm_state(3) [OF Inr]
    show ?thesis
    proof (cases "json_parse_value strtod fuel st1" rule: parsed_cases)
      case 1
      then show ?thesis using False q Inr by (simp add: elements_inv_def)
    next
      case (2 st2 e)
      then show ?thesis using False q Inr nm V [of st1]
        by (auto simp: value_inv_def intro!: elements_fail)
    next
      case (3 st2 v)
      have v: "length (jbuf st2) = length (jbuf st1)" "ref_count st2 = ref_count st1 + int (jn_refs v)"
        "index st1 < index st2" "index st2 \<le> length (jbuf st1)" "jn_wf v" "jn_name v = None"
        using V [of st1] 3 by (simp_all add: value_inv_def)
      obtain mo st3 where sk: "skip_whitespace st2 = (mo, st3)" by force
      note ws = skip_whitespace_state [OF sk]
      let ?obj = "json_add_node obj nm v"
      have obj1: "jn_wf ?obj" "jn_name ?obj = None" "jn_type ?obj = jn_type obj"
        "jn_refs ?obj = jn_refs obj + jn_name_refs nm + jn_refs v"
        using json_add_node_wf [OF obj(1) v(5), of nm] obj nm v(6) json_add_node_refs
        by (auto simp: json_add_node_def)
      obtain mo2 st4 where sk2: "skip_whitespace (INC_STATE st3) = (mo2, st4)" by force
      note ws2 = skip_whitespace_state [OF sk2]
      show ?thesis
      proof (cases "mo \<and> cur_char st3 = CHR '','' \<and> mo2 \<and> cur_char st3 \<noteq> (if is_array then CHR '']'' else CHR ''}'')")
        case True
        have "elements_inv st4 ?obj (json_parse_elements strtod fuel is_array st4 ?obj)"
          using True ws ws2 obj1 obj by (intro E) auto
        then have "elements_inv st obj (json_parse_elements strtod fuel is_array st4 ?obj)"
          by (rule elements_inv_later) (use nm v ws ws2 obj1 in auto)
        then show ?thesis using True False q Inr 3 sk sk2 by (simp add: Let_def)
      next
        case nogo: False
        let ?st3 = "(json_name_free st3 nm)\<lparr>ref_count := json_node_destroy v (ref_count (json_name_free st3 nm))\<rparr>"
        have "elements_inv st obj (json_node_fail ?st3 obj JSON_END_OF_BUFFER)"
          "elements_inv st obj (json_node_fail st3 ?obj JSON_OBJECT_INVALID)"
          "elements_inv st obj (json_node_fail st4 ?obj JSON_END_OF_BUFFER)"
          using nm v ws ws2 obj1 by (auto intro!: elements_fail simp: json_node_destroy_refs)
        moreover have "mo \<Longrightarrow> elements_inv st obj (Some (INC_STATE st3, Inr ?obj))"
          using nm v ws obj1 by (simp add: elements_inv_def)
        ultimately show ?thesis using nogo False q Inr 3 sk sk2
          by (auto simp: Let_def)
      qed
    qed
  qed
qed

lemma json_parse_inv:
  shows "value_inv st (json_parse_value strtod fuel st)"
    and "index st < length (jbuf st) \<Longrightarrow> jn_wf obj \<Longrightarrow> jn_name obj = None \<Longrightarrow>
        jn_type obj = (if is_array then JSON_ARRAY else JSON_NODE) \<Longrightarrow>
        elements_inv st obj (json_parse_elements strtod fuel is_array st obj)"
proof (induction fuel arbitrary: st is_array obj)
  case 0
  {
    case 1
    show ?case by (simp add: value_inv_def)
  next
    case 2
    show ?case by (simp add: elements_inv_def)
  }
next
  case (Suc fuel)
  {
    case 1
    show ?case by (intro json_parse_step_inv Suc.IH)
  next
    case 2
    then show ?case by (intro json_elements_step_inv Suc.IH)
  }
qed

section \<open>Enough fuel\<close>

definition room :: "jparser \<Rightarrow> nat" where
  "room st = length (jbuf st) - index st"

lemma json_node_fail_some [simp]: "json_node_fail st obj e \<noteq> None" "\<exists>a b. json_node_fail st obj e = Some (a, b)"
  by (simp_all add: json_node_fail_def)

lemma json_literal_node_some [simp]: "\<exists>a b. json_literal_node r nd = Some (a, b)"
  by (cases r; cases "snd r") (auto simp: json_literal_node_def)

lemma json_value_fuel_step:
  assumes E: "\<And>is_array st obj. index st < length (jbuf st) \<Longrightarrow> 2 * room st + 2 \<le> fuel \<Longrightarrow>
        json_parse_elements strtod fuel is_array st obj \<noteq> None"
    and fuel: "2 * room st + 1 \<le> Suc fuel"
  shows "json_parse_value strtod (Suc fuel) st \<noteq> None"
proof -
  obtain mo st1 where sk: "skip_whitespace st = (mo, st1)" by force
  note ws = skip_whitespace_state [OF sk]
  obtain mo2 st2 where sk2: "skip_whitespace (INC_STATE st1) = (mo2, st2)" by force
  note ws2 = skip_whitespace_state [OF sk2]
  have "mo \<Longrightarrow> mo2 \<Longrightarrow> json_parse_elements strtod fuel is_array st2 obj \<noteq> None" for is_array obj
    using ws ws2 fuel by (intro E) (auto simp: room_def)
  then show ?thesis using sk sk2
    by (auto simp: Let_def split: sum.splits prod.splits)
qed

lemma json_elements_fuel_step:
  assumes V: "\<And>st. 2 * room st + 1 \<le> fuel \<Longrightarrow> json_parse_value strtod fuel st \<noteq> None"
    and E: "\<And>st obj. index st < length (jbuf st) \<Longrightarrow> 2 * room st + 2 \<le> fuel \<Longrightarrow>
        json_parse_elements strtod fuel is_array st obj \<noteq> None"
    and st: "index st < length (jbuf st)" and fuel: "2 * room st + 2 \<le> Suc fuel"
  shows "json_parse_elements strtod (Suc fuel) is_array st obj \<noteq> None"
proof (cases "cur_char st = (if is_array then CHR '']'' else CHR ''}'')")
  case False
  obtain st1 q where q: "json_parse_name is_array st = (st1, q)" by force
  note nm_state = json_parse_name_state [OF q st]
  show ?thesis
  proof (cases q)
    case (Inr nm)
    have i: "index st \<le> index st1" "length (jbuf st1) = length (jbuf st)" using nm_state(1) nm_state(3) [OF Inr] by auto
    then have "json_parse_value strtod fuel st1 \<noteq> None" using fuel by (intro V) (auto simp: room_def)
    then show ?thesis
    proof (cases "json_parse_value strtod fuel st1" rule: parsed_cases)
      case (3 st2 v)
      have v: "length (jbuf st2) = length (jbuf st1)" "index st1 < index st2"
        using json_parse_inv(1) [of st1 strtod fuel] 3 by (simp_all add: value_inv_def)
      obtain mo st3 where sk: "skip_whitespace st2 = (mo, st3)" by force
      note ws = skip_whitespace_state [OF sk]
      obtain mo2 st4 where sk2: "skip_whitespace (INC_STATE st3) = (mo2, st4)" by force
      note ws2 = skip_whitespace_state [OF sk2]
      have "mo2 \<Longrightarrow> json_parse_elements strtod fuel is_array st4 obj1 \<noteq> None" for obj1
        using i v ws ws2 fuel by (intro E) (auto simp: room_def)
      then show ?thesis using False q Inr 3 sk sk2 by (auto simp: Let_def)
    qed (use False q Inr in auto)
  qed (use False q in simp)
qed simp

lemma json_parse_fuel:
  shows "2 * room st + 1 \<le> fuel \<Longrightarrow> json_parse_value strtod fuel st \<noteq> None"
    and "index st < length (jbuf st) \<Longrightarrow> 2 * room st + 2 \<le> fuel \<Longrightarrow>
        json_parse_elements strtod fuel is_array st obj \<noteq> None"
proof (induction fuel arbitrary: st is_array obj)
  case 0
  {
    case 1
    then show ?case by simp
  next
    case 2
    then show ?case by simp
  }
next
  case (Suc fuel)
  {
    case 1
    then show ?case by (intro json_value_fuel_step Suc.IH)
  next
    case 2
    then show ?case by (intro json_elements_fuel_step Suc.IH)
  }
qed

section \<open>Unescaping in place\<close>

text \<open>The reference: what the characters between the quotes stand for.\<close>

definition hex_pair :: "char \<Rightarrow> char \<Rightarrow> int" where
  "hex_pair a b =
     (if hex_char_to_int b = -1 \<or> hex_char_to_int a = -1 then -1
      else hex_char_to_int a * 16 + hex_char_to_int b)"

definition decode_unicode :: "char \<Rightarrow> char \<Rightarrow> char \<Rightarrow> char \<Rightarrow> char list option" where
  "decode_unicode h1 h2 h3 h4 =
     (let c1 = hex_pair h1 h2; c2 = hex_pair h3 h4; ch = nat (c1 * 256 + c2)
      in if c1 > 0 \<and> c2 > 0 \<and> \<not> (0xD800 \<le> ch \<and> ch \<le> 0xDBFF) then Some (utf8_bytes ch) else None)"

fun json_decode :: "char list \<Rightarrow> char list option" where
  "json_decode [] = Some []"
| "json_decode (c # s) =
     (if c \<noteq> CHR 0x5C then map_option (\<lambda>ys. c # ys) (json_decode s)
      else case s of
        [] \<Rightarrow> None
      | x # s1 \<Rightarrow>
          if x = CHR ''u'' then
            (case s1 of
               h1 # h2 # h3 # h4 # s2 \<Rightarrow>
                 (case decode_unicode h1 h2 h3 h4 of
                    None \<Rightarrow> None | Some bs \<Rightarrow> map_option (\<lambda>ys. bs @ ys) (json_decode s2))
             | _ \<Rightarrow> None)
          else (case simple_escape x of
                  None \<Rightarrow> None | Some b \<Rightarrow> map_option (\<lambda>ys. b # ys) (json_decode s1)))"

lemma length_utf8_bytes: "1 \<le> length (utf8_bytes ch)" "length (utf8_bytes ch) \<le> 3"
  by (simp_all add: utf8_bytes_def)

lemma drop_bput [simp]: "i + length bs \<le> k \<Longrightarrow> drop k (bput buf i bs) = drop k buf"
  by (induction bs arbitrary: buf i) auto

lemma take_bput: "i + length bs \<le> length buf \<Longrightarrow> take (i + length bs) (bput buf i bs) = take i buf @ bs"
proof (induction bs arbitrary: buf i)
  case (Cons b bs)
  have "take (Suc i + length bs) (bput (buf[i := b]) (Suc i) bs) = take (Suc i) (buf[i := b]) @ bs"
    using Cons.prems by (intro Cons.IH) simp
  moreover have "take (Suc i) (buf[i := b]) = take i buf @ [b]"
    using Cons.prems by (simp add: take_Suc_conv_app_nth)
  ultimately show ?case by simp
qed simp

lemma bget_drop: "drop i buf = c # r \<Longrightarrow> bget buf i = c"
  by (metis bget_def drop_all list.distinct(1) not_le nth_via_drop)

lemma drop_drop_Cons: "drop i buf = c # r \<Longrightarrow> drop (Suc i) buf = r"
  by (metis drop_Suc list.sel(3) tl_drop)

lemma drop_plus: "drop i buf = xs @ r \<Longrightarrow> n = length xs \<Longrightarrow> drop (i + n) buf = r"
  by (metis add.commute append_eq_conv_conj drop_drop)

text \<open>One round of the loop that writes the bytes \<open>bs\<close> for \<open>n\<close> characters read.\<close>

definition unescaped :: "char list \<Rightarrow> nat \<Rightarrow> nat \<Rightarrow> nat \<Rightarrow> char list \<Rightarrow> char list \<Rightarrow>
    (json_code \<times> nat) \<times> char list + nat \<times> char list \<Rightarrow> bool" where
  "unescaped buf dst tot cnt ys rest res \<longleftrightarrow>
     (\<exists>buf'. res = Inr (cnt + (tot - length ys), buf') \<and> take (dst + length ys) buf' = take dst buf @ ys \<and>
        length ys \<le> tot \<and> (\<exists>k. drop k buf' = rest \<and> k + length rest = length buf))"

lemma unescaped_round:
  assumes "unescaped (bput buf dst bs) (dst + length bs) tot (cnt + (n - length bs)) ys rest res"
    and "length bs \<le> n" and "dst + length bs \<le> length buf"
  shows "unescaped buf dst (n + tot) cnt (bs @ ys) rest res"
  using assms take_bput [OF assms(3)] unfolding unescaped_def by (auto simp: add.assoc)

lemma unescape_loop_decodes:
  assumes "json_decode seg = Some ys" and "drop str buf = seg @ rest" and "dst \<le> str" and "end_p = str + length seg"
    and "str \<le> length buf"
  shows "unescaped buf dst (length seg) cnt ys rest (unescape_loop buf str dst end_p cnt)"
  using assms
proof (induction seg arbitrary: ys str buf dst cnt rule: json_decode.induct)
  case 1
  then show ?case
    by (auto simp: unescaped_def unescape_loop.simps [of buf str] intro!: exI [of _ str])
next
  case (2 c s)
  have slt: "str < length buf" using arg_cong [OF "2.prems"(2), of length] by simp
  have lt: "str < end_p" "dst < length buf" using "2.prems"(3,4) slt by simp_all
  note bc = bget_drop [of str buf c "s @ rest"]
  show ?case
  proof (cases "c = CHR 0x5C")
    case False
    then obtain zs where zs: "json_decode s = Some zs" "ys = c # zs" using "2.prems"(1) by (auto split: if_splits)
    have "(if str \<noteq> dst then buf[dst := bget buf str] else buf) = bput buf dst [c]"
      using "2.prems"(2) bc lt(2) by (auto simp: bget_def)
    then have eq: "unescape_loop buf str dst end_p cnt = unescape_loop (bput buf dst [c]) (str + 1) (dst + 1) end_p cnt"
      using False lt "2.prems"(2) bc by (subst unescape_loop.simps) simp
    have "drop (str + 1) (bput buf dst [c]) = s @ rest" using "2.prems"(2,3) drop_drop_Cons [of str buf c] by simp
    then have "unescaped (bput buf dst [c]) (dst + 1) (length s) cnt zs rest
        (unescape_loop (bput buf dst [c]) (str + 1) (dst + 1) end_p cnt)"
      using False zs(1) "2.prems"(3,4) lt slt by (intro "2.IH"(1)) auto
    then show ?thesis
      using unescaped_round [of buf dst "[c]" "length s" cnt 1 zs rest] lt zs(2) unfolding eq by simp
  next
    case True
    note esc = this
    from "2.prems"(1) esc obtain x s1 where s: "s = x # s1" by (cases s) auto
    have d1: "drop (str + 1) buf = x # s1 @ rest" using "2.prems"(2) drop_drop_Cons [of str buf c] s by simp
    have d2: "drop (str + 2) buf = s1 @ rest" using drop_drop_Cons [OF d1] by simp
    have bx: "bget buf (str + 1) = x" using bget_drop [OF d1] .
    show ?thesis
    proof (cases "x = CHR ''u''")
      case False
      from "2.prems"(1) esc s False obtain b zs where b: "simple_escape x = Some b" "json_decode s1 = Some zs" "ys = b # zs"
        by (auto split: option.splits)
      have eq: "unescape_loop buf str dst end_p cnt = unescape_loop (bput buf dst [b]) (str + 2) (dst + 1) end_p (cnt + 1)"
        using esc False lt "2.prems"(2) bc bx b(1) by (subst unescape_loop.simps) (simp add: Let_def)
      have "drop (str + 2) (bput buf dst [b]) = s1 @ rest" using d2 "2.prems"(3) by simp
      moreover have "str + 2 \<le> length buf" using d1 by (metis Suc_eq_plus1 Suc_leI add_2_eq_Suc' drop_all list.distinct(1) not_le)
      ultimately have "unescaped (bput buf dst [b]) (dst + 1) (length s1) (cnt + 1) zs rest
          (unescape_loop (bput buf dst [b]) (str + 2) (dst + 1) end_p (cnt + 1))"
        using esc False s b(2) "2.prems"(3,4) lt by (intro "2.IH"(3) [of x s1 b]) (auto simp: b(1))
      then show ?thesis
        using unescaped_round [of buf dst "[b]" "length s1" cnt 2 zs rest] lt b(3) s unfolding eq by simp
    next
      case True
      from "2.prems"(1) esc s True obtain h1 h2 h3 h4 s2 bs zs where h: "s1 = h1 # h2 # h3 # h4 # s2"
        "decode_unicode h1 h2 h3 h4 = Some bs" "json_decode s2 = Some zs" "ys = bs @ zs"
        by (auto split: list.splits option.splits)
      have e1: "drop (str + 2) buf = h1 # h2 # h3 # h4 # s2 @ rest" using d2 h(1) by simp
      have e2: "drop (str + 3) buf = h2 # h3 # h4 # s2 @ rest" using drop_drop_Cons [OF e1] by (simp add: numeral_eq_Suc)
      have e3: "drop (str + 4) buf = h3 # h4 # s2 @ rest" using drop_drop_Cons [OF e2] by (simp add: numeral_eq_Suc)
      have e4: "drop (str + 5) buf = h4 # s2 @ rest" using drop_drop_Cons [OF e3] by (simp add: numeral_eq_Suc)
      have e5: "drop (str + 6) buf = s2 @ rest" using drop_drop_Cons [OF e4] by (simp add: numeral_eq_Suc)
      have len: "str + 6 \<le> length buf" using arg_cong [OF e4, of length] by simp
      note hs = bget_drop [OF e1] bget_drop [OF e2] bget_drop [OF e3] bget_drop [OF e4]
      have hx: "unicode_from_hex buf (str + 1 + 1) = hex_pair h1 h2" "unicode_from_hex buf (str + 1 + 3) = hex_pair h3 h4"
        using hs by (simp_all add: unicode_from_hex_def hex_pair_def Let_def numeral_eq_Suc)
      have bs: "length bs \<le> 3"
        using h(2) length_utf8_bytes(2) by (auto simp: decode_unicode_def Let_def split: if_splits)
      then have l: "cnt + 1 + (5 - length bs) = cnt + (6 - length bs)" by simp
      have room: "str + 1 + 5 \<le> end_p" using "2.prems"(4) s h(1) by simp
      define ch where "ch = nat (hex_pair h1 h2 * 256 + hex_pair h3 h4)"
      have pos: "0 < hex_pair h1 h2" "0 < hex_pair h3 h4" "\<not> (0xD800 \<le> ch \<and> ch \<le> 0xDBFF)" "bs = utf8_bytes ch"
        using h(2) unfolding decode_unicode_def Let_def ch_def by (simp_all split: if_splits)
      have cb: "bget buf str = CHR 0x5C" "bget buf (str + 1) = CHR ''u''" using esc True bx bc "2.prems"(2) by simp_all
      have "unescape_loop buf str dst end_p cnt =
          unescape_loop (bput buf dst bs) (str + 1 + 5) (dst + length bs) end_p (cnt + 1 + (5 - length bs))"
        using pos room lt(1) unfolding unescape_loop.simps [of buf str dst end_p cnt] Let_def cb hx ch_def by (simp, blast)
      moreover have "str + 1 + 5 = str + 6" by simp
      ultimately have eq: "unescape_loop buf str dst end_p cnt =
          unescape_loop (bput buf dst bs) (str + 6) (dst + length bs) end_p (cnt + (6 - length bs))"
        using l by metis
      have "drop (str + 6) (bput buf dst bs) = s2 @ rest" using e5 "2.prems"(3) bs by simp
      then have "unescaped (bput buf dst bs) (dst + length bs) (length s2) (cnt + (6 - length bs)) zs rest
          (unescape_loop (bput buf dst bs) (str + 6) (dst + length bs) end_p (cnt + (6 - length bs)))"
        using esc True s h "2.prems"(3,4) lt len bs by (intro "2.IH"(2)) auto
      then have "unescaped buf dst (6 + length s2) cnt (bs @ zs) rest
          (unescape_loop (bput buf dst bs) (str + 6) (dst + length bs) end_p (cnt + (6 - length bs)))"
        using len bs "2.prems"(3) by (intro unescaped_round) simp_all
      moreover have "length (c # s) = 6 + length s2" using s h(1) by simp
      ultimately show ?thesis unfolding eq h(4) by (simp only:)
    qed
  qed
qed

section \<open>Parsing a quoted string\<close>

text \<open>Characters that the scan passes on its way to the closing quote.\<close>

fun scan_ok :: "char list \<Rightarrow> bool" where
  "scan_ok [] = True"
| "scan_ok (c # s) =
     (c \<noteq> CHR 0x22 \<and> c \<noteq> CHR 0x0A \<and>
      (if c = CHR 0x5C then (case s of [] \<Rightarrow> False | _ # s1 \<Rightarrow> scan_ok s1) else scan_ok s))"

lemma string_scan_quote:
  assumes "scan_ok seg" and "drop idx buf = seg @ CHR 0x22 # rest"
  shows "string_scan buf idx esc = Inr (idx + length seg, esc \<or> CHR 0x5C \<in> set seg)"
  using assms
proof (induction seg arbitrary: idx esc rule: scan_ok.induct)
  case 1
  then show ?case using bget_drop [of idx buf] by (subst string_scan.simps) simp
next
  case (2 c s)
  have len: "idx + length s < length buf" using arg_cong [OF "2.prems"(2), of length] by simp
  have c: "bget buf idx = c" using "2.prems"(2) bget_drop by simp
  show ?case
  proof (cases "c = CHR 0x5C")
    case False
    have "string_scan buf (idx + 1) esc = Inr (idx + 1 + length s, esc \<or> CHR 0x5C \<in> set s)"
      using "2.prems" False drop_drop_Cons [of idx buf c] by (intro "2.IH") auto
    then show ?thesis using "2.prems"(1) False c len by (subst string_scan.simps) (simp add: Let_def)
  next
    case True
    with "2.prems"(1) obtain x s1 where s: "s = x # s1" "scan_ok s1" by (cases s) auto
    have "drop (idx + 2) buf = s1 @ CHR 0x22 # rest"
      using "2.prems"(2) s(1) drop_plus [of idx buf "[c, x]" "s1 @ CHR 0x22 # rest" 2] by simp
    then have "string_scan buf (idx + 2) True = Inr (idx + 2 + length s1, True \<or> CHR 0x5C \<in> set s1)"
      using True s by (intro "2.IH"(1) [of x s1]) auto
    then show ?thesis using True s c len by (subst string_scan.simps) (simp add: Let_def)
  qed
qed

lemma json_decode_plain: "CHR 0x5C \<notin> set seg \<Longrightarrow> json_decode seg = Some seg"
  by (induction seg) auto

text \<open>A quoted string at the current position is parsed to its decoded characters.\<close>

definition parsed_to :: "jparser \<Rightarrow> jparser \<Rightarrow> nat \<Rightarrow> char list \<Rightarrow> bool" where
  "parsed_to st st' n rest \<longleftrightarrow> index st' = index st + n \<and> drop (index st') (jbuf st') = rest"

lemma json_str_reference_text:
  assumes "take (from + length ys) (jbuf st) = pre @ ys" and "length pre = from" and "0 < from"
    and "drop k (jbuf st) = rest" "from + length ys < k" "k \<le> length (jbuf st)" and "NUL \<notin> set ys"
    and "json_str_reference st from (from + length ys) = (st', s)"
  shows "s = (JSON_STR_REFERENCE, ys) \<and> drop k (jbuf st') = rest"
proof -
  let ?n = "from + length ys" and ?buf = "(jbuf st)[from - 1 := CHR ''R'', from + length ys := NUL]"
  have s: "s = (JSON_STR_REFERENCE, cstr (drop from ?buf))" "jbuf st' = ?buf"
    using assms(8) by (auto simp: json_str_reference_def Let_def)
  have n: "?n < length (jbuf st)" using assms(5,6) by simp
  have "drop from ?buf = take (length ys) (drop from ?buf) @ drop (length ys) (drop from ?buf)"
    by (rule append_take_drop_id [symmetric])
  also have "take (length ys) (drop from ?buf) = drop from (take ?n ?buf)"
    by (metis add_diff_cancel_left' drop_take)
  also have "take ?n ?buf = (take ?n (jbuf st))[from - 1 := CHR ''R'']"
    using assms(3) by (simp add: take_update_swap list_update_beyond)
  also have "drop from \<dots> = ys" using assms(1,2,3) by simp
  also have "drop (length ys) (drop from ?buf) = drop ?n ?buf" by (simp add: add.commute)
  also have "\<dots> = NUL # drop (Suc ?n) ?buf" using n by (simp add: Cons_nth_drop_Suc [symmetric] del: drop_update_swap)
  finally have "cstr (drop from ?buf) = ys" using assms(7) by simp
  then show ?thesis using s assms(3,4,5) by simp
qed

lemma json_parse_string_text:
  assumes txt0: "drop (index st) (jbuf st) = CHR 0x22 # seg @ CHR 0x22 # rest"
    and seg: "scan_ok seg" "json_decode seg = Some ys" "NUL \<notin> set ys"
    and r: "json_parse_string st = (st', q)"
  shows "q = Inr (JSON_STR_REFERENCE, ys) \<and> parsed_to st st' (length seg + 2) rest"
proof -
  let ?from = "Suc (index st)" let ?to = "?from + length seg"
  let ?st2 = "PUT_STATE (?to + 1) (INC_STATE st)"
  have d1: "drop ?from (jbuf st) = seg @ CHR 0x22 # rest" by (rule drop_drop_Cons [OF txt0])
  have len: "?to + 1 \<le> length (jbuf st)" using arg_cong [OF txt0, of length] by simp
  have d2: "drop (?to + 1) (jbuf st) = rest"
    using drop_plus [OF d1, of "length seg"] drop_drop_Cons [of ?to "jbuf st"] by simp
  have scan: "string_scan (jbuf st) ?from False = Inr (?to, CHR 0x5C \<in> set seg)"
    using string_scan_quote [OF seg(1) d1] by simp
  show ?thesis
  proof (cases "CHR 0x5C \<in> set seg")
    case False
    then have ys: "ys = seg" using json_decode_plain seg(2) by simp
    obtain s where ref: "json_str_reference ?st2 ?from (?from + length ys) = (st', s)" "q = Inr s"
      using r scan False by (auto simp: json_parse_string_def Let_def ys split: prod.splits)
    have "take (?from + length ys) (jbuf ?st2) = take ?from (jbuf st) @ ys"
      using take_add [of ?from "length seg" "jbuf st"] d1 by (simp add: ys)
    from json_str_reference_text [OF this _ _ _ _ _ seg(3) ref(1), of "?to + 1" rest] len d2 ref(2)
    have "q = Inr (JSON_STR_REFERENCE, ys)" "drop (?to + 1) (jbuf st') = rest" by (auto simp: ys)
    then show ?thesis using json_str_reference_state(1) [OF ref(1)] by (simp add: parsed_to_def)
  next
    case True
    have "unescaped (jbuf st) ?from (length seg) 0 ys (CHR 0x22 # rest) (unescape_loop (jbuf st) ?from ?from ?to 0)"
      using len by (intro unescape_loop_decodes [OF seg(2) d1]) simp_all
    then obtain buf k where u: "unescape_loop (jbuf st) ?from ?from ?to 0 = Inr (length seg - length ys, buf)"
      "take (?from + length ys) buf = take ?from (jbuf st) @ ys" "length ys \<le> length seg"
      "drop k buf = CHR 0x22 # rest" "k + length (CHR 0x22 # rest) = length (jbuf st)"
      by (auto simp: unescaped_def)
    have k: "k = ?to" using u(5) arg_cong [OF d1, of length] len by simp
    have bl: "length buf = length (jbuf st)"
      using unescape_loop_length [of "jbuf st" "length (jbuf st)" ?from ?from ?to 0] u(1) by simp
    let ?st3 = "?st2\<lparr>jbuf := buf\<rparr>"
    have to': "?to - (length seg - length ys) = ?from + length ys" using u(3) by simp
    obtain s where ref: "json_str_reference ?st3 ?from (?from + length ys) = (st', s)" "q = Inr s"
      using r scan True u(1) to' by (auto simp: json_parse_string_def unescape_string_def Let_def split: prod.splits)
    have "drop (?to + 1) (jbuf ?st3) = rest" using drop_drop_Cons [OF u(4)] k by simp
    moreover have "take (?from + length ys) (jbuf ?st3) = take ?from (jbuf st) @ ys" using u(2) by simp
    ultimately have "s = (JSON_STR_REFERENCE, ys) \<and> drop (?to + 1) (jbuf st') = rest"
      using json_str_reference_text [OF _ _ _ _ _ _ seg(3) ref(1), of "take ?from (jbuf st)" "?to + 1" rest] len bl u(3)
      by simp
    then show ?thesis using json_str_reference_state(1) [OF ref(1)] ref(2) by (simp add: parsed_to_def)
  qed
qed

section \<open>Properties of the parser\<close>

text \<open>
  C33. The parser returns for every buffer: the fuel \<open>json_parse\<close> gives is enough, so neither the
  recursion over nested containers nor a loop runs forever.
\<close>

theorem json_parse_total: "\<exists>r refs. json_parse strtod data = Some (r, refs)"
proof -
  have "json_parse_value strtod (json_fuel data) \<lparr>lineno = 1, newline = 0, index = 0, jbuf = data, ref_count = 1\<rparr> \<noteq> None"
    by (rule json_parse_fuel(1)) (simp add: room_def json_fuel_def)
  then show ?thesis by (auto simp: json_parse_def)
qed

lemma json_parse_refs:
  "case json_parse strtod data of
     None \<Rightarrow> False
   | Some (Inl e, refs) \<Rightarrow> refs = 0
   | Some (Inr node, refs) \<Rightarrow> refs = int (jn_refs node) \<and> jn_wf node \<and> jn_name node = None"
proof -
  let ?st = "\<lparr>lineno = 1, newline = 0, index = 0, jbuf = data, ref_count = 1\<rparr>"
  have "json_parse_value strtod (json_fuel data) ?st \<noteq> None"
    by (rule json_parse_fuel(1)) (simp add: room_def json_fuel_def)
  then show ?thesis
    using json_parse_inv(1) [of ?st strtod "json_fuel data"]
    by (auto simp: value_inv_def json_parse_def simp del: not_None_eq not_Some_eq split: option.splits sum.splits)
qed

text \<open>
  C11. The references to the buffer balance: after an error none is left, so the buffer is freed;
  after a success there is exactly one for every name and string of the tree, which is
  well-formed and has no name.
\<close>

theorem json_parse_references:
  "case json_parse strtod data of
     None \<Rightarrow> False
   | Some (Inl e, refs) \<Rightarrow> refs = 0
   | Some (Inr node, refs) \<Rightarrow> refs = int (jn_refs node) \<and> jn_wf node \<and> jn_name node = None"
  by (rule json_parse_refs)

text \<open>
  C15. Unescaping in place, with the write position behind the read position in the same buffer,
  computes the reference decoding: the characters before the segment are kept, the decoded
  characters follow, the rest behind the segment is untouched, and the returned number is
  that of the characters cut out.
\<close>

theorem unescape_string_decodes:
  assumes "json_decode seg = Some ys" and "drop idx (jbuf st) = seg @ rest" and "idx \<le> length (jbuf st)"
  shows "\<exists>st' buf'. unescape_string st idx (idx + length seg) = (st', Inr (length seg - length ys)) \<and>
    st' = st\<lparr>jbuf := buf'\<rparr> \<and> length ys \<le> length seg \<and> length buf' = length (jbuf st) \<and>
    take (idx + length ys) buf' = take idx (jbuf st) @ ys \<and> drop (idx + length seg) buf' = rest"
proof -
  have "unescaped (jbuf st) idx (length seg) 0 ys rest (unescape_loop (jbuf st) idx idx (idx + length seg) 0)"
    using assms by (intro unescape_loop_decodes) simp_all
  then obtain buf k where u: "unescape_loop (jbuf st) idx idx (idx + length seg) 0 = Inr (length seg - length ys, buf)"
    "take (idx + length ys) buf = take idx (jbuf st) @ ys" "length ys \<le> length seg"
    "drop k buf = rest" "k + length rest = length (jbuf st)"
    by (auto simp: unescaped_def)
  have bl: "length buf = length (jbuf st)"
    using unescape_loop_length [of "jbuf st" "length (jbuf st)" idx idx "idx + length seg" 0] u(1) by simp
  have "k = idx + length seg" using u(5) arg_cong [OF assms(2), of length] assms(3) by simp
  then show ?thesis using u bl by (intro exI [of _ "st\<lparr>jbuf := buf\<rparr>"] exI [of _ buf]) (simp add: unescape_string_def)
qed

theorem unescape_string_decodes_witness:
  "\<exists>st' buf'. unescape_string \<lparr>lineno = 1, newline = 0, index = 0, jbuf = [CHR ''x'', CHR 0x5C, CHR ''n'', CHR 0x22], ref_count = 1\<rparr> 0 3 =
     (st', Inr 1) \<and> jbuf st' = buf' \<and> take 2 buf' = [CHR ''x'', CHR 0x0A] \<and> drop 3 buf' = [CHR 0x22]"
proof -
  let ?st = "\<lparr>lineno = 1, newline = 0, index = 0, jbuf = [CHR ''x'', CHR 0x5C, CHR ''n'', CHR 0x22], ref_count = 1\<rparr>"
  have "json_decode [CHR ''x'', CHR 0x5C, CHR ''n''] = Some [CHR ''x'', CHR 0x0A]" by (simp add: simple_escape_def)
  from unescape_string_decodes [OF this, of 0 ?st "[CHR 0x22]"] show ?thesis
    by (auto simp: numeral_eq_Suc)
qed

text \<open>
  A Unicode escape with a zero byte, such as that of the letter A, is refused, although it is
  valid JSON: the test on the two bytes excludes zero.
\<close>

theorem json_parse_ascii_escape:
  fixes strtod :: "'d :: equal strtod_fun"
  shows
  "json_parse strtod [CHR 0x22, CHR 0x5C, CHR ''u'', CHR ''0'', CHR ''0'', CHR ''4'', CHR ''1'', CHR 0x22] =
     Some (Inl JSON_STRING_INVALID_ESC, 0)"
  by code_simp

lemma skip_whitespace_none:
  assumes "index st < length (jbuf st)" and "json_whitespace_table ! of_char (jbuf st ! index st) = JSON_NOTSPACE"
  shows "skip_whitespace st = (True, st)"
  using assms by (simp add: skip_whitespace_def skip_whitespace_loop.simps Let_def JSON_NOTSPACE_def JSON_NEWLINE_def)

text \<open>
  A literal that ends exactly at the end of the buffer is refused, one character more makes it
  valid.
\<close>

theorem json_parse_literal_at_end:
  "json_parse strtod ''null'' = Some (Inl JSON_END_OF_BUFFER, 0) \<and>
   json_parse strtod ''null '' = Some (Inr (json_node_create JSON_NULL), 0)"
proof -
  have n: "json_whitespace_table ! of_char (CHR ''n'') = JSON_NOTSPACE" by code_simp
  have f: "json_fuel ''null'' = Suc 8" "json_fuel ''null '' = Suc 10" by (simp_all add: json_fuel_def)
  have "size_sub (Suc (Suc (Suc (Suc 0)))) 4 = 0" "size_sub (Suc (Suc (Suc (Suc (Suc 0))))) 4 = 1" by (simp_all add: size_sub_le)
  then show ?thesis
    unfolding json_parse_def f json_parse_value.simps(2) by (simp add: skip_whitespace_none n [simplified] Let_def cur_char_def bget_def json_parse_literal_def
        json_literal_node_def upt_conv_Cons)
qed

text \<open>
  \<open>json_set_number\<close> accepts a string that is no number and stores zero.
\<close>

theorem json_set_number_accepts_text:
  fixes strtod :: "'d :: equal strtod_fun"
  shows
  "json_set_number strtod node ''abc'' = (jn_set_data True (JInt 0) node, JSON_OK)"
  by code_simp

end
