(* ===== verification/JsonWriter.thy ===== *)
theory JsonWriter
  imports JsonParser
begin

text \<open>
  The JSON writer of \<open>libtsjson/writer.c\<close>: the recursive writer over the function table
  \<open>struct json_writer\<close>, and its three instances that count bytes, fill a memory buffer and
  write to a file. \<open>None\<close> as outcome is undefined behaviour: a null name, or the read of
  \<open>json_escape_table\<close> behind its 128 entries for a byte above 127 (\<open>char\<close> is signed, so the
  test \<open>*p > 0x80\<close> in front of it never holds). The texts that \<open>snprintf\<close> makes of doubles are
  a parameter. The round trip through the parser is proved for trees of objects, arrays,
  strings of 7-bit characters, 64-bit integers, booleans and nulls, in both layouts.
\<close>

section \<open>Function table\<close>

record 's json_writer =
  writer_error :: "'s \<Rightarrow> json_code"
  write_byte :: "char \<Rightarrow> 's \<Rightarrow> 's"
  write_string :: "string \<Rightarrow> 's \<Rightarrow> 's"
  write_byte_array :: "char list \<Rightarrow> 's \<Rightarrow> 's"

record 'd double_format =
  df_large :: "'d \<Rightarrow> bool"
  df_exp :: "'d \<Rightarrow> string"
  df_fixed :: "'d \<Rightarrow> string"

section \<open>Strings and numbers\<close>

definition json_escape_table :: "nat list" where
  "json_escape_table = map (\<lambda>i. if i \<in> {8, 9, 10, 12, 13, 34, 47, 92} then 1 else 0) [0..<128]"

text \<open>The escape of a character of the table; a character of the table without a case is not escaped.\<close>

definition json_escape :: "char \<Rightarrow> string option" where
  "json_escape c =
     (if c = CHR 0x22 then Some [CHR 0x5C, CHR 0x22] else if c = CHR 0x5C then Some [CHR 0x5C, CHR 0x5C]
      else if c = CHR ''/'' then Some [CHR 0x5C, CHR ''/''] else if c = CHR 0x0A then Some [CHR 0x5C, CHR ''n'']
      else if c = CHR 0x09 then Some [CHR 0x5C, CHR ''t''] else if c = CHR 0x0D then Some [CHR 0x5C, CHR ''r'']
      else if c = CHR 0x0C then Some [CHR 0x5C, CHR ''f''] else if c = CHR 0x08 then Some [CHR 0x5C, CHR ''b'']
      else None)"

text \<open>\<open>ESCAPE_CHARACTER\<close>: the characters between \<open>s\<close> and \<open>p\<close> (here \<open>pend\<close>), then the escape.\<close>

definition ESCAPE_CHARACTER :: "'s json_writer \<Rightarrow> char list \<Rightarrow> string \<Rightarrow> 's \<Rightarrow> 's" where
  "ESCAPE_CHARACTER w pend esc st =
     write_string w esc (if pend \<noteq> [] then write_byte_array w pend st else st)"

fun json_write_string_loop :: "'s json_writer \<Rightarrow> string \<Rightarrow> char list \<Rightarrow> 's \<Rightarrow> (char list \<times> 's) option" where
  "json_write_string_loop w [] pend st = Some (pend, st)"
| "json_write_string_loop w (c # p) pend st =
     (if of_char c \<ge> (128 :: nat) then None
      else if json_escape_table ! of_char c = 1
      then (case json_escape c of
              Some esc \<Rightarrow> json_write_string_loop w p [] (ESCAPE_CHARACTER w pend esc st)
            | None \<Rightarrow> json_write_string_loop w p (pend @ [c]) st)
      else json_write_string_loop w p (pend @ [c]) st)"

definition json_write_string :: "'s json_writer \<Rightarrow> string \<Rightarrow> 's \<Rightarrow> ('s \<times> json_code) option" where
  "json_write_string w str st =
     (case json_write_string_loop w str [] (write_byte w (CHR 0x22) st) of
        None \<Rightarrow> None
      | Some (pend, st1) \<Rightarrow>
          let st2 = write_byte w (CHR 0x22) (if pend \<noteq> [] then write_byte_array w pend st1 else st1)
          in Some (st2, writer_error w st2))"

text \<open>\<open>snprintf\<close> of a 64-bit integer.\<close>

definition digit_char :: "nat \<Rightarrow> char" where
  "digit_char n = char_of (48 + n)"

fun nat_text :: "nat \<Rightarrow> string" where
  "nat_text n = (if n < 10 then [digit_char n] else nat_text (n div 10) @ [digit_char (n mod 10)])"

declare nat_text.simps [simp del]

definition int_text :: "int \<Rightarrow> string" where
  "int_text i = (if i < 0 then CHR ''-'' # nat_text (nat (- i)) else nat_text (nat i))"

definition json_write_number ::
    "'d double_format \<Rightarrow> 's json_writer \<Rightarrow> 'd json_node \<Rightarrow> 's \<Rightarrow> ('s \<times> json_code)" where
  "json_write_number df w num st =
     (let buf = (if jn_is_integer num then int_text (jn_int num)
                 else (case jn_data num of
                         JDouble d \<Rightarrow> if df_large df d then df_exp df d else df_fixed df d
                       | _ \<Rightarrow> []))
      in if length buf > 31 then (st, JSON_BUFFER_OVERFLOW)
         else let st1 = write_string w buf st in (st1, writer_error w st1))"

section \<open>Trees\<close>

definition json_write_node_indent :: nat where "json_write_node_indent = 2"

definition json_write_end :: "'s json_writer \<Rightarrow> 's \<times> json_code \<Rightarrow> 's \<times> json_code" where
  "json_write_end w r = (if snd r = JSON_OK then (fst r, writer_error w (fst r)) else r)"

definition write_if :: "bool \<Rightarrow> ('s \<Rightarrow> 's) \<Rightarrow> 's \<Rightarrow> 's" where
  "write_if b f st = (if b then f st else st)"

text \<open>The return code of \<open>json_write_string\<close> for a name is ignored.\<close>

definition json_write_name :: "'s json_writer \<Rightarrow> bool \<Rightarrow> bool \<Rightarrow> json_str option \<Rightarrow> 's \<Rightarrow> 's option" where
  "json_write_name w is_node formatted name st =
     (if \<not> is_node then Some st
      else case name of
        None \<Rightarrow> None
      | Some s \<Rightarrow>
          (case json_write_string w (snd s) st of
             None \<Rightarrow> None
           | Some (st1, _) \<Rightarrow> Some (write_if formatted (write_byte w (CHR '' '')) (write_byte w (CHR '':'') st1))))"

function json_write_impl ::
    "'d double_format \<Rightarrow> 's json_writer \<Rightarrow> bool \<Rightarrow> nat \<Rightarrow> 'd json_node \<Rightarrow> 's \<Rightarrow> ('s \<times> json_code) option"
  and json_write_children ::
    "'d double_format \<Rightarrow> 's json_writer \<Rightarrow> bool \<Rightarrow> nat \<Rightarrow> bool \<Rightarrow> 'd json_node list \<Rightarrow> 's \<Rightarrow> ('s \<times> json_code) option" where
  "json_write_impl df w formatted orig_indent node st =
     (if jn_type node = JSON_NODE \<or> jn_type node = JSON_ARRAY then
        (let is_node = (jn_type node = JSON_NODE); indent = orig_indent + json_write_node_indent;
             st1 = write_byte w (if is_node then CHR ''{'' else CHR ''['') st;
             st2 = write_if formatted (write_byte w (CHR 0x0A)) st1
         in case json_write_children df w formatted indent is_node (jn_child_head node) st2 of
              None \<Rightarrow> None
            | Some (st3, ret) \<Rightarrow>
                if ret \<noteq> JSON_OK then Some (st3, ret)
                else
                  let st4 = write_if (formatted \<and> indent > json_write_node_indent)
                              (write_byte_array w (replicate orig_indent (CHR '' ''))) st3;
                      st5 = write_byte w (if is_node then CHR ''}'' else CHR '']'') st4;
                      st6 = write_if (formatted \<and> orig_indent = 0) (write_byte w (CHR 0x0A)) st5
                  in Some (st6, writer_error w st6))
      else if jn_type node = JSON_BOOLEAN then
        Some (json_write_end w (write_string w (if jn_data node = JBool True then ''true'' else ''false'') st, JSON_OK))
      else if jn_type node = JSON_NULL then
        Some (json_write_end w (write_string w ''null'' st, JSON_OK))
      else if jn_type node = JSON_STRING then
        map_option (json_write_end w) (json_write_string w (case jn_data node of JStr s \<Rightarrow> snd s | _ \<Rightarrow> []) st)
      else if jn_type node = JSON_NUMBER then
        Some (json_write_end w (json_write_number df w node st))
      else Some (json_write_end w (st, JSON_OK)))"
| "json_write_children df w formatted indent is_node [] st = Some (st, JSON_OK)"
| "json_write_children df w formatted indent is_node (child # chs) st =
     (let st1 = write_if formatted (write_byte_array w (replicate indent (CHR '' ''))) st in
      case json_write_name w is_node formatted (jn_name child) st1 of
        None \<Rightarrow> None
      | Some st2 \<Rightarrow>
          (case json_write_impl df w formatted indent child st2 of
             None \<Rightarrow> None
           | Some (st3, ret) \<Rightarrow>
               if ret \<noteq> JSON_OK then Some (st3, ret)
               else
                 let st4 = write_if (chs \<noteq> []) (write_byte w (CHR '','')) st3;
                     st5 = write_if formatted (write_byte w (CHR 0x0A)) st4
                 in json_write_children df w formatted indent is_node chs st5))"
  by pat_completeness auto
termination
  by (relation "measure (\<lambda>x. case x of Inl (_, _, _, _, n, _) \<Rightarrow> size n | Inr (_, _, _, _, _, ns, _) \<Rightarrow> size_list size ns)")
     (auto simp: jn_child_head_def split: json_node.splits)

section \<open>Instances\<close>

definition json_writer_count :: "nat json_writer" where
  "json_writer_count =
     \<lparr>writer_error = (\<lambda>_. JSON_OK), write_byte = (\<lambda>_ n. n + 1),
      write_string = (\<lambda>s n. n + length (cstr s)), write_byte_array = (\<lambda>a n. n + length a)\<rparr>"

definition json_write_count :: "'d double_format \<Rightarrow> 'd json_node \<Rightarrow> bool \<Rightarrow> (json_code + nat) option" where
  "json_write_count df node formatted =
     (case json_write_impl df json_writer_count formatted 0 node 1 of
        None \<Rightarrow> None
      | Some (n, ret) \<Rightarrow> Some (if ret \<noteq> JSON_OK then Inl ret else Inr n))"

text \<open>The memory buffer: \<open>bs_ptr\<close> is the offset of \<open>ptr\<close> in \<open>buf\<close>.\<close>

record json_buf_state =
  bs_buf :: "char list"
  bs_ptr :: nat
  bs_len :: nat
  bs_sz :: nat

definition json_writer_error_buf :: "json_buf_state \<Rightarrow> json_code" where
  "json_writer_error_buf b = (if bs_len b \<ge> bs_sz b then JSON_BUFFER_OVERFLOW else JSON_OK)"

definition json_write_byte_array_buf :: "char list \<Rightarrow> json_buf_state \<Rightarrow> json_buf_state" where
  "json_write_byte_array_buf a b =
     (let b1 = b\<lparr>bs_len := bs_len b + length a\<rparr>
      in if bs_len b1 \<ge> bs_sz b1 then b1
         else b1\<lparr>bs_buf := bput (bs_buf b1) (bs_ptr b1) a, bs_ptr := bs_ptr b1 + length a\<rparr>)"

definition json_write_byte_buf :: "char \<Rightarrow> json_buf_state \<Rightarrow> json_buf_state" where
  "json_write_byte_buf c b =
     (let b1 = b\<lparr>bs_len := bs_len b + 1\<rparr>
      in if bs_len b1 \<ge> bs_sz b1 then b1
         else b1\<lparr>bs_buf := (bs_buf b1)[bs_ptr b1 := c], bs_ptr := bs_ptr b1 + 1\<rparr>)"

definition json_write_string_buf :: "string \<Rightarrow> json_buf_state \<Rightarrow> json_buf_state" where
  "json_write_string_buf s b =
     (let str = cstr s; b1 = b\<lparr>bs_len := bs_len b + length str\<rparr>
      in if bs_len b1 \<ge> bs_sz b1 then b1
         else b1\<lparr>bs_buf := bput (bs_buf b1) (bs_ptr b1) (str @ [NUL]), bs_ptr := bs_ptr b1 + length str\<rparr>)"

definition json_writer_buf :: "json_buf_state json_writer" where
  "json_writer_buf =
     \<lparr>writer_error = json_writer_error_buf, write_byte = json_write_byte_buf,
      write_string = json_write_string_buf, write_byte_array = json_write_byte_array_buf\<rparr>"

definition json_write_buf ::
    "'d double_format \<Rightarrow> 'd json_node \<Rightarrow> char list \<Rightarrow> nat \<Rightarrow> bool \<Rightarrow> (char list \<times> json_code) option" where
  "json_write_buf df node buf len formatted =
     (case json_write_impl df json_writer_buf formatted 0 node \<lparr>bs_buf = buf, bs_ptr = 0, bs_len = 0, bs_sz = len\<rparr> of
        None \<Rightarrow> None
      | Some (b, ret) \<Rightarrow>
          Some (if bs_len b < size_sub (bs_sz b) 1 then (bs_buf b)[bs_ptr b := NUL] else bs_buf b, ret))"

text \<open>A \<open>FILE\<close> on a device with limited room: what does not fit sets the error indicator.\<close>

record json_file =
  jf_out :: "char list"
  jf_room :: nat
  jf_error :: bool

definition json_fput :: "char list \<Rightarrow> json_file \<Rightarrow> json_file" where
  "json_fput a f =
     (if length a \<le> jf_room f
      then f\<lparr>jf_out := jf_out f @ a, jf_room := jf_room f - length a\<rparr>
      else f\<lparr>jf_out := jf_out f @ take (jf_room f) a, jf_room := 0, jf_error := True\<rparr>)"

definition json_writer_file :: "json_file json_writer" where
  "json_writer_file =
     \<lparr>writer_error = (\<lambda>f. if jf_error f then JSON_FILE_ERROR else JSON_OK), write_byte = (\<lambda>c. json_fput [c]),
      write_string = (\<lambda>s. json_fput (cstr s)), write_byte_array = json_fput\<rparr>"

definition json_write_file ::
    "'d double_format \<Rightarrow> 'd json_node \<Rightarrow> json_file \<Rightarrow> bool \<Rightarrow> (json_file \<times> json_code) option" where
  "json_write_file df node file formatted = json_write_impl df json_writer_file formatted 0 node file"

section \<open>The text of a tree\<close>

definition char_text :: "char \<Rightarrow> string" where
  "char_text c = (case json_escape c of Some e \<Rightarrow> e | None \<Rightarrow> [c])"

definition str_text :: "string \<Rightarrow> string" where
  "str_text s = CHR 0x22 # concat (map char_text s) @ [CHR 0x22]"

definition spaces :: "bool \<Rightarrow> nat \<Rightarrow> string" where
  "spaces formatted n = (if formatted then replicate n (CHR '' '') else [])"

definition lf :: "bool \<Rightarrow> string" where
  "lf formatted = (if formatted then [CHR 0x0A] else [])"

definition name_text :: "bool \<Rightarrow> bool \<Rightarrow> json_str option \<Rightarrow> string" where
  "name_text is_node formatted name =
     (if is_node then str_text (snd (the name)) @ CHR '':'' # spaces formatted 1 else [])"

definition scalar_text :: "'d json_node \<Rightarrow> string" where
  "scalar_text node =
     (case jn_type node of
        JSON_BOOLEAN \<Rightarrow> if jn_data node = JBool True then ''true'' else ''false''
      | JSON_NULL \<Rightarrow> ''null''
      | JSON_STRING \<Rightarrow> str_text (case jn_data node of JStr s \<Rightarrow> snd s | _ \<Rightarrow> [])
      | JSON_NUMBER \<Rightarrow> int_text (jn_int node)
      | _ \<Rightarrow> [])"

function json_text :: "bool \<Rightarrow> nat \<Rightarrow> 'd json_node \<Rightarrow> string"
  and children_text :: "bool \<Rightarrow> nat \<Rightarrow> bool \<Rightarrow> 'd json_node list \<Rightarrow> string" where
  "json_text fm ind node =
     (if jn_type node = JSON_NODE \<or> jn_type node = JSON_ARRAY then
        (let is_node = (jn_type node = JSON_NODE) in
         [if is_node then CHR ''{'' else CHR ''[''] @ lf fm @
         children_text fm (ind + json_write_node_indent) is_node (jn_child_head node) @
         spaces fm ind @ [if is_node then CHR ''}'' else CHR '']''] @ lf (fm \<and> ind = 0))
      else scalar_text node)"
| "children_text fm ind is_node [] = []"
| "children_text fm ind is_node (child # chs) =
     spaces fm ind @ name_text is_node fm (jn_name child) @ json_text fm ind child @
     (if chs \<noteq> [] then [CHR '',''] else []) @ lf fm @ children_text fm ind is_node chs"
  by pat_completeness auto
termination
  by (relation "measure (\<lambda>x. case x of Inl (_, _, n) \<Rightarrow> size n | Inr (_, _, _, ns) \<Rightarrow> size_list size ns)")
     (auto simp: jn_child_head_def split: json_node.splits)

declare json_text.simps [simp del]

text \<open>
  Trees the writer writes without undefined behaviour and the parser reads back: well-formed,
  with 7-bit strings without \<open>NUL\<close> and 64-bit integers.
\<close>

definition ascii :: "string \<Rightarrow> bool" where
  "ascii s \<longleftrightarrow> (\<forall>c \<in> set s. 0 < (of_char c :: nat) \<and> of_char c < (128 :: nat))"

definition scalar_plain :: "json_type \<Rightarrow> bool \<Rightarrow> 'd jn_data \<Rightarrow> bool" where
  "scalar_plain t i d =
     (case t of
        JSON_STRING \<Rightarrow> (case d of JStr s \<Rightarrow> ascii (snd s) | _ \<Rightarrow> False)
      | JSON_NUMBER \<Rightarrow> i \<and> (case d of JInt v \<Rightarrow> - (2 ^ 63) \<le> v \<and> v \<le> 2 ^ 63 - 1 | _ \<Rightarrow> False)
      | JSON_BOOLEAN \<Rightarrow> (case d of JBool _ \<Rightarrow> True | _ \<Rightarrow> False)
      | JSON_NULL \<Rightarrow> True | JSON_NODE \<Rightarrow> True | JSON_ARRAY \<Rightarrow> True | _ \<Rightarrow> False)"

fun json_plain :: "'d json_node \<Rightarrow> bool" where
  "json_plain (Json_Node n t i u d c ch) \<longleftrightarrow>
     (case n of None \<Rightarrow> True | Some s \<Rightarrow> ascii (snd s)) \<and> scalar_plain t i d \<and> (\<forall>x \<in> set ch. json_plain x)"

section \<open>The contract of a sink\<close>

text \<open>
  \<open>rep s out\<close> relates the sink's state to the characters sent to it so far, \<open>ok\<close> says which
  outputs it accepts.
\<close>

lemma write_if_simps [simp]: "write_if True f s = f s" "write_if False f s = s"
  by (simp_all add: write_if_def)

lemma of_digit_char: "n < 10 \<Longrightarrow> of_char (digit_char n) = 48 + n"
  by (simp add: digit_char_def of_char_of)

lemma digit_char_not_NUL: "n < 10 \<Longrightarrow> digit_char n \<noteq> NUL"
  using of_digit_char [of n] by (auto simp: NUL_def)

lemma NUL_nat_text: "NUL \<notin> set (nat_text n)"
proof (induction n rule: nat_text.induct)
  case (1 n)
  then show ?case by (subst nat_text.simps) (auto simp: digit_char_not_NUL dest: sym [of NUL])
qed

lemma NUL_int_text: "NUL \<notin> set (int_text i)"
  by (auto simp: int_text_def NUL_nat_text) (simp add: NUL_def)

lemma length_nat_text: "n < 10 ^ k \<Longrightarrow> 0 < k \<Longrightarrow> length (nat_text n) \<le> k"
proof (induction n arbitrary: k rule: nat_text.induct)
  case (1 n)
  show ?case
  proof (cases "n < 10")
    case True
    then show ?thesis using 1(3) by (subst nat_text.simps) simp
  next
    case False
    then obtain j where k: "k = Suc j" "0 < j" using 1(2,3) by (cases k; cases "k - 1") auto
    then have "length (nat_text (n div 10)) \<le> j" using False 1(2) by (intro 1(1)) auto
    then show ?thesis using False k by (subst nat_text.simps) simp
  qed
qed

lemma length_int_text:
  assumes "- (2 ^ 63) \<le> i" and "i \<le> 2 ^ 63 - 1"
  shows "length (int_text i) \<le> 31"
proof -
  have "length (nat_text (nat \<bar>i\<bar>)) \<le> 19" using assms by (intro length_nat_text) auto
  then show ?thesis by (auto simp: int_text_def)
qed

lemma NUL_escape: "json_escape c = Some e \<Longrightarrow> NUL \<notin> set e"
  by (auto simp: json_escape_def NUL_def split: if_splits)

lemma char_eq_code: "c = d \<longleftrightarrow> of_char c = (of_char d :: nat)"
  by simp

lemma json_escape_iff:
  assumes "of_char c < (128 :: nat)"
  shows "(json_escape_table ! of_char c = 1) = (json_escape c \<noteq> None)"
  using assms by (simp add: json_escape_table_def json_escape_def char_eq_code del: of_char_eq_iff)

locale json_sink =
  fixes w :: "'s json_writer" and rep :: "'s \<Rightarrow> char list \<Rightarrow> bool" and ok :: "char list \<Rightarrow> bool"
  assumes rep_byte: "rep s out \<Longrightarrow> rep (write_byte w c s) (out @ [c])"
    and rep_string: "rep s out \<Longrightarrow> NUL \<notin> set x \<Longrightarrow> rep (write_string w x s) (out @ x)"
    and rep_array: "rep s out \<Longrightarrow> rep (write_byte_array w x s) (out @ x)"
    and error_ok: "rep s out \<Longrightarrow> writer_error w s = JSON_OK \<longleftrightarrow> ok out"
    and ok_prefix: "ok (out @ x) \<Longrightarrow> ok out"
begin

definition wrote :: "char list \<Rightarrow> string \<Rightarrow> ('s \<times> json_code) option \<Rightarrow> bool" where
  "wrote out t res \<longleftrightarrow>
     (\<exists>s e. res = Some (s, e) \<and> (e = JSON_OK \<longleftrightarrow> ok (out @ t)) \<and> (e = JSON_OK \<longrightarrow> rep s (out @ t)) \<and>
        (e \<noteq> JSON_OK \<longrightarrow> (\<exists>u. rep s (out @ u) \<and> \<not> ok (out @ u))))"

lemma rep_opt_array: "rep s out \<Longrightarrow> rep (if pend \<noteq> [] then write_byte_array w pend s else s) (out @ pend)"
  using rep_array by simp

lemma string_loop_rep:
  assumes "ascii str" and "rep s out"
  shows "\<exists>pend' s' out'. json_write_string_loop w str pend s = Some (pend', s') \<and> rep s' out' \<and>
    out' @ pend' = out @ pend @ concat (map char_text str)"
  using assms
proof (induction str arbitrary: pend s out)
  case Nil
  then show ?case by auto
next
  case (Cons c str)
  have c: "of_char c < (128 :: nat)" and str: "ascii str" using Cons.prems(1) by (auto simp: ascii_def)
  show ?case
  proof (cases "json_escape c")
    case None
    then have "json_write_string_loop w (c # str) pend s = json_write_string_loop w str (pend @ [c]) s"
      using c json_escape_iff [OF c] by simp
    with Cons.IH [OF str Cons.prems(2), of "pend @ [c]"] None show ?thesis by (simp add: char_text_def)
  next
    case (Some e)
    let ?s = "ESCAPE_CHARACTER w pend e s"
    have "rep ?s ((out @ pend) @ e)"
      unfolding ESCAPE_CHARACTER_def using Some NUL_escape Cons.prems(2) by (intro rep_string rep_opt_array) auto
    moreover have "json_write_string_loop w (c # str) pend s = json_write_string_loop w str [] ?s"
      using c json_escape_iff [OF c] Some by simp
    ultimately show ?thesis using Cons.IH [OF str, of ?s "(out @ pend) @ e" "[]"] Some by (simp add: char_text_def)
  qed
qed

lemma write_string_rep:
  assumes "ascii str" and "rep s out"
  shows "\<exists>s'. json_write_string w str s = Some (s', writer_error w s') \<and> rep s' (out @ str_text str)"
proof -
  from string_loop_rep [OF assms(1) rep_byte [OF assms(2), of "CHR 0x22"], of "[]"]
  obtain pend s1 out1 where l: "json_write_string_loop w str [] (write_byte w (CHR 0x22) s) = Some (pend, s1)"
    "rep s1 out1" "out1 @ pend = (out @ [CHR 0x22]) @ concat (map char_text str)" by auto
  have "rep (write_byte w (CHR 0x22) (if pend \<noteq> [] then write_byte_array w pend s1 else s1)) ((out1 @ pend) @ [CHR 0x22])"
    by (intro rep_byte rep_opt_array l(2))
  then show ?thesis using l(1) unfolding l(3) by (simp add: json_write_string_def str_text_def Let_def)
qed

lemma wrote_end:
  assumes "rep s (out @ t)"
  shows "wrote out t (Some (s, writer_error w s))"
  using assms error_ok by (auto simp: wrote_def)

lemma wrote_scalar:
  assumes plain: "json_plain node" and wf: "jn_wf node" and t: "jn_type node \<noteq> JSON_NODE" "jn_type node \<noteq> JSON_ARRAY"
    and "rep s out"
  shows "wrote out (json_text fm ind node) (json_write_impl df w fm ind node s)"
proof -
  obtain n ty i u d c ch where node: "node = Json_Node n ty i u d c ch" by (cases node)
  have sp: "scalar_plain ty i d" using plain node by simp
  have txt0: "json_text fm ind node = scalar_text node" using t by (simp add: json_text.simps)
  show ?thesis
  proof (cases ty)
    case JSON_STRING
    then obtain str where d: "d = JStr str" "ascii (snd str)" using sp by (auto simp: scalar_plain_def split: jn_data.splits)
    from write_string_rep [OF d(2) assms(5)] obtain s' where
      "json_write_string w (snd str) s = Some (s', writer_error w s')" "rep s' (out @ str_text (snd str))" by blast
    with wrote_end [OF this(2)] show ?thesis
      unfolding txt0 using node JSON_STRING d(1)
      by (cases "writer_error w s' = JSON_OK") (simp_all add: scalar_text_def json_write_end_def)
  next
    case JSON_NUMBER
    then obtain v where d: "d = JInt v" "i" "- (2 ^ 63) \<le> v" "v \<le> 2 ^ 63 - 1"
      using sp by (auto simp: scalar_plain_def split: jn_data.splits)
    let ?s = "write_string w (int_text v) s"
    have "rep ?s (out @ int_text v)" by (intro rep_string assms(5) NUL_int_text)
    from wrote_end [OF this] length_int_text [OF d(3,4)] d(1,2) JSON_NUMBER node show ?thesis
      unfolding txt0
      by (cases "writer_error w ?s = JSON_OK")
         (simp_all add: scalar_text_def json_write_end_def json_write_number_def jn_int_def Let_def)
  next
    case JSON_BOOLEAN
    let ?s = "write_string w (if d = JBool True then ''true'' else ''false'') s"
    have "rep ?s (out @ (if d = JBool True then ''true'' else ''false''))"
      by (intro rep_string assms(5)) (simp add: NUL_def)
    from wrote_end [OF this] node JSON_BOOLEAN show ?thesis
      unfolding txt0 by (simp add: scalar_text_def json_write_end_def)
  next
    case JSON_NULL
    let ?s = "write_string w ''null'' s"
    have "rep ?s (out @ ''null'')" by (intro rep_string assms(5)) (simp add: NUL_def)
    from wrote_end [OF this] node JSON_NULL show ?thesis
      unfolding txt0 by (simp add: scalar_text_def json_write_end_def)
  qed (use sp t node in \<open>auto simp: scalar_plain_def\<close>)
qed

lemma rep_if:
  assumes "rep s out" and "\<And>s out. rep s out \<Longrightarrow> rep (f s) (out @ t)" and "t' = (if b then t else [])"
  shows "rep (write_if b f s) (out @ t')"
  using assms by (cases b) auto

lemma write_name_rep:
  assumes "rep s out" and "is_node \<Longrightarrow> \<exists>str. name = Some str \<and> ascii (snd str)"
  shows "\<exists>s'. json_write_name w is_node fm name s = Some s' \<and> rep s' (out @ name_text is_node fm name)"
proof (cases is_node)
  case True
  then obtain str where n: "name = Some str" "ascii (snd str)" using assms(2) by blast
  from write_string_rep [OF n(2) assms(1)] obtain s1 where s1: "json_write_string w (snd str) s = Some (s1, writer_error w s1)"
    "rep s1 (out @ str_text (snd str))" by blast
  have "rep (write_if fm (write_byte w (CHR '' '')) (write_byte w (CHR '':'') s1))
      (((out @ str_text (snd str)) @ [CHR '':'']) @ spaces fm 1)"
    by (rule rep_if [OF rep_byte [OF s1(2)], where t = "[CHR '' '']"]) (auto intro: rep_byte simp: spaces_def)
  then show ?thesis using True n(1) s1(1) by (simp add: json_write_name_def name_text_def)
qed (use assms in \<open>simp add: json_write_name_def name_text_def\<close>)

text \<open>The weaker outcome of the loop over the children, which does not ask the sink for errors.\<close>

definition wrote_part :: "char list \<Rightarrow> string \<Rightarrow> ('s \<times> json_code) option \<Rightarrow> bool" where
  "wrote_part out t res \<longleftrightarrow>
     (\<exists>s e. res = Some (s, e) \<and> (e = JSON_OK \<longrightarrow> rep s (out @ t)) \<and>
        (e \<noteq> JSON_OK \<longrightarrow> \<not> ok (out @ t) \<and> (\<exists>u. rep s (out @ u) \<and> \<not> ok (out @ u))))"

lemma wrote_part_shift: "wrote_part (out @ p) t res \<Longrightarrow> wrote_part out (p @ t) res"
  unfolding wrote_part_def by (metis append.assoc)

lemma write_tree:
  shows "jn_wf node \<Longrightarrow> json_plain node \<Longrightarrow> rep s out \<Longrightarrow>
      wrote out (json_text fm ind node) (json_write_impl df w fm ind node s)"
    and "(\<And>x. x \<in> set chs \<Longrightarrow> jn_wf x \<and> json_plain x \<and> (is_node \<longrightarrow> jn_name x \<noteq> None)) \<Longrightarrow> rep s out \<Longrightarrow>
      wrote_part out (children_text fm ind is_node chs) (json_write_children df w fm ind is_node chs s)"
proof (induction fm ind node and fm ind is_node chs arbitrary: s out and s out rule: json_text_children_text.induct)
  case (1 fm ind node)
  show ?case
  proof (cases "jn_type node = JSON_NODE \<or> jn_type node = JSON_ARRAY")
    case False
    then show ?thesis using wrote_scalar "1.prems" by blast
  next
    case True
    define is_node where "is_node = (jn_type node = JSON_NODE)"
    let ?s1 = "write_byte w (if is_node then CHR ''{'' else CHR ''['') s"
    let ?s2 = "write_if fm (write_byte w (CHR 0x0A)) ?s1"
    let ?out2 = "(out @ [if is_node then CHR ''{'' else CHR ''['']) @ lf fm"
    let ?ct = "children_text fm (ind + json_write_node_indent) is_node (jn_child_head node)"
    have r2: "rep ?s2 ?out2"
      by (rule rep_if [where t = "[CHR 0x0A]"]) (auto intro: rep_byte "1.prems"(3) simp: lf_def)
    have ch: "jn_wf x \<and> json_plain x \<and> (is_node \<longrightarrow> jn_name x \<noteq> None)" if "x \<in> set (jn_child_head node)" for x
      using that "1.prems"(1,2) jn_wf_children(2,3) [OF "1.prems"(1)] by (cases node) (auto simp: is_node_def)
    have "wrote_part ?out2 ?ct (json_write_children df w fm (ind + json_write_node_indent) is_node (jn_child_head node) ?s2)"
      using "1.IH" [OF True is_node_def ch r2] .
    then obtain s3 e where c: "json_write_children df w fm (ind + json_write_node_indent) is_node (jn_child_head node) ?s2 = Some (s3, e)"
      "e = JSON_OK \<Longrightarrow> rep s3 (?out2 @ ?ct)"
      "e \<noteq> JSON_OK \<Longrightarrow> \<not> ok (?out2 @ ?ct) \<and> (\<exists>u. rep s3 (?out2 @ u) \<and> \<not> ok (?out2 @ u))"
      unfolding wrote_part_def by blast
    let ?fin = "spaces fm ind @ [if is_node then CHR ''}'' else CHR '']''] @ lf (fm \<and> ind = 0)"
    have t: "out @ json_text fm ind node = (?out2 @ ?ct) @ ?fin" using True by (simp add: json_text.simps is_node_def Let_def)
    show ?thesis
    proof (cases "e = JSON_OK")
      case False
      then have "\<not> ok (out @ json_text fm ind node)" using c(3) ok_prefix unfolding t by blast
      moreover have "\<exists>u. rep s3 (out @ u) \<and> \<not> ok (out @ u)" using c(3) [OF False] by (metis append.assoc)
      ultimately show ?thesis using True False c(1) by (simp add: wrote_def is_node_def Let_def)
    next
      case ok: True
      let ?s4 = "write_if (fm \<and> ind + json_write_node_indent > json_write_node_indent)
          (write_byte_array w (replicate ind (CHR '' ''))) s3"
      let ?s5 = "write_byte w (if is_node then CHR ''}'' else CHR '']'') ?s4"
      let ?s6 = "write_if (fm \<and> ind = 0) (write_byte w (CHR 0x0A)) ?s5"
      have r4: "rep ?s4 ((?out2 @ ?ct) @ spaces fm ind)"
        by (rule rep_if [OF c(2) [OF ok], where t = "replicate ind (CHR '' '')"]) (auto intro: rep_array simp: spaces_def)
      have "rep ?s6 ((((?out2 @ ?ct) @ spaces fm ind) @ [if is_node then CHR ''}'' else CHR '']'']) @ lf (fm \<and> ind = 0))"
        by (rule rep_if [OF rep_byte [OF r4], where t = "[CHR 0x0A]"]) (auto intro: rep_byte simp: lf_def)
      then have "rep ?s6 (out @ json_text fm ind node)" unfolding t by simp
      from wrote_end [OF this] True ok c(1) show ?thesis by (simp add: is_node_def Let_def)
    qed
  qed
next
  case (2 fm ind is_node)
  then show ?case by (simp add: wrote_part_def)
next
  case (3 fm ind is_node child chs)
  have child: "jn_wf child" "json_plain child" "is_node \<Longrightarrow> \<exists>str. jn_name child = Some str \<and> ascii (snd str)"
    using "3.prems"(1) [of child] by (auto, cases child, auto split: option.splits)
  let ?s1 = "write_if fm (write_byte_array w (replicate ind (CHR '' ''))) s"
  have "rep ?s1 (out @ spaces fm ind)"
    by (rule rep_if [where t = "replicate ind (CHR '' '')"]) (auto intro: rep_array "3.prems"(2) simp: spaces_def)
  from write_name_rep [of _ _ is_node, OF this child(3)] obtain s2 where
    s2: "json_write_name w is_node fm (jn_name child) ?s1 = Some s2"
      "rep s2 ((out @ spaces fm ind) @ name_text is_node fm (jn_name child))" by blast
  let ?out2 = "(out @ spaces fm ind) @ name_text is_node fm (jn_name child)"
  from "3.IH"(1) [OF child(1,2) s2(2)] obtain s3 e where
    c: "json_write_impl df w fm ind child s2 = Some (s3, e)"
      "e = JSON_OK \<longleftrightarrow> ok (?out2 @ json_text fm ind child)" "e = JSON_OK \<Longrightarrow> rep s3 (?out2 @ json_text fm ind child)"
      "e \<noteq> JSON_OK \<Longrightarrow> \<exists>u. rep s3 (?out2 @ u) \<and> \<not> ok (?out2 @ u)"
    unfolding wrote_def by blast
  let ?sep = "if chs \<noteq> [] then [CHR '',''] else []"
  have t: "out @ children_text fm ind is_node (child # chs) =
      ((?out2 @ json_text fm ind child) @ ?sep @ lf fm) @ children_text fm ind is_node chs" by simp
  show ?case
  proof (cases "e = JSON_OK")
    case False
    then have "\<not> ok (?out2 @ json_text fm ind child)" using c(2) by auto
    then have "\<not> ok (out @ children_text fm ind is_node (child # chs))" unfolding t using ok_prefix by (metis append.assoc)
    moreover have "\<exists>u. rep s3 (out @ u) \<and> \<not> ok (out @ u)" using c(4) [OF False] by (metis append.assoc)
    ultimately show ?thesis using False c(1) s2(1) by (simp add: wrote_part_def Let_def)
  next
    case True
    let ?s4 = "write_if (chs \<noteq> []) (write_byte w (CHR '','')) s3"
    let ?s5 = "write_if fm (write_byte w (CHR 0x0A)) ?s4"
    have "rep s3 (?out2 @ json_text fm ind child)" using True c(3) by blast
    then have "rep ?s4 ((?out2 @ json_text fm ind child) @ ?sep)"
      by (rule rep_if [where t = "[CHR '','']"]) (auto intro: rep_byte)
    then have "rep ?s5 (((?out2 @ json_text fm ind child) @ ?sep) @ lf fm)"
      by (rule rep_if [where t = "[CHR 0x0A]"]) (auto intro: rep_byte simp: lf_def)
    from "3.IH"(2) [OF _ this] "3.prems"(1)
    have "wrote_part (((?out2 @ json_text fm ind child) @ ?sep) @ lf fm) (children_text fm ind is_node chs)
        (json_write_children df w fm ind is_node chs ?s5)" by simp
    then have "wrote_part out (children_text fm ind is_node (child # chs)) (json_write_children df w fm ind is_node chs ?s5)"
      using wrote_part_shift [of out "spaces fm ind @ name_text is_node fm (jn_name child) @ json_text fm ind child @ ?sep @ lf fm"]
      by simp
    then show ?thesis using True c(1) s2(1) by (simp add: Let_def)
  qed
qed

end

section \<open>The three sinks keep the contract\<close>

interpretation count_sink: json_sink json_writer_count "\<lambda>n out. n = Suc (length out)" "\<lambda>_. True"
  by unfold_locales (simp_all add: json_writer_count_def)

text \<open>
  A buffer of \<open>sz\<close> bytes, followed by memory \<open>behind\<close> that is not the writer's. In a buffer of no
  bytes the pointer never moves.
\<close>

definition buf_rep :: "nat \<Rightarrow> char list \<Rightarrow> json_buf_state \<Rightarrow> char list \<Rightarrow> bool" where
  "buf_rep sz behind b out \<longleftrightarrow>
     bs_len b = length out \<and> bs_sz b = sz \<and> length (bs_buf b) = sz + length behind \<and> drop sz (bs_buf b) = behind \<and>
     (length out < sz \<longrightarrow> bs_ptr b = length out \<and> take (length out) (bs_buf b) = out) \<and>
     (sz = 0 \<longrightarrow> bs_ptr b = 0)"

lemma take_bput_le: "n \<le> i \<Longrightarrow> take n (bput buf i bs) = take n buf"
  by (induction bs arbitrary: buf i) auto

lemma bput_append: "bput buf i (xs @ ys) = bput (bput buf i xs) (i + length xs) ys"
  by (induction xs arbitrary: buf i) auto

lemma buf_rep_put:
  assumes "buf_rep sz behind b out" and "length out + length a < sz" and "length a + length z \<le> sz - length out"
  shows "buf_rep sz behind (b\<lparr>bs_len := length out + length a, bs_buf := bput (bs_buf b) (bs_ptr b) (a @ z),
            bs_ptr := bs_ptr b + length a\<rparr>) (out @ a)"
proof -
  let ?buf = "bs_buf b"
  have b: "bs_ptr b = length out" "take (length out) ?buf = out" "length out + length a \<le> length ?buf"
    using assms by (auto simp: buf_rep_def)
  have "take (length out + length a) (bput ?buf (length out) a) = out @ a"
    using take_bput [of "length out" a ?buf] b by simp
  moreover have "take (length out + length a) (bput (bput ?buf (length out) a) (length out + length a) z) =
      take (length out + length a) (bput ?buf (length out) a)" by (rule take_bput_le) simp
  ultimately show ?thesis
    using assms b(1) by (simp add: buf_rep_def bput_append)
qed

lemma buf_rep_full:
  assumes "buf_rep sz behind b out" and "sz \<le> length out + n" and "length a = n"
  shows "buf_rep sz behind (b\<lparr>bs_len := length out + n\<rparr>) (out @ a)"
  using assms by (simp add: buf_rep_def)

lemma bput_single: "buf[i := c] = bput buf i ([c] @ [])"
  by simp

interpretation buf_sink: json_sink json_writer_buf "buf_rep sz behind" "\<lambda>out. length out < sz" for sz behind
proof
  fix b out c
  assume r: "buf_rep sz behind b out"
  then have l: "bs_len b = length out" "bs_sz b = sz" by (simp_all add: buf_rep_def)
  show "buf_rep sz behind (write_byte json_writer_buf c b) (out @ [c])"
    using buf_rep_put [OF r, of "[c]" "[]"] buf_rep_full [OF r, of 1 "[c]"] l
    by (cases "sz \<le> length out + 1") (simp_all add: json_writer_buf_def json_write_byte_buf_def Let_def)
next
  fix b out x
  assume r: "buf_rep sz behind b out" and nul: "NUL \<notin> set x"
  then have l: "bs_len b = length out" "bs_sz b = sz" by (simp_all add: buf_rep_def)
  show "buf_rep sz behind (write_string json_writer_buf x b) (out @ x)"
    using buf_rep_put [OF r, of x "[NUL]"] buf_rep_full [OF r, of "length x" x] l nul
    by (cases "sz \<le> length out + length x") (simp_all add: json_writer_buf_def json_write_string_buf_def Let_def)
next
  fix b out x
  assume r: "buf_rep sz behind b out"
  then have l: "bs_len b = length out" "bs_sz b = sz" by (simp_all add: buf_rep_def)
  show "buf_rep sz behind (write_byte_array json_writer_buf x b) (out @ x)"
    using buf_rep_put [OF r, of x "[]"] buf_rep_full [OF r, of "length x" x] l
    by (cases "sz \<le> length out + length x") (simp_all add: json_writer_buf_def json_write_byte_array_buf_def Let_def)
qed (auto simp: json_writer_buf_def json_writer_error_buf_def buf_rep_def)

definition file_rep :: "char list \<Rightarrow> nat \<Rightarrow> json_file \<Rightarrow> char list \<Rightarrow> bool" where
  "file_rep base room0 f out \<longleftrightarrow>
     jf_out f = base @ take room0 out \<and> jf_room f = room0 - length out \<and> (jf_error f \<longleftrightarrow> room0 < length out)"

lemma file_rep_put: "file_rep base room0 f out \<Longrightarrow> file_rep base room0 (json_fput a f) (out @ a)"
  by (cases "room0 < length out") (auto simp: file_rep_def json_fput_def)

interpretation file_sink: json_sink json_writer_file "file_rep base room0" "\<lambda>out. length out \<le> room0" for base room0
  by unfold_locales (auto simp: json_writer_file_def intro: file_rep_put, auto simp: file_rep_def)

section \<open>Properties of the writer\<close>

text \<open>
  \<open>json_write_count\<close> returns the number of bytes of the text and one for the terminator, for
  either layout.
\<close>

theorem json_write_count_correct:
  assumes "jn_wf node" and "json_plain node"
  shows "json_write_count df node fm = Some (Inr (Suc (length (json_text fm 0 node))))"
  using count_sink.write_tree(1) [OF assms, of 1 "[]" fm 0 df]
  by (auto simp: json_write_count_def count_sink.wrote_def)

definition demo_tree :: "nat json_node" where
  "demo_tree = json_add_node (json_add_node (json_new_node None) (Some (JSON_STR_CONST, ''a'')) (json_new_integer (-42)))
     (Some (JSON_STR_CONST, ''b''))
     (json_add_node (json_add_node json_new_array None (json_new_boolean True)) None
        (json_new_string (JSON_STR_CONST, [CHR ''x'', CHR 0x0A])))"

lemmas demo_tree_simps = demo_tree_def json_add_node_def json_new_node_def json_node_create_def
  json_new_integer_def json_new_string_def json_new_boolean_def json_new_array_def

lemma demo_tree_ok: "jn_wf demo_tree" "json_plain demo_tree" "jn_type demo_tree = JSON_NODE" "jn_name demo_tree = None"
  by (simp_all add: demo_tree_simps scalar_plain_def ascii_def)

definition demo_format :: "nat double_format" where
  "demo_format = \<lparr>df_large = (\<lambda>_. False), df_exp = (\<lambda>_. []), df_fixed = (\<lambda>_. [])\<rparr>"

lemma demo_tree_text_length: "length (json_text False 0 demo_tree) = 26"
proof -
  have "int_text (-42) = ''-42''" by code_simp
  then show ?thesis
    by (simp add: demo_tree_simps json_text.simps Let_def lf_def spaces_def name_text_def str_text_def char_text_def json_escape_def
        scalar_text_def jn_int_def)
qed

theorem json_write_count_correct_witness:
  "json_write_count demo_format demo_tree False = Some (Inr 27)"
  using json_write_count_correct [OF demo_tree_ok(1,2), of demo_format False] unfolding demo_tree_text_length by simp

text \<open>
  C16. \<open>json_write_buf\<close> succeeds exactly when the text and a terminator fit into the \<open>len\<close> bytes it
  was given; then the buffer starts with the text, followed by a terminator when there is room
  for one more byte still. Whatever the outcome, it never writes behind the \<open>len\<close> bytes, except
  for \<open>len = 0\<close>: then it fails, and the test \<open>state.len < (state.sz - 1)\<close> of the unsigned sizes,
  which wraps, may still put one NUL byte at the start of the buffer, which was not given to it.
  The tree holds objects, arrays, 7-bit strings, integers, booleans and nulls (\<open>json_plain\<close>).
\<close>

theorem json_write_buf_bounded:
  assumes "jn_wf node" and "json_plain node" and "len \<le> length buf" and "length buf < 2 ^ 64"
  shows "\<exists>buf' code. json_write_buf df node buf len fm = Some (buf', code) \<and> length buf' = length buf \<and>
    (if len = 0 then buf' = buf \<or> buf' = buf[0 := NUL] else drop len buf' = drop len buf) \<and>
    (code = JSON_OK \<longleftrightarrow> length (json_text fm 0 node) < len) \<and>
    (code = JSON_OK \<longrightarrow> take (length (json_text fm 0 node)) buf' = json_text fm 0 node) \<and>
    (Suc (length (json_text fm 0 node)) < len \<longrightarrow> buf' ! length (json_text fm 0 node) = NUL)"
proof -
  let ?t = "json_text fm 0 node" and ?b = "\<lparr>bs_buf = buf, bs_ptr = 0, bs_len = 0, bs_sz = len\<rparr>"
  have "buf_rep len (drop len buf) ?b []" using assms(3) by (simp add: buf_rep_def)
  then have w: "buf_sink.wrote len (drop len buf) [] ?t (json_write_impl df json_writer_buf fm 0 node ?b)"
    by (rule buf_sink.write_tree(1) [OF assms(1,2)])
  then obtain b code where r: "json_write_impl df json_writer_buf fm 0 node ?b = Some (b, code)"
    "code = JSON_OK \<longleftrightarrow> length ?t < len" "code = JSON_OK \<Longrightarrow> buf_rep len (drop len buf) b ?t"
    "code \<noteq> JSON_OK \<Longrightarrow> \<exists>u. buf_rep len (drop len buf) b u \<and> \<not> length u < len"
    by (auto simp: buf_sink.wrote_def)
  show ?thesis
  proof (cases "code = JSON_OK")
    case True
    then have sub: "size_sub len 1 = len - 1" using r(2) assms(3,4) by (intro size_sub_le) linarith+
    from True r(3) have "bs_len b = length ?t" "bs_ptr b = length ?t" "bs_sz b = len" "take (length ?t) (bs_buf b) = ?t"
      "length (bs_buf b) = length buf" "drop len (bs_buf b) = drop len buf" "length ?t < len"
      using r(2) assms(3) by (auto simp: buf_rep_def)
    then show ?thesis using True r(1,2) sub assms(3) by (auto simp: json_write_buf_def)
  next
    case False
    with r(4) obtain u where "buf_rep len (drop len buf) b u" "\<not> length u < len" by blast
    then have b: "bs_len b \<ge> len" "bs_sz b = len" "length (bs_buf b) = length buf" "drop len (bs_buf b) = drop len buf"
      "len = 0 \<longrightarrow> bs_ptr b = 0"
      using assms(3) by (auto simp: buf_rep_def)
    show ?thesis
    proof (cases "len = 0")
      case True
      then show ?thesis using False r(1,2) b by (auto simp: json_write_buf_def)
    next
      case pos: False
      then have "size_sub len 1 = len - 1" using assms(3,4) by (intro size_sub_le) linarith+
      then show ?thesis using False pos r(1,2) b by (auto simp: json_write_buf_def)
    qed
  qed
qed

theorem json_write_buf_bounded_witness:
  "\<exists>buf' code. json_write_buf demo_format demo_tree (replicate 40 (CHR ''#'')) 20 False = Some (buf', code) \<and>
    code \<noteq> JSON_OK \<and> drop 20 buf' = replicate 20 (CHR ''#'')"
  using json_write_buf_bounded [OF demo_tree_ok(1,2), of 20 "replicate 40 (CHR ''#'')" demo_format False]
  unfolding demo_tree_text_length by auto

text \<open>A literal written to a buffer of no bytes: the terminator lands behind the given length.\<close>

lemma json_write_buf_no_bytes:
  "json_write_buf df (json_new_boolean b) buf 0 fm = Some (buf[0 := NUL], JSON_BUFFER_OVERFLOW)"
  by (simp add: json_write_buf_def json_new_boolean_def json_node_create_def json_write_end_def json_writer_buf_def
      json_write_string_buf_def json_writer_error_buf_def size_sub_def cstr_def)

text \<open>
  A buffer of exactly \<open>json_write_count\<close> bytes is filled without an error, but the text is not
  terminated: the test before the terminator is off by one.
\<close>

theorem json_write_buf_unterminated:
  "json_write_count df (json_new_array :: nat json_node) False = Some (Inr 3) \<and>
   json_write_buf df (json_new_array :: nat json_node) [CHR ''X'', CHR ''X'', CHR ''X''] 3 False =
     Some ([CHR ''['', CHR '']'', CHR ''X''], JSON_OK)"
  by (simp add: json_write_count_def json_write_buf_def json_new_array_def json_node_create_def Let_def
      json_writer_count_def json_writer_buf_def json_write_byte_buf_def json_writer_error_buf_def size_sub_def)

end
