(* ===== verification/JsonRoundTrip.thy ===== *)
theory JsonRoundTrip
  imports JsonWriter
begin

text \<open>
  The parser reads back what the writer wrote: \<open>json_parse\<close> of the text of a tree, in either
  layout, is the tree with the strings' tags, the touch marks and the unused fields reset.
\<close>

section \<open>What is ahead of the parser\<close>

definition ahead :: "jparser \<Rightarrow> char list \<Rightarrow> bool" where
  "ahead st txt \<longleftrightarrow> drop (index st) (jbuf st) = txt"

lemma ahead_cur: "ahead st (c # r) \<Longrightarrow> cur_char st = c"
  by (simp add: ahead_def cur_char_def bget_drop)

lemma ahead_inc: "ahead st (c # r) \<Longrightarrow> ahead (INC_STATE st) r"
  by (simp add: ahead_def drop_drop_Cons)

lemma ahead_lt: "ahead st (c # r) \<Longrightarrow> index st < length (jbuf st)"
  unfolding ahead_def by (metis drop_all list.distinct(1) not_le)

definition blank :: "char list \<Rightarrow> bool" where
  "blank w \<longleftrightarrow> set w \<subseteq> {CHR '' '', CHR 0x0A}"

lemma blank_simps [simp]: "blank []" "blank (spaces fm n)" "blank (lf fm)" "blank (v @ w) \<longleftrightarrow> blank v \<and> blank w"
  by (auto simp: blank_def spaces_def lf_def)

definition solid :: "char \<Rightarrow> bool" where
  "solid c \<longleftrightarrow> json_whitespace_table ! of_char c = JSON_NOTSPACE"

lemma skip_whitespace_loop_blank:
  assumes "drop idx buf = w @ c # r" and "blank w" and "solid c"
  shows "\<exists>ln' nl'. skip_whitespace_loop buf ln nl idx = (ln', nl', idx + length w)"
  using assms
proof (induction w arbitrary: idx ln nl)
  case Nil
  then have "idx < length buf" "buf ! idx = c" by (metis append_Nil drop_all list.distinct(1) not_le, simp add: nth_via_drop)
  then show ?case using Nil.prems(3) by (subst skip_whitespace_loop.simps) (auto simp: Let_def solid_def)
next
  case (Cons x w)
  have i: "idx < length buf" using Cons.prems(1) by (metis append_Cons drop_all list.distinct(1) not_le)
  have x: "buf ! idx = x" using Cons.prems(1) by (simp add: nth_via_drop)
  have "x = CHR '' '' \<or> x = CHR 0x0A" using Cons.prems(2) by (auto simp: blank_def)
  then have m: "json_whitespace_table ! of_char x \<noteq> JSON_NOTSPACE"
    by (auto simp: json_whitespace_table_def JSON_NOTSPACE_def nth_append numeral_eq_Suc)
  have "drop (Suc idx) buf = w @ c # r" using drop_drop_Cons Cons.prems(1) by auto
  then have "\<exists>ln' nl'. skip_whitespace_loop buf ln nl (Suc idx) = (ln', nl', Suc idx + length w)" for ln nl
    using Cons.prems(2,3) by (intro Cons.IH) (auto simp: blank_def)
  then show ?case using i x m by (subst skip_whitespace_loop.simps) (simp add: Let_def)
qed

lemma skip_whitespace_blank:
  assumes "ahead st (w @ c # r)" and "blank w" and "solid c"
  obtains st' where "skip_whitespace st = (True, st')" "ahead st' (c # r)" "length (jbuf st') = length (jbuf st)"
proof -
  obtain ln nl where l: "skip_whitespace_loop (jbuf st) (lineno st) (newline st) (index st) = (ln, nl, index st + length w)"
    using skip_whitespace_loop_blank [of "index st" "jbuf st"] assms unfolding ahead_def by blast
  have "ahead (st\<lparr>lineno := ln, newline := nl, index := index st + length w\<rparr>) (c # r)"
    using assms(1) drop_plus unfolding ahead_def by fastforce
  with ahead_lt [OF this] l that show ?thesis by (simp add: skip_whitespace_def)
qed

section \<open>Scalars\<close>

lemma digit_char_digit:
  assumes "n < 10"
  shows "is_digit (digit_char n)" "digit_val (digit_char n) = int n"
proof -
  have "of_char (digit_char n) = (48 + n :: nat)" using assms by (rule of_digit_char)
  then have "of_char (digit_char n) = (48 + int n :: int)" by (metis of_nat_add of_nat_numeral of_nat_of_char)
  then show "is_digit (digit_char n)" "digit_val (digit_char n) = int n"
    using assms by (simp_all add: is_digit_def digit_val_def char_in_def char_val_def)
qed

lemma nat_text_digits: "\<forall>c \<in> set (nat_text n). is_digit c"
proof (induction n rule: nat_text.induct)
  case (1 n)
  then show ?case by (subst nat_text.simps) (auto simp: digit_char_digit)
qed

lemma nat_text_value: "dec_value (nat_text n) = int n"
proof (induction n rule: nat_text.induct)
  case (1 n)
  show ?case
  proof (cases "n < 10")
    case True
    then show ?thesis by (subst nat_text.simps) (simp add: dec_value_def digit_char_digit)
  next
    case False
    have "dec_value (nat_text n) = dec_value (nat_text (n div 10)) * 10 + int (n mod 10)"
      using False by (subst nat_text.simps) (simp add: dec_value_def digit_char_digit del: of_nat_mod zmod_int)
    also have "\<dots> = int (n div 10) * 10 + int (n mod 10)" using 1 [OF False] by (simp only:)
    also have "\<dots> = int n" by presburger
    finally show ?thesis .
  qed
qed

lemma nat_text_ne: "nat_text n \<noteq> []"
  by (subst nat_text.simps) simp

lemma digit_char_class:
  assumes "is_digit c"
  shows "c \<noteq> CHR ''-''" "c \<noteq> CHR ''+''" "\<not> is_space c" "number_table_get c = JSON_NUM_MODE_INT"
  using assms by (auto simp: is_digit_def is_space_def number_table_get_def char_in_def char_val_def split: if_splits)

lemma number_scan_text:
  assumes "drop idx buf = ds @ c # r" and "\<forall>x \<in> set ds. number_table_get x = JSON_NUM_MODE_INT"
    and "number_table_get c = JSON_NUM_MODE_INVAL"
  shows "number_scan buf idx False = (idx + length ds, False)"
  using assms
proof (induction ds arbitrary: idx)
  case Nil
  then have "bget buf idx = c" using bget_drop by simp
  then show ?case using Nil.prems(3) by (subst number_scan.simps) (simp add: Let_def)
next
  case (Cons x ds)
  have x: "bget buf idx = x" using bget_drop Cons.prems(1) by simp
  have d: "drop (Suc idx) buf = ds @ c # r" using drop_drop_Cons Cons.prems(1) by auto
  have "Suc idx < length buf" using arg_cong [OF d, of length] by simp
  moreover have "number_scan buf (Suc idx) False = (Suc idx + length ds, False)" 
    using Cons.prems(2,3) by (intro Cons.IH d) auto
  ultimately show ?case using x Cons.prems(2) by (subst number_scan.simps) (simp add: Let_def)
qed

lemma int_text_cases:
  obtains sg n where "int_text i = sg @ nat_text n" "sg = [] \<and> i = int n \<or> sg = ''-'' \<and> i = - int n"
proof (cases "i < 0")
  case True
  then show ?thesis using that [of "''-''" "nat (- i)"] by (simp add: int_text_def)
next
  case False
  then show ?thesis using that [of "[]" "nat i"] by (simp add: int_text_def)
qed

lemma int_text_scan: "\<forall>c \<in> set (int_text i). number_table_get c = JSON_NUM_MODE_INT"
proof -
  obtain sg n where "int_text i = sg @ nat_text n" "sg = [] \<or> sg = ''-''" using int_text_cases by metis
  then show ?thesis using nat_text_digits [of n] digit_char_class(4) by (auto simp: number_table_get_def)
qed

lemma strtoll_int_text:
  assumes "- (2 ^ 63) \<le> i" and "i \<le> 2 ^ 63 - 1" and "\<not> is_digit c"
  shows "strtoll (int_text i @ c # r) = (i, length (int_text i), False)"
proof -
  obtain sg n where t: "int_text i = sg @ nat_text n" and sg: "sg = [] \<and> i = int n \<or> sg = ''-'' \<and> i = - int n"
    using int_text_cases .
  obtain d ds where d: "nat_text n = d # ds" using nat_text_ne by (cases "nat_text n") auto
  have cls: "is_digit d" "\<forall>x \<in> set ds. is_digit x" using nat_text_digits [of n] d by auto
  have tw: "takeWhile is_digit (d # ds @ c # r) = d # ds" using cls assms(3) by (simp add: takeWhile_tail)
  have v: "dec_value (d # ds) = int n" using nat_text_value [of n] d by simp
  have sp: "\<not> is_space (CHR ''-'')" by (simp add: is_space_def char_in_def char_val_def)
  from sg show ?thesis
  proof (elim disjE conjE)
    assume "sg = []" "i = int n"
    then show ?thesis
      using assms(1,2) t d v tw digit_char_class(1-3) [OF cls(1)] by (simp add: strtoll_def Let_def)
  next
    assume "sg = ''-''" "i = - int n"
    then show ?thesis
      using assms(1,2) t d v tw sp by (simp add: strtoll_def Let_def)
  qed
qed

lemma json_parse_number_text:
  assumes "ahead st (int_text i @ c # r)" and "- (2 ^ 63) \<le> i" and "i \<le> 2 ^ 63 - 1"
    and "number_table_get c = JSON_NUM_MODE_INVAL"
  obtains st' where "json_parse_number strtod st = (st', Inr (True, JInt i))" "ahead st' (c # r)" "jbuf st' = jbuf st"
proof -
  have d: "drop (index st) (jbuf st) = int_text i @ c # r" using assms(1) by (simp add: ahead_def)
  have "\<not> is_digit c" using assms(4) by (auto simp: number_table_get_def split: if_splits)
  then have "strtoll (drop (index st) (jbuf st)) = (i, length (int_text i), False)"
    unfolding d using assms(2,3) by (rule strtoll_int_text [rotated 2])
  moreover have "number_scan (jbuf st) (index st) False = (index st + length (int_text i), False)"
    using d int_text_scan assms(4) by (rule number_scan_text)
  ultimately have "json_parse_number strtod st = (PUT_STATE (index st + length (int_text i)) st, Inr (True, JInt i))"
    by (simp add: json_parse_number_def Let_def)
  moreover have "ahead (PUT_STATE (index st + length (int_text i)) st) (c # r)"
    using drop_plus [OF d] by (simp add: ahead_def)
  ultimately show ?thesis using that by simp
qed

lemma json_parse_literal_text:
  assumes "ahead st (lit @ c # r)" and "length (jbuf st) < 2 ^ 64" and "n = length lit"
  obtains st' where "json_parse_literal st lit n = (st', JSON_OK)" "ahead st' (c # r)" "jbuf st' = jbuf st"
proof -
  have d: "drop (index st) (jbuf st) = lit @ c # r" using assms(1) by (simp add: ahead_def)
  have len: "index st + n < length (jbuf st)" using arg_cong [OF d, of length] assms(3) by simp
  then have "size_sub (length (jbuf st)) n = length (jbuf st) - n" using assms(2) by (intro size_sub_le) auto
  moreover have "map (bget (jbuf st)) [index st..<index st + n] = lit"
  proof (rule nth_equalityI)
    fix k
    assume "k < length (map (bget (jbuf st)) [index st..<index st + n])"
    then show "map (bget (jbuf st)) [index st..<index st + n] ! k = lit ! k"
      using len assms(3) arg_cong [OF d, of "\<lambda>x. x ! k"] by (simp add: bget_def nth_append)
  qed (use assms(3) in simp)
  ultimately have "json_parse_literal st lit n = (PUT_STATE (index st + n) st, JSON_OK)"
    using len by (simp add: json_parse_literal_def Let_def)
  moreover have "ahead (PUT_STATE (index st + n) st) (c # r)" using drop_plus [OF d assms(3)] by (simp add: ahead_def)
  ultimately show ?thesis using that by simp
qed

lemma escape_scan_ok: "ascii s \<Longrightarrow> scan_ok (concat (map char_text s)) \<and> json_decode (concat (map char_text s)) = Some s"
  by (induction s) (auto simp: ascii_def char_text_def json_escape_def simple_escape_def)

lemma json_parse_string_quoted:
  assumes "ahead st (str_text s @ r)" and "ascii s"
  obtains st' where "json_parse_string st = (st', Inr (JSON_STR_REFERENCE, s))" "ahead st' r"
    "length (jbuf st') = length (jbuf st)"
proof -
  obtain st' q where q: "json_parse_string st = (st', q)" by force
  have "drop (index st) (jbuf st) = CHR 0x22 # concat (map char_text s) @ CHR 0x22 # r"
    using assms(1) by (simp add: ahead_def str_text_def)
  moreover have "NUL \<notin> set s" using assms(2) by (auto simp: ascii_def NUL_def)
  ultimately have "q = Inr (JSON_STR_REFERENCE, s) \<and> parsed_to st st' (length (concat (map char_text s)) + 2) r"
    using json_parse_string_text [OF _ _ _ _ q] escape_scan_ok [OF assms(2)] by blast
  then have "q = Inr (JSON_STR_REFERENCE, s)" "ahead st' r" by (auto simp: parsed_to_def ahead_def)
  moreover have "length (jbuf st') = length (jbuf st)" using json_parse_string_state [OF q] ahead_lt assms(1) by (simp add: str_text_def)
  ultimately show ?thesis using that q by simp
qed

section \<open>Trees\<close>

text \<open>The tree the parser builds: strings refer to the buffer, nothing is touched.\<close>

definition canon_str :: "json_str \<Rightarrow> json_str" where
  "canon_str s = (JSON_STR_REFERENCE, snd s)"

definition canon_data :: "json_type \<Rightarrow> 'd jn_data \<Rightarrow> 'd jn_data" where
  "canon_data t d =
     (case t of JSON_STRING \<Rightarrow> (case d of JStr s \<Rightarrow> JStr (canon_str s) | _ \<Rightarrow> d)
      | JSON_NUMBER \<Rightarrow> d | JSON_BOOLEAN \<Rightarrow> d | _ \<Rightarrow> JUnset)"

fun jn_canon :: "'d json_node \<Rightarrow> 'd json_node" where
  "jn_canon (Json_Node n t i u d c ch) =
     Json_Node (map_option canon_str n) t (t = JSON_NUMBER) False (canon_data t d) c (map jn_canon ch)"

definition container :: "'d json_node \<Rightarrow> bool" where
  "container node \<longleftrightarrow> jn_type node = JSON_NODE \<or> jn_type node = JSON_ARRAY"

text \<open>The new line behind a formatted tree belongs to the text but not to the tree.\<close>

definition trail :: "bool \<Rightarrow> nat \<Rightarrow> 'd json_node \<Rightarrow> string" where
  "trail fm ind node = (if container node then lf (fm \<and> ind = 0) else [])"

definition reads :: "jparser \<Rightarrow> 'd json_node \<Rightarrow> string \<Rightarrow> 'd json_parsed \<Rightarrow> bool" where
  "reads st node rest res \<longleftrightarrow>
     (\<exists>st'. res = Some (st', Inr node) \<and> ahead st' rest \<and> length (jbuf st') = length (jbuf st))"

lemma solid_close [simp]: "solid (CHR ''}'')" "solid (CHR '']'')" "solid (CHR '','')" "solid (CHR '':'')" "solid (CHR 0x22)"
  "solid (CHR ''{'')" "solid (CHR ''['')" "solid (CHR ''t'')" "solid (CHR ''f'')" "solid (CHR ''n'')" "solid (CHR ''-'')"
  by (simp_all add: solid_def json_whitespace_table_def JSON_NOTSPACE_def nth_append numeral_eq_Suc)

lemma solid_digit:
  assumes "is_digit c"
  shows "solid c"
proof -
  have i: "(of_char c :: int) = int (of_char c)" by (simp add: of_nat_of_char)
  have "48 \<le> (of_char c :: nat) \<and> (of_char c :: nat) \<le> 57"
    using assms nat_of_char_less_256 [of c] unfolding is_digit_def char_in_def char_val_def i
    by (auto split: if_splits simp del: nat_of_char_less_256)
  moreover then have "of_char c - (33 :: nat) < 223" by linarith
  ultimately show ?thesis by (simp add: solid_def json_whitespace_table_def JSON_NOTSPACE_def nth_append)
qed

lemma jn_set_name_twice [simp]: "jn_set_name n (jn_set_name k x) = jn_set_name n x"
  by (cases x) simp

lemma jn_set_name_same [simp]: "jn_set_name (jn_name x) x = x"
  by (cases x) simp

lemma jn_canon_simps [simp]: "jn_name (jn_canon x) = map_option canon_str (jn_name x)" "jn_type (jn_canon x) = jn_type x"
  by (cases x; simp)+

text \<open>The first character of a text.\<close>

lemma json_text_first:
  assumes "jn_wf node" and "json_plain node"
  obtains c r where "json_text fm ind node = c # r" "solid c" "c \<noteq> CHR '']''" "c \<noteq> CHR ''}''"
proof -
  obtain n t i u d k ch where nd: "node = Json_Node n t i u d k ch" by (cases node)
  obtain sg m where t: "int_text (jn_int node) = sg @ nat_text m" and sg: "sg = [] \<or> sg = ''-''" using int_text_cases by metis
  obtain x xs where x: "nat_text m = x # xs" using nat_text_ne by (cases "nat_text m") auto
  have dx: "is_digit x" using nat_text_digits [of m] x by simp
  then have num: "\<exists>c r. int_text (jn_int node) = c # r \<and> solid c \<and> c \<noteq> CHR '']'' \<and> c \<noteq> CHR ''}''"
    using t sg x solid_digit [OF dx] by (auto simp: is_digit_def char_in_def char_val_def)
  have "\<exists>c r. json_text fm ind node = c # r \<and> solid c \<and> c \<noteq> CHR '']'' \<and> c \<noteq> CHR ''}''"
    using assms num nd by (cases t) (auto simp: json_text.simps scalar_plain_def scalar_text_def str_text_def)
  then show ?thesis using that by blast
qed

lemma read_scalar:
  assumes node: "jn_wf node" "json_plain node" "\<not> container node"
    and at: "ahead st (w @ scalar_text node @ c # r)" "blank w" "number_table_get c = JSON_NUM_MODE_INVAL"
    and len: "length (jbuf st) < 2 ^ 64"
  shows "reads st (jn_set_name None (jn_canon node)) (c # r) (json_parse_value strtod (Suc fuel) st)"
proof -
  obtain n t i u d k where nd: "node = Json_Node n t i u d k []" and k: "k = 0"
    using node(1,3) by (cases node) (auto simp: container_def)
  obtain x xs where x: "scalar_text node = x # xs" "solid x"
    using json_text_first [OF node(1,2), of False 0] node(3) by (metis container_def json_text.simps)
  have "ahead st (w @ x # xs @ c # r)" using at(1) x(1) by simp
  from skip_whitespace_blank [OF this at(2) x(2)] obtain st1 where st1: "skip_whitespace st = (True, st1)"
    "ahead st1 (x # xs @ c # r)" "length (jbuf st1) = length (jbuf st)" .
  have a: "ahead st1 (scalar_text node @ c # r)" and cur: "cur_char st1 = x"
    using st1(2) x(1) ahead_cur by auto
  have len1: "length (jbuf st1) < 2 ^ 64" using len st1(3) by simp
  consider s where "t = JSON_STRING" "d = JStr s" "ascii (snd s)"
    | v where "t = JSON_NUMBER" "i" "d = JInt v" "- (2 ^ 63) \<le> v" "v \<le> 2 ^ 63 - 1"
    | "t = JSON_BOOLEAN" "d = JBool True" | "t = JSON_BOOLEAN" "d = JBool False" | "t = JSON_NULL"
    using node nd by (cases t; cases d) (auto simp: scalar_plain_def container_def)
  then show ?thesis
  proof cases
    case 1
    have q: "x = CHR 0x22" using x(1) nd 1 by (simp add: scalar_text_def str_text_def)
    have "ahead st1 (str_text (snd s) @ c # r)" using a nd 1 by (simp add: scalar_text_def)
    from json_parse_string_quoted [OF this 1(3)] obtain st2 where
      "json_parse_string st1 = (st2, Inr (JSON_STR_REFERENCE, snd s))" "ahead st2 (c # r)" "length (jbuf st2) = length (jbuf st1)" .
    then show ?thesis using st1(1,3) cur q nd 1 k
      by (simp add: reads_def Let_def json_node_create_def canon_data_def canon_str_def)
  next
    case 2
    have "ahead st1 (int_text v @ c # r)" using a nd 2 by (simp add: scalar_text_def jn_int_def)
    from json_parse_number_text [OF this 2(4,5) at(3)] obtain st2 where
      s2: "json_parse_number strtod st1 = (st2, Inr (True, JInt v))" "ahead st2 (c # r)" "jbuf st2 = jbuf st1" .
    have "x \<in> set (int_text v)" using x(1) nd 2 by (simp add: scalar_text_def jn_int_def)
    then have m: "number_table_get x = JSON_NUM_MODE_INT" using int_text_scan by blast
    then have "x \<noteq> CHR ''{''" "x \<noteq> CHR ''[''" "x \<noteq> CHR 0x22" "x \<noteq> CHR ''t''" "x \<noteq> CHR ''f''" "x \<noteq> CHR ''n''"
      by (auto simp: number_table_get_def is_digit_def char_in_def char_val_def)
    then show ?thesis using st1(1,3) cur s2 nd 2 k m
      by (simp add: reads_def Let_def json_node_create_def canon_data_def)
  next
    case 3
    then have t: "scalar_text node = ''true''" using nd by (simp add: scalar_text_def)
    from json_parse_literal_text [OF a [unfolded t] len1, of 4] obtain st2 where
      "json_parse_literal st1 ''true'' 4 = (st2, JSON_OK)" "ahead st2 (c # r)" "jbuf st2 = jbuf st1" by auto
    then show ?thesis using st1(1,3) cur x(1) t nd 3 k
      by (simp add: reads_def Let_def json_node_create_def canon_data_def json_literal_node_def)
  next
    case 4
    then have t: "scalar_text node = ''false''" using nd by (simp add: scalar_text_def)
    from json_parse_literal_text [OF a [unfolded t] len1, of 5] obtain st2 where
      "json_parse_literal st1 ''false'' 5 = (st2, JSON_OK)" "ahead st2 (c # r)" "jbuf st2 = jbuf st1" by auto
    then show ?thesis using st1(1,3) cur x(1) t nd 4 k
      by (simp add: reads_def Let_def json_node_create_def canon_data_def json_literal_node_def)
  next
    case 5
    then have t: "scalar_text node = ''null''" using nd by (simp add: scalar_text_def)
    from json_parse_literal_text [OF a [unfolded t] len1, of 4] obtain st2 where
      "json_parse_literal st1 ''null'' 4 = (st2, JSON_OK)" "ahead st2 (c # r)" "jbuf st2 = jbuf st1" by auto
    then show ?thesis using st1(1,3) cur x(1) t nd 5 k
      by (simp add: reads_def Let_def json_node_create_def canon_data_def json_literal_node_def)
  qed
qed

lemma read_name:
  assumes "ahead st (name_text is_node fm nm @ r)" and "is_node \<Longrightarrow> \<exists>s. nm = Some s \<and> ascii (snd s)" and "\<not> is_node \<Longrightarrow> nm = None"
  obtains st' where "json_parse_name (\<not> is_node) st = (st', Inr (map_option canon_str nm))"
    "ahead st' (spaces (fm \<and> is_node) 1 @ r)" "length (jbuf st') = length (jbuf st)"
proof (cases is_node)
  case False
  then show ?thesis using that assms(1,3) by (simp add: json_parse_name_def name_text_def spaces_def)
next
  case True
  then obtain s where s: "nm = Some s" "ascii (snd s)" using assms(2) by blast
  have a: "ahead st (str_text (snd s) @ CHR '':'' # spaces fm 1 @ r)" using assms(1) s True by (simp add: name_text_def)
  from json_parse_string_quoted [OF a s(2)] obtain st1 where st1: "json_parse_string st = (st1, Inr (JSON_STR_REFERENCE, snd s))"
    "ahead st1 (CHR '':'' # spaces fm 1 @ r)" "length (jbuf st1) = length (jbuf st)" .
  from skip_whitespace_blank [of st1 "[]" "CHR '':''"] st1(2) obtain st2 where
    st2: "skip_whitespace st1 = (True, st2)" "ahead st2 (CHR '':'' # spaces fm 1 @ r)" "length (jbuf st2) = length (jbuf st1)"
    by auto
  have "cur_char st = CHR 0x22" using a by (intro ahead_cur) (simp add: str_text_def)
  then have "json_parse_name (\<not> is_node) st = (INC_STATE st2, Inr (map_option canon_str nm))"
    using True s st1(1) st2(1) ahead_cur [OF st2(2)] by (simp add: json_parse_name_def canon_str_def)
  then show ?thesis using that ahead_inc [OF st2(2)] st1(3) st2(3) True by simp
qed

lemma after_name:
  "name_text is_node fm nm = [] \<or> (\<exists>r. name_text is_node fm nm = CHR 0x22 # r)"
  by (simp add: name_text_def str_text_def)

lemma child_text_first:
  assumes "jn_wf x" and "json_plain x"
  obtains c r where "name_text is_node fm (jn_name x) @ json_text fm ind x = c # r" "solid c" "c \<noteq> CHR '']''" "c \<noteq> CHR ''}''"
proof -
  obtain c r where "json_text fm ind x = c # r" "solid c" "c \<noteq> CHR '']''" "c \<noteq> CHR ''}''" using json_text_first [OF assms] .
  then show ?thesis using after_name [of is_node fm "jn_name x"] that by auto
qed

text \<open>The text of the children from the first one on, up to the closing bracket.\<close>

definition elements_text :: "bool \<Rightarrow> nat \<Rightarrow> nat \<Rightarrow> bool \<Rightarrow> 'd json_node list \<Rightarrow> string \<Rightarrow> string" where
  "elements_text fm ind ind0 is_node chs rest =
     drop (length (spaces fm (if chs = [] then ind0 else ind)))
       (children_text fm ind is_node chs @ spaces fm ind0 @ (if is_node then CHR ''}'' else CHR '']'') # rest)"

lemma elements_text_simps:
  "elements_text fm ind ind0 is_node [] rest = (if is_node then CHR ''}'' else CHR '']'') # rest"
  "elements_text fm ind ind0 is_node (x # chs) rest =
     name_text is_node fm (jn_name x) @ json_text fm ind x @ (if chs \<noteq> [] then [CHR '',''] else []) @ lf fm @
     spaces fm (if chs = [] then ind0 else ind) @ elements_text fm ind ind0 is_node chs rest"
  by (cases chs; simp add: elements_text_def)+

lemma children_text_elements:
  "children_text fm ind is_node chs @ spaces fm ind0 @ (if is_node then CHR ''}'' else CHR '']'') # rest =
     spaces fm (if chs = [] then ind0 else ind) @ elements_text fm ind ind0 is_node chs rest"
  by (cases chs) (simp_all add: elements_text_def)

lemma elements_text_first:
  assumes "\<forall>x \<in> set chs. jn_wf x \<and> json_plain x"
  obtains c r where "elements_text fm ind ind0 is_node chs rest = c # r" "solid c"
proof (cases chs)
  case Nil
  then show ?thesis using that by (cases is_node) (auto simp: elements_text_simps)
next
  case (Cons x ch)
  then obtain c r where "name_text is_node fm (jn_name x) @ json_text fm ind x = c # r" "solid c"
    using child_text_first assms by (metis list.set_intros(1))
  then show ?thesis using that Cons by (simp add: elements_text_simps flip: append_assoc)
qed

lemma elements_text_rest:
  assumes "\<forall>x \<in> set chs. jn_wf x \<and> json_plain x"
  obtains c r where "(if chs \<noteq> [] then [CHR '',''] else []) @ lf fm @ spaces fm (if chs = [] then ind0 else ind) @
      elements_text fm ind ind0 is_node chs rest = c # r" "number_table_get c = JSON_NUM_MODE_INVAL"
proof (cases chs)
  case Nil
  have "number_table_get (CHR 0x0A) = JSON_NUM_MODE_INVAL" "number_table_get (CHR ''}'') = JSON_NUM_MODE_INVAL"
    "number_table_get (CHR '']'') = JSON_NUM_MODE_INVAL"
    by (simp_all add: number_table_get_def is_digit_def char_in_def char_val_def)
  then show ?thesis using Nil that by (cases fm; cases is_node) (auto simp: elements_text_simps lf_def spaces_def)
next
  case (Cons x ch)
  then show ?thesis using that by (simp add: number_table_get_def is_digit_def char_in_def char_val_def)
qed

lemma read_elements_step:
  assumes child: "jn_wf x" "json_plain x" "jn_name x \<noteq> None \<longleftrightarrow> is_node"
    and chs: "\<forall>x \<in> set chs. jn_wf x \<and> json_plain x"
    and V: "\<And>st w c r. ahead st (w @ json_text fm ind x @ c # r) \<Longrightarrow> blank w \<Longrightarrow> number_table_get c = JSON_NUM_MODE_INVAL \<Longrightarrow>
        length (jbuf st) < 2 ^ 64 \<Longrightarrow> json_parse_value strtod fuel st \<noteq> None \<Longrightarrow>
        reads st (jn_set_name None (jn_canon x)) (c # r) (json_parse_value strtod fuel st)"
    and E: "\<And>st obj. ahead st (elements_text fm ind ind0 is_node chs rest) \<Longrightarrow> length (jbuf st) < 2 ^ 64 \<Longrightarrow>
        json_parse_elements strtod fuel (\<not> is_node) st obj \<noteq> None \<Longrightarrow>
        reads st (jn_set_children (jn_children_count obj + length chs) (jn_child_head obj @ map jn_canon chs) obj) rest
          (json_parse_elements strtod fuel (\<not> is_node) st obj)"
    and st: "ahead st (elements_text fm ind ind0 is_node (x # chs) rest)" "length (jbuf st) < 2 ^ 64"
    and fuel: "json_parse_elements strtod (Suc fuel) (\<not> is_node) st obj \<noteq> None"
  shows "reads st (jn_set_children (jn_children_count obj + length (x # chs)) (jn_child_head obj @ map jn_canon (x # chs)) obj) rest
          (json_parse_elements strtod (Suc fuel) (\<not> is_node) st obj)"
proof -
  let ?cl = "if \<not> is_node then CHR '']'' else CHR ''}''"
  let ?sep = "if chs \<noteq> [] then [CHR '',''] else []" and ?sp = "spaces fm (if chs = [] then ind0 else ind)"
  let ?el = "elements_text fm ind ind0 is_node chs rest"
  obtain c r where c: "name_text is_node fm (jn_name x) @ json_text fm ind x = c # r" "c \<noteq> CHR '']''" "c \<noteq> CHR ''}''"
    using child_text_first [OF child(1,2)] by metis
  have "ahead st ((name_text is_node fm (jn_name x) @ json_text fm ind x) @ ?sep @ lf fm @ ?sp @ ?el)"
    using st(1) by (simp add: elements_text_simps)
  then have cur: "cur_char st \<noteq> ?cl" using ahead_cur [of st c] c by simp
  have nm: "ahead st (name_text is_node fm (jn_name x) @ json_text fm ind x @ ?sep @ lf fm @ ?sp @ ?el)"
    using st(1) by (simp add: elements_text_simps)
  have n1: "is_node \<Longrightarrow> \<exists>s. jn_name x = Some s \<and> ascii (snd s)" and n2: "\<not> is_node \<Longrightarrow> jn_name x = None"
    using child(2,3) by (cases x; auto split: option.splits)+
  from read_name [OF nm n1 n2] obtain st1 where st1: "json_parse_name (\<not> is_node) st = (st1, Inr (map_option canon_str (jn_name x)))"
    "ahead st1 (spaces (fm \<and> is_node) 1 @ json_text fm ind x @ ?sep @ lf fm @ ?sp @ ?el)" "length (jbuf st1) = length (jbuf st)" .
  obtain d q where d: "?sep @ lf fm @ ?sp @ ?el = d # q" "number_table_get d = JSON_NUM_MODE_INVAL"
    using elements_text_rest [OF chs] .
  have "json_parse_value strtod fuel st1 = None \<Longrightarrow> json_parse_elements strtod (Suc fuel) (\<not> is_node) st obj = None"
    using cur st1(1) by (simp add: Let_def)
  then have "json_parse_value strtod fuel st1 \<noteq> None" using fuel by (rule contrapos_nn [rotated])
  from V [OF st1(2) [unfolded d(1)] _ d(2) _ this] st1(3) st(2) obtain st2 where
    v: "json_parse_value strtod fuel st1 = Some (st2, Inr (jn_set_name None (jn_canon x)))"
      "ahead st2 (?sep @ lf fm @ ?sp @ ?el)" "length (jbuf st2) = length (jbuf st)"
    unfolding reads_def d(1) by auto
  let ?obj1 = "json_add_node obj (map_option canon_str (jn_name x)) (jn_set_name None (jn_canon x))"
  have obj1: "?obj1 = jn_set_children (jn_children_count obj + 1) (jn_child_head obj @ [jn_canon x]) obj"
    unfolding json_add_node_def using jn_set_name_same [of "jn_canon x"] by simp
  show ?thesis
  proof (cases "chs = []")
    case True
    then have "ahead st2 ((lf fm @ ?sp) @ ?cl # rest)" using v(2) by (cases is_node) (simp_all add: elements_text_simps)
    moreover have "blank (lf fm @ ?sp)" "solid ?cl" by simp_all
    ultimately obtain st3 where
      st3: "skip_whitespace st2 = (True, st3)" "ahead st3 (?cl # rest)" "length (jbuf st3) = length (jbuf st2)"
      by (rule skip_whitespace_blank)
    then have "json_parse_elements strtod (Suc fuel) (\<not> is_node) st obj = Some (INC_STATE st3, Inr ?obj1)"
      using cur st1(1) v(1) ahead_cur [OF st3(2)] by (simp add: Let_def)
    then show ?thesis using True obj1 ahead_inc [OF st3(2)] st3(3) v(3) by (simp add: reads_def)
  next
    case False
    then have "ahead st2 ([] @ CHR '','' # lf fm @ ?sp @ ?el)" using v(2) by simp
    from skip_whitespace_blank [OF this] obtain st3 where
      st3: "skip_whitespace st2 = (True, st3)" "ahead st3 (CHR '','' # lf fm @ ?sp @ ?el)" "length (jbuf st3) = length (jbuf st2)" by auto
    obtain y ys where y: "?el = y # ys" "solid y" using elements_text_first [OF chs] .
    have "ahead (INC_STATE st3) ((lf fm @ ?sp) @ y # ys)" using ahead_inc [OF st3(2)] y(1) by simp
    from skip_whitespace_blank [OF this _ y(2)] obtain st4 where
      st4: "skip_whitespace (INC_STATE st3) = (True, st4)" "ahead st4 ?el" "length (jbuf st4) = length (jbuf st)"
      using y(1) st3(3) v(3) by auto
    have eq: "json_parse_elements strtod (Suc fuel) (\<not> is_node) st obj = json_parse_elements strtod fuel (\<not> is_node) st4 ?obj1"
      using cur st1(1) v(1) st3(1) st4(1) ahead_cur [OF st3(2)] by (simp add: Let_def)
    have "reads st4 (jn_set_children (jn_children_count ?obj1 + length chs) (jn_child_head ?obj1 @ map jn_canon chs) ?obj1) rest
        (json_parse_elements strtod fuel (\<not> is_node) st4 ?obj1)"
      using fuel st(2) st4(3) unfolding eq by (intro E st4(2)) simp_all
    then show ?thesis unfolding eq unfolding obj1 using st4(3) by (cases obj) (simp add: reads_def add.commute)
  qed
qed

lemma read_container:
  fixes node :: "'d json_node"
  assumes node: "jn_wf node" "json_plain node" "container node"
    and at: "ahead st (w @ json_text fm ind node @ rest)" "blank w" and len: "length (jbuf st) < 2 ^ 64"
    and E: "\<And>st obj. ahead st (elements_text fm (ind + json_write_node_indent) ind (jn_type node = JSON_NODE) (jn_child_head node)
            (lf (fm \<and> ind = 0) @ rest)) \<Longrightarrow> length (jbuf st) < 2 ^ 64 \<Longrightarrow>
        json_parse_elements strtod fuel (jn_type node \<noteq> JSON_NODE) st obj \<noteq> None \<Longrightarrow>
        reads st (jn_set_children (jn_children_count obj + length (jn_child_head node))
            (jn_child_head obj @ map jn_canon (jn_child_head node)) obj) (lf (fm \<and> ind = 0) @ rest)
          (json_parse_elements strtod fuel (jn_type node \<noteq> JSON_NODE) st obj)"
    and fuel: "json_parse_value strtod (Suc fuel) st \<noteq> None"
  shows "reads st (jn_set_name None (jn_canon node)) (trail fm ind node @ rest) (json_parse_value strtod (Suc fuel) st)"
proof -
  let ?n = "jn_type node = JSON_NODE" let ?op = "if ?n then CHR ''{'' else CHR ''[''"
  let ?rest = "lf (fm \<and> ind = 0) @ rest" let ?ch = "jn_child_head node"
  let ?el = "elements_text fm (ind + json_write_node_indent) ind ?n ?ch ?rest"
  let ?sp = "spaces fm (if ?ch = [] then ind else ind + json_write_node_indent)"
  have "json_text fm ind node @ rest = ?op # lf fm @ ?sp @ ?el"
    using node(3) children_text_elements [of fm "ind + json_write_node_indent" ?n ?ch ind ?rest]
    by (simp add: json_text.simps container_def Let_def)
  then have "ahead st (w @ ?op # lf fm @ ?sp @ ?el)" using at(1) by simp
  moreover have "solid ?op" by simp
  ultimately obtain st1 where
    st1: "skip_whitespace st = (True, st1)" "ahead st1 (?op # lf fm @ ?sp @ ?el)" "length (jbuf st1) = length (jbuf st)"
    using at(2) skip_whitespace_blank by blast
  have chs: "\<forall>x \<in> set ?ch. jn_wf x \<and> json_plain x" using node(1,2) by (cases node) auto
  obtain y ys where y: "?el = y # ys" "solid y" using elements_text_first [OF chs] .
  have "ahead (INC_STATE st1) ((lf fm @ ?sp) @ y # ys)" using ahead_inc [OF st1(2)] y(1) by simp
  from skip_whitespace_blank [OF this _ y(2)] obtain st2 where
    st2: "skip_whitespace (INC_STATE st1) = (True, st2)" "ahead st2 ?el" "length (jbuf st2) = length (jbuf st)"
    using y(1) st1(3) by auto
  define obj :: "'d json_node" where "obj = json_node_create (jn_type node)"
  have eq: "json_parse_value strtod (Suc fuel) st = json_parse_elements strtod fuel (\<not> ?n) st2 obj"
    using st1(1) st2(1) ahead_cur [OF st1(2)] node(3) by (auto simp: Let_def container_def obj_def)
  have r: "reads st2 (jn_set_children (jn_children_count obj + length ?ch) (jn_child_head obj @ map jn_canon ?ch) obj) ?rest
      (json_parse_elements strtod fuel (\<not> ?n) st2 obj)"
    using E [OF st2(2), of obj] fuel len st2(3) unfolding eq by simp
  have "jn_set_children (jn_children_count obj + length ?ch) (jn_child_head obj @ map jn_canon ?ch) obj = jn_set_name None (jn_canon node)"
    using node(1,3) by (cases node) (auto simp: obj_def json_node_create_def canon_data_def container_def)
  then show ?thesis using r st2(3) node(3) unfolding eq by (simp add: reads_def trail_def)
qed

lemma read_tree:
  shows "jn_wf node \<Longrightarrow> json_plain node \<Longrightarrow> ahead st (w @ json_text fm ind node @ rest) \<Longrightarrow> blank w \<Longrightarrow>
      container node \<or> (\<exists>c r. rest = c # r \<and> number_table_get c = JSON_NUM_MODE_INVAL) \<Longrightarrow>
      length (jbuf st) < 2 ^ 64 \<Longrightarrow> json_parse_value strtod fuel st \<noteq> None \<Longrightarrow>
      reads st (jn_set_name None (jn_canon node)) (trail fm ind node @ rest) (json_parse_value strtod fuel st)"
    and "\<forall>x \<in> set chs. jn_wf x \<and> json_plain x \<and> (jn_name x \<noteq> None \<longleftrightarrow> is_node) \<Longrightarrow> 0 < ind \<Longrightarrow>
      ahead st (elements_text fm ind ind0 is_node chs rest) \<Longrightarrow> length (jbuf st) < 2 ^ 64 \<Longrightarrow>
      json_parse_elements strtod fuel (\<not> is_node) st obj \<noteq> None \<Longrightarrow>
      reads st (jn_set_children (jn_children_count obj + length chs) (jn_child_head obj @ map jn_canon chs) obj) rest
        (json_parse_elements strtod fuel (\<not> is_node) st obj)"
proof (induction fm ind node and fm ind is_node chs arbitrary: st w rest fuel and st ind0 rest fuel obj
    rule: json_text_children_text.induct)
  case (1 fm ind node)
  obtain f where f: "fuel = Suc f" using "1.prems"(7) by (cases fuel) auto
  show ?case
  proof (cases "container node")
    case False
    then obtain c r where rest: "rest = c # r" "number_table_get c = JSON_NUM_MODE_INVAL" using "1.prems"(5) by blast
    have "json_text fm ind node = scalar_text node" using False by (simp add: json_text.simps container_def)
    then show ?thesis
      using read_scalar [OF "1.prems"(1,2) False _ "1.prems"(4) rest(2) "1.prems"(6)] "1.prems"(3) False rest(1)
      unfolding f by (simp add: trail_def)
  next
    case True
    have ch: "\<forall>x \<in> set (jn_child_head node). jn_wf x \<and> json_plain x \<and> (jn_name x \<noteq> None \<longleftrightarrow> jn_type node = JSON_NODE)"
      using "1.prems"(1,2) by (cases node) auto
    show ?thesis unfolding f
      using "1.IH" [OF True [unfolded container_def] refl ch]
      by (intro read_container [OF "1.prems"(1,2) True "1.prems"(3,4,6)] "1.prems"(7) [unfolded f])
        (simp_all add: json_write_node_indent_def)
  qed
next
  case (2 fm ind is_node)
  obtain f where f: "fuel = Suc f" using "2.prems"(5) by (cases fuel) auto
  have a: "ahead st ((if is_node then CHR ''}'' else CHR '']'') # rest)" using "2.prems"(3) by (simp add: elements_text_simps)
  show ?case unfolding f
    using ahead_cur [OF a] ahead_inc [OF a] by (cases obj) (auto simp: reads_def Let_def)
next
  case (3 fm ind is_node child chs)
  obtain f where f: "fuel = Suc f" using "3.prems"(5) by (cases fuel) auto
  have child: "jn_wf child" "json_plain child" "jn_name child \<noteq> None \<longleftrightarrow> is_node"
    and chs: "\<forall>x \<in> set chs. jn_wf x \<and> json_plain x" using "3.prems"(1) by auto
  have tr: "trail fm ind child = []" using "3.prems"(2) by (simp add: trail_def lf_def)
  show ?case unfolding f
  proof (rule read_elements_step [OF child chs _ _ "3.prems"(3,4) "3.prems"(5) [unfolded f]])
    fix st w c r
    assume "ahead st (w @ json_text fm ind child @ c # r)" "blank w" "number_table_get c = JSON_NUM_MODE_INVAL"
      "length (jbuf st) < 2 ^ 64" "json_parse_value strtod f st \<noteq> None"
    then show "reads st (jn_set_name None (jn_canon child)) (c # r) (json_parse_value strtod f st)"
      using "3.IH"(1) [OF child(1,2), of st w "c # r" f] tr by simp
  next
    fix st obj
    assume "ahead st (elements_text fm ind ind0 is_node chs rest)" "length (jbuf st) < 2 ^ 64"
      "json_parse_elements strtod f (\<not> is_node) st obj \<noteq> None"
    then show "reads st (jn_set_children (jn_children_count obj + length chs) (jn_child_head obj @ map jn_canon chs) obj) rest
        (json_parse_elements strtod f (\<not> is_node) st obj)"
      using "3.IH"(2) [OF _ "3.prems"(2)] "3.prems"(1) by simp
  qed
qed

section \<open>Round trip\<close>

lemma json_parse_text:
  assumes "jn_wf node" and "json_plain node" and "container node" and "jn_name node = None"
    and "length (json_text fm 0 node) < 2 ^ 64"
  shows "\<exists>refs. json_parse strtod (json_text fm 0 node) = Some (Inr (jn_canon node), refs)"
proof -
  let ?t = "json_text fm 0 node"
  let ?st = "\<lparr>lineno = 1, newline = 0, index = 0, jbuf = ?t, ref_count = 1\<rparr>"
  have "json_parse_value strtod (json_fuel ?t) ?st \<noteq> None"
    by (rule json_parse_fuel(1)) (simp add: room_def json_fuel_def)
  then have "reads ?st (jn_set_name None (jn_canon node)) (trail fm 0 node @ []) (json_parse_value strtod (json_fuel ?t) ?st)"
    using assms by (intro read_tree(1) [of _ _ "[]"]) (simp_all add: ahead_def)
  moreover have "jn_set_name None (jn_canon node) = jn_canon node" using assms(4) jn_set_name_same [of "jn_canon node"] by simp
  ultimately show ?thesis by (auto simp: reads_def json_parse_def)
qed

definition empty_file :: "nat \<Rightarrow> json_file" where
  "empty_file space = \<lparr>jf_out = [], jf_room = space, jf_error = False\<rparr>"

lemma json_write_file_text:
  assumes "jn_wf node" and "json_plain node" and "length (json_text fm 0 node) \<le> space"
  shows "\<exists>f. json_write_file df node (empty_file space) fm = Some (f, JSON_OK) \<and> jf_out f = json_text fm 0 node"
proof -
  have "file_rep [] space (empty_file space) []" by (simp add: file_rep_def empty_file_def)
  from file_sink.write_tree(1) [OF assms(1,2) this, of fm 0 df] show ?thesis
    using assms(3) by (auto simp: json_write_file_def file_sink.wrote_def file_rep_def simp del: json_write_impl.simps)
qed

text \<open>
  C2. What \<open>json_write_file\<close> writes of an object or array, in either layout, \<open>json_parse\<close> reads back
  as the same tree, with the strings tagged as references into the buffer and the touch marks
  cleared: for every well-formed tree of integers, booleans, nulls and 7-bit strings, and a file
  with room for its text.
\<close>

theorem json_round_trip:
  assumes "jn_wf node" and "json_plain node" and "container node" and "jn_name node = None"
    and "length (json_text fm 0 node) \<le> space" and "space < 2 ^ 64"
  shows "\<exists>f refs. json_write_file df node (empty_file space) fm = Some (f, JSON_OK) \<and>
    json_parse strtod (jf_out f) = Some (Inr (jn_canon node), refs)"
proof -
  obtain f where f: "json_write_file df node (empty_file space) fm = Some (f, JSON_OK)" "jf_out f = json_text fm 0 node"
    using json_write_file_text [OF assms(1,2,5)] by blast
  moreover have "length (json_text fm 0 node) < 2 ^ 64" using assms(5,6) by linarith
  ultimately show ?thesis using json_parse_text [OF assms(1-4), of fm strtod] by auto
qed

definition demo_strtod :: "nat strtod_fun" where
  "demo_strtod s = (0, 0, False)"

theorem json_round_trip_witness:
  "\<exists>f refs. json_write_file demo_format demo_tree (empty_file 100) False = Some (f, JSON_OK) \<and>
    json_parse demo_strtod (jf_out f) = Some (Inr (jn_canon demo_tree), refs)"
  using demo_tree_ok by (intro json_round_trip) (simp_all add: container_def demo_tree_text_length)

end
