(* ===== verification/JsonError.thy ===== *)
theory JsonError
  imports JsonParser
begin

text \<open>
  The error state of \<open>libtsjson/error.c\<close>: one \<open>json_error_state_t\<close> per thread, with a message
  buffer of \<open>JSONERRLEN\<close> bytes. \<open>json_set_error_va\<close> takes the text that \<open>vsnprintf\<close> makes of format and
  arguments; \<open>None\<close> is a write behind the message buffer. The state that a thread has not used
  yet is fresh memory of \<open>mp_malloc\<close>, the parameter \<open>fresh\<close>.
\<close>

section \<open>State\<close>

definition JSONERRLEN :: nat where "JSONERRLEN = 256"

record json_error_state =
  je_error :: json_code
  je_message :: "char list"
  je_line :: nat
  je_char :: nat

section \<open>Bounded string functions\<close>

definition vsnprintf_buf :: "char list \<Rightarrow> nat \<Rightarrow> string \<Rightarrow> char list" where
  "vsnprintf_buf buf n s = bput buf 0 (take (n - 1) s @ [NUL])"

text \<open>\<open>strncat(dst, src, n)\<close> appends at most \<open>n\<close> characters and always a terminator.\<close>

definition strncat_buf :: "char list \<Rightarrow> string \<Rightarrow> nat \<Rightarrow> char list option" where
  "strncat_buf buf src n =
     (let at = length (cstr buf); s = take n src
      in if at + length s < length buf then Some (bput buf at (s @ [NUL])) else None)"

definition strncpy_into :: "char list \<Rightarrow> string \<Rightarrow> nat \<Rightarrow> char list" where
  "strncpy_into buf s n = bput buf 0 (strncpy_buf s n)"

section \<open>Operations\<close>

definition json_position_text :: "(nat \<Rightarrow> string) \<Rightarrow> nat \<Rightarrow> nat \<Rightarrow> string" where
  "json_position_text dec line chr = take 19 ('' at '' @ dec line @ '':'' @ dec chr)"

definition json_set_error_va ::
    "(nat \<Rightarrow> string) \<Rightarrow> json_error_state \<Rightarrow> jparser option \<Rightarrow> json_code \<Rightarrow> string option \<Rightarrow> json_error_state option \<Rightarrow>
     json_error_state option" where
  "json_set_error_va dec fresh parser error fmt hdl =
     (let st0 = (case hdl of None \<Rightarrow> fresh | Some st \<Rightarrow> st);
          st1 = (case parser of
                   None \<Rightarrow> st0
                 | Some p \<Rightarrow> st0\<lparr>je_line := lineno p, je_char := size_sub (index p) (newline p)\<rparr>);
          st2 = st1\<lparr>je_error := error\<rparr>
      in case fmt of
           Some s \<Rightarrow>
             (let buf = vsnprintf_buf (je_message st2) JSONERRLEN s in
              case parser of
                None \<Rightarrow> Some (st2\<lparr>je_message := buf\<rparr>)
              | Some p \<Rightarrow>
                  map_option (\<lambda>b. st2\<lparr>je_message := b\<rparr>)
                    (strncat_buf buf (json_position_text dec (je_line st2) (je_char st2)) (size_sub JSONERRLEN (length s))))
         | None \<Rightarrow>
             if - json_error_number error < json_error_msg_count
             then Some (st2\<lparr>je_message := strncpy_into (je_message st2)
                              (json_error_msg_text ! nat (- json_error_number error)) JSONERRLEN\<rparr>)
             else Some st2)"

definition json_get_error :: "json_error_state option \<Rightarrow> json_error_state option" where
  "json_get_error hdl = hdl"

definition json_errno :: "json_error_state option \<Rightarrow> json_code" where
  "json_errno hdl = (case hdl of None \<Rightarrow> JSON_OK | Some st \<Rightarrow> je_error st)"

definition json_error_message :: "json_error_state option \<Rightarrow> string" where
  "json_error_message hdl =
     (case hdl of None \<Rightarrow> ''OK'' | Some st \<Rightarrow> if je_error st = JSON_OK then ''OK'' else cstr (je_message st))"

definition json_errno_clear :: "json_error_state option \<Rightarrow> json_error_state option" where
  "json_errno_clear hdl = map_option (\<lambda>st. st\<lparr>je_error := JSON_OK\<rparr>) hdl"

text \<open>\<open>json_parse_number\<close> reports the literal, which is the rest of the buffer, not the number alone.\<close>

definition json_number_invalid_text :: "jparser \<Rightarrow> string" where
  "json_number_invalid_text p =
     ''NUMBER literal '' @ [CHR 0x27] @ cstr (drop (index p) (jbuf p)) @ [CHR 0x27] @ '' is invalid''"

section \<open>Lemmas\<close>

lemma bput_start:
  assumes "length s < length buf"
  shows "bput buf 0 (s @ [NUL]) = s @ NUL # drop (Suc (length s)) buf"
proof -
  have "take (length s + 1) (bput buf 0 (s @ [NUL])) = s @ [NUL]" using take_bput [of 0 "s @ [NUL]" buf] assms by simp
  moreover have "drop (length s + 1) (bput buf 0 (s @ [NUL])) = drop (length s + 1) buf" by simp
  ultimately have "bput buf 0 (s @ [NUL]) = (s @ [NUL]) @ drop (length s + 1) buf" by (metis append_take_drop_id)
  then show ?thesis by simp
qed

lemma NUL_take: "NUL \<notin> set s \<Longrightarrow> NUL \<notin> set (take n s)"
  by (auto dest: in_set_takeD)

lemma strncat_buf_text:
  assumes "NUL \<notin> set s" and "length s < n" and "length buf = n" and "NUL \<notin> set t"
  shows "case strncat_buf (vsnprintf_buf buf n s) t k of
           None \<Rightarrow> n \<le> length s + length (take k t)
         | Some b \<Rightarrow> length b = n \<and> length s + length (take k t) < n \<and> cstr b = s @ take k t"
proof -
  have tk: "take (n - 1) s = s" using assms(2) by simp
  have v: "vsnprintf_buf buf n s = s @ NUL # drop (Suc (length s)) buf"
    using bput_start [of s buf] assms(2,3) unfolding vsnprintf_buf_def tk by simp
  let ?v = "vsnprintf_buf buf n s"
  have len: "length ?v = n" "cstr ?v = s" using v assms by simp_all
  show ?thesis
  proof (cases "length s + length (take k t) < n")
    case True
    let ?b = "bput ?v (length s) (take k t @ [NUL])"
    have "take (length s + length (take k t @ [NUL])) ?b = take (length s) ?v @ take k t @ [NUL]"
      using True len by (intro take_bput) simp
    moreover have "take (length s) ?v = s" using v by simp
    ultimately have "?b = (s @ take k t) @ NUL # drop (length s + length (take k t @ [NUL])) ?b"
      by (metis append.assoc append_Cons append_Nil append_take_drop_id)
    moreover have "NUL \<notin> set (s @ take k t)" using assms(1) NUL_take [OF assms(4)] by simp
    ultimately have "cstr ?b = s @ take k t" by (metis cstr_append_nul)
    then show ?thesis using True len by (simp add: strncat_buf_def Let_def)
  qed (use len in \<open>simp add: strncat_buf_def Let_def\<close>)
qed

lemma strncat_buf_full:
  assumes "NUL \<notin> set s" and "n \<le> length s" and "length buf = n" and "0 < n"
  shows "strncat_buf (vsnprintf_buf buf n s) t k \<noteq> None \<longleftrightarrow> take k t = []"
proof -
  have v: "vsnprintf_buf buf n s = take (n - 1) s @ [NUL]"
    using bput_start [of "take (n - 1) s" buf] assms(2-4) unfolding vsnprintf_buf_def by simp
  have "cstr (vsnprintf_buf buf n s) = take (n - 1) s" unfolding v using NUL_take [OF assms(1)] by simp
  moreover have "length (vsnprintf_buf buf n s) = n" using v assms by simp
  moreover have "length (take (n - 1) s) + m < n \<longleftrightarrow> m = 0" for m using assms(2,4) by auto
  ultimately have "strncat_buf (vsnprintf_buf buf n s) t k \<noteq> None \<longleftrightarrow> length (take k t) = 0"
    unfolding strncat_buf_def Let_def by (simp only: split: if_split) simp
  then show ?thesis by (simp only: length_0_conv)
qed

section \<open>Properties\<close>

text \<open>
  C37. Reporting a parser error stays inside the message buffer in exactly two cases: text and position
  together leave room for the terminator, or the text alone has exactly \<open>JSONERRLEN\<close> characters
  (then \<open>vsnprintf\<close> cuts it and nothing of the position is appended). In the first case the thread's
  message is the text followed by the position; for every other length the position is written
  behind the buffer.
\<close>

theorem json_set_error_va_bounds:
  assumes "length (je_message st) = JSONERRLEN" and "NUL \<notin> set s" and "length s < 2 ^ 64"
    and "NUL \<notin> set (json_position_text dec (lineno p) (size_sub (index p) (newline p)))"
  defines "pos \<equiv> json_position_text dec (lineno p) (size_sub (index p) (newline p))"
  shows "(json_set_error_va dec fresh (Some p) e (Some s) (Some st) \<noteq> None \<longleftrightarrow>
      length s + length pos < JSONERRLEN \<or> length s = JSONERRLEN) \<and>
    (length s + length pos < JSONERRLEN \<longrightarrow>
      (\<exists>st'. json_set_error_va dec fresh (Some p) e (Some s) (Some st) = Some st' \<and>
        je_error st' = e \<and> cstr (je_message st') = s @ pos))"
proof -
  let ?k = "size_sub JSONERRLEN (length s)"
  let ?cat = "strncat_buf (vsnprintf_buf (je_message st) JSONERRLEN s) pos ?k"
  have ne: "pos \<noteq> []" "length pos \<le> 19" by (simp_all add: pos_def json_position_text_def)
  have unf: "json_set_error_va dec fresh (Some p) e (Some s) (Some st) =
      map_option (\<lambda>b. st\<lparr>je_line := lineno p, je_char := size_sub (index p) (newline p), je_error := e, je_message := b\<rparr>) ?cat"
    by (simp add: json_set_error_va_def Let_def pos_def)
  show ?thesis
  proof (cases "length s < JSONERRLEN")
    case True
    then have k: "?k = JSONERRLEN - length s" by (intro size_sub_le) (simp_all add: JSONERRLEN_def)
    have "case ?cat of None \<Rightarrow> JSONERRLEN \<le> length s + length (take ?k pos)
         | Some b \<Rightarrow> length b = JSONERRLEN \<and> length s + length (take ?k pos) < JSONERRLEN \<and> cstr b = s @ take ?k pos"
      using assms(1,2,4) True by (intro strncat_buf_text) (simp_all add: pos_def)
    moreover have "length s + length (take ?k pos) < JSONERRLEN \<longleftrightarrow> length s + length pos < JSONERRLEN" using k by auto
    moreover have "length s + length pos < JSONERRLEN \<Longrightarrow> take ?k pos = pos" using k by simp
    ultimately show ?thesis unfolding unf using True by (auto split: option.splits)
  next
    case False
    have "?cat \<noteq> None \<longleftrightarrow> take ?k pos = []" using assms(1,2) False by (intro strncat_buf_full) (simp_all add: JSONERRLEN_def)
    moreover have "take ?k pos = [] \<longleftrightarrow> length s = JSONERRLEN"
    proof (cases "length s = JSONERRLEN")
      case True
      then have "?k = 0" using size_sub_le [of "length s" JSONERRLEN] by (simp add: JSONERRLEN_def)
      then show ?thesis using True by simp
    next
      case ne': False
      then have "?k = JSONERRLEN + 2 ^ 64 - length s" using False assms(3) by (intro size_sub_wrap) auto
      then show ?thesis using assms(3) ne ne' by (simp add: JSONERRLEN_def)
    qed
    ultimately show ?thesis unfolding unf using False by auto
  qed
qed

definition demo_error_state :: json_error_state where
  "demo_error_state = \<lparr>je_error = JSON_OK, je_message = replicate 256 NUL, je_line = 0, je_char = 0\<rparr>"

definition demo_dec :: "nat \<Rightarrow> string" where
  "demo_dec n = ''1''"

definition demo_position :: jparser where
  "demo_position = \<lparr>lineno = 1, newline = 0, index = 1, jbuf = ''1-1'', ref_count = 1\<rparr>"

theorem json_set_error_va_bounds_witness:
  "\<exists>st'. json_set_error_va demo_dec demo_error_state (Some demo_position) JSON_NUMBER_INVALID (Some ''bad'') (Some demo_error_state) =
     Some st' \<and> je_error st' = JSON_NUMBER_INVALID \<and> cstr (je_message st') = ''bad at 1:1''"
  using json_set_error_va_bounds [of demo_error_state "''bad''" demo_dec demo_position demo_error_state JSON_NUMBER_INVALID]
  by (simp add: demo_error_state_def JSONERRLEN_def json_position_text_def demo_dec_def NUL_def)

text \<open>
  An invalid number in a document of which more than 228 characters remain makes
  \<open>json_parse_number\<close> write behind the message buffer: its message quotes the rest of the
  document, and the remaining size passed to \<open>strncat\<close> wraps around.
\<close>

theorem json_number_error_overruns:
  assumes "length (je_message st) = JSONERRLEN" and "229 \<le> length (cstr (drop (index p) (jbuf p)))"
    and "length (jbuf p) < 2 ^ 63"
  shows "json_set_error_va dec fresh (Some p) JSON_NUMBER_INVALID (Some (json_number_invalid_text p)) (Some st) = None"
proof -
  let ?lit = "cstr (drop (index p) (jbuf p))" and ?s = "json_number_invalid_text p"
  let ?pos = "json_position_text dec (lineno p) (size_sub (index p) (newline p))"
  have l: "length ?s = 28 + length ?lit" by (simp add: json_number_invalid_text_def)
  have nul: "NUL \<notin> set ?s" by (simp add: json_number_invalid_text_def NUL_def [symmetric]) (simp add: NUL_def)
  have "length ?lit \<le> length (drop (index p) (jbuf p))" unfolding cstr_def by (rule length_takeWhile_le)
  then have lt: "length ?s < 2 ^ 64" using l assms(3) by simp
  have "size_sub JSONERRLEN (length ?s) = JSONERRLEN + 2 ^ 64 - length ?s"
    using l lt assms(2) by (intro size_sub_wrap) (simp_all add: JSONERRLEN_def)
  then have "take (size_sub JSONERRLEN (length ?s)) ?pos \<noteq> []"
    using lt by (simp add: JSONERRLEN_def json_position_text_def)
  moreover have "JSONERRLEN \<le> length ?s" "0 < JSONERRLEN" using assms(2) l by (simp_all add: JSONERRLEN_def)
  ultimately have "strncat_buf (vsnprintf_buf (je_message st) JSONERRLEN ?s) ?pos (size_sub JSONERRLEN (length ?s)) = None"
    using strncat_buf_full [OF nul _ assms(1)] by blast
  then show ?thesis by (simp add: json_set_error_va_def Let_def)
qed

definition demo_document :: jparser where
  "demo_document = \<lparr>lineno = 1, newline = 0, index = 0, jbuf = ''1-1'' @ replicate 300 (CHR '' ''), ref_count = 1\<rparr>"

theorem json_number_error_overruns_witness:
  "json_set_error_va demo_dec demo_error_state (Some demo_document) JSON_NUMBER_INVALID
     (Some (json_number_invalid_text demo_document)) (Some demo_error_state) = None"
proof (rule json_number_error_overruns)
  have "cstr (jbuf demo_document) = jbuf demo_document" by (rule cstr_id) (simp add: demo_document_def NUL_def)
  then show "229 \<le> length (cstr (drop (index demo_document) (jbuf demo_document)))" by (simp add: demo_document_def)
qed (simp_all add: demo_error_state_def JSONERRLEN_def demo_document_def)

end
