(* ===== verification/Steps.thy ===== *)
theory Steps
  imports JsonRoundTrip
begin

text \<open>
  The step generators of \<open>tsexperiment/steps.c\<close>: steps read from a file, constant steps, and steps
  replayed from the trace of an earlier run. A \<open>FILE\<close> opened for reading is the text still to be
  read; the file copy is the list of numbers printed, one per line. The entries of a trace
  file are an argument of the workload (\<open>None\<close> for an entry that \<open>tsfile_get_entries\<close> fails to
  read), \<open>tsload_create_request\<close> is an argument. \<open>None\<close> as outcome of the trace generator is the
  endless loop of \<open>step_trace_fetch_step\<close> behind the end of the file.
\<close>

section \<open>Generators\<close>

datatype step_ret = STEP_OK | STEP_NO_RQS | STEP_ERROR

record steps_file =
  sf_file :: string
  sf_file_out :: "int list"
  sf_step_id :: int
  sf_error :: bool

record steps_const =
  sc_num_steps :: cuint
  sc_step_id :: cuint
  sc_num_requests :: cuint

record 'p exp_request_entry =
  rqe_step :: int
  rqe_request :: int
  rqe_chain_request :: int
  rqe_thread :: int
  rqe_user :: int
  rqe_sched_time :: int
  rqe_params :: 'p

record 'p step_request_trace =
  strq_rqe :: "'p exp_request_entry"
  strq_chain_next :: "nat option"

record 'p step_workload_trace =
  stwl_requests :: "'p step_request_trace list"
  stwl_wl_name :: string
  stwl_file :: "'p exp_request_entry option list"
  stwl_file_index :: nat

datatype 'p steps_generator =
    STEPS_FILE steps_file
  | STEPS_CONST steps_const
  | STEPS_TRACE "'p steps_generator" "'p step_workload_trace list"

section \<open>Steps from a file\<close>

text \<open>
  \<open>fgets(str, n, file)\<close>: the line with its newline if it has one, what is left of the file, and
  whether the end of the file was hit.
\<close>

definition fgets :: "nat \<Rightarrow> string \<Rightarrow> string \<times> string \<times> bool" where
  "fgets n file =
     (let k = takeWhile (\<lambda>c. c \<noteq> CHR 0x0A) (take (n - 1) file) in
      if length k = n - 1 then (k, drop (n - 1) file, False)
      else if length k < length file then (k @ [CHR 0x0A], drop (length k + 1) file, False)
      else (k, [], True))"

text \<open>The loop of \<open>step_parse_line\<close>: the characters before the first white space, if all are digits.\<close>

fun step_line_digits :: "string \<Rightarrow> string option" where
  "step_line_digits [] = Some []"
| "step_line_digits (c # p) =
     (if c = NUL then Some []
      else if is_space c then Some []
      else if \<not> is_digit c then None
      else map_option (\<lambda>ds. c # ds) (step_line_digits p))"

definition step_parse_line :: "string \<Rightarrow> int" where
  "step_parse_line line = (case step_line_digits line of None \<Rightarrow> -2 | Some ds \<Rightarrow> dec_value ds)"

definition step_create_file :: "string option \<Rightarrow> bool \<Rightarrow> bool \<Rightarrow> steps_file option" where
  "step_create_file file out_exists out_opens =
     (case file of
        None \<Rightarrow> None
      | Some content \<Rightarrow>
          if out_exists then None
          else if \<not> out_opens then None
          else Some \<lparr>sf_file = content, sf_file_out = [], sf_step_id = 0, sf_error = False\<rparr>)"

text \<open>The number of requests is stored as an \<open>unsigned\<close>, the copy prints the \<open>long\<close>.\<close>

definition step_get_step_file :: "steps_file \<Rightarrow> step_ret \<times> int \<times> cuint option \<times> steps_file" where
  "step_get_step_file sf =
     (let step_id = sf_step_id sf in
      if sf_error sf then (STEP_ERROR, step_id, None, sf)
      else
        let (step_str, rest, eof) = fgets 16 (sf_file sf); sf1 = sf\<lparr>sf_file := rest\<rparr> in
        if eof then (STEP_NO_RQS, step_id, None, sf1)
        else
          let num_rqs = step_parse_line step_str in
          if num_rqs < 0 then (STEP_ERROR, step_id, None, sf1\<lparr>sf_error := True\<rparr>)
          else (STEP_OK, step_id, Some (of_int num_rqs),
                sf1\<lparr>sf_step_id := step_id + 1, sf_file_out := sf_file_out sf1 @ [num_rqs]\<rparr>))"

section \<open>Constant steps\<close>

definition step_create_const :: "int \<Rightarrow> cuint \<Rightarrow> steps_const option" where
  "step_create_const num_steps num_requests =
     (if num_steps < 0 then None
      else Some \<lparr>sc_num_steps = of_int num_steps, sc_step_id = 0, sc_num_requests = num_requests\<rparr>)"

definition step_get_step_const :: "steps_const \<Rightarrow> step_ret \<times> (int \<times> cuint) option \<times> steps_const" where
  "step_get_step_const sc =
     (if sc_step_id sc = sc_num_steps sc then (STEP_NO_RQS, None, sc)
      else (STEP_OK, Some (uint (sc_step_id sc), sc_num_requests sc), sc\<lparr>sc_step_id := sc_step_id sc + 1\<rparr>))"

section \<open>Steps from a trace\<close>

definition rq_request :: "'p step_request_trace \<Rightarrow> int" where
  "rq_request strq = rqe_request (strq_rqe strq)"

text \<open>
  \<open>step_trace_insert_rq\<close>: after the last request if its id is smaller, otherwise the requests
  before it are searched backwards; the second argument holds the requests still to be
  searched, the nearest first, the third the requests passed.
\<close>

fun step_search_back :: "'p step_request_trace \<Rightarrow> 'p step_request_trace list \<Rightarrow> 'p step_request_trace list \<Rightarrow>
    'p step_request_trace list" where
  "step_search_back strq [] passed = strq # passed"
| "step_search_back strq (prev # ps) passed =
     (if rq_request prev < rq_request strq then rev ps @ prev # strq # passed
      else step_search_back strq ps (prev # passed))"

definition step_trace_insert_rq :: "'p step_request_trace \<Rightarrow> 'p step_request_trace list \<Rightarrow> 'p step_request_trace list" where
  "step_trace_insert_rq strq requests =
     (if requests \<noteq> [] then
        (if rq_request (last requests) < rq_request strq then requests @ [strq]
         else step_search_back strq (rev (butlast requests)) [last requests])
      else [strq])"

definition step_trace_create_rq :: "'p exp_request_entry \<Rightarrow> 'p step_request_trace" where
  "step_trace_create_rq rqe = \<lparr>strq_rqe = rqe, strq_chain_next = None\<rparr>"

text \<open>
  The two nested loops of \<open>step_trace_fetch_step\<close>: the inner loop passes the entries of other
  steps and remembers the first of a later step.
\<close>

function step_fetch_loop ::
    "'p exp_request_entry option list \<Rightarrow> int \<Rightarrow> nat \<Rightarrow> nat \<Rightarrow> nat option \<Rightarrow> nat \<Rightarrow> 'p step_request_trace list \<Rightarrow>
     (step_ret \<times> nat \<times> nat option \<times> 'p step_request_trace list) option" where
  "step_fetch_loop file step_id num_rqs idx next_index fetched requests =
     (if fetched < num_rqs then
        (if idx = length file then Some (STEP_ERROR, idx, next_index, requests)
         else if idx < length file then
           (case file ! idx of
              None \<Rightarrow> Some (STEP_ERROR, idx, next_index, requests)
            | Some rqe \<Rightarrow>
                if rqe_step rqe = step_id
                then step_fetch_loop file step_id num_rqs (idx + 1) next_index (fetched + 1)
                       (step_trace_insert_rq (step_trace_create_rq rqe) requests)
                else step_fetch_loop file step_id num_rqs (idx + 1)
                       (if rqe_step rqe > step_id \<and> next_index = None then Some idx else next_index) fetched requests)
         else None)
      else Some (STEP_OK, idx, next_index, requests))"
  by pat_completeness auto
termination by (relation "measure (\<lambda>(file, _, _, idx, _). length file - idx)") auto

declare step_fetch_loop.simps [simp del]

definition step_trace_fetch_step :: "'p step_workload_trace \<Rightarrow> int \<Rightarrow> nat \<Rightarrow> (step_ret \<times> 'p step_workload_trace) option" where
  "step_trace_fetch_step stwl step_id num_rqs =
     (case step_fetch_loop (stwl_file stwl) step_id num_rqs (stwl_file_index stwl) None 0 (stwl_requests stwl) of
        None \<Rightarrow> None
      | Some (STEP_OK, idx, next_index, requests) \<Rightarrow>
          Some (STEP_OK, stwl\<lparr>stwl_requests := requests,
            stwl_file_index := (case next_index of None \<Rightarrow> idx | Some i \<Rightarrow> i)\<rparr>)
      | Some (ret, idx, next_index, requests) \<Rightarrow> Some (ret, stwl\<lparr>stwl_requests := requests\<rparr>))"

definition step_trace_count_chained_rqs :: "'p step_workload_trace \<Rightarrow> nat" where
  "step_trace_count_chained_rqs stwl =
     length (filter (\<lambda>strq. rqe_chain_request (strq_rqe strq) \<ge> 0) (stwl_requests stwl))"

definition step_trace_destroy_rqs :: "'p step_workload_trace \<Rightarrow> 'p step_workload_trace" where
  "step_trace_destroy_rqs stwl = stwl\<lparr>stwl_requests := []\<rparr>"

text \<open>Fetching for the workload and its chain; the number to fetch follows the chained requests.\<close>

fun step_fetch_chain :: "'p step_workload_trace list \<Rightarrow> int \<Rightarrow> nat \<Rightarrow> (step_ret \<times> 'p step_workload_trace list) option" where
  "step_fetch_chain [] step_id num_rqs = Some (STEP_OK, [])"
| "step_fetch_chain (stwl # chain) step_id num_rqs =
     (case step_trace_fetch_step stwl step_id num_rqs of
        None \<Rightarrow> None
      | Some (STEP_OK, stwl1) \<Rightarrow>
          map_option (\<lambda>(ret, chain1). (ret, stwl1 # chain1))
            (step_fetch_chain chain step_id (step_trace_count_chained_rqs stwl1))
      | Some (ret, stwl1) \<Rightarrow> Some (ret, stwl1 # chain))"

text \<open>
  Binding by ids: \<open>k\<close> is the position of \<open>strq_chain\<close> in the next workload's list \<open>chain\<close>.
\<close>

fun step_bind_requests :: "'p step_request_trace list \<Rightarrow> nat \<Rightarrow> 'p step_request_trace list \<Rightarrow> 'p step_request_trace list" where
  "step_bind_requests chain k [] = []"
| "step_bind_requests chain k (strq # strqs) =
     (if k = length chain then strq # strqs
      else if rq_request strq \<noteq> rq_request (chain ! k) then strq # step_bind_requests chain k strqs
      else strq\<lparr>strq_chain_next := Some k\<rparr> # step_bind_requests chain (k + 1) strqs)"

fun step_bind_chain :: "'p step_workload_trace list \<Rightarrow> 'p step_workload_trace list" where
  "step_bind_chain [] = []"
| "step_bind_chain [stwl] = [stwl]"
| "step_bind_chain (stwl # stwl_chain # chain) =
     stwl\<lparr>stwl_requests := step_bind_requests (stwl_requests stwl_chain) 0 (stwl_requests stwl)\<rparr> #
       step_bind_chain (stwl_chain # chain)"

text \<open>
  Creating the requests: the root request first, then those its chain leads to.
  \<open>create name chained step_id rqe\<close> extends the list of requests or fails.
\<close>

type_synonym ('p, 'q) create_fun = "string \<Rightarrow> bool \<Rightarrow> int \<Rightarrow> 'p exp_request_entry \<Rightarrow> 'q \<Rightarrow> 'q option"

fun step_create_chained ::
    "('p, 'q) create_fun \<Rightarrow> int \<Rightarrow> 'p step_workload_trace list \<Rightarrow> nat option \<Rightarrow> 'q \<Rightarrow> 'q option" where
  "step_create_chained create step_id [] nx rq_list = Some rq_list"
| "step_create_chained create step_id (stwl # chain) nx rq_list =
     (case nx of
        None \<Rightarrow> Some rq_list
      | Some k \<Rightarrow>
          (let strq = stwl_requests stwl ! k in
           case create (stwl_wl_name stwl) True step_id (strq_rqe strq) rq_list of
             None \<Rightarrow> None
           | Some rq_list1 \<Rightarrow> step_create_chained create step_id chain (strq_chain_next strq) rq_list1))"

fun step_create_all ::
    "('p, 'q) create_fun \<Rightarrow> int \<Rightarrow> string \<Rightarrow> 'p step_workload_trace list \<Rightarrow> 'p step_request_trace list \<Rightarrow> 'q \<Rightarrow> 'q option" where
  "step_create_all create step_id name chain [] rq_list = Some rq_list"
| "step_create_all create step_id name chain (strq # strqs) rq_list =
     (case create name False step_id (strq_rqe strq) rq_list of
        None \<Rightarrow> None
      | Some rq_list1 \<Rightarrow>
          (case step_create_chained create step_id chain (strq_chain_next strq) rq_list1 of
             None \<Rightarrow> None
           | Some rq_list2 \<Rightarrow> step_create_all create step_id name chain strqs rq_list2))"

text \<open>
  \<open>step_get_step\<close>: the result, step id and number of requests if they were set, the generator and
  the list of trace requests. On a failed creation the list is lost to the caller.
\<close>

fun step_get_step ::
    "('p, 'q) create_fun \<Rightarrow> 'p steps_generator \<Rightarrow> 'q \<Rightarrow>
     (step_ret \<times> (int \<times> cuint) option \<times> 'p steps_generator \<times> 'q option) option" where
  "step_get_step create (STEPS_FILE sf) rq_list =
     (let (ret, step_id, num, sf1) = step_get_step_file sf
      in Some (ret, map_option (\<lambda>n. (step_id, n)) num, STEPS_FILE sf1, Some rq_list))"
| "step_get_step create (STEPS_CONST sc) rq_list =
     (let (ret, r, sc1) = step_get_step_const sc in Some (ret, r, STEPS_CONST sc1, Some rq_list))"
| "step_get_step create (STEPS_TRACE parent chain) rq_list =
     (case step_get_step create parent rq_list of
        None \<Rightarrow> None
      | Some (STEP_OK, Some (step_id, num_requests), parent1, Some rq_list1) \<Rightarrow>
          (case step_fetch_chain chain step_id (unat num_requests) of
             None \<Rightarrow> None
           | Some (STEP_OK, chain1) \<Rightarrow>
               (let chain2 = step_bind_chain chain1;
                    done = STEPS_TRACE parent1 (map step_trace_destroy_rqs chain2) in
                case chain2 of
                  [] \<Rightarrow> Some (STEP_OK, Some (step_id, num_requests), done, Some rq_list1)
                | stwl # rest \<Rightarrow>
                    (case step_create_all create step_id (stwl_wl_name stwl) rest (stwl_requests stwl) rq_list1 of
                       None \<Rightarrow> Some (STEP_ERROR, None, done, None)
                     | Some rq_list2 \<Rightarrow> Some (STEP_OK, Some (step_id, num_requests), done, Some rq_list2)))
           | Some (ret, chain1) \<Rightarrow>
               Some (ret, None, STEPS_TRACE parent1 (map step_trace_destroy_rqs chain1), Some rq_list1))
      | Some (ret, _, parent1, rq_list1) \<Rightarrow> Some (ret, None, STEPS_TRACE parent1 chain, rq_list1))"

text \<open>\<open>step_create_trace\<close>: every workload of the chain must be in the base experiment.\<close>

definition step_create_trace ::
    "'p steps_generator \<Rightarrow> (string \<Rightarrow> ('p exp_request_entry option list \<times> nat) option) \<Rightarrow> string list \<Rightarrow> 'p steps_generator option" where
  "step_create_trace parent base names =
     map_option (STEPS_TRACE parent)
       (those (map (\<lambda>name. map_option (\<lambda>(file, idx).
            \<lparr>stwl_requests = [], stwl_wl_name = name, stwl_file = file, stwl_file_index = idx\<rparr>) (base name)) names))"

section \<open>Reading a file of steps\<close>

definition steps_text :: "nat list \<Rightarrow> string" where
  "steps_text ns = concat (map (\<lambda>n. nat_text n @ [CHR 0x0A]) ns)"

fun step_get_steps_file :: "nat \<Rightarrow> steps_file \<Rightarrow> (step_ret \<times> int \<times> cuint option) list \<times> steps_file" where
  "step_get_steps_file 0 sf = ([], sf)"
| "step_get_steps_file (Suc k) sf =
     (let (ret, step_id, num, sf1) = step_get_step_file sf; (rs, sf2) = step_get_steps_file k sf1
      in ((ret, step_id, num) # rs, sf2))"

lemma fgets_line:
  assumes "length ds < n - 1" and "CHR 0x0A \<notin> set ds"
  shows "fgets n (ds @ CHR 0x0A # rest) = (ds @ [CHR 0x0A], rest, False)"
proof -
  have "take (n - 1) (ds @ CHR 0x0A # rest) = ds @ CHR 0x0A # take (n - 2 - length ds) rest"
  proof -
    have "n - 1 - length ds = Suc (n - 2 - length ds)" using assms(1) by simp
    then show ?thesis using assms(1) by (simp only: take_append take_Suc_Cons) simp
  qed
  moreover have "takeWhile (\<lambda>c. c \<noteq> CHR 0x0A) (ds @ CHR 0x0A # take (n - 2 - length ds) rest) = ds"
    using assms(2) by (subst takeWhile_append2) auto
  ultimately show ?thesis using assms(1) by (simp add: fgets_def)
qed

lemma fgets_end: "1 < n \<Longrightarrow> fgets n [] = ([], [], True)"
  by (simp add: fgets_def)

lemma digit_not_NUL: "is_digit c \<Longrightarrow> c \<noteq> NUL \<and> c \<noteq> CHR 0x0A"
  by (auto simp: NUL_def is_digit_def char_in_def char_val_def)

lemma step_line_digits_line:
  assumes "\<forall>c \<in> set ds. is_digit c"
  shows "step_line_digits (ds @ CHR 0x0A # rest) = Some ds"
  using assms
proof (induction ds)
  case Nil
  show ?case by (simp add: is_space_def char_in_def char_val_def NUL_def)
next
  case (Cons d ds)
  then show ?case using digit_char_class(3) [of d] digit_not_NUL [of d] by simp
qed

lemma step_get_step_file_line:
  assumes "sf_file sf = nat_text n @ CHR 0x0A # rest" and "n < 10 ^ 14" and "\<not> sf_error sf"
  shows "step_get_step_file sf = (STEP_OK, sf_step_id sf, Some (of_nat n),
    sf\<lparr>sf_file := rest, sf_step_id := sf_step_id sf + 1, sf_file_out := sf_file_out sf @ [int n]\<rparr>)"
proof -
  have d: "\<forall>c \<in> set (nat_text n). is_digit c" by (rule nat_text_digits)
  then have lf: "CHR 0x0A \<notin> set (nat_text n)" using digit_not_NUL by blast
  have "length (nat_text n) \<le> 14" by (rule length_nat_text) (use assms(2) in simp_all)
  then have "fgets 16 (sf_file sf) = (nat_text n @ [CHR 0x0A], rest, False)"
    unfolding assms(1) using lf by (intro fgets_line) simp_all
  moreover have "step_parse_line (nat_text n @ [CHR 0x0A]) = int n"
    using step_line_digits_line [OF d, of "[]"] by (simp add: step_parse_line_def nat_text_value)
  ultimately show ?thesis using assms(3) by (simp add: step_get_step_file_def Let_def)
qed

section \<open>Fetching from a trace\<close>

lemma step_search_back_sorted:
  assumes "sorted (map rq_request (rev ps @ passed))" and "\<forall>x \<in> set passed. rq_request strq \<le> rq_request x"
  shows "sorted (map rq_request (step_search_back strq ps passed)) \<and>
    mset (step_search_back strq ps passed) = {#strq#} + mset ps + mset passed"
  using assms
proof (induction ps arbitrary: passed)
  case (Cons prev ps)
  show ?case
  proof (cases "rq_request prev < rq_request strq")
    case True
    have "\<forall>x \<in> set ps. rq_request x \<le> rq_request prev" "\<forall>x \<in> set passed. rq_request prev \<le> rq_request x"
      "sorted (map rq_request (rev ps))" "sorted (map rq_request passed)"
      using Cons.prems(1) by (auto simp: sorted_append)
    moreover from this have "\<forall>x \<in> set ps. \<forall>y \<in> set passed. rq_request x \<le> rq_request y" by force
    ultimately show ?thesis using True Cons.prems(2) by (auto simp: sorted_append)
  next
    case False
    then show ?thesis using Cons.IH [of "prev # passed"] Cons.prems by (auto simp: sorted_append)
  qed
qed (auto)

lemma step_trace_insert_sorted:
  assumes "sorted (map rq_request rs)"
  shows "sorted (map rq_request (step_trace_insert_rq strq rs)) \<and> mset (step_trace_insert_rq strq rs) = add_mset strq (mset rs)"
proof (cases "rs = []")
  case False
  then obtain bs b where rs: "rs = bs @ [b]" by (metis rev_exhaust)
  show ?thesis
  proof (cases "rq_request b < rq_request strq")
    case True
    have "\<forall>x \<in> set bs. rq_request x \<le> rq_request b" using assms rs by (simp add: sorted_append)
    then show ?thesis using True assms rs by (auto simp: step_trace_insert_rq_def sorted_append)
  next
    case False
    then show ?thesis using step_search_back_sorted [of "rev bs" "[b]" strq] assms rs by (simp add: step_trace_insert_rq_def)
  qed
qed (simp add: step_trace_insert_rq_def)

definition of_step :: "int \<Rightarrow> 'p exp_request_entry list \<Rightarrow> 'p exp_request_entry list" where
  "of_step step_id es = filter (\<lambda>e. rqe_step e = step_id) es"

text \<open>Entries passed on the way to \<open>idx\<close> belong to no later step unless that step's start is remembered.\<close>

definition no_later :: "'p exp_request_entry list \<Rightarrow> int \<Rightarrow> nat \<Rightarrow> nat \<Rightarrow> bool" where
  "no_later es step_id lo hi \<longleftrightarrow> (\<forall>j. lo \<le> j \<and> j < hi \<longrightarrow> rqe_step (es ! j) \<le> step_id)"

definition resume :: "nat \<Rightarrow> nat option \<Rightarrow> nat" where
  "resume idx nx = (case nx of None \<Rightarrow> idx | Some i \<Rightarrow> i)"

lemma no_later_Suc: "no_later es step_id lo hi \<Longrightarrow> rqe_step (es ! hi) \<le> step_id \<Longrightarrow> no_later es step_id lo (Suc hi)"
  by (auto simp: no_later_def less_Suc_eq)

lemma of_step_drop:
  assumes "idx < length es"
  shows "of_step step_id (drop idx es) =
    (if rqe_step (es ! idx) = step_id then es ! idx # of_step step_id (drop (Suc idx) es) else of_step step_id (drop (Suc idx) es))"
  using assms by (simp add: of_step_def Cons_nth_drop_Suc [symmetric])

lemma step_fetch_loop_fetches:
  assumes "idx \<le> length es" and "num - fetched \<le> length (of_step step_id (drop idx es))" and "sorted (map rq_request rs)"
    and "no_later es step_id lo (resume idx nx)" and "lo \<le> resume idx nx" and "resume idx nx \<le> idx"
  shows "\<exists>idx' nx' rs'. step_fetch_loop (map Some es) step_id num idx nx fetched rs = Some (STEP_OK, idx', nx', rs') \<and>
    sorted (map rq_request rs') \<and>
    mset rs' = mset rs + mset (map step_trace_create_rq (take (num - fetched) (of_step step_id (drop idx es)))) \<and>
    no_later es step_id lo (resume idx' nx') \<and> lo \<le> resume idx' nx' \<and> resume idx' nx' \<le> idx' \<and> idx' \<le> length es"
  using assms
proof (induction "length es - idx" arbitrary: idx nx fetched rs)
  case 0
  then have "\<not> fetched < num" by (simp add: of_step_def)
  then show ?case using 0 by (subst step_fetch_loop.simps) auto
next
  case (Suc k)
  then have lt: "idx < length es" by simp
  show ?case
  proof (cases "fetched < num")
    case False
    then show ?thesis using Suc.prems by (subst step_fetch_loop.simps) auto
  next
    case True
    let ?e = "es ! idx"
    have k: "k = length es - Suc idx" using Suc.hyps(2) by simp
    show ?thesis
    proof (cases "rqe_step ?e = step_id")
      case hit: True
      let ?rs = "step_trace_insert_rq (step_trace_create_rq ?e) rs"
      have ins: "sorted (map rq_request ?rs)" "mset ?rs = add_mset (step_trace_create_rq ?e) (mset rs)"
        using step_trace_insert_sorted [OF Suc.prems(3)] by auto
      have nl: "no_later es step_id lo (resume (Suc idx) nx)" "lo \<le> resume (Suc idx) nx" "resume (Suc idx) nx \<le> Suc idx"
        using Suc.prems(4-6) no_later_Suc [of es step_id lo idx] hit by (auto simp: resume_def split: option.splits)
      have m: "num - fetched = Suc (num - Suc fetched)" using True by simp
      have "num - Suc fetched \<le> length (of_step step_id (drop (Suc idx) es))"
        using Suc.prems(2) True of_step_drop [OF lt, of step_id] hit by simp
      from Suc.hyps(1) [OF k _ this ins(1) nl] lt obtain idx' nx' rs' where
        r: "step_fetch_loop (map Some es) step_id num (Suc idx) nx (Suc fetched) ?rs = Some (STEP_OK, idx', nx', rs')"
          "sorted (map rq_request rs')"
          "mset rs' = mset ?rs + mset (map step_trace_create_rq (take (num - Suc fetched) (of_step step_id (drop (Suc idx) es))))"
          "no_later es step_id lo (resume idx' nx')" "lo \<le> resume idx' nx'" "resume idx' nx' \<le> idx'" "idx' \<le> length es"
        by auto
      have "step_fetch_loop (map Some es) step_id num idx nx fetched rs = Some (STEP_OK, idx', nx', rs')"
        using r(1) True lt hit by (subst step_fetch_loop.simps) simp
      moreover have "mset rs' = mset rs + mset (map step_trace_create_rq (take (num - fetched) (of_step step_id (drop idx es))))"
        using r(3) ins(2) of_step_drop [OF lt, of step_id] hit unfolding m by simp
      ultimately show ?thesis using r(2,4-7) by blast
    next
      case miss: False
      let ?nx = "if rqe_step ?e > step_id \<and> nx = None then Some idx else nx"
      have nl: "no_later es step_id lo (resume (Suc idx) ?nx)" "lo \<le> resume (Suc idx) ?nx" "resume (Suc idx) ?nx \<le> Suc idx"
        using Suc.prems(4-6) no_later_Suc [of es step_id lo idx] by (auto simp: resume_def split: option.splits)
      have same: "of_step step_id (drop idx es) = of_step step_id (drop (Suc idx) es)" using of_step_drop [OF lt, of step_id] miss by simp
      have eq: "step_fetch_loop (map Some es) step_id num idx nx fetched rs = step_fetch_loop (map Some es) step_id num (Suc idx) ?nx fetched rs"
        using True lt miss by (subst step_fetch_loop.simps) simp
      show ?thesis unfolding eq same
        using Suc.prems(2) lt by (intro Suc.hyps(1) [OF k _ _ Suc.prems(3) nl]) (simp_all add: same)
    qed
  qed
qed

lemma step_fetch_loop_short:
  assumes "idx \<le> length es" and "length (of_step step_id (drop idx es)) < num - fetched"
  shows "\<exists>idx' nx' rs'. step_fetch_loop (map Some es) step_id num idx nx fetched rs = Some (STEP_ERROR, idx', nx', rs')"
  using assms
proof (induction "length es - idx" arbitrary: idx nx fetched rs)
  case 0
  then have "fetched < num" "idx = length es" by simp_all
  then show ?case by (subst step_fetch_loop.simps) simp
next
  case (Suc k)
  then have lt: "idx < length es" and k: "k = length es - Suc idx" and f: "fetched < num" by simp_all
  note drop1 = of_step_drop [OF lt, of step_id]
  let ?nx = "if rqe_step (es ! idx) > step_id \<and> nx = None then Some idx else nx"
  show ?case
  proof (cases "rqe_step (es ! idx) = step_id")
    case True
    have eq: "step_fetch_loop (map Some es) step_id num idx nx fetched rs =
        step_fetch_loop (map Some es) step_id num (Suc idx) nx (Suc fetched) (step_trace_insert_rq (step_trace_create_rq (es ! idx)) rs)"
      using f lt True by (subst step_fetch_loop.simps) simp
    show ?thesis unfolding eq using Suc.prems lt drop1 True by (intro Suc.hyps(1) [OF k]) simp_all
  next
    case False
    have eq: "step_fetch_loop (map Some es) step_id num idx nx fetched rs = step_fetch_loop (map Some es) step_id num (Suc idx) ?nx fetched rs"
      using f lt False by (subst step_fetch_loop.simps) simp
    show ?thesis unfolding eq using Suc.prems lt drop1 False by (intro Suc.hyps(1) [OF k]) simp_all
  qed
qed

section \<open>Binding chained requests\<close>

lemma step_bind_requests_length [simp]: "length (step_bind_requests chain k rs) = length rs"
  by (induction chain k rs rule: step_bind_requests.induct) auto

lemma step_bind_requests_rqe: "map strq_rqe (step_bind_requests chain k rs) = map strq_rqe rs"
  by (induction chain k rs rule: step_bind_requests.induct) auto

lemma step_bind_requests_binds:
  assumes "sorted_wrt (<) (map rq_request rs)" and "sorted_wrt (<) (map rq_request chain)"
    and "\<forall>j. k \<le> j \<and> j < length chain \<longrightarrow> rq_request (chain ! j) \<in> rq_request ` set rs" and "k \<le> length chain" and "i < length rs"
    and "\<forall>r \<in> set rs. strq_chain_next r = None"
  shows "strq_chain_next (step_bind_requests chain k rs ! i) = Some j \<longleftrightarrow>
    k \<le> j \<and> j < length chain \<and> rq_request (chain ! j) = rq_request (rs ! i)"
  using assms
proof (induction chain k rs arbitrary: i rule: step_bind_requests.induct)
  case (2 chain k r rs)
  have less: "\<forall>x \<in> set rs. rq_request r < rq_request x" using "2.prems"(1) by simp
  have mono: "rq_request (chain ! a) < rq_request (chain ! b)" if "a < b" "b < length chain" for a b
    using "2.prems"(2) that by (simp add: sorted_wrt_iff_nth_less)
  have inj: "a = b" if "rq_request (chain ! a) = rq_request (chain ! b)" "a < length chain" "b < length chain" for a b
    using that mono [of a b] mono [of b a] by (cases a b rule: linorder_cases) auto
  consider "k = length chain" | "k < length chain" "rq_request r \<noteq> rq_request (chain ! k)"
    | "k < length chain" "rq_request r = rq_request (chain ! k)" using "2.prems"(4) by linarith
  then show ?case
  proof cases
    case 1
    then show ?thesis using "2.prems"(5,6) by (cases i) auto
  next
    case 2
    have gt: "rq_request r < rq_request (chain ! j)" if "k \<le> j" "j < length chain" for j
    proof -
      have "rq_request (chain ! k) \<in> rq_request ` set (r # rs)" using "2.prems"(3) 2(1) by blast
      then have "rq_request r < rq_request (chain ! k)" using 2(2) less by auto
      then show ?thesis using mono [of k j] that by (cases "j = k") auto
    qed
    then have sub: "\<forall>j. k \<le> j \<and> j < length chain \<longrightarrow> rq_request (chain ! j) \<in> rq_request ` set rs" using "2.prems"(3) by fastforce
    show ?thesis
    proof (cases i)
      case 0
      have "\<not> (k \<le> j \<and> j < length chain \<and> rq_request (chain ! j) = rq_request r)" using gt [of j] by auto
      moreover have "step_bind_requests chain k (r # rs) ! i = r" using 0 2 by simp
      ultimately show ?thesis using 0 "2.prems"(6) by simp
    next
      case (Suc i')
      have "strq_chain_next (step_bind_requests chain k rs ! i') = Some j \<longleftrightarrow>
          k \<le> j \<and> j < length chain \<and> rq_request (chain ! j) = rq_request (rs ! i')"
        using 2 "2.prems" sub Suc by (intro "2.IH"(1)) auto
      moreover have "step_bind_requests chain k (r # rs) ! i = step_bind_requests chain k rs ! i'" using Suc 2 by simp
      ultimately show ?thesis using Suc by simp
    qed
  next
    case 3
    have sub: "\<forall>j. Suc k \<le> j \<and> j < length chain \<longrightarrow> rq_request (chain ! j) \<in> rq_request ` set rs"
    proof (intro allI impI)
      fix j
      assume j: "Suc k \<le> j \<and> j < length chain"
      then have "rq_request (chain ! j) \<in> rq_request ` set (r # rs)" using "2.prems"(3) by simp
      moreover have "rq_request (chain ! j) \<noteq> rq_request r" using mono [of k j] j 3(2) by simp
      ultimately show "rq_request (chain ! j) \<in> rq_request ` set rs" by simp
    qed
    show ?thesis
    proof (cases i)
      case 0
      then have "strq_chain_next (step_bind_requests chain k (r # rs) ! i) = Some k" using 3 by simp
      moreover have "k = j \<longleftrightarrow> k \<le> j \<and> j < length chain \<and> rq_request (chain ! j) = rq_request r" using 3 inj [of j k] by auto
      ultimately show ?thesis using 0 by simp
    next
      case (Suc i')
      then have "rs ! i' \<in> set rs" using "2.prems"(5) by simp
      then have "rq_request (chain ! k) \<noteq> rq_request (rs ! i')" using less 3(2) by force
      then have ge: "k \<le> j \<and> rq_request (chain ! j) = rq_request (rs ! i') \<longleftrightarrow> Suc k \<le> j \<and> rq_request (chain ! j) = rq_request (rs ! i')"
        by (cases "j = k") auto
      have "strq_chain_next (step_bind_requests chain (k + 1) rs ! i') = Some j \<longleftrightarrow>
          k + 1 \<le> j \<and> j < length chain \<and> rq_request (chain ! j) = rq_request (rs ! i')"
        using 3 "2.prems" sub Suc by (intro "2.IH"(2)) auto
      moreover have "step_bind_requests chain k (r # rs) ! i = step_bind_requests chain (k + 1) rs ! i'" using Suc 3 by simp
      ultimately show ?thesis using ge Suc by auto
    qed
  qed
qed simp

section \<open>Properties of the step generators\<close>

text \<open>
  A file with one number below ten to the fourteenth per line is replayed step by step, with
  consecutive step ids and the numbers as \<open>unsigned\<close>; the copy holds the numbers themselves,
  and after the last line the generator reports that there are no more steps.
\<close>

theorem step_file_replays:
  assumes "sf_file sf = steps_text ns" and "\<forall>n \<in> set ns. n < 10 ^ 14" and "\<not> sf_error sf"
  shows "\<exists>sf'. step_get_steps_file (length ns) sf =
      (map (\<lambda>i. (STEP_OK, sf_step_id sf + int i, Some (of_nat (ns ! i)))) [0..<length ns], sf') \<and>
    sf_file_out sf' = sf_file_out sf @ map int ns \<and> fst (step_get_step_file sf') = STEP_NO_RQS"
  using assms
proof (induction ns arbitrary: sf)
  case Nil
  then show ?case by (simp add: step_get_step_file_def steps_text_def fgets_end)
next
  case (Cons n ns)
  let ?sf = "sf\<lparr>sf_file := steps_text ns, sf_step_id := sf_step_id sf + 1, sf_file_out := sf_file_out sf @ [int n]\<rparr>"
  have "step_get_step_file sf = (STEP_OK, sf_step_id sf, Some (of_nat n), ?sf)"
    using Cons.prems by (intro step_get_step_file_line) (simp_all add: steps_text_def)
  moreover obtain sf' where "step_get_steps_file (length ns) ?sf =
      (map (\<lambda>i. (STEP_OK, sf_step_id ?sf + int i, Some (of_nat (ns ! i)))) [0..<length ns], sf')"
      "sf_file_out sf' = sf_file_out ?sf @ map int ns" "fst (step_get_step_file sf') = STEP_NO_RQS"
    using Cons.IH [of ?sf] Cons.prems by auto
  moreover have "map (\<lambda>i. (STEP_OK, sf_step_id sf + int i, Some (of_nat ((n # ns) ! i) :: cuint))) [0..<length (n # ns)] =
      (STEP_OK, sf_step_id sf, Some (of_nat n)) #
        map (\<lambda>i. (STEP_OK, sf_step_id ?sf + int i, Some (of_nat (ns ! i)))) [0..<length ns]"
    by (simp add: upt_conv_Cons map_Suc_upt [symmetric] del: upt_Suc)
  ultimately show ?case by simp
qed

definition demo_steps_file :: steps_file where
  "demo_steps_file = \<lparr>sf_file = steps_text [5, 0, 12], sf_file_out = [], sf_step_id = 0, sf_error = False\<rparr>"

theorem step_file_replays_witness:
  "\<exists>sf'. step_get_steps_file 3 demo_steps_file = ([(STEP_OK, 0, Some 5), (STEP_OK, 1, Some 0), (STEP_OK, 2, Some 12)], sf') \<and>
     sf_file_out sf' = [5, 0, 12]"
proof -
  have l: "length [5, 0, 12 :: nat] = 3" "[0..<3] = [0, 1, 2 :: nat]" by (simp_all add: upt_rec)
  have "sf_file demo_steps_file = steps_text [5, 0, 12]" "\<not> sf_error demo_steps_file" by (simp_all add: demo_steps_file_def)
  then obtain sf' where "step_get_steps_file 3 demo_steps_file =
      (map (\<lambda>i. (STEP_OK, sf_step_id demo_steps_file + int i, Some (of_nat ([5, 0, 12] ! i)))) [0, 1, 2], sf')"
      "sf_file_out sf' = sf_file_out demo_steps_file @ map int [5, 0, 12]"
    using step_file_replays [of demo_steps_file "[5, 0, 12]"] unfolding l by auto
  then show ?thesis by (simp add: demo_steps_file_def)
qed

text \<open>
  C19. Fetching the requests of a step from a trace takes the first entries of that step from the
  remembered position on, sorted by request id, and remembers a position before which no
  entry of a later step lies. It fails exactly when the trace has too few entries of the
  step, and then keeps its position.
\<close>

theorem step_trace_fetch_correct:
  fixes stwl :: "'p step_workload_trace" and step_id :: int and num_rqs :: nat
  assumes "stwl_file stwl = map Some es" and "stwl_requests stwl = []" and "stwl_file_index stwl \<le> length es"
  defines "sel \<equiv> of_step step_id (drop (stwl_file_index stwl) es)"
  shows "if num_rqs \<le> length sel
    then \<exists>stwl'. step_trace_fetch_step stwl step_id num_rqs = Some (STEP_OK, stwl') \<and>
      sorted (map rq_request (stwl_requests stwl')) \<and>
      mset (map strq_rqe (stwl_requests stwl')) = mset (take num_rqs sel) \<and>
      stwl_file_index stwl \<le> stwl_file_index stwl' \<and> stwl_file_index stwl' \<le> length es \<and>
      no_later es step_id (stwl_file_index stwl) (stwl_file_index stwl')
    else \<exists>stwl'. step_trace_fetch_step stwl step_id num_rqs = Some (STEP_ERROR, stwl') \<and>
      stwl_file_index stwl' = stwl_file_index stwl"
proof (cases "num_rqs \<le> length sel")
  case True
  let ?i = "stwl_file_index stwl"
  obtain idx' nx' rs' where l: "step_fetch_loop (map Some es) step_id num_rqs ?i None 0 [] = Some (STEP_OK, idx', nx', rs')"
      "sorted (map rq_request rs')" "mset rs' = mset [] + mset (map step_trace_create_rq (take (num_rqs - 0) sel))"
      "no_later es step_id ?i (resume idx' nx')" "?i \<le> resume idx' nx'" "resume idx' nx' \<le> idx'" "idx' \<le> length es"
    using step_fetch_loop_fetches [of ?i es num_rqs 0 step_id "[]" ?i None] assms(3) True
    by (auto simp: sel_def resume_def no_later_def)
  have "mset (map strq_rqe rs') = image_mset strq_rqe (mset (map step_trace_create_rq (take num_rqs sel)))"
    using l(3) by (simp only: mset_map) simp
  also have "\<dots> = mset (take num_rqs sel)" by (simp add: step_trace_create_rq_def comp_def flip: mset_map)
  finally have "mset (map strq_rqe rs') = mset (take num_rqs sel)" .
  then show ?thesis using True l assms(1,2) by (simp add: step_trace_fetch_step_def resume_def [symmetric])
next
  case False
  then obtain idx' nx' rs' where
    "step_fetch_loop (map Some es) step_id num_rqs (stwl_file_index stwl) None 0 [] = Some (STEP_ERROR, idx', nx', rs')"
    using step_fetch_loop_short [of "stwl_file_index stwl" es step_id num_rqs 0 None "[]"] assms(3) by (auto simp: sel_def)
  then show ?thesis using False assms(1,2) by (simp add: step_trace_fetch_step_def)
qed

definition demo_entry :: "int \<Rightarrow> int \<Rightarrow> int \<Rightarrow> unit exp_request_entry" where
  "demo_entry st rq ch = \<lparr>rqe_step = st, rqe_request = rq, rqe_chain_request = ch, rqe_thread = 0, rqe_user = 0, rqe_sched_time = 0, rqe_params = ()\<rparr>"

definition demo_trace :: "unit exp_request_entry list" where
  "demo_trace = [demo_entry 2 5 (-1), demo_entry 3 1 (-1), demo_entry 4 0 (-1), demo_entry 3 0 (-1)]"

definition demo_stwl :: "unit step_workload_trace" where
  "demo_stwl = \<lparr>stwl_requests = [], stwl_wl_name = ''w'', stwl_file = map Some demo_trace, stwl_file_index = 1\<rparr>"

theorem step_trace_fetch_correct_witness:
  "\<exists>stwl'. step_trace_fetch_step demo_stwl 3 2 = Some (STEP_OK, stwl') \<and>
     sorted (map rq_request (stwl_requests stwl')) \<and>
     mset (map strq_rqe (stwl_requests stwl')) = {#demo_entry 3 1 (-1), demo_entry 3 0 (-1)#}"
proof -
  have "of_step 3 (drop (stwl_file_index demo_stwl) demo_trace) = [demo_entry 3 1 (-1), demo_entry 3 0 (-1)]"
    by (simp add: demo_stwl_def demo_trace_def of_step_def demo_entry_def)
  then show ?thesis
    using step_trace_fetch_correct [of demo_stwl demo_trace 2 3] by (auto simp: demo_stwl_def demo_trace_def)
qed

text \<open>
  When the ids of the chained requests all occur among the parent's, a parent request is bound
  to the chained request with its own id and to no other.
\<close>

theorem step_bind_by_id:
  assumes "sorted_wrt (<) (map rq_request rs)" and "sorted_wrt (<) (map rq_request chain)"
    and "rq_request ` set chain \<subseteq> rq_request ` set rs" and "i < length rs" and "\<forall>r \<in> set rs. strq_chain_next r = None"
  shows "strq_chain_next (step_bind_requests chain 0 rs ! i) = Some j \<longleftrightarrow>
    j < length chain \<and> rq_request (chain ! j) = rq_request (rs ! i)"
proof -
  have "\<forall>j. 0 \<le> j \<and> j < length chain \<longrightarrow> rq_request (chain ! j) \<in> rq_request ` set rs" using assms(3) by (auto dest: nth_mem)
  from step_bind_requests_binds [OF assms(1,2) this _ assms(4,5)] show ?thesis by simp
qed

theorem step_bind_by_id_witness:
  "strq_chain_next (step_bind_requests [step_trace_create_rq (demo_entry 3 4 (-1))] 0
     [step_trace_create_rq (demo_entry 3 1 (-1)), step_trace_create_rq (demo_entry 3 4 7)] ! 1) = Some 0"
  using step_bind_by_id [of "[step_trace_create_rq (demo_entry 3 1 (-1)), step_trace_create_rq (demo_entry 3 4 7)]"
      "[step_trace_create_rq (demo_entry 3 4 (-1))]" 1 0]
  by (simp add: rq_request_def step_trace_create_rq_def demo_entry_def)

text \<open>
  Steps of 15 characters and more on a line are cut into several steps: \<open>fgets\<close> reads into 16
  bytes, and the rest of the line is taken as the next line.
\<close>

theorem step_file_splits_long_lines:
  "fst (step_get_steps_file 2 \<lparr>sf_file = ''100000000000000'' @ ''7'' @ [CHR 0x0A], sf_file_out = [], sf_step_id = 0, sf_error = False\<rparr>) =
     [(STEP_OK, 0, Some (of_int 100000000000000)), (STEP_OK, 1, Some 7)]"
  by (simp add: step_get_step_file_def fgets_def step_parse_line_def is_space_def is_digit_def char_in_def char_val_def NUL_def
      dec_value_def digit_val_def numeral_eq_Suc Let_def)

end
