(* ===== verification/Workload.thy ===== *)
theory Workload
  imports RequestQueue
begin

text \<open>
  The life of one workload (\<open>libtsload/workload.c\<close>, \<open>worker.c\<close>): status and status flags, the
  notifications to the experiment, the ring of pending steps and the part of the control
  thread that advances a workload. Mutexes protect single calls and are left out; the clock
  readings are arguments, notifications are the messages a call pushes, without their texts.
  \<open>None\<close> is a failed \<open>assert\<close>. The scheduler class, the module callbacks and the creation of requests are
  arguments.
\<close>

section \<open>State\<close>

datatype wl_status =
    WLS_NEW | WLS_CHAINED | WLS_CONFIGURING | WLS_CFG_FAIL | WLS_CONFIGURED | WLS_STARTED
  | WLS_RUNNING | WLS_FINISHED | WLS_DESTROYED | WLS_STOPPED

definition wl_status_number :: "wl_status \<Rightarrow> nat" where
  "wl_status_number s =
     (case s of WLS_NEW \<Rightarrow> 0 | WLS_CHAINED \<Rightarrow> 1 | WLS_CONFIGURING \<Rightarrow> 2 | WLS_CFG_FAIL \<Rightarrow> 3
      | WLS_CONFIGURED \<Rightarrow> 4 | WLS_STARTED \<Rightarrow> 5 | WLS_RUNNING \<Rightarrow> 6 | WLS_FINISHED \<Rightarrow> 7
      | WLS_DESTROYED \<Rightarrow> 8 | WLS_STOPPED \<Rightarrow> 9)"

definition WLSTEPQSIZE :: nat where "WLSTEPQSIZE = 16"

definition TS_TIME_MAX :: int where "TS_TIME_MAX = 2 ^ 63 - 1"

definition T_SEC :: int where "T_SEC = 1000000000"

definition WL_NOTIFICATIONS_PER_SEC :: int where "WL_NOTIFICATIONS_PER_SEC = 20"

text \<open>The fields \<open>wl_name\<close>, \<open>wl_start_clock\<close> and \<open>wl_current_step\<close> are those a request refers to.\<close>

record workload = tp_workload +
  wl_status :: wl_status
  wl_status_flags :: "64 word"
  wl_current_rq :: int
  wl_start_time :: int
  wl_notify_time :: int
  wl_time :: int
  wl_last_step :: int
  wl_step_queue :: "workload_step list"
  wl_deadline :: int

record wl_notify_msg =
  msg_wl_name :: string
  msg_status :: wl_status
  msg_progress :: int

definition WL_SET_STATUS :: "workload \<Rightarrow> wl_status \<Rightarrow> workload" where
  "WL_SET_STATUS wl status =
     wl\<lparr>wl_status := status, wl_status_flags := wl_status_flags wl OR push_bit (wl_status_number status) 1\<rparr>"

definition WL_HAD_STATUS :: "workload \<Rightarrow> wl_status \<Rightarrow> bool" where
  "WL_HAD_STATUS wl status \<longleftrightarrow> wl_status_flags wl AND push_bit (wl_status_number status) 1 \<noteq> 0"

text \<open>\<open>wl_create\<close> leaves \<open>wl_deadline\<close> as it finds it; the caller sets it.\<close>

definition wl_create :: "string \<Rightarrow> int \<Rightarrow> workload" where
  "wl_create name deadline =
     WL_SET_STATUS
       \<lparr>wl_name = name, wl_start_clock = TS_TIME_MAX, wl_current_step = -1, wl_status = WLS_NEW, wl_status_flags = 0,
        wl_current_rq = 0, wl_start_time = TS_TIME_MAX, wl_notify_time = 0, wl_time = 0, wl_last_step = -1,
        wl_step_queue = replicate WLSTEPQSIZE \<lparr>wls_rq_count = 0, wls_trace_rqs = []\<rparr>, wl_deadline = deadline\<rparr>
       WLS_NEW"

section \<open>Notifications\<close>

definition wl_notify_progress :: "workload \<Rightarrow> wl_status \<Rightarrow> int \<Rightarrow> int option" where
  "wl_notify_progress wl status progress =
     (case status of
        WLS_CONFIGURING \<Rightarrow> Some (if progress < 0 then 0 else if progress > 100 then 100 else progress)
      | WLS_CFG_FAIL \<Rightarrow> Some (-1)
      | WLS_CONFIGURED \<Rightarrow> Some 100
      | WLS_RUNNING \<Rightarrow> Some (wl_current_step wl)
      | WLS_FINISHED \<Rightarrow> Some (wl_current_step wl)
      | WLS_DESTROYED \<Rightarrow> Some (wl_current_step wl)
      | WLS_STOPPED \<Rightarrow> Some (wl_current_step wl)
      | _ \<Rightarrow> None)"

definition wl_notify ::
    "int \<Rightarrow> workload \<Rightarrow> wl_status \<Rightarrow> int \<Rightarrow> (workload \<times> wl_notify_msg list) option" where
  "wl_notify now wl status progress =
     (if status = WLS_CONFIGURING \<and> progress > 2 \<and> progress < 98 \<and>
         now - wl_notify_time wl < T_SEC div WL_NOTIFICATIONS_PER_SEC
      then Some (wl, [])
      else
        let wl1 = wl\<lparr>wl_notify_time := now\<rparr> in
        case wl_notify_progress wl1 status progress of
          None \<Rightarrow> None
        | Some p \<Rightarrow>
            Some (WL_SET_STATUS wl1 status,
                  [\<lparr>msg_wl_name = wl_name wl1, msg_status = status, msg_progress = p\<rparr>]))"

definition wl_finish :: "int \<Rightarrow> workload \<Rightarrow> (workload \<times> wl_notify_msg list) option" where
  "wl_finish now wl = wl_notify now wl WLS_FINISHED (wl_current_step wl)"

definition wl_stop :: "int \<Rightarrow> workload \<Rightarrow> (workload \<times> wl_notify_msg list) option" where
  "wl_stop now wl = wl_notify now wl WLS_STOPPED (wl_current_step wl)"

text \<open>
  \<open>wl_config_thread\<close>: \<open>config\<close> is the result of the module's \<open>wlt_wl_config\<close>, which may have sent
  notifications of its own and returned the workload changed; the pool attaches in between.
\<close>

definition wl_config_thread ::
    "int \<Rightarrow> int \<Rightarrow> (workload \<Rightarrow> int \<times> workload \<times> wl_notify_msg list) \<Rightarrow> workload \<Rightarrow>
     (workload \<times> wl_notify_msg list) option" where
  "wl_config_thread now1 now2 config wl =
     (case wl_notify now1 wl WLS_CONFIGURING 0 of
        None \<Rightarrow> None
      | Some (wl1, m1) \<Rightarrow>
          (let (ret, wl2, m2) = config wl1 in
           if ret \<noteq> 0 then Some (wl2, m1 @ m2)
           else (case wl_notify now2 wl2 WLS_CONFIGURED 100 of
                   None \<Rightarrow> None
                 | Some (wl3, m3) \<Rightarrow> Some (wl3, m1 @ m2 @ m3))))"

definition wl_is_started :: "int \<Rightarrow> workload \<Rightarrow> bool \<times> workload" where
  "wl_is_started now wl =
     (if WL_HAD_STATUS wl WLS_STARTED then (True, wl)
      else if wl_status wl = WLS_CONFIGURED \<and> now \<ge> wl_start_time wl
      then (True, WL_SET_STATUS wl WLS_STARTED)
      else (False, wl))"

definition wl_try_finish_stopped :: "int \<Rightarrow> workload \<Rightarrow> (workload \<times> wl_notify_msg list) option" where
  "wl_try_finish_stopped now wl =
     (if \<not> WL_HAD_STATUS wl WLS_STOPPED then Some (wl, [])
      else wl_finish now (wl\<lparr>wl_last_step := wl_current_step wl\<rparr>))"

section \<open>Steps\<close>

datatype wl_step_ret = WL_STEP_OK | WL_STEP_QUEUE_FULL | WL_STEP_INVALID

text \<open>\<open>step_id & WLSTEPQMASK\<close> for the two's complement \<open>long\<close>.\<close>

definition step_off :: "int \<Rightarrow> nat" where
  "step_off step_id = nat (step_id mod int WLSTEPQSIZE)"

definition wl_provide_step ::
    "workload \<Rightarrow> int \<Rightarrow> nat \<Rightarrow> request list \<Rightarrow> wl_step_ret \<times> workload \<times> request list" where
  "wl_provide_step wl step_id num_rqs trace_rqs =
     (if wl_last_step wl - wl_current_step wl + 1 = int WLSTEPQSIZE then (WL_STEP_QUEUE_FULL, wl, trace_rqs)
      else if step_id \<noteq> wl_last_step wl + 1 then (WL_STEP_INVALID, wl, trace_rqs)
      else
        let off = step_off step_id; step = wl_step_queue wl ! off
        in (WL_STEP_OK,
            wl\<lparr>wl_last_step := step_id,
               wl_step_queue := (wl_step_queue wl)
                 [off := \<lparr>wls_rq_count = num_rqs, wls_trace_rqs = trace_rqs @ wls_trace_rqs step\<rparr>]\<rparr>,
            []))"

definition wl_advance_step ::
    "(workload_step \<Rightarrow> 'r \<Rightarrow> 'r) \<Rightarrow> int \<Rightarrow> workload \<Rightarrow> 'r \<Rightarrow>
     (workload_step option \<times> workload \<times> 'r \<times> wl_notify_msg list) option" where
  "wl_advance_step rqsched_step now wl rs =
     (let wl1 = wl\<lparr>wl_current_step := wl_current_step wl + 1, wl_current_rq := 0\<rparr> in
      if wl_current_step wl1 > wl_last_step wl1
      then (case wl_finish now wl1 of None \<Rightarrow> None | Some (wl2, m) \<Rightarrow> Some (None, wl2, rs, m))
      else let step = wl_step_queue wl1 ! step_off (wl_current_step wl1)
           in Some (Some step, wl1, rqsched_step step rs, []))"

section \<open>The control thread\<close>

definition set_step :: "workload \<Rightarrow> workload_step \<Rightarrow> workload" where
  "set_step wl step = wl\<lparr>wl_step_queue := (wl_step_queue wl)[step_off (wl_current_step wl) := step]\<rparr>"

text \<open>
  How far \<open>tp_distribute_requests\<close> moves \<open>wl_current_rq\<close>: \<open>wl_create_request\<close> numbers the requests
  it creates, those of a trace have their own numbers.
\<close>

definition created_rqs :: "workload_step \<Rightarrow> int" where
  "created_rqs step = (if wls_trace_rqs step = [] then int (wls_rq_count step) else 0)"

text \<open>The start clock and time of the workload and its chain.\<close>

definition control_set_clock :: "int \<Rightarrow> int \<Rightarrow> workload \<Rightarrow> workload list \<Rightarrow> workload list" where
  "control_set_clock tp_time tp_quantum wl chain =
     (if wl_start_clock wl = TS_TIME_MAX
      then map (\<lambda>w. w\<lparr>wl_start_clock := tp_time, wl_time := 0\<rparr>) (wl # chain)
      else map (\<lambda>w. w\<lparr>wl_time := wl_time w + tp_quantum\<rparr>) (wl # chain))"

record ('r, 's) wl_env =
  env_rqsched_step :: "workload_step \<Rightarrow> 'r \<Rightarrow> 'r"
  env_wl_step :: "(workload_step \<Rightarrow> workload_step) option"
  env_run_request :: bool
  env_create :: "workload \<Rightarrow> 's \<Rightarrow> request \<times> 's"
  env_hold :: "request \<Rightarrow> 's \<Rightarrow> 's"

record ('r, 's) control_state =
  cs_chain :: "workload list"
  cs_rqsched :: 'r
  cs_requests :: 's
  cs_rq_head :: "request list"

definition control_prepare_step ::
    "('r, 's) wl_env \<Rightarrow> int \<Rightarrow> int \<Rightarrow> int \<Rightarrow> workload \<Rightarrow> ('r, 's) control_state \<Rightarrow>
     (tp_error + workload \<times> ('r, 's) control_state \<times> wl_notify_msg list) option" where
  "control_prepare_step env now tp_time tp_quantum wl cs =
     (case wl_try_finish_stopped now wl of
        None \<Rightarrow> None
      | Some (wl1, m1) \<Rightarrow>
          (let (started, wl2) = wl_is_started now wl1 in
           if \<not> started then Some (Inr (wl2, cs, m1))
           else
             case control_set_clock tp_time tp_quantum wl2 (cs_chain cs) of
               [] \<Rightarrow> None
             | wl3 # chain \<Rightarrow>
                 (let cs1 = cs\<lparr>cs_chain := chain\<rparr> in
                  case wl_advance_step (env_rqsched_step env) now wl3 (cs_rqsched cs1) of
                    None \<Rightarrow> None
                  | Some (None, wl4, rs, m2) \<Rightarrow> Some (Inr (wl4, cs1\<lparr>cs_rqsched := rs\<rparr>, m1 @ m2))
                  | Some (Some step, wl4, rs, m2) \<Rightarrow>
                      (case wl_notify now wl4 WLS_RUNNING 0 of
                         None \<Rightarrow> None
                       | Some (wl5, m3) \<Rightarrow>
                           (let step1 = (case env_wl_step env of None \<Rightarrow> step | Some f \<Rightarrow> f step);
                                cs2 = cs1\<lparr>cs_rqsched := rs\<rparr> in
                            if \<not> env_run_request env then Some (Inr (set_step wl5 step1, cs2, m1 @ m2 @ m3))
                            else case tp_distribute_requests (env_create env wl5) (env_hold env) step1 (cs_rq_head cs2) (cs_requests cs2) of
                                   Inl e \<Rightarrow> Some (Inl e)
                                 | Inr (q, step2, s) \<Rightarrow>
                                     Some (Inr (set_step (wl5\<lparr>wl_current_rq := wl_current_rq wl5 + created_rqs step1\<rparr>) step2, cs2\<lparr>cs_rq_head := q, cs_requests := s\<rparr>, m1 @ m2 @ m3)))))))"

section \<open>Status flags\<close>

lemma and_push_bit_one:
  fixes w :: "64 word"
  assumes "n < 64"
  shows "w AND push_bit n 1 \<noteq> 0 \<longleftrightarrow> bit w n"
proof -
  have "w AND push_bit n 1 = (if bit w n then push_bit n 1 else 0)"
    by (rule bit_eqI) (auto simp: bit_simps)
  moreover have "push_bit n 1 \<noteq> (0 :: 64 word)" using assms by simp
  ultimately show ?thesis by simp
qed

lemma wl_status_number_lt: "wl_status_number s < 64"
  by (cases s) (simp_all add: wl_status_number_def)

lemma wl_status_number_inj: "wl_status_number s = wl_status_number t \<longleftrightarrow> s = t"
  by (cases s; cases t) (simp_all add: wl_status_number_def)

lemma WL_HAD_STATUS_bit: "WL_HAD_STATUS wl s \<longleftrightarrow> bit (wl_status_flags wl) (wl_status_number s)"
  unfolding WL_HAD_STATUS_def by (rule and_push_bit_one [OF wl_status_number_lt])

lemma WL_HAD_SET_STATUS [simp]: "WL_HAD_STATUS (WL_SET_STATUS wl s) t \<longleftrightarrow> t = s \<or> WL_HAD_STATUS wl t"
  using wl_status_number_lt [of t] wl_status_number_inj [of s t]
  by (auto simp: WL_HAD_STATUS_bit WL_SET_STATUS_def bit_simps)

lemma WL_SET_STATUS_simps [simp]:
  "wl_status (WL_SET_STATUS wl s) = s" "wl_current_step (WL_SET_STATUS wl s) = wl_current_step wl"
  "wl_last_step (WL_SET_STATUS wl s) = wl_last_step wl" "wl_step_queue (WL_SET_STATUS wl s) = wl_step_queue wl"
  "wl_start_clock (WL_SET_STATUS wl s) = wl_start_clock wl" "wl_name (WL_SET_STATUS wl s) = wl_name wl"
  by (simp_all add: WL_SET_STATUS_def)

lemma WL_HAD_STATUS_upd [simp]:
  "WL_HAD_STATUS (wl\<lparr>wl_notify_time := t\<rparr>) = WL_HAD_STATUS wl" "WL_HAD_STATUS (wl\<lparr>wl_last_step := i\<rparr>) = WL_HAD_STATUS wl"
  "WL_HAD_STATUS (wl\<lparr>wl_current_step := i\<rparr>) = WL_HAD_STATUS wl" "WL_HAD_STATUS (wl\<lparr>wl_current_rq := i\<rparr>) = WL_HAD_STATUS wl"
  "WL_HAD_STATUS (wl\<lparr>wl_step_queue := q\<rparr>) = WL_HAD_STATUS wl" "WL_HAD_STATUS (wl\<lparr>wl_start_clock := i\<rparr>) = WL_HAD_STATUS wl"
  "WL_HAD_STATUS (wl\<lparr>wl_time := i\<rparr>) = WL_HAD_STATUS wl"
  by (auto simp: WL_HAD_STATUS_def fun_eq_iff)

section \<open>The ring of steps\<close>

text \<open>The steps provided and not yet taken, oldest first.\<close>

definition wl_pending :: "workload \<Rightarrow> workload_step list" where
  "wl_pending wl = map (\<lambda>i. wl_step_queue wl ! step_off i) [wl_current_step wl + 1..wl_last_step wl]"

text \<open>
  The ring is settled: the current step lies between the start and the last step, at most 15
  steps are pending, and the slots of the steps to come have no trace requests left over.
\<close>

definition wl_ring :: "workload \<Rightarrow> bool" where
  "wl_ring wl \<longleftrightarrow> length (wl_step_queue wl) = WLSTEPQSIZE \<and> -1 \<le> wl_current_step wl \<and>
     wl_current_step wl \<le> wl_last_step wl \<and> wl_last_step wl - wl_current_step wl < int WLSTEPQSIZE \<and>
     (\<forall>i. wl_last_step wl < i \<and> i \<le> wl_current_step wl + int WLSTEPQSIZE \<longrightarrow>
        wls_trace_rqs (wl_step_queue wl ! step_off i) = [])"

lemma step_off_lt [simp]: "step_off i < WLSTEPQSIZE"
  by (simp add: step_off_def WLSTEPQSIZE_def nat_less_iff)

lemma step_off_eq: "step_off i = step_off j \<longleftrightarrow> i mod int WLSTEPQSIZE = j mod int WLSTEPQSIZE"
  by (simp add: step_off_def WLSTEPQSIZE_def eq_nat_nat_iff)

lemma step_off_neq: "i < j \<Longrightarrow> j < i + int WLSTEPQSIZE \<Longrightarrow> step_off i \<noteq> step_off j"
proof
  assume lt: "i < j" "j < i + int WLSTEPQSIZE" and "step_off i = step_off j"
  then have "int WLSTEPQSIZE dvd j - i" by (metis step_off_eq mod_eq_dvd_iff)
  moreover have "0 < j - i" "j - i < int WLSTEPQSIZE" using lt by simp_all
  ultimately show False by (meson zdvd_not_zless)
qed

lemma length_wl_pending: "wl_current_step wl \<le> wl_last_step wl \<Longrightarrow> int (length (wl_pending wl)) = wl_last_step wl - wl_current_step wl"
  by (simp add: wl_pending_def)

lemma wl_create_ring: "wl_ring (wl_create name d)" "wl_pending (wl_create name d) = []"
proof -
  have "wls_trace_rqs (replicate WLSTEPQSIZE \<lparr>wls_rq_count = 0, wls_trace_rqs = []\<rparr> ! step_off i) = []" for i
    by (simp only: nth_replicate [OF step_off_lt] workload_step.simps)
  then show "wl_ring (wl_create name d)" by (simp add: wl_ring_def wl_create_def WLSTEPQSIZE_def)
  show "wl_pending (wl_create name d) = []" by (simp add: wl_pending_def wl_create_def)
qed

lemma wl_provide_step_ok:
  assumes r: "wl_ring wl" and room: "length (wl_pending wl) < 15"
  obtains wl' where "wl_provide_step wl (wl_last_step wl + 1) n tr = (WL_STEP_OK, wl', [])" "wl_ring wl'"
    "wl_pending wl' = wl_pending wl @ [\<lparr>wls_rq_count = n, wls_trace_rqs = tr\<rparr>]"
    "wl_last_step wl' = wl_last_step wl + 1" "wl_current_step wl' = wl_current_step wl"
    "WL_HAD_STATUS wl' = WL_HAD_STATUS wl"
proof -
  let ?c = "wl_current_step wl" and ?l = "wl_last_step wl" and ?q = "wl_step_queue wl"
  let ?step = "\<lparr>wls_rq_count = n, wls_trace_rqs = tr\<rparr>"
  have i: "?c \<le> ?l" "length ?q = WLSTEPQSIZE" using r by (simp_all add: wl_ring_def)
  have lt: "?l - ?c < 15" using room length_wl_pending [OF i(1)] by linarith
  let ?wl = "wl\<lparr>wl_last_step := ?l + 1, wl_step_queue := ?q[step_off (?l + 1) := ?step]\<rparr>"
  have "wls_trace_rqs (?q ! step_off (?l + 1)) = []" using r lt by (simp add: wl_ring_def WLSTEPQSIZE_def)
  then have p: "wl_provide_step wl (?l + 1) n tr = (WL_STEP_OK, ?wl, [])"
    using lt by (simp add: wl_provide_step_def Let_def WLSTEPQSIZE_def)
  have other: "?q[step_off (?l + 1) := ?step] ! step_off j = ?q ! step_off j" if "?c < j" "j \<le> ?c + 16" "j \<noteq> ?l + 1" for j
    using that lt step_off_neq [of j "?l + 1"] step_off_neq [of "?l + 1" j] i(1)
    by (cases "j < ?l + 1") (auto simp: WLSTEPQSIZE_def)
  have "wl_ring ?wl" unfolding wl_ring_def
  proof (intro conjI allI impI)
    fix j
    assume j: "wl_last_step ?wl < j \<and> j \<le> wl_current_step ?wl + int WLSTEPQSIZE"
    then have "?q[step_off (?l + 1) := ?step] ! step_off j = ?q ! step_off j"
      using i(1) by (intro other) (auto simp: WLSTEPQSIZE_def)
    then show "wls_trace_rqs (wl_step_queue ?wl ! step_off j) = []" using r j by (simp add: wl_ring_def)
  qed (use r lt in \<open>auto simp: wl_ring_def WLSTEPQSIZE_def\<close>)
  moreover have "wl_pending ?wl = wl_pending wl @ [?step]"
  proof -
    have "[?c + 1..?l + 1] = [?c + 1..?l] @ [?l + 1]" using i(1) by (simp add: upto_rec2)
    moreover have "map (\<lambda>j. ?q[step_off (?l + 1) := ?step] ! step_off j) [?c + 1..?l] = map (\<lambda>j. ?q ! step_off j) [?c + 1..?l]"
      using lt by (intro map_cong refl other) auto
    ultimately show ?thesis using i(2) by (simp add: wl_pending_def)
  qed
  ultimately show ?thesis using that p by simp
qed

lemma wl_provide_step_full:
  assumes "wl_ring wl" and "length (wl_pending wl) = 15"
  shows "wl_provide_step wl step_id n tr = (WL_STEP_QUEUE_FULL, wl, tr)"
proof -
  have "wl_last_step wl - wl_current_step wl = 15" using assms length_wl_pending [of wl] by (simp add: wl_ring_def)
  then show ?thesis by (simp add: wl_provide_step_def WLSTEPQSIZE_def)
qed

lemma wl_provide_step_invalid:
  assumes "wl_ring wl" and "length (wl_pending wl) < 15" and "step_id \<noteq> wl_last_step wl + 1"
  shows "wl_provide_step wl step_id n tr = (WL_STEP_INVALID, wl, tr)"
proof -
  have "wl_last_step wl - wl_current_step wl \<noteq> 15" using assms(1,2) length_wl_pending [of wl] by (auto simp: wl_ring_def)
  then show ?thesis using assms(3) by (simp add: wl_provide_step_def WLSTEPQSIZE_def)
qed

text \<open>Taking the next step: the current step's slot is settled again once its trace is empty.\<close>

lemma wl_advance_ring:
  assumes r: "wl_ring wl" and pend: "wl_pending wl = step # rest"
    and wl1: "wl1 = wl\<lparr>wl_current_step := wl_current_step wl + 1, wl_current_rq := 0\<rparr>" and "wls_trace_rqs step' = []"
  shows "wl_step_queue wl ! step_off (wl_current_step wl + 1) = step" "wl_current_step wl < wl_last_step wl"
    "wl_ring (set_step wl1 step')" "wl_pending (set_step wl1 step') = rest"
proof -
  let ?c = "wl_current_step wl" and ?l = "wl_last_step wl" and ?q = "wl_step_queue wl"
  show lt: "?c < ?l" using pend length_wl_pending [of wl] r by (simp add: wl_ring_def)
  have bound: "?l - ?c < int WLSTEPQSIZE" "length ?q = WLSTEPQSIZE" using r by (simp_all add: wl_ring_def)
  have up: "[?c + 1..?l] = (?c + 1) # [?c + 2..?l]" using lt by (simp add: upto_rec1 add.commute)
  show "?q ! step_off (?c + 1) = step" using pend unfolding wl_pending_def up by simp
  have other: "?q[step_off (?c + 1) := step'] ! step_off j = ?q ! step_off j" if "?c + 1 < j" "j < ?c + 1 + int WLSTEPQSIZE" for j
    using step_off_neq [OF that] by simp
  have "wl_ring (set_step wl1 step')" unfolding wl_ring_def
  proof (intro conjI allI impI)
    fix j
    assume "wl_last_step (set_step wl1 step') < j \<and> j \<le> wl_current_step (set_step wl1 step') + int WLSTEPQSIZE"
    then have j: "?l < j" "j \<le> ?c + 1 + int WLSTEPQSIZE" by (simp_all add: wl1 set_step_def)
    show "wls_trace_rqs (wl_step_queue (set_step wl1 step') ! step_off j) = []"
    proof (cases "j = ?c + 1 + int WLSTEPQSIZE")
      case True
      then have "step_off j = step_off (?c + 1)" by (simp add: step_off_eq)
      then show ?thesis using assms(4) bound(2) by (simp add: wl1 set_step_def)
    next
      case False
      then have "?q[step_off (?c + 1) := step'] ! step_off j = ?q ! step_off j" using j lt by (intro other) simp_all
      then show ?thesis using r j False by (simp add: wl1 set_step_def wl_ring_def)
    qed
  qed (use r lt in \<open>simp_all add: wl_ring_def wl1 set_step_def\<close>)
  moreover have "wl_pending (set_step wl1 step') = rest"
  proof -
    have "map (\<lambda>j. ?q[step_off (?c + 1) := step'] ! step_off j) [?c + 2..?l] = map (\<lambda>j. ?q ! step_off j) [?c + 2..?l]"
      using bound(1) by (intro map_cong refl other) auto
    also have "\<dots> = rest" using pend unfolding wl_pending_def up by simp
    finally show ?thesis by (simp add: wl_pending_def wl1 set_step_def add.commute)
  qed
  ultimately show "wl_ring (set_step wl1 step')" "wl_pending (set_step wl1 step') = rest" by blast+
qed

lemma wl_empty_pending:
  assumes "wl_ring wl" and "wl_pending wl = []"
  shows "wl_last_step wl = wl_current_step wl"
  using assms length_wl_pending [of wl] by (simp add: wl_ring_def)

lemma tp_attach_trace_settled:
  "tp_distribute_requests create hold step q s = Inr (q', step', s') \<Longrightarrow> wls_trace_rqs step' = []"
  by (auto simp: tp_distribute_requests_def Let_def split: if_splits sum.splits)

section \<open>The control thread's view\<close>

definition running_msg :: "workload \<Rightarrow> wl_status \<Rightarrow> wl_notify_msg" where
  "running_msg wl status = \<lparr>msg_wl_name = wl_name wl, msg_status = status, msg_progress = wl_current_step wl + 1\<rparr>"

text \<open>A started workload that was not stopped; \<open>settled env\<close> is a module with requests to run.\<close>

definition wl_active :: "workload \<Rightarrow> bool" where
  "wl_active wl \<longleftrightarrow> WL_HAD_STATUS wl WLS_STARTED \<and> \<not> WL_HAD_STATUS wl WLS_STOPPED"

lemma control_set_clock_head:
  obtains sc t chain' where "control_set_clock tp_time tp_quantum wl chain = wl\<lparr>wl_start_clock := sc, wl_time := t\<rparr> # chain'"
proof (cases "wl_start_clock wl = TS_TIME_MAX")
  case True
  then show ?thesis using that by (simp add: control_set_clock_def)
next
  case False
  then show ?thesis using that [where sc = "wl_start_clock wl"] by (simp add: control_set_clock_def)
qed

lemma wl_ring_clock [simp]:
  "wl_ring (wl\<lparr>wl_start_clock := sc, wl_time := t\<rparr>) = wl_ring wl"
  "wl_pending (wl\<lparr>wl_start_clock := sc, wl_time := t\<rparr>) = wl_pending wl"
  by (simp_all add: wl_ring_def wl_pending_def)

lemma wl_notify_finished:
  "wl_notify now wl WLS_FINISHED p =
     Some (WL_SET_STATUS (wl\<lparr>wl_notify_time := now\<rparr>) WLS_FINISHED,
           [\<lparr>msg_wl_name = wl_name wl, msg_status = WLS_FINISHED, msg_progress = wl_current_step wl\<rparr>])"
  "wl_notify now wl WLS_RUNNING p =
     Some (WL_SET_STATUS (wl\<lparr>wl_notify_time := now\<rparr>) WLS_RUNNING,
           [\<lparr>msg_wl_name = wl_name wl, msg_status = WLS_RUNNING, msg_progress = wl_current_step wl\<rparr>])"
  by (simp_all add: wl_notify_def wl_notify_progress_def Let_def)

lemma control_prepare_dry:
  assumes "wl_active wl" and "wl_last_step wl \<le> wl_current_step wl"
  obtains wl' cs' where "control_prepare_step env now tp_time tp_quantum wl cs = Some (Inr (wl', cs', [running_msg wl WLS_FINISHED]))"
    "wl_active wl'" "wl_current_step wl' = wl_current_step wl + 1" "wl_last_step wl' = wl_last_step wl" "wl_name wl' = wl_name wl"
proof -
  obtain sc t ch where c: "control_set_clock tp_time tp_quantum wl (cs_chain cs) = wl\<lparr>wl_start_clock := sc, wl_time := t\<rparr> # ch"
    by (rule control_set_clock_head)
  let ?wl = "WL_SET_STATUS (wl\<lparr>wl_start_clock := sc, wl_time := t, wl_current_step := wl_current_step wl + 1, wl_current_rq := 0,
      wl_notify_time := now\<rparr>) WLS_FINISHED"
  have "\<exists>cs'. control_prepare_step env now tp_time tp_quantum wl cs = Some (Inr (?wl, cs', [running_msg wl WLS_FINISHED]))"
    using assms unfolding control_prepare_step_def
    by (simp add: c wl_active_def wl_try_finish_stopped_def wl_is_started_def wl_advance_step_def
        wl_finish_def wl_notify_finished running_msg_def)
  moreover have "wl_active ?wl" using assms(1) by (simp add: wl_active_def)
  ultimately show ?thesis using that by auto
qed

lemma control_prepare_takes:
  assumes act: "wl_active wl" and r: "wl_ring wl" and pend: "wl_pending wl = step # rest" and run: "env_run_request env"
    and res: "control_prepare_step env now tp_time tp_quantum wl cs = Some (Inr (wl', cs', msgs))"
  shows "wl_ring wl'" "wl_pending wl' = rest" "wl_active wl'" "msgs = [running_msg wl WLS_RUNNING]"
    "wl_current_step wl' = wl_current_step wl + 1" "wl_last_step wl' = wl_last_step wl" "wl_name wl' = wl_name wl"
proof -
  obtain sc t ch where c: "control_set_clock tp_time tp_quantum wl (cs_chain cs) = wl\<lparr>wl_start_clock := sc, wl_time := t\<rparr> # ch"
    by (rule control_set_clock_head)
  define wl3 where "wl3 = wl\<lparr>wl_start_clock := sc, wl_time := t\<rparr>"
  define wl4 where "wl4 = wl3\<lparr>wl_current_step := wl_current_step wl3 + 1, wl_current_rq := 0\<rparr>"
  have r3: "wl_ring wl3" "wl_pending wl3 = step # rest" using r pend by (simp_all add: wl3_def)
  note taken = wl_advance_ring [OF r3 wl4_def]
  have lt: "wl_current_step wl < wl_last_step wl" using taken(2) [of "step\<lparr>wls_trace_rqs := []\<rparr>"] by (simp add: wl3_def)
  obtain st2 k where st2: "wls_trace_rqs st2 = []"
    "wl' = set_step ((WL_SET_STATUS (wl4\<lparr>wl_notify_time := now\<rparr>) WLS_RUNNING)\<lparr>wl_current_rq := k\<rparr>) st2"
    "msgs = [running_msg wl WLS_RUNNING]"
    using res act lt run unfolding control_prepare_step_def
    by (auto simp: c wl_active_def wl_try_finish_stopped_def wl_is_started_def wl_advance_step_def wl_notify_finished Let_def
        running_msg_def wl3_def wl4_def split: sum.splits prod.splits dest: tp_attach_trace_settled)
  have same: "wl_ring wl' = wl_ring (set_step wl4 st2)" "wl_pending wl' = wl_pending (set_step wl4 st2)"
    by (simp_all add: st2(2) wl_ring_def wl_pending_def set_step_def)
  then show "wl_ring wl'" "wl_pending wl' = rest" using taken(3,4) [OF st2(1)] by simp_all
  show "wl_active wl'" using act by (simp add: wl_active_def st2(2) set_step_def wl4_def wl3_def)
  show "msgs = [running_msg wl WLS_RUNNING]" by (rule st2(3))
  show "wl_current_step wl' = wl_current_step wl + 1" "wl_last_step wl' = wl_last_step wl" "wl_name wl' = wl_name wl"
    by (simp_all add: st2(2) set_step_def wl4_def wl3_def)
qed

text \<open>What one call of \<open>control_prepare_step\<close> can do to a workload that was not stopped.\<close>

lemma control_prepare_effect:
  assumes "\<not> WL_HAD_STATUS wl WLS_STOPPED"
    and res: "control_prepare_step env now tp_time tp_quantum wl cs = Some (Inr (wl', cs', ms))"
  shows "\<not> WL_HAD_STATUS wl' WLS_STOPPED \<and> wl_last_step wl' = wl_last_step wl \<and>
    (wl_current_step wl' = wl_current_step wl \<and> ms = [] \<and> wl_step_queue wl' = wl_step_queue wl \<or>
     wl_current_step wl' = wl_current_step wl + 1 \<and> wl_last_step wl \<le> wl_current_step wl \<and>
       ms = [running_msg wl WLS_FINISHED] \<and> wl_step_queue wl' = wl_step_queue wl \<or>
     wl_current_step wl' = wl_current_step wl + 1 \<and> wl_current_step wl < wl_last_step wl \<and>
       ms = [running_msg wl WLS_RUNNING] \<and> (\<exists>s. wl_step_queue wl' = (wl_step_queue wl)[step_off (wl_current_step wl + 1) := s]))"
proof (cases "fst (wl_is_started now wl)")
  case False
  then have "control_prepare_step env now tp_time tp_quantum wl cs = Some (Inr (wl, cs, []))"
    using assms(1) by (auto simp: control_prepare_step_def wl_try_finish_stopped_def wl_is_started_def)
  then show ?thesis using res assms(1) by simp
next
  case True
  define wl2 where "wl2 = snd (wl_is_started now wl)"
  have st: "wl_is_started now wl = (True, wl2)" using True by (metis prod.collapse wl2_def)
  have wl2: "\<not> WL_HAD_STATUS wl2 WLS_STOPPED" "wl_last_step wl2 = wl_last_step wl" "wl_current_step wl2 = wl_current_step wl"
    "wl_step_queue wl2 = wl_step_queue wl" "wl_name wl2 = wl_name wl"
    using st assms(1) by (auto simp: wl_is_started_def split: if_splits)
  obtain sc t ch where c: "control_set_clock tp_time tp_quantum wl2 (cs_chain cs) = wl2\<lparr>wl_start_clock := sc, wl_time := t\<rparr> # ch"
    by (rule control_set_clock_head)
  have nostop: "wl_try_finish_stopped now wl = Some (wl, [])" using assms(1) by (simp add: wl_try_finish_stopped_def)
  let ?wl4 = "wl2\<lparr>wl_start_clock := sc, wl_time := t, wl_current_step := wl_current_step wl2 + 1, wl_current_rq := 0, wl_notify_time := now\<rparr>"
  show ?thesis
  proof (cases "wl_last_step wl \<le> wl_current_step wl")
    case True
    then have "wl' = WL_SET_STATUS ?wl4 WLS_FINISHED" "ms = [running_msg wl WLS_FINISHED]"
      using res wl2 unfolding control_prepare_step_def nostop
      by (auto simp: st c wl_advance_step_def wl_finish_def wl_notify_finished Let_def running_msg_def)
    then show ?thesis using True wl2 by simp
  next
    case False
    then have "(\<exists>s. wl' = set_step (WL_SET_STATUS ?wl4 WLS_RUNNING) s \<or>
        (\<exists>k. wl' = set_step ((WL_SET_STATUS ?wl4 WLS_RUNNING)\<lparr>wl_current_rq := k\<rparr>) s)) \<and> ms = [running_msg wl WLS_RUNNING]"
      using res wl2 unfolding control_prepare_step_def nostop
      by (auto simp: st c wl_advance_step_def wl_notify_finished Let_def running_msg_def split: sum.splits prod.splits if_splits)
    then show ?thesis using False wl2 by (auto simp: set_step_def)
  qed
qed

section \<open>Bounded buffers\<close>

text \<open>
  The contract between the producer of steps and the control thread: a buffer of at most \<open>cap\<close>
  elements that hands out in order what was put in. A run is a sequence of events, \<open>Some x\<close> for
  a put and \<open>None\<close> for a get; it fails at the first put into a full or get from an empty buffer.
\<close>

fun buffer_run :: "('s \<Rightarrow> 'x \<Rightarrow> 's option) \<Rightarrow> ('s \<Rightarrow> ('x \<times> 's) option) \<Rightarrow> 'x option list \<Rightarrow> 's \<Rightarrow> ('x list \<times> 's) option" where
  "buffer_run put get [] s = Some ([], s)"
| "buffer_run put get (Some x # es) s = (case put s x of None \<Rightarrow> None | Some s' \<Rightarrow> buffer_run put get es s')"
| "buffer_run put get (None # es) s =
     (case get s of None \<Rightarrow> None | Some (x, s') \<Rightarrow> map_option (\<lambda>(out, s''). (x # out, s'')) (buffer_run put get es s'))"

fun buffer_fits :: "nat \<Rightarrow> nat \<Rightarrow> 'x option list \<Rightarrow> bool" where
  "buffer_fits cap n [] = True"
| "buffer_fits cap n (Some x # es) = (n < cap \<and> buffer_fits cap (Suc n) es)"
| "buffer_fits cap n (None # es) = (0 < n \<and> buffer_fits cap (n - 1) es)"

definition buffer_puts :: "'x option list \<Rightarrow> 'x list" where
  "buffer_puts es = List.map_filter id es"

lemma buffer_puts_simps [simp]:
  "buffer_puts [] = []" "buffer_puts (Some x # es) = x # buffer_puts es" "buffer_puts (None # es) = buffer_puts es"
  by (simp_all add: buffer_puts_def map_filter_simps)

locale step_buffer =
  fixes inv :: "'s \<Rightarrow> bool" and content :: "'s \<Rightarrow> 'x list" and cap :: nat
    and put :: "'s \<Rightarrow> 'x \<Rightarrow> 's option" and get :: "'s \<Rightarrow> ('x \<times> 's) option"
  assumes content_cap: "inv s \<Longrightarrow> length (content s) \<le> cap"
    and put_room: "inv s \<Longrightarrow> length (content s) < cap \<Longrightarrow> \<exists>s'. put s x = Some s' \<and> inv s' \<and> content s' = content s @ [x]"
    and put_full: "inv s \<Longrightarrow> length (content s) = cap \<Longrightarrow> put s x = None"
    and get_some: "inv s \<Longrightarrow> content s = x # xs \<Longrightarrow> \<exists>s'. get s = Some (x, s') \<and> inv s' \<and> content s' = xs"
    and get_none: "inv s \<Longrightarrow> content s = [] \<Longrightarrow> get s = None"
begin

lemma run_fits:
  assumes "inv s"
  shows "case buffer_run put get es s of
           None \<Rightarrow> \<not> buffer_fits cap (length (content s)) es
         | Some (out, s') \<Rightarrow> buffer_fits cap (length (content s)) es \<and> inv s' \<and> content s @ buffer_puts es = out @ content s'"
  using assms
proof (induction es arbitrary: s)
  case (Cons e es)
  show ?case
  proof (cases e)
    case (Some x)
    show ?thesis
    proof (cases "length (content s) < cap")
      case True
      then obtain s' where s': "put s x = Some s'" "inv s'" "content s' = content s @ [x]" using put_room Cons.prems by blast
      show ?thesis using Cons.IH [OF s'(2)] Some True s' by (auto split: option.splits)
    next
      case False
      then have "length (content s) = cap" using content_cap [OF Cons.prems] by simp
      then show ?thesis using Some put_full [OF Cons.prems] by simp
    qed
  next
    case None
    show ?thesis
    proof (cases "content s")
      case Nil
      then show ?thesis using None get_none [OF Cons.prems] by simp
    next
      case (Cons x xs)
      then obtain s' where s': "get s = Some (x, s')" "inv s'" "content s' = xs" using get_some Cons.prems by blast
      show ?thesis using Cons.IH [OF s'(2)] None Cons s' by (auto split: option.splits)
    qed
  qed
qed (use assms in simp)

end

text \<open>The workload's ring as such a buffer.\<close>

definition wl_put :: "workload \<Rightarrow> workload_step \<Rightarrow> workload option" where
  "wl_put wl step =
     (case wl_provide_step wl (wl_last_step wl + 1) (wls_rq_count step) (wls_trace_rqs step) of
        (WL_STEP_OK, wl', _) \<Rightarrow> Some wl' | _ \<Rightarrow> None)"

definition wl_get :: "workload \<Rightarrow> (workload_step \<times> workload) option" where
  "wl_get wl =
     (case wl_advance_step (\<lambda>_ r. r) 0 wl () of
        Some (Some step, wl', _, _) \<Rightarrow> Some (step, set_step wl' (step\<lparr>wls_trace_rqs := []\<rparr>)) | _ \<Rightarrow> None)"

lemma wl_put_pending:
  assumes "wl_ring wl" and "length (wl_pending wl) < 15"
  shows "\<exists>wl'. wl_put wl x = Some wl' \<and> wl_ring wl' \<and> wl_pending wl' = wl_pending wl @ [x]"
proof -
  obtain wl' where "wl_provide_step wl (wl_last_step wl + 1) (wls_rq_count x) (wls_trace_rqs x) = (WL_STEP_OK, wl', [])"
    "wl_ring wl'" "wl_pending wl' = wl_pending wl @ [\<lparr>wls_rq_count = wls_rq_count x, wls_trace_rqs = wls_trace_rqs x\<rparr>]"
    using wl_provide_step_ok [OF assms] by metis
  then show ?thesis by (simp add: wl_put_def)
qed

lemma wl_get_pending:
  assumes "wl_ring wl" and "wl_pending wl = x # xs"
  shows "\<exists>wl'. wl_get wl = Some (x, wl') \<and> wl_ring wl' \<and> wl_pending wl' = xs"
proof -
  define wl1 where "wl1 = wl\<lparr>wl_current_step := wl_current_step wl + 1, wl_current_rq := 0\<rparr>"
  define wl' where "wl' = set_step wl1 (x\<lparr>wls_trace_rqs := []\<rparr>)"
  note t = wl_advance_ring [OF assms wl1_def, of "x\<lparr>wls_trace_rqs := []\<rparr>"]
  have "wl_advance_step (\<lambda>_ r. r) 0 wl () = Some (Some x, wl1, (), [])"
    using t(1,2) unfolding wl_advance_step_def wl1_def [symmetric] Let_def by (simp add: wl1_def)
  then have "wl_get wl = Some (x, wl')" by (simp add: wl_get_def wl'_def)
  then show ?thesis using t(3,4) by (simp add: wl'_def)
qed

interpretation wlb: step_buffer wl_ring wl_pending 15 wl_put wl_get
proof
  fix wl :: workload and x :: workload_step and xs
  assume r: "wl_ring wl"
  then show cap: "length (wl_pending wl) \<le> 15" using length_wl_pending [of wl] by (simp add: wl_ring_def WLSTEPQSIZE_def)
  show "\<exists>s'. wl_put wl x = Some s' \<and> wl_ring s' \<and> wl_pending s' = wl_pending wl @ [x]" if "length (wl_pending wl) < 15"
    using wl_put_pending [OF r that] by blast
  show "wl_put wl x = None" if "length (wl_pending wl) = 15"
    using wl_provide_step_full [OF r that] by (simp add: wl_put_def)
  show "\<exists>s'. wl_get wl = Some (x, s') \<and> wl_ring s' \<and> wl_pending s' = xs" if p: "wl_pending wl = x # xs"
    using wl_get_pending [OF r p] by blast
  show "wl_get wl = None" if "wl_pending wl = []"
    using wl_empty_pending [OF r that] by (simp add: wl_get_def wl_advance_step_def Let_def wl_finish_def wl_notify_finished)
qed

section \<open>Properties of workloads\<close>

text \<open>
  C6. The ring of steps is a bounded first-in first-out buffer of 15 steps: a sequence of provided
  and taken steps on a new workload goes through exactly when it never puts a sixteenth
  step and never takes from an empty ring, and the steps taken are those provided, in order.
\<close>

theorem wl_steps_fifo:
  "case buffer_run wl_put wl_get es (wl_create name d) of
     None \<Rightarrow> \<not> buffer_fits 15 0 es
   | Some (out, wl) \<Rightarrow> buffer_fits 15 0 es \<and> buffer_puts es = out @ wl_pending wl"
  using wlb.run_fits [OF wl_create_ring(1), of name d es] by (auto simp: wl_create_ring(2) split: option.splits)

text \<open>
  A step with the wrong number is refused and nothing changes; so is any step while 15 steps
  are pending, and the trace requests stay with the caller.
\<close>

theorem wl_provide_step_refuses:
  assumes "wl_ring wl" and "length (wl_pending wl) = 15 \<or> step_id \<noteq> wl_last_step wl + 1"
  shows "wl_provide_step wl step_id n tr =
    (if length (wl_pending wl) = 15 then WL_STEP_QUEUE_FULL else WL_STEP_INVALID, wl, tr)"
  using assms wlb.content_cap [OF assms(1)] wl_provide_step_full [OF assms(1)] wl_provide_step_invalid [OF assms(1)]
  by (cases "length (wl_pending wl) = 15") auto

theorem wl_provide_step_refuses_witness:
  "wl_provide_step (wl_create ''w'' 0) 7 10 [] = (WL_STEP_INVALID, wl_create ''w'' 0, [])"
  using wl_provide_step_refuses [OF wl_create_ring(1), of "''w''" 0 7 10 "[]"]
  by (simp add: wl_create_ring(2)) (simp add: wl_create_def)

end
