(* ===== verification/StepFeed.thy ===== *)
theory StepFeed
  imports Steps Workload
begin

text \<open>
  How an experiment feeds its workloads (\<open>tsexperiment/run.c\<close>, \<open>libtsload/tsload.c\<close>): 15 steps are
  provided before the start, then one more for each notification that a step began running.
  The counters of the experiment and its mutex are in the state; an unlock of a mutex that is
  not locked is recorded. The theory composes the step generators with the ring of steps
  and the control thread, as a transition system over one workload.
\<close>

section \<open>The experiment\<close>

datatype experiment_status =
    EXPERIMENT_NOT_CONFIGURED | EXPERIMENT_OK | EXPERIMENT_ERROR | EXPERIMENT_UNKNOWN | EXPERIMENT_INTERRUPTED

record 'p exp_workload =
  ewl_is_chained :: bool
  ewl_status :: experiment_status
  ewl_steps :: "'p steps_generator"

record experiment_t =
  exp_status :: experiment_status
  exp_wl_count :: int
  exp_wl_configuring_count :: int
  exp_wl_running_count :: int
  exp_locked :: bool
  exp_bad_unlock :: bool

definition exp_lock :: "experiment_t \<Rightarrow> experiment_t" where
  "exp_lock x = x\<lparr>exp_locked := True\<rparr>"

definition exp_unlock :: "experiment_t \<Rightarrow> experiment_t" where
  "exp_unlock x = (if exp_locked x then x\<lparr>exp_locked := False\<rparr> else x\<lparr>exp_bad_unlock := True\<rparr>)"

section \<open>Providing steps\<close>

datatype tsload_ret = TSLOAD_OK | TSLOAD_ERROR

text \<open>\<open>tsload_provide_step\<close> for the workload found under the name, if any.\<close>

definition tsload_provide_step ::
    "workload option \<Rightarrow> int \<Rightarrow> cuint \<Rightarrow> request list \<Rightarrow> tsload_ret \<times> wl_step_ret option \<times> workload option \<times> request list" where
  "tsload_provide_step wl step_id num_rqs trace_rqs =
     (case wl of
        None \<Rightarrow> (TSLOAD_ERROR, None, None, trace_rqs)
      | Some w \<Rightarrow>
          (case wl_provide_step w step_id (unat num_rqs) trace_rqs of
             (WL_STEP_INVALID, w1, tr) \<Rightarrow> (TSLOAD_ERROR, None, Some w1, tr)
           | (ret, w1, tr) \<Rightarrow> (TSLOAD_OK, Some ret, Some w1, tr)))"

definition tsload_start_workload :: "workload option \<Rightarrow> int \<Rightarrow> tsload_ret \<times> workload option" where
  "tsload_start_workload wl start_time =
     (case wl of
        None \<Rightarrow> (TSLOAD_ERROR, None)
      | Some w \<Rightarrow>
          if wl_status w \<noteq> WLS_CONFIGURED then (TSLOAD_ERROR, Some w)
          else (TSLOAD_OK, Some (w\<lparr>wl_start_time := start_time\<rparr>)))"

text \<open>
  \<open>tse_run_wl_provide_step\<close>: an error exit unlocks the experiment, except the first one, of a
  workload that is not configured.
\<close>

type_synonym 'p feed_result = "(step_ret \<times> 'p exp_workload \<times> workload option \<times> experiment_t) option"

definition tse_run_wl_provide_step ::
    "('p, request list) create_fun \<Rightarrow> 'p exp_workload \<Rightarrow> workload option \<Rightarrow> experiment_t \<Rightarrow> 'p feed_result" where
  "tse_run_wl_provide_step create ewl wl run =
     (if ewl_is_chained ewl then Some (STEP_NO_RQS, ewl, wl, run)
      else if ewl_status ewl = EXPERIMENT_NOT_CONFIGURED then Some (STEP_ERROR, ewl, wl, run)
      else
        let failed = (\<lambda>e w. Some (STEP_ERROR, e\<lparr>ewl_status := EXPERIMENT_ERROR\<rparr>, w, exp_unlock run)) in
        case step_get_step create (ewl_steps ewl) [] of
          None \<Rightarrow> None
        | Some (STEP_ERROR, _, sg, _) \<Rightarrow> failed (ewl\<lparr>ewl_steps := sg\<rparr>) wl
        | Some (STEP_OK, Some (step_id, num_rqs), sg, Some trace_rqs) \<Rightarrow>
            (case tsload_provide_step wl step_id num_rqs trace_rqs of
               (TSLOAD_ERROR, _, wl1, _) \<Rightarrow> failed (ewl\<lparr>ewl_steps := sg\<rparr>) wl1
             | (TSLOAD_OK, st, wl1, _) \<Rightarrow>
                 if st = Some WL_STEP_QUEUE_FULL then failed (ewl\<lparr>ewl_steps := sg\<rparr>) wl1
                 else Some (STEP_OK, ewl\<lparr>ewl_steps := sg\<rparr>, wl1, run))
        | Some (ret, _, sg, _) \<Rightarrow> Some (ret, ewl\<lparr>ewl_steps := sg\<rparr>, wl, run))"

fun tse_run_fill ::
    "('p, request list) create_fun \<Rightarrow> nat \<Rightarrow> 'p exp_workload \<Rightarrow> workload option \<Rightarrow> experiment_t \<Rightarrow> 'p feed_result" where
  "tse_run_fill create 0 ewl wl run = Some (STEP_OK, ewl, wl, run)"
| "tse_run_fill create (Suc n) ewl wl run =
     (case tse_run_wl_provide_step create ewl wl run of
        Some (STEP_OK, ewl1, wl1, run1) \<Rightarrow> tse_run_fill create n ewl1 wl1 run1
      | r \<Rightarrow> r)"

datatype hm_walker = HM_CONTINUE | HM_STOP

definition tse_run_wl_start_walk ::
    "('p, request list) create_fun \<Rightarrow> int \<Rightarrow> 'p exp_workload \<Rightarrow> workload option \<Rightarrow> experiment_t \<Rightarrow>
     (hm_walker \<times> 'p exp_workload \<times> workload option \<times> experiment_t) option" where
  "tse_run_wl_start_walk create start_time ewl wl run =
     (case tse_run_fill create (WLSTEPQSIZE - 1) ewl wl (exp_lock run) of
        None \<Rightarrow> None
      | Some (ret, ewl1, wl1, run1) \<Rightarrow>
          if ret = STEP_ERROR then Some (HM_STOP, ewl1, wl1, run1)
          else Some (HM_CONTINUE, ewl1, snd (tsload_start_workload wl1 start_time),
                     exp_unlock (run1\<lparr>exp_wl_running_count := exp_wl_running_count run1 + 1\<rparr>)))"

section \<open>Notifications\<close>

definition tse_run_workload_status ::
    "('p, request list) create_fun \<Rightarrow> wl_notify_msg \<Rightarrow> 'p exp_workload \<Rightarrow> workload option \<Rightarrow> experiment_t \<Rightarrow>
     ('p exp_workload \<times> workload option \<times> experiment_t) option" where
  "tse_run_workload_status create msg ewl wl run =
     (let run1 = exp_lock run in
      case msg_status msg of
        WLS_CFG_FAIL \<Rightarrow>
          Some (ewl, wl, exp_unlock (run1\<lparr>exp_status := EXPERIMENT_ERROR, exp_wl_configuring_count := exp_wl_configuring_count run1 - 1\<rparr>))
      | WLS_CONFIGURED \<Rightarrow>
          Some (ewl, wl, exp_unlock (run1\<lparr>exp_wl_configuring_count := exp_wl_configuring_count run1 - 1\<rparr>))
      | WLS_RUNNING \<Rightarrow>
          (case tse_run_wl_provide_step create ewl wl run1 of
             None \<Rightarrow> None
           | Some (ret, ewl1, wl1, run2) \<Rightarrow>
               Some (ewl1, wl1, exp_unlock
                 (if ret = STEP_ERROR then run2\<lparr>exp_status := EXPERIMENT_ERROR, exp_wl_running_count := 0\<rparr> else run2)))
      | WLS_FINISHED \<Rightarrow> Some (ewl, wl, exp_unlock (run1\<lparr>exp_wl_running_count := exp_wl_running_count run1 - 1\<rparr>))
      | WLS_DESTROYED \<Rightarrow> Some (ewl, wl, exp_unlock (run1\<lparr>exp_wl_count := exp_wl_count run1 - 1\<rparr>))
      | _ \<Rightarrow> Some (ewl, wl, exp_unlock run1))"

text \<open>The condition under which \<open>experiment_wait\<close> goes on waiting.\<close>

definition experiment_waits :: "experiment_t \<Rightarrow> bool" where
  "experiment_waits run \<longleftrightarrow> exp_wl_running_count run > 0 \<and> exp_status run = EXPERIMENT_OK"

section \<open>The composed system\<close>

record 'p feed_state =
  fs_ewl :: "'p exp_workload"
  fs_wl :: workload
  fs_run :: experiment_t
  fs_msgs :: "wl_notify_msg list"

text \<open>
  One quantum of the control thread, or the delivery of the oldest notification, in any order.
\<close>

inductive feed_step :: "('p, request list) create_fun \<Rightarrow> ('r, 's) wl_env \<Rightarrow> 'p feed_state \<Rightarrow> 'p feed_state \<Rightarrow> bool"
  for create env where
  feed_control: "control_prepare_step env now tp_time tp_quantum (fs_wl st) cs = Some (Inr (wl', cs', ms)) \<Longrightarrow>
      feed_step create env st (st\<lparr>fs_wl := wl', fs_msgs := fs_msgs st @ ms\<rparr>)"
| feed_deliver: "fs_msgs st = m # ms \<Longrightarrow>
      tse_run_workload_status create m (fs_ewl st) (Some (fs_wl st)) (fs_run st) = Some (ewl', Some wl', run') \<Longrightarrow>
      feed_step create env st (st\<lparr>fs_ewl := ewl', fs_wl := wl', fs_run := run', fs_msgs := ms\<rparr>)"

inductive feed_reach :: "('p, request list) create_fun \<Rightarrow> ('r, 's) wl_env \<Rightarrow> 'p feed_state \<Rightarrow> 'p feed_state \<Rightarrow> bool"
  for create env st0 where
  reach_start: "feed_reach create env st0 st0"
| reach_step: "feed_reach create env st0 st \<Longrightarrow> feed_step create env st st' \<Longrightarrow> feed_reach create env st0 st'"

section \<open>What a generator supplies\<close>

fun supplies :: "('p, request list) create_fun \<Rightarrow> 'p steps_generator \<Rightarrow> int \<Rightarrow> cuint list \<Rightarrow> bool" where
  "supplies create sg k [] \<longleftrightarrow> (\<exists>x. step_get_step create sg [] = Some (STEP_NO_RQS, x, sg, Some []))"
| "supplies create sg k (n # ns) \<longleftrightarrow>
     (\<exists>sg'. step_get_step create sg [] = Some (STEP_OK, Some (k, n), sg', Some []) \<and> supplies create sg' (k + 1) ns)"

lemma supplies_file:
  assumes "sf_file sf = steps_text ns" and "\<forall>n \<in> set ns. n < 10 ^ 14" and "\<not> sf_error sf"
  shows "supplies create (STEPS_FILE sf) (sf_step_id sf) (map of_nat ns)"
  using assms
proof (induction ns arbitrary: sf)
  case Nil
  then show ?case by (simp add: step_get_step_file_def steps_text_def fgets_end)
next
  case (Cons n ns)
  let ?sf = "sf\<lparr>sf_file := steps_text ns, sf_step_id := sf_step_id sf + 1, sf_file_out := sf_file_out sf @ [int n]\<rparr>"
  have "step_get_step_file sf = (STEP_OK, sf_step_id sf, Some (of_nat n), ?sf)"
    using Cons.prems by (intro step_get_step_file_line) (simp_all add: steps_text_def)
  moreover have "supplies create (STEPS_FILE ?sf) (sf_step_id ?sf) (map of_nat ns)"
    using Cons.prems by (intro Cons.IH) simp_all
  ultimately show ?case by simp
qed

lemma supplies_const:
  assumes "sc_step_id sc \<le> sc_num_steps sc" and "m = unat (sc_num_steps sc - sc_step_id sc)"
  shows "supplies create (STEPS_CONST sc) (uint (sc_step_id sc)) (replicate m (sc_num_requests sc))"
  using assms
proof (induction m arbitrary: sc)
  case 0
  then have "sc_step_id sc = sc_num_steps sc" by (metis unat_eq_0 right_minus_eq)
  then show ?case by (simp add: step_get_step_const_def)
next
  case (Suc m)
  let ?sc = "sc\<lparr>sc_step_id := sc_step_id sc + 1\<rparr>"
  have lt: "sc_step_id sc < sc_num_steps sc" using Suc.prems by (metis nat.distinct(1) order_le_less right_minus_eq unat_0)
  have bound: "unat (sc_num_steps sc) < 2 ^ 32" using unsigned_less [of "sc_num_steps sc", where ?'a = nat] by simp
  have nat_lt: "unat (sc_step_id sc) < unat (sc_num_steps sc)" using lt by (simp add: word_less_nat_alt)
  have un: "unat (sc_step_id sc + 1) = unat (sc_step_id sc) + 1" using bound nat_lt by (simp add: unat_word_ariths)
  have u: "uint (sc_step_id sc + 1) = uint (sc_step_id sc) + 1" unfolding uint_nat un by (simp only: of_nat_add of_nat_1)
  have le: "sc_step_id sc + 1 \<le> sc_num_steps sc" using un nat_lt by (simp add: word_le_nat_alt)
  have "m = unat (sc_num_steps ?sc - sc_step_id ?sc)" using Suc.prems un le by (simp add: unat_sub)
  then have "supplies create (STEPS_CONST ?sc) (uint (sc_step_id ?sc)) (replicate m (sc_num_requests ?sc))"
    using le by (intro Suc.IH) simp_all
  then show ?case using lt u by (simp add: step_get_step_const_def)
qed

section \<open>Providing never fails\<close>

text \<open>
  Every pending step carries the number of requests that the source has for it; \<open>pend_ok src wl\<close>.
\<close>

definition pend_ok :: "cuint list \<Rightarrow> workload \<Rightarrow> bool" where
  "pend_ok src wl \<longleftrightarrow> length (wl_step_queue wl) = WLSTEPQSIZE \<and> -1 \<le> wl_last_step wl \<and> wl_last_step wl < int (length src) \<and>
     -1 \<le> wl_current_step wl \<and>
     (\<forall>i. wl_current_step wl < i \<and> i \<le> wl_last_step wl \<longrightarrow>
        wls_rq_count (wl_step_queue wl ! step_off i) = unat (src ! nat i))"

definition fed :: "('p, request list) create_fun \<Rightarrow> cuint list \<Rightarrow> 'p exp_workload \<Rightarrow> workload \<Rightarrow> bool" where
  "fed create src ewl wl \<longleftrightarrow> \<not> ewl_is_chained ewl \<and> ewl_status ewl = EXPERIMENT_OK \<and> \<not> WL_HAD_STATUS wl WLS_STOPPED \<and>
     pend_ok src wl \<and> supplies create (ewl_steps ewl) (wl_last_step wl + 1) (drop (nat (wl_last_step wl + 1)) src)"

lemma provide_effect:
  assumes f: "fed create src ewl wl" and room: "wl_last_step wl - wl_current_step wl < 15"
  obtains ret ewl' wl' where "tse_run_wl_provide_step create ewl (Some wl) run = Some (ret, ewl', Some wl', run)" "ret \<noteq> STEP_ERROR"
    "fed create src ewl' wl'" "wl_current_step wl' = wl_current_step wl" "wl_last_step wl' \<le> wl_last_step wl + 1"
    "ret = STEP_OK \<Longrightarrow> wl_last_step wl' = wl_last_step wl + 1"
proof (cases "drop (nat (wl_last_step wl + 1)) src")
  case Nil
  then obtain x where "step_get_step create (ewl_steps ewl) [] = Some (STEP_NO_RQS, x, ewl_steps ewl, Some [])"
    using f by (auto simp: fed_def)
  then have "tse_run_wl_provide_step create ewl (Some wl) run = Some (STEP_NO_RQS, ewl, Some wl, run)"
    using f by (simp add: tse_run_wl_provide_step_def fed_def)
  then show ?thesis using that f by auto
next
  case (Cons n ns)
  let ?l = "wl_last_step wl" and ?c = "wl_current_step wl" and ?q = "wl_step_queue wl"
  from Cons f obtain sg where sg: "step_get_step create (ewl_steps ewl) [] = Some (STEP_OK, Some (?l + 1, n), sg, Some [])"
    "supplies create sg (?l + 2) ns" by (auto simp: fed_def add.commute)
  have l: "-1 \<le> ?l" using f by (simp add: fed_def pend_ok_def)
  have n: "n = src ! nat (?l + 1)" "ns = drop (nat (?l + 2)) src" "nat (?l + 1) < length src"
  proof -
    show "n = src ! nat (?l + 1)" using nth_via_drop [OF Cons] by simp
    have "Suc (nat (?l + 1)) = nat (?l + 2)" using l by simp
    then show "ns = drop (nat (?l + 2)) src" using drop_drop_Cons [OF Cons] by metis
    show "nat (?l + 1) < length src" using Cons by (metis drop_all list.distinct(1) not_le)
  qed
  define step where "step = \<lparr>wls_rq_count = unat n, wls_trace_rqs = wls_trace_rqs (?q ! step_off (?l + 1))\<rparr>"
  define wl' where "wl' = wl\<lparr>wl_last_step := ?l + 1, wl_step_queue := ?q[step_off (?l + 1) := step]\<rparr>"
  have p: "wl_provide_step wl (?l + 1) (unat n) [] = (WL_STEP_OK, wl', [])"
    using room by (simp add: wl_provide_step_def WLSTEPQSIZE_def Let_def wl'_def step_def)
  have "tse_run_wl_provide_step create ewl (Some wl) run = Some (STEP_OK, ewl\<lparr>ewl_steps := sg\<rparr>, Some wl', run)"
    using f sg p by (simp add: tse_run_wl_provide_step_def fed_def tsload_provide_step_def Let_def)
  moreover have "pend_ok src wl'" unfolding pend_ok_def
  proof (intro conjI allI impI)
    fix i
    assume "wl_current_step wl' < i \<and> i \<le> wl_last_step wl'"
    then have i: "?c < i" "i \<le> ?l + 1" by (simp_all add: wl'_def)
    show "wls_rq_count (wl_step_queue wl' ! step_off i) = unat (src ! nat i)"
    proof (cases "i = ?l + 1")
      case True
      then show ?thesis using f n(1) by (simp add: wl'_def step_def fed_def pend_ok_def)
    next
      case False
      then have "step_off i \<noteq> step_off (?l + 1)" using i room by (intro step_off_neq) (auto simp: WLSTEPQSIZE_def)
      then show ?thesis using f i False by (simp add: wl'_def fed_def pend_ok_def)
    qed
  qed (use f n(3) l in \<open>auto simp: wl'_def fed_def pend_ok_def\<close>)
  then have "fed create src (ewl\<lparr>ewl_steps := sg\<rparr>) wl'" using f sg(2) n(2) l by (simp add: fed_def wl'_def add.commute)
  ultimately show ?thesis using that by (simp add: wl'_def)
qed

lemma fill_effect:
  assumes "fed create src ewl wl" and "wl_last_step wl - wl_current_step wl + int n \<le> 15"
  shows "\<exists>ret ewl' wl'. tse_run_fill create n ewl (Some wl) run = Some (ret, ewl', Some wl', run) \<and> ret \<noteq> STEP_ERROR \<and>
    fed create src ewl' wl' \<and> wl_current_step wl' = wl_current_step wl \<and> wl_last_step wl' \<le> wl_last_step wl + int n"
  using assms
proof (induction n arbitrary: ewl wl)
  case 0
  then show ?case by simp
next
  case (Suc n)
  have "wl_last_step wl - wl_current_step wl < 15" using Suc.prems(2) by simp
  from provide_effect [OF Suc.prems(1) this, of run] obtain ret ewl' wl' where
    p: "tse_run_wl_provide_step create ewl (Some wl) run = Some (ret, ewl', Some wl', run)" "ret \<noteq> STEP_ERROR"
      "fed create src ewl' wl'" "wl_current_step wl' = wl_current_step wl" "wl_last_step wl' \<le> wl_last_step wl + 1" by metis
  show ?case
  proof (cases "ret = STEP_OK")
    case True
    obtain ret2 ewl2 wl2 where "tse_run_fill create n ewl' (Some wl') run = Some (ret2, ewl2, Some wl2, run)" "ret2 \<noteq> STEP_ERROR"
      "fed create src ewl2 wl2" "wl_current_step wl2 = wl_current_step wl'" "wl_last_step wl2 \<le> wl_last_step wl' + int n"
      using Suc.IH [OF p(3)] p(4,5) Suc.prems(2) by auto
    then show ?thesis using p True by simp
  next
    case False
    then have "tse_run_fill create (Suc n) ewl (Some wl) run = Some (ret, ewl', Some wl', run)"
      using p(1,2) by (cases ret) simp_all
    then show ?thesis using p by auto
  qed
qed

section \<open>The invariant of feeding\<close>

definition running_msgs :: "wl_notify_msg list \<Rightarrow> nat" where
  "running_msgs ms = length (filter (\<lambda>m. msg_status m = WLS_RUNNING) ms)"

definition feed_inv :: "('p, request list) create_fun \<Rightarrow> cuint list \<Rightarrow> 'p feed_state \<Rightarrow> bool" where
  "feed_inv create src st \<longleftrightarrow> fed create src (fs_ewl st) (fs_wl st) \<and>
     exp_status (fs_run st) = EXPERIMENT_OK \<and> \<not> exp_locked (fs_run st) \<and> \<not> exp_bad_unlock (fs_run st) \<and>
     (\<forall>m \<in> set (fs_msgs st). msg_status m = WLS_RUNNING \<or> msg_status m = WLS_FINISHED) \<and>
     wl_last_step (fs_wl st) - wl_current_step (fs_wl st) + int (running_msgs (fs_msgs st)) \<le> 15"

lemma fed_control:
  assumes f: "fed create src ewl wl" and room: "wl_last_step wl - wl_current_step wl \<le> 15"
    and res: "control_prepare_step env now tp_time tp_quantum wl cs = Some (Inr (wl', cs', ms))"
  shows "fed create src ewl wl'"
proof -
  have ns: "\<not> WL_HAD_STATUS wl WLS_STOPPED" using f by (simp add: fed_def)
  note eff = control_prepare_effect [OF ns res]
  have "pend_ok src wl'" unfolding pend_ok_def
  proof (intro conjI allI impI)
    fix i
    assume "wl_current_step wl' < i \<and> i \<le> wl_last_step wl'"
    then have i: "wl_current_step wl' < i" "wl_current_step wl < i" "i \<le> wl_last_step wl" using eff by auto
    have "wl_step_queue wl' ! step_off i = wl_step_queue wl ! step_off i"
    proof (cases "wl_current_step wl' = wl_current_step wl + 1")
      case True
      then have "step_off (wl_current_step wl + 1) \<noteq> step_off i" using i room by (intro step_off_neq) (auto simp: WLSTEPQSIZE_def)
      then show ?thesis using eff by auto
    qed (use eff in auto)
    then show "wls_rq_count (wl_step_queue wl' ! step_off i) = unat (src ! nat i)" using f i by (simp add: fed_def pend_ok_def)
  qed (use f eff in \<open>auto simp: fed_def pend_ok_def\<close>)
  then show ?thesis using f eff by (auto simp: fed_def)
qed

lemma feed_inv_step:
  assumes "feed_inv create src st" and "feed_step create env st st'"
  shows "feed_inv create src st'"
  using assms(2,1)
proof cases
  case (feed_control now tp_time tp_quantum cs wl' cs' ms)
  have f: "fed create src (fs_ewl st) (fs_wl st)" and ns: "\<not> WL_HAD_STATUS (fs_wl st) WLS_STOPPED"
    and sum: "wl_last_step (fs_wl st) - wl_current_step (fs_wl st) + int (running_msgs (fs_msgs st)) \<le> 15"
    using assms(1) by (simp_all add: feed_inv_def fed_def)
  note eff = control_prepare_effect [OF ns feed_control(2)]
  have "fed create src (fs_ewl st) wl'" by (rule fed_control [OF f _ feed_control(2)]) (use sum in simp)
  moreover have "\<forall>m \<in> set ms. msg_status m = WLS_RUNNING \<or> msg_status m = WLS_FINISHED" using eff by (auto simp: running_msg_def)
  moreover have "wl_last_step wl' - wl_current_step wl' + int (running_msgs (fs_msgs st @ ms)) \<le> 15"
    using eff sum by (auto simp: running_msgs_def running_msg_def)
  ultimately show ?thesis using assms(1) unfolding feed_control(1) by (auto simp: feed_inv_def)
next
  case (feed_deliver m ms ewl' wl' run')
  have f: "fed create src (fs_ewl st) (fs_wl st)" and r: "exp_status (fs_run st) = EXPERIMENT_OK" "\<not> exp_locked (fs_run st)" "\<not> exp_bad_unlock (fs_run st)"
    and sum: "wl_last_step (fs_wl st) - wl_current_step (fs_wl st) + int (running_msgs (fs_msgs st)) \<le> 15"
    and m: "msg_status m = WLS_RUNNING \<or> msg_status m = WLS_FINISHED"
    using assms(1) feed_deliver(2) by (simp_all add: feed_inv_def)
  show ?thesis
  proof (cases "msg_status m = WLS_RUNNING")
    case True
    then have "wl_last_step (fs_wl st) - wl_current_step (fs_wl st) < 15" using sum feed_deliver(2) by (simp add: running_msgs_def)
    from provide_effect [OF f this, of "exp_lock (fs_run st)"] obtain ret e w where
      p: "tse_run_wl_provide_step create (fs_ewl st) (Some (fs_wl st)) (exp_lock (fs_run st)) = Some (ret, e, Some w, exp_lock (fs_run st))"
        "ret \<noteq> STEP_ERROR" "fed create src e w" "wl_current_step w = wl_current_step (fs_wl st)"
        "wl_last_step w \<le> wl_last_step (fs_wl st) + 1" by metis
    then have "ewl' = e" "wl' = w" "run' = exp_unlock (exp_lock (fs_run st))"
      using feed_deliver(3) True by (auto simp: tse_run_workload_status_def Let_def)
    then show ?thesis using assms(1) p(3-5) sum r feed_deliver(2) True unfolding feed_deliver(1)
      by (auto simp: feed_inv_def running_msgs_def exp_unlock_def exp_lock_def)
  next
    case False
    then have "ewl' = fs_ewl st" "wl' = fs_wl st"
      "run' = exp_unlock ((exp_lock (fs_run st))\<lparr>exp_wl_running_count := exp_wl_running_count (fs_run st) - 1\<rparr>)"
      using feed_deliver(3) m by (auto simp: tse_run_workload_status_def Let_def exp_lock_def)
    then show ?thesis using assms(1) False r feed_deliver(2) unfolding feed_deliver(1)
      by (auto simp: feed_inv_def running_msgs_def exp_unlock_def exp_lock_def)
  qed
qed

lemma feed_inv_reach: "feed_reach create env st0 st \<Longrightarrow> feed_inv create src st0 \<Longrightarrow> feed_inv create src st"
  by (induction rule: feed_reach.induct) (auto intro: feed_inv_step)

section \<open>Properties of feeding\<close>

text \<open>A workload configured and not yet started, and an experiment about to start it.\<close>

definition feed_ready :: "('p, request list) create_fun \<Rightarrow> cuint list \<Rightarrow> 'p exp_workload \<Rightarrow> workload \<Rightarrow> experiment_t \<Rightarrow> bool" where
  "feed_ready create src ewl wl run \<longleftrightarrow>
     \<not> ewl_is_chained ewl \<and> ewl_status ewl = EXPERIMENT_OK \<and> supplies create (ewl_steps ewl) 0 src \<and>
     wl_status wl = WLS_CONFIGURED \<and> \<not> WL_HAD_STATUS wl WLS_STOPPED \<and>
     length (wl_step_queue wl) = WLSTEPQSIZE \<and> wl_current_step wl = -1 \<and> wl_last_step wl = -1 \<and>
     exp_status run = EXPERIMENT_OK \<and> \<not> exp_locked run \<and> \<not> exp_bad_unlock run"

lemma start_effect:
  assumes "feed_ready create src ewl wl run"
  shows "\<exists>ewl1 wl1 run1. tse_run_wl_start_walk create t ewl (Some wl) run = Some (HM_CONTINUE, ewl1, Some wl1, run1) \<and>
    feed_inv create src \<lparr>fs_ewl = ewl1, fs_wl = wl1, fs_run = run1, fs_msgs = []\<rparr>"
proof -
  have "fed create src ewl wl" using assms by (simp add: feed_ready_def fed_def pend_ok_def)
  moreover have "wl_last_step wl - wl_current_step wl + int (WLSTEPQSIZE - 1) \<le> 15" using assms by (simp add: feed_ready_def WLSTEPQSIZE_def)
  ultimately obtain ret ewl1 wl1 where
    r: "tse_run_fill create (WLSTEPQSIZE - 1) ewl (Some wl) (exp_lock run) = Some (ret, ewl1, Some wl1, exp_lock run)" "ret \<noteq> STEP_ERROR"
      "fed create src ewl1 wl1" "wl_current_step wl1 = wl_current_step wl" "wl_last_step wl1 \<le> wl_last_step wl + int (WLSTEPQSIZE - 1)"
    using fill_effect [of create src ewl wl "WLSTEPQSIZE - 1" "exp_lock run"] by blast
  obtain wl2 where wl2: "snd (tsload_start_workload (Some wl1) t) = Some wl2"
    "WL_HAD_STATUS wl2 = WL_HAD_STATUS wl1" "wl_step_queue wl2 = wl_step_queue wl1" "wl_last_step wl2 = wl_last_step wl1"
    "wl_current_step wl2 = wl_current_step wl1"
  proof (cases "wl_status wl1 = WLS_CONFIGURED")
    case True
    then show ?thesis using that [of "wl1\<lparr>wl_start_time := t\<rparr>"] by (simp add: tsload_start_workload_def WL_HAD_STATUS_def fun_eq_iff)
  next
    case False
    then show ?thesis using that [of wl1] by (simp add: tsload_start_workload_def)
  qed
  have "fed create src ewl1 wl2" using r(3) wl2(2-5) by (simp add: fed_def pend_ok_def)
  then show ?thesis using r wl2 assms
    by (auto simp: tse_run_wl_start_walk_def feed_inv_def exp_unlock_def exp_lock_def running_msgs_def feed_ready_def WLSTEPQSIZE_def)
qed

text \<open>
  C1. An experiment never overruns the queue of a workload and never provides a step out of turn:
  it starts the workload, and in every state that the control thread and the delivery of
  notifications then reach, in any interleaving, neither the workload nor the experiment is
  in error and the experiment's mutex was unlocked only while locked.
\<close>

theorem feed_never_overflows:
  assumes "feed_ready create src ewl wl run"
  shows "\<exists>ewl1 wl1 run1. tse_run_wl_start_walk create t ewl (Some wl) run = Some (HM_CONTINUE, ewl1, Some wl1, run1) \<and>
    (\<forall>st. feed_reach create env \<lparr>fs_ewl = ewl1, fs_wl = wl1, fs_run = run1, fs_msgs = []\<rparr> st \<longrightarrow>
      ewl_status (fs_ewl st) = EXPERIMENT_OK \<and> exp_status (fs_run st) = EXPERIMENT_OK \<and> \<not> exp_bad_unlock (fs_run st))"
proof -
  obtain ewl1 wl1 run1 where s: "tse_run_wl_start_walk create t ewl (Some wl) run = Some (HM_CONTINUE, ewl1, Some wl1, run1)"
    "feed_inv create src \<lparr>fs_ewl = ewl1, fs_wl = wl1, fs_run = run1, fs_msgs = []\<rparr>"
    using start_effect [OF assms] by blast
  have "feed_inv create src st" if "feed_reach create env \<lparr>fs_ewl = ewl1, fs_wl = wl1, fs_run = run1, fs_msgs = []\<rparr> st" for st
    using feed_inv_reach [OF that s(2)] .
  then show ?thesis using s(1) by (auto simp: feed_inv_def fed_def)
qed

definition demo_create :: "(unit, request list) create_fun" where
  "demo_create name chained step_id rqe rqs = Some rqs"

definition demo_ewl :: "unit exp_workload" where
  "demo_ewl = \<lparr>ewl_is_chained = False, ewl_status = EXPERIMENT_OK,
     ewl_steps = STEPS_CONST \<lparr>sc_num_steps = 20, sc_step_id = 0, sc_num_requests = 3\<rparr>\<rparr>"

definition demo_wl :: workload where
  "demo_wl = WL_SET_STATUS (wl_create ''w'' 0) WLS_CONFIGURED"

definition demo_run :: experiment_t where
  "demo_run = \<lparr>exp_status = EXPERIMENT_OK, exp_wl_count = 2, exp_wl_configuring_count = 0, exp_wl_running_count = 0,
     exp_locked = False, exp_bad_unlock = False\<rparr>"

definition demo_env :: "(unit, unit) wl_env" where
  "demo_env = \<lparr>env_rqsched_step = (\<lambda>_ r. r), env_wl_step = None, env_run_request = False,
     env_create = (\<lambda>w s. (\<lparr>rq_addr = 0, rq_step = 0, rq_id = 0, rq_user_id = 0, rq_thread_id = 0, rq_sched_time = 0, rq_flags = 0,
        rq_workload = tp_workload.truncate w\<rparr>, s)), env_hold = (\<lambda>_ s. s)\<rparr>"

lemma demo_ready: "feed_ready demo_create (replicate 20 3) demo_ewl demo_wl demo_run"
proof -
  have "supplies demo_create (ewl_steps demo_ewl) 0 (replicate 20 3)"
    using supplies_const [of "\<lparr>sc_num_steps = 20, sc_step_id = 0, sc_num_requests = 3\<rparr>" 20 demo_create] by (simp add: demo_ewl_def)
  then show ?thesis
    by (simp add: feed_ready_def demo_ewl_def demo_wl_def demo_run_def wl_create_def WL_HAD_STATUS_def WL_SET_STATUS_def wl_status_number_def)
qed

theorem feed_never_overflows_witness:
  "\<exists>ewl1 wl1 run1. tse_run_wl_start_walk demo_create 0 demo_ewl (Some demo_wl) demo_run = Some (HM_CONTINUE, ewl1, Some wl1, run1) \<and>
    ewl_status ewl1 = EXPERIMENT_OK \<and> exp_status run1 = EXPERIMENT_OK \<and> \<not> exp_bad_unlock run1"
proof -
  obtain ewl1 wl1 run1 where s: "tse_run_wl_start_walk demo_create 0 demo_ewl (Some demo_wl) demo_run = Some (HM_CONTINUE, ewl1, Some wl1, run1)"
    "\<forall>st. feed_reach demo_create demo_env \<lparr>fs_ewl = ewl1, fs_wl = wl1, fs_run = run1, fs_msgs = []\<rparr> st \<longrightarrow>
      ewl_status (fs_ewl st) = EXPERIMENT_OK \<and> exp_status (fs_run st) = EXPERIMENT_OK \<and> \<not> exp_bad_unlock (fs_run st)"
    using feed_never_overflows [OF demo_ready] by blast
  show ?thesis using s(1) s(2) [rule_format, OF reach_start] by simp
qed

lemma demo_start_last:
  "map_option (\<lambda>(w, e, wl, r). (map_option wl_last_step wl, map_option wl_current_step wl))
     (tse_run_wl_start_walk demo_create 0 demo_ewl (Some demo_wl) demo_run) = Some (Some 14, Some (-1))"
  by code_simp

text \<open>
  C20. Every step that waits in the ring carries the number of requests its source has for that
  step: in every reachable state, step \<open>i\<close> between the current and the last step has the \<open>i\<close>-th
  number, so the control thread, which takes the step after the current one, runs the
  source in order.
\<close>

theorem feed_in_order:
  assumes "feed_ready create src ewl wl run"
    and "tse_run_wl_start_walk create t ewl (Some wl) run = Some (HM_CONTINUE, ewl1, Some wl1, run1)"
    and "feed_reach create env \<lparr>fs_ewl = ewl1, fs_wl = wl1, fs_run = run1, fs_msgs = []\<rparr> st"
    and "wl_current_step (fs_wl st) < i" and "i \<le> wl_last_step (fs_wl st)"
  shows "wls_rq_count (wl_step_queue (fs_wl st) ! step_off i) = unat (src ! nat i) \<and> nat i < length src"
proof -
  have "feed_inv create src \<lparr>fs_ewl = ewl1, fs_wl = wl1, fs_run = run1, fs_msgs = []\<rparr>"
    using start_effect [OF assms(1), of t] assms(2) by auto
  from feed_inv_reach [OF assms(3) this] have "pend_ok src (fs_wl st)" by (simp add: feed_inv_def fed_def)
  then show ?thesis using assms(4,5) by (auto simp: pend_ok_def)
qed

theorem feed_in_order_witness:
  "\<exists>ewl1 wl1 run1. tse_run_wl_start_walk demo_create 0 demo_ewl (Some demo_wl) demo_run = Some (HM_CONTINUE, ewl1, Some wl1, run1) \<and>
    wl_last_step wl1 = 14 \<and> wls_rq_count (wl_step_queue wl1 ! step_off 2) = 3"
proof -
  obtain ewl1 wl1 run1 where s: "tse_run_wl_start_walk demo_create 0 demo_ewl (Some demo_wl) demo_run = Some (HM_CONTINUE, ewl1, Some wl1, run1)"
    using start_effect [OF demo_ready, of 0] by blast
  have l: "wl_last_step wl1 = 14" "wl_current_step wl1 = -1" using demo_start_last s by simp_all
  have "wls_rq_count (wl_step_queue wl1 ! step_off 2) = 3" using feed_in_order [OF demo_ready s reach_start, of 2] l by simp
  then show ?thesis using s l(1) by blast
qed

text \<open>
  C38. A finished workload stays attached and started, so the control thread reports it as finished
  again in every quantum, and each report takes one off the number of running workloads:
  after two quanta an experiment with two running workloads stops waiting although only
  one of them has finished.
\<close>

theorem finished_reported_every_quantum:
  assumes "wl_active wl" and "wl_last_step wl \<le> wl_current_step wl"
    and "experiment_waits run" and "exp_wl_running_count run = 2" and "\<not> exp_locked run"
  shows "\<exists>wl1 cs1 m1 wl2 cs2 m2 run1 run2.
    control_prepare_step env now tp_time tp_quantum wl cs = Some (Inr (wl1, cs1, [m1])) \<and>
    control_prepare_step env now' tp_time' tp_quantum wl1 cs1 = Some (Inr (wl2, cs2, [m2])) \<and>
    tse_run_workload_status create m1 ewl (Some wl2) run = Some (ewl, Some wl2, run1) \<and>
    tse_run_workload_status create m2 ewl (Some wl2) run1 = Some (ewl, Some wl2, run2) \<and>
    msg_wl_name m1 = msg_wl_name m2 \<and> \<not> experiment_waits run2"
proof -
  obtain wl1 cs1 where a: "control_prepare_step env now tp_time tp_quantum wl cs = Some (Inr (wl1, cs1, [running_msg wl WLS_FINISHED]))"
    "wl_active wl1" "wl_current_step wl1 = wl_current_step wl + 1" "wl_last_step wl1 = wl_last_step wl" "wl_name wl1 = wl_name wl"
    using control_prepare_dry [OF assms(1,2)] by metis
  have "wl_last_step wl1 \<le> wl_current_step wl1" using a(3,4) assms(2) by simp
  then obtain wl2 cs2 where b: "control_prepare_step env now' tp_time' tp_quantum wl1 cs1 = Some (Inr (wl2, cs2, [running_msg wl1 WLS_FINISHED]))"
    using control_prepare_dry [OF a(2)] by metis
  define run1 where "run1 = run\<lparr>exp_wl_running_count := 1\<rparr>"
  define run2 where "run2 = run\<lparr>exp_wl_running_count := 0\<rparr>"
  have "exp_locked run = False" using assms(5) by simp
  then have unl: "run\<lparr>exp_locked := False, exp_wl_running_count := n\<rparr> = run\<lparr>exp_wl_running_count := n\<rparr>" for n by (cases run) simp
  have "tse_run_workload_status create (running_msg wl WLS_FINISHED) ewl (Some wl2) run = Some (ewl, Some wl2, run1)"
    "tse_run_workload_status create (running_msg wl1 WLS_FINISHED) ewl (Some wl2) run1 = Some (ewl, Some wl2, run2)"
    using assms(4,5) unl by (simp_all add: tse_run_workload_status_def running_msg_def exp_lock_def exp_unlock_def Let_def run1_def run2_def)
  moreover have "msg_wl_name (running_msg wl WLS_FINISHED) = msg_wl_name (running_msg wl1 WLS_FINISHED)"
    using a(5) by (simp add: running_msg_def)
  moreover have "\<not> experiment_waits run2" by (simp add: experiment_waits_def run2_def)
  ultimately show ?thesis using a(1) b by blast
qed

definition demo_active :: workload where
  "demo_active = WL_SET_STATUS (wl_create ''w'' 0) WLS_STARTED"

definition demo_cs :: "(unit, unit) control_state" where
  "demo_cs = \<lparr>cs_chain = [], cs_rqsched = (), cs_requests = (), cs_rq_head = []\<rparr>"

theorem finished_reported_every_quantum_witness:
  "\<exists>wl1 cs1 m1 wl2 cs2 m2 run1 run2.
    control_prepare_step demo_env 5 6 7 demo_active demo_cs = Some (Inr (wl1, cs1, [m1])) \<and>
    control_prepare_step demo_env 12 13 7 wl1 cs1 = Some (Inr (wl2, cs2, [m2])) \<and>
    tse_run_workload_status demo_create m1 demo_ewl (Some wl2) (demo_run\<lparr>exp_wl_running_count := 2\<rparr>) = Some (demo_ewl, Some wl2, run1) \<and>
    tse_run_workload_status demo_create m2 demo_ewl (Some wl2) run1 = Some (demo_ewl, Some wl2, run2) \<and>
    msg_wl_name m1 = msg_wl_name m2 \<and> \<not> experiment_waits run2"
  by (rule finished_reported_every_quantum)
    (simp_all add: demo_active_def wl_create_def wl_active_def WL_HAD_STATUS_def WL_SET_STATUS_def wl_status_number_def
      experiment_waits_def demo_run_def)

end
