(* ===== verification/ByteLayout.thy ===== *)
theory ByteLayout
  imports TsPrelude
begin

text \<open>
  How the structures of a file lie in memory: little-endian words, NUL-padded names, and records
  and arrays composed of them. A layout is an encoding of fixed width whose decoder ignores what
  follows; layouts compose, so the round trip of a whole structure follows from its parts. The
  supported targets are little-endian (\<open>nodes.c\<close> and \<open>tsfile.c\<close> convert nothing).
\<close>

section \<open>Little-endian bytes\<close>

primrec le_bytes :: "nat \<Rightarrow> nat \<Rightarrow> char list" where
  "le_bytes 0 v = []"
| "le_bytes (Suc n) v = char_of (v mod 256) # le_bytes n (v div 256)"

fun le_value :: "char list \<Rightarrow> nat" where
  "le_value [] = 0"
| "le_value (c # cs) = of_char c + 256 * le_value cs"

lemma length_le_bytes [simp]: "length (le_bytes n v) = n"
  by (induction n arbitrary: v) auto

lemma le_value_bytes: "le_value (le_bytes n v) = v mod 256 ^ n"
proof (induction n arbitrary: v)
  case (Suc n)
  have "v mod (256 * 256 ^ n) = 256 * (v div 256 mod 256 ^ n) + v mod 256" by (rule mod_mult2_eq)
  then show ?case using Suc by simp
qed simp

lemma le_value_less: "le_value bs < 256 ^ length bs"
proof (induction bs)
  case (Cons c cs)
  have "of_char c < (256 :: nat)" by simp
  then have "of_char c + 256 * le_value cs < 256 * 256 ^ length cs" using Cons by linarith
  then show ?case by simp
qed simp

lemma le_bytes_value: "le_bytes (length bs) (le_value bs) = bs"
  by (induction bs) auto

lemma le_bytes_mod: "le_bytes n (v mod 256 ^ n) = le_bytes n v"
  using le_bytes_value [of "le_bytes n v"] by (simp add: le_value_bytes)

section \<open>Layouts\<close>

locale layout =
  fixes width :: nat and enc :: "'a \<Rightarrow> char list" and dec :: "char list \<Rightarrow> 'a" and ok :: "'a \<Rightarrow> bool"
  assumes enc_width: "ok x \<Longrightarrow> length (enc x) = width"
    and dec_enc: "ok x \<Longrightarrow> dec (enc x @ rest) = x"
begin

lemma dec_enc_alone: "ok x \<Longrightarrow> dec (enc x) = x"
  using dec_enc [of x "[]"] by simp

lemma enc_inj: "ok x \<Longrightarrow> ok y \<Longrightarrow> enc x = enc y \<Longrightarrow> x = y"
  using dec_enc_alone by metis

lemma take_enc: "ok x \<Longrightarrow> take width (enc x @ rest) = enc x"
  and drop_enc: "ok x \<Longrightarrow> drop width (enc x @ rest) = rest"
  by (simp_all add: enc_width)

text \<open>An array of encoded elements.\<close>

lemma enc_array_length: "\<forall>x \<in> set xs. ok x \<Longrightarrow> length (concat (map enc xs)) = length xs * width"
  by (induction xs) (auto simp: enc_width)

lemma enc_array_drop:
  assumes "\<forall>x \<in> set xs. ok x" and "i \<le> length xs"
  shows "drop (i * width) (concat (map enc xs)) = concat (map enc (drop i xs))"
  using assms
proof (induction xs arbitrary: i)
  case (Cons x xs)
  then show ?case by (cases i) (auto simp: enc_width)
qed simp

lemma dec_array:
  assumes "\<forall>x \<in> set xs. ok x"
  shows "map (\<lambda>i. dec (drop (i * width) (concat (map enc xs) @ rest))) [0..<length xs] = xs"
proof (rule nth_equalityI)
  fix i
  assume "i < length (map (\<lambda>i. dec (drop (i * width) (concat (map enc xs) @ rest))) [0..<length xs])"
  then have i: "i < length xs" by simp
  have "i * width \<le> length xs * width" using i by simp
  then have "drop (i * width) (concat (map enc xs) @ rest) = concat (map enc (drop i xs)) @ rest"
    using enc_array_drop [OF assms, of i] i enc_array_length [OF assms] by simp
  also have "\<dots> = enc (xs ! i) @ concat (map enc (drop (Suc i) xs)) @ rest"
    using i by (simp add: Cons_nth_drop_Suc [symmetric])
  finally show "map (\<lambda>i. dec (drop (i * width) (concat (map enc xs) @ rest))) [0..<length xs] ! i = xs ! i"
    using dec_enc assms i by simp
qed simp

end

section \<open>Words\<close>

definition word_bytes :: "nat \<Rightarrow> 'a :: len word \<Rightarrow> char list" where
  "word_bytes n w = le_bytes n (unat w)"

definition bytes_word :: "nat \<Rightarrow> char list \<Rightarrow> 'a :: len word" where
  "bytes_word n bs = of_nat (le_value (take n bs))"

lemma length_word_bytes [simp]: "length (word_bytes n w) = n"
  by (simp add: word_bytes_def)

lemma bytes_word_bytes:
  assumes "LENGTH('a :: len) \<le> 8 * n"
  shows "bytes_word n (word_bytes n (w :: 'a word) @ rest) = w"
proof -
  have "unat w < 2 ^ LENGTH('a)" by (rule unsigned_less)
  also have "(2 :: nat) ^ LENGTH('a) \<le> 2 ^ (8 * n)" using assms by (intro power_increasing) auto
  also have "(2 :: nat) ^ (8 * n) = 256 ^ n" by (simp add: power_mult)
  finally show ?thesis by (simp add: bytes_word_def word_bytes_def le_value_bytes)
qed

interpretation word16: layout 2 "word_bytes 2 :: 16 word \<Rightarrow> _" "bytes_word 2" "\<lambda>_. True"
  by unfold_locales (simp_all add: bytes_word_bytes)

interpretation word32: layout 4 "word_bytes 4 :: 32 word \<Rightarrow> _" "bytes_word 4" "\<lambda>_. True"
  by unfold_locales (simp_all add: bytes_word_bytes)

interpretation word64: layout 8 "word_bytes 8 :: 64 word \<Rightarrow> _" "bytes_word 8" "\<lambda>_. True"
  by unfold_locales (simp_all add: bytes_word_bytes)

section \<open>Writing and reading at an offset\<close>

text \<open>
  \<open>poke off bs mem\<close> stores \<open>bs\<close> at \<open>off\<close>; memory that is written behind its end grows, and the gap
  reads as zeros, as a file does after \<open>lseek\<close>. \<open>peek off n mem\<close> reads what is there.
\<close>

definition poke :: "nat \<Rightarrow> char list \<Rightarrow> char list \<Rightarrow> char list" where
  "poke off bs mem =
     (if bs = [] then mem
      else take off mem @ replicate (off - length mem) NUL @ bs @ drop (off + length bs) mem)"

definition peek :: "nat \<Rightarrow> nat \<Rightarrow> char list \<Rightarrow> char list" where
  "peek off n mem = take n (drop off mem)"

lemma poke_nil [simp]: "poke off [] mem = mem"
  by (simp add: poke_def)

lemma length_poke: "length (poke off bs mem) = (if bs = [] then length mem else max (length mem) (off + length bs))"
  by (auto simp: poke_def)

lemma length_poke_ge: "off \<le> length mem \<Longrightarrow> off + length bs \<le> length (poke off bs mem)"
  by (auto simp: length_poke)

lemma take_poke: "n \<le> off \<Longrightarrow> off \<le> length mem \<Longrightarrow> take n (poke off bs mem) = take n mem"
  by (auto simp: poke_def)

lemma drop_poke: "off + length bs \<le> n \<Longrightarrow> off \<le> length mem \<Longrightarrow> drop n (poke off bs mem) = drop n mem"
  by (auto simp: poke_def drop_Cons')

lemma peek_poke: "off \<le> length mem \<Longrightarrow> peek off (length bs) (poke off bs mem) = bs"
  by (auto simp: poke_def peek_def)

lemma peek_poke_before: "off' + n \<le> off \<Longrightarrow> off \<le> length mem \<Longrightarrow> peek off' n (poke off bs mem) = peek off' n mem"
  by (auto simp: poke_def peek_def take_drop)

lemma peek_poke_behind: "off + length bs \<le> off' \<Longrightarrow> off \<le> length mem \<Longrightarrow> peek off' n (poke off bs mem) = peek off' n mem"
  by (simp add: peek_def drop_poke)

end
