(* ===== verification/TsSchema.thy ===== *)
theory TsSchema
  imports JsonRoundTrip ByteLayout
begin

text \<open>
  Schemas of TSFiles (\<open>libtsfile/schema.c\<close>, \<open>tsfile.h\<close>): the structures with their layout, and
  their translation from and to JSON. Memory that \<open>mp_malloc\<close> returns has arbitrary contents,
  which are a parameter; \<open>None\<close> as the outcome of an operation is a null dereference or a failed
  assertion.
\<close>

section \<open>Structures\<close>

definition MAXFIELDLEN :: nat where "MAXFIELDLEN = 32"
definition MAXFIELDCOUNT :: nat where "MAXFIELDCOUNT = 64"

definition TSFILE_FIELD_BOOLEAN :: "64 word" where "TSFILE_FIELD_BOOLEAN = 0"
definition TSFILE_FIELD_INT :: "64 word" where "TSFILE_FIELD_INT = 1"
definition TSFILE_FIELD_FLOAT :: "64 word" where "TSFILE_FIELD_FLOAT = 2"
definition TSFILE_FIELD_STRING :: "64 word" where "TSFILE_FIELD_STRING = 3"

lemmas ftype_defs = TSFILE_FIELD_BOOLEAN_def TSFILE_FIELD_INT_def TSFILE_FIELD_FLOAT_def TSFILE_FIELD_STRING_def

record tsfile_field =
  f_name :: "char list"
  f_type :: "64 word"
  f_size :: "64 word"
  f_offset :: "64 word"

record tsfile_shdr =
  entry_size :: "16 word"
  field_count :: "16 word"
  pad1 :: "32 word"
  pad2 :: "64 word"

record tsfile_schema =
  hdr :: tsfile_shdr
  schema_fields :: "tsfile_field list"

subsection \<open>Layout\<close>

definition field_bytes :: "tsfile_field \<Rightarrow> char list" where
  "field_bytes f = f_name f @ word_bytes 8 (f_type f) @ word_bytes 8 (f_size f) @ word_bytes 8 (f_offset f)"

definition bytes_field :: "char list \<Rightarrow> tsfile_field" where
  "bytes_field bs =
     \<lparr>f_name = take 32 bs, f_type = bytes_word 8 (drop 32 bs), f_size = bytes_word 8 (drop 40 bs),
      f_offset = bytes_word 8 (drop 48 bs)\<rparr>"

definition shdr_bytes :: "tsfile_shdr \<Rightarrow> char list" where
  "shdr_bytes h = word_bytes 2 (entry_size h) @ word_bytes 2 (field_count h) @ word_bytes 4 (pad1 h) @ word_bytes 8 (pad2 h)"

definition bytes_shdr :: "char list \<Rightarrow> tsfile_shdr" where
  "bytes_shdr bs =
     \<lparr>entry_size = bytes_word 2 bs, field_count = bytes_word 2 (drop 2 bs), pad1 = bytes_word 4 (drop 4 bs),
      pad2 = bytes_word 8 (drop 8 bs)\<rparr>"

interpretation field_layout: layout 56 field_bytes bytes_field "\<lambda>f. length (f_name f) = 32"
  by unfold_locales (simp_all add: field_bytes_def bytes_field_def bytes_word_bytes)

interpretation shdr_layout: layout 16 shdr_bytes bytes_shdr "\<lambda>_. True"
  by unfold_locales (simp_all add: shdr_bytes_def bytes_shdr_def bytes_word_bytes)

section \<open>Allocation\<close>

text \<open>
  \<open>mem n\<close> is what \<open>mp_malloc\<close> returns for a schema with \<open>n\<close> fields: a structure with arbitrary
  contents, or \<open>None\<close> when the memory is exhausted.
\<close>

definition tsfile_schema_alloc :: "(nat \<Rightarrow> tsfile_schema option) \<Rightarrow> nat \<Rightarrow> tsfile_schema option" where
  "tsfile_schema_alloc mem n = (if n > MAXFIELDCOUNT then None else mem n)"

definition tsfile_schema_clone ::
    "(nat \<Rightarrow> tsfile_schema option) \<Rightarrow> nat \<Rightarrow> tsfile_schema \<Rightarrow> tsfile_schema option" where
  "tsfile_schema_clone mem ext_field_count base =
     (let n = unat (field_count (hdr base)) in
      case tsfile_schema_alloc mem (ext_field_count + n) of
        None \<Rightarrow> None
      | Some schema \<Rightarrow> Some (schema\<lparr>hdr := hdr base, schema_fields := take n (schema_fields base) @ drop n (schema_fields schema)\<rparr>))"

section \<open>From JSON\<close>

datatype schema_field_code =
    SCHEMA_FIELD_OK | SCHEMA_FIELD_MISSING_TYPE | SCHEMA_FIELD_INVALID_TYPE
  | SCHEMA_FIELD_MISSING_OFF | SCHEMA_FIELD_MISSING_SIZE

datatype schema_error = SchemaParam string | SchemaTooManyFields | SchemaField string schema_field_code | SchemaParse json_code

text \<open>
  The lookup of \<open>PARSE_SCHEMA_PARAM\<close> and \<open>PARSE_SCHEMA_FIELD\<close>: the position of a child with the
  name and the type.
\<close>

definition parse_schema_find ::
    "'d json_node \<Rightarrow> string \<Rightarrow> json_type \<Rightarrow> json_code \<Rightarrow> (nat option \<times> 'd json_node \<times> json_code) option" where
  "parse_schema_find root name type e =
     (case json_find root name e of
        None \<Rightarrow> None
      | Some (None, root1, e1) \<Rightarrow> Some (None, root1, e1)
      | Some (Some i, root1, e1) \<Rightarrow>
          Some (if jn_type (jn_child_head root1 ! i) \<noteq> type then None else Some i, root1, e1))"

definition schema_field_type :: "string \<Rightarrow> 64 word option" where
  "schema_field_type field_type =
     (if field_type = ''bool'' then Some TSFILE_FIELD_BOOLEAN
      else if field_type = ''int'' then Some TSFILE_FIELD_INT
      else if field_type = ''float'' then Some TSFILE_FIELD_FLOAT
      else if field_type = ''str'' then Some TSFILE_FIELD_STRING
      else None)"

type_synonym 'd field_result = "(schema_field_code \<times> tsfile_field \<times> 'd json_node \<times> json_code) option"

definition schema_proc_size :: "tsfile_field \<Rightarrow> 'd json_node \<Rightarrow> json_code \<Rightarrow> 'd field_result" where
  "schema_proc_size field node e =
     (if f_type field = TSFILE_FIELD_BOOLEAN then Some (SCHEMA_FIELD_OK, field, node, e)
      else case parse_schema_find node ''size'' JSON_NUMBER e of
        None \<Rightarrow> None
      | Some (None, node1, e1) \<Rightarrow> Some (SCHEMA_FIELD_MISSING_SIZE, field, node1, e1)
      | Some (Some i, node1, e1) \<Rightarrow>
          Some (SCHEMA_FIELD_OK, field\<lparr>f_size := of_int (json_as_integer (Some (jn_child_head node1 ! i)))\<rparr>, node1, e1))"

definition schema_proc_offset :: "tsfile_field \<Rightarrow> 'd json_node \<Rightarrow> 64 word \<Rightarrow> json_code \<Rightarrow> 'd field_result" where
  "schema_proc_offset field node field_offset e =
     (if field_offset = - 1 then
        (case parse_schema_find node ''offset'' JSON_NUMBER e of
           None \<Rightarrow> None
         | Some (None, node1, e1) \<Rightarrow> Some (SCHEMA_FIELD_MISSING_OFF, field, node1, e1)
         | Some (Some i, node1, e1) \<Rightarrow>
             schema_proc_size (field\<lparr>f_offset := of_int (json_as_integer (Some (jn_child_head node1 ! i)))\<rparr>) node1 e1)
      else schema_proc_size (field\<lparr>f_offset := field_offset\<rparr>) node e)"

definition json_tsfile_schema_proc_field ::
    "tsfile_field \<Rightarrow> 'd json_node \<Rightarrow> 64 word \<Rightarrow> json_code \<Rightarrow> 'd field_result" where
  "json_tsfile_schema_proc_field field0 node field_offset e =
     (case jn_name node of
        None \<Rightarrow> None
      | Some name \<Rightarrow>
          let field = field0\<lparr>f_name := strncpy_buf (snd name) MAXFIELDLEN\<rparr> in
          (case parse_schema_find node ''type'' JSON_STRING e of
             None \<Rightarrow> None
           | Some (None, node1, e1) \<Rightarrow> Some (SCHEMA_FIELD_MISSING_TYPE, field, node1, e1)
           | Some (Some i, node1, e1) \<Rightarrow>
               (case json_as_string (Some (jn_child_head node1 ! i)) of
                  None \<Rightarrow> None
                | Some field_type \<Rightarrow>
                    (case schema_field_type field_type of
                       None \<Rightarrow> Some (SCHEMA_FIELD_INVALID_TYPE, field, node1, e1)
                     | Some t \<Rightarrow> schema_proc_offset (field\<lparr>f_type := t\<rparr>) node1 field_offset e1))))"

text \<open>
  The loop over the fields. \<open>fs\<close> are the fields of the schema still to fill, \<open>chs\<close> the children of
  the JSON node still to visit; the result carries the first error.
\<close>

fun schema_proc_fields ::
    "bool \<Rightarrow> tsfile_field list \<Rightarrow> 'd json_node list \<Rightarrow> 64 word \<Rightarrow> json_code \<Rightarrow>
     (schema_error option \<times> tsfile_field list \<times> 'd json_node list \<times> json_code) option" where
  "schema_proc_fields auto_offset [] chs offset e = Some (None, [], chs, e)"
| "schema_proc_fields auto_offset (f # fs) [] offset e = None"
| "schema_proc_fields auto_offset (f # fs) (field # chs) offset e =
     (case json_tsfile_schema_proc_field f field offset e of
        None \<Rightarrow> None
      | Some (err, f1, field1, e1) \<Rightarrow>
          if err \<noteq> SCHEMA_FIELD_OK
          then Some (Some (SchemaField (snd (the (jn_name field))) err), f1 # fs, field1 # chs, e1)
          else
            (case schema_proc_fields auto_offset fs chs (if auto_offset then offset + f_size f1 else offset) e1 of
               None \<Rightarrow> None
             | Some (r, fs1, chs1, e2) \<Rightarrow> Some (r, f1 # fs1, field1 # chs1, e2)))"

type_synonym 'd schema_result = "((schema_error + tsfile_schema) \<times> 'd json_node \<times> json_code) option"

definition json_tsfile_schema_proc ::
    "(nat \<Rightarrow> tsfile_schema option) \<Rightarrow> 'd json_node \<Rightarrow> bool \<Rightarrow> json_code \<Rightarrow> 'd schema_result" where
  "json_tsfile_schema_proc mem root auto_offset e =
     (case parse_schema_find root ''entry_size'' JSON_NUMBER e of
        None \<Rightarrow> None
      | Some (None, root1, e1) \<Rightarrow> Some (Inl (SchemaParam ''entry_size''), root1, e1)
      | Some (Some si, root1, e1) \<Rightarrow>
          (case parse_schema_find root1 ''fields'' JSON_NODE e1 of
             None \<Rightarrow> None
           | Some (None, root2, e2) \<Rightarrow> Some (Inl (SchemaParam ''fields''), root2, e2)
           | Some (Some fi, root2, e2) \<Rightarrow>
               let fnode = jn_child_head root2 ! fi; n = jn_children_count fnode in
               if n > MAXFIELDCOUNT then Some (Inl SchemaTooManyFields, root2, e2)
               else (case tsfile_schema_alloc mem n of
                       None \<Rightarrow> None
                     | Some schema \<Rightarrow>
                         let h = (hdr schema)\<lparr>entry_size := of_int (json_as_integer (Some (jn_child_head root2 ! si))),
                                               field_count := of_nat n\<rparr>
                         in (case schema_proc_fields auto_offset (schema_fields schema) (jn_child_head fnode)
                                    (if auto_offset then 0 else - 1) e2 of
                               None \<Rightarrow> None
                             | Some (r, fs, chs, e3) \<Rightarrow>
                                 Some (case r of
                                         Some err \<Rightarrow> Inl err
                                       | None \<Rightarrow> Inr (schema\<lparr>hdr := h, schema_fields := fs\<rparr>),
                                       jn_set_children (jn_children_count root2)
                                         ((jn_child_head root2)[fi := jn_set_children n chs fnode]) root2,
                                       e3)))))"

definition tsfile_schema_read ::
    "'d strtod_fun \<Rightarrow> (nat \<Rightarrow> tsfile_schema option) \<Rightarrow> char list option \<Rightarrow> json_code \<Rightarrow>
     ((schema_error + tsfile_schema) option \<times> int) option" where
  "tsfile_schema_read strtod mem data e =
     (case data of
        None \<Rightarrow> Some (None, 0)
      | Some buf \<Rightarrow>
          (case json_parse strtod buf of
             None \<Rightarrow> None
           | Some (Inl err, refs) \<Rightarrow> Some (Some (Inl (SchemaParse err)), refs)
           | Some (Inr root, refs) \<Rightarrow>
               (case json_tsfile_schema_proc mem root False e of
                  None \<Rightarrow> None
                | Some (r, root1, _) \<Rightarrow> Some (Some r, json_node_destroy root1 refs))))"

section \<open>To JSON\<close>

definition json_add_integer :: "'d json_node \<Rightarrow> json_str option \<Rightarrow> int \<Rightarrow> 'd json_node" where
  "json_add_integer parent name v = json_add_node parent name (json_new_integer v)"

definition json_add_string :: "'d json_node \<Rightarrow> json_str option \<Rightarrow> json_str \<Rightarrow> 'd json_node" where
  "json_add_string parent name v = json_add_node parent name (json_new_string v)"

definition JSON_STR :: "string \<Rightarrow> json_str" where
  "JSON_STR s = (JSON_STR_CONST, s)"

definition schema_format_field :: "tsfile_field \<Rightarrow> 'd json_node" where
  "schema_format_field field =
     (let node = json_new_node None;
          add_type = (\<lambda>t. json_add_string node (Some (JSON_STR ''type'')) (JSON_STR t));
          node1 = (if f_type field = TSFILE_FIELD_BOOLEAN then add_type ''bool''
                   else json_add_integer
                          (if f_type field = TSFILE_FIELD_INT then add_type ''int''
                           else if f_type field = TSFILE_FIELD_FLOAT then add_type ''float''
                           else if f_type field = TSFILE_FIELD_STRING then add_type ''str''
                           else node)
                          (Some (JSON_STR ''size'')) (sint (f_size field)))
      in json_add_integer node1 (Some (JSON_STR ''offset'')) (sint (f_offset field)))"

text \<open>
  \<open>json_str_create(field->name)\<close> reads the name up to the first NUL, which lies behind the 32 bytes
  of the array when the name fills it.
\<close>

fun schema_format_fields :: "nat \<Rightarrow> tsfile_field list \<Rightarrow> 'd json_node \<Rightarrow> 'd json_node" where
  "schema_format_fields 0 fs fnode = fnode"
| "schema_format_fields (Suc n) [] fnode = fnode"
| "schema_format_fields (Suc n) (field # fs) fnode =
     schema_format_fields n fs
       (json_add_node fnode (Some (json_str_create (cstr (concat (map field_bytes (field # fs))))))
          (schema_format_field field))"

definition json_tsfile_schema_format :: "tsfile_schema \<Rightarrow> 'd json_node" where
  "json_tsfile_schema_format schema =
     (let fnode = schema_format_fields (unat (field_count (hdr schema))) (schema_fields schema) (json_new_node None)
      in json_add_integer (json_add_node (json_new_node None) (Some (JSON_STR ''fields'')) fnode)
           (Some (JSON_STR ''entry_size'')) (uint (entry_size (hdr schema))))"

definition tsfile_schema_write ::
    "'d double_format \<Rightarrow> json_file option \<Rightarrow> tsfile_schema \<Rightarrow> (int \<times> json_file option) option" where
  "tsfile_schema_write df schema_file schema =
     (case schema_file of
        None \<Rightarrow> Some (- 1, None)
      | Some f \<Rightarrow>
          (case json_write_file df (json_tsfile_schema_format schema) f True of
             None \<Rightarrow> None
           | Some (f1, _) \<Rightarrow> Some (0, Some f1)))"

section \<open>References to the buffer\<close>

lemma jn_refs_set_children:
  "map jn_refs ch = map jn_refs (jn_child_head p) \<Longrightarrow> jn_refs (jn_set_children c ch p) = jn_refs p"
  by (cases p) simp

lemma map_update_same: "f y = f (xs ! i) \<Longrightarrow> map f (xs[i := y]) = map f xs"
  by (cases "i < length xs") (simp_all add: map_update list_update_beyond, metis list_update_id nth_map)

lemma jn_refs_touch_child: "jn_refs (json_touch_child p i) = jn_refs p"
proof -
  have "jn_refs (jn_set_touched True x) = jn_refs x" for x :: "'a json_node" by (cases x) simp
  then show ?thesis by (simp add: json_touch_child_def Let_def jn_refs_set_children map_update_same)
qed

lemma parse_schema_find_refs:
  "parse_schema_find root name type e = Some (i, root1, e1) \<Longrightarrow> jn_refs root1 = jn_refs root"
  by (auto simp: parse_schema_find_def json_find_def json_find_opt_def jn_refs_touch_child split: if_splits option.splits)

lemma schema_proc_size_refs: "schema_proc_size f node e = Some (c, f1, node1, e1) \<Longrightarrow> jn_refs node1 = jn_refs node"
  by (auto simp: schema_proc_size_def split: if_splits option.splits dest!: parse_schema_find_refs)

lemma schema_proc_offset_refs: "schema_proc_offset f node off e = Some (c, f1, node1, e1) \<Longrightarrow> jn_refs node1 = jn_refs node"
  by (auto simp: schema_proc_offset_def split: if_splits option.splits dest!: parse_schema_find_refs schema_proc_size_refs)

lemma schema_proc_field_refs:
  "json_tsfile_schema_proc_field f node off e = Some (c, f1, node1, e1) \<Longrightarrow> jn_refs node1 = jn_refs node"
  by (auto simp: json_tsfile_schema_proc_field_def Let_def split: option.splits dest!: parse_schema_find_refs schema_proc_offset_refs)

lemma schema_proc_fields_refs:
  "schema_proc_fields auto_offset fs chs off e = Some (r, fs1, chs1, e1) \<Longrightarrow> map jn_refs chs1 = map jn_refs chs"
  by (induction auto_offset fs chs off e arbitrary: r fs1 chs1 e1 rule: schema_proc_fields.induct)
    (auto split: option.splits if_splits dest!: schema_proc_field_refs)

lemma schema_proc_refs:
  assumes "json_tsfile_schema_proc mem root auto_offset e = Some (r, root1, e1)"
  shows "jn_refs root1 = jn_refs root"
  using assms
  by (auto simp: json_tsfile_schema_proc_def Let_def jn_refs_set_children map_update_same split: option.splits if_splits
      dest!: parse_schema_find_refs schema_proc_fields_refs)

section \<open>Round trip\<close>

text \<open>
  A field that the translation keeps: a known type and a NUL-padded 7-bit name that leaves room for
  its terminator.
\<close>

definition field_ok :: "tsfile_field \<Rightarrow> bool" where
  "field_ok f \<longleftrightarrow>
     f_type f \<in> {TSFILE_FIELD_BOOLEAN, TSFILE_FIELD_INT, TSFILE_FIELD_FLOAT, TSFILE_FIELD_STRING} \<and>
     length (cstr (f_name f)) < MAXFIELDLEN \<and> ascii (cstr (f_name f)) \<and>
     f_name f = strncpy_buf (cstr (f_name f)) MAXFIELDLEN"

definition schema_ok :: "tsfile_schema \<Rightarrow> bool" where
  "schema_ok s \<longleftrightarrow> length (schema_fields s) = unat (field_count (hdr s)) \<and>
     length (schema_fields s) \<le> MAXFIELDCOUNT \<and> list_all field_ok (schema_fields s)"

text \<open>What reading gives back: the size of a boolean field stays what the memory had.\<close>

definition field_reread :: "tsfile_field \<Rightarrow> tsfile_field \<Rightarrow> tsfile_field" where
  "field_reread g f = (if f_type f = TSFILE_FIELD_BOOLEAN then f\<lparr>f_size := f_size g\<rparr> else f)"

lemmas json_build_defs = json_add_integer_def json_add_string_def json_add_node_def json_new_integer_def
  json_new_string_def json_new_node_def json_node_create_def JSON_STR_def

definition named_field :: "tsfile_field \<Rightarrow> 'd json_node" where
  "named_field f = jn_set_name (Some (json_str_create (cstr (f_name f)))) (schema_format_field f)"

lemma cstr_prefix: "NUL \<in> set xs \<Longrightarrow> cstr (xs @ ys) = cstr xs"
  unfolding cstr_def by (subst takeWhile_append1) auto

lemma field_ok_name:
  assumes "field_ok f"
  shows "length (f_name f) = 32" and "NUL \<in> set (f_name f)"
proof -
  have "take 32 (cstr (f_name f)) = cstr (f_name f)" using assms by (simp add: field_ok_def MAXFIELDLEN_def)
  then have n: "f_name f = cstr (f_name f) @ replicate (32 - length (cstr (f_name f))) NUL"
    using assms by (metis field_ok_def strncpy_buf_def MAXFIELDLEN_def)
  show "length (f_name f) = 32"
    using assms arg_cong [OF n, of length] by (simp add: field_ok_def MAXFIELDLEN_def)
  have "0 < 32 - length (cstr (f_name f))" using assms by (simp add: field_ok_def MAXFIELDLEN_def)
  then show "NUL \<in> set (f_name f)" by (subst n) auto
qed

lemma format_fields_children:
  assumes "list_all field_ok fs"
  shows "schema_format_fields (length fs) fs fnode =
    jn_set_children (jn_children_count fnode + length fs) (jn_child_head fnode @ map named_field fs) fnode"
  using assms
proof (induction fs arbitrary: fnode)
  case Nil
  then show ?case by (cases fnode) simp
next
  case (Cons f fs)
  have "cstr (f_name f @ r) = cstr (f_name f)" for r using field_ok_name(2) [of f] Cons.prems by (simp add: cstr_prefix)
  then show ?case using Cons by (cases fnode) (simp add: field_bytes_def json_add_node_def named_field_def)
qed

lemma sint_64: "- (2 ^ 63) \<le> sint (w :: 64 word) \<and> sint w \<le> 2 ^ 63 - 1"
  using sint_ge [of w] sint_lt [of w] by simp

lemma named_field_ok:
  assumes "field_ok f"
  shows "jn_wf (named_field f)" and "json_plain (named_field f)" and "jn_name (named_field f) = Some (json_str_create (cstr (f_name f)))"
  using assms sint_64 [of "f_size f"] sint_64 [of "f_offset f"]
  by (simp_all add: named_field_def schema_format_field_def Let_def json_build_defs json_str_create_def field_ok_def
      scalar_plain_def, auto simp: ascii_def)

lemmas schema_find_simps = parse_schema_find_def json_find_def json_find_opt_def json_touch_child_def json_as_integer_def
  json_as_string_def json_check_type_def jn_int_def

lemma proc_field_reads:
  assumes "field_ok f"
  shows "\<exists>node. json_tsfile_schema_proc_field g (jn_canon (named_field f)) (- 1) e = Some (SCHEMA_FIELD_OK, field_reread g f, node, e)"
proof -
  have n: "strncpy_buf (cstr (f_name f)) MAXFIELDLEN = f_name f" using assms by (simp add: field_ok_def)
  have c: "f_type f = 0 \<or> f_type f = 1 \<or> f_type f = 2 \<or> f_type f = 3" using assms by (auto simp: field_ok_def ftype_defs)
  show ?thesis using c
    by (elim disjE)
      (simp_all add: named_field_def schema_format_field_def Let_def json_build_defs json_str_create_def
        json_tsfile_schema_proc_field_def schema_proc_offset_def schema_proc_size_def schema_find_simps schema_field_type_def
        canon_data_def canon_str_def n ftype_defs field_reread_def)
qed

lemma proc_fields_read:
  assumes "list_all field_ok fs" and "length gs = length fs"
  shows "\<exists>chs. schema_proc_fields False gs (map (jn_canon \<circ> named_field) fs :: 'd json_node list) (- 1) e =
    Some (None, map2 field_reread gs fs, chs, e)"
  using assms
proof (induction fs arbitrary: gs)
  case (Cons f fs)
  then obtain g gs' where g: "gs = g # gs'" "length gs' = length fs" by (cases gs) auto
  obtain node where "json_tsfile_schema_proc_field g (jn_canon (named_field f) :: 'd json_node) (- 1) e = Some (SCHEMA_FIELD_OK, field_reread g f, node, e)"
    using proc_field_reads [of f g e] Cons.prems(1) by auto
  then show ?case using Cons.IH [of gs'] Cons.prems(1) g by (auto simp del: jn_canon.simps)
qed simp

definition schema_reread :: "tsfile_schema \<Rightarrow> tsfile_schema \<Rightarrow> tsfile_schema" where
  "schema_reread g s = g\<lparr>hdr := (hdr g)\<lparr>entry_size := entry_size (hdr s), field_count := field_count (hdr s)\<rparr>,
     schema_fields := map2 field_reread (schema_fields g) (schema_fields s)\<rparr>"

lemma schema_format_tree:
  assumes "schema_ok s"
  shows "(json_tsfile_schema_format s :: 'd json_node) = Json_Node None JSON_NODE False False JUnset 2
    [Json_Node (Some (JSON_STR ''fields'')) JSON_NODE False False JUnset (length (schema_fields s)) (map named_field (schema_fields s)),
     Json_Node (Some (JSON_STR ''entry_size'')) JSON_NUMBER True False (JInt (uint (entry_size (hdr s)))) 0 []]"
  using assms format_fields_children [of "schema_fields s" "json_new_node None :: 'd json_node"]
  by (simp add: json_tsfile_schema_format_def schema_ok_def json_build_defs)

lemma schema_format_ok:
  assumes "schema_ok s"
  shows "jn_wf (json_tsfile_schema_format s)" and "json_plain (json_tsfile_schema_format s)"
    and "container (json_tsfile_schema_format s)" and "jn_name (json_tsfile_schema_format s) = None"
proof -
  have n: "field_ok f" if "f \<in> set (schema_fields s)" for f using assms that by (auto simp: schema_ok_def list_all_iff)
  have u: "uint (entry_size (hdr s)) < 2 ^ 16" using unsigned_less [of "entry_size (hdr s)"] by simp
  then have i: "- (2 ^ 63) \<le> uint (entry_size (hdr s)) \<and> uint (entry_size (hdr s)) \<le> 2 ^ 63 - 1"
    using order_trans [OF _ uint_ge_0 [of "entry_size (hdr s)"]] by simp
  note t = schema_format_tree [OF assms]
  show "jn_wf (json_tsfile_schema_format s)" using n by (simp add: t named_field_ok)
  show "json_plain (json_tsfile_schema_format s)" using n i by (simp add: t named_field_ok scalar_plain_def JSON_STR_def ascii_def)
  show "container (json_tsfile_schema_format s)" "jn_name (json_tsfile_schema_format s) = None" by (simp_all add: t container_def)
qed

lemma schema_proc_reads:
  assumes "schema_ok s" and "mem (length (schema_fields s)) = Some g"
    and "length (schema_fields g) = length (schema_fields s)"
  shows "\<exists>root. json_tsfile_schema_proc mem (jn_canon (json_tsfile_schema_format s :: 'd json_node)) False e = Some (Inr (schema_reread g s), root, e)"
proof -
  have l: "length (schema_fields s) \<le> MAXFIELDCOUNT" "of_nat (length (schema_fields s)) = field_count (hdr s)"
    and f: "list_all field_ok (schema_fields s)" using assms(1) by (simp_all add: schema_ok_def)
  obtain chs where c: "schema_proc_fields False (schema_fields g) (map (jn_canon \<circ> named_field) (schema_fields s) :: 'd json_node list) (- 1) e =
    Some (None, map2 field_reread (schema_fields g) (schema_fields s), chs, e)"
    using proc_fields_read [OF f assms(3)] by blast
  show ?thesis using l c assms(2)
    by (simp add: schema_format_tree [OF assms(1)] json_tsfile_schema_proc_def schema_find_simps canon_str_def JSON_STR_def
        canon_data_def tsfile_schema_alloc_def Let_def schema_reread_def)
qed

text \<open>
  C18. A schema that \<open>tsfile_schema_write\<close> writes to a file, \<open>tsfile_schema_read\<close> reads back, whatever
  the memory of the new schema held before: header and fields are the same, except for the size
  of boolean fields, which is left uninitialised. It holds for schemas of at most 64 fields with
  7-bit names of at most 31 characters. The references to the parsed buffer are all released.
\<close>

theorem tsfile_schema_round_trip:
  assumes "schema_ok s" and "mem (length (schema_fields s)) = Some g"
    and "length (schema_fields g) = length (schema_fields s)"
    and "length (json_text True 0 (json_tsfile_schema_format s :: 'd json_node)) \<le> space" and "space < 2 ^ 64"
  shows "\<exists>f. tsfile_schema_write (df :: 'd double_format) (Some (empty_file space)) s = Some (0, Some f) \<and>
    tsfile_schema_read (strtod :: 'd strtod_fun) mem (Some (jf_out f)) e = Some (Some (Inr (schema_reread g s)), 0)"
proof -
  let ?t = "json_tsfile_schema_format s :: 'd json_node"
  note ok = schema_format_ok [OF assms(1)]
  obtain f where f: "json_write_file df ?t (empty_file space) True = Some (f, JSON_OK)" "jf_out f = json_text True 0 ?t"
    using json_write_file_text [OF ok(1,2) assms(4)] by blast
  have "json_parse strtod (jf_out f) = Some (Inr (jn_canon ?t), int (jn_refs (jn_canon ?t)))"
    using json_parse_text [OF ok, of True strtod] json_parse_refs [of strtod "jf_out f"] assms(4,5) f(2) by auto
  moreover obtain root where "json_tsfile_schema_proc mem (jn_canon ?t) False e = Some (Inr (schema_reread g s), root, e)"
    using schema_proc_reads [where mem = mem and g = g and e = e, OF assms(1-3)] by blast
  ultimately show ?thesis using f
    by (simp add: tsfile_schema_write_def tsfile_schema_read_def json_node_destroy_refs schema_proc_refs)
qed

definition demo_schema :: tsfile_schema where
  "demo_schema =
     \<lparr>hdr = \<lparr>entry_size = 16, field_count = 2, pad1 = 0, pad2 = 0\<rparr>,
      schema_fields =
        [\<lparr>f_name = strncpy_buf ''flag'' 32, f_type = TSFILE_FIELD_BOOLEAN, f_size = 4, f_offset = 0\<rparr>,
         \<lparr>f_name = strncpy_buf ''value'' 32, f_type = TSFILE_FIELD_INT, f_size = 8, f_offset = 8\<rparr>]\<rparr>"

definition demo_memory :: "nat \<Rightarrow> tsfile_schema option" where
  "demo_memory n =
     Some \<lparr>hdr = \<lparr>entry_size = 0, field_count = 0, pad1 = 7, pad2 = 7\<rparr>,
           schema_fields = replicate n \<lparr>f_name = replicate 32 (CHR ''?''), f_type = 9, f_size = 9, f_offset = 9\<rparr>\<rparr>"

lemma demo_schema_ok: "schema_ok demo_schema"
  by code_simp

lemma demo_schema_text: "length (json_text True 0 (json_tsfile_schema_format demo_schema :: nat json_node)) \<le> 1000"
  by code_simp

theorem tsfile_schema_round_trip_witness:
  "\<exists>f. tsfile_schema_write demo_format (Some (empty_file 1000)) demo_schema = Some (0, Some f) \<and>
    tsfile_schema_read demo_strtod demo_memory (Some (jf_out f)) JSON_OK =
      Some (Some (Inr (schema_reread (the (demo_memory 2)) demo_schema)), 0)"
  by (rule tsfile_schema_round_trip [OF demo_schema_ok _ _ demo_schema_text])
    (simp_all add: demo_memory_def demo_schema_def, simp add: numeral_2_eq_2)

end
