(* ===== verification/TsFile.thy ===== *)
theory TsFile
  imports TsSchema
begin

text \<open>
  TSFiles (\<open>libtsfile/tsfile.c\<close>): a file with a header of 4096 bytes, which holds four superblocks
  and the schema, followed by entries of fixed size. The file is a list of bytes; the results of
  the system calls (\<open>open\<close>, \<open>lseek\<close>, \<open>read\<close>, \<open>write\<close>, the clock) are arguments, so that short and failed
  transfers are covered. The mutex of the handle is held over the whole of every operation.
\<close>

section \<open>Header\<close>

definition TSFILE_MAGIC :: string where "TSFILE_MAGIC = ''TSFILE''"
definition TSFILE_VERSION :: "16 word" where "TSFILE_VERSION = 1"
definition SBCOUNT :: nat where "SBCOUNT = 4"
definition SBMASK :: nat where "SBMASK = SBCOUNT - 1"
definition TSFILE_HEADER_SIZE :: nat where "TSFILE_HEADER_SIZE = 4096"
definition TSFILE_SB_WRITE_LEN :: nat where "TSFILE_SB_WRITE_LEN = 512"

text \<open>\<open>sb_pad\<close> and \<open>page_rest\<close> are the padding of the structure and the rest of the 4096 bytes.\<close>

record tsfile_sb =
  sb_time :: "64 word"
  sb_count :: "32 word"
  sb_pad :: "32 word"

record tsfile_header =
  magic :: "char list"
  version :: "16 word"
  sb :: "tsfile_sb list"
  schema :: tsfile_schema
  page_rest :: "char list"

definition sb_bytes :: "tsfile_sb \<Rightarrow> char list" where
  "sb_bytes s = word_bytes 8 (sb_time s) @ word_bytes 4 (sb_count s) @ word_bytes 4 (sb_pad s)"

definition bytes_sb :: "char list \<Rightarrow> tsfile_sb" where
  "bytes_sb bs = \<lparr>sb_time = bytes_word 8 bs, sb_count = bytes_word 4 (drop 8 bs), sb_pad = bytes_word 4 (drop 12 bs)\<rparr>"

interpretation sb_layout: layout 16 sb_bytes bytes_sb "\<lambda>_. True"
  by unfold_locales (simp_all add: sb_bytes_def bytes_sb_def bytes_word_bytes)

definition header_bytes :: "tsfile_header \<Rightarrow> char list" where
  "header_bytes h =
     magic h @ word_bytes 2 (version h) @ concat (map sb_bytes (sb h)) @ shdr_bytes (hdr (schema h)) @
     concat (map field_bytes (schema_fields (schema h))) @ page_rest h"

definition bytes_header :: "char list \<Rightarrow> tsfile_header" where
  "bytes_header bs =
     \<lparr>magic = take 6 bs, version = bytes_word 2 (drop 6 bs),
      sb = map (\<lambda>i. bytes_sb (drop (i * 16) (drop 8 bs))) [0..<4],
      schema = \<lparr>hdr = bytes_shdr (drop 72 bs),
                schema_fields = map (\<lambda>i. bytes_field (drop (i * 56) (drop 88 bs))) [0..<64]\<rparr>,
      page_rest = take 424 (drop 3672 bs)\<rparr>"

definition header_ok :: "tsfile_header \<Rightarrow> bool" where
  "header_ok h \<longleftrightarrow> length (magic h) = 6 \<and> length (sb h) = 4 \<and> length (schema_fields (schema h)) = 64 \<and>
     list_all (\<lambda>f. length (f_name f) = 32) (schema_fields (schema h)) \<and> length (page_rest h) = 424"

lemma header_parts:
  assumes "header_ok h"
  shows "length (concat (map sb_bytes (sb h))) = 64"
    and "length (concat (map field_bytes (schema_fields (schema h)))) = 3584"
    and "length (shdr_bytes (hdr (schema h))) = 16" and "length (magic h) = 6" and "length (page_rest h) = 424"
  using assms sb_layout.enc_array_length [of "sb h"] field_layout.enc_array_length [of "schema_fields (schema h)"]
    shdr_layout.enc_width
  by (auto simp: header_ok_def list_all_iff)

lemma bytes_header_bytes:
  assumes "header_ok h"
  shows "bytes_header (header_bytes h @ rest) = h"
proof -
  note p = header_parts [OF assms]
  have n: "length (sb h) = 4" "length (schema_fields (schema h)) = 64" "\<forall>f \<in> set (schema_fields (schema h)). length (f_name f) = 32"
    using assms by (simp_all add: header_ok_def list_all_iff)
  let ?b = "header_bytes h @ rest"
  have d8: "drop 8 ?b = concat (map sb_bytes (sb h)) @ shdr_bytes (hdr (schema h)) @
      concat (map field_bytes (schema_fields (schema h))) @ page_rest h @ rest"
    using p by (simp add: header_bytes_def)
  have d72: "drop 72 ?b = shdr_bytes (hdr (schema h)) @ concat (map field_bytes (schema_fields (schema h))) @ page_rest h @ rest"
    using p by (simp add: header_bytes_def)
  have d88: "drop 88 ?b = concat (map field_bytes (schema_fields (schema h))) @ page_rest h @ rest"
    using p by (simp add: header_bytes_def)
  have d3672: "drop 3672 ?b = page_rest h @ rest" using p by (simp add: header_bytes_def)
  have sbs: "map (\<lambda>i. bytes_sb (drop (i * 16) (drop 8 ?b))) [0..<4] = sb h"
    unfolding d8 by (rule sb_layout.dec_array [of "sb h", unfolded n(1)]) simp
  have fs: "map (\<lambda>i. bytes_field (drop (i * 56) (drop 88 ?b))) [0..<64] = schema_fields (schema h)"
    unfolding d88 by (rule field_layout.dec_array [of "schema_fields (schema h)", unfolded n(2), OF n(3)])
  have "bytes_shdr (drop 72 ?b) = hdr (schema h)" unfolding d72 by (rule shdr_layout.dec_enc) simp
  moreover have "take 6 ?b = magic h" "drop 6 ?b = word_bytes 2 (version h) @ drop 8 ?b"
    using p by (simp_all add: header_bytes_def)
  ultimately show ?thesis
    unfolding bytes_header_def sbs fs d3672 using p(5) by (simp add: bytes_word_bytes)
qed

interpretation header_layout: layout 4096 header_bytes bytes_header header_ok
  by unfold_locales (simp_all add: bytes_header_bytes, simp add: header_bytes_def header_parts)

section \<open>Checks of schemas\<close>

definition field_check :: "tsfile_field \<Rightarrow> bool" where
  "field_check f =
     (if f_type f = TSFILE_FIELD_BOOLEAN \<or> f_type f = TSFILE_FIELD_STRING then True
      else if f_type f = TSFILE_FIELD_INT then f_size f \<in> {1, 2, 4, 8}
      else if f_type f = TSFILE_FIELD_FLOAT then f_size f \<in> {4, 8}
      else False)"

definition tsfile_check_schema :: "tsfile_schema \<Rightarrow> bool" where
  "tsfile_check_schema s =
     (if unat (field_count (hdr s)) > MAXFIELDCOUNT then False
      else list_all field_check (take (unat (field_count (hdr s))) (schema_fields s)))"

text \<open>\<open>strncmp(a, b, n) == 0\<close>\<close>

definition strncmp_eq :: "char list \<Rightarrow> char list \<Rightarrow> nat \<Rightarrow> bool" where
  "strncmp_eq a b n \<longleftrightarrow> cstr (take n a) = cstr (take n b)"

definition field_same :: "tsfile_field \<Rightarrow> tsfile_field \<Rightarrow> bool" where
  "field_same f1 f2 =
     (if \<not> strncmp_eq (f_name f1) (f_name f2) MAXFIELDLEN then False
      else if f_type f1 \<noteq> f_type f2 then False
      else if f_type f1 \<noteq> TSFILE_FIELD_BOOLEAN \<and> f_size f1 \<noteq> f_size f2 then False
      else True)"

definition tsfile_validate_schema :: "tsfile_header \<Rightarrow> tsfile_schema \<Rightarrow> bool" where
  "tsfile_validate_schema header schema2 =
     (let schema1 = schema header in
      if field_count (hdr schema1) \<noteq> field_count (hdr schema2) \<or> entry_size (hdr schema1) \<noteq> entry_size (hdr schema2)
      then False
      else list_all (\<lambda>fi. field_same (schema_fields schema1 ! fi) (schema_fields schema2 ! fi))
             [0..<unat (field_count (hdr schema1))])"

section \<open>Creation and opening\<close>

record tsfile =
  header :: tsfile_header
  fsize :: nat
  sb_diff :: "64 word"
  cur_sb :: nat

text \<open>\<open>write(fd, bs, length bs)\<close> at an offset: \<open>ret\<close> is its result, \<open>-1\<close> when it fails.\<close>

definition fd_write :: "int \<Rightarrow> nat \<Rightarrow> char list \<Rightarrow> char list \<Rightarrow> char list" where
  "fd_write ret off bs disk = poke off (take (nat ret) bs) disk"

text \<open>
  A result of type \<open>ssize_t\<close> compared with an \<open>unsigned long\<close> is converted to an \<open>unsigned long\<close>
  first.
\<close>

definition lt_ulong :: "int \<Rightarrow> nat \<Rightarrow> bool" where
  "lt_ulong ret n \<longleftrightarrow> ret mod 2 ^ 64 < int n"

definition TSFILE_SB_GET_COUNT :: "tsfile_header \<Rightarrow> nat \<Rightarrow> 32 word" where
  "TSFILE_SB_GET_COUNT h sbi = sb_count (sb h ! sbi)"

definition TSFILE_SB_SET_COUNT :: "tsfile_header \<Rightarrow> nat \<Rightarrow> 32 word \<Rightarrow> 64 word \<Rightarrow> 64 word \<Rightarrow> tsfile_header" where
  "TSFILE_SB_SET_COUNT h sbi new_count diff now =
     h\<lparr>sb := (sb h)[sbi := (sb h ! sbi)\<lparr>sb_count := new_count, sb_time := diff + now\<rparr>]\<rparr>"

definition zero_sb :: tsfile_sb where "zero_sb = \<lparr>sb_time = 0, sb_count = 0, sb_pad = 0\<rparr>"

definition zero_field :: tsfile_field where
  "zero_field = \<lparr>f_name = replicate 32 NUL, f_type = 0, f_size = 0, f_offset = 0\<rparr>"

text \<open>\<open>mem\<close> is the memory of the new header as \<open>mp_malloc\<close> returns it.\<close>

definition tsfile_new_header :: "tsfile_header \<Rightarrow> 64 word \<Rightarrow> tsfile_schema \<Rightarrow> tsfile_header" where
  "tsfile_new_header mem now s =
     (let h1 = mem\<lparr>magic := TSFILE_MAGIC, version := TSFILE_VERSION\<rparr>;
          h2 = h1\<lparr>sb := take 1 (sb h1) @ replicate (SBCOUNT - 1) zero_sb\<rparr>;
          h3 = TSFILE_SB_SET_COUNT h2 0 0 0 now;
          n = unat (field_count (hdr s))
      in h3\<lparr>schema := \<lparr>hdr = hdr s, schema_fields = take n (schema_fields s) @ replicate (MAXFIELDCOUNT - n) zero_field\<rparr>,
            page_rest := replicate 424 NUL\<rparr>)"

text \<open>
  \<open>tsfile_create\<close> opens the file without truncating it: \<open>disk\<close> is what it contained before. \<open>opened\<close>
  tells if \<open>open\<close> succeeded, \<open>ret\<close> is the result of writing the header.
\<close>

definition tsfile_create ::
    "tsfile_header \<Rightarrow> bool \<Rightarrow> int \<Rightarrow> 64 word \<Rightarrow> tsfile_schema \<Rightarrow> char list \<Rightarrow> tsfile option \<times> char list" where
  "tsfile_create mem opened ret now s disk =
     (if \<not> tsfile_check_schema s then (None, disk)
      else if \<not> opened then (None, disk)
      else
        let h = tsfile_new_header mem now s; disk1 = fd_write ret 0 (header_bytes h) disk
        in if ret < int TSFILE_HEADER_SIZE then (None, disk1)
           else (Some \<lparr>header = h, fsize = 0, sb_diff = 0, cur_sb = 0\<rparr>, disk1))"

text \<open>The search for the superblock with the latest time.\<close>

fun tsfile_find_sb :: "tsfile_sb list \<Rightarrow> nat list \<Rightarrow> nat option \<Rightarrow> nat option" where
  "tsfile_find_sb sbs [] cur = cur"
| "tsfile_find_sb sbs (sbi # is) cur =
     tsfile_find_sb sbs is
       (if sint (sb_time (sbs ! sbi)) > 0 then
          (case cur of
             None \<Rightarrow> Some sbi
           | Some c \<Rightarrow> if sint (sb_time (sbs ! sbi)) > sint (sb_time (sbs ! c)) then Some sbi else cur)
        else cur)"

definition tsfile_open :: "bool \<Rightarrow> int \<Rightarrow> 64 word \<Rightarrow> tsfile_schema \<Rightarrow> char list \<Rightarrow> tsfile option" where
  "tsfile_open opened ret cur_time s disk =
     (if \<not> opened then None
      else if ret < int TSFILE_HEADER_SIZE then None
      else
        let h = bytes_header disk in
        if magic h \<noteq> TSFILE_MAGIC \<or> version h \<noteq> TSFILE_VERSION then None
        else if \<not> tsfile_validate_schema h s then None
        else (case tsfile_find_sb (sb h) [0..<SBCOUNT] None of
                None \<Rightarrow> None
              | Some c \<Rightarrow>
                  Some \<lparr>header = h, fsize = length disk,
                        sb_diff = (if sint (sb_time (sb h ! c)) > sint cur_time then sb_time (sb h ! c) - cur_time else 0),
                        cur_sb = c\<rparr>))"

section \<open>Adding and reading entries\<close>

datatype tsfile_code = TSFILE_OK | TSFILE_SB_FAIL | TSFILE_DATA_FAIL | TSFILE_INVAL_RANGE

record tsfile_io =
  seek_data :: bool
  write_data :: int
  seek_sb :: bool
  write_sb :: int
  clock :: "64 word"

definition tsfile_add ::
    "tsfile_io \<Rightarrow> char list \<Rightarrow> 32 word \<Rightarrow> tsfile \<times> char list \<Rightarrow> tsfile_code \<times> tsfile \<times> char list" where
  "tsfile_add io entries n fd =
     (let (file, disk) = fd;
          esize = unat (entry_size (hdr (schema (header file))));
          sz = unat n * esize;
          cur_count = TSFILE_SB_GET_COUNT (header file) (cur_sb file);
          off = TSFILE_HEADER_SIZE + unat cur_count * esize
      in if \<not> seek_data io then (TSFILE_DATA_FAIL, file, disk)
         else
           let disk1 = fd_write (write_data io) off (take sz entries) disk in
           if lt_ulong (write_data io) sz then (TSFILE_DATA_FAIL, file, disk1)
           else
             let sbi = (cur_sb file + 1) AND SBMASK;
                 h = TSFILE_SB_SET_COUNT (header file) sbi (cur_count + n) (sb_diff file) (clock io);
                 file1 = file\<lparr>fsize := fsize file + sz, cur_sb := sbi, header := h\<rparr>
             in if \<not> seek_sb io then (TSFILE_SB_FAIL, file1, disk1)
                else (if write_sb io < int TSFILE_SB_WRITE_LEN then TSFILE_SB_FAIL else TSFILE_OK, file1,
                      fd_write (write_sb io) 0 (take TSFILE_SB_WRITE_LEN (header_bytes h)) disk1))"

definition tsfile_get_count :: "tsfile \<Rightarrow> 32 word" where
  "tsfile_get_count file = TSFILE_SB_GET_COUNT (header file) (cur_sb file)"

text \<open>
  \<open>buf\<close> is the memory the entries are read into; \<open>ret\<close> the result of \<open>read\<close>, whose bytes replace the
  first ones of \<open>buf\<close>.
\<close>

definition tsfile_get_entries ::
    "bool \<Rightarrow> int \<Rightarrow> char list \<Rightarrow> 32 word \<Rightarrow> 32 word \<Rightarrow> tsfile \<times> char list \<Rightarrow> tsfile_code \<times> char list" where
  "tsfile_get_entries seek ret buf start end_n fd =
     (let (file, disk) = fd;
          esize = unat (entry_size (hdr (schema (header file))));
          off = TSFILE_HEADER_SIZE + unat start * esize;
          sz = unat (end_n - start) * esize;
          cur_count = TSFILE_SB_GET_COUNT (header file) (cur_sb file)
      in if start \<ge> end_n then (TSFILE_INVAL_RANGE, buf)
         else if start > cur_count \<or> end_n > cur_count then (TSFILE_INVAL_RANGE, buf)
         else if \<not> seek then (TSFILE_DATA_FAIL, buf)
         else (if lt_ulong ret sz then TSFILE_DATA_FAIL else TSFILE_OK,
               peek off (nat ret) disk @ drop (nat ret) buf))"

section \<open>A file as a log of entries\<close>

definition esize :: "tsfile \<Rightarrow> nat" where
  "esize file = unat (entry_size (hdr (schema (header file))))"

definition sb_at :: "tsfile \<Rightarrow> nat \<Rightarrow> int" where
  "sb_at file i = sint (sb_time (sb (header file) ! i))"

text \<open>
  The handle and the file hold the entries \<open>es\<close>: the current superblock counts them, the file has
  them behind its header, and the header on the disk is that of the handle. An opened file has the
  same entries when the current superblock is the only one with the latest time.
\<close>

definition log_data :: "tsfile \<times> char list \<Rightarrow> char list list \<Rightarrow> bool" where
  "log_data fd es \<longleftrightarrow>
     (let (file, disk) = fd in
      header_ok (header file) \<and> magic (header file) = TSFILE_MAGIC \<and> version (header file) = TSFILE_VERSION \<and>
      cur_sb file < SBCOUNT \<and> unat (tsfile_get_count file) = length es \<and> (\<forall>e \<in> set es. length e = esize file) \<and>
      TSFILE_HEADER_SIZE + length es * esize file \<le> length disk \<and>
      take TSFILE_HEADER_SIZE disk = header_bytes (header file) \<and>
      peek TSFILE_HEADER_SIZE (length es * esize file) disk = concat es)"

definition latest_sb :: "tsfile \<Rightarrow> bool" where
  "latest_sb file \<longleftrightarrow> 0 < sb_at file (cur_sb file) \<and> (\<forall>i < SBCOUNT. i \<noteq> cur_sb file \<longrightarrow> sb_at file i < sb_at file (cur_sb file))"

definition log_rep :: "tsfile \<times> char list \<Rightarrow> char list list \<Rightarrow> bool" where
  "log_rep fd es \<longleftrightarrow> log_data fd es \<and> latest_sb (fst fd)"

lemma length_concat_same: "\<forall>e \<in> set es. length e = n \<Longrightarrow> length (concat es) = length es * n"
  by (induction es) auto

lemma log_dataI:
  assumes "header_ok (header file)" "magic (header file) = TSFILE_MAGIC" "version (header file) = TSFILE_VERSION"
    "cur_sb file < 4" "unat (tsfile_get_count file) = length es" "\<And>e. e \<in> set es \<Longrightarrow> length e = esize file"
    "4096 + length es * esize file \<le> length disk" "take 4096 disk = header_bytes (header file)"
    "peek 4096 (length es * esize file) disk = concat es"
  shows "log_data (file, disk) es"
  using assms by (simp add: log_data_def TSFILE_HEADER_SIZE_def SBCOUNT_def)

lemma log_dataD:
  assumes "log_data (file, disk) es"
  shows "header_ok (header file)" "magic (header file) = TSFILE_MAGIC" "version (header file) = TSFILE_VERSION"
    "cur_sb file < 4" "unat (tsfile_get_count file) = length es" "\<And>e. e \<in> set es \<Longrightarrow> length e = esize file"
    "4096 + length es * esize file \<le> length disk" "take 4096 disk = header_bytes (header file)"
    "peek 4096 (length es * esize file) disk = concat es"
  using assms by (simp_all add: log_data_def TSFILE_HEADER_SIZE_def SBCOUNT_def)

lemma log_rep_data: "log_rep fd es \<Longrightarrow> log_data fd es"
  by (simp add: log_rep_def)

subsection \<open>Rewriting the superblocks\<close>

lemma header_ok_set_sb: "header_ok h \<Longrightarrow> length x = 4 \<Longrightarrow> header_ok (h\<lparr>sb := x\<rparr>)"
  by (simp add: header_ok_def)

lemma header_bytes_set_sb:
  assumes "header_ok h" and "length x = 4"
  shows "drop 512 (header_bytes (h\<lparr>sb := x\<rparr>)) = drop 512 (header_bytes h)"
proof -
  have "length (concat (map sb_bytes x)) = 64" using sb_layout.enc_array_length [of x] assms(2) by simp
  then have "drop 72 (header_bytes (h\<lparr>sb := x\<rparr>)) = drop 72 (header_bytes h)"
    using header_parts [OF assms(1)] by (simp add: header_bytes_def)
  then have "drop 440 (drop 72 (header_bytes (h\<lparr>sb := x\<rparr>))) = drop 440 (drop 72 (header_bytes h))" by simp
  then show ?thesis by simp
qed

lemma rewrite_header:
  assumes "header_ok h" and "length x = 4" and "take 4096 disk = header_bytes h" and "4096 \<le> length disk"
  shows "take 4096 (poke 0 (take 512 (header_bytes (h\<lparr>sb := x\<rparr>))) disk) = header_bytes (h\<lparr>sb := x\<rparr>)"
proof -
  let ?b = "header_bytes (h\<lparr>sb := x\<rparr>)"
  have l: "length ?b = 4096" using header_layout.enc_width [OF header_ok_set_sb [OF assms(1,2)]] .
  have "take 4096 (poke 0 (take 512 ?b) disk) = take 512 ?b @ drop 512 (take 4096 disk)"
    using l assms(4) by (auto simp: poke_def drop_take)
  also have "\<dots> = take 512 ?b @ drop 512 ?b" using assms(3) header_bytes_set_sb [OF assms(1,2)] by simp
  finally show ?thesis by simp
qed

lemma next_sb: "c < 4 \<Longrightarrow> (c + 1) AND SBMASK < 4 \<and> (c + 1) AND SBMASK \<noteq> c"
proof -
  assume "c < 4"
  then have "c = 0 \<or> c = 1 \<or> c = 2 \<or> c = 3" by linarith
  then show ?thesis by (auto simp: SBMASK_def SBCOUNT_def numeral_2_eq_2 [symmetric])
qed

subsection \<open>Adding\<close>

lemma int_less_2_64: "m < 2 ^ 64 \<Longrightarrow> int m < 2 ^ 64"
  using of_nat_less_iff [where 'a = int, of m "2 ^ 64"] by simp

lemma lt_ulong_iff:
  assumes "0 \<le> ret" and "ret \<le> int m" and "m < 2 ^ 64"
  shows "lt_ulong ret m \<longleftrightarrow> ret < int m"
proof -
  have "ret mod 2 ^ 64 = ret" using assms int_less_2_64 [OF assms(3)] by (intro mod_pos_pos_trivial) linarith+
  then show ?thesis by (simp add: lt_ulong_def)
qed

text \<open>A failed transfer is not recognised: \<open>-1\<close> becomes the largest \<open>unsigned long\<close>.\<close>

lemma lt_ulong_failed: "m < 2 ^ 64 \<Longrightarrow> \<not> lt_ulong (- 1) m"
  using int_less_2_64 [of m] by (simp add: lt_ulong_def)

lemma add_data_kept:
  assumes "log_data (file, disk) es"
  shows "log_data (file, poke (4096 + length es * esize file) bs disk) es"
  using log_dataD [OF assms] by (intro log_dataI) (simp_all add: take_poke peek_poke_before length_poke le_max_iff_disj)

text \<open>A failed seek or a short write of the entries leaves the log as it was.\<close>

lemma tsfile_add_data_fails:
  assumes "log_data (file, disk) es" and "\<not> seek_data io \<or> 0 \<le> write_data io \<and> write_data io < int (unat n * esize file)"
    and "unat n * esize file < 2 ^ 64"
  shows "\<exists>disk'. tsfile_add io entries n (file, disk) = (TSFILE_DATA_FAIL, file, disk') \<and> log_data (file, disk') es"
proof -
  have c: "unat (TSFILE_SB_GET_COUNT (header file) (cur_sb file)) = length es"
    using log_dataD(5) [OF assms(1)] by (simp add: tsfile_get_count_def)
  have lt: "lt_ulong (write_data io) (unat n * esize file)" if "seek_data io"
    using that assms(2,3) by (subst lt_ulong_iff) linarith+
  show ?thesis
    using assms(1) lt c add_data_kept [OF assms(1)]
    by (auto simp: tsfile_add_def Let_def fd_write_def TSFILE_HEADER_SIZE_def esize_def)
qed

definition full_io :: "nat \<Rightarrow> 64 word \<Rightarrow> tsfile_io" where
  "full_io sz now = \<lparr>seek_data = True, write_data = int sz, seek_sb = True, write_sb = int TSFILE_SB_WRITE_LEN, clock = now\<rparr>"

text \<open>What a batch of new entries needs: whole entries, room in the 32-bit count, and a clock that moved.\<close>

definition batch_fits :: "tsfile \<times> char list \<Rightarrow> char list list \<Rightarrow> 64 word \<Rightarrow> char list list \<Rightarrow> bool" where
  "batch_fits fd es now new \<longleftrightarrow>
     (\<forall>e \<in> set new. length e = esize (fst fd)) \<and> length es + length new < 2 ^ 32 \<and>
     sb_at (fst fd) (cur_sb (fst fd)) < sint (sb_diff (fst fd) + now)"

lemma esize_bound: "esize file < 2 ^ 16"
  using unsigned_less [of "entry_size (hdr (schema (header file)))"] by (simp add: esize_def)

lemma batch_bytes_bound: "length new < 2 ^ 32 \<Longrightarrow> length new * esize file < 2 ^ 64"
proof -
  assume "length new < 2 ^ 32"
  then have "length new * esize file < 2 ^ 32 * 2 ^ 16" using esize_bound [of "file"] by (intro mult_strict_mono') simp_all
  then show ?thesis by simp
qed

text \<open>The handle after a complete addition, and the entries on the disk before the header is rewritten.\<close>

definition added :: "tsfile \<Rightarrow> 64 word \<Rightarrow> nat \<Rightarrow> tsfile" where
  "added file now n =
     (let sbi = (cur_sb file + 1) AND SBMASK
      in file\<lparr>fsize := fsize file + n * esize file, cur_sb := sbi,
              header := (header file)\<lparr>sb := (sb (header file))[sbi := (sb (header file) ! sbi)
                 \<lparr>sb_count := tsfile_get_count file + of_nat n, sb_time := sb_diff file + now\<rparr>]\<rparr>\<rparr>)"

lemma added_simps [simp]:
  "esize (added file now n) = esize file" "schema (header (added file now n)) = schema (header file)"
  "sb_diff (added file now n) = sb_diff file" "cur_sb (added file now n) = (cur_sb file + 1) AND SBMASK"
  "magic (header (added file now n)) = magic (header file)" "version (header (added file now n)) = version (header file)"
  by (simp_all add: added_def Let_def esize_def)

lemma added_header:
  assumes "header_ok (header file)" and "cur_sb file < 4"
  shows "\<exists>x. header (added file now n) = (header file)\<lparr>sb := x\<rparr> \<and> length x = 4"
    and "tsfile_get_count (added file now n) = tsfile_get_count file + of_nat n"
    and "i < 4 \<Longrightarrow> sb_at (added file now n) i =
      (if i = (cur_sb file + 1) AND SBMASK then sint (sb_diff file + now) else sb_at file i)"
  using assms next_sb [OF assms(2)]
  by (auto simp: added_def Let_def header_ok_def tsfile_get_count_def TSFILE_SB_GET_COUNT_def sb_at_def)

lemma added_on_disk:
  assumes r: "log_data (file, disk) es" and "\<forall>e \<in> set new. length e = esize file"
  shows "4096 + length (es @ new) * esize file \<le> length (poke (4096 + length es * esize file) (concat new) disk)"
    and "peek 4096 (length (es @ new) * esize file) (poke (4096 + length es * esize file) (concat new) disk) = concat (es @ new)"
proof -
  let ?d = "poke (4096 + length es * esize file) (concat new) disk"
  note d = log_dataD [OF r]
  have l: "length (concat new) = length new * esize file" using assms(2) by (rule length_concat_same)
  show "4096 + length (es @ new) * esize file \<le> length ?d"
    using length_poke_ge [OF d(7), of "concat new"] l by (simp add: algebra_simps)
  have "peek 4096 (length es * esize file + length new * esize file) ?d =
      peek 4096 (length es * esize file) ?d @ peek (4096 + length es * esize file) (length (concat new)) ?d"
    unfolding l by (simp add: peek_def take_add add.commute)
  also have "\<dots> = concat es @ concat new"
    using log_dataD(9) [OF add_data_kept [OF r]] peek_poke [OF d(7), of "concat new"] by simp
  finally show "peek 4096 (length (es @ new) * esize file) ?d = concat (es @ new)" by (simp add: algebra_simps)
qed

lemma tsfile_add_full:
  assumes r: "log_data (file, disk) es" and n: "length new < 2 ^ 32" and e: "\<forall>e \<in> set new. length e = esize file"
  shows "tsfile_add (full_io (length new * esize file) now) (concat new) (of_nat (length new)) (file, disk) =
    (TSFILE_OK, added file now (length new),
     poke 0 (take 512 (header_bytes (header (added file now (length new)))))
       (poke (4096 + length es * esize file) (concat new) disk))"
proof -
  have l: "length (concat new) = length new * esize file" using e by (rule length_concat_same)
  have nlt: "\<not> lt_ulong (int (length new * esize file)) (length new * esize file)"
    using batch_bytes_bound [OF n, of "file"] by (subst lt_ulong_iff) simp_all
  have un: "unat (of_nat (length new) :: 32 word) = length new" using n by (simp add: unat_of_nat)
  show ?thesis
    using log_dataD(5) [OF r] nlt un l
    by (simp add: tsfile_add_def full_io_def Let_def fd_write_def esize_def [symmetric] tsfile_get_count_def [symmetric]
        TSFILE_HEADER_SIZE_def TSFILE_SB_WRITE_LEN_def TSFILE_SB_SET_COUNT_def added_def del: of_nat_mult)
qed

lemma tsfile_add_data:
  assumes r: "log_data (file, disk) es" and n: "length es + length new < 2 ^ 32" and e: "\<forall>e \<in> set new. length e = esize file"
  shows "\<exists>disk'. tsfile_add (full_io (length new * esize file) now) (concat new) (of_nat (length new)) (file, disk) =
      (TSFILE_OK, added file now (length new), disk') \<and> log_data (added file now (length new), disk') (es @ new)"
proof -
  note d = log_dataD [OF r]
  let ?d = "poke (4096 + length es * esize file) (concat new) disk" and ?f = "added file now (length new)"
  note d1 = log_dataD [OF add_data_kept [OF r, of "concat new"]] and a = added_header [OF d(1,4)] and disk = added_on_disk [OF r e]
  obtain x where x: "header ?f = (header file)\<lparr>sb := x\<rparr>" "length x = 4" using a(1) [of now "length new"] by blast
  have ok: "header_ok (header ?f)" using header_ok_set_sb [OF d(1) x(2)] x(1) by simp
  let ?b = "take 512 (header_bytes (header ?f))"
  have hl: "length ?b = 512" using header_layout.enc_width [OF ok] by simp
  have body: "peek 4096 m (poke 0 ?b ?d) = peek 4096 m ?d" for m by (rule peek_poke_behind) (use hl in simp_all)
  have "log_data (?f, poke 0 ?b ?d) (es @ new)"
  proof (rule log_dataI)
    show "unat (tsfile_get_count ?f) = length (es @ new)"
      using d(5) n a(2) [of now "length new"] by (simp add: unat_word_ariths unat_of_nat)
    have "4096 \<le> length ?d" using disk(1) by simp
    then show "take 4096 (poke 0 ?b ?d) = header_bytes (header ?f)" unfolding x(1) by (rule rewrite_header [OF d(1) x(2) d1(8)])
    show "4096 + length (es @ new) * esize ?f \<le> length (poke 0 ?b ?d)" using disk(1) by (auto simp: length_poke)
    show "length y = esize ?f" if "y \<in> set (es @ new)" for y using that d(6) e by auto
  qed (use ok d(2,3) next_sb [OF d(4)] disk(2) body in simp_all)
  then show ?thesis using tsfile_add_full [OF r _ e] n by simp
qed

lemma tsfile_add_appends:
  assumes r: "log_rep (file, disk) es" and f: "batch_fits (file, disk) es now new"
  shows "\<exists>fd'. tsfile_add (full_io (length new * esize file) now) (concat new) (of_nat (length new)) (file, disk) =
      (TSFILE_OK, fd') \<and> log_rep fd' (es @ new) \<and> schema (header (fst fd')) = schema (header file) \<and> sb_diff (fst fd') = sb_diff file \<and>
      sb_at (fst fd') (cur_sb (fst fd')) = sint (sb_diff file + now)"
proof -
  note d = log_dataD [OF log_rep_data [OF r]] and latest = r [unfolded log_rep_def latest_sb_def fst_conv]
  let ?f = "added file now (length new)"
  note at = added_header(3) [OF d(1,4), where now = now and n = "length new"] and sbi = next_sb [OF d(4)]
  have newer: "sb_at file (cur_sb file) < sint (sb_diff file + now)" using f by (simp add: batch_fits_def)
  have cur: "sb_at ?f (cur_sb ?f) = sint (sb_diff file + now)" using at [of "cur_sb ?f"] sbi by simp
  have "sb_at ?f i < sb_at ?f (cur_sb ?f)" if "i < SBCOUNT" "i \<noteq> cur_sb ?f" for i
    using that at [of i] latest newer cur by (cases "i = cur_sb file") (auto simp: SBCOUNT_def)
  then have "latest_sb ?f" using latest newer cur by (simp add: latest_sb_def)
  then show ?thesis using tsfile_add_data [OF log_rep_data [OF r], of new now] f cur by (auto simp: batch_fits_def log_rep_def)
qed

subsection \<open>Creating and opening\<close>

definition schema_shape :: "tsfile_schema \<Rightarrow> bool" where
  "schema_shape s \<longleftrightarrow> unat (field_count (hdr s)) \<le> length (schema_fields s) \<and> list_all (\<lambda>f. length (f_name f) = 32) (schema_fields s)"

lemma tsfile_new_header_ok:
  assumes "header_ok mem" and "tsfile_check_schema s" and "schema_shape s"
  shows "header_ok (tsfile_new_header mem now s)"
proof -
  have "unat (field_count (hdr s)) \<le> 64" using assms(2) by (simp add: tsfile_check_schema_def MAXFIELDCOUNT_def split: if_splits)
  then show ?thesis
    using assms(1,3)
    by (auto simp: header_ok_def tsfile_new_header_def Let_def TSFILE_SB_SET_COUNT_def TSFILE_MAGIC_def SBCOUNT_def schema_shape_def
        MAXFIELDCOUNT_def list_all_iff zero_field_def min_def dest: in_set_takeD)
qed

lemma new_header_sb:
  assumes "header_ok mem"
  shows "sb (tsfile_new_header mem now s) = \<lparr>sb_time = now, sb_count = 0, sb_pad = sb_pad (sb mem ! 0)\<rparr> # replicate 3 zero_sb"
  using assms by (cases "sb mem") (simp_all add: header_ok_def tsfile_new_header_def Let_def TSFILE_SB_SET_COUNT_def SBCOUNT_def)

lemma tsfile_create_empty:
  assumes "header_ok mem" and "tsfile_check_schema s" and "schema_shape s" and "0 < sint now"
  shows "\<exists>file disk'. tsfile_create mem True (int TSFILE_HEADER_SIZE) now s disk = (Some file, disk') \<and> log_rep (file, disk') [] \<and>
    header file = tsfile_new_header mem now s \<and> sb_diff file = 0 \<and> cur_sb file = 0 \<and> sb_at file (cur_sb file) = sint now"
proof -
  let ?h = "tsfile_new_header mem now s" and ?d = "poke 0 (header_bytes (tsfile_new_header mem now s)) disk"
  let ?f = "\<lparr>header = ?h, fsize = 0, sb_diff = 0, cur_sb = 0\<rparr>"
  note ok = tsfile_new_header_ok [OF assms(1-3), of now]
  have l: "length (header_bytes ?h) = 4096" using header_layout.enc_width [OF ok] .
  have c: "tsfile_create mem True (int TSFILE_HEADER_SIZE) now s disk = (Some ?f, ?d)"
    using assms(2) l by (simp add: tsfile_create_def Let_def fd_write_def TSFILE_HEADER_SIZE_def)
  note sbs = new_header_sb [OF assms(1), of now s]
  have at: "sb_at ?f i = (if i = 0 then sint now else 0)" if "i < 4" for i
    using that by (cases i) (simp_all add: sb_at_def sbs zero_sb_def)
  have "log_data (?f, ?d) []"
  proof (rule log_dataI)
    show "header_ok (header ?f)" using ok by simp
    show "magic (header ?f) = TSFILE_MAGIC" "version (header ?f) = TSFILE_VERSION"
      by (simp_all add: tsfile_new_header_def Let_def TSFILE_SB_SET_COUNT_def)
    show "take 4096 ?d = header_bytes (header ?f)" using l by (auto simp: poke_def)
  qed (use l in \<open>auto simp: tsfile_get_count_def TSFILE_SB_GET_COUNT_def sbs peek_def length_poke\<close>)
  moreover have "latest_sb ?f" using at assms(4) by (simp add: latest_sb_def SBCOUNT_def)
  ultimately show ?thesis using c at [of 0] by (simp add: log_rep_def)
qed

lemma find_sb_stays:
  "\<forall>i \<in> set is. sint (sb_time (sbs ! i)) \<le> sint (sb_time (sbs ! c)) \<Longrightarrow> tsfile_find_sb sbs is (Some c) = Some c"
  by (induction "is") auto

lemma find_sb_finds:
  assumes "c \<in> set is" and "0 < sint (sb_time (sbs ! c))"
    and "\<forall>i \<in> set is. i \<noteq> c \<longrightarrow> sint (sb_time (sbs ! i)) < sint (sb_time (sbs ! c))"
    and "\<And>k. cur = Some k \<Longrightarrow> sint (sb_time (sbs ! k)) < sint (sb_time (sbs ! c))"
  shows "tsfile_find_sb sbs is cur = Some c"
  using assms
proof (induction "is" arbitrary: cur)
  case (Cons i "is")
  show ?case
  proof (cases "i = c")
    case True
    have "\<forall>i \<in> set is. sint (sb_time (sbs ! i)) \<le> sint (sb_time (sbs ! c))"
      using Cons.prems(3) by (metis less_imp_le list.set_intros(2) order_refl)
    then show ?thesis using True Cons.prems(2,4) find_sb_stays [of "is" sbs c] by (cases cur) simp_all
  next
    case False
    then show ?thesis using Cons.prems by (auto intro!: Cons.IH split: option.splits)
  qed
qed simp

lemma log_data_header:
  assumes "log_data (file, disk) es"
  shows "bytes_header disk = header file"
  using bytes_header_bytes [OF log_dataD(1) [OF assms], of "drop 4096 disk"] log_dataD(8) [OF assms] by (metis append_take_drop_id)

lemma tsfile_open_finds:
  assumes "log_rep (file, disk) es" and "tsfile_validate_schema (header file) s"
  shows "\<exists>g. tsfile_open True (int TSFILE_HEADER_SIZE) now s disk = Some g \<and> log_rep (g, disk) es \<and>
    header g = header file \<and> cur_sb g = cur_sb file \<and> tsfile_get_count g = tsfile_get_count file"
proof -
  note d = log_dataD [OF log_rep_data [OF assms(1)]]
  have "tsfile_find_sb (sb (header file)) [0..<SBCOUNT] None = Some (cur_sb file)"
    using d(4) assms(1) by (intro find_sb_finds) (auto simp: log_rep_def latest_sb_def sb_at_def SBCOUNT_def)
  then obtain g where g: "tsfile_open True (int TSFILE_HEADER_SIZE) now s disk = Some g" "header g = header file" "cur_sb g = cur_sb file"
    using assms(2) d(2,3) log_data_header [OF log_rep_data [OF assms(1)]] by (simp add: tsfile_open_def Let_def)
  have "log_rep (g, disk) es"
    using assms(1) g(2,3) by (simp add: log_rep_def log_data_def latest_sb_def esize_def sb_at_def tsfile_get_count_def TSFILE_SB_GET_COUNT_def)
  then show ?thesis using g by (simp add: tsfile_get_count_def)
qed

subsection \<open>Reading\<close>

lemma concat_drop: "\<forall>e \<in> set es. length e = n \<Longrightarrow> drop (i * n) (concat es) = concat (drop i es)"
proof (induction es arbitrary: i)
  case (Cons e es)
  then show ?case by (cases i) auto
qed simp

lemma concat_take: "\<forall>e \<in> set es. length e = n \<Longrightarrow> take (i * n) (concat es) = concat (take i es)"
proof (induction es arbitrary: i)
  case (Cons e es)
  then show ?case by (cases i) auto
qed simp

lemma log_data_slice:
  assumes "log_data (file, disk) es" and "i \<le> j" and "j \<le> length es"
  shows "peek (4096 + i * esize file) ((j - i) * esize file) disk = concat (take (j - i) (drop i es))"
proof -
  note d = log_dataD [OF assms(1)]
  have le: "i * esize file + (j - i) * esize file \<le> length es * esize file"
    using assms(2,3) by (metis add_mult_distrib le_add_diff_inverse mult_le_mono1)
  have "peek (4096 + i * esize file) ((j - i) * esize file) disk =
      take ((j - i) * esize file) (drop (i * esize file) (take (length es * esize file) (drop 4096 disk)))"
    using le by (simp add: peek_def drop_take min_def add.commute)
  also have "\<dots> = take ((j - i) * esize file) (drop (i * esize file) (concat es))" using d(9) by (simp add: peek_def)
  also have "\<dots> = concat (take (j - i) (drop i es))"
    using concat_drop [of es "esize file" i] concat_take [of "drop i es" "esize file" "j - i"] d(6) by (auto dest: in_set_dropD)
  finally show ?thesis .
qed

lemma tsfile_get_entries_slice:
  assumes "log_data (file, disk) es" and "i < j" and "j \<le> length es" and "length buf \<le> (j - i) * esize file"
  shows "tsfile_get_entries True (int ((j - i) * esize file)) buf (of_nat i) (of_nat j) (file, disk) =
    (TSFILE_OK, concat (take (j - i) (drop i es)))"
proof -
  note d = log_dataD [OF assms(1)]
  have "unat (tsfile_get_count file) < 2 ^ LENGTH(32)" by (rule unsigned_less)
  then have len: "length es < 2 ^ 32" using d(5) by simp
  then have u: "unat (of_nat i :: 32 word) = i" "unat (of_nat j :: 32 word) = j" using assms(2,3) by (simp_all add: unat_of_nat)
  have sub: "unat (of_nat j - of_nat i :: 32 word) = j - i"
    using u assms(2) by (subst unat_sub) (simp_all add: word_le_nat_alt)
  have "\<not> lt_ulong (int ((j - i) * esize file)) ((j - i) * esize file)"
  proof -
    have "j - i < 2 ^ 32" using len assms(3) by linarith
    then have "(j - i) * esize file < 2 ^ 32 * 2 ^ 16" using esize_bound [of "file"] by (intro mult_strict_mono') simp_all
    then show ?thesis by (subst lt_ulong_iff) simp_all
  qed
  then show ?thesis
    using u sub d(5) assms log_data_slice [OF assms(1), of i j]
    by (simp add: tsfile_get_entries_def Let_def word_le_nat_alt word_less_nat_alt esize_def [symmetric] tsfile_get_count_def [symmetric]
        TSFILE_HEADER_SIZE_def del: of_nat_mult)
qed

lemma tsfile_get_entries_range:
  assumes "log_data (file, disk) es" and "i < 2 ^ 32" and "j < 2 ^ 32" and "\<not> (i < j \<and> j \<le> length es)"
  shows "tsfile_get_entries seek ret buf (of_nat i) (of_nat j) (file, disk) = (TSFILE_INVAL_RANGE, buf)"
proof -
  have "unat (of_nat i :: 32 word) = i" "unat (of_nat j :: 32 word) = j" using assms(2,3) by (simp_all add: unat_of_nat)
  then show ?thesis using log_dataD(5) [OF assms(1)] assms(4)
    by (auto simp: tsfile_get_entries_def Let_def word_le_nat_alt word_less_nat_alt tsfile_get_count_def)
qed

section \<open>The contract of a log\<close>

text \<open>
  What a client of a file relies on: entries are appended, ranges of them are read, and an opened
  log has the entries of the one that was closed.
\<close>

locale entry_log =
  fixes rep :: "'s \<Rightarrow> 'e list \<Rightarrow> bool" and fits :: "'s \<Rightarrow> 'e list \<Rightarrow> 't \<Rightarrow> 'e list \<Rightarrow> bool"
    and add :: "'t \<Rightarrow> 'e list \<Rightarrow> 's \<Rightarrow> 's option" and get :: "nat \<Rightarrow> nat \<Rightarrow> 's \<Rightarrow> 'b option" and image :: "'e list \<Rightarrow> 'b"
    and reopen :: "'t \<Rightarrow> 's \<Rightarrow> 's option"
  assumes add_rep: "rep s es \<Longrightarrow> fits s es t new \<Longrightarrow> \<exists>s'. add t new s = Some s' \<and> rep s' (es @ new)"
    and get_rep: "rep s es \<Longrightarrow> i < j \<Longrightarrow> j \<le> length es \<Longrightarrow> get i j s = Some (image (take (j - i) (drop i es)))"
    and reopen_rep: "rep s es \<Longrightarrow> \<exists>s'. reopen t s = Some s' \<and> rep s' es"
begin

fun adds :: "('t \<times> 'e list) list \<Rightarrow> 's \<Rightarrow> 's option" where
  "adds [] s = Some s"
| "adds ((t, new) # bs) s = (case add t new s of None \<Rightarrow> None | Some s' \<Rightarrow> adds bs s')"

fun adds_fit :: "('t \<times> 'e list) list \<Rightarrow> 's \<Rightarrow> 'e list \<Rightarrow> bool" where
  "adds_fit [] s es \<longleftrightarrow> True"
| "adds_fit ((t, new) # bs) s es \<longleftrightarrow> fits s es t new \<and> (\<forall>s'. add t new s = Some s' \<longrightarrow> adds_fit bs s' (es @ new))"

lemma adds_rep:
  assumes "rep s es" and "adds_fit bs s es"
  shows "\<exists>s'. adds bs s = Some s' \<and> rep s' (es @ concat (map snd bs))"
  using assms
proof (induction bs arbitrary: s es)
  case (Cons b bs)
  obtain t new where b: "b = (t, new)" by (cases b)
  obtain s' where s': "add t new s = Some s'" "rep s' (es @ new)" using add_rep [OF Cons.prems(1), of t new] Cons.prems(2) unfolding b by auto
  then show ?case using Cons.IH [of s' "es @ new"] Cons.prems(2) unfolding b by auto
qed simp

lemma reopened_reads:
  assumes "rep s []" and "adds_fit bs s []" and "i < j" and "j \<le> length (concat (map snd bs))"
  shows "\<exists>s1 s2. adds bs s = Some s1 \<and> reopen t s1 = Some s2 \<and> rep s2 (concat (map snd bs)) \<and>
    get i j s2 = Some (image (take (j - i) (drop i (concat (map snd bs)))))"
proof -
  obtain s1 where s1: "adds bs s = Some s1" "rep s1 (concat (map snd bs))" using adds_rep [OF assms(1,2)] by auto
  obtain s2 where "reopen t s1 = Some s2" "rep s2 (concat (map snd bs))" using reopen_rep [OF s1(2)] by blast
  then show ?thesis using s1(1) get_rep [OF _ assms(3,4)] by blast
qed

end

text \<open>The operations of a file, with transfers that are complete.\<close>

definition tsf_put :: "64 word \<Rightarrow> char list list \<Rightarrow> tsfile \<times> char list \<Rightarrow> (tsfile \<times> char list) option" where
  "tsf_put now new fd =
     (case tsfile_add (full_io (length new * esize (fst fd)) now) (concat new) (of_nat (length new)) fd of
        (TSFILE_OK, fd') \<Rightarrow> Some fd'
      | _ \<Rightarrow> None)"

definition tsf_get :: "(nat \<Rightarrow> char list) \<Rightarrow> nat \<Rightarrow> nat \<Rightarrow> tsfile \<times> char list \<Rightarrow> char list option" where
  "tsf_get buf i j fd =
     (case tsfile_get_entries True (int ((j - i) * esize (fst fd))) (take ((j - i) * esize (fst fd)) (buf ((j - i) * esize (fst fd))))
             (of_nat i) (of_nat j) fd of
        (TSFILE_OK, b) \<Rightarrow> Some b
      | _ \<Rightarrow> None)"

definition tsf_reopen :: "tsfile_schema \<Rightarrow> 64 word \<Rightarrow> tsfile \<times> char list \<Rightarrow> (tsfile \<times> char list) option" where
  "tsf_reopen s now fd = map_option (\<lambda>g. (g, snd fd)) (tsfile_open True (int TSFILE_HEADER_SIZE) now s (snd fd))"

definition file_log :: "tsfile_schema \<Rightarrow> tsfile \<times> char list \<Rightarrow> char list list \<Rightarrow> bool" where
  "file_log s fd es \<longleftrightarrow> log_rep fd es \<and> tsfile_validate_schema (header (fst fd)) s"

lemma validate_schema_cong: "schema h = schema h' \<Longrightarrow> tsfile_validate_schema h s = tsfile_validate_schema h' s"
  by (simp add: tsfile_validate_schema_def)

interpretation tsl: entry_log "file_log s" batch_fits tsf_put "tsf_get buf" concat "tsf_reopen s" for s buf
proof
  fix fd es now new
  assume r: "file_log s fd es" and f: "batch_fits fd es now new"
  obtain "file" disk where fd: "fd = (file, disk)" by (cases fd)
  from tsfile_add_appends [of "file" disk es now new] r f
  obtain fd' where "tsfile_add (full_io (length new * esize file) now) (concat new) (of_nat (length new)) (file, disk) = (TSFILE_OK, fd')"
    "log_rep fd' (es @ new)" "schema (header (fst fd')) = schema (header file)" by (auto simp: file_log_def fd)
  then show "\<exists>fd'. tsf_put now new fd = Some fd' \<and> file_log s fd' (es @ new)"
    using r validate_schema_cong [of "header (fst fd')" "header file" s] by (simp add: tsf_put_def fd file_log_def)
next
  fix fd es i j
  assume r: "file_log s fd es" and ij: "i < j" "j \<le> length es"
  obtain "file" disk where fd: "fd = (file, disk)" by (cases fd)
  let ?b = "take ((j - i) * esize file) (buf ((j - i) * esize file))"
  have "log_data (file, disk) es" using r by (simp add: file_log_def fd log_rep_def)
  from tsfile_get_entries_slice [OF this ij, of ?b]
  show "tsf_get buf i j fd = Some (concat (take (j - i) (drop i es)))" by (simp add: tsf_get_def fd del: of_nat_mult)
next
  fix fd es now
  assume r: "file_log s fd es"
  obtain "file" disk where fd: "fd = (file, disk)" by (cases fd)
  from tsfile_open_finds [of "file" disk es s now] r
  obtain g where "tsfile_open True (int TSFILE_HEADER_SIZE) now s disk = Some g" "log_rep (g, disk) es" "header g = header file"
    by (auto simp: file_log_def fd)
  then show "\<exists>fd'. tsf_reopen s now fd = Some fd' \<and> file_log s fd' es"
    using r by (simp add: tsf_reopen_def fd file_log_def)
qed

section \<open>Properties\<close>

text \<open>Adding batches one after the other; \<open>None\<close> when one of them is not reported as added.\<close>

fun tsfile_add_all :: "(64 word \<times> char list list) list \<Rightarrow> tsfile \<times> char list \<Rightarrow> (tsfile \<times> char list) option" where
  "tsfile_add_all [] fd = Some fd"
| "tsfile_add_all ((now, new) # bs) fd =
     (case tsfile_add (full_io (length new * esize (fst fd)) now) (concat new) (of_nat (length new)) fd of
        (TSFILE_OK, fd') \<Rightarrow> tsfile_add_all bs fd'
      | _ \<Rightarrow> None)"

lemma tsfile_add_all_adds: "tsfile_add_all bs fd = tsl.adds bs fd"
proof (induction bs arbitrary: fd)
  case (Cons b bs)
  obtain now new where b: "b = (now, new)" by (cases b)
  have "tsfile_add_all (b # bs) fd = (case tsf_put now new fd of None \<Rightarrow> None | Some fd' \<Rightarrow> tsfile_add_all bs fd')"
    by (simp add: b tsf_put_def split: prod.splits tsfile_code.splits)
  then show ?case using Cons by (cases "tsf_put now new fd") (simp_all add: b)
qed simp

text \<open>The batches of a log: whole entries, a clock that advances from one to the next.\<close>

fun batches_ok :: "nat \<Rightarrow> int \<Rightarrow> (64 word \<times> char list list) list \<Rightarrow> bool" where
  "batches_ok n t [] \<longleftrightarrow> True"
| "batches_ok n t ((now, new) # bs) \<longleftrightarrow> (\<forall>e \<in> set new. length e = n) \<and> t < sint now \<and> batches_ok n (sint now) bs"

lemma batches_fit:
  assumes "file_log s (file, disk) es" and "sb_diff file = 0" and "batches_ok (esize file) (sb_at file (cur_sb file)) bs"
    and "length es + length (concat (map snd bs)) < 2 ^ 32"
  shows "tsl.adds_fit bs (file, disk) es"
  using assms
proof (induction bs arbitrary: "file" disk es)
  case (Cons b bs)
  obtain now new where b: "b = (now, new)" by (cases b)
  have f: "batch_fits (file, disk) es now new" using Cons.prems(2-4) by (simp add: b batch_fits_def)
  have r: "log_rep (file, disk) es" using Cons.prems(1) by (simp add: file_log_def)
  have "tsl.adds_fit bs fd' (es @ new)" if p: "tsf_put now new (file, disk) = Some fd'" for fd'
  proof -
    obtain file' disk' where fd': "fd' = (file', disk')" by (cases fd')
    have "file_log s fd' (es @ new)" using tsl.add_rep [OF Cons.prems(1) f] p by auto
    moreover have "sb_diff file' = 0 \<and> esize file' = esize file \<and> sb_at file' (cur_sb file') = sint now"
      using tsfile_add_appends [OF r f] p Cons.prems(2) by (auto simp: tsf_put_def fd' esize_def)
    ultimately show ?thesis using Cons.IH [of file' disk' "es @ new"] Cons.prems(3,4) by (simp add: fd' b)
  qed
  then show ?case using f by (simp add: b)
qed simp

lemma field_same_refl: "field_same f f"
  by (simp add: field_same_def strncmp_eq_def)

lemma new_header_validates:
  assumes "schema_shape s"
  shows "tsfile_validate_schema (tsfile_new_header mem now s) s"
  using assms
  by (auto simp: tsfile_validate_schema_def tsfile_new_header_def Let_def list_all_iff nth_append schema_shape_def field_same_refl)

lemma esize_new_header: "header file = tsfile_new_header mem now s \<Longrightarrow> esize file = unat (entry_size (hdr s))"
  by (simp add: esize_def tsfile_new_header_def Let_def)

text \<open>
  C4. The whole life of a file: it is created over any old contents, batches of entries are added
  while the clock advances, the file is closed and opened again at any time. Then the opened file
  counts all entries, and reading a range of them returns exactly these entries.
\<close>

theorem tsfile_reopen_reads:
  assumes "header_ok mem" and "tsfile_check_schema s" and "schema_shape s" and "0 < sint t0"
    and "batches_ok (unat (entry_size (hdr s))) (sint t0) bs" and "es = concat (map snd bs)" and "length es < 2 ^ 32"
    and "i < j" and "j \<le> length es" and "length buf = (j - i) * unat (entry_size (hdr s))"
  shows "\<exists>file disk1 file2 disk2 file3.
    tsfile_create mem True (int TSFILE_HEADER_SIZE) t0 s disk = (Some file, disk1) \<and>
    tsfile_add_all bs (file, disk1) = Some (file2, disk2) \<and>
    tsfile_open True (int TSFILE_HEADER_SIZE) now s disk2 = Some file3 \<and>
    tsfile_get_count file3 = of_nat (length es) \<and>
    tsfile_get_entries True (int (length buf)) buf (of_nat i) (of_nat j) (file3, disk2) =
      (TSFILE_OK, concat (take (j - i) (drop i es)))"
proof -
  obtain "file" disk1 where c: "tsfile_create mem True (int TSFILE_HEADER_SIZE) t0 s disk = (Some file, disk1)"
    "log_rep (file, disk1) []" "header file = tsfile_new_header mem t0 s" "sb_diff file = 0" "sb_at file (cur_sb file) = sint t0"
    using tsfile_create_empty [OF assms(1-4)] by blast
  have r: "file_log s (file, disk1) []" using c(2,3) new_header_validates [OF assms(3)] by (simp add: file_log_def)
  have "tsl.adds_fit bs (file, disk1) []"
    using batches_fit [OF r c(4)] assms(5-7) c(3,5) by (simp add: esize_new_header)
  then obtain file2 disk2 where a: "tsfile_add_all bs (file, disk1) = Some (file2, disk2)" "file_log s (file2, disk2) es"
    using tsl.adds_rep [OF r, of bs] assms(6) by (auto simp: tsfile_add_all_adds)
  then have v: "log_rep (file2, disk2) es" "tsfile_validate_schema (header file2) s" by (simp_all add: file_log_def)
  obtain file3 where o: "tsfile_open True (int TSFILE_HEADER_SIZE) now s disk2 = Some file3" "log_rep (file3, disk2) es"
    "header file3 = header file2" using tsfile_open_finds [OF v] by blast
  have e: "esize file3 = unat (entry_size (hdr s))"
    using v(2) o(3) by (simp add: esize_def tsfile_validate_schema_def Let_def split: if_splits)
  have "of_nat (unat (tsfile_get_count file3)) = tsfile_get_count file3" by simp
  then have "tsfile_get_count file3 = of_nat (length es)" using log_dataD(5) [OF log_rep_data [OF o(2)]] by simp
  then show ?thesis using c(1) a(1) o(1) tsfile_get_entries_slice [OF log_rep_data [OF o(2)] assms(8,9), of buf] assms(10) e by auto
qed

definition demo_header :: tsfile_header where
  "demo_header = \<lparr>magic = replicate 6 (CHR ''?''), version = 9, sb = replicate 4 \<lparr>sb_time = 9, sb_count = 9, sb_pad = 9\<rparr>,
     schema = \<lparr>hdr = hdr demo_schema, schema_fields = replicate 64 zero_field\<rparr>, page_rest = replicate 424 (CHR ''?'')\<rparr>"

lemma demo_header_ok: "header_ok demo_header" "tsfile_check_schema demo_schema" "schema_shape demo_schema"
  by code_simp+

definition demo_batches :: "(64 word \<times> char list list) list" where
  "demo_batches = [(20, [replicate 16 (CHR ''a''), replicate 16 (CHR ''b'')]), (30, [replicate 16 (CHR ''c'')])]"

theorem tsfile_reopen_reads_witness:
  "\<exists>file disk1 file2 disk2 file3.
    tsfile_create demo_header True (int TSFILE_HEADER_SIZE) 10 demo_schema [] = (Some file, disk1) \<and>
    tsfile_add_all demo_batches (file, disk1) = Some (file2, disk2) \<and>
    tsfile_open True (int TSFILE_HEADER_SIZE) 40 demo_schema disk2 = Some file3 \<and>
    tsfile_get_count file3 = 3 \<and>
    tsfile_get_entries True (int (length (replicate 32 NUL))) (replicate 32 NUL) (of_nat 1) (of_nat 3) (file3, disk2) =
      (TSFILE_OK, replicate 16 (CHR ''b'') @ replicate 16 (CHR ''c''))"
  using tsfile_reopen_reads [OF demo_header_ok, of 10 demo_batches "concat (map snd demo_batches)" 1 3 "replicate 32 NUL" "[]" 40]
  by (simp add: demo_batches_def demo_schema_def)

text \<open>
  An addition whose entries cannot be written completely, because the seek fails or the write is
  short, is reported and leaves the file as it was: the count, the header on the disk and every
  entry read afterwards.
\<close>

theorem tsfile_add_short_write:
  assumes "log_data (file, disk) es" and "\<not> seek_data io \<or> 0 \<le> write_data io \<and> write_data io < int (unat n * esize file)"
    and "i < j" and "j \<le> length es" and "length buf = (j - i) * esize file"
  shows "\<exists>disk'. tsfile_add io entries n (file, disk) = (TSFILE_DATA_FAIL, file, disk') \<and>
    take TSFILE_HEADER_SIZE disk' = take TSFILE_HEADER_SIZE disk \<and>
    tsfile_get_entries True (int (length buf)) buf (of_nat i) (of_nat j) (file, disk') =
      (TSFILE_OK, concat (take (j - i) (drop i es)))"
proof -
  have "unat n < 2 ^ LENGTH(32)" by (rule unsigned_less)
  then have "unat n * esize file < 2 ^ 32 * 2 ^ 16" using esize_bound [of "file"] by (intro mult_strict_mono') simp_all
  then have "unat n * esize file < 2 ^ 64" by simp
  from tsfile_add_data_fails [OF assms(1,2) this]
  obtain disk' where d: "tsfile_add io entries n (file, disk) = (TSFILE_DATA_FAIL, file, disk')" "log_data (file, disk') es" by blast
  have "take TSFILE_HEADER_SIZE disk' = take TSFILE_HEADER_SIZE disk"
    using log_dataD(8) [OF d(2)] log_dataD(8) [OF assms(1)] by (simp add: TSFILE_HEADER_SIZE_def)
  moreover have "tsfile_get_entries True (int (length buf)) buf (of_nat i) (of_nat j) (file, disk') =
      (TSFILE_OK, concat (take (j - i) (drop i es)))"
    using tsfile_get_entries_slice [OF d(2) assms(3,4), of buf] assms(5) by simp
  ultimately show ?thesis using d(1) by blast
qed

definition demo_file :: tsfile where
  "demo_file = \<lparr>header = tsfile_new_header demo_header 10 demo_schema, fsize = 0, sb_diff = 0, cur_sb = 0\<rparr>"

definition demo_full :: "tsfile \<times> char list" where
  "demo_full = snd (tsfile_add (full_io 32 20) (replicate 16 (CHR ''a'') @ replicate 16 (CHR ''b'')) 2
     (demo_file, header_bytes (header demo_file)))"

lemma demo_file_esize: "esize demo_file = 16"
  by (simp add: demo_file_def esize_def tsfile_new_header_def Let_def demo_schema_def)

lemma demo_file_sb: "i < 4 \<Longrightarrow> sb_at demo_file i = (if i = 0 then 10 else 0)"
  by (cases i) (simp_all add: sb_at_def demo_file_def new_header_sb [OF demo_header_ok(1)] zero_sb_def)

lemma demo_file_log: "log_rep (demo_file, header_bytes (header demo_file)) []"
proof -
  have "log_data (demo_file, header_bytes (header demo_file)) []"
  proof (rule log_dataI)
    show "header_ok (header demo_file)" using tsfile_new_header_ok [OF demo_header_ok, of 10] by (simp add: demo_file_def)
    then show "4096 + length ([] :: char list list) * esize demo_file \<le> length (header_bytes (header demo_file))"
      "take 4096 (header_bytes (header demo_file)) = header_bytes (header demo_file)"
      using header_layout.enc_width [of "header demo_file"] by simp_all
    show "unat (tsfile_get_count demo_file) = length ([] :: char list list)"
      by (simp add: tsfile_get_count_def TSFILE_SB_GET_COUNT_def demo_file_def new_header_sb [OF demo_header_ok(1)])
  qed (simp_all add: demo_file_def tsfile_new_header_def TSFILE_SB_SET_COUNT_def Let_def peek_def)
  moreover have "cur_sb demo_file = 0" by (simp add: demo_file_def)
  ultimately show ?thesis by (simp add: log_rep_def latest_sb_def demo_file_sb SBCOUNT_def)
qed

lemma demo_full_log: "log_data demo_full [replicate 16 (CHR ''a''), replicate 16 (CHR ''b'')]"
  using tsfile_add_data [OF log_rep_data [OF demo_file_log], of "[replicate 16 (CHR ''a''), replicate 16 (CHR ''b'')]" 20]
  by (auto simp: demo_file_esize demo_full_def)

lemma demo_full_pair: "log_data (fst demo_full, snd demo_full) [replicate 16 (CHR ''a''), replicate 16 (CHR ''b'')]"
  using demo_full_log by simp

theorem tsfile_add_short_write_witness:
  "\<exists>disk'. tsfile_add \<lparr>seek_data = True, write_data = 5, seek_sb = True, write_sb = 512, clock = 30\<rparr> (replicate 16 (CHR ''c'')) 1
      (fst demo_full, snd demo_full) = (TSFILE_DATA_FAIL, fst demo_full, disk') \<and>
    take TSFILE_HEADER_SIZE disk' = take TSFILE_HEADER_SIZE (snd demo_full) \<and>
    tsfile_get_entries True (int (length (replicate 16 NUL))) (replicate 16 NUL) (of_nat 1) (of_nat 2) (fst demo_full, disk') =
      (TSFILE_OK, concat (take (2 - 1) (drop 1 [replicate 16 (CHR ''a''), replicate 16 (CHR ''b'')])))"
proof -
  have e: "esize (fst demo_full) = 16" using log_dataD(6) [OF demo_full_pair] by fastforce
  show ?thesis
    by (rule tsfile_add_short_write [OF demo_full_pair]) (simp_all add: e)
qed

text \<open>
  A failed write of the entries (\<open>write\<close> returns -1) is taken for a success, since the result is
  compared as an \<open>unsigned long\<close>: the addition is reported as done and counted, but the file has
  none of the entries.
\<close>

theorem tsfile_add_failed_write:
  assumes "seek_data io" and "write_data io = - 1" and "seek_sb io" and "write_sb io = int TSFILE_SB_WRITE_LEN"
    and "header_ok (header file)" and "cur_sb file < SBCOUNT" and "TSFILE_HEADER_SIZE \<le> length disk"
  shows "\<exists>file' disk'. tsfile_add io entries n (file, disk) = (TSFILE_OK, file', disk') \<and>
    tsfile_get_count file' = tsfile_get_count file + n \<and> drop TSFILE_HEADER_SIZE disk' = drop TSFILE_HEADER_SIZE disk"
proof -
  have "unat n < 2 ^ LENGTH(32)" by (rule unsigned_less)
  then have "unat n * esize file < 2 ^ 32 * 2 ^ 16" using esize_bound [of "file"] by (intro mult_strict_mono') simp_all
  then have "unat n * esize file < 2 ^ 64" by simp
  then have ok: "\<not> lt_ulong (- 1) (unat n * esize file)" by (rule lt_ulong_failed)
  have sbi: "(cur_sb file + 1) AND SBMASK < 4" using next_sb [of "cur_sb file"] assms(6) by (simp add: SBCOUNT_def)
  have l: "length (sb (header file)) = 4" using assms(5) by (simp add: header_ok_def)
  have "drop TSFILE_HEADER_SIZE (poke 0 (take 512 bs) disk) = drop TSFILE_HEADER_SIZE disk" for bs
    by (rule drop_poke) (simp_all add: TSFILE_HEADER_SIZE_def)
  then show ?thesis
    using assms(1-4) ok sbi l
    by (simp add: tsfile_add_def Let_def fd_write_def esize_def TSFILE_SB_WRITE_LEN_def TSFILE_SB_SET_COUNT_def
        tsfile_get_count_def TSFILE_SB_GET_COUNT_def)
qed

theorem tsfile_add_failed_write_witness:
  "\<exists>file' disk'. tsfile_add \<lparr>seek_data = True, write_data = - 1, seek_sb = True, write_sb = int TSFILE_SB_WRITE_LEN, clock = 30\<rparr>
      (replicate 16 (CHR ''c'')) 1 (fst demo_full, snd demo_full) = (TSFILE_OK, file', disk') \<and>
    tsfile_get_count file' = tsfile_get_count (fst demo_full) + 1 \<and>
    drop TSFILE_HEADER_SIZE disk' = drop TSFILE_HEADER_SIZE (snd demo_full)"
  using log_dataD(1,4,7) [OF demo_full_pair]
  by (intro tsfile_add_failed_write) (simp_all add: SBCOUNT_def TSFILE_HEADER_SIZE_def)

text \<open>
  C39. A batch of entries added to a new file within the tick of the clock in which the file was created is
  lost: the second superblock gets the same time as the first, and opening the file takes the
  first of the two, so the file is opened as an empty one.
\<close>

theorem tsfile_same_clock_loses:
  assumes "header_ok mem" and "tsfile_check_schema s" and "schema_shape s" and "0 < sint t0"
    and "\<forall>e \<in> set new. length e = unat (entry_size (hdr s))" and "length new < 2 ^ 32"
  shows "\<exists>file disk1 file2 disk2 file3.
    tsfile_create mem True (int TSFILE_HEADER_SIZE) t0 s disk = (Some file, disk1) \<and>
    tsfile_add_all [(t0, new)] (file, disk1) = Some (file2, disk2) \<and> tsfile_get_count file2 = of_nat (length new) \<and>
    tsfile_open True (int TSFILE_HEADER_SIZE) now s disk2 = Some file3 \<and> tsfile_get_count file3 = 0"
proof -
  obtain "file" disk1 where c: "tsfile_create mem True (int TSFILE_HEADER_SIZE) t0 s disk = (Some file, disk1)"
    "log_rep (file, disk1) []" "header file = tsfile_new_header mem t0 s" "sb_diff file = 0" "cur_sb file = 0"
    using tsfile_create_empty [OF assms(1-4)] by blast
  note r = log_rep_data [OF c(2)] and sbs = new_header_sb [OF assms(1), of t0 s]
  let ?f = "added file t0 (length new)"
  obtain disk2 where a: "tsfile_add (full_io (length new * esize file) t0) (concat new) (of_nat (length new)) (file, disk1) =
      (TSFILE_OK, ?f, disk2)" "log_data (?f, disk2) new"
    using tsfile_add_data [OF r, of new t0] assms(5,6) c(3) by (auto simp: esize_new_header)
  have f: "sb (header ?f) = [\<lparr>sb_time = t0, sb_count = 0, sb_pad = sb_pad (sb mem ! 0)\<rparr>,
      zero_sb\<lparr>sb_count := of_nat (length new), sb_time := t0\<rparr>, zero_sb, zero_sb]"
    by (simp add: added_def Let_def c(3-5) sbs SBMASK_def SBCOUNT_def tsfile_get_count_def TSFILE_SB_GET_COUNT_def numeral_3_eq_3)
  have "[0..<SBCOUNT] = [0, 1, 2, 3]" by (simp add: SBCOUNT_def upt_rec)
  then have "tsfile_find_sb (sb (header ?f)) [0..<SBCOUNT] None = Some 0"
    using assms(4) by (simp add: f zero_sb_def)
  moreover have "tsfile_validate_schema (header ?f) s"
    using validate_schema_cong [of "header ?f" "header file" s] new_header_validates [OF assms(3), of mem t0] c(3) by simp
  ultimately obtain file3 where "tsfile_open True (int TSFILE_HEADER_SIZE) now s disk2 = Some file3" "tsfile_get_count file3 = 0"
    using log_dataD(2,3) [OF a(2)] log_data_header [OF a(2)] f
    by (simp add: tsfile_open_def Let_def tsfile_get_count_def TSFILE_SB_GET_COUNT_def)
  moreover have "tsfile_get_count ?f = of_nat (length new)"
    using added_header(2) [OF log_dataD(1,4) [OF r]] c(3,5) sbs by (simp add: tsfile_get_count_def TSFILE_SB_GET_COUNT_def)
  ultimately show ?thesis using c(1) a(1) by simp
qed

theorem tsfile_same_clock_loses_witness:
  "\<exists>file disk1 file2 disk2 file3.
    tsfile_create demo_header True (int TSFILE_HEADER_SIZE) 10 demo_schema [] = (Some file, disk1) \<and>
    tsfile_add_all [(10, [replicate 16 (CHR ''a'')])] (file, disk1) = Some (file2, disk2) \<and>
    tsfile_get_count file2 = of_nat (length [replicate 16 (CHR ''a'')]) \<and>
    tsfile_open True (int TSFILE_HEADER_SIZE) 40 demo_schema disk2 = Some file3 \<and> tsfile_get_count file3 = 0"
  by (rule tsfile_same_clock_loses [OF demo_header_ok]) (simp_all add: demo_schema_def)

end
