(* ===== verification/TsNodes.thy ===== *)
theory TsNodes
  imports TsFile
begin

text \<open>
  Entries of a TSFile as JSON (\<open>libtsfile/nodes.c\<close> and the \<open>json_tsfile\<close> functions of \<open>tsfile.c\<close>): the
  cache of nodes that are kept for reuse, the translation of an entry to a node and back, and
  reading and adding entries by nodes. The representation of floating-point numbers in memory is a
  parameter. An access outside of the entry, a missing child or a null string is the outcome \<open>None\<close>.
\<close>

section \<open>The cache of nodes\<close>

text \<open>
  \<open>node_cache\<close> is an array of \<open>tsfile_nodes_count\<close> pointers; \<open>node_first\<close> may be one behind its end
  until the next access.
\<close>

record 'd node_pool =
  node_cache :: "'d json_node option list"
  node_first :: int
  node_count :: nat

definition tsfile_init_nodes :: "'d json_node option list \<Rightarrow> 'd node_pool" where
  "tsfile_init_nodes mem = \<lparr>node_cache = mem, node_first = 0, node_count = 0\<rparr>"

text \<open>The nodes that \<open>tsfile_destroy_nodes\<close> destroys: \<open>n\<close> slots from \<open>j\<close> on.\<close>

fun tsfile_destroy_walk :: "nat \<Rightarrow> nat \<Rightarrow> 'd json_node option list \<Rightarrow> 'd json_node option list" where
  "tsfile_destroy_walk 0 j cache = []"
| "tsfile_destroy_walk (Suc n) j cache =
     (let j1 = (if j = length cache then 0 else j) in cache ! j1 # tsfile_destroy_walk n (j1 + 1) cache)"

definition tsfile_destroy_nodes :: "'d node_pool \<Rightarrow> 'd json_node option list" where
  "tsfile_destroy_nodes p = tsfile_destroy_walk (node_count p) (nat (node_first p)) (node_cache p)"

text \<open>One round of the first loop of \<open>tsfile_get_nodes\<close>.\<close>

definition node_pop :: "'d node_pool \<Rightarrow> 'd json_node option \<times> 'd node_pool" where
  "node_pop p =
     (let first = (if node_first p = int (length (node_cache p)) then 0 else node_first p)
      in (node_cache p ! nat first,
          p\<lparr>node_cache := (node_cache p)[nat first := None], node_count := node_count p - 1, node_first := first + 1\<rparr>))"

fun tsfile_get_nodes :: "'d json_node \<Rightarrow> nat \<Rightarrow> 'd node_pool \<Rightarrow> 'd json_node option list \<times> 'd node_pool" where
  "tsfile_get_nodes new 0 p = ([], p)"
| "tsfile_get_nodes new (Suc n) p =
     (let (node, p1) = (if node_count p > 0 then node_pop p else (Some new, p));
          (nodes, p2) = tsfile_get_nodes new n p1
      in (node # nodes, p2))"

text \<open>\<open>tsfile_put_node\<close> returns if the node was kept; otherwise it destroys it.\<close>

definition tsfile_put_node :: "'d json_node \<Rightarrow> 'd node_pool \<Rightarrow> bool \<times> 'd node_pool" where
  "tsfile_put_node node p =
     (if node_count p < length (node_cache p) then
        let first = node_first p - 1;
            first1 = (if first < 0 then int (length (node_cache p)) - 1 else first)
        in (True, p\<lparr>node_first := first1, node_count := node_count p + 1,
                    node_cache := (node_cache p)[nat first1 := Some node]\<rparr>)
      else (False, p))"

subsection \<open>The cache is a bounded stack\<close>

definition pool_slot :: "'d node_pool \<Rightarrow> nat \<Rightarrow> nat" where
  "pool_slot p i = (nat (node_first p) + i) mod length (node_cache p)"

definition pool_rep :: "'d node_pool \<Rightarrow> 'd json_node list \<Rightarrow> bool" where
  "pool_rep p xs \<longleftrightarrow> 0 \<le> node_first p \<and> node_first p \<le> int (length (node_cache p)) \<and>
     node_count p = length xs \<and> length xs \<le> length (node_cache p) \<and>
     (\<forall>i < length xs. node_cache p ! pool_slot p i = Some (xs ! i))"

lemma pool_rep_init: "pool_rep (tsfile_init_nodes mem) []"
  by (simp add: pool_rep_def tsfile_init_nodes_def)

lemma mod_slot_neq:
  assumes "i < j" and "j < n"
  shows "(a + i) mod n \<noteq> (a + j) mod (n :: nat)"
proof
  assume "(a + i) mod n = (a + j) mod n"
  then have "n dvd (a + j) - (a + i)" using assms by (metis add_le_cancel_left less_imp_le_nat mod_eq_dvd_iff_nat)
  then show False using assms by (auto dest: dvd_imp_le)
qed

lemma node_pop_rep:
  assumes "pool_rep p (x # xs)"
  shows "\<exists>p'. node_pop p = (Some x, p') \<and> pool_rep p' xs \<and> length (node_cache p') = length (node_cache p)"
proof -
  define n where "n = length (node_cache p)"
  define a where "a = nat (node_first p) mod n"
  note r = assms [unfolded pool_rep_def, folded n_def]
  have n: "0 < n" using r by auto
  have first: "(if node_first p = int n then 0 else node_first p) = int a"
    using r n by (auto simp: a_def zmod_int)
  have slot: "pool_slot p i = (a + i) mod n" for i by (simp add: pool_slot_def n_def a_def mod_add_left_eq)
  have x: "node_cache p ! a = Some x" using r slot [of 0] n by (auto simp: a_def)
  have "(node_cache p)[a := None] ! ((Suc a + i) mod n) = Some (xs ! i)" if i: "i < length xs" for i
  proof -
    have "(a + Suc i) mod n \<noteq> (a + 0) mod n" using mod_slot_neq [of 0 "Suc i" n a] i r by auto
    then have "(a + Suc i) mod n \<noteq> a" by (simp add: a_def)
    moreover have "node_cache p ! ((a + Suc i) mod n) = Some (xs ! i)" using r i slot [of "Suc i"] by auto
    ultimately show ?thesis by simp
  qed
  then have slots: "\<forall>i < length xs. (node_cache p)[a := None] ! ((Suc a + i) mod n) = Some (xs ! i)" by blast
  let ?p = "p\<lparr>node_cache := (node_cache p)[a := None], node_count := length xs, node_first := int (Suc a)\<rparr>"
  have "node_pop p = (Some x, ?p)" using r x by (simp add: node_pop_def Let_def first n_def [symmetric])
  moreover have "a < n" using n by (simp add: a_def)
  then have "pool_rep ?p xs" using r slots by (auto simp: pool_rep_def pool_slot_def n_def simp del: of_nat_Suc)
  ultimately show ?thesis by simp
qed

lemma put_node_rep:
  assumes "pool_rep p xs" and "length xs < length (node_cache p)"
  shows "\<exists>p'. tsfile_put_node x p = (True, p') \<and> pool_rep p' (x # xs) \<and> length (node_cache p') = length (node_cache p)"
proof -
  define n where "n = length (node_cache p)"
  note r = assms(1) [unfolded pool_rep_def, folded n_def]
  have n: "0 < n" using assms(2) by (auto simp: n_def)
  define b where "b = (if node_first p - 1 < 0 then int n - 1 else node_first p - 1)"
  have b: "0 \<le> b" "b < int n" "(nat b + 1) mod n = nat (node_first p) mod n"
    using r n by (auto simp: b_def nat_diff_distrib Suc_nat_eq_nat_zadd1)
  have slot: "pool_slot p i = (nat b + Suc i) mod n" for i
  proof -
    have "(nat b + Suc i) mod n = ((nat b + 1) mod n + i) mod n" by (simp add: mod_add_left_eq)
    also have "\<dots> = (nat (node_first p) + i) mod n" unfolding b(3) by (rule mod_add_left_eq)
    finally show ?thesis by (simp add: pool_slot_def n_def)
  qed
  have "(node_cache p)[nat b := Some x] ! ((nat b + i) mod n) = Some ((x # xs) ! i)" if i: "i < Suc (length xs)" for i
  proof (cases i)
    case 0
    then show ?thesis using b(1,2) by (simp add: n_def nat_less_iff)
  next
    case (Suc k)
    have "(nat b + 0) mod n \<noteq> (nat b + Suc k) mod n" using mod_slot_neq [of 0 "Suc k" n "nat b"] i assms(2) Suc by (auto simp: n_def)
    then have "nat b \<noteq> (nat b + Suc k) mod n" using b(1,2) by (simp add: nat_less_iff)
    then show ?thesis using r i slot [of k] Suc by auto
  qed
  then have slots: "\<forall>i < Suc (length xs). (node_cache p)[nat b := Some x] ! ((nat b + i) mod n) = Some ((x # xs) ! i)" by blast
  let ?p = "p\<lparr>node_first := b, node_count := Suc (length xs), node_cache := (node_cache p)[nat b := Some x]\<rparr>"
  have "tsfile_put_node x p = (True, ?p)"
    using r assms(2) by (simp add: tsfile_put_node_def Let_def b_def n_def [symmetric])
  moreover have "pool_rep ?p (x # xs)" using b slots assms(2) by (simp add: pool_rep_def pool_slot_def n_def)
  ultimately show ?thesis by simp
qed

lemma get_nodes_rep:
  assumes "pool_rep p xs"
  shows "\<exists>p'. tsfile_get_nodes new k p = (map Some (take k xs @ replicate (k - length xs) new), p') \<and> pool_rep p' (drop k xs)"
  using assms
proof (induction k arbitrary: p xs)
  case (Suc k)
  show ?case
  proof (cases xs)
    case Nil
    then have "\<not> node_count p > 0" using Suc.prems by (simp add: pool_rep_def)
    then show ?thesis using Suc.IH [OF Suc.prems] Nil by auto
  next
    case (Cons x ys)
    then obtain p1 where p1: "node_pop p = (Some x, p1)" "pool_rep p1 ys" using node_pop_rep [of p x ys] Suc.prems by auto
    have "node_count p > 0" using Suc.prems Cons by (simp add: pool_rep_def)
    then show ?thesis using Suc.IH [OF p1(2)] p1(1) Cons by auto
  qed
qed simp

lemma destroy_walk_slots:
  assumes "j \<le> length cache" and "0 < length cache"
  shows "tsfile_destroy_walk n j cache = map (\<lambda>i. cache ! ((j + i) mod length cache)) [0..<n]"
  using assms
proof (induction n arbitrary: j)
  case (Suc n)
  let ?j = "if j = length cache then 0 else j"
  have "?j < length cache" using Suc.prems by auto
  moreover have "(j + i) mod length cache = (?j + i) mod length cache" for i by (simp add: mod_add_left_eq)
  ultimately show ?case using Suc.IH [of "?j + 1"] Suc.prems(2)
    by (simp only: tsfile_destroy_walk.simps Let_def map_upt_Suc) (simp add: add.commute add.left_commute)
qed simp

lemma destroy_nodes_rep:
  assumes "pool_rep p xs"
  shows "tsfile_destroy_nodes p = map Some xs"
proof (cases xs)
  case (Cons x ys)
  have "nat (node_first p) \<le> length (node_cache p)" "0 < length (node_cache p)" using assms Cons by (auto simp: pool_rep_def)
  then show ?thesis
    using assms destroy_walk_slots [of "nat (node_first p)" "node_cache p" "length xs"]
    by (auto simp: tsfile_destroy_nodes_def pool_rep_def pool_slot_def intro!: nth_equalityI)
qed (use assms in \<open>simp add: tsfile_destroy_nodes_def pool_rep_def\<close>)

section \<open>Fields of an entry\<close>

text \<open>
  Memory that does not grow: an access has to lie inside. \<open>fp\<close> converts between numbers and the
  bytes of a \<open>float\<close> or \<open>double\<close>.
\<close>

record 'd fp_layout =
  get_float :: "char list \<Rightarrow> 'd"
  get_double :: "char list \<Rightarrow> 'd"
  put_float :: "'d \<Rightarrow> char list"
  put_double :: "'d \<Rightarrow> char list"
  fp_zero :: 'd

definition mem_put :: "nat \<Rightarrow> char list \<Rightarrow> char list \<Rightarrow> char list option" where
  "mem_put off bs mem = (if off + length bs \<le> length mem then Some (poke off bs mem) else None)"

definition mem_get :: "nat \<Rightarrow> nat \<Rightarrow> char list \<Rightarrow> char list option" where
  "mem_get off n mem = (if off + n \<le> length mem then Some (peek off n mem) else None)"

definition sizeof_boolean :: nat where "sizeof_boolean = 4"

definition tsfile_field_node :: "'d fp_layout \<Rightarrow> tsfile_field \<Rightarrow> 'd json_node option" where
  "tsfile_field_node fp f =
     (if f_type f = TSFILE_FIELD_BOOLEAN then Some (json_new_boolean False)
      else if f_type f = TSFILE_FIELD_INT then Some (json_new_integer (- 1))
      else if f_type f = TSFILE_FIELD_FLOAT then Some (json_new_double (fp_zero fp))
      else if f_type f = TSFILE_FIELD_STRING then Some (json_new_string (JSON_STR []))
      else None)"

text \<open>For an unknown type \<open>field\<close> is an uninitialised pointer.\<close>

fun tsfile_create_fields :: "'d fp_layout \<Rightarrow> tsfile_field list \<Rightarrow> 'd json_node \<Rightarrow> 'd json_node option" where
  "tsfile_create_fields fp [] node = Some node"
| "tsfile_create_fields fp (f # fs) node =
     (case tsfile_field_node fp f of
        None \<Rightarrow> None
      | Some field \<Rightarrow>
          tsfile_create_fields fp fs
            (json_add_node node (Some (json_str_create (cstr (concat (map field_bytes (f # fs)))))) field))"

definition schema_used :: "tsfile_schema \<Rightarrow> tsfile_field list" where
  "schema_used s = take (unat (field_count (hdr s))) (schema_fields s)"

definition tsfile_create_node :: "'d fp_layout \<Rightarrow> tsfile_schema \<Rightarrow> 'd json_node option" where
  "tsfile_create_node fp s = tsfile_create_fields fp (schema_used s) (json_new_node None)"

text \<open>Reading one field into the child of a node, which keeps a value of the wrong type or size.\<close>

definition tsfile_fill_child :: "'d fp_layout \<Rightarrow> tsfile_field \<Rightarrow> char list \<Rightarrow> 'd json_node \<Rightarrow> 'd json_node option" where
  "tsfile_fill_child fp f entry child =
     (let off = unat (f_offset f); sz = unat (f_size f) in
      if f_type f = TSFILE_FIELD_BOOLEAN then
        map_option (\<lambda>bs. fst (json_set_boolean child (le_value bs \<noteq> 0) JSON_OK)) (mem_get off sizeof_boolean entry)
      else if f_type f = TSFILE_FIELD_INT then
        (if sz = 1 \<or> sz = 2 \<or> sz = 4 then
           map_option (\<lambda>bs. fst (json_set_integer child (int (le_value bs)) JSON_OK)) (mem_get off sz entry)
         else if sz = 8 then
           map_option (\<lambda>bs. fst (json_set_integer child (sint (of_nat (le_value bs) :: 64 word)) JSON_OK)) (mem_get off sz entry)
         else Some child)
      else if f_type f = TSFILE_FIELD_FLOAT then
        (if sz = 4 then map_option (\<lambda>bs. fst (json_set_double child (get_float fp bs) JSON_OK)) (mem_get off sz entry)
         else if sz = 8 then map_option (\<lambda>bs. fst (json_set_double child (get_double fp bs) JSON_OK)) (mem_get off sz entry)
         else Some child)
      else if f_type f = TSFILE_FIELD_STRING then
        (if NUL \<in> set (drop off entry) then Some (fst (json_set_string child (json_str_create (cstr (drop off entry))) 0)) else None)
      else Some child)"

fun tsfile_fill_children ::
    "'d fp_layout \<Rightarrow> tsfile_field list \<Rightarrow> char list \<Rightarrow> 'd json_node list \<Rightarrow> 'd json_node list option" where
  "tsfile_fill_children fp [] entry chs = Some chs"
| "tsfile_fill_children fp (f # fs) entry [] = None"
| "tsfile_fill_children fp (f # fs) entry (child # chs) =
     (case tsfile_fill_child fp f entry child of
        None \<Rightarrow> None
      | Some child1 \<Rightarrow> map_option (\<lambda>chs1. child1 # chs1) (tsfile_fill_children fp fs entry chs))"

definition tsfile_fill_node :: "'d fp_layout \<Rightarrow> tsfile_schema \<Rightarrow> 'd json_node \<Rightarrow> char list \<Rightarrow> 'd json_node option" where
  "tsfile_fill_node fp s node entry =
     map_option (\<lambda>chs. jn_set_children (jn_children_count node) chs node)
       (tsfile_fill_children fp (schema_used s) entry (jn_child_head node))"

text \<open>Writing the value of a child into the entry.\<close>

definition tsfile_put_child :: "'d fp_layout \<Rightarrow> tsfile_field \<Rightarrow> 'd json_node \<Rightarrow> char list \<Rightarrow> char list option" where
  "tsfile_put_child fp f child entry =
     (let off = unat (f_offset f); sz = unat (f_size f) in
      if f_type f = TSFILE_FIELD_BOOLEAN then
        mem_put off (le_bytes sizeof_boolean (if json_as_boolean (Some child) then 1 else 0)) entry
      else if f_type f = TSFILE_FIELD_INT then
        (if sz = 1 \<or> sz = 2 \<or> sz = 4 \<or> sz = 8 then mem_put off (le_bytes sz (nat (json_as_integer (Some child) mod 2 ^ 64))) entry
         else Some entry)
      else if f_type f = TSFILE_FIELD_FLOAT then
        (if sz = 4 then mem_put off (put_float fp (json_as_double (fp_zero fp) (Some child))) entry
         else if sz = 8 then mem_put off (put_double fp (json_as_double (fp_zero fp) (Some child))) entry
         else Some entry)
      else if f_type f = TSFILE_FIELD_STRING then
        (case json_as_string (Some child) of None \<Rightarrow> None | Some str \<Rightarrow> mem_put off (strncpy_buf str sz) entry)
      else Some entry)"

fun tsfile_fill_fields ::
    "'d fp_layout \<Rightarrow> tsfile_field list \<Rightarrow> 'd json_node \<Rightarrow> char list \<Rightarrow> json_code \<Rightarrow>
     (int \<times> 'd json_node \<times> char list \<times> json_code) option" where
  "tsfile_fill_fields fp [] node entry e = Some (0, node, entry, e)"
| "tsfile_fill_fields fp (f # fs) node entry e =
     (case json_find node (cstr (concat (map field_bytes (f # fs)))) e of
        None \<Rightarrow> None
      | Some (None, node1, e1) \<Rightarrow> Some (- 1, node1, entry, e1)
      | Some (Some i, node1, e1) \<Rightarrow>
          (case tsfile_put_child fp f (jn_child_head node1 ! i) entry of
             None \<Rightarrow> None
           | Some entry1 \<Rightarrow> tsfile_fill_fields fp fs node1 entry1 e1))"

definition tsfile_fill_entry ::
    "'d fp_layout \<Rightarrow> tsfile_schema \<Rightarrow> 'd json_node \<Rightarrow> char list \<Rightarrow> json_code \<Rightarrow>
     (int \<times> 'd json_node \<times> char list \<times> json_code) option" where
  "tsfile_fill_entry fp s node entry e = tsfile_fill_fields fp (schema_used s) node entry e"

section \<open>Translation there and back\<close>

definition field_width :: "tsfile_field \<Rightarrow> nat" where
  "field_width f = (if f_type f = TSFILE_FIELD_BOOLEAN then sizeof_boolean else unat (f_size f))"

text \<open>Values that a field can hold: integers below eight bytes are read as unsigned, a string needs its terminator.\<close>

definition value_ok :: "'d fp_layout \<Rightarrow> tsfile_field \<Rightarrow> 'd jn_data \<Rightarrow> bool" where
  "value_ok fp f v =
     (let sz = unat (f_size f) in
      if f_type f = TSFILE_FIELD_BOOLEAN then (case v of JBool _ \<Rightarrow> True | _ \<Rightarrow> False)
      else if f_type f = TSFILE_FIELD_INT then
        (case v of
           JInt i \<Rightarrow> (sz \<in> {1, 2, 4} \<and> 0 \<le> i \<and> i < 256 ^ sz) \<or> (sz = 8 \<and> - (2 ^ 63) \<le> i \<and> i < 2 ^ 63)
         | _ \<Rightarrow> False)
      else if f_type f = TSFILE_FIELD_FLOAT then
        (case v of
           JDouble d \<Rightarrow>
             (sz = 4 \<and> length (put_float fp d) = 4 \<and> get_float fp (put_float fp d) = d) \<or>
             (sz = 8 \<and> length (put_double fp d) = 8 \<and> get_double fp (put_double fp d) = d)
         | _ \<Rightarrow> False)
      else if f_type f = TSFILE_FIELD_STRING then
        (case v of JStr s \<Rightarrow> fst s = JSON_STR_DYNAMIC \<and> NUL \<notin> set (snd s) \<and> length (snd s) < sz | _ \<Rightarrow> False)
      else False)"

definition field_encode :: "'d fp_layout \<Rightarrow> tsfile_field \<Rightarrow> 'd jn_data \<Rightarrow> char list" where
  "field_encode fp f v =
     (case v of
        JBool b \<Rightarrow> le_bytes sizeof_boolean (if b then 1 else 0)
      | JInt i \<Rightarrow> le_bytes (unat (f_size f)) (nat (i mod 2 ^ 64))
      | JDouble d \<Rightarrow> if unat (f_size f) = 4 then put_float fp d else put_double fp d
      | JStr s \<Rightarrow> strncpy_buf (snd s) (unat (f_size f))
      | JUnset \<Rightarrow> [])"

definition field_child :: "tsfile_field \<Rightarrow> 'd jn_data \<Rightarrow> 'd json_node" where
  "field_child f v =
     Json_Node (Some (json_str_create (cstr (f_name f))))
       (if f_type f = TSFILE_FIELD_BOOLEAN then JSON_BOOLEAN
        else if f_type f = TSFILE_FIELD_STRING then JSON_STRING else JSON_NUMBER)
       (f_type f = TSFILE_FIELD_INT) False v 0 []"

text \<open>
  The same value, whatever the kinds of the strings (\<open>json_str_t\<close>): a parsed string is a
  reference into the buffer, a string read from a file is allocated.
\<close>

definition same_value :: "'d jn_data \<Rightarrow> 'd jn_data \<Rightarrow> bool" where
  "same_value d v \<longleftrightarrow> (case v of JStr s \<Rightarrow> (case d of JStr u \<Rightarrow> snd u = snd s | _ \<Rightarrow> False) | _ \<Rightarrow> d = v)"

text \<open>A node that holds the value \<open>v\<close> of the field \<open>f\<close>, whatever its name and marks.\<close>

definition child_holds :: "tsfile_field \<Rightarrow> 'd jn_data \<Rightarrow> 'd json_node \<Rightarrow> bool" where
  "child_holds f v c \<longleftrightarrow> same_value (jn_data c) v \<and>
     (if f_type f = TSFILE_FIELD_BOOLEAN then jn_type c = JSON_BOOLEAN
      else if f_type f = TSFILE_FIELD_STRING then jn_type c = JSON_STRING
      else jn_type c = JSON_NUMBER \<and> (jn_is_integer c \<longleftrightarrow> f_type f = TSFILE_FIELD_INT))"

lemma child_holds_touched [simp]: "child_holds f v (jn_set_touched b c) = child_holds f v c"
  by (cases c) (simp add: child_holds_def)

lemma value_ok_cases:
  assumes "value_ok fp f v"
  obtains (bool) b where "f_type f = 0" "v = JBool b"
    | (int) i where "f_type f = 1" "v = JInt i" "unat (f_size f) \<in> {1, 2, 4}" "0 \<le> i" "i < 256 ^ unat (f_size f)"
    | (long) i where "f_type f = 1" "v = JInt i" "unat (f_size f) = 8" "- (2 ^ 63) \<le> i" "i < 2 ^ 63"
    | (float) d where "f_type f = 2" "v = JDouble d" "unat (f_size f) = 4" "length (put_float fp d) = 4" "get_float fp (put_float fp d) = d"
    | (double) d where "f_type f = 2" "v = JDouble d" "unat (f_size f) = 8" "length (put_double fp d) = 8" "get_double fp (put_double fp d) = d"
    | (str) s where "f_type f = 3" "v = JStr (JSON_STR_DYNAMIC, s)" "NUL \<notin> set s" "length s < unat (f_size f)"
  using assms unfolding value_ok_def Let_def ftype_defs
  by (auto split: if_splits jn_data.splits prod.splits)

lemma length_strncpy_buf [simp]: "length (strncpy_buf s n) = n"
  by (simp add: strncpy_buf_def)

lemma field_encode_width: "value_ok fp f v \<Longrightarrow> length (field_encode fp f v) = field_width f"
  by (erule value_ok_cases) (simp_all add: field_encode_def field_width_def ftype_defs)

lemma put_child_encodes:
  assumes "value_ok fp f v" and "unat (f_offset f) + field_width f \<le> length entry"
    and "child_holds f v child"
  shows "tsfile_put_child fp f child entry = Some (poke (unat (f_offset f)) (field_encode fp f v) entry)"
proof -
  obtain n t i u d c ch where child: "child = Json_Node n t i u d c ch" by (cases child)
  show ?thesis
    using assms(1)
    by (rule value_ok_cases; insert assms(2,3))
      (auto simp: child child_holds_def same_value_def tsfile_put_child_def Let_def mem_put_def field_width_def field_encode_def ftype_defs
        json_as_boolean_def json_as_integer_def json_as_double_def json_as_string_def json_check_type_def jn_int_def
        split: jn_data.splits)
qed


lemma sint_word_64:
  assumes "- (2 ^ 63) \<le> i" and "i < 2 ^ 63"
  shows "sint (of_nat (nat (i mod 2 ^ 64)) :: 64 word) = i"
proof -
  have "(of_nat (nat (i mod 2 ^ 64)) :: 64 word) = of_int (i mod 2 ^ 64)" by (rule of_nat_nat) simp
  also have "\<dots> = of_int i" by (simp add: word_of_int_eq_iff take_bit_eq_mod)
  finally show ?thesis using assms by (simp add: sint_sbintrunc' signed_take_bit_int_eq_self)
qed

lemma peek_prefix: "off + n \<le> length mem \<Longrightarrow> drop off mem = peek off n mem @ drop (off + n) mem"
  by (simp add: peek_def) (metis add.commute append_take_drop_id drop_drop)

lemma strncpy_buf_terminated: "length s < n \<Longrightarrow> strncpy_buf s n = s @ NUL # replicate (n - length s - 1) NUL"
  by (cases "n - length s") (simp_all add: strncpy_buf_def)

lemma fill_child_decodes:
  assumes "value_ok fp f v" and "unat (f_offset f) + field_width f \<le> length entry"
    and "peek (unat (f_offset f)) (field_width f) entry = field_encode fp f v"
  shows "tsfile_fill_child fp f entry (field_child f v0) = Some (field_child f v)"
  using assms(1)
proof (cases rule: value_ok_cases)
  case (str s)
  have "drop (unat (f_offset f)) entry = s @ NUL # replicate (unat (f_size f) - length s - 1) NUL @ drop (unat (f_offset f) + field_width f) entry"
    using peek_prefix [OF assms(2)] assms(3) str strncpy_buf_terminated [OF str(4)] by (simp add: field_encode_def)
  then show ?thesis using str by (simp add: tsfile_fill_child_def Let_def ftype_defs field_child_def json_set_string_def json_str_create_def)
next
  case (int i)
  have "i < 2 ^ 64" using int(3,5) by auto
  then have "int (nat (i mod 2 ^ 64) mod 256 ^ unat (f_size f)) = i" using int(4,5) by (simp add: zmod_int)
  then show ?thesis using int assms(2,3)
    by (auto simp: tsfile_fill_child_def Let_def ftype_defs field_child_def json_set_integer_def mem_get_def field_width_def
        field_encode_def le_value_bytes)
next
  case (long i)
  have "nat (i mod 2 ^ 64) mod 256 ^ 8 = nat (i mod 2 ^ 64)" by (simp add: nat_less_iff)
  then show ?thesis using long assms(2,3) sint_word_64 [OF long(4,5)]
    by (auto simp: tsfile_fill_child_def Let_def ftype_defs field_child_def json_set_integer_def mem_get_def field_width_def
        field_encode_def le_value_bytes)
qed (use assms(2,3) in \<open>auto simp: tsfile_fill_child_def Let_def ftype_defs field_child_def json_set_boolean_def json_set_double_def
    mem_get_def field_width_def field_encode_def le_value_bytes sizeof_boolean_def\<close>)

subsection \<open>Whole entries\<close>

definition apart :: "tsfile_field \<Rightarrow> tsfile_field \<Rightarrow> bool" where
  "apart f g \<longleftrightarrow> unat (f_offset f) + field_width f \<le> unat (f_offset g) \<or> unat (f_offset g) + field_width g \<le> unat (f_offset f)"

text \<open>The fields lie inside an entry of \<open>n\<close> bytes, do not overlap, and have distinct terminated names.\<close>

definition fields_ok :: "nat \<Rightarrow> tsfile_field list \<Rightarrow> bool" where
  "fields_ok n fs \<longleftrightarrow> list_all (\<lambda>f. NUL \<in> set (f_name f) \<and> unat (f_offset f) + field_width f \<le> n) fs \<and> sorted_wrt apart fs \<and>
     distinct (map (\<lambda>f. cstr (f_name f)) fs)"

definition field_at :: "tsfile_field \<Rightarrow> char list \<Rightarrow> char list" where
  "field_at f entry = peek (unat (f_offset f)) (field_width f) entry"

lemma field_at_other:
  assumes "apart f g" and "length bs = field_width g" and "unat (f_offset g) \<le> length entry"
  shows "field_at f (poke (unat (f_offset g)) bs entry) = field_at f entry"
  using assms by (auto simp: apart_def field_at_def peek_poke_before peek_poke_behind)

text \<open>\<open>holds_values node fs vs\<close>: the children of the node are the fields with their values; touch marks do not matter.\<close>

definition holds_values :: "'d json_node \<Rightarrow> tsfile_field list \<Rightarrow> 'd jn_data list \<Rightarrow> bool" where
  "holds_values node fs vs \<longleftrightarrow> jn_type node = JSON_NODE \<and> map (jn_set_touched False) (jn_child_head node) = map2 field_child fs vs"

text \<open>
  \<open>carries node fs vs\<close>: an object as \<open>tsfile_fill_entry\<close> accepts it. For every field the first child
  of its name holds the value; the children stand in any order, there may be others, and all
  strings may be of any kind, as in a node of the parser.
\<close>

definition carries :: "'d json_node \<Rightarrow> tsfile_field list \<Rightarrow> 'd jn_data list \<Rightarrow> bool" where
  "carries node fs vs \<longleftrightarrow> jn_type node = JSON_NODE \<and> (\<forall>c \<in> set (jn_child_head node). jn_name c \<noteq> None) \<and>
     list_all2 (\<lambda>f v. case json_first_named (cstr (f_name f)) (jn_child_head node) of
        None \<Rightarrow> False | Some i \<Rightarrow> child_holds f v (jn_child_head node ! i)) fs vs"

lemma first_named_names:
  fixes ch ch' :: "'a json_node list"
  assumes "map jn_name ch' = map jn_name ch"
  shows "json_first_named name ch' = json_first_named name ch"
proof -
  have tw: "length (takeWhile (\<lambda>x. \<not> json_has_name name x) xs) =
      length (takeWhile (\<lambda>n. map_option snd n \<noteq> Some name) (map jn_name xs))" for xs :: "'a json_node list"
    by (induction xs) (simp_all only: takeWhile.simps list.map json_has_name_def list.size if_cancel split: if_split, auto)
  have ex: "(\<exists>x \<in> set xs. json_has_name name x) \<longleftrightarrow> (\<exists>n \<in> set (map jn_name xs). map_option snd n = Some name)" for xs :: "'a json_node list"
    by (auto simp: json_has_name_def)
  show ?thesis by (simp only: json_first_named_def tw ex assms)
qed

lemma carries_touch:
  assumes "carries node fs vs"
  shows "carries (json_touch_child node k) fs vs"
proof -
  let ?ch = "jn_child_head node" and ?ch' = "jn_child_head (json_touch_child node k)"
  have ch': "?ch' = ?ch[k := jn_set_touched True (?ch ! k)]" by (simp add: json_touch_child_def Let_def)
  have holds: "child_holds f v (?ch' ! i) = child_holds f v (?ch ! i)" for f v i
    by (cases "i = k \<and> k < length ?ch") (auto simp: ch' nth_list_update list_update_beyond)
  have "map jn_name ?ch' = map jn_name ?ch"
    by (cases "k < length ?ch") (auto simp: ch' map_update nth_list_update list_update_beyond intro!: nth_equalityI)
  note names = this first_named_names [OF this]
  then have "\<forall>c \<in> set ?ch'. jn_name c \<noteq> None" using assms unfolding carries_def by (metis (no_types, lifting) image_iff list.set_map)
  moreover have "jn_type (json_touch_child node k) = jn_type node" by (simp add: json_touch_child_def Let_def)
  ultimately show ?thesis using assms unfolding carries_def names holds by simp
qed

lemma find_carried:
  assumes "carries node (f # fs) (v # vs)"
  shows "\<exists>i node1. json_find node (cstr (f_name f)) e = Some (Some i, node1, e) \<and> carries node1 fs vs \<and>
    child_holds f v (jn_child_head node1 ! i)"
proof -
  let ?ch = "jn_child_head node"
  obtain i where i: "json_first_named (cstr (f_name f)) ?ch = Some i" "child_holds f v (?ch ! i)"
    using assms by (auto simp: carries_def split: option.splits)
  have lt: "i < length ?ch" by (rule json_first_named_Some(1) [OF i(1)])
  have "json_find_walk (cstr (f_name f)) 0 ?ch = Some (Some i)"
    using assms i(1) json_find_walk_named [of ?ch "cstr (f_name f)" 0] by (simp add: carries_def)
  then have "json_find node (cstr (f_name f)) e = Some (Some i, json_touch_child node i, e)"
    using assms by (simp add: json_find_def json_find_opt_def carries_def)
  moreover have "carries (json_touch_child node i) fs vs" using carries_touch [OF assms] by (simp add: carries_def)
  moreover have "child_holds f v (jn_child_head (json_touch_child node i) ! i)"
    using i(2) lt by (simp add: json_touch_child_def Let_def)
  ultimately show ?thesis by blast
qed

lemma fill_fields_encode:
  assumes "fields_ok (length entry) gs" and "carries node gs us" and "list_all2 (value_ok fp) gs us"
  shows "\<exists>node' entry'. tsfile_fill_fields fp gs node entry e = Some (0, node', entry', e) \<and> length entry' = length entry \<and>
    list_all2 (\<lambda>f v. field_at f entry' = field_encode fp f v) gs us \<and>
    (\<forall>f. (\<forall>g \<in> set gs. apart f g) \<longrightarrow> field_at f entry' = field_at f entry)"
  using assms
proof (induction gs arbitrary: us node entry)
  case (Cons g gs)
  then obtain u us' where us: "us = u # us'" "value_ok fp g u" "list_all2 (value_ok fp) gs us'" by (auto simp: list_all2_Cons1)
  have g: "NUL \<in> set (f_name g)" "unat (f_offset g) + field_width g \<le> length entry"
    and ap: "\<forall>h \<in> set gs. apart g h" using Cons.prems(1) by (auto simp: fields_ok_def)
  have nm: "cstr (concat (map field_bytes (g # gs))) = cstr (f_name g)" using g(1) by (simp add: field_bytes_def cstr_prefix)
  obtain i node1 where n1: "json_find node (cstr (f_name g)) e = Some (Some i, node1, e)" "carries node1 gs us'"
    "child_holds g u (jn_child_head node1 ! i)"
    using find_carried [OF Cons.prems(2) [unfolded us(1)]] by blast
  let ?e = "poke (unat (f_offset g)) (field_encode fp g u) entry"
  have w: "length (field_encode fp g u) = field_width g" using field_encode_width [OF us(2)] .
  have le: "length ?e = length entry" using w g(2) by (auto simp: length_poke)
  have "fields_ok (length ?e) gs" using Cons.prems(1) le by (simp add: fields_ok_def)
  from Cons.IH [OF this n1(2) us(3)] obtain node' entry' where
    r: "tsfile_fill_fields fp gs node1 ?e e = Some (0, node', entry', e)" "length entry' = length entry"
    "list_all2 (\<lambda>f v. field_at f entry' = field_encode fp f v) gs us'"
    "\<forall>f. (\<forall>g \<in> set gs. apart f g) \<longrightarrow> field_at f entry' = field_at f ?e"
    using le by auto
  have "field_at g entry' = field_encode fp g u"
    using r(4) ap w g(2) peek_poke [of "unat (f_offset g)" entry "field_encode fp g u"] by (simp add: field_at_def)
  moreover have "field_at f ?e = field_at f entry" if "apart f g" for f using field_at_other [OF that w] g(2) by simp
  moreover have "tsfile_fill_fields fp (g # gs) node entry e = Some (0, node', entry', e)"
    using n1(1) put_child_encodes [OF us(2) g(2) n1(3)] r(1) unfolding tsfile_fill_fields.simps nm by simp
  ultimately show ?case using r us(1) by (auto intro!: exI [of _ node'] exI [of _ entry'])
qed simp

lemma json_set_touched:
  "fst (json_set_boolean (jn_set_touched b c) v e) = jn_set_touched b (fst (json_set_boolean c v e))"
  "fst (json_set_integer (jn_set_touched b c) i e) = jn_set_touched b (fst (json_set_integer c i e))"
  "fst (json_set_double (jn_set_touched b c) d e) = jn_set_touched b (fst (json_set_double c d e))"
  "fst (json_set_string (jn_set_touched b c) s rc) = jn_set_touched b (fst (json_set_string c s rc))"
  by (cases c; simp add: json_set_boolean_def json_set_integer_def json_set_double_def json_set_string_def)+

lemma fill_child_touched:
  "tsfile_fill_child fp f entry (jn_set_touched b c) = map_option (jn_set_touched b) (tsfile_fill_child fp f entry c)"
  by (simp add: tsfile_fill_child_def Let_def json_set_touched option.map_comp comp_def)

lemma jn_set_touched_twice: "jn_set_touched a (jn_set_touched b c) = jn_set_touched a c"
  by (cases c) simp

lemma fill_child_any:
  assumes "tsfile_fill_child fp f entry (field_child f v0) = Some (field_child f v)" and "jn_set_touched False c = field_child f v0"
  shows "\<exists>c'. tsfile_fill_child fp f entry c = Some c' \<and> jn_set_touched False c' = field_child f v"
proof -
  have "c = jn_set_touched (jn_touched c) (jn_set_touched False c)" by (cases c) simp
  then have "tsfile_fill_child fp f entry c = Some (jn_set_touched (jn_touched c) (field_child f v))"
    using assms fill_child_touched [of fp f entry "jn_touched c" "field_child f v0"] by simp
  then show ?thesis by (auto simp: jn_set_touched_twice) (simp add: field_child_def)
qed

lemma fill_children_decode:
  assumes "list_all2 (value_ok fp) fs vs" and "list_all (\<lambda>f. unat (f_offset f) + field_width f \<le> length entry) fs"
    and "list_all2 (\<lambda>f v. field_at f entry = field_encode fp f v) fs vs"
    and "map (jn_set_touched False) chs = map2 field_child fs vs0" and "length vs0 = length fs"
  shows "\<exists>chs'. tsfile_fill_children fp fs entry chs = Some chs' \<and> map (jn_set_touched False) chs' = map2 field_child fs vs"
  using assms
proof (induction fs arbitrary: vs vs0 chs)
  case (Cons f fs)
  then obtain v vs' v0 vs0' where vs: "vs = v # vs'" "vs0 = v0 # vs0'" by (cases vs; cases vs0) auto
  then obtain c chs' where c: "chs = c # chs'" "jn_set_touched False c = field_child f v0"
    "map (jn_set_touched False) chs' = map2 field_child fs vs0'" using Cons.prems(4) by auto
  have "tsfile_fill_child fp f entry (field_child f v0) = Some (field_child f v)"
    using Cons.prems(1-3) vs fill_child_decodes [of fp f v entry v0] by (simp add: field_at_def)
  then obtain c' where c': "tsfile_fill_child fp f entry c = Some c'" "jn_set_touched False c' = field_child f v"
    using fill_child_any [OF _ c(2)] by blast
  obtain ds where "tsfile_fill_children fp fs entry chs' = Some ds" "map (jn_set_touched False) ds = map2 field_child fs vs'"
    using Cons.IH [OF _ _ _ c(3), of vs'] Cons.prems vs by auto
  then show ?case using c' c(1) vs by simp
qed simp

section \<open>Nodes and files\<close>

definition json_tsfile_get ::
    "'d fp_layout \<Rightarrow> bool \<Rightarrow> int \<Rightarrow> char list \<Rightarrow> 32 word \<Rightarrow> tsfile \<times> char list \<Rightarrow> 'd node_pool \<Rightarrow>
     (tsfile_code \<times> 'd json_node option \<times> 'd node_pool) option" where
  "json_tsfile_get fp seek ret mem number fd pool =
     (let (code, entry) = tsfile_get_entries seek ret mem number (number + 1) fd; s = schema (header (fst fd)) in
      if code \<noteq> TSFILE_OK then Some (code, None, pool)
      else case tsfile_create_node fp s of
        None \<Rightarrow> None
      | Some new \<Rightarrow>
          (case tsfile_get_nodes new 1 pool of
             ([Some node], pool1) \<Rightarrow> map_option (\<lambda>nd. (code, Some nd, pool1)) (tsfile_fill_node fp s node entry)
           | _ \<Rightarrow> None))"

definition json_tsfile_put :: "'d json_node \<Rightarrow> 'd node_pool \<Rightarrow> 'd node_pool" where
  "json_tsfile_put node pool = snd (tsfile_put_node node pool)"

text \<open>\<open>json_tsfile_add\<close> ignores the result of \<open>tsfile_fill_entry\<close>; \<open>mem\<close> is the fresh memory of the entry.\<close>

definition json_tsfile_add ::
    "'d fp_layout \<Rightarrow> tsfile_io \<Rightarrow> char list \<Rightarrow> 'd json_node \<Rightarrow> tsfile \<times> char list \<Rightarrow> json_code \<Rightarrow>
     (tsfile_code \<times> 'd json_node \<times> (tsfile \<times> char list) \<times> json_code) option" where
  "json_tsfile_add fp io mem node fd e =
     (case tsfile_fill_entry fp (schema (header (fst fd))) node mem e of
        None \<Rightarrow> None
      | Some (_, node1, entry, e1) \<Rightarrow> let (code, fd1) = tsfile_add io entry 1 fd in Some (code, node1, fd1, e1))"

fun fill_array :: "'d fp_layout \<Rightarrow> tsfile_schema \<Rightarrow> nat \<Rightarrow> 'd json_node option list \<Rightarrow> char list \<Rightarrow> 'd json_node \<Rightarrow> 'd json_node option" where
  "fill_array fp s esz [] entries array = Some array"
| "fill_array fp s esz (None # nodes) entries array = None"
| "fill_array fp s esz (Some node # nodes) entries array =
     (case tsfile_fill_node fp s node entries of
        None \<Rightarrow> None
      | Some nd \<Rightarrow> fill_array fp s esz nodes (drop esz entries) (json_add_node array None nd))"

definition json_tsfile_get_array ::
    "'d fp_layout \<Rightarrow> bool \<Rightarrow> int \<Rightarrow> char list \<Rightarrow> 32 word \<Rightarrow> 32 word \<Rightarrow> tsfile \<times> char list \<Rightarrow> 'd node_pool \<Rightarrow>
     (tsfile_code \<times> 'd json_node option \<times> 'd node_pool) option" where
  "json_tsfile_get_array fp seek ret mem start end_n fd pool =
     (let n = sint (end_n - start); s = schema (header (fst fd)) in
      if n \<le> 0 then Some (TSFILE_INVAL_RANGE, None, pool)
      else
        let (code, entries) = tsfile_get_entries seek ret mem start end_n fd in
        if code \<noteq> TSFILE_OK then Some (code, None, pool)
        else case tsfile_create_node fp s of
          None \<Rightarrow> None
        | Some new \<Rightarrow>
            (let (nodes, pool1) = tsfile_get_nodes new (nat n) pool
             in map_option (\<lambda>array. (code, Some array, pool1))
                  (fill_array fp s (unat (entry_size (hdr s))) nodes entries json_new_array)))"

text \<open>The nodes are put back until one is refused; the rest is destroyed with the array.\<close>

fun put_all :: "'d json_node list \<Rightarrow> 'd node_pool \<Rightarrow> 'd node_pool" where
  "put_all [] pool = pool"
| "put_all (node # nodes) pool =
     (let (cached, pool1) = tsfile_put_node node pool in if cached then put_all nodes pool1 else pool1)"

definition json_tsfile_put_array :: "'d json_node \<Rightarrow> 'd node_pool \<Rightarrow> 'd node_pool" where
  "json_tsfile_put_array array pool = put_all (take (jn_children_count array) (jn_child_head array)) pool"

fun fill_entries ::
    "'d fp_layout \<Rightarrow> tsfile_schema \<Rightarrow> nat \<Rightarrow> 'd json_node list \<Rightarrow> char list \<Rightarrow> json_code \<Rightarrow> ('d json_node list \<times> char list \<times> json_code) option" where
  "fill_entries fp s esz [] mem e = Some ([], mem, e)"
| "fill_entries fp s esz (node # nodes) mem e =
     (case tsfile_fill_entry fp s node (take esz mem) e of
        None \<Rightarrow> None
      | Some (_, node1, entry, e1) \<Rightarrow>
          map_option (\<lambda>(nodes1, rest, e2). (node1 # nodes1, entry @ rest, e2)) (fill_entries fp s esz nodes (drop esz mem) e1))"

definition json_tsfile_add_array ::
    "'d fp_layout \<Rightarrow> tsfile_io \<Rightarrow> char list \<Rightarrow> 'd json_node \<Rightarrow> tsfile \<times> char list \<Rightarrow> json_code \<Rightarrow>
     (tsfile_code \<times> 'd json_node \<times> (tsfile \<times> char list) \<times> json_code) option" where
  "json_tsfile_add_array fp io mem array fd e =
     (let s = schema (header (fst fd)); chs = (if json_first array e = (Some 0, e) then jn_child_head array else []) in
      case fill_entries fp s (unat (entry_size (hdr s))) chs mem e of
        None \<Rightarrow> None
      | Some (nodes, entries, e1) \<Rightarrow>
          let (code, fd1) = tsfile_add io entries (of_nat (jn_children_count array)) fd
          in Some (code, if chs = [] then array else jn_set_children (jn_children_count array) nodes array, fd1, e1))"

subsection \<open>New nodes\<close>

definition field_default :: "'d fp_layout \<Rightarrow> tsfile_field \<Rightarrow> 'd jn_data" where
  "field_default fp f =
     (if f_type f = TSFILE_FIELD_BOOLEAN then JBool False else if f_type f = TSFILE_FIELD_INT then JInt (- 1)
      else if f_type f = TSFILE_FIELD_FLOAT then JDouble (fp_zero fp) else JStr (JSON_STR []))"

lemma create_fields_children:
  assumes "list_all (\<lambda>f. field_check f \<and> NUL \<in> set (f_name f)) fs"
  shows "tsfile_create_fields fp fs node =
    Some (jn_set_children (jn_children_count node + length fs)
      (jn_child_head node @ map2 field_child fs (map (field_default fp) fs)) node)"
  using assms
proof (induction fs arbitrary: node)
  case Nil
  then show ?case by (cases node) simp
next
  case (Cons f fs)
  have "cstr (f_name f @ r) = cstr (f_name f)" for r using Cons.prems by (simp add: cstr_prefix)
  moreover obtain c where c: "tsfile_field_node fp f = Some c"
    "jn_set_name (Some (json_str_create (cstr (f_name f)))) c = field_child f (field_default fp f)"
    using Cons.prems
    by (auto simp: tsfile_field_node_def field_check_def field_child_def field_default_def json_new_boolean_def json_new_integer_def
        json_new_double_def json_new_string_def json_node_create_def ftype_defs split: if_splits)
  ultimately show ?case using Cons by (cases node) (simp add: field_bytes_def json_add_node_def)
qed

lemma create_node_values:
  assumes "tsfile_check_schema s" and "fields_ok n (schema_used s)"
  shows "\<exists>node. tsfile_create_node fp s = Some node \<and> holds_values node (schema_used s) (map (field_default fp) (schema_used s))"
proof -
  have "list_all (\<lambda>f. field_check f \<and> NUL \<in> set (f_name f)) (schema_used s)"
    using assms by (auto simp: tsfile_check_schema_def schema_used_def fields_ok_def list_all_iff split: if_splits)
  moreover have "map (jn_set_touched False) (map2 field_child fs vs) = map2 field_child fs vs" for fs and vs :: "'a jn_data list"
    by (auto simp: field_child_def)
  ultimately show ?thesis
    using create_fields_children [of "schema_used s" fp "json_new_node None"]
    by (auto simp: tsfile_create_node_def holds_values_def json_new_node_def json_node_create_def)
qed

section \<open>Properties\<close>

text \<open>
  The cache of nodes is a bounded stack: nodes that are put back come out again, last in first
  out, new ones are made only when it is empty, a node is refused exactly when the cache is
  full, and destroying the cache destroys exactly the nodes in it.
\<close>

theorem tsfile_nodes_stack:
  assumes "pool_rep p xs"
  shows "(\<exists>p'. tsfile_get_nodes new k p = (map Some (take k xs @ replicate (k - length xs) new), p') \<and> pool_rep p' (drop k xs)) \<and>
    (\<exists>p'. tsfile_put_node x p = (length xs < length (node_cache p), p') \<and>
       pool_rep p' (if length xs < length (node_cache p) then x # xs else xs)) \<and>
    tsfile_destroy_nodes p = map Some xs"
proof (intro conjI)
  show "\<exists>p'. tsfile_put_node x p = (length xs < length (node_cache p), p') \<and>
       pool_rep p' (if length xs < length (node_cache p) then x # xs else xs)"
  proof (cases "length xs < length (node_cache p)")
    case True
    then show ?thesis using put_node_rep [OF assms True] by auto
  next
    case False
    then show ?thesis using assms by (auto simp: tsfile_put_node_def pool_rep_def)
  qed
qed (use get_nodes_rep [OF assms] destroy_nodes_rep [OF assms] in auto)

definition demo_pool :: "nat node_pool" where
  "demo_pool = snd (tsfile_put_node json_new_array (snd (tsfile_put_node (json_new_node None) (tsfile_init_nodes [None, None, None]))))"

lemma demo_pool_rep: "pool_rep demo_pool [json_new_array, json_new_node None]"
  by code_simp

theorem tsfile_nodes_stack_witness:
  "(\<exists>p'. tsfile_get_nodes (json_new_integer 0) 3 demo_pool = ([Some json_new_array, Some (json_new_node None), Some (json_new_integer 0)], p') \<and>
      pool_rep p' []) \<and> tsfile_destroy_nodes demo_pool = [Some json_new_array, Some (json_new_node None)]"
  using tsfile_nodes_stack [OF demo_pool_rep, of "json_new_integer 0" 3 "json_new_integer 0"] by (simp add: numeral_3_eq_3)

text \<open>
  C17. An entry added from a JSON node is read back as a node with the same values: for every file that
  holds a log, a checked schema whose fields lie apart inside the entry, and values that fit their
  fields. The node is any object in which the first child of a field's name has the value
  (\<open>carries\<close>): its children may stand in any order and be more than the fields, and its names and
  strings may be references, as those of a parsed node are. The node read back has the
  children in the order of the schema, with allocated strings. The fresh memory of the entry and
  what the nodes in the cache held do not matter.
\<close>

theorem json_tsfile_add_get:
  assumes "log_rep (file, disk) es" and "s = schema (header file)" and "tsfile_check_schema s"
    and "fields_ok (esize file) (schema_used s)" and "list_all2 (value_ok fp) (schema_used s) vs"
    and "carries node (schema_used s) vs" and "length mem = esize file" and "length mem2 = esize file"
    and "Suc (length es) < 2 ^ 32" and "sb_at file (cur_sb file) < sint (sb_diff file + now)"
    and "pool_rep pool xs" and "\<forall>x \<in> set xs. \<exists>ws. length ws = length (schema_used s) \<and> holds_values x (schema_used s) ws"
  shows "\<exists>node1 fd' node' pool'.
    json_tsfile_add fp (full_io (esize file) now) mem node (file, disk) e = Some (TSFILE_OK, node1, fd', e) \<and>
    json_tsfile_get fp True (int (esize file)) mem2 (of_nat (length es)) fd' pool = Some (TSFILE_OK, Some node', pool') \<and>
    holds_values node' (schema_used s) vs \<and> pool_rep pool' (drop 1 xs)"
proof -
  let ?fs = "schema_used s"
  obtain node1 entry where en: "tsfile_fill_entry fp s node mem e = Some (0, node1, entry, e)" "length entry = esize file"
    "list_all2 (\<lambda>f v. field_at f entry = field_encode fp f v) ?fs vs"
    using fill_fields_encode [of mem ?fs node vs fp e] assms(4-7) by (auto simp: tsfile_fill_entry_def)
  have "batch_fits (file, disk) es now [entry]" using en(2) assms(9,10) by (simp add: batch_fits_def)
  from tsfile_add_appends [OF assms(1) this]
  obtain file' disk' where a: "tsfile_add (full_io (esize file) now) entry 1 (file, disk) = (TSFILE_OK, file', disk')"
    "log_data (file', disk') (es @ [entry])" "schema (header file') = s"
    using assms(2) by (auto simp: log_rep_def)
  have es': "esize file' = esize file" using a(3) assms(2) by (simp add: esize_def)
  have get: "tsfile_get_entries True (int (esize file)) mem2 (of_nat (length es)) (of_nat (length es) + 1) (file', disk') = (TSFILE_OK, entry)"
    using tsfile_get_entries_slice [OF a(2), of "length es" "Suc (length es)" mem2] assms(8) es' by (simp add: add.commute)
  obtain new where new: "tsfile_create_node fp s = Some new" "holds_values new ?fs (map (field_default fp) ?fs)"
    using create_node_values [OF assms(3,4)] by blast
  obtain pool' where p: "tsfile_get_nodes new 1 pool = (map Some (take 1 xs @ replicate (1 - length xs) new), pool')" "pool_rep pool' (drop 1 xs)"
    using get_nodes_rep [OF assms(11), of new 1] by auto
  obtain nd ws where nd: "tsfile_get_nodes new 1 pool = ([Some nd], pool')" "holds_values nd ?fs ws" "length ws = length ?fs"
    using p(1) new(2) assms(12) by (cases xs) auto
  have "list_all (\<lambda>f. unat (f_offset f) + field_width f \<le> length entry) ?fs" using assms(4) en(2) by (simp add: fields_ok_def list_all_iff)
  from fill_children_decode [OF assms(5) this en(3) _ nd(3)] nd(2)
  obtain chs where "tsfile_fill_children fp ?fs entry (jn_child_head nd) = Some chs" "map (jn_set_touched False) chs = map2 field_child ?fs vs"
    by (auto simp: holds_values_def)
  then have "tsfile_fill_node fp s nd entry = Some (jn_set_children (jn_children_count nd) chs nd)"
    "holds_values (jn_set_children (jn_children_count nd) chs nd) ?fs vs"
    using nd(2) by (simp_all add: tsfile_fill_node_def holds_values_def)
  then show ?thesis
    using en(1) a(1,3) get new(1) nd(1) p(2) assms(2) by (simp add: json_tsfile_add_def json_tsfile_get_def)
qed

definition demo_fp :: "nat fp_layout" where
  "demo_fp = \<lparr>get_float = le_value, get_double = le_value, put_float = le_bytes 4, put_double = le_bytes 8, fp_zero = 0\<rparr>"

text \<open>
  A node as the parser makes it: names and strings refer to the buffer, the fields stand in
  another order than in the schema, and there is an attribute that is no field.
\<close>

definition demo_entry :: "nat json_node" where
  "demo_entry = json_add_node (json_add_node (json_add_node (json_new_node None)
       (Some (JSON_STR_REFERENCE, ''value'')) (json_new_integer (- 7)))
       (Some (JSON_STR_REFERENCE, ''note'')) (json_new_string (JSON_STR_REFERENCE, ''x'')))
       (Some (JSON_STR_REFERENCE, ''flag'')) (json_new_boolean True)"

lemma demo_entry_ok: "carries demo_entry (schema_used demo_schema) [JBool True, JInt (- 7)]"
  "fields_ok 16 (schema_used demo_schema)" "list_all2 (value_ok demo_fp) (schema_used demo_schema) [JBool True, JInt (- 7)]"
  by code_simp+

theorem json_tsfile_add_get_witness:
  "\<exists>node1 fd' node' pool'.
    json_tsfile_add demo_fp (full_io 16 20) (replicate 16 (CHR ''?'')) demo_entry (demo_file, header_bytes (header demo_file)) JSON_OK =
      Some (TSFILE_OK, node1, fd', JSON_OK) \<and>
    json_tsfile_get demo_fp True 16 (replicate 16 NUL) 0 fd' (tsfile_init_nodes [None, None]) = Some (TSFILE_OK, Some node', pool') \<and>
    holds_values node' (schema_used demo_schema) [JBool True, JInt (- 7)]"
proof -
  have s: "schema_used (schema (header demo_file)) = schema_used demo_schema" by code_simp
  have c: "tsfile_check_schema (schema (header demo_file))" by code_simp
  show ?thesis
    using json_tsfile_add_get [OF demo_file_log refl c, of demo_fp "[JBool True, JInt (- 7)]" demo_entry "replicate 16 (CHR ''?'')"
        "replicate 16 NUL" 20 "tsfile_init_nodes [None, None]" "[]" JSON_OK]
    by (simp add: s demo_entry_ok demo_file_esize pool_rep_init demo_file_sb) (auto simp: demo_file_def demo_file_sb [unfolded demo_file_def])
qed

end
