(* ===== verification/MpTree.thy ===== *)
theory MpTree
  imports TsPrelude "HOL-Library.Tree" "HOL-Library.Monad_Syntax"
begin

text \<open>
  The tree of free fragments of a heap page (\<open>libtscommon/mempool.c\<close>). Headers lie in the page; a child is an offset in
  units of four bytes, relative to its parent, and no child is the offset 0. The operations work on the
  store of headers; they refine operations on binary trees, and the trees stay ordered by size.
\<close>

section \<open>Headers in a page\<close>

text \<open>Addresses are units from the start of the page; the fields of a header have 10, 11 and 11 bits.\<close>

record heap_header =
  hh_size :: nat
  hh_left :: int
  hh_right :: int

type_synonym hstore = "nat \<Rightarrow> heap_header"

definition MPHEAPMAXUNITS :: nat where "MPHEAPMAXUNITS = 1024"

definition sx11 :: "int \<Rightarrow> int" where
  "sx11 x = (x + 1024) mod 2048 - 1024"

definition MP_HH_LEFT :: "hstore \<Rightarrow> nat \<Rightarrow> nat" where
  "MP_HH_LEFT h p = nat (int p + hh_left (h p))"

definition MP_HH_RIGHT :: "hstore \<Rightarrow> nat \<Rightarrow> nat" where
  "MP_HH_RIGHT h p = nat (int p + hh_right (h p))"

definition MP_HH_NEXT :: "hstore \<Rightarrow> nat \<Rightarrow> nat" where
  "MP_HH_NEXT h p = p + hh_size (h p)"

definition MP_HH_SET_LEFT :: "nat \<Rightarrow> nat \<Rightarrow> hstore \<Rightarrow> hstore" where
  "MP_HH_SET_LEFT p c h = h(p := (h p)\<lparr>hh_left := sx11 (int c - int p)\<rparr>)"

definition MP_HH_SET_RIGHT :: "nat \<Rightarrow> nat \<Rightarrow> hstore \<Rightarrow> hstore" where
  "MP_HH_SET_RIGHT p c h = h(p := (h p)\<lparr>hh_right := sx11 (int c - int p)\<rparr>)"

definition MP_HH_COPY_LEFT :: "nat \<Rightarrow> nat \<Rightarrow> hstore \<Rightarrow> hstore" where
  "MP_HH_COPY_LEFT src dst h = MP_HH_SET_LEFT dst (if hh_left (h src) = 0 then dst else MP_HH_LEFT h src) h"

definition MP_HH_COPY_RIGHT :: "nat \<Rightarrow> nat \<Rightarrow> hstore \<Rightarrow> hstore" where
  "MP_HH_COPY_RIGHT src dst h = MP_HH_SET_RIGHT dst (if hh_right (h src) = 0 then dst else MP_HH_RIGHT h src) h"

definition clear_links :: "nat \<Rightarrow> hstore \<Rightarrow> hstore" where
  "clear_links p h = h(p := (h p)\<lparr>hh_left := 0, hh_right := 0\<rparr>)"

definition MP_HEAP_HEADER_INIT :: "nat \<Rightarrow> nat \<Rightarrow> hstore \<Rightarrow> hstore" where
  "MP_HEAP_HEADER_INIT p sz h = h(p := \<lparr>hh_size = sz mod 1024, hh_left = 0, hh_right = 0\<rparr>)"

definition MP_HH_MARK_ALLOCATED :: "nat \<Rightarrow> hstore \<Rightarrow> hstore" where
  "MP_HH_MARK_ALLOCATED p h = h(p := (h p)\<lparr>hh_left := int MPHEAPMAXUNITS - 1, hh_right := int MPHEAPMAXUNITS - 1\<rparr>)"

definition MP_HH_IS_ALLOCATED :: "hstore \<Rightarrow> nat \<Rightarrow> bool" where
  "MP_HH_IS_ALLOCATED h p \<longleftrightarrow> hh_right (h p) = int MPHEAPMAXUNITS - 1 \<and> hh_left (h p) = int MPHEAPMAXUNITS - 1"

lemmas hh_defs = MP_HH_LEFT_def MP_HH_RIGHT_def MP_HH_SET_LEFT_def MP_HH_SET_RIGHT_def MP_HH_COPY_LEFT_def MP_HH_COPY_RIGHT_def
  clear_links_def

section \<open>The operations of the tree\<close>

partial_function (option) btree_insert_loop :: "nat \<Rightarrow> hstore \<Rightarrow> nat \<Rightarrow> hstore option" where
  "btree_insert_loop hh h parent =
     (if hh_size (h hh) > hh_size (h parent) then
        (if MP_HH_RIGHT h parent = parent then Some (MP_HH_SET_RIGHT parent hh h)
         else btree_insert_loop hh h (MP_HH_RIGHT h parent))
      else if hh_size (h hh) < hh_size (h parent) then
        (if MP_HH_LEFT h parent = parent then Some (MP_HH_SET_LEFT parent hh h)
         else btree_insert_loop hh h (MP_HH_LEFT h parent))
      else Some (MP_HH_SET_LEFT parent hh (MP_HH_COPY_LEFT parent hh h)))"

definition mp_heap_btree_insert :: "nat option \<Rightarrow> nat \<Rightarrow> hstore \<Rightarrow> (nat option \<times> hstore) option" where
  "mp_heap_btree_insert root hh h =
     (case root of
        None \<Rightarrow> Some (Some hh, clear_links hh h)
      | Some p \<Rightarrow> map_option (Pair root) (btree_insert_loop hh (clear_links hh h) p))"

datatype mp_dir = MP_HH_N | MP_HH_L | MP_HH_R

partial_function (option) btree_tail_loop :: "hstore \<Rightarrow> nat \<Rightarrow> nat \<Rightarrow> mp_dir \<Rightarrow> (nat \<times> nat \<times> mp_dir) option" where
  "btree_tail_loop h tparent tail tdir =
     (if hh_left (h tail) \<noteq> 0 then btree_tail_loop h tail (MP_HH_LEFT h tail) MP_HH_L else Some (tparent, tail, tdir))"

text \<open>The switch at the end: the link of the parent, or the root, is set to what replaces the header.\<close>

definition btree_relink :: "nat option \<Rightarrow> nat option \<Rightarrow> nat option \<Rightarrow> mp_dir \<Rightarrow> hstore \<Rightarrow> (nat option \<times> hstore) option" where
  "btree_relink root parent tail dir h =
     (case dir of
        MP_HH_L \<Rightarrow> (case (parent, tail) of (Some p, Some t) \<Rightarrow> Some (root, MP_HH_SET_LEFT p t h) | _ \<Rightarrow> None)
      | MP_HH_R \<Rightarrow> (case (parent, tail) of (Some p, Some t) \<Rightarrow> Some (root, MP_HH_SET_RIGHT p t h) | _ \<Rightarrow> None)
      | MP_HH_N \<Rightarrow> Some (tail, h))"

partial_function (option) mp_heap_btree_delete ::
  "nat option \<Rightarrow> hstore \<Rightarrow> nat option \<Rightarrow> nat \<Rightarrow> mp_dir \<Rightarrow> (nat option \<times> hstore) option" where
  "mp_heap_btree_delete root h parent hh dir =
     do { (root1, h1, tail) \<leftarrow>
            (if MP_HH_LEFT h hh \<noteq> hh \<and> MP_HH_RIGHT h hh \<noteq> hh then
               do { (tparent, tail, tdir) \<leftarrow> btree_tail_loop h hh (MP_HH_RIGHT h hh) MP_HH_R;
                    (root1, h1) \<leftarrow> mp_heap_btree_delete root h (Some tparent) tail tdir;
                    Some (root1, MP_HH_COPY_RIGHT hh tail (MP_HH_COPY_LEFT hh tail h1), Some tail) }
             else Some (root, h, if MP_HH_LEFT h hh \<noteq> hh then Some (MP_HH_LEFT h hh)
                                 else if MP_HH_RIGHT h hh \<noteq> hh then Some (MP_HH_RIGHT h hh) else parent));
          (root2, h2) \<leftarrow> btree_relink root1 parent tail dir h1;
          Some (root2, clear_links hh h2) }"

text \<open>\<open>best\<close> is the best header so far, with its parent, the bytes left over and its direction.\<close>

partial_function (option) btree_find_loop ::
  "hstore \<Rightarrow> nat \<Rightarrow> nat \<Rightarrow> nat option \<Rightarrow> mp_dir \<Rightarrow> nat \<times> nat option \<times> int \<times> mp_dir \<Rightarrow> (nat \<times> nat option \<times> int \<times> mp_dir) option" where
  "btree_find_loop h units hh parent dir best =
     (let diff = int (hh_size (h hh)) - int units; b_diff = fst (snd (snd best));
          best1 = (if diff \<ge> 0 \<and> (diff \<le> b_diff \<or> b_diff < 0) then (hh, parent, diff, dir) else best)
      in if diff \<ge> 0 \<and> (diff \<le> b_diff \<or> b_diff < 0) \<and> diff = 0 then Some best1
         else if MP_HH_LEFT h hh \<noteq> hh \<and> diff > 0 then btree_find_loop h units (MP_HH_LEFT h hh) (Some hh) MP_HH_L best1
         else if MP_HH_RIGHT h hh \<noteq> hh \<and> diff < 0 then btree_find_loop h units (MP_HH_RIGHT h hh) (Some hh) MP_HH_R best1
         else Some best1)"

text \<open>The result is \<open>None\<close> for a NULL root, which the code dereferences; the inner option is the result of the code.\<close>

definition mp_heap_btree_find_delete :: "nat option \<Rightarrow> nat \<Rightarrow> hstore \<Rightarrow> (nat option \<times> nat option \<times> hstore) option" where
  "mp_heap_btree_find_delete root units h =
     (case root of
        None \<Rightarrow> None
      | Some hh \<Rightarrow>
          do { (best, b_parent, b_diff, b_dir) \<leftarrow>
                 btree_find_loop h units hh None MP_HH_N (hh, None, int (hh_size (h hh)) - int units, MP_HH_N);
               if b_diff < 0 then Some (None, root, h)
               else do { (root1, h1) \<leftarrow> mp_heap_btree_delete root h b_parent best b_dir; Some (Some best, root1, h1) } })"

section \<open>Trees of headers\<close>

fun child :: "nat \<Rightarrow> nat tree \<Rightarrow> nat" where
  "child p Leaf = p"
| "child p (Node l q r) = q"

text \<open>The store holds the tree: the links of every node are the offsets of its children.\<close>

fun holds :: "hstore \<Rightarrow> nat tree \<Rightarrow> bool" where
  "holds h Leaf \<longleftrightarrow> True"
| "holds h (Node l p r) \<longleftrightarrow> hh_left (h p) = int (child p l) - int p \<and> hh_right (h p) = int (child p r) - int p
     \<and> p < MPHEAPMAXUNITS \<and> holds h l \<and> holds h r"

definition root_of :: "nat tree \<Rightarrow> nat option" where
  "root_of t = (case t of Leaf \<Rightarrow> None | Node l p r \<Rightarrow> Some p)"

definition tree_rep :: "hstore \<Rightarrow> nat option \<Rightarrow> nat tree \<Rightarrow> bool" where
  "tree_rep h root t \<longleftrightarrow> root = root_of t \<and> holds h t \<and> distinct (inorder t)"

definition same_links :: "hstore \<Rightarrow> hstore \<Rightarrow> nat \<Rightarrow> bool" where
  "same_links h h' p \<longleftrightarrow> hh_left (h' p) = hh_left (h p) \<and> hh_right (h' p) = hh_right (h p)"

lemma holds_cong: "(\<And>p. p \<in> set_tree t \<Longrightarrow> same_links h h' p) \<Longrightarrow> holds h' t = holds h t"
  by (induction t) (auto simp: same_links_def)

lemma holds_bound: "holds h t \<Longrightarrow> p \<in> set_tree t \<Longrightarrow> p < MPHEAPMAXUNITS"
  by (induction t) auto

lemma sx11_id [simp]: "p < MPHEAPMAXUNITS \<Longrightarrow> c < MPHEAPMAXUNITS \<Longrightarrow> sx11 (int c - int p) = int c - int p"
  by (simp add: sx11_def MPHEAPMAXUNITS_def)

lemma sx11_0 [simp]: "sx11 0 = 0"
  by (simp add: sx11_def)

lemma child_neq: "p \<notin> set_tree t \<Longrightarrow> child p t = p \<longleftrightarrow> t = Leaf"
  by (cases t) auto

lemma child_in: "t \<noteq> Leaf \<Longrightarrow> child p t \<in> set_tree t"
  by (cases t) auto

lemma links [simp]:
  assumes "holds h (Node l p r)"
  shows "MP_HH_LEFT h p = child p l" and "MP_HH_RIGHT h p = child p r"
  using assms by (simp_all add: hh_defs)

subsection \<open>Insertion\<close>

fun ins :: "(nat \<Rightarrow> nat) \<Rightarrow> nat \<Rightarrow> nat tree \<Rightarrow> nat tree" where
  "ins sz x Leaf = Node Leaf x Leaf"
| "ins sz x (Node l a r) =
     (if sz x > sz a then Node l a (ins sz x r)
      else if sz x < sz a then Node (ins sz x l) a r
      else Node (Node l x Leaf) a r)"

lemma set_ins [simp]: "set_tree (ins sz x t) = insert x (set_tree t)"
  by (induction t) auto

lemma mset_ins: "mset (inorder (ins sz x t)) = add_mset x (mset (inorder t))"
  by (induction t) auto

lemma child_ins: "t \<noteq> Leaf \<Longrightarrow> child p (ins sz x t) = child p t"
  by (cases t) auto

lemma distinct_ins: "x \<notin> set_tree t \<Longrightarrow> distinct (inorder t) \<Longrightarrow> distinct (inorder (ins sz x t))"
  by (metis distinct.simps(2) mset.simps(2) mset_eq_imp_distinct_iff mset_ins set_inorder)

definition sizes :: "hstore \<Rightarrow> nat \<Rightarrow> nat" where
  "sizes h p = hh_size (h p)"

lemma sizes_set [simp]:
  "sizes (MP_HH_SET_LEFT p c h) = sizes h" "sizes (MP_HH_SET_RIGHT p c h) = sizes h" "sizes (clear_links p h) = sizes h"
  "sizes (MP_HH_COPY_LEFT p c h) = sizes h" "sizes (MP_HH_COPY_RIGHT p c h) = sizes h"
  by (auto simp: hh_defs sizes_def)

lemma btree_insert_loop_ins:
  assumes "holds h t" and "distinct (inorder t)" and "t \<noteq> Leaf" and "x \<notin> set_tree t" and "x < MPHEAPMAXUNITS"
    and "hh_left (h x) = 0" and "hh_right (h x) = 0"
  shows "\<exists>h'. btree_insert_loop x h (child x t) = Some h' \<and> holds h' (ins (sizes h) x t) \<and> sizes h' = sizes h
    \<and> (\<forall>p. p \<notin> set_tree t \<and> p \<noteq> x \<longrightarrow> h' p = h p)"
  using assms
proof (induction t)
  case Leaf
  then show ?case by simp
next
  case (Node l a r)
  have p: "a \<notin> set_tree l" "a \<notin> set_tree r" "set_tree l \<inter> set_tree r = {}" "a < MPHEAPMAXUNITS" "a \<noteq> x" "x \<notin> set_tree l" "x \<notin> set_tree r"
    using Node.prems by auto
  consider "hh_size (h x) > hh_size (h a)" | "hh_size (h x) < hh_size (h a)" | "hh_size (h x) = hh_size (h a)" by linarith
  then show ?case
  proof cases
    case 1
    show ?thesis
    proof (cases "r = Leaf")
      case True
      let ?h = "MP_HH_SET_RIGHT a x h"
      have "holds ?h l = holds h l" by (rule holds_cong) (use p in \<open>auto simp: same_links_def hh_defs\<close>)
      then have "holds ?h (ins (sizes h) x (Node l a r))" using Node.prems p 1 True by (auto simp: sizes_def [of h a] sizes_def [of h x] hh_defs)
      then show ?thesis using Node.prems 1 True
        by (intro exI [of _ ?h]) (auto simp: btree_insert_loop.simps [of x h a] sizes_def [of h a] sizes_def [of h x], simp_all add: hh_defs)
    next
      case False
      then obtain h' where h': "btree_insert_loop x h (child x r) = Some h'" "holds h' (ins (sizes h) x r)" "sizes h' = sizes h"
          "\<And>p. p \<notin> set_tree r \<Longrightarrow> p \<noteq> x \<Longrightarrow> h' p = h p"
        using Node.IH(2) Node.prems by auto
      have "holds h' l = holds h l" by (rule holds_cong) (metis h'(4) p(3,6) disjoint_iff same_links_def)
      moreover have "child x r = child a r" using False by (cases r) auto
      ultimately show ?thesis using h' Node.prems p 1 False child_neq [OF p(2)] child_ins [OF False]
        by (intro exI [of _ h']) (auto simp: btree_insert_loop.simps [of x h a] sizes_def [of h a] sizes_def [of h x])
    qed
  next
    case 2
    show ?thesis
    proof (cases "l = Leaf")
      case True
      let ?h = "MP_HH_SET_LEFT a x h"
      have "holds ?h r = holds h r" by (rule holds_cong) (use p in \<open>auto simp: same_links_def hh_defs\<close>)
      then have "holds ?h (ins (sizes h) x (Node l a r))" using Node.prems p 2 True by (auto simp: sizes_def [of h a] sizes_def [of h x] hh_defs)
      then show ?thesis using Node.prems 2 True
        by (intro exI [of _ ?h]) (auto simp: btree_insert_loop.simps [of x h a] sizes_def [of h a] sizes_def [of h x], simp_all add: hh_defs)
    next
      case False
      then obtain h' where h': "btree_insert_loop x h (child x l) = Some h'" "holds h' (ins (sizes h) x l)" "sizes h' = sizes h"
          "\<And>p. p \<notin> set_tree l \<Longrightarrow> p \<noteq> x \<Longrightarrow> h' p = h p"
        using Node.IH(1) Node.prems by auto
      have "holds h' r = holds h r" by (rule holds_cong) (metis h'(4) p(3,7) disjoint_iff same_links_def)
      moreover have "child x l = child a l" using False by (cases l) auto
      ultimately show ?thesis using h' Node.prems p 2 False child_neq [OF p(1)] child_ins [OF False]
        by (intro exI [of _ h']) (auto simp: btree_insert_loop.simps [of x h a] sizes_def [of h a] sizes_def [of h x])
    qed
  next
    case 3
    let ?h = "MP_HH_SET_LEFT a x (MP_HH_COPY_LEFT a x h)"
    have same: "holds ?h l = holds h l" "holds ?h r = holds h r"
      by (rule holds_cong; use p in \<open>auto simp: same_links_def hh_defs\<close>)+
    have "child a l < MPHEAPMAXUNITS" using Node.prems(1) p(4) child_in [of l a] holds_bound by (cases "l = Leaf") fastforce+
    then have "holds ?h (ins (sizes h) x (Node l a r))"
      using Node.prems p 3 same child_neq [OF p(1)] by (cases l) (auto simp: sizes_def [of h a] sizes_def [of h x] hh_defs)
    then show ?thesis using 3
      by (intro exI [of _ ?h]) (auto simp: btree_insert_loop.simps [of x h a] sizes_def [of h a] sizes_def [of h x], simp_all add: hh_defs)
  qed
qed

lemma mp_heap_btree_insert_ins:
  assumes rep: "tree_rep h root t" and x: "x \<notin> set_tree t" "x < MPHEAPMAXUNITS"
  shows "\<exists>root' h'. mp_heap_btree_insert root x h = Some (root', h') \<and> tree_rep h' root' (ins (sizes h) x t) \<and> sizes h' = sizes h
    \<and> (\<forall>p. p \<notin> set_tree t \<and> p \<noteq> x \<longrightarrow> h' p = h p)"
proof (cases t)
  case Leaf
  then show ?thesis using rep x sizes_set(3) [of x h]
    by (auto simp: tree_rep_def root_of_def mp_heap_btree_insert_def clear_links_def)
next
  case (Node l a r)
  let ?h = "clear_links x h"
  have "holds ?h t = holds h t" by (rule holds_cong) (use x in \<open>auto simp: same_links_def hh_defs\<close>)
  moreover have clear: "hh_left (?h x) = 0" "hh_right (?h x) = 0" by (simp_all add: clear_links_def)
  ultimately obtain h' where h': "btree_insert_loop x ?h a = Some h'" "holds h' (ins (sizes h) x t)" "sizes h' = sizes h"
      "\<And>p. p \<notin> set_tree t \<Longrightarrow> p \<noteq> x \<Longrightarrow> h' p = ?h p"
    using btree_insert_loop_ins [of ?h t x] rep x clear by (auto simp: tree_rep_def Node simp del: ins.simps holds.simps)
  have "root_of (ins (sizes h) x t) = Some a" using Node by (simp add: root_of_def)
  then show ?thesis using h' rep Node distinct_ins [OF x(1)]
    by (auto simp: tree_rep_def mp_heap_btree_insert_def root_of_def clear_links_def)
qed

subsection \<open>Deletion\<close>

fun split_min :: "nat tree \<Rightarrow> nat \<times> nat tree" where
  "split_min Leaf = (0, Leaf)"
| "split_min (Node l a r) = (if l = Leaf then (a, r) else let (x, l') = split_min l in (x, Node l' a r))"

definition del_root :: "nat tree \<Rightarrow> nat tree \<Rightarrow> nat tree" where
  "del_root l r = (if l = Leaf then r else if r = Leaf then l else let (x, r') = split_min r in Node l x r')"

lemma split_min_inorder: "t \<noteq> Leaf \<Longrightarrow> split_min t = (x, t') \<Longrightarrow> inorder t = x # inorder t'"
  by (induction t arbitrary: t') (auto split: if_splits prod.splits)

lemma del_root_inorder: "inorder (del_root l r) = inorder l @ inorder r"
  using split_min_inorder [of r] by (cases "split_min r") (auto simp: del_root_def)

text \<open>
  A tree with a hole: the context of a subtree, from the inside out, with the direction taken at each node.
\<close>

fun plug :: "(mp_dir \<times> nat \<times> nat tree) list \<Rightarrow> nat tree \<Rightarrow> nat tree" where
  "plug [] t = t"
| "plug ((d, p, u) # c) t = plug c (if d = MP_HH_L then Node t p u else Node u p t)"

fun ctx_parent :: "(mp_dir \<times> nat \<times> nat tree) list \<Rightarrow> nat option" where
  "ctx_parent [] = None"
| "ctx_parent ((d, p, u) # c) = Some p"

fun ctx_dir :: "(mp_dir \<times> nat \<times> nat tree) list \<Rightarrow> mp_dir" where
  "ctx_dir [] = MP_HH_N"
| "ctx_dir ((d, p, u) # c) = (if d = MP_HH_L then MP_HH_L else MP_HH_R)"

lemma mset_plug: "mset (inorder (plug c t)) = mset (inorder t) + mset (inorder (plug c Leaf))"
proof (induction c arbitrary: t)
  case Nil
  then show ?case by simp
next
  case (Cons x c)
  obtain d p u where x: "x = (d, p, u)" by (cases x)
  show ?case using Cons [of "Node t p u"] Cons [of "Node u p t"] Cons [of "Node Leaf p u"] Cons [of "Node u p Leaf"] by (simp add: x)
qed

fun ctx_nodes :: "(mp_dir \<times> nat \<times> nat tree) list \<Rightarrow> nat set" where
  "ctx_nodes [] = {}"
| "ctx_nodes ((d, p, u) # c) = insert p (set_tree u \<union> ctx_nodes c)"

text \<open>The links of the nodes around a hole; of what fills the hole, only its root matters.\<close>

fun ctx_holds :: "hstore \<Rightarrow> (mp_dir \<times> nat \<times> nat tree) list \<Rightarrow> nat tree \<Rightarrow> bool" where
  "ctx_holds h [] t \<longleftrightarrow> True"
| "ctx_holds h ((d, p, u) # c) t \<longleftrightarrow>
     hh_left (h p) = int (child p (if d = MP_HH_L then t else u)) - int p
     \<and> hh_right (h p) = int (child p (if d = MP_HH_L then u else t)) - int p
     \<and> p < MPHEAPMAXUNITS \<and> holds h u \<and> ctx_holds h c (Node Leaf p Leaf)"

lemma ctx_holds_root: "ctx_holds h c (Node l p r) = ctx_holds h c (Node Leaf p Leaf)"
  by (cases "(h, c, Node l p r)" rule: ctx_holds.cases) auto

lemma holds_plug: "holds h (plug c t) \<longleftrightarrow> holds h t \<and> ctx_holds h c t"
proof (induction c t rule: plug.induct)
  case (2 d p u c t)
  then show ?case using ctx_holds_root [of h c t p u] ctx_holds_root [of h c u p t] by auto
qed simp

lemma set_plug [simp]: "set_tree (plug c t) = set_tree t \<union> ctx_nodes c"
  by (induction c t rule: plug.induct) auto

lemma ctx_holds_cong: "(\<And>p. p \<in> ctx_nodes c \<Longrightarrow> same_links h h' p) \<Longrightarrow> ctx_holds h' c t = ctx_holds h c t"
proof (induction h c t rule: ctx_holds.induct)
  case (2 h d p u c t)
  then have "ctx_holds h' c (Node Leaf p Leaf) = ctx_holds h c (Node Leaf p Leaf)" by simp
  moreover have "holds h' u = holds h u" by (rule holds_cong) (use "2.prems" in simp)
  ultimately show ?case using "2.prems" [of p] by (simp add: same_links_def)
qed simp

lemma plug_append: "plug (c @ c') t = plug c' (plug c t)"
  by (induction c t rule: plug.induct) auto

lemma distinct_plug: "distinct (inorder (plug c t)) \<longleftrightarrow>
    distinct (inorder t) \<and> distinct (inorder (plug c Leaf)) \<and> set_tree t \<inter> ctx_nodes c = {}"
proof -
  have "distinct (inorder (plug c t)) \<longleftrightarrow> distinct (inorder t @ inorder (plug c Leaf))"
    by (rule mset_eq_imp_distinct_iff) (simp add: mset_plug [of c t])
  then show ?thesis by auto
qed

lemma root_of_plug: "c \<noteq> [] \<Longrightarrow> root_of (plug c t) = root_of (plug c t')"
proof (induction c arbitrary: t t')
  case (Cons x c)
  then show ?case by (cases x; cases "c = []") (auto simp: root_of_def)
qed simp

subsubsection \<open>Relinking a subtree\<close>

definition tail_of :: "(mp_dir \<times> nat \<times> nat tree) list \<Rightarrow> nat tree \<Rightarrow> nat option" where
  "tail_of c t = (case t of Leaf \<Rightarrow> ctx_parent c | Node l p r \<Rightarrow> Some p)"

lemma btree_relink_plug:
  assumes ctx: "ctx_holds h c t0" and t: "holds h t" and dist: "distinct (inorder (plug c t))"
  shows "\<exists>h'. btree_relink (root_of (plug c t0)) (ctx_parent c) (tail_of c t) (ctx_dir c) h = Some (root_of (plug c t), h')
    \<and> holds h' (plug c t) \<and> sizes h' = sizes h \<and> (\<forall>p. p \<notin> ctx_nodes c \<longrightarrow> h' p = h p)"
proof (cases c)
  case Nil
  then show ?thesis using t by (cases t) (auto simp: btree_relink_def tail_of_def root_of_def)
next
  case (Cons x c')
  obtain d p u where x: "x = (d, p, u)" by (cases x)
  have root: "root_of (plug c t0) = root_of (plug c t)" using Cons root_of_plug by blast
  have p: "p < MPHEAPMAXUNITS" "holds h u" "ctx_holds h c' (Node Leaf p Leaf)" using ctx by (auto simp: Cons x)
  have "distinct (inorder (plug c' (if d = MP_HH_L then Node t p u else Node u p t)))" using dist by (simp add: Cons x)
  then have away: "p \<notin> set_tree t" "p \<notin> set_tree u" "p \<notin> ctx_nodes c'"
    by (cases "d = MP_HH_L"; subst (asm) distinct_plug; auto)+
  have tail: "tail_of c t = Some (child p t)" by (cases t) (auto simp: tail_of_def Cons x)
  have bound: "child p t < MPHEAPMAXUNITS" using t p(1) by (cases t) auto
  define h' where "h' = (if d = MP_HH_L then MP_HH_SET_LEFT p (child p t) h else MP_HH_SET_RIGHT p (child p t) h)"
  have same: "same_links h h' q" if "q \<noteq> p" for q using that by (auto simp: h'_def same_links_def hh_defs)
  have "holds h' t" "holds h' u" "ctx_holds h' c' (Node Leaf p Leaf)"
    using t p(2,3) holds_cong [of t h h'] holds_cong [of u h h'] ctx_holds_cong [of c' h h'] same away by (metis, metis, metis)
  then have "ctx_holds h' c t" using ctx bound p(1) by (auto simp: Cons x h'_def hh_defs)
  then have "holds h' (plug c t)" using \<open>holds h' t\<close> by (simp add: holds_plug)
  moreover have "sizes h' = sizes h" by (simp add: h'_def)
  moreover have "btree_relink (root_of (plug c t0)) (ctx_parent c) (tail_of c t) (ctx_dir c) h = Some (root_of (plug c t), h')"
    unfolding root tail by (simp add: Cons x btree_relink_def h'_def)
  moreover have "\<forall>q. q \<notin> ctx_nodes c \<longrightarrow> h' q = h q" by (simp add: h'_def hh_defs Cons x)
  ultimately show ?thesis by blast
qed

subsubsection \<open>The smallest successor\<close>

lemma btree_tail_loop_min:
  assumes "holds h r" and "distinct (inorder r)" and "r \<noteq> Leaf" and "ctx_parent c0 = Some tp" and "ctx_dir c0 = td"
  shows "\<exists>c x rr tp' td'. r = plug c (Node Leaf x rr) \<and> split_min r = (x, plug c rr)
    \<and> btree_tail_loop h tp (child tp r) td = Some (tp', x, td') \<and> ctx_parent (c @ c0) = Some tp' \<and> ctx_dir (c @ c0) = td'"
  using assms
proof (induction r arbitrary: c0 tp td)
  case Leaf
  then show ?case by simp
next
  case (Node l a r)
  have a: "a \<notin> set_tree l" using Node.prems(2) by auto
  show ?case
  proof (cases "l = Leaf")
    case True
    then show ?thesis using Node.prems
      by (intro exI [of _ "[]"] exI [of _ a] exI [of _ r] exI [of _ tp] exI [of _ td])
        (simp add: btree_tail_loop.simps [of h tp a td])
  next
    case False
    obtain c x rr tp' td' where IH: "l = plug c (Node Leaf x rr)" "split_min l = (x, plug c rr)"
        "btree_tail_loop h a (child a l) MP_HH_L = Some (tp', x, td')"
        "ctx_parent (c @ (MP_HH_L, a, r) # c0) = Some tp'" "ctx_dir (c @ (MP_HH_L, a, r) # c0) = td'"
      using Node.IH(1) [of "(MP_HH_L, a, r) # c0" a MP_HH_L] Node.prems False by auto
    have "hh_left (h a) \<noteq> 0" using Node.prems(1) child_neq [OF a] False by auto
    then have "btree_tail_loop h tp a td = Some (tp', x, td')"
      using IH(3) Node.prems(1) by (simp add: btree_tail_loop.simps [of h tp a td] del: holds.simps)
    then show ?thesis using IH False
      by (intro exI [of _ "c @ [(MP_HH_L, a, r)]"] exI [of _ x] exI [of _ rr] exI [of _ tp'] exI [of _ td'])
        (simp add: plug_append)
  qed
qed

subsubsection \<open>Deleting a node in its context\<close>

text \<open>A node with at most one child: the loop of the code does not recurse.\<close>

lemma delete_simple:
  assumes h: "holds h (plug c (Node l x r))" and dist: "distinct (inorder (plug c (Node l x r)))" and one: "l = Leaf \<or> r = Leaf"
  shows "\<exists>h'. mp_heap_btree_delete (root_of (plug c (Node l x r))) h (ctx_parent c) x (ctx_dir c) = Some (root_of (plug c (del_root l r)), h')
    \<and> holds h' (plug c (del_root l r)) \<and> sizes h' = sizes h
    \<and> (\<forall>p. p \<notin> set_tree (plug c (Node l x r)) \<longrightarrow> h' p = h p)"
proof -
  define t where "t = del_root l r"
  have t: "t = (if l = Leaf then r else l)" using one by (auto simp: t_def del_root_def)
  have ctx: "ctx_holds h c (Node l x r)" "holds h (Node l x r)" using h by (auto simp: holds_plug)
  have ht: "holds h t" using ctx(2) by (auto simp: t)
  have x: "x \<notin> set_tree l" "x \<notin> set_tree r" "x \<notin> ctx_nodes c" using dist by (auto simp: distinct_plug [of c "Node l x r"])
  have dt: "distinct (inorder (plug c t))" using dist by (auto simp: distinct_plug [of c "Node l x r"] distinct_plug [of c l] distinct_plug [of c r] t)
  obtain h1 where h1: "btree_relink (root_of (plug c (Node l x r))) (ctx_parent c) (tail_of c t) (ctx_dir c) h = Some (root_of (plug c t), h1)"
      "holds h1 (plug c t)" "sizes h1 = sizes h" "\<And>p. p \<notin> ctx_nodes c \<Longrightarrow> h1 p = h p"
    using btree_relink_plug [OF ctx(1) ht dt] by blast
  have "(if MP_HH_LEFT h x \<noteq> x then Some (MP_HH_LEFT h x) else if MP_HH_RIGHT h x \<noteq> x then Some (MP_HH_RIGHT h x) else ctx_parent c) = tail_of c t"
    using links [OF ctx(2)] child_neq [OF x(1)] child_neq [OF x(2)] one by (cases l; cases r) (auto simp: t tail_of_def)
  moreover have "\<not> (MP_HH_LEFT h x \<noteq> x \<and> MP_HH_RIGHT h x \<noteq> x)"
    using links [OF ctx(2)] child_neq [OF x(1)] child_neq [OF x(2)] one by auto
  ultimately have "mp_heap_btree_delete (root_of (plug c (Node l x r))) h (ctx_parent c) x (ctx_dir c) = Some (root_of (plug c t), clear_links x h1)"
    using h1(1) by (subst mp_heap_btree_delete.simps) (simp only: if_False bind.bind_lunit split_conv)
  moreover have "holds (clear_links x h1) (plug c t) = holds h1 (plug c t)"
    by (rule holds_cong) (use x t in \<open>auto simp: same_links_def clear_links_def split: if_splits\<close>)
  moreover have "clear_links x h1 p = h p" if "p \<notin> set_tree (plug c (Node l x r))" for p
    using that h1(4) by (auto simp: clear_links_def)
  ultimately show ?thesis using h1(2,3) by (auto simp: t_def [symmetric])
qed

text \<open>A header takes the place of another one by copying its links.\<close>

lemma take_place:
  assumes h: "holds h (Node l x r)" and xy: "x \<noteq> y" "x \<notin> set_tree l" "x \<notin> set_tree r" "y \<notin> set_tree l" "y \<notin> set_tree r"
    and y: "y < MPHEAPMAXUNITS"
  shows "holds (MP_HH_COPY_RIGHT x y (MP_HH_COPY_LEFT x y h)) (Node l y r)"
proof -
  let ?h = "MP_HH_COPY_RIGHT x y (MP_HH_COPY_LEFT x y h)"
  have bounds: "child x l < MPHEAPMAXUNITS" "child x r < MPHEAPMAXUNITS"
    using h by (cases l; auto) (use h in \<open>cases r; auto\<close>)
  have "same_links h ?h p" if "p \<noteq> y" for p using that by (auto simp: same_links_def hh_defs)
  then have "holds ?h l = holds h l" "holds ?h r = holds h r" using xy by (metis holds_cong)+
  moreover have none: "hh_left (h x) = 0 \<longleftrightarrow> l = Leaf" "hh_right (h x) = 0 \<longleftrightarrow> r = Leaf"
    using h child_neq [OF xy(2)] child_neq [OF xy(3)] by auto
  have "hh_left (?h y) = int (child y l) - int y" "hh_right (?h y) = int (child y r) - int y"
    using h none bounds y xy(1) by (cases l; cases r; auto simp: hh_defs)+
  ultimately show ?thesis using h y by simp
qed

lemma delete_plug:
  assumes h: "holds h (plug c (Node l x r))" and dist: "distinct (inorder (plug c (Node l x r)))"
  shows "\<exists>h'. mp_heap_btree_delete (root_of (plug c (Node l x r))) h (ctx_parent c) x (ctx_dir c) = Some (root_of (plug c (del_root l r)), h')
    \<and> holds h' (plug c (del_root l r)) \<and> sizes h' = sizes h
    \<and> (\<forall>p. p \<notin> set_tree (plug c (Node l x r)) \<longrightarrow> h' p = h p)"
proof (cases "l = Leaf \<or> r = Leaf")
  case True
  then show ?thesis by (rule delete_simple [OF assms])
next
  case False
  have ctx: "ctx_holds h c (Node l x r)" "holds h (Node l x r)" using h by (auto simp: holds_plug)
  have dx: "distinct (inorder l)" "distinct (inorder r)" "x \<notin> set_tree l" "x \<notin> set_tree r" "set_tree l \<inter> set_tree r = {}"
      "set_tree (Node l x r) \<inter> ctx_nodes c = {}" "distinct (inorder (plug c Leaf))"
    using dist by (auto simp: distinct_plug [of c "Node l x r"])
  let ?c0 = "(MP_HH_R, x, l) # c"
  have plug0: "plug ?c0 u = plug c (Node l x u)" for u by simp
  obtain d y rr tp td where y: "r = plug d (Node Leaf y rr)" "split_min r = (y, plug d rr)"
      "btree_tail_loop h x (child x r) MP_HH_R = Some (tp, y, td)" "ctx_parent (d @ ?c0) = Some tp" "ctx_dir (d @ ?c0) = td"
    using btree_tail_loop_min [of h r ?c0 x MP_HH_R] ctx(2) dx(2) False by auto
  define r' where "r' = plug d rr"
  have whole: "plug (d @ ?c0) (Node Leaf y rr) = plug c (Node l x r)" "plug (d @ ?c0) (del_root Leaf rr) = plug c (Node l x r')"
    by (simp_all add: plug_append y(1) r'_def del_root_def)
  have mr: "mset (inorder r) = add_mset y (mset (inorder r'))" using split_min_inorder [OF _ y(2)] False by (simp add: r'_def)
  have "distinct (y # inorder r')" using mset_eq_imp_distinct_iff [of "inorder r" "y # inorder r'"] mr dx(2) by simp
  moreover have "set_tree r = insert y (set_tree r')" using arg_cong [OF mr, of set_mset] by simp
  ultimately have yr: "y \<notin> set_tree r'" "distinct (inorder r')" "set_tree r = insert y (set_tree r')" by simp_all
  obtain h1 where h1: "mp_heap_btree_delete (root_of (plug c (Node l x r))) h (Some tp) y td = Some (root_of (plug c (Node l x r')), h1)"
      "holds h1 (plug c (Node l x r'))" "sizes h1 = sizes h" "\<And>p. p \<notin> set_tree (plug c (Node l x r)) \<Longrightarrow> h1 p = h p"
    using delete_simple [of h "d @ ?c0" Leaf y rr] assms y(4,5) unfolding whole by auto
  define h2 where "h2 = MP_HH_COPY_RIGHT x y (MP_HH_COPY_LEFT x y h1)"
  have hx: "holds h1 (Node l x r')" "ctx_holds h1 c (Node l x r')" using h1(2) by (auto simp: holds_plug)
  have xy: "x \<noteq> y" "y \<notin> set_tree l" "y \<notin> ctx_nodes c" "x \<notin> set_tree r'" "y < MPHEAPMAXUNITS"
    using dx yr holds_bound [OF ctx(2), of y] by auto
  have "holds h2 (Node l y r')" unfolding h2_def by (rule take_place [OF hx(1) xy(1) dx(3) xy(4,2) yr(1) xy(5)])
  moreover have "ctx_holds h2 c (Node l x r') = ctx_holds h1 c (Node l x r')"
    by (rule ctx_holds_cong) (use xy(3) in \<open>auto simp: same_links_def h2_def hh_defs\<close>)
  ultimately have h2: "holds h2 (Node l y r')" "ctx_holds h2 c (Node l x r')" using hx(2) by simp_all
  have "distinct (inorder (plug c (Node l y r')))"
    using dx yr by (auto simp: distinct_plug [of c "Node l y r'"])
  then obtain h3 where h3: "btree_relink (root_of (plug c (Node l x r'))) (ctx_parent c) (tail_of c (Node l y r')) (ctx_dir c) h2 =
        Some (root_of (plug c (Node l y r')), h3)"
      "holds h3 (plug c (Node l y r'))" "sizes h3 = sizes h2" "\<And>p. p \<notin> ctx_nodes c \<Longrightarrow> h3 p = h2 p"
    using btree_relink_plug [OF h2(2,1)] by blast
  have two: "MP_HH_LEFT h x \<noteq> x \<and> MP_HH_RIGHT h x \<noteq> x" "MP_HH_RIGHT h x = child x r"
    using links [OF ctx(2)] child_neq [OF dx(3)] child_neq [OF dx(4)] False by auto
  have "mp_heap_btree_delete (root_of (plug c (Node l x r))) h (ctx_parent c) x (ctx_dir c) = Some (root_of (plug c (Node l y r')), clear_links x h3)"
    using h3(1) y(3) h1(1) two by (subst mp_heap_btree_delete.simps) (simp add: h2_def tail_of_def)
  moreover have "holds (clear_links x h3) (plug c (Node l y r')) = holds h3 (plug c (Node l y r'))"
    by (rule holds_cong) (use dx xy yr in \<open>auto simp: same_links_def clear_links_def\<close>)
  moreover have "del_root l r = Node l y r'" using False y(2) by (simp add: del_root_def r'_def)
  moreover have "clear_links x h3 p = h p" if "p \<notin> set_tree (plug c (Node l x r))" for p
    using that h3(4) h1(4) [OF that] yr(3) by (auto simp: clear_links_def h2_def hh_defs)
  ultimately show ?thesis using h3(2,3) h1(3) by (auto simp: h2_def)
qed

subsection \<open>Best fit\<close>

definition ordered :: "(nat \<Rightarrow> nat) \<Rightarrow> nat tree \<Rightarrow> bool" where
  "ordered sz t \<longleftrightarrow> sorted (map sz (inorder t))"

lemma ordered_Node: "ordered sz (Node l a r) \<longleftrightarrow>
    ordered sz l \<and> ordered sz r \<and> (\<forall>p \<in> set_tree l. sz p \<le> sz a) \<and> (\<forall>p \<in> set_tree r. sz a \<le> sz p)"
  by (fastforce simp: ordered_def sorted_append)

lemma ordered_ins: "ordered sz t \<Longrightarrow> ordered sz (ins sz x t)"
proof (induction t)
  case Leaf
  then show ?case by (simp add: ordered_def)
next
  case (Node l a r)
  then show ?case by (auto simp: ordered_Node ordered_def [of sz Leaf])
qed

lemma inorder_plug: "\<exists>xs ys. \<forall>t. inorder (plug c t) = xs @ inorder t @ ys"
proof (induction c)
  case Nil
  show ?case by (intro exI [of _ "[]"]) simp
next
  case (Cons k c)
  obtain d p u where k: "k = (d, p, u)" by (cases k)
  obtain xs ys where xy: "\<And>t. inorder (plug c t) = xs @ inorder t @ ys" using Cons by auto
  show ?case
  proof (cases "d = MP_HH_L")
    case True
    then show ?thesis by (intro exI [of _ xs] exI [of _ "p # inorder u @ ys"]) (simp add: k xy)
  next
    case False
    then show ?thesis by (intro exI [of _ "xs @ inorder u @ [p]"] exI [of _ ys]) (simp add: k xy)
  qed
qed

lemma ordered_del: "ordered sz (plug c (Node l x r)) \<Longrightarrow> ordered sz (plug c (del_root l r))"
  using inorder_plug [of c] by (auto simp: ordered_def del_root_inorder sorted_append)

text \<open>The best header so far, with the context where it was found.\<close>

definition candidate :: "nat tree \<Rightarrow> hstore \<Rightarrow> nat \<Rightarrow> nat \<times> nat option \<times> int \<times> mp_dir \<Rightarrow> bool" where
  "candidate whole h units best \<longleftrightarrow> (case best of (b, bp, bd, bdir) \<Rightarrow>
     (\<exists>c l r. whole = plug c (Node l b r) \<and> bp = ctx_parent c \<and> bdir = ctx_dir c) \<and> bd = int (sizes h b) - int units)"

definition diff_of :: "nat \<times> nat option \<times> int \<times> mp_dir \<Rightarrow> int" where
  "diff_of best = fst (snd (snd best))"

lemma btree_find_loop_best:
  assumes "holds h t" and "distinct (inorder t)" and "ordered (sizes h) t" and "t \<noteq> Leaf"
    and "whole = plug c t" and "candidate whole h units best"
  shows "\<exists>best'. btree_find_loop h units (child 0 t) (ctx_parent c) (ctx_dir c) best = Some best' \<and> candidate whole h units best'
    \<and> (\<forall>p \<in> set_tree t. units \<le> sizes h p \<longrightarrow> 0 \<le> diff_of best' \<and> diff_of best' \<le> int (sizes h p) - int units)
    \<and> (0 \<le> diff_of best \<longrightarrow> 0 \<le> diff_of best' \<and> diff_of best' \<le> diff_of best)"
  using assms
proof (induction t arbitrary: c best)
  case Leaf
  then show ?case by simp
next
  case (Node l a r)
  define diff where "diff = int (sizes h a) - int units"
  define better where "better \<longleftrightarrow> diff \<ge> 0 \<and> (diff \<le> diff_of best \<or> diff_of best < 0)"
  define best1 where "best1 = (if better then (a, ctx_parent c, diff, ctx_dir c) else best)"
  have kids: "MP_HH_LEFT h a = child a l" "MP_HH_RIGHT h a = child a r" using links [OF Node.prems(1)] by auto
  have leaf: "child a l = a \<longleftrightarrow> l = Leaf" "child a r = a \<longleftrightarrow> r = Leaf" using Node.prems(2) by (auto simp: child_neq)
  have unf: "btree_find_loop h units a (ctx_parent c) (ctx_dir c) best =
      (if better \<and> diff = 0 then Some best1
       else if l \<noteq> Leaf \<and> diff > 0 then btree_find_loop h units (child a l) (Some a) MP_HH_L best1
       else if r \<noteq> Leaf \<and> diff < 0 then btree_find_loop h units (child a r) (Some a) MP_HH_R best1
       else Some best1)"
    by (simp only: btree_find_loop.simps [of h units a] kids leaf Let_def better_def best1_def diff_def diff_of_def sizes_def conj_assoc)
  have "candidate whole h units (a, ctx_parent c, diff, ctx_dir c)"
    using Node.prems(5) by (auto simp: candidate_def diff_def)
  then have cand: "candidate whole h units best1" using Node.prems(6) by (simp add: best1_def)
  have le: "0 \<le> diff \<Longrightarrow> 0 \<le> diff_of best1 \<and> diff_of best1 \<le> diff" "0 \<le> diff_of best \<Longrightarrow> 0 \<le> diff_of best1 \<and> diff_of best1 \<le> diff_of best"
    by (auto simp: best1_def better_def diff_of_def)
  have ord: "\<And>p. p \<in> set_tree l \<Longrightarrow> sizes h p \<le> sizes h a" "\<And>p. p \<in> set_tree r \<Longrightarrow> sizes h a \<le> sizes h p"
    "ordered (sizes h) l" "ordered (sizes h) r"
    using Node.prems(3) by (auto simp: ordered_Node)
  have a: "child 0 (Node l a r) = a" by simp
  have stop: ?case if run: "btree_find_loop h units a (ctx_parent c) (ctx_dir c) best = Some best1"
    and left: "\<And>p. p \<in> set_tree l \<Longrightarrow> units \<le> sizes h p \<Longrightarrow> diff \<le> int (sizes h p) - int units \<and> 0 \<le> diff"
    and right: "\<And>p. p \<in> set_tree r \<Longrightarrow> units \<le> sizes h p \<Longrightarrow> diff \<le> int (sizes h p) - int units \<and> 0 \<le> diff"
  proof -
    have "0 \<le> diff_of best1 \<and> diff_of best1 \<le> int (sizes h p) - int units" if p: "p \<in> set_tree (Node l a r)" "units \<le> sizes h p" for p
    proof -
      have "diff \<le> int (sizes h p) - int units \<and> 0 \<le> diff"
        using p left right by (cases "p = a") (auto simp: diff_def)
      then show ?thesis using le(1) by linarith
    qed
    then show ?thesis using run cand le(2) unfolding a by blast
  qed
  consider "diff = 0" | "diff > 0" "l = Leaf" | "diff > 0" "l \<noteq> Leaf" | "diff < 0" "r = Leaf" | "diff < 0" "r \<noteq> Leaf" by linarith
  then show ?case
  proof cases
    case 1
    then have "better" by (auto simp: better_def)
    then show ?thesis using stop unf 1 by (auto simp: diff_def)
  next
    case 2
    then show ?thesis using stop unf ord(2) by (force simp: diff_def)
  next
    case 3
    have eq: "child a l = child 0 l" using 3(2) by (cases l) auto
    obtain best' where b: "btree_find_loop h units (child 0 l) (Some a) MP_HH_L best1 = Some best'" "candidate whole h units best'"
        "\<And>p. p \<in> set_tree l \<Longrightarrow> units \<le> sizes h p \<Longrightarrow> 0 \<le> diff_of best' \<and> diff_of best' \<le> int (sizes h p) - int units"
        "0 \<le> diff_of best1 \<Longrightarrow> 0 \<le> diff_of best' \<and> diff_of best' \<le> diff_of best1"
      using Node.IH(1) [of "(MP_HH_L, a, r) # c" best1] Node.prems ord(3) 3(2) cand by auto
    have d: "0 \<le> diff_of best'" "diff_of best' \<le> diff" using b(4) le(1) 3(1) by auto
    have "0 \<le> diff_of best' \<and> diff_of best' \<le> int (sizes h p) - int units" if "p \<in> set_tree (Node l a r)" "units \<le> sizes h p" for p
      using that b(3) [of p] ord(2) [of p] d by (auto simp: diff_def)
    moreover have "btree_find_loop h units a (ctx_parent c) (ctx_dir c) best = Some best'" using unf 3 b(1) eq by simp
    ultimately show ?thesis using b(2,4) le(2) unfolding a by (intro exI [of _ best']) auto
  next
    case 4
    then show ?thesis using stop unf ord(1) by (force simp: diff_def)
  next
    case 5
    have eq: "child a r = child 0 r" using 5(2) by (cases r) auto
    obtain best' where b: "btree_find_loop h units (child 0 r) (Some a) MP_HH_R best1 = Some best'" "candidate whole h units best'"
        "\<And>p. p \<in> set_tree r \<Longrightarrow> units \<le> sizes h p \<Longrightarrow> 0 \<le> diff_of best' \<and> diff_of best' \<le> int (sizes h p) - int units"
        "0 \<le> diff_of best1 \<Longrightarrow> 0 \<le> diff_of best' \<and> diff_of best' \<le> diff_of best1"
      using Node.IH(2) [of "(MP_HH_R, a, l) # c" best1] Node.prems ord(4) 5(2) cand by auto
    have "0 \<le> diff_of best' \<and> diff_of best' \<le> int (sizes h p) - int units" if "p \<in> set_tree (Node l a r)" "units \<le> sizes h p" for p
      using that b(3) [of p] ord(1) [of p] 5(1) by (auto simp: diff_def)
    moreover have "btree_find_loop h units a (ctx_parent c) (ctx_dir c) best = Some best'" using unf 5 b(1) eq by simp
    ultimately show ?thesis using b(2,4) le(2) unfolding a by (intro exI [of _ best']) auto
  qed
qed

lemma find_delete_best:
  assumes rep: "tree_rep h root t" and ord: "ordered (sizes h) t" and ne: "t \<noteq> Leaf"
  shows "(\<forall>p \<in> set_tree t. sizes h p < units) \<and> mp_heap_btree_find_delete root units h = Some (None, root, h) \<or>
    (\<exists>x root' h' t'. mp_heap_btree_find_delete root units h = Some (Some x, root', h')
      \<and> x \<in> set_tree t \<and> units \<le> sizes h x \<and> (\<forall>p \<in> set_tree t. units \<le> sizes h p \<longrightarrow> sizes h x \<le> sizes h p)
      \<and> tree_rep h' root' t' \<and> ordered (sizes h) t' \<and> mset (inorder t) = add_mset x (mset (inorder t'))
      \<and> sizes h' = sizes h \<and> (\<forall>p. p \<notin> set_tree t \<longrightarrow> h' p = h p))"
proof -
  have t: "holds h t" "distinct (inorder t)" "root = Some (child 0 t)"
    using rep ne by (auto simp: tree_rep_def root_of_def split: tree.splits)
  let ?b0 = "(child 0 t, None, int (sizes h (child 0 t)) - int units, MP_HH_N)"
  have "candidate t h units ?b0" using ne
    by (cases t) (auto simp: candidate_def intro!: exI [of _ "[]"])
  then obtain b bp bd bdir where b: "btree_find_loop h units (child 0 t) None MP_HH_N ?b0 = Some (b, bp, bd, bdir)"
      "candidate t h units (b, bp, bd, bdir)"
      "\<And>p. p \<in> set_tree t \<Longrightarrow> units \<le> sizes h p \<Longrightarrow> 0 \<le> bd \<and> bd \<le> int (sizes h p) - int units"
    using btree_find_loop_best [OF t(1,2) ord ne, of t "[]" units ?b0] by (fastforce simp: diff_of_def)
  obtain c l r where c: "t = plug c (Node l b r)" "bp = ctx_parent c" "bdir = ctx_dir c" "bd = int (sizes h b) - int units"
    using b(2) by (auto simp: candidate_def)
  have run: "mp_heap_btree_find_delete root units h =
      (if bd < 0 then Some (None, root, h)
       else do { (root1, h1) \<leftarrow> mp_heap_btree_delete root h bp b bdir; Some (Some b, root1, h1) })"
    using b(1) by (simp add: mp_heap_btree_find_delete_def t(3) sizes_def)
  show ?thesis
  proof (cases "bd < 0")
    case True
    then show ?thesis using run b(3) by force
  next
    case False
    let ?t = "plug c (del_root l r)"
    have root: "root = root_of t" using rep by (simp add: tree_rep_def)
    obtain h' where h': "mp_heap_btree_delete root h bp b bdir = Some (root_of ?t, h')" "holds h' ?t" "sizes h' = sizes h"
        "\<And>p. p \<notin> set_tree t \<Longrightarrow> h' p = h p"
      using delete_plug [of h c l b r] t(1,2) unfolding root c by blast
    have m: "mset (inorder t) = add_mset b (mset (inorder ?t))"
      using mset_plug [of c "Node l b r"] mset_plug [of c "del_root l r"] by (simp add: c(1) del_root_inorder)
    then have "mset (inorder t) = mset (b # inorder ?t)" by simp
    then have "distinct (inorder ?t)" using t(2) mset_eq_imp_distinct_iff by fastforce
    moreover have "ordered (sizes h) ?t" using ord ordered_del c(1) by blast
    moreover have "b \<in> set_tree t" using c(1) by simp
    moreover have "units \<le> sizes h b" "\<forall>p \<in> set_tree t. units \<le> sizes h p \<longrightarrow> sizes h b \<le> sizes h p" using False b(3) c(4) by force+
    ultimately show ?thesis using run False h' m by (auto simp: tree_rep_def)
  qed
qed

definition free_tree :: "hstore \<Rightarrow> nat option \<Rightarrow> nat tree \<Rightarrow> bool" where
  "free_tree h root t \<longleftrightarrow> tree_rep h root t \<and> ordered (sizes h) t"

definition links_within :: "nat set \<Rightarrow> hstore \<Rightarrow> hstore \<Rightarrow> bool" where
  "links_within A h h' \<longleftrightarrow> sizes h' = sizes h \<and> (\<forall>p. p \<notin> A \<longrightarrow> h' p = h p)"

lemma btree_insert_spec:
  assumes "free_tree h root t" and "x \<notin> set_tree t" and "x < MPHEAPMAXUNITS"
  shows "\<exists>root' h' t'. mp_heap_btree_insert root x h = Some (root', h') \<and> free_tree h' root' t'
    \<and> mset (inorder t') = add_mset x (mset (inorder t)) \<and> links_within (insert x (set_tree t)) h h'"
proof -
  obtain root' h' where "mp_heap_btree_insert root x h = Some (root', h')" "tree_rep h' root' (ins (sizes h) x t)"
      "sizes h' = sizes h" "\<And>p. p \<notin> set_tree t \<Longrightarrow> p \<noteq> x \<Longrightarrow> h' p = h p"
    using mp_heap_btree_insert_ins [of h root t x] assms by (auto simp: free_tree_def)
  then show ?thesis using ordered_ins [of "sizes h" t x] mset_ins [of "sizes h" x t] assms(1)
    by (intro exI [of _ root'] exI [of _ h'] exI [of _ "ins (sizes h) x t"]) (auto simp: free_tree_def links_within_def)
qed

definition best_fit :: "(nat \<Rightarrow> nat) \<Rightarrow> nat \<Rightarrow> nat set \<Rightarrow> nat option \<Rightarrow> bool" where
  "best_fit sz units A res \<longleftrightarrow> (case res of
     None \<Rightarrow> \<forall>p \<in> A. sz p < units
   | Some x \<Rightarrow> x \<in> A \<and> units \<le> sz x \<and> (\<forall>p \<in> A. units \<le> sz p \<longrightarrow> sz x \<le> sz p))"

lemma btree_find_delete_spec:
  assumes "free_tree h root t" and "t \<noteq> Leaf"
  shows "\<exists>res root' h' t'. mp_heap_btree_find_delete root units h = Some (res, root', h') \<and> free_tree h' root' t'
    \<and> best_fit (sizes h) units (set_tree t) res
    \<and> mset (inorder t) = mset (case res of None \<Rightarrow> [] | Some x \<Rightarrow> [x]) + mset (inorder t') \<and> links_within (set_tree t) h h'"
proof -
  have t: "tree_rep h root t" "ordered (sizes h) t" using assms(1) by (auto simp: free_tree_def)
  show ?thesis using find_delete_best [OF t assms(2), of units]
  proof (elim disjE exE conjE)
    assume "\<forall>p \<in> set_tree t. sizes h p < units" "mp_heap_btree_find_delete root units h = Some (None, root, h)"
    then show ?thesis using assms(1)
      by (intro exI [of _ None] exI [of _ root] exI [of _ h] exI [of _ t]) (simp add: best_fit_def links_within_def)
  next
    fix x root' h' t'
    assume "mp_heap_btree_find_delete root units h = Some (Some x, root', h')" "x \<in> set_tree t" "units \<le> sizes h x"
      "\<forall>p \<in> set_tree t. units \<le> sizes h p \<longrightarrow> sizes h x \<le> sizes h p" "tree_rep h' root' t'" "ordered (sizes h) t'"
      "mset (inorder t) = add_mset x (mset (inorder t'))" "sizes h' = sizes h" "\<forall>p. p \<notin> set_tree t \<longrightarrow> h' p = h p"
    then show ?thesis
      by (intro exI [of _ "Some x"] exI [of _ root'] exI [of _ h'] exI [of _ t']) (simp add: best_fit_def links_within_def free_tree_def)
  qed
qed

text \<open>
  C14. The tree of free fragments, on any store of headers that holds a tree ordered by size: the insertion
  always ends and adds the fragment; the search with deletion always ends, fails only if no fragment is large enough, and
  otherwise takes out a fragment of the smallest sufficient size. Both keep the tree ordered, the sizes
  of all headers and everything outside of the tree.
\<close>

theorem mp_heap_btree_best_fit:
  assumes "free_tree h root t"
  shows "(x \<notin> set_tree t \<and> x < MPHEAPMAXUNITS \<longrightarrow>
      (\<exists>root' h' t'. mp_heap_btree_insert root x h = Some (root', h') \<and> free_tree h' root' t'
        \<and> mset (inorder t') = add_mset x (mset (inorder t)) \<and> links_within (insert x (set_tree t)) h h'))
    \<and> (t \<noteq> Leaf \<longrightarrow>
      (\<exists>res root' h' t'. mp_heap_btree_find_delete root units h = Some (res, root', h') \<and> free_tree h' root' t'
        \<and> best_fit (sizes h) units (set_tree t) res
        \<and> mset (inorder t) = mset (case res of None \<Rightarrow> [] | Some y \<Rightarrow> [y]) + mset (inorder t') \<and> links_within (set_tree t) h h'))"
  using btree_insert_spec [OF assms] btree_find_delete_spec [OF assms] by blast

definition tree_demo :: hstore where
  "tree_demo = (\<lambda>p. if p = 20 then \<lparr>hh_size = 8, hh_left = 20, hh_right = 40\<rparr>
     else if p = 40 then \<lparr>hh_size = 5, hh_left = 0, hh_right = 0\<rparr>
     else if p = 60 then \<lparr>hh_size = 9, hh_left = 0, hh_right = 0\<rparr>
     else \<lparr>hh_size = 7, hh_left = 1, hh_right = 1\<rparr>)"

theorem mp_heap_btree_best_fit_witness:
  "\<exists>root' h' t' res root'' h'' t''.
      mp_heap_btree_insert (Some 20) 80 tree_demo = Some (root', h') \<and> free_tree h' root' t' \<and> mset (inorder t') = {#20, 40, 60, 80#}
    \<and> mp_heap_btree_find_delete (Some 20) 6 tree_demo = Some (res, root'', h'') \<and> free_tree h'' root'' t'' \<and> res = Some 20"
proof -
  let ?t = "Node (Node Leaf 40 Leaf) 20 (Node Leaf 60 Leaf)"
  have rep: "free_tree tree_demo (Some 20) ?t"
    by (simp add: free_tree_def tree_rep_def root_of_def tree_demo_def MPHEAPMAXUNITS_def ordered_def sizes_def)
  obtain root' h' t' where ins: "mp_heap_btree_insert (Some 20) 80 tree_demo = Some (root', h')" "free_tree h' root' t'"
      "mset (inorder t') = add_mset 80 (mset (inorder ?t))"
    using mp_heap_btree_best_fit [OF rep, of 80 6] by (auto simp: MPHEAPMAXUNITS_def)
  obtain res root'' h'' t'' where del: "mp_heap_btree_find_delete (Some 20) 6 tree_demo = Some (res, root'', h'')" "free_tree h'' root'' t''"
      "best_fit (sizes tree_demo) 6 (set_tree ?t) res"
    using mp_heap_btree_best_fit [OF rep, of 80 6] by auto
  have "res = Some 20" using del(3) by (auto simp: best_fit_def sizes_def tree_demo_def split: option.splits if_splits)
  then show ?thesis using ins del by (auto simp: ac_simps)
qed

end
