(* ===== verification/MpBitmap.thy ===== *)
theory MpBitmap
  imports TsPrelude
begin

text \<open>
  The bitmaps of the memory pool (\<open>libtscommon/mempool.c\<close>): cells of 32 bits in a \<open>long\<close>, the search for
  free bits, allocation inside of a cell and over several cells, and the page-fragment
  allocator on top of them. A cell is also modelled as a shared object: an allocation takes it by an
  exchange and gives it back by an atomic conjunction, with frees of other threads in between.
\<close>

section \<open>Searching a cell\<close>

definition MP_BITMAP_BITS :: nat where "MP_BITMAP_BITS = 32"
definition MP_BITMAP_BUSY :: "64 word" where "MP_BITMAP_BUSY = 0xFFFFFFFF"
definition MPMAXRETRIES :: nat where "MPMAXRETRIES = 3"

text \<open>The mask is computed with \<open>int\<close> and widened to \<open>long\<close> with its sign.\<close>

definition MPREGMASK :: "nat \<Rightarrow> nat \<Rightarrow> 64 word" where
  "MPREGMASK num bidx = scast (push_bit bidx (push_bit num 1 - 1) :: 32 word)"

definition mp_bitmap_bitcount :: "64 word \<Rightarrow> nat" where
  "mp_bitmap_bitcount u =
     (let cnt = u - (drop_bit 1 u AND 0xDB6DB6DB) - (drop_bit 2 u AND 0x49249249)
      in unat (((cnt + drop_bit 3 cnt) AND 0xC71C71C7) mod 63))"

definition mp_bitmap_find_one :: "64 word \<Rightarrow> nat" where
  "mp_bitmap_find_one u = (let v = NOT u in mp_bitmap_bitcount ((v AND - v) - 1))"

function mp_find_region_loop :: "64 word \<Rightarrow> nat \<Rightarrow> nat \<Rightarrow> int" where
  "mp_find_region_loop u num i =
     (if i < MP_BITMAP_BITS - num then
        let bidx = mp_bitmap_find_one u in
        if u AND MPREGMASK num bidx = 0 then int bidx else mp_find_region_loop u num (i + bidx + 1)
      else - 1)"
  by pat_completeness auto
termination by (relation "measure (\<lambda>(u, num, i). MP_BITMAP_BITS - i)") (auto simp: MP_BITMAP_BITS_def)

declare mp_find_region_loop.simps [simp del]

definition mp_bitmap_find_region :: "64 word \<Rightarrow> nat \<Rightarrow> int" where
  "mp_bitmap_find_region u num = mp_find_region_loop u num 0"

section \<open>Allocation in a cell\<close>

text \<open>
  \<open>cell_take bval num max_items\<close> is the part of \<open>mp_bitmap_cell_alloc\<close> between the two atomic operations,
  for a value \<open>bval\<close> that is not busy: the index and the value that is put back.
\<close>

definition cell_take :: "64 word \<Rightarrow> nat \<Rightarrow> nat \<Rightarrow> int \<times> 64 word" where
  "cell_take bval num max_items =
     (let (bidx, mask) =
            (if num = 1 then let b = mp_bitmap_find_one bval in (int b, MPREGMASK 1 b)
             else if num = MP_BITMAP_BITS then (if bval = 0 then 0 else - 1, MP_BITMAP_BUSY)
             else let b = mp_bitmap_find_region bval num in (b, MPREGMASK num (nat b)));
          bidx1 = (if bidx + int num > int max_items then - 1 else bidx)
      in if bidx1 \<noteq> - 1 then (bidx1, bval OR mask) else (- 1, bval))"

definition mp_bitmap_cell_alloc :: "64 word \<Rightarrow> nat \<Rightarrow> nat \<Rightarrow> int \<times> 64 word" where
  "mp_bitmap_cell_alloc cell num max_items =
     (if cell \<noteq> MP_BITMAP_BUSY
      then let (bidx, bval) = cell_take cell num max_items in (bidx, MP_BITMAP_BUSY AND bval)
      else (- 1, MP_BITMAP_BUSY))"

section \<open>Lowest free bit\<close>

lemma lowest_bit:
  fixes w :: "'a :: len word"
  assumes "bit w k" and "\<And>i. i < k \<Longrightarrow> \<not> bit w i"
  shows "w AND - w = push_bit k 1"
proof -
  have k: "k < LENGTH('a)" using assms(1) by (rule bit_imp_le_length)
  define m where "m = push_bit (Suc k) (drop_bit (Suc k) w)"
  have m: "bit m i \<longleftrightarrow> k < i \<and> bit w i" for i by (auto simp: m_def bit_simps simp del: push_bit_Suc dest: bit_imp_le_length)
  have "w = m OR push_bit k 1"
    by (rule bit_word_eqI) (use assms m in \<open>auto simp: bit_simps not_less le_less linorder_neq_iff\<close>)
  also have "\<dots> = m + push_bit k 1" by (rule disjunctive_add [symmetric]) (auto simp: m bit_simps)
  finally have w: "w = m + push_bit k 1" .
  have "push_bit k 1 - 1 = (mask k :: 'a word)" by (simp add: mask_eq_decr_exp push_bit_eq_mult)
  then have "w - 1 = m + mask k" unfolding w by (simp add: add_diff_eq [symmetric])
  also have "\<dots> = m OR mask k" by (rule disjunctive_add) (auto simp: m bit_simps)
  finally have "bit (w - 1) i \<longleftrightarrow> i < LENGTH('a) \<and> (i < k \<or> k < i \<and> bit w i)" if "i < LENGTH('a)" for i
    using that by (auto simp: m bit_simps)
  then have "bit (w AND - w) i \<longleftrightarrow> i = k" if "i < LENGTH('a)" for i
    using that assms by (auto simp: minus_eq_not_minus_1 bit_simps)
  then show ?thesis by (intro bit_word_eqI) (auto simp: bit_simps)
qed

lemma bitcount_mask: "k \<le> 32 \<Longrightarrow> mp_bitmap_bitcount (push_bit k 1 - 1) = k"
proof -
  have "\<forall>k \<in> set [0..<33]. mp_bitmap_bitcount (push_bit k 1 - 1) = k"
    unfolding mp_bitmap_bitcount_def Let_def by (simp add: upt_rec)
  then show "k \<le> 32 \<Longrightarrow> mp_bitmap_bitcount (push_bit k 1 - 1) = k" by auto
qed

text \<open>\<open>mp_bitmap_find_one\<close> is the position of the lowest bit that is not set.\<close>

lemma find_one_lowest:
  assumes "\<not> bit u k" and "\<And>i. i < k \<Longrightarrow> bit u i" and "k \<le> 32"
  shows "mp_bitmap_find_one u = k"
proof -
  have "NOT u AND - (NOT u) = push_bit k 1" using assms by (intro lowest_bit) (auto simp: bit_simps)
  then show ?thesis using bitcount_mask [OF assms(3)] by (simp add: mp_bitmap_find_one_def Let_def)
qed

section \<open>Cells as sets of used items\<close>

definition used :: "64 word \<Rightarrow> nat set" where
  "used c = {i. i < 32 \<and> bit c i}"

definition region :: "int \<Rightarrow> nat \<Rightarrow> nat set" where
  "region b num = {nat b..<nat b + num}"

text \<open>A cell at rest has no bits above the lowest 32.\<close>

definition cell_ok :: "64 word \<Rightarrow> bool" where
  "cell_ok c \<longleftrightarrow> (\<forall>i. bit c i \<longrightarrow> i < 32)"

lemma bit_busy: "bit MP_BITMAP_BUSY i \<longleftrightarrow> i < 32"
proof -
  have busy: "MP_BITMAP_BUSY = mask 32" by (simp add: MP_BITMAP_BUSY_def mask_eq_exp_minus_1)
  show ?thesis unfolding busy by (auto simp: bit_simps)
qed

lemma used_busy [simp]: "used MP_BITMAP_BUSY = {..<32}"
  by (auto simp: used_def bit_busy)

lemma used_ops [simp]:
  "used (a AND b) = used a \<inter> used b" "used (a OR b) = used a \<union> used b" "used 0 = {}" "used (NOT a) = {..<32} - used a"
  by (auto simp: used_def bit_simps)

lemma cell_ok_busy [simp]: "cell_ok MP_BITMAP_BUSY" "cell_ok (MP_BITMAP_BUSY AND c)" "cell_ok 0" "cell_ok c \<Longrightarrow> cell_ok (c AND d)"
  by (auto simp: cell_ok_def bit_busy bit_simps)

lemma cell_ok_eq: "cell_ok a \<Longrightarrow> cell_ok b \<Longrightarrow> used a = used b \<Longrightarrow> a = b"
  by (rule bit_word_eqI) (auto simp: cell_ok_def used_def set_eq_iff)

lemma used_regmask:
  assumes "bidx + num \<le> 32"
  shows "used (MPREGMASK num bidx) = {bidx..<bidx + num}"
proof -
  have "push_bit num 1 - 1 = (mask num :: 32 word)" by (simp add: mask_eq_decr_exp push_bit_eq_mult)
  then show ?thesis using assms by (auto simp: used_def MPREGMASK_def bit_simps)
qed

lemma free_bit:
  assumes "cell_ok c" and "c \<noteq> MP_BITMAP_BUSY"
  obtains "mp_bitmap_find_one c < 32" and "mp_bitmap_find_one c \<notin> used c" and "{..<mp_bitmap_find_one c} \<subseteq> used c"
proof -
  have "\<exists>k. k < 32 \<and> \<not> bit c k"
    using assms cell_ok_eq [of c MP_BITMAP_BUSY] by (auto simp: used_def set_eq_iff bit_busy)
  then obtain k where k: "k < 32 \<and> \<not> bit c k" "\<And>i. i < k \<Longrightarrow> \<not> (i < 32 \<and> \<not> bit c i)"
    using exists_least_iff [of "\<lambda>k. k < 32 \<and> \<not> bit c k"] by auto
  then have b: "\<And>i. i < k \<Longrightarrow> bit c i" by auto
  then have f: "mp_bitmap_find_one c = k" using k by (intro find_one_lowest) auto
  show ?thesis by (rule that; unfold f) (use k(1) b in \<open>auto simp: used_def\<close>)
qed

lemma find_region_first:
  assumes "num < 32"
  shows "mp_bitmap_find_region u num =
    (if u AND MPREGMASK num (mp_bitmap_find_one u) = 0 then int (mp_bitmap_find_one u) else - 1)"
proof -
  have "mp_find_region_loop u num i = - 1" if "u AND MPREGMASK num (mp_bitmap_find_one u) \<noteq> 0" for i
    using that by (induction u num i rule: mp_find_region_loop.induct) (subst mp_find_region_loop.simps, simp add: Let_def)
  then show ?thesis using assms
    by (auto simp: mp_bitmap_find_region_def mp_find_region_loop.simps [of u num 0] Let_def MP_BITMAP_BITS_def)
qed

text \<open>
  Taking items from a value: either it stays as it was, or a region that was free is used
  afterwards and nothing else changed.
\<close>

lemma cell_take_region:
  assumes "cell_ok c" and "c \<noteq> MP_BITMAP_BUSY" and "0 < num" and "num \<le> 32" and "max_items \<le> 32" and "cell_take c num max_items = (b, c')"
  shows "b = - 1 \<and> c' = c \<or>
    0 \<le> b \<and> nat b + num \<le> max_items \<and> region b num \<inter> used c = {} \<and> used c' = used c \<union> region b num"
proof -
  obtain k where k: "mp_bitmap_find_one c = k" "k < 32" "k \<notin> used c" using free_bit [OF assms(1,2)] by blast
  consider "num = 1" | "num = 32" | "num \<noteq> 1" "num < 32" using assms(4) by linarith
  then show ?thesis
  proof cases
    case 1
    then show ?thesis using assms(5,6) k used_regmask [of k 1]
      by (auto simp: cell_take_def Let_def region_def split: if_splits)
  next
    case 2
    then show ?thesis using assms(5,6) by (auto simp: cell_take_def Let_def region_def MP_BITMAP_BITS_def split: if_splits)
  next
    case 3
    show ?thesis
    proof (cases "c AND MPREGMASK num k = 0 \<and> k + num \<le> max_items")
      case True
      then have r: "used (MPREGMASK num k) = {k..<k + num}" using assms(5) by (intro used_regmask) simp
      have "used (c AND MPREGMASK num k) = {}" using True by simp
      then have "used c \<inter> {k..<k + num} = {}" using r by simp
      moreover have "mp_bitmap_find_region c num = int k" using True k(1) by (simp add: find_region_first [OF 3(2)])
      then have "b = int k" "c' = c OR MPREGMASK num k" using True 3 assms(6)
        by (simp_all add: cell_take_def MP_BITMAP_BITS_def)
      ultimately show ?thesis using True r by (auto simp: region_def)
    next
      case False
      then have "b = - 1 \<and> c' = c" using 3 assms(6) k(1) find_region_first [OF 3(2), of c]
        by (auto simp: cell_take_def Let_def MP_BITMAP_BITS_def split: if_splits)
      then show ?thesis ..
    qed
  qed
qed

section \<open>Threads sharing a cell\<close>

text \<open>
  An allocation is not one atomic operation. It exchanges the cell with \<open>MP_BITMAP_BUSY\<close>, chooses a region of the
  value it got, and puts the rest back by an atomic conjunction; other threads may allocate and
  free between the two. \<open>cs_local\<close> holds the threads between the two operations, with the value they took and
  the number of items they want; \<open>cs_live\<close> the allocations that are not freed yet.
\<close>

record cell_sys =
  cs_cell :: "64 word"
  cs_local :: "nat \<Rightarrow> (64 word \<times> nat) option"
  cs_live :: "(int \<times> nat) set"

definition cell_init :: cell_sys where
  "cell_init = \<lparr>cs_cell = 0, cs_local = (\<lambda>_. None), cs_live = {}\<rparr>"

definition cell_exchange :: "nat \<Rightarrow> nat \<Rightarrow> cell_sys \<Rightarrow> cell_sys" where
  "cell_exchange t num s =
     s\<lparr>cs_cell := MP_BITMAP_BUSY,
       cs_local := (cs_local s)(t := if cs_cell s \<noteq> MP_BITMAP_BUSY then Some (cs_cell s, num) else None)\<rparr>"

definition cell_commit :: "nat \<Rightarrow> nat \<Rightarrow> cell_sys \<Rightarrow> cell_sys" where
  "cell_commit max_items t s =
     (case cs_local s t of
        None \<Rightarrow> s
      | Some (bval, num) \<Rightarrow>
          (let (bidx, bval') = cell_take bval num max_items in
           s\<lparr>cs_cell := cs_cell s AND bval', cs_local := (cs_local s)(t := None),
             cs_live := (if bidx \<noteq> - 1 then insert (bidx, num) (cs_live s) else cs_live s)\<rparr>))"

definition cell_free :: "int \<Rightarrow> nat \<Rightarrow> cell_sys \<Rightarrow> cell_sys" where
  "cell_free b num s =
     s\<lparr>cs_cell := cs_cell s AND NOT (MPREGMASK num (nat b)), cs_live := cs_live s - {(b, num)}\<rparr>"

definition cell_free_all :: "cell_sys \<Rightarrow> cell_sys" where
  "cell_free_all s = s\<lparr>cs_cell := 0, cs_live := cs_live s - {(0, MP_BITMAP_BITS)}\<rparr>"

inductive cell_step :: "nat \<Rightarrow> cell_sys \<Rightarrow> cell_sys \<Rightarrow> bool" for max_items where
  exchange: "cs_local s t = None \<Longrightarrow> 0 < num \<Longrightarrow> num \<le> 32 \<Longrightarrow> cell_step max_items s (cell_exchange t num s)"
| commit: "cs_local s t \<noteq> None \<Longrightarrow> cell_step max_items s (cell_commit max_items t s)"
| release: "(b, num) \<in> cs_live s \<Longrightarrow> num < 32 \<Longrightarrow> cell_step max_items s (cell_free b num s)"
| release_all: "(0, MP_BITMAP_BITS) \<in> cs_live s \<Longrightarrow> cell_step max_items s (cell_free_all s)"

text \<open>An allocation that is not interrupted is the sequential \<open>mp_bitmap_cell_alloc\<close>.\<close>

lemma commit_exchange:
  assumes "cs_local s t = None" and "mp_bitmap_cell_alloc (cs_cell s) num max_items = (b, c')"
  shows "cell_commit max_items t (cell_exchange t num s) =
    s\<lparr>cs_cell := c', cs_live := (if b \<noteq> - 1 then insert (b, num) (cs_live s) else cs_live s)\<rparr>"
  using assms
  by (auto simp: cell_commit_def cell_exchange_def mp_bitmap_cell_alloc_def fun_upd_idem split: prod.splits if_splits)

subsection \<open>Every item has one owner\<close>

datatype owner = InCell | InThread nat | InLive int nat

fun owns :: "cell_sys \<Rightarrow> owner \<Rightarrow> nat \<Rightarrow> bool" where
  "owns s InCell i \<longleftrightarrow> i \<notin> used (cs_cell s)"
| "owns s (InThread t) i \<longleftrightarrow> (\<exists>bval num. cs_local s t = Some (bval, num) \<and> i \<notin> used bval)"
| "owns s (InLive b num) i \<longleftrightarrow> (b, num) \<in> cs_live s \<and> i \<in> region b num"

definition cell_inv :: "nat \<Rightarrow> cell_sys \<Rightarrow> bool" where
  "cell_inv max_items s \<longleftrightarrow> cell_ok (cs_cell s)
     \<and> (\<forall>t bval num. cs_local s t = Some (bval, num) \<longrightarrow> cell_ok bval \<and> bval \<noteq> MP_BITMAP_BUSY \<and> 0 < num \<and> num \<le> 32)
     \<and> (\<forall>(b, num) \<in> cs_live s. 0 \<le> b \<and> 0 < num \<and> nat b + num \<le> max_items)
     \<and> (\<forall>i < 32. \<exists>!o'. owns s o' i)"

lemma ex_owner: "(\<exists>o'. P o') \<longleftrightarrow> P InCell \<or> (\<exists>t. P (InThread t)) \<or> (\<exists>b num. P (InLive b num))"
  by (metis owner.exhaust)

lemma move_owner:
  assumes "\<exists>!o'. owns s o' i" and "\<And>o'. owns s' o' i \<longleftrightarrow> (\<exists>o2. owns s o2 i \<and> g o2 = o')"
  shows "\<exists>!o'. owns s' o' i"
  using assms by metis

lemma live_owner:
  assumes "\<exists>!o'. owns s o' i" and "(b, num) \<in> cs_live s" and "i \<in> region b num"
  shows "owns s o' i \<longleftrightarrow> o' = InLive b num"
proof -
  have "owns s (InLive b num) i" using assms(2,3) by simp
  then show ?thesis using assms(1) by blast
qed

lemma inv_exchange:
  assumes inv: "cell_inv mx s" and idle: "cs_local s t = None" and num: "0 < num" "num \<le> 32"
  shows "cell_inv mx (cell_exchange t num s)"
proof -
  let ?s = "cell_exchange t num s"
  have "\<exists>!o'. owns ?s o' i" if "i < 32" for i
  proof (rule move_owner [where g = "\<lambda>o'. if o' = InCell then InThread t else o'"])
    show "\<exists>!o'. owns s o' i" using inv that by (simp add: cell_inv_def)
    show "owns ?s o' i \<longleftrightarrow> (\<exists>o2. owns s o2 i \<and> (if o2 = InCell then InThread t else o2) = o')" for o'
      using that idle by (cases o') (auto simp: cell_exchange_def ex_owner)
  qed
  then show ?thesis using inv num by (auto simp: cell_inv_def cell_exchange_def)
qed

lemma inv_commit:
  assumes inv: "cell_inv mx s" and mx: "mx \<le> 32" and loc: "cs_local s t = Some (bval, num)"
  shows "cell_inv mx (cell_commit mx t s)"
proof -
  obtain b c' where take: "cell_take bval num mx = (b, c')" by fastforce
  let ?s = "cell_commit mx t s"
  have s: "?s = s\<lparr>cs_cell := cs_cell s AND c', cs_local := (cs_local s)(t := None),
      cs_live := (if b \<noteq> - 1 then insert (b, num) (cs_live s) else cs_live s)\<rparr>"
    using loc take by (simp add: cell_commit_def)
  have b: "cell_ok bval" "bval \<noteq> MP_BITMAP_BUSY" "0 < num" "num \<le> 32" using inv loc by (auto simp: cell_inv_def)
  note cases = cell_take_region [OF b mx take]
  have "\<exists>!o'. owns ?s o' i" if "i < 32" for i
  proof (rule move_owner [where g = "\<lambda>o'. if o' = InThread t then (if b \<noteq> - 1 \<and> i \<in> region b num then InLive b num else InCell) else o'"])
    show "\<exists>!o'. owns s o' i" using inv that by (simp add: cell_inv_def)
    show "owns ?s o' i \<longleftrightarrow> (\<exists>o2. owns s o2 i \<and>
        (if o2 = InThread t then (if b \<noteq> - 1 \<and> i \<in> region b num then InLive b num else InCell) else o2) = o')" for o'
      using cases
    proof
      assume "b = - 1 \<and> c' = bval"
      then show ?thesis using loc by (cases o') (auto simp: s ex_owner)
    next
      assume r: "0 \<le> b \<and> nat b + num \<le> mx \<and> region b num \<inter> used bval = {} \<and> used c' = used bval \<union> region b num"
      then have b1: "b \<noteq> - 1" by auto
      have i: "i \<notin> used bval" if "i \<in> region b num" using r that by auto
      have own: "owns s (InThread t) i \<longleftrightarrow> i \<notin> used bval" using loc by simp
      show ?thesis
      proof (cases o')
        case InCell
        have "owns ?s InCell i \<longleftrightarrow> owns s InCell i \<or> owns s (InThread t) i \<and> i \<notin> region b num" using r b1 own by (auto simp: s)
        then show ?thesis using b1 InCell by (auto simp: ex_owner simp del: owns.simps)
      next
        case (InThread t')
        then show ?thesis using b1 by (auto simp: s ex_owner)
      next
        case (InLive a n)
        have "owns ?s (InLive a n) i \<longleftrightarrow> owns s (InLive a n) i \<or> a = b \<and> n = num \<and> i \<in> region b num" using b1 by (auto simp: s)
        then show ?thesis using b1 InLive own i by (auto simp: ex_owner simp del: owns.simps)
      qed
    qed
  qed
  moreover have "cell_ok (cs_cell s AND c')" using inv by (simp add: cell_inv_def)
  ultimately show ?thesis using inv cases b(3) by (auto simp: cell_inv_def s)
qed

lemma inv_free:
  assumes inv: "cell_inv mx s" and mx: "mx \<le> 32" and live: "(b, num) \<in> cs_live s" and cell: "cell_ok c"
    and c: "\<And>i. i < 32 \<Longrightarrow> i \<notin> used c \<longleftrightarrow> i \<notin> used (cs_cell s) \<or> i \<in> region b num"
  shows "cell_inv mx (s\<lparr>cs_cell := c, cs_live := cs_live s - {(b, num)}\<rparr>)"
proof -
  let ?s = "s\<lparr>cs_cell := c, cs_live := cs_live s - {(b, num)}\<rparr>"
  have "\<exists>!o'. owns ?s o' i" if i: "i < 32" for i
  proof (rule move_owner [where g = "\<lambda>o'. if o' = InLive b num then InCell else o'"])
    show one: "\<exists>!o'. owns s o' i" using inv that by (simp add: cell_inv_def)
    show "owns ?s o' i \<longleftrightarrow> (\<exists>o2. owns s o2 i \<and> (if o2 = InLive b num then InCell else o2) = o')" for o'
      using c [OF i] live by (cases o') (auto simp: ex_owner)
  qed
  then show ?thesis using inv cell by (auto simp: cell_inv_def)
qed

lemma inv_step:
  assumes "cell_step mx s s'" and "mx \<le> 32" and "cell_inv mx s"
  shows "cell_inv mx s'"
  using assms
proof induction
  case (exchange s t num)
  then show ?case by (intro inv_exchange)
next
  case (commit s t)
  then show ?case by (auto intro: inv_commit)
next
  case (release b num s)
  then have "0 \<le> b" "nat b + num \<le> 32" "cell_ok (cs_cell s)" by (auto simp: cell_inv_def)
  then have "cell_inv mx (s\<lparr>cs_cell := cs_cell s AND NOT (MPREGMASK num (nat b)), cs_live := cs_live s - {(b, num)}\<rparr>)"
    using release by (intro inv_free) (auto simp: used_regmask region_def)
  then show ?case by (simp add: cell_free_def)
next
  case (release_all s)
  then have "cell_inv mx (s\<lparr>cs_cell := 0, cs_live := cs_live s - {(0, MP_BITMAP_BITS)}\<rparr>)"
    by (intro inv_free) (auto simp: region_def MP_BITMAP_BITS_def)
  then show ?case by (simp add: cell_free_all_def)
qed

lemma inv_init: "cell_inv mx cell_init"
proof -
  have "owns cell_init o' i \<longleftrightarrow> o' = InCell" for o' i by (cases o') (auto simp: cell_init_def)
  then show ?thesis by (auto simp: cell_inv_def cell_init_def)
qed

lemma inv_reachable:
  assumes "(cell_step mx)\<^sup>*\<^sup>* cell_init s" and "mx \<le> 32"
  shows "cell_inv mx s"
  using assms by (induction rule: rtranclp_induct) (auto intro: inv_init inv_step)

lemma reachable_live:
  assumes "(cell_step mx)\<^sup>*\<^sup>* cell_init s" and "mx \<le> 32"
  shows "\<lbrakk>(b, n) \<in> cs_live s; (b', n') \<in> cs_live s; (b, n) \<noteq> (b', n')\<rbrakk> \<Longrightarrow> region b n \<inter> region b' n' = {}"
    and "(b, n) \<in> cs_live s \<Longrightarrow> region b n \<subseteq> {..<mx} \<and> region b n \<subseteq> used (cs_cell s)"
    and "\<lbrakk>(b, n) \<in> cs_live s; cs_local s t = Some (bval, num)\<rbrakk> \<Longrightarrow> region b n \<subseteq> used bval"
    and "(\<And>t. cs_local s t = None) \<Longrightarrow> used (cs_cell s) = (\<Union>(b, n) \<in> cs_live s. region b n)"
proof -
  note inv = inv_reachable [OF assms]
  have bound: "i < mx" if "(b, n) \<in> cs_live s" "i \<in> region b n" for b n i
    using that inv by (fastforce simp: cell_inv_def region_def)
  have one: "owns s o' i \<longleftrightarrow> o' = InLive b n" if "(b, n) \<in> cs_live s" "i \<in> region b n" for b n i o'
    using that inv bound [OF that] assms(2) by (intro live_owner) (auto simp: cell_inv_def)
  show "region b n \<inter> region b' n' = {}" if "(b, n) \<in> cs_live s" "(b', n') \<in> cs_live s" "(b, n) \<noteq> (b', n')"
    using that one [OF that(1), of _ "InLive b' n'"] by auto
  show "region b n \<subseteq> {..<mx} \<and> region b n \<subseteq> used (cs_cell s)" if "(b, n) \<in> cs_live s"
    using bound [OF that] one [OF that, of _ InCell] by auto
  show "region b n \<subseteq> used bval" if "(b, n) \<in> cs_live s" "cs_local s t = Some (bval, num)"
    using one [OF that(1), of _ "InThread t"] that(2) by auto
  show "used (cs_cell s) = (\<Union>(b, n) \<in> cs_live s. region b n)" if idle: "\<And>t. cs_local s t = None"
  proof -
    have "i < 32 \<Longrightarrow> \<exists>o'. owns s o' i" for i using inv by (auto simp: cell_inv_def)
    then have "i \<in> used (cs_cell s) \<Longrightarrow> \<exists>b n. (b, n) \<in> cs_live s \<and> i \<in> region b n" for i
      using idle by (auto simp: ex_owner used_def)
    then show ?thesis using one [of _ _ _ InCell] by auto blast
  qed
qed

text \<open>
  C13. However exchanges, commits and frees of any number of threads interleave
  on a cell, two allocations that are both in use have no item in common and lie within the items the cell
  has; an item of an allocation in use is never seen as free, in the cell or by a thread that
  holds it; and when no thread is between its two atomic operations, the cell marks exactly the items that are in use, so that
  nothing is lost either.
\<close>

theorem mp_cell_concurrent:
  assumes "(cell_step mx)\<^sup>*\<^sup>* cell_init s" and "mx \<le> 32"
  shows "(\<forall>(b, n) \<in> cs_live s. region b n \<subseteq> {..<mx} \<and> region b n \<subseteq> used (cs_cell s)
      \<and> (\<forall>(b', n') \<in> cs_live s. (b, n) \<noteq> (b', n') \<longrightarrow> region b n \<inter> region b' n' = {})
      \<and> (\<forall>t bval num. cs_local s t = Some (bval, num) \<longrightarrow> region b n \<subseteq> used bval))
    \<and> ((\<forall>t. cs_local s t = None) \<longrightarrow> used (cs_cell s) = (\<Union>(b, n) \<in> cs_live s. region b n))"
  using reachable_live [OF assms] by (fastforce simp only: split_paired_all split_conv)

lemma local_commit: "cs_local (cell_commit mx t s) = (cs_local s)(t := None)"
  by (cases "cs_local s t") (auto simp: cell_commit_def split: prod.splits)

definition cell_demo :: cell_sys where
  "cell_demo = cell_commit 32 1 (cell_exchange 2 1 (cell_exchange 1 3 (cell_commit 32 0 (cell_exchange 0 2 cell_init))))"

lemma cell_demo_reachable: "(cell_step 32)\<^sup>*\<^sup>* cell_init cell_demo"
proof -
  let ?s1 = "cell_exchange 0 2 cell_init"
  let ?s2 = "cell_commit 32 0 ?s1"
  let ?s3 = "cell_exchange 1 3 ?s2"
  let ?s4 = "cell_exchange 2 1 ?s3"
  have loc: "cs_local cell_init 0 = None" "cs_local ?s1 0 \<noteq> None" "cs_local ?s2 1 = None" "cs_local ?s3 2 = None"
    "cs_local ?s4 1 \<noteq> None" by code_simp+
  have "cell_step 32 cell_init ?s1" "cell_step 32 ?s1 ?s2" "cell_step 32 ?s2 ?s3" "cell_step 32 ?s3 ?s4" "cell_step 32 ?s4 cell_demo"
    unfolding cell_demo_def by (rule exchange commit, use loc in simp, simp?, simp?)+
  then show ?thesis by (meson converse_rtranclp_into_rtranclp rtranclp.rtrancl_refl)
qed

theorem mp_cell_concurrent_witness:
  "cs_live cell_demo = {(0, 2), (2, 3)} \<and> region 0 2 \<inter> region 2 3 = {} \<and> used (cs_cell cell_demo) = region 0 2 \<union> region 2 3"
proof -
  have live: "cs_live cell_demo = {(0, 2), (2, 3)}" by code_simp
  have "\<forall>t. cs_local cell_demo t = None"
    by (simp add: cell_demo_def local_commit cell_exchange_def) (simp add: cell_init_def local_commit)
  then show ?thesis using mp_cell_concurrent [OF cell_demo_reachable] by (simp add: live)
qed

end
