(* ===== verification/BlockAlloc.thy ===== *)
theory BlockAlloc
  imports Main "HOL-Library.Multiset"
begin

text \<open>
  The contract of an allocator over one area of memory, as an interface: its state shows a set of blocks
  (first unit, number of units) that do not overlap; an allocation adds a block that is large enough, a
  free takes the block away. What clients get from it is proved here once, for the fragment allocator and for the pages of the heap.
\<close>

definition extent :: "nat \<times> nat \<Rightarrow> nat set" where
  "extent b = {fst b..<fst b + snd b}"

text \<open>A client: a list of requests, and a list of addresses to be freed.\<close>

fun alloc_all :: "(nat \<Rightarrow> 's \<Rightarrow> (nat \<times> 's) option) \<Rightarrow> nat list \<Rightarrow> 's \<Rightarrow> (nat list \<times> 's) option" where
  "alloc_all alloc [] s = Some ([], s)"
| "alloc_all alloc (r # rs) s =
     (case alloc r s of
        None \<Rightarrow> None
      | Some (a, s1) \<Rightarrow> (case alloc_all alloc rs s1 of None \<Rightarrow> None | Some (as, s2) \<Rightarrow> Some (a # as, s2)))"

fun release_all :: "(nat \<Rightarrow> 's \<Rightarrow> 's option) \<Rightarrow> nat list \<Rightarrow> 's \<Rightarrow> 's option" where
  "release_all release [] s = Some s"
| "release_all release (a # as) s = (case release a s of None \<Rightarrow> None | Some s1 \<Rightarrow> release_all release as s1)"

locale block_allocator =
  fixes ok :: "'s \<Rightarrow> bool"
    and blocks :: "'s \<Rightarrow> (nat \<times> nat) set"
    and valid :: "nat \<Rightarrow> bool"
    and units :: "nat \<Rightarrow> nat"
    and alloc :: "nat \<Rightarrow> 's \<Rightarrow> (nat \<times> 's) option"
    and release :: "nat \<Rightarrow> 's \<Rightarrow> 's option"
  assumes disjoint: "ok s \<Longrightarrow> x \<in> blocks s \<Longrightarrow> y \<in> blocks s \<Longrightarrow> x \<noteq> y \<Longrightarrow> extent x \<inter> extent y = {}"
    and nonempty: "ok s \<Longrightarrow> x \<in> blocks s \<Longrightarrow> 0 < snd x"
    and alloc_block: "ok s \<Longrightarrow> valid r \<Longrightarrow> alloc r s = Some (a, s') \<Longrightarrow>
      ok s' \<and> (\<exists>n \<ge> units r. (a, n) \<notin> blocks s \<and> blocks s' = insert (a, n) (blocks s))"
    and release_block: "ok s \<Longrightarrow> (a, n) \<in> blocks s \<Longrightarrow> \<exists>s'. release a s = Some s' \<and> ok s' \<and> blocks s' = blocks s - {(a, n)}"
begin

lemma block_unique: "ok s \<Longrightarrow> (a, n) \<in> blocks s \<Longrightarrow> (a, m) \<in> blocks s \<Longrightarrow> n = m"
  using disjoint [of s "(a, n)" "(a, m)"] nonempty [of s "(a, n)"] nonempty [of s "(a, m)"]
  by (cases "n = m") (force simp: extent_def)+

lemma fresh: "ok s \<Longrightarrow> valid r \<Longrightarrow> alloc r s = Some (a, s') \<Longrightarrow> a \<notin> fst ` blocks s"
  using alloc_block block_unique [of s' a] by fastforce

lemma alloc_all_blocks:
  assumes "ok s" and "\<forall>r \<in> set rs. valid r" and "alloc_all alloc rs s = Some (as, s')"
  shows "ok s' \<and> blocks s \<subseteq> blocks s' \<and> distinct as \<and> length as = length rs \<and> set as \<inter> fst ` blocks s = {}
    \<and> fst ` blocks s' = fst ` blocks s \<union> set as \<and> (\<forall>x \<in> blocks s'. x \<notin> blocks s \<longrightarrow> fst x \<in> set as)
    \<and> (\<forall>i < length rs. \<exists>n \<ge> units (rs ! i). (as ! i, n) \<in> blocks s')"
  using assms
proof (induction rs arbitrary: s as)
  case Nil
  then show ?case by auto
next
  case (Cons r rs)
  obtain a s1 as1 where s1: "alloc r s = Some (a, s1)" and as1: "alloc_all alloc rs s1 = Some (as1, s')" "as = a # as1"
    using Cons.prems(3) by (auto split: option.splits)
  obtain n where n: "ok s1" "n \<ge> units r" "blocks s1 = insert (a, n) (blocks s)"
    using alloc_block [OF Cons.prems(1) _ s1] Cons.prems(2) by auto
  have new: "a \<notin> fst ` blocks s" using fresh [OF Cons.prems(1) _ s1] Cons.prems(2) by simp
  note IH = Cons.IH [OF n(1) _ as1(1)]
  have "(\<forall>i < length (r # rs). \<exists>n \<ge> units ((r # rs) ! i). (as ! i, n) \<in> blocks s')"
    using IH Cons.prems(2) n(2,3) as1(2) by (auto simp: less_Suc_eq_0_disj)
  then show ?case using IH Cons.prems(2) n(3) as1(2) new by auto
qed

lemma release_all_blocks:
  assumes "ok s" and "distinct as" and "set as \<subseteq> fst ` blocks s"
  shows "\<exists>s'. release_all release as s = Some s' \<and> ok s' \<and> blocks s' = {x \<in> blocks s. fst x \<notin> set as}"
  using assms
proof (induction "as" arbitrary: s)
  case Nil
  then show ?case by simp
next
  case (Cons a "as")
  then obtain n where n: "(a, n) \<in> blocks s" by auto
  obtain s1 where s1: "release a s = Some s1" "ok s1" "blocks s1 = blocks s - {(a, n)}"
    using release_block [OF Cons.prems(1) n] by auto
  have "blocks s1 = {x \<in> blocks s. fst x \<noteq> a}" using s1(3) n block_unique [OF Cons.prems(1)] by fastforce
  moreover have "set as \<subseteq> fst ` blocks s1" using Cons.prems(2,3) calculation by fastforce
  ultimately show ?case using Cons.IH [OF s1(2)] Cons.prems(2) s1(1) by auto
qed

text \<open>Allocations of any sizes do not overlap, and freeing them in any order gives back all that was taken.\<close>

lemma alloc_release_all:
  assumes "ok s" and "\<forall>r \<in> set rs. valid r" and "alloc_all alloc rs s = Some (as, s')" and "mset as' = mset as"
  shows "\<exists>s''. release_all release as' s' = Some s'' \<and> ok s'' \<and> blocks s'' = blocks s"
proof -
  note all = alloc_all_blocks [OF assms(1-3)]
  have set: "set as' = set as" "distinct as'" using assms(4) all by (metis mset_eq_setD, metis mset_eq_imp_distinct_iff)
  then have "\<exists>s''. release_all release as' s' = Some s'' \<and> ok s'' \<and> blocks s'' = {x \<in> blocks s'. fst x \<notin> set as'}"
    using all by (intro release_all_blocks) auto
  moreover have "{x \<in> blocks s'. fst x \<notin> set as'} = blocks s" using all set(1) by auto
  ultimately show ?thesis by auto
qed

end

end
