(* ===== verification/MpFrag.thy ===== *)
theory MpFrag
  imports MpBitmap BlockAlloc
begin

text \<open>
  Bitmaps of several cells and the page-fragment allocator of \<open>libtscommon/mempool.c\<close>, for one thread: the
  passes over the cells with their retries, allocation of whole cells with its rollback,
  the fragment descriptors, and the abstract view of the segment as a set of blocks.
\<close>

section \<open>Bitmaps of several cells\<close>

function mp_alloc_pass :: "nat \<Rightarrow> nat \<Rightarrow> nat \<Rightarrow> nat \<Rightarrow> 64 word list \<Rightarrow> int \<times> 64 word list" where
  "mp_alloc_pass num_cells last_items alloc_items i bm =
     (if i < num_cells then
        let num_items_in_cell = (if i = num_cells - 1 then last_items else MP_BITMAP_BITS);
            (bidx, c) = mp_bitmap_cell_alloc (bm ! i) alloc_items num_items_in_cell
        in if bidx \<noteq> - 1 then (int i * int MP_BITMAP_BITS + bidx, bm[i := c])
           else mp_alloc_pass num_cells last_items alloc_items (i + 1) (bm[i := c])
      else (- 1, bm))"
  by pat_completeness auto
termination by (relation "measure (\<lambda>(num_cells, _, _, i, _). num_cells - i)") auto

declare mp_alloc_pass.simps [simp del]

fun mp_alloc_retry :: "nat \<Rightarrow> nat \<Rightarrow> nat \<Rightarrow> nat \<Rightarrow> 64 word list \<Rightarrow> int \<times> 64 word list" where
  "mp_alloc_retry 0 num_cells last_items alloc_items bm = (- 1, bm)"
| "mp_alloc_retry (Suc r) num_cells last_items alloc_items bm =
     (let (idx, bm') = mp_alloc_pass num_cells last_items alloc_items 0 bm in
      if idx \<noteq> - 1 then (idx, bm') else mp_alloc_retry r num_cells last_items alloc_items bm')"

definition bitmap_cells :: "nat \<Rightarrow> nat" where
  "bitmap_cells num_items = num_items div MP_BITMAP_BITS + (if num_items mod MP_BITMAP_BITS \<noteq> 0 then 1 else 0)"

definition mp_bitmap_alloc :: "64 word list \<Rightarrow> nat \<Rightarrow> nat \<Rightarrow> int \<times> 64 word list" where
  "mp_bitmap_alloc bm num_items alloc_items =
     (let last_items = (if num_items mod MP_BITMAP_BITS \<noteq> 0 then num_items mod MP_BITMAP_BITS else MP_BITMAP_BITS)
      in mp_alloc_retry MPMAXRETRIES (bitmap_cells num_items) last_items alloc_items bm)"

text \<open>
  The rollback of \<open>mp_bitmap_alloc_cells\<close> clears the cells from the first one taken up to the one that could not be
  taken. \<open>first_cell\<close> and \<open>allocated_cells\<close> keep their values from one pass to the next.
\<close>

definition clear_cells :: "nat \<Rightarrow> nat \<Rightarrow> 64 word list \<Rightarrow> 64 word list" where
  "clear_cells from_cell last_cell bm = fold (\<lambda>j b. b[j := 0]) [from_cell..<Suc last_cell] bm"

function mp_cells_pass :: "nat \<Rightarrow> nat \<Rightarrow> nat \<Rightarrow> nat option \<Rightarrow> nat \<Rightarrow> 64 word list
    \<Rightarrow> int option \<times> nat option \<times> nat \<times> 64 word list" where
  "mp_cells_pass num_cells alloc_cells i first_cell allocated_cells bm =
     (if i < num_cells then
        let (bidx, c) = mp_bitmap_cell_alloc (bm ! i) MP_BITMAP_BITS MP_BITMAP_BITS; bm1 = bm[i := c] in
        if bidx \<noteq> - 1 then
          (case first_cell of
             None \<Rightarrow> mp_cells_pass num_cells alloc_cells (i + 1) (Some i) allocated_cells bm1
           | Some f \<Rightarrow>
               if allocated_cells + 1 = alloc_cells
               then (Some (int f * int MP_BITMAP_BITS), Some f, allocated_cells + 1, bm1)
               else mp_cells_pass num_cells alloc_cells (i + 1) (Some f) (allocated_cells + 1) bm1)
        else
          (case first_cell of
             None \<Rightarrow> mp_cells_pass num_cells alloc_cells (i + 1) None allocated_cells bm1
           | Some f \<Rightarrow> mp_cells_pass num_cells alloc_cells (i + 1) None 0 (clear_cells f i bm1))
      else (None, first_cell, allocated_cells, bm))"
  by pat_completeness auto
termination by (relation "measure (\<lambda>(num_cells, _, i, _). num_cells - i)") auto

declare mp_cells_pass.simps [simp del]

fun mp_cells_retry :: "nat \<Rightarrow> nat \<Rightarrow> nat \<Rightarrow> nat option \<Rightarrow> nat \<Rightarrow> 64 word list \<Rightarrow> int \<times> 64 word list" where
  "mp_cells_retry 0 num_cells alloc_cells first_cell allocated_cells bm = (- 1, bm)"
| "mp_cells_retry (Suc r) num_cells alloc_cells first_cell allocated_cells bm =
     (case mp_cells_pass num_cells alloc_cells 0 first_cell allocated_cells bm of
        (Some idx, _, _, bm') \<Rightarrow> (idx, bm')
      | (None, f, a, bm') \<Rightarrow> mp_cells_retry r num_cells alloc_cells f a bm')"

definition mp_bitmap_alloc_cells :: "64 word list \<Rightarrow> nat \<Rightarrow> nat \<Rightarrow> int \<times> 64 word list" where
  "mp_bitmap_alloc_cells bm num_items alloc_cells =
     mp_cells_retry MPMAXRETRIES (num_items div MP_BITMAP_BITS) alloc_cells None 0 bm"

text \<open>The mask of 32 items shifts an \<open>int\<close> by its width: the behaviour is undefined (\<open>None\<close>).\<close>

definition mp_bitmap_free :: "64 word list \<Rightarrow> nat \<Rightarrow> nat \<Rightarrow> 64 word list option" where
  "mp_bitmap_free bm num idx =
     (let bidx = idx mod MP_BITMAP_BITS; i = idx div MP_BITMAP_BITS in
      if num < MP_BITMAP_BITS then Some (bm[i := bm ! i AND NOT (MPREGMASK num bidx)]) else None)"

definition mp_bitmap_free_cells :: "64 word list \<Rightarrow> nat \<Rightarrow> nat \<Rightarrow> 64 word list" where
  "mp_bitmap_free_cells bm num idx = fold (\<lambda>i b. b[i := 0]) [0..<num div MP_BITMAP_BITS] bm"

subsection \<open>Sets of used items\<close>

definition bitmap_ok :: "64 word list \<Rightarrow> bool" where
  "bitmap_ok bm \<longleftrightarrow> (\<forall>c \<in> set bm. cell_ok c)"

definition items :: "64 word list \<Rightarrow> nat set" where
  "items bm = {i. i div 32 < length bm \<and> i mod 32 \<in> used (bm ! (i div 32))}"

lemma div_in_cell:
  fixes i k b n :: nat
  assumes "b + n \<le> 32"
  shows "i div 32 = k \<and> i mod 32 \<in> {b..<b + n} \<longleftrightarrow> i \<in> {32 * k + b..<32 * k + b + n}"
proof -
  define q r where "q = i div 32" and "r = i mod 32"
  have i: "i = 32 * q + r" "r < 32" by (simp_all add: q_def r_def)
  have "q = k \<and> b \<le> r \<and> r < b + n \<longleftrightarrow> 32 * k + b \<le> 32 * q + r \<and> 32 * q + r < 32 * k + b + n"
    using i(2) assms by (cases q k rule: linorder_cases) auto
  then show ?thesis unfolding q_def [symmetric] r_def [symmetric] by (simp add: i(1))
qed

lemma cell_ok_masked: "MP_BITMAP_BUSY AND c = c \<Longrightarrow> cell_ok c"
  by (metis cell_ok_busy(2))

lemma cell_ok_mask: "cell_ok c \<Longrightarrow> MP_BITMAP_BUSY AND c = c"
  by (rule cell_ok_eq) (auto simp: used_def bit_simps bit_busy)

lemma cell_alloc_cases:
  assumes "cell_ok c" and "0 < num" and "num \<le> 32" and "mx \<le> 32" and "mp_bitmap_cell_alloc c num mx = (b, c')"
  shows "cell_ok c' \<and> (b = - 1 \<and> c' = c \<or>
    0 \<le> b \<and> nat b + num \<le> mx \<and> region b num \<inter> used c = {} \<and> used c' = used c \<union> region b num)"
proof (cases "c = MP_BITMAP_BUSY")
  case True
  then show ?thesis using assms(5) by (simp add: mp_bitmap_cell_alloc_def)
next
  case False
  obtain d where d: "cell_take c num mx = (b, d)" "c' = MP_BITMAP_BUSY AND d"
    using assms(5) False by (cases "cell_take c num mx") (auto simp: mp_bitmap_cell_alloc_def)
  have sub: "used c \<subseteq> {..<32}" by (auto simp: used_def)
  have "MP_BITMAP_BUSY AND c = c" by (rule cell_ok_mask [OF assms(1)])
  moreover have "{..<32} \<inter> (used c \<union> region b num) = used c \<union> region b num" if "nat b + num \<le> mx"
    using sub that assms(4) by (auto simp: region_def)
  ultimately show ?thesis using cell_take_region [OF assms(1) False assms(2,3,4) d(1)] d(2) by auto
qed

lemma items_update:
  assumes "i < length bm" and "b + n \<le> 32" and "used c = used (bm ! i) \<union> {b..<b + n}"
  shows "items (bm[i := c]) = items bm \<union> {32 * i + b..<32 * i + b + n}"
proof -
  have "j \<in> items (bm[i := c]) \<longleftrightarrow> j \<in> items bm \<or> (j div 32 = i \<and> j mod 32 \<in> {b..<b + n})" for j
    using assms(1,3) by (cases "j div 32 = i") (auto simp: items_def)
  then show ?thesis by (intro set_eqI) (simp add: div_in_cell [OF assms(2), of _ i] del: atLeastLessThan_iff)
qed

text \<open>What an allocation of \<open>n\<close> items out of \<open>total\<close> does: nothing, or it takes free items of one cell.\<close>

definition took :: "nat \<Rightarrow> nat \<Rightarrow> 64 word list \<Rightarrow> int \<Rightarrow> 64 word list \<Rightarrow> bool" where
  "took total_items n bm idx bm' \<longleftrightarrow> bitmap_ok bm' \<and> length bm' = length bm \<and>
     (idx = - 1 \<and> bm' = bm \<or>
      0 \<le> idx \<and> nat idx mod 32 + n \<le> 32 \<and> nat idx + n \<le> total_items
        \<and> {nat idx..<nat idx + n} \<inter> items bm = {} \<and> items bm' = items bm \<union> {nat idx..<nat idx + n})"

lemma cell_took:
  assumes "bitmap_ok bm" and "i < length bm" and "0 < n" and "n \<le> 32" and "mx \<le> 32" and "32 * i + mx \<le> total_items"
    and "mp_bitmap_cell_alloc (bm ! i) n mx = (b, c)"
  shows "b = - 1 \<Longrightarrow> bm[i := c] = bm" and "b \<noteq> - 1 \<Longrightarrow> took total_items n bm (int i * 32 + b) (bm[i := c])"
proof -
  have c: "cell_ok c \<and> (b = - 1 \<and> c = bm ! i \<or>
      0 \<le> b \<and> nat b + n \<le> mx \<and> region b n \<inter> used (bm ! i) = {} \<and> used c = used (bm ! i) \<union> region b n)"
    using assms by (intro cell_alloc_cases [of _ n mx]) (auto simp: bitmap_ok_def)
  show "b = - 1 \<Longrightarrow> bm[i := c] = bm" using c by auto
  assume "b \<noteq> - 1"
  then have r: "0 \<le> b" "nat b + n \<le> mx" "{nat b..<nat b + n} \<inter> used (bm ! i) = {}" "used c = used (bm ! i) \<union> {nat b..<nat b + n}"
    using c by (auto simp: region_def)
  have le: "nat b + n \<le> 32" using r(2) assms(5) by simp
  have idx: "nat (int i * 32 + b) = 32 * i + nat b" using r(1) by (simp add: nat_add_distrib nat_mult_distrib)
  have "{32 * i + nat b..<32 * i + nat b + n} \<inter> items bm = {}"
  proof -
    have "\<not> (j div 32 = i \<and> j mod 32 \<in> {nat b..<nat b + n} \<and> j \<in> items bm)" for j using r(3) by (auto simp: items_def)
    then show ?thesis using div_in_cell [OF le, of _ i] by blast
  qed
  moreover have "(32 * i + nat b) mod 32 = nat b" using le assms(3) by simp
  moreover have "bitmap_ok (bm[i := c])" using assms(1) c set_update_subset_insert [of bm i c] by (auto simp: bitmap_ok_def)
  ultimately show "took total_items n bm (int i * 32 + b) (bm[i := c])"
    using r items_update [OF assms(2) le r(4)] le assms(6) by (simp add: took_def idx)
qed

lemma alloc_pass_took:
  assumes "bitmap_ok bm" and "length bm = nc" and "0 < n" and "n \<le> 32" and "mx \<le> 32" and "total_items = 32 * (nc - 1) + mx"
    and "mp_alloc_pass nc mx n i bm = (idx, bm')"
  shows "took total_items n bm idx bm'"
  using assms
proof (induction nc mx n i bm rule: mp_alloc_pass.induct)
  case (1 nc mx n i bm)
  show ?case
  proof (cases "i < nc")
    case False
    then show ?thesis using "1.prems" by (auto simp: mp_alloc_pass.simps [of nc mx n i bm] took_def)
  next
    case True
    define m where "m = (if i = nc - 1 then mx else MP_BITMAP_BITS)"
    obtain b c where cell: "mp_bitmap_cell_alloc (bm ! i) n m = (b, c)" by fastforce
    have m: "m \<le> 32" "32 * i + m \<le> total_items" using True "1.prems" by (auto simp: m_def MP_BITMAP_BITS_def)
    note took = cell_took [OF "1.prems"(1) _ "1.prems"(3,4) m cell]
    have unf: "mp_alloc_pass nc mx n i bm =
        (if b \<noteq> - 1 then (int i * int MP_BITMAP_BITS + b, bm[i := c]) else mp_alloc_pass nc mx n (i + 1) (bm[i := c]))"
      by (simp only: mp_alloc_pass.simps [of nc mx n i bm] m_def [symmetric] cell Let_def split_conv True if_True)
    show ?thesis
    proof (cases "b = - 1")
      case False
      then show ?thesis using took(2) unf "1.prems"(2,7) True by (simp add: MP_BITMAP_BITS_def)
    next
      case b: True
      then have bm: "bm[i := c] = bm" using took(1) "1.prems"(2) True by simp
      have "took total_items n (bm[i := c]) idx bm'"
        using "1.prems" unf b cell
        by (intro "1.IH" [OF True m_def cell [symmetric] refl]) (simp_all add: bm)
      then show ?thesis by (simp add: bm)
    qed
  qed
qed

lemma alloc_retry_took:
  assumes "bitmap_ok bm" and "length bm = nc" and "0 < n" and "n \<le> 32" and "mx \<le> 32" and "total_items = 32 * (nc - 1) + mx"
    and "mp_alloc_retry r nc mx n bm = (idx, bm')"
  shows "took total_items n bm idx bm'"
  using assms
proof (induction r arbitrary: bm)
  case 0
  then show ?case by (simp add: took_def)
next
  case (Suc r)
  obtain i bm1 where p: "mp_alloc_pass nc mx n 0 bm = (i, bm1)" by fastforce
  note t = alloc_pass_took [OF Suc.prems(1-6) p]
  show ?case
  proof (cases "i = - 1")
    case True
    then have "bm1 = bm" using t by (auto simp: took_def)
    then show ?thesis using Suc p True by simp
  next
    case False
    then show ?thesis using t p Suc.prems(7) by simp
  qed
qed

lemma items_split: "0 < total_items \<Longrightarrow> total_items = 32 * (bitmap_cells total_items - 1) +
    (if total_items mod MP_BITMAP_BITS \<noteq> 0 then total_items mod MP_BITMAP_BITS else MP_BITMAP_BITS)"
  using div_mult_mod_eq [of total_items 32] by (auto simp: bitmap_cells_def MP_BITMAP_BITS_def)

lemma mp_bitmap_alloc_took:
  assumes "bitmap_ok bm" and "length bm = bitmap_cells total_items" and "0 < total_items" and "0 < n" and "n \<le> 32"
    and "mp_bitmap_alloc bm total_items n = (idx, bm')"
  shows "took total_items n bm idx bm'"
proof -
  let ?mx = "if total_items mod MP_BITMAP_BITS \<noteq> 0 then total_items mod MP_BITMAP_BITS else MP_BITMAP_BITS"
  have "?mx \<le> 32" by (simp add: MP_BITMAP_BITS_def)
  moreover have "mp_alloc_retry MPMAXRETRIES (bitmap_cells total_items) ?mx n bm = (idx, bm')"
    using assms(6) by (simp only: mp_bitmap_alloc_def Let_def)
  ultimately show ?thesis by (rule alloc_retry_took [OF assms(1,2,4,5) _ items_split [OF assms(3)]])
qed

subsection \<open>Failure\<close>

lemma cell_alloc_one_fails:
  assumes "cell_ok c" and "mp_bitmap_cell_alloc c 1 mx = (- 1, c')" and "mx \<le> 32"
  shows "{..<mx} \<subseteq> used c"
proof (cases "c = MP_BITMAP_BUSY")
  case True
  then show ?thesis using assms(3) by auto
next
  case False
  obtain k where k: "mp_bitmap_find_one c = k" "{..<k} \<subseteq> used c" using free_bit [OF assms(1) False] by blast
  have "mx \<le> k" using assms(2) False k(1)
    by (auto simp: mp_bitmap_cell_alloc_def cell_take_def Let_def split: if_splits)
  then show ?thesis using k(2) by auto
qed

lemma alloc_pass_one_fails:
  assumes "bitmap_ok bm" and "length bm = nc" and "mx \<le> 32" and "mp_alloc_pass nc mx 1 i bm = (- 1, bm')"
    and "i \<le> j" and "j < nc"
  shows "{..<if j = nc - 1 then mx else 32} \<subseteq> used (bm ! j)"
  using assms
proof (induction nc mx "1 :: nat" i bm rule: mp_alloc_pass.induct)
  case (1 nc mx i bm)
  define m where "m = (if i = nc - 1 then mx else MP_BITMAP_BITS)"
  obtain b c where cell: "mp_bitmap_cell_alloc (bm ! i) 1 m = (b, c)" by fastforce
  have i: "i < nc" using "1.prems" by simp
  have m: "m \<le> 32" using "1.prems"(3) by (simp add: m_def MP_BITMAP_BITS_def)
  have ok: "cell_ok (bm ! i)" using "1.prems"(1,2) i by (simp add: bitmap_ok_def)
  have unf: "mp_alloc_pass nc mx 1 i bm =
      (if b \<noteq> - 1 then (int i * int MP_BITMAP_BITS + b, bm[i := c]) else mp_alloc_pass nc mx 1 (i + 1) (bm[i := c]))"
    by (simp only: mp_alloc_pass.simps [of nc mx 1 i bm] m_def [symmetric] cell Let_def split_conv i if_True)
  note cases = cell_alloc_cases [OF ok zero_less_one _ m cell]
  have b: "b = - 1" using "1.prems"(4) unf cases by (auto simp: MP_BITMAP_BITS_def split: if_splits)
  then have bm: "bm[i := c] = bm" using cases by auto
  show ?case
  proof (cases "j = i")
    case True
    have "{..<m} \<subseteq> used (bm ! i)" using cell_alloc_one_fails [OF ok _ m, of c] cell b by simp
    then show ?thesis using True by (cases "i = nc - 1") (simp_all add: m_def MP_BITMAP_BITS_def)
  next
    case False
    then have "{..<if j = nc - 1 then mx else 32} \<subseteq> used (bm[i := c] ! j)"
      using "1.prems" unf b by (intro "1.hyps" [OF i m_def cell [symmetric] refl]) (simp_all add: bm)
    then show ?thesis by (simp add: bm)
  qed
qed

lemma mp_bitmap_alloc_one_fails:
  assumes "bitmap_ok bm" and "length bm = bitmap_cells total_items" and "0 < total_items"
    and "mp_bitmap_alloc bm total_items 1 = (- 1, bm')"
  shows "{..<total_items} \<subseteq> items bm"
proof
  fix i
  assume "i \<in> {..<total_items}"
  define nc where "nc = bitmap_cells total_items"
  define mx where "mx = (if total_items mod MP_BITMAP_BITS \<noteq> 0 then total_items mod MP_BITMAP_BITS else MP_BITMAP_BITS)"
  have split: "total_items = 32 * (nc - 1) + mx" unfolding nc_def mx_def by (rule items_split [OF assms(3)])
  have mx: "mx \<le> 32" "0 < mx" by (auto simp: mx_def MP_BITMAP_BITS_def)
  have "nc \<noteq> 0" using assms(3) by (auto simp: nc_def bitmap_cells_def MP_BITMAP_BITS_def split: if_splits)
  have "mp_alloc_retry MPMAXRETRIES nc mx 1 bm = (- 1, bm')"
    using assms(4) by (simp only: mp_bitmap_alloc_def Let_def nc_def mx_def)
  then have "fst (mp_alloc_pass nc mx 1 0 bm) = - 1" by (auto simp: MPMAXRETRIES_def numeral_3_eq_3 split: prod.splits if_splits)
  then obtain bm1 where "mp_alloc_pass nc mx 1 0 bm = (- 1, bm1)" by (metis prod.collapse)
  note cells = alloc_pass_one_fails [OF assms(1) _ mx(1) this]
  have i: "i < 32 * (nc - 1) + mx" using \<open>i \<in> _\<close> split by simp
  have q: "i div 32 < nc" using i mx(1) \<open>nc \<noteq> 0\<close> by (simp add: less_mult_imp_div_less)
  have "i mod 32 < (if i div 32 = nc - 1 then mx else 32)" using i by (auto simp: minus_mult_div_eq_mod [symmetric])
  then have "i mod 32 \<in> used (bm ! (i div 32))" using cells [of "i div 32"] q assms(2) by (auto simp: nc_def)
  then show "i \<in> items bm" using q assms(2) by (simp add: items_def nc_def)
qed

text \<open>
  \<open>mp_bitmap_alloc\<close>, for a bitmap with as many cells as its items need: it returns -1 and leaves the bitmap as it
  was, or takes the requested number of adjacent items, that were free, lie in one cell and are below the number of items, and
  marks those and no others. A request for a single item fails only if all items are in use.
\<close>

theorem mp_bitmap_alloc_spec:
  assumes "bitmap_ok bm" and "length bm = bitmap_cells total_items" and "0 < total_items" and "0 < n" and "n \<le> 32"
    and "mp_bitmap_alloc bm total_items n = (idx, bm')"
  shows "took total_items n bm idx bm' \<and> (n = 1 \<longrightarrow> idx = - 1 \<longleftrightarrow> {..<total_items} \<subseteq> items bm)"
proof -
  note t = mp_bitmap_alloc_took [OF assms]
  have "\<not> {..<total_items} \<subseteq> items bm" if "idx \<noteq> - 1" "n = 1"
  proof -
    have "nat idx < total_items" "nat idx \<notin> items bm" using t that by (auto simp: took_def)
    then show ?thesis by auto
  qed
  then show ?thesis using t mp_bitmap_alloc_one_fails [OF assms(1-3)] assms(6) by blast
qed

theorem mp_bitmap_alloc_spec_witness:
  "mp_bitmap_alloc [0xFFFFFFFF, 3] 40 2 = (34, [0xFFFFFFFF, 15]) \<and> items [0xFFFFFFFF, 15] = items [0xFFFFFFFF, 3] \<union> {34..<36}"
proof -
  have run: "mp_bitmap_alloc [0xFFFFFFFF, 3] 40 2 = (34, [0xFFFFFFFF, 15])" by code_simp
  have "bitmap_ok [0xFFFFFFFF, 3]" by (simp add: bitmap_ok_def cell_ok_masked MP_BITMAP_BUSY_def)
  moreover have "length [0xFFFFFFFF, 3 :: 64 word] = bitmap_cells 40" by (simp add: bitmap_cells_def MP_BITMAP_BITS_def)
  ultimately have "took 40 2 [0xFFFFFFFF, 3] 34 [0xFFFFFFFF, 15]" using mp_bitmap_alloc_spec [OF _ _ _ _ _ run] by simp
  then show ?thesis using run by (simp add: took_def)
qed

section \<open>Whole cells\<close>

lemma cell_alloc_all: "mp_bitmap_cell_alloc c 32 32 = (if c = 0 then (0, MP_BITMAP_BUSY) else (- 1, MP_BITMAP_BUSY AND c))"
  by (auto simp: mp_bitmap_cell_alloc_def cell_take_def MP_BITMAP_BITS_def MP_BITMAP_BUSY_def)

text \<open>
  \<open>mp_bitmap_alloc_cells\<close> counts a cell only after the first: on a free bitmap it takes one cell
  more than it is asked for.
\<close>

lemma cells_pass_free:
  assumes "\<And>j. i \<le> j \<Longrightarrow> j \<le> f + k \<Longrightarrow> bm ! j = 0" and "f + k < num_cells" and "num_cells \<le> length bm"
    and "f < i" and "i \<le> f + k" and "a = i - f - 1" and "take i bm = pre @ replicate (i - f) MP_BITMAP_BUSY" and "length pre = f"
  shows "\<exists>a'. mp_cells_pass num_cells k i (Some f) a bm =
    (Some (int f * 32), Some f, a', pre @ replicate (Suc k) MP_BITMAP_BUSY @ drop (Suc (f + k)) bm)"
  using assms
proof (induction num_cells k i "Some f" a bm rule: mp_cells_pass.induct)
  case (1 num_cells k i a bm)
  let ?bm = "bm[i := MP_BITMAP_BUSY]"
  have i: "i < num_cells" "i < length bm" "bm ! i = 0" using "1.prems" by auto
  have take: "take (Suc i) ?bm = pre @ replicate (Suc i - f) MP_BITMAP_BUSY"
    using "1.prems"(4,7) i(2) by (simp add: take_Suc_conv_app_nth Suc_diff_le replicate_append_same)
  have unf: "mp_cells_pass num_cells k i (Some f) a bm =
      (if a + 1 = k then (Some (int f * 32), Some f, a + 1, ?bm) else mp_cells_pass num_cells k (i + 1) (Some f) (a + 1) ?bm)"
    using i by (simp add: mp_cells_pass.simps [of num_cells k i "Some f" a bm] cell_alloc_all MP_BITMAP_BITS_def)
  show ?case
  proof (cases "a + 1 = k")
    case True
    then have ik: "i = f + k" using "1.prems" by simp
    have "?bm = take (Suc i) ?bm @ drop (Suc i) ?bm" by (simp only: append_take_drop_id)
    then have "?bm = pre @ replicate (Suc k) MP_BITMAP_BUSY @ drop (Suc (f + k)) bm" using take ik by simp
    then show ?thesis using unf True by auto
  next
    case False
    then have "i < f + k" using "1.prems" by simp
    then have "\<exists>a'. mp_cells_pass num_cells k (i + 1) (Some f) (a + 1) ?bm =
        (Some (int f * 32), Some f, a', pre @ replicate (Suc k) MP_BITMAP_BUSY @ drop (Suc (f + k)) ?bm)"
      using "1.prems" take False i
      by (intro "1.hyps"(2) [where x = "(0, MP_BITMAP_BUSY)"]) (auto simp: cell_alloc_all MP_BITMAP_BITS_def)
    then show ?thesis using unf False \<open>i < f + k\<close> by simp
  qed
qed

text \<open>
  The allocation of several cells: (1) on a free bitmap it takes one
  cell more than requested and returns the first item; (2) if a cell cannot be taken, the rollback clears it along with the cells taken before it,
  so that it forgets the allocations in that cell: asked for one cell (beside the first) of a bitmap whose second cell is partly
  in use, it returns both.
\<close>

theorem mp_bitmap_alloc_cells_takes_more:
  assumes "0 < k" and "k < n"
  shows "mp_bitmap_alloc_cells (replicate n 0) (32 * n) k = (0, replicate (Suc k) MP_BITMAP_BUSY @ replicate (n - Suc k) 0)
    \<and> (c \<noteq> 0 \<longrightarrow> cell_ok c \<longrightarrow> mp_bitmap_alloc_cells [0, c] 64 1 = (0, [MP_BITMAP_BUSY, MP_BITMAP_BUSY]))"
proof
  let ?bm = "(replicate n 0)[0 := MP_BITMAP_BUSY]"
  have "\<exists>a'. mp_cells_pass n k 1 (Some 0) 0 ?bm = (Some (int 0 * 32), Some 0, a', [] @ replicate (Suc k) MP_BITMAP_BUSY @ drop (Suc (0 + k)) ?bm)"
    using assms by (intro cells_pass_free) (auto simp: nth_list_update take_Suc_conv_app_nth)
  moreover have "mp_cells_pass n k 0 None 0 (replicate n 0) = mp_cells_pass n k 1 (Some 0) 0 ?bm"
    using assms by (simp add: mp_cells_pass.simps [of n k 0] cell_alloc_all MP_BITMAP_BITS_def)
  ultimately show "mp_bitmap_alloc_cells (replicate n 0) (32 * n) k = (0, replicate (Suc k) MP_BITMAP_BUSY @ replicate (n - Suc k) 0)"
    by (auto simp: mp_bitmap_alloc_cells_def MPMAXRETRIES_def numeral_3_eq_3 MP_BITMAP_BITS_def)
  show "c \<noteq> 0 \<longrightarrow> cell_ok c \<longrightarrow> mp_bitmap_alloc_cells [0, c] 64 1 = (0, [MP_BITMAP_BUSY, MP_BITMAP_BUSY])"
    by (simp add: mp_bitmap_alloc_cells_def MPMAXRETRIES_def numeral_3_eq_3 MP_BITMAP_BITS_def mp_cells_pass.simps
        cell_alloc_all clear_cells_def numeral_2_eq_2 upt_rec)
qed

theorem mp_bitmap_alloc_cells_takes_more_witness:
  "mp_bitmap_alloc_cells (replicate 4 0) 128 2 = (0, [MP_BITMAP_BUSY, MP_BITMAP_BUSY, MP_BITMAP_BUSY, 0])
    \<and> mp_bitmap_alloc_cells [0, 8] 64 1 = (0, [MP_BITMAP_BUSY, MP_BITMAP_BUSY])"
  using mp_bitmap_alloc_cells_takes_more [of 2 4 8] cell_ok_masked [of 8]
  by (simp add: numeral_3_eq_3 MP_BITMAP_BUSY_def)

section \<open>Page fragments\<close>

definition MPPAGESIZE :: nat where "MPPAGESIZE = 8192"
definition MPFRAGSIZE :: nat where "MPFRAGSIZE = MPPAGESIZE div MP_BITMAP_BITS"

definition FRAG_UNALLOCATED :: int where "FRAG_UNALLOCATED = - 2"
definition FRAG_REFERENCE :: int where "FRAG_REFERENCE = - 1"
definition FRAG_COMMON :: int where "FRAG_COMMON = 0"
definition FRAG_SLAB :: int where "FRAG_SLAB = 1"
definition FRAG_HEAP :: int where "FRAG_HEAP = 2"

lemmas frag_consts = MPPAGESIZE_def MPFRAGSIZE_def MP_BITMAP_BITS_def FRAG_UNALLOCATED_def FRAG_REFERENCE_def FRAG_COMMON_def
  FRAG_SLAB_def FRAG_HEAP_def

text \<open>\<open>fd_size\<close> and \<open>fd_offset\<close> share a field. Pointers are offsets from \<open>mp_segment\<close>; sizes stay below 2 to the 39.\<close>

record frag_descr =
  fd_type :: int
  fd_size :: "16 word"

record frag_seg =
  mp_segment_size :: nat
  mp_frag_bitmap :: "64 word list"
  mp_frags :: "frag_descr list"

datatype mp_error = MP_ABORT | MP_ASSERT | MP_UNDEFINED

text \<open>The sizes of the descriptors are not initialised: \<open>junk\<close> is what \<open>malloc\<close> left there.\<close>

definition mp_frag_allocator_init :: "(nat \<Rightarrow> 16 word) \<Rightarrow> nat \<Rightarrow> frag_seg" where
  "mp_frag_allocator_init junk sz =
     (let num_pages = sz div MPPAGESIZE; num_frags = num_pages * MP_BITMAP_BITS in
      \<lparr>mp_segment_size = sz, mp_frag_bitmap = replicate num_pages 0,
       mp_frags = map (\<lambda>i. \<lparr>fd_type = FRAG_UNALLOCATED, fd_size = junk i\<rparr>) [0..<num_frags]\<rparr>)"

definition num_frags :: "frag_seg \<Rightarrow> nat" where
  "num_frags s = mp_segment_size s div MPPAGESIZE * MP_BITMAP_BITS"

fun mark_refs :: "nat \<Rightarrow> nat list \<Rightarrow> frag_descr list \<Rightarrow> mp_error + frag_descr list" where
  "mark_refs idx [] fr = Inr fr"
| "mark_refs idx (i # is) fr =
     (if idx + i \<ge> length fr then Inl MP_UNDEFINED
      else if fd_type (fr ! (idx + i)) \<noteq> FRAG_UNALLOCATED then Inl MP_ASSERT
      else mark_refs idx is (fr[idx + i := \<lparr>fd_type = FRAG_REFERENCE, fd_size = of_nat i\<rparr>]))"

definition frags_of :: "nat \<Rightarrow> nat" where
  "frags_of sz = sz div MPFRAGSIZE + (if sz mod MPFRAGSIZE \<noteq> 0 then 1 else 0)"

definition mp_frag_alloc :: "nat \<Rightarrow> int \<Rightarrow> frag_seg \<Rightarrow> mp_error + addr \<times> frag_seg" where
  "mp_frag_alloc sz flags s =
     (let alloc_frags = frags_of sz in
      if flags < 0 then Inl MP_ASSERT
      else
        let (idx, bm) =
              (if alloc_frags \<le> MP_BITMAP_BITS then mp_bitmap_alloc (mp_frag_bitmap s) (num_frags s) alloc_frags
               else mp_bitmap_alloc_cells (mp_frag_bitmap s) (num_frags s)
                      (alloc_frags div MP_BITMAP_BITS + (if alloc_frags mod MP_BITMAP_BITS \<noteq> 0 then 1 else 0)))
        in if idx = - 1 then Inl MP_ABORT
           else if fd_type (mp_frags s ! nat idx) \<noteq> FRAG_UNALLOCATED then Inl MP_ASSERT
           else case mark_refs (nat idx) [1..<alloc_frags]
                     ((mp_frags s)[nat idx := \<lparr>fd_type = flags, fd_size = of_nat alloc_frags\<rparr>]) of
                  Inl e \<Rightarrow> Inl e
                | Inr fr \<Rightarrow> Inr (nat idx * MPFRAGSIZE, s\<lparr>mp_frag_bitmap := bm, mp_frags := fr\<rparr>))"

definition mp_frag_free :: "addr \<Rightarrow> frag_seg \<Rightarrow> mp_error + frag_seg" where
  "mp_frag_free frag s =
     (let idx = frag div MPFRAGSIZE in
      if \<not> idx < num_frags s then Inl MP_ASSERT
      else
        let descr = mp_frags s ! idx; free_frags = unat (fd_size descr) in
        if fd_type descr < 0 then Inr s
        else
          let fr = fold (\<lambda>i fr. fr[idx + i := (fr ! (idx + i))\<lparr>fd_type := FRAG_UNALLOCATED\<rparr>]) [0..<free_frags] (mp_frags s) in
          if free_frags \<le> MP_BITMAP_BITS then
            (case mp_bitmap_free (mp_frag_bitmap s) free_frags idx of
               None \<Rightarrow> Inl MP_UNDEFINED
             | Some bm \<Rightarrow> Inr (s\<lparr>mp_frag_bitmap := bm, mp_frags := fr\<rparr>))
          else Inr (s\<lparr>mp_frag_bitmap := mp_bitmap_free_cells (mp_frag_bitmap s) free_frags idx, mp_frags := fr\<rparr>))"

definition mp_frag_get_descr :: "frag_seg \<Rightarrow> addr \<Rightarrow> nat option" where
  "mp_frag_get_descr s frag =
     (let idx = frag div MPFRAGSIZE; descr = mp_frags s ! idx in
      if fd_type descr = FRAG_UNALLOCATED then None
      else if fd_type descr = FRAG_REFERENCE then Some (idx - unat (fd_size descr))
      else Some idx)"

definition mp_frag_get_size :: "frag_descr \<Rightarrow> nat" where
  "mp_frag_get_size descr = unat (fd_size descr) * MPFRAGSIZE"

subsection \<open>The segment as a set of blocks\<close>

definition frag_blocks :: "frag_seg \<Rightarrow> (nat \<times> nat) set" where
  "frag_blocks s = {(i, n). i < num_frags s \<and> fd_type (mp_frags s ! i) \<ge> 0 \<and> n = unat (fd_size (mp_frags s ! i))}"

definition frag_kind :: "frag_seg \<Rightarrow> nat \<Rightarrow> int" where
  "frag_kind s i = fd_type (mp_frags s ! i)"

definition frag_ok :: "frag_seg \<Rightarrow> bool" where
  "frag_ok s \<longleftrightarrow> 0 < num_frags s \<and> length (mp_frag_bitmap s) = num_frags s div 32 \<and> length (mp_frags s) = num_frags s
     \<and> bitmap_ok (mp_frag_bitmap s)
     \<and> (\<forall>i < num_frags s. fd_type (mp_frags s ! i) \<ge> - 2 \<and> (fd_type (mp_frags s ! i) = FRAG_UNALLOCATED \<longleftrightarrow> i \<notin> items (mp_frag_bitmap s)))
     \<and> (\<forall>(i, n) \<in> frag_blocks s. 0 < n \<and> i mod 32 + n \<le> 32 \<and> i + n \<le> num_frags s
          \<and> (\<forall>j \<in> {1..<n}. mp_frags s ! (i + j) = \<lparr>fd_type = FRAG_REFERENCE, fd_size = of_nat j\<rparr>))
     \<and> (\<forall>k < num_frags s. fd_type (mp_frags s ! k) = FRAG_REFERENCE \<longrightarrow> (\<exists>i n. (i, n) \<in> frag_blocks s \<and> i < k \<and> k < i + n))"

lemma frag_okD:
  assumes "frag_ok s"
  shows "0 < num_frags s" "length (mp_frag_bitmap s) = num_frags s div 32" "length (mp_frags s) = num_frags s" "bitmap_ok (mp_frag_bitmap s)"
    and "k < num_frags s \<Longrightarrow> fd_type (mp_frags s ! k) = FRAG_UNALLOCATED \<longleftrightarrow> k \<notin> items (mp_frag_bitmap s)"
    and "k < num_frags s \<Longrightarrow> fd_type (mp_frags s ! k) \<ge> - 2"
    and "(i, n) \<in> frag_blocks s \<Longrightarrow> 0 < n \<and> i mod 32 + n \<le> 32 \<and> i + n \<le> num_frags s"
    and "(i, n) \<in> frag_blocks s \<Longrightarrow> 0 < j \<Longrightarrow> j < n \<Longrightarrow> mp_frags s ! (i + j) = \<lparr>fd_type = FRAG_REFERENCE, fd_size = of_nat j\<rparr>"
    and "k < num_frags s \<Longrightarrow> fd_type (mp_frags s ! k) = FRAG_REFERENCE \<Longrightarrow> \<exists>i n. (i, n) \<in> frag_blocks s \<and> i < k \<and> k < i + n"
  using assms unfolding frag_ok_def by auto

lemma frag_block_item:
  assumes "frag_ok s" and "(i, n) \<in> frag_blocks s" and "i \<le> k" and "k < i + n"
  shows "fd_type (mp_frags s ! k) \<noteq> FRAG_UNALLOCATED"
proof (cases "k = i")
  case True
  then show ?thesis using assms(2) by (simp add: frag_blocks_def FRAG_UNALLOCATED_def)
next
  case False
  then show ?thesis using frag_okD(8) [OF assms(1,2), of "k - i"] assms(3,4) by (simp add: frag_consts)
qed

lemma frag_blocks_disjoint:
  assumes "frag_ok s" and "(i, n) \<in> frag_blocks s" and "(i', n') \<in> frag_blocks s" and "(i, n) \<noteq> (i', n')"
  shows "{i..<i + n} \<inter> {i'..<i' + n'} = {}"
proof -
  have less: "\<not> j < i + n" if "(i, n) \<in> frag_blocks s" "(j, m) \<in> frag_blocks s" "i < j" for i n j m
  proof
    assume "j < i + n"
    then have "fd_type (mp_frags s ! j) = FRAG_REFERENCE" using frag_okD(8) [OF assms(1) that(1), of "j - i"] that(3) by simp
    then show False using that(2) by (simp add: frag_blocks_def frag_consts)
  qed
  have "i \<noteq> i'" using assms(2-4) by (auto simp: frag_blocks_def)
  then show ?thesis using less [OF assms(2,3)] less [OF assms(3,2)] by (cases i i' rule: linorder_cases) auto
qed

lemma frag_items:
  assumes "frag_ok s" and "k < num_frags s"
  shows "k \<in> items (mp_frag_bitmap s) \<longleftrightarrow> (\<exists>i n. (i, n) \<in> frag_blocks s \<and> i \<le> k \<and> k < i + n)"
proof
  assume "k \<in> items (mp_frag_bitmap s)"
  then have t: "fd_type (mp_frags s ! k) \<ge> - 1" using frag_okD(5,6) [OF assms] by (simp add: frag_consts)
  show "\<exists>i n. (i, n) \<in> frag_blocks s \<and> i \<le> k \<and> k < i + n"
  proof (cases "fd_type (mp_frags s ! k) = - 1")
    case True
    then show ?thesis using frag_okD(9) [OF assms] by (auto simp: frag_consts intro: less_imp_le)
  next
    case False
    then have "(k, unat (fd_size (mp_frags s ! k))) \<in> frag_blocks s" using t assms(2) by (simp add: frag_blocks_def)
    then show ?thesis using frag_okD(7) [OF assms(1)] by force
  qed
next
  assume "\<exists>i n. (i, n) \<in> frag_blocks s \<and> i \<le> k \<and> k < i + n"
  then show "k \<in> items (mp_frag_bitmap s)" using frag_block_item [OF assms(1)] frag_okD(5) [OF assms] by blast
qed

lemma mark_refs_ok:
  assumes "\<And>i. i \<in> set is \<Longrightarrow> idx + i < length fr \<and> fd_type (fr ! (idx + i)) = FRAG_UNALLOCATED" and "distinct is"
  shows "\<exists>fr'. mark_refs idx is fr = Inr fr' \<and> length fr' = length fr
    \<and> (\<forall>k < length fr. fr' ! k = (if idx \<le> k \<and> k - idx \<in> set is then \<lparr>fd_type = FRAG_REFERENCE, fd_size = of_nat (k - idx)\<rparr> else fr ! k))"
  using assms
proof (induction "is" arbitrary: fr)
  case Nil
  then show ?case by simp
next
  case (Cons i "is")
  let ?fr = "fr[idx + i := \<lparr>fd_type = FRAG_REFERENCE, fd_size = of_nat i\<rparr>]"
  have "\<exists>fr'. mark_refs idx is ?fr = Inr fr' \<and> length fr' = length ?fr
    \<and> (\<forall>k < length ?fr. fr' ! k = (if idx \<le> k \<and> k - idx \<in> set is then \<lparr>fd_type = FRAG_REFERENCE, fd_size = of_nat (k - idx)\<rparr> else ?fr ! k))"
  proof (rule Cons.IH)
    show "distinct is" using Cons.prems(2) by simp
    show "idx + j < length ?fr \<and> fd_type (?fr ! (idx + j)) = FRAG_UNALLOCATED" if "j \<in> set is" for j
      using Cons.prems that by (auto simp: nth_list_update)
  qed
  then obtain fr' where fr': "mark_refs idx is ?fr = Inr fr'" "length fr' = length fr"
    "\<And>k. k < length fr \<Longrightarrow> fr' ! k = (if idx \<le> k \<and> k - idx \<in> set is then \<lparr>fd_type = FRAG_REFERENCE, fd_size = of_nat (k - idx)\<rparr> else ?fr ! k)"
    by auto
  have "fr' ! k = (if idx \<le> k \<and> k - idx \<in> set (i # is) then \<lparr>fd_type = FRAG_REFERENCE, fd_size = of_nat (k - idx)\<rparr> else fr ! k)"
    if "k < length fr" for k
    using fr'(3) [OF that] that by (cases "k = idx + i") auto
  then show ?case using fr'(1,2) Cons.prems(1) [of i] by auto
qed

lemma frag_add_block:
  assumes ok: "frag_ok s" and n: "0 < n" "idx mod 32 + n \<le> 32" "idx + n \<le> num_frags s" and fl: "0 \<le> flags"
    and bm: "bitmap_ok bm" "length bm = length (mp_frag_bitmap s)" "{idx..<idx + n} \<inter> items (mp_frag_bitmap s) = {}"
      "items bm = items (mp_frag_bitmap s) \<union> {idx..<idx + n}"
    and fr: "length fr = num_frags s"
      "\<And>k. k < num_frags s \<Longrightarrow> fr ! k = (if k = idx then \<lparr>fd_type = flags, fd_size = of_nat n\<rparr>
         else if idx < k \<and> k < idx + n then \<lparr>fd_type = FRAG_REFERENCE, fd_size = of_nat (k - idx)\<rparr> else mp_frags s ! k)"
  shows "frag_ok (s\<lparr>mp_frag_bitmap := bm, mp_frags := fr\<rparr>) \<and>
    frag_blocks (s\<lparr>mp_frag_bitmap := bm, mp_frags := fr\<rparr>) = insert (idx, n) (frag_blocks s)"
proof -
  let ?s = "s\<lparr>mp_frag_bitmap := bm, mp_frags := fr\<rparr>"
  have nf [simp]: "num_frags ?s = num_frags s" by (simp add: num_frags_def)
  have sz: "unat (of_nat n :: 16 word) = n" using n(2) by (simp add: unat_of_nat)
  have free: "fd_type (mp_frags s ! k) = FRAG_UNALLOCATED" if "idx \<le> k" "k < idx + n" for k
    using frag_okD(5) [OF ok, of k] bm(3) that n(3) by auto
  have blocks: "frag_blocks ?s = insert (idx, n) (frag_blocks s)"
  proof -
    have "(i, m) \<in> frag_blocks ?s \<longleftrightarrow> (i, m) = (idx, n) \<or> (i, m) \<in> frag_blocks s" for i m
      using fr(2) [of i] free [of i] n fl sz by (auto simp: frag_blocks_def frag_consts split: if_splits)
    then show ?thesis by auto
  qed
  have apart: "\<not> (i \<le> k \<and> k < i + m)" if "(i, m) \<in> frag_blocks s" "idx \<le> k" "k < idx + n" for i m k
    using frag_block_item [OF ok that(1)] free that(2,3) by blast
  have "fd_type (fr ! k) \<ge> - 2 \<and> (fd_type (fr ! k) = FRAG_UNALLOCATED \<longleftrightarrow> k \<notin> items bm)" if "k < num_frags s" for k
    using fr(2) [OF that] frag_okD(5,6) [OF ok that] fl n(1) by (auto simp: bm(4) frag_consts)
  moreover have "0 < m \<and> i mod 32 + m \<le> 32 \<and> i + m \<le> num_frags s
      \<and> (\<forall>j \<in> {1..<m}. fr ! (i + j) = \<lparr>fd_type = FRAG_REFERENCE, fd_size = of_nat j\<rparr>)" if im: "(i, m) \<in> frag_blocks ?s" for i m
  proof (cases "(i, m) = (idx, n)")
    case True
    then show ?thesis using n fr(2) by auto
  next
    case False
    then have old: "(i, m) \<in> frag_blocks s" using im blocks by auto
    have "fr ! (i + j) = \<lparr>fd_type = FRAG_REFERENCE, fd_size = of_nat j\<rparr>" if "0 < j" "j < m" for j
      using fr(2) [of "i + j"] apart [OF old, of "i + j"] frag_okD(7) [OF ok old] frag_okD(8) [OF ok old that] that n(1) by auto
    then show ?thesis using frag_okD(7) [OF ok old] by auto
  qed
  moreover have "\<exists>i m. (i, m) \<in> frag_blocks ?s \<and> i < k \<and> k < i + m"
    if k: "k < num_frags s" "fd_type (fr ! k) = FRAG_REFERENCE" for k
  proof (cases "idx < k \<and> k < idx + n")
    case True
    then show ?thesis using blocks by blast
  next
    case False
    then have "fd_type (mp_frags s ! k) = FRAG_REFERENCE" using fr(2) [OF k(1)] k(2) fl by (auto simp: frag_consts split: if_splits)
    then show ?thesis using frag_okD(9) [OF ok k(1)] blocks by blast
  qed
  ultimately have "frag_ok ?s" using frag_okD(1,2) [OF ok] bm(1,2) fr(1) by (auto simp: frag_ok_def)
  then show ?thesis using blocks by blast
qed

lemma bitmap_cells_frags: "bitmap_cells (num_frags s) = num_frags s div 32"
  by (simp add: bitmap_cells_def num_frags_def MP_BITMAP_BITS_def)

lemma frags_of_bounds:
  assumes "0 < sz" and "sz \<le> MPPAGESIZE"
  shows "0 < frags_of sz \<and> frags_of sz \<le> 32 \<and> sz \<le> frags_of sz * MPFRAGSIZE \<and> frags_of sz * MPFRAGSIZE < sz + MPFRAGSIZE"
proof -
  define q r where "q = sz div 256" and "r = sz mod 256"
  have "sz = q * 256 + r" "r < 256" by (simp_all add: q_def r_def)
  moreover have "frags_of sz = q + (if r \<noteq> 0 then 1 else 0)" by (simp add: frags_of_def frag_consts q_def r_def)
  ultimately show ?thesis using assms by (auto simp: frag_consts)
qed

text \<open>
  The fragment allocator on requests of up to a page: it aborts only if the bitmap has no
  room where the search looks; otherwise the assertions hold, the invariant is kept, and the
  segment has exactly one new block, of the smallest number of fragments that hold the request, apart from all others.
\<close>

lemma mp_frag_alloc_block:
  assumes ok: "frag_ok s" and sz: "0 < sz" "sz \<le> MPPAGESIZE" and fl: "0 \<le> flags"
  shows "mp_frag_alloc sz flags s = Inl MP_ABORT \<or>
    (\<exists>idx s'. mp_frag_alloc sz flags s = Inr (idx * MPFRAGSIZE, s') \<and> frag_ok s' \<and> num_frags s' = num_frags s
      \<and> frag_blocks s' = insert (idx, frags_of sz) (frag_blocks s)
      \<and> (\<forall>(i, n) \<in> frag_blocks s. {idx..<idx + frags_of sz} \<inter> {i..<i + n} = {})
      \<and> frag_kind s' idx = flags \<and> (\<forall>(i, n) \<in> frag_blocks s. frag_kind s' i = frag_kind s i))"
proof -
  define n where "n = frags_of sz"
  have n: "0 < n" "n \<le> 32" using frags_of_bounds [OF sz] by (simp_all add: n_def)
  obtain b bm where alloc: "mp_bitmap_alloc (mp_frag_bitmap s) (num_frags s) n = (b, bm)" by fastforce
  have took: "took (num_frags s) n (mp_frag_bitmap s) b bm"
    using frag_okD(1-4) [OF ok] n alloc by (intro mp_bitmap_alloc_took) (simp_all add: bitmap_cells_frags)
  show ?thesis
  proof (cases "b = - 1")
    case True
    then show ?thesis using alloc n fl by (simp add: mp_frag_alloc_def MP_BITMAP_BITS_def flip: n_def)
  next
    case False
    define idx where "idx = nat b"
    have t: "b = int idx" "idx mod 32 + n \<le> 32" "idx + n \<le> num_frags s" "{idx..<idx + n} \<inter> items (mp_frag_bitmap s) = {}"
      "items bm = items (mp_frag_bitmap s) \<union> {idx..<idx + n}" "bitmap_ok bm" "length bm = length (mp_frag_bitmap s)"
      using took False by (auto simp: took_def idx_def)
    have free: "fd_type (mp_frags s ! k) = FRAG_UNALLOCATED" if "idx \<le> k" "k < idx + n" for k
      using frag_okD(5) [OF ok, of k] t(3,4) that by auto
    let ?fr = "(mp_frags s)[idx := \<lparr>fd_type = flags, fd_size = of_nat n\<rparr>]"
    obtain fr where fr: "mark_refs idx [1..<n] ?fr = Inr fr" "length fr = length ?fr"
      "\<And>k. k < length ?fr \<Longrightarrow> fr ! k = (if idx \<le> k \<and> k - idx \<in> set [1..<n]
         then \<lparr>fd_type = FRAG_REFERENCE, fd_size = of_nat (k - idx)\<rparr> else ?fr ! k)"
      using mark_refs_ok [of "[1..<n]" idx ?fr] free t(3) frag_okD(3) [OF ok] by (auto simp: nth_list_update)
    have "frag_ok (s\<lparr>mp_frag_bitmap := bm, mp_frags := fr\<rparr>) \<and>
        frag_blocks (s\<lparr>mp_frag_bitmap := bm, mp_frags := fr\<rparr>) = insert (idx, n) (frag_blocks s)"
      using fr frag_okD(3) [OF ok] n(1) by (intro frag_add_block [OF ok n(1) t(2,3) fl t(6,7,4,5)]) (auto simp: nth_list_update)
    moreover have "mp_frag_alloc sz flags s = Inr (idx * MPFRAGSIZE, s\<lparr>mp_frag_bitmap := bm, mp_frags := fr\<rparr>)"
      using alloc n fl free [of idx] fr(1) t(1) by (simp add: mp_frag_alloc_def MP_BITMAP_BITS_def flip: n_def)
    moreover have "{idx..<idx + n} \<inter> {i..<i + m} = {}" if "(i, m) \<in> frag_blocks s" for i m
      using frag_block_item [OF ok that] free by fastforce
    moreover have "frag_kind (s\<lparr>mp_frag_bitmap := bm, mp_frags := fr\<rparr>) idx = flags"
      using fr(3) [of idx] t(3) n(1) frag_okD(3) [OF ok] by (simp add: frag_kind_def)
    moreover have "frag_kind (s\<lparr>mp_frag_bitmap := bm, mp_frags := fr\<rparr>) i = frag_kind s i" if im: "(i, m) \<in> frag_blocks s" for i m
    proof -
      have "\<not> (idx \<le> i \<and> i < idx + n)" "i < num_frags s"
        using frag_block_item [OF ok im, of i] free [of i] frag_okD(7) [OF ok im] by auto
      then show ?thesis using fr(3) [of i] n(1) frag_okD(3) [OF ok] by (auto simp: frag_kind_def)
    qed
    ultimately show ?thesis
      by (intro disjI2 exI [of _ idx] exI [of _ "s\<lparr>mp_frag_bitmap := bm, mp_frags := fr\<rparr>"])
        (auto simp: num_frags_def simp flip: n_def)
  qed
qed

lemma items_clear:
  assumes "i < length bm" and "b + n \<le> 32" and "used c = used (bm ! i) - {b..<b + n}"
  shows "items (bm[i := c]) = items bm - {32 * i + b..<32 * i + b + n}"
proof -
  have "j \<in> items (bm[i := c]) \<longleftrightarrow> j \<in> items bm \<and> \<not> (j div 32 = i \<and> j mod 32 \<in> {b..<b + n})" for j
    using assms(1,3) by (cases "j div 32 = i") (auto simp: items_def)
  then show ?thesis by (intro set_eqI) (simp add: div_in_cell [OF assms(2), of _ i] del: atLeastLessThan_iff)
qed

lemma mp_bitmap_free_items:
  assumes "bitmap_ok bm" and "idx div 32 < length bm" and "num < 32" and "idx mod 32 + num \<le> 32"
  shows "\<exists>bm'. mp_bitmap_free bm num idx = Some bm' \<and> bitmap_ok bm' \<and> length bm' = length bm
    \<and> items bm' = items bm - {idx..<idx + num}"
proof -
  let ?c = "bm ! (idx div 32) AND NOT (MPREGMASK num (idx mod 32))"
  have sub: "used (bm ! (idx div 32)) \<subseteq> {..<32}" by (auto simp: used_def)
  have "used ?c = used (bm ! (idx div 32)) - {idx mod 32..<idx mod 32 + num}"
    using sub by (auto simp: used_regmask [OF assms(4)])
  then have "items (bm[idx div 32 := ?c]) = items bm - {idx..<idx + num}"
    using items_clear [OF assms(2,4)] by simp
  moreover have "bitmap_ok (bm[idx div 32 := ?c])"
    using assms(1,2) set_update_subset_insert [of bm "idx div 32" ?c] by (auto simp: bitmap_ok_def)
  ultimately show ?thesis using assms(3) by (simp add: mp_bitmap_free_def MP_BITMAP_BITS_def Let_def)
qed

lemma clear_descrs:
  assumes "idx + m \<le> length fr"
  shows "length (fold (\<lambda>i fr. fr[idx + i := (fr ! (idx + i))\<lparr>fd_type := t\<rparr>]) [0..<m] fr) = length fr \<and>
    (\<forall>k < length fr. fold (\<lambda>i fr. fr[idx + i := (fr ! (idx + i))\<lparr>fd_type := t\<rparr>]) [0..<m] fr ! k =
      (if idx \<le> k \<and> k < idx + m then (fr ! k)\<lparr>fd_type := t\<rparr> else fr ! k))"
  using assms by (induction m) (auto simp: nth_list_update)

lemma frag_remove_block:
  assumes ok: "frag_ok s" and blk: "(idx, n) \<in> frag_blocks s"
    and bm: "bitmap_ok bm" "length bm = length (mp_frag_bitmap s)" "items bm = items (mp_frag_bitmap s) - {idx..<idx + n}"
    and fr: "length fr = num_frags s"
      "\<And>k. k < num_frags s \<Longrightarrow> fr ! k = (if idx \<le> k \<and> k < idx + n then (mp_frags s ! k)\<lparr>fd_type := FRAG_UNALLOCATED\<rparr> else mp_frags s ! k)"
  shows "frag_ok (s\<lparr>mp_frag_bitmap := bm, mp_frags := fr\<rparr>) \<and>
    frag_blocks (s\<lparr>mp_frag_bitmap := bm, mp_frags := fr\<rparr>) = frag_blocks s - {(idx, n)}"
proof -
  let ?s = "s\<lparr>mp_frag_bitmap := bm, mp_frags := fr\<rparr>"
  have nf [simp]: "num_frags ?s = num_frags s" by (simp add: num_frags_def)
  have apart: "k < idx \<or> idx + n \<le> k" if "(i, m) \<in> frag_blocks s" "(i, m) \<noteq> (idx, n)" "i \<le> k" "k < i + m" for i m k
    using frag_blocks_disjoint [OF ok blk that(1)] that(2-4) by force
  have pos: "0 < m" if "(i, m) \<in> frag_blocks s" for i m using frag_okD(7) [OF ok that] by blast
  have blocks: "(i, m) \<in> frag_blocks ?s \<longleftrightarrow> (i, m) \<in> frag_blocks s \<and> (i, m) \<noteq> (idx, n)" for i m
  proof (cases "idx \<le> i \<and> i < idx + n")
    case True
    then have "(i, m) \<notin> frag_blocks ?s" using fr(2) [of i] by (auto simp: frag_blocks_def frag_consts)
    moreover have "(i, m) \<in> frag_blocks s \<Longrightarrow> (i, m) = (idx, n)" using apart [of i m i] pos [of i m] True by force
    ultimately show ?thesis by blast
  next
    case False
    then have "(i, m) \<noteq> (idx, n)" using pos [OF blk] by auto
    then show ?thesis using fr(2) [of i] False by (auto simp: frag_blocks_def)
  qed
  have "fd_type (fr ! k) \<ge> - 2 \<and> (fd_type (fr ! k) = FRAG_UNALLOCATED \<longleftrightarrow> k \<notin> items bm)" if "k < num_frags s" for k
    using fr(2) [OF that] frag_okD(5,6) [OF ok that] by (auto simp: bm(3) frag_consts)
  moreover have "0 < m \<and> i mod 32 + m \<le> 32 \<and> i + m \<le> num_frags s
      \<and> (\<forall>j \<in> {1..<m}. fr ! (i + j) = \<lparr>fd_type = FRAG_REFERENCE, fd_size = of_nat j\<rparr>)" if im: "(i, m) \<in> frag_blocks ?s" for i m
  proof -
    have old: "(i, m) \<in> frag_blocks s" "(i, m) \<noteq> (idx, n)" using im blocks by auto
    have "fr ! (i + j) = \<lparr>fd_type = FRAG_REFERENCE, fd_size = of_nat j\<rparr>" if "0 < j" "j < m" for j
      using fr(2) [of "i + j"] apart [OF old, of "i + j"] frag_okD(7) [OF ok old(1)] frag_okD(8) [OF ok old(1) that] that by auto
    then show ?thesis using frag_okD(7) [OF ok old(1)] by auto
  qed
  moreover have "\<exists>i m. (i, m) \<in> frag_blocks ?s \<and> i < k \<and> k < i + m"
    if k: "k < num_frags s" "fd_type (fr ! k) = FRAG_REFERENCE" for k
  proof -
    have out: "\<not> (idx \<le> k \<and> k < idx + n)" using fr(2) [OF k(1)] k(2) by (auto simp: frag_consts)
    then have "fd_type (mp_frags s ! k) = FRAG_REFERENCE" using fr(2) [OF k(1)] k(2) by auto
    then obtain i m where "(i, m) \<in> frag_blocks s" "i < k" "k < i + m" using frag_okD(9) [OF ok k(1)] by blast
    then show ?thesis using blocks out by (metis less_imp_le old.prod.inject)
  qed
  ultimately have "frag_ok ?s" using frag_okD(1,2) [OF ok] bm(1,2) fr(1) by (auto simp: frag_ok_def)
  then show ?thesis using blocks by auto
qed

lemma mp_frag_free_block:
  assumes ok: "frag_ok s" and blk: "(idx, n) \<in> frag_blocks s"
  shows "n < 32 \<Longrightarrow> \<exists>s'. mp_frag_free (idx * MPFRAGSIZE) s = Inr s' \<and> frag_ok s' \<and> num_frags s' = num_frags s
      \<and> frag_blocks s' = frag_blocks s - {(idx, n)} \<and> (\<forall>(i, m) \<in> frag_blocks s'. frag_kind s' i = frag_kind s i)"
    and "n = 32 \<Longrightarrow> mp_frag_free (idx * MPFRAGSIZE) s = Inl MP_UNDEFINED"
proof -
  note b = frag_okD(7) [OF ok blk]
  have idx: "idx * MPFRAGSIZE div MPFRAGSIZE = idx" "idx < num_frags s" "fd_type (mp_frags s ! idx) \<ge> 0" "unat (fd_size (mp_frags s ! idx)) = n"
    using blk by (auto simp: frag_blocks_def frag_consts)
  show "n = 32 \<Longrightarrow> mp_frag_free (idx * MPFRAGSIZE) s = Inl MP_UNDEFINED"
    using idx by (simp add: mp_frag_free_def Let_def mp_bitmap_free_def MP_BITMAP_BITS_def)
  assume n: "n < 32"
  have "idx div 32 < length (mp_frag_bitmap s)"
    using idx(2) frag_okD(2) [OF ok] by (simp add: num_frags_def MP_BITMAP_BITS_def less_mult_imp_div_less)
  then obtain bm where bm: "mp_bitmap_free (mp_frag_bitmap s) n idx = Some bm" "bitmap_ok bm" "length bm = length (mp_frag_bitmap s)"
      "items bm = items (mp_frag_bitmap s) - {idx..<idx + n}"
    using mp_bitmap_free_items [OF frag_okD(4) [OF ok], of idx n] n b by auto
  define fr where "fr = fold (\<lambda>i fr. fr[idx + i := (fr ! (idx + i))\<lparr>fd_type := FRAG_UNALLOCATED\<rparr>]) [0..<n] (mp_frags s)"
  have fr: "length fr = num_frags s"
      "\<And>k. k < num_frags s \<Longrightarrow> fr ! k = (if idx \<le> k \<and> k < idx + n then (mp_frags s ! k)\<lparr>fd_type := FRAG_UNALLOCATED\<rparr> else mp_frags s ! k)"
    using clear_descrs [of idx n "mp_frags s" FRAG_UNALLOCATED] b frag_okD(3) [OF ok] by (auto simp: fr_def)
  have "mp_frag_free (idx * MPFRAGSIZE) s = Inr (s\<lparr>mp_frag_bitmap := bm, mp_frags := fr\<rparr>)"
    using idx n bm(1) by (simp add: mp_frag_free_def Let_def MP_BITMAP_BITS_def fr_def)
  moreover note rem = frag_remove_block [OF ok blk bm(2-4) fr]
  moreover have "frag_kind (s\<lparr>mp_frag_bitmap := bm, mp_frags := fr\<rparr>) i = frag_kind s i" if im: "(i, m) \<in> frag_blocks s - {(idx, n)}" for i m
  proof -
    have "i < num_frags s" "0 < m" using frag_okD(7) [OF ok, of i m] im by auto
    moreover have "{idx..<idx + n} \<inter> {i..<i + m} = {}" using frag_blocks_disjoint [OF ok blk] im by blast
    ultimately show ?thesis using fr(2) [of i] by (auto simp: frag_kind_def)
  qed
  ultimately show "\<exists>s'. mp_frag_free (idx * MPFRAGSIZE) s = Inr s' \<and> frag_ok s' \<and> num_frags s' = num_frags s
      \<and> frag_blocks s' = frag_blocks s - {(idx, n)} \<and> (\<forall>(i, m) \<in> frag_blocks s'. frag_kind s' i = frag_kind s i)"
    by (auto simp: num_frags_def)
qed

lemma mp_frag_get_descr_block:
  assumes ok: "frag_ok s" and blk: "(idx, n) \<in> frag_blocks s" and off: "off < n * MPFRAGSIZE"
  shows "mp_frag_get_descr s (idx * MPFRAGSIZE + off) = Some idx"
proof -
  have div: "(idx * MPFRAGSIZE + off) div MPFRAGSIZE = idx + off div MPFRAGSIZE" by (simp add: frag_consts)
  have j: "off div MPFRAGSIZE < n" using off by (simp add: less_mult_imp_div_less)
  have n: "n \<le> 32" using frag_okD(7) [OF ok blk] by simp
  show ?thesis
  proof (cases "off div MPFRAGSIZE = 0")
    case True
    then show ?thesis using blk div by (simp add: mp_frag_get_descr_def frag_blocks_def frag_consts)
  next
    case False
    then have "mp_frags s ! (idx + off div MPFRAGSIZE) = \<lparr>fd_type = FRAG_REFERENCE, fd_size = of_nat (off div MPFRAGSIZE)\<rparr>"
      using frag_okD(8) [OF ok blk _ j] by simp
    moreover have "unat (of_nat (off div MPFRAGSIZE) :: 16 word) = off div MPFRAGSIZE" using j n by (simp add: unat_of_nat)
    ultimately show ?thesis by (simp add: mp_frag_get_descr_def div) (simp add: frag_consts)
  qed
qed

subsection \<open>The allocator contract\<close>

text \<open>
  The fragment allocator meets the contract of a block allocator, in units of fragments, for requests of less than a page
  (a block of a whole page cannot be freed).
\<close>

definition frag_alloc_unit :: "nat \<Rightarrow> frag_seg \<Rightarrow> (nat \<times> frag_seg) option" where
  "frag_alloc_unit sz s =
     (case mp_frag_alloc sz FRAG_COMMON s of Inl e \<Rightarrow> None | Inr (p, s') \<Rightarrow> Some (p div MPFRAGSIZE, s'))"

definition frag_free_unit :: "nat \<Rightarrow> frag_seg \<Rightarrow> frag_seg option" where
  "frag_free_unit i s = (case mp_frag_free (i * MPFRAGSIZE) s of Inl e \<Rightarrow> None | Inr s' \<Rightarrow> Some s')"

definition frag_small :: "frag_seg \<Rightarrow> bool" where
  "frag_small s \<longleftrightarrow> frag_ok s \<and> (\<forall>(i, n) \<in> frag_blocks s. n < 32)"

definition below_page :: "nat \<Rightarrow> bool" where
  "below_page sz \<longleftrightarrow> 0 < sz \<and> sz \<le> 31 * MPFRAGSIZE"

lemma below_page_frags: "below_page sz \<Longrightarrow> 0 < sz \<and> sz \<le> MPPAGESIZE \<and> frags_of sz < 32"
  using frags_of_bounds [of sz] by (auto simp: below_page_def frag_consts)

interpretation frags: block_allocator frag_small frag_blocks below_page frags_of frag_alloc_unit frag_free_unit
proof unfold_locales
  show "extent x \<inter> extent y = {}" if "frag_small s" "x \<in> frag_blocks s" "y \<in> frag_blocks s" "x \<noteq> y" for s x y
    using that frag_blocks_disjoint [of s "fst x" "snd x" "fst y" "snd y"] by (simp add: frag_small_def extent_def prod_eq_iff)
  show "0 < snd x" if "frag_small s" "x \<in> frag_blocks s" for s x
    using that frag_okD(7) [of s "fst x" "snd x"] by (simp add: frag_small_def)
  show "frag_small s' \<and> (\<exists>n \<ge> frags_of r. (a, n) \<notin> frag_blocks s \<and> frag_blocks s' = insert (a, n) (frag_blocks s))"
    if small: "frag_small s" and valid: "below_page r" and alloc: "frag_alloc_unit r s = Some (a, s')" for s r a s'
  proof -
    have r: "0 < r" "r \<le> MPPAGESIZE" "0 < frags_of r" "frags_of r < 32"
      using below_page_frags [OF valid] frags_of_bounds [of r] by auto
    have ok: "frag_ok s" using small by (simp add: frag_small_def)
    obtain s1 where s1: "mp_frag_alloc r FRAG_COMMON s = Inr (a * MPFRAGSIZE, s1)" "s' = s1" "frag_ok s1"
        "frag_blocks s1 = insert (a, frags_of r) (frag_blocks s)"
        "\<forall>(i, n) \<in> frag_blocks s. {a..<a + frags_of r} \<inter> {i..<i + n} = {}"
      using mp_frag_alloc_block [OF ok r(1,2), of FRAG_COMMON] alloc by (auto simp: frag_alloc_unit_def frag_consts)
    have "(a, frags_of r) \<notin> frag_blocks s" using s1(5) r(3) by force
    then show ?thesis using s1 small r(4) by (auto simp: frag_small_def)
  qed
  show "\<exists>s'. frag_free_unit a s = Some s' \<and> frag_small s' \<and> frag_blocks s' = frag_blocks s - {(a, n)}"
    if "frag_small s" "(a, n) \<in> frag_blocks s" for s a n
  proof -
    have "frag_ok s" "n < 32" using that by (auto simp: frag_small_def)
    then show ?thesis using that mp_frag_free_block(1) [of s a n] by (fastforce simp: frag_small_def frag_free_unit_def)
  qed
qed

text \<open>
  C30. The page-fragment allocator used through \<open>mp_frag_alloc\<close> and \<open>mp_frag_free\<close> with requests below a page: all
  fragments handed out hold what was asked for and do not overlap each other or older ones, every address in them leads back to their
  descriptor, and freeing them in any order succeeds and gives back exactly what was taken.
\<close>

theorem mp_frag_alloc_free:
  assumes "frag_small s" and "\<forall>r \<in> set rs. below_page r" and "alloc_all frag_alloc_unit rs s = Some (as, s')" and "mset as' = mset as"
  shows "(\<forall>x \<in> frag_blocks s'. \<forall>y \<in> frag_blocks s'. x \<noteq> y \<longrightarrow> extent x \<inter> extent y = {})
    \<and> (\<forall>i < length rs. \<exists>n. (as ! i, n) \<in> frag_blocks s' \<and> rs ! i \<le> n * MPFRAGSIZE
         \<and> (\<forall>off < n * MPFRAGSIZE. mp_frag_get_descr s' (as ! i * MPFRAGSIZE + off) = Some (as ! i)))
    \<and> (\<exists>s''. release_all frag_free_unit as' s' = Some s'' \<and> frag_small s'' \<and> frag_blocks s'' = frag_blocks s)"
proof -
  note all = frags.alloc_all_blocks [OF assms(1-3)]
  then have ok: "frag_small s'" by blast
  have "\<exists>n. (as ! i, n) \<in> frag_blocks s' \<and> rs ! i \<le> n * MPFRAGSIZE
      \<and> (\<forall>off < n * MPFRAGSIZE. mp_frag_get_descr s' (as ! i * MPFRAGSIZE + off) = Some (as ! i))" if i: "i < length rs" for i
  proof -
    obtain n where n: "n \<ge> frags_of (rs ! i)" "(as ! i, n) \<in> frag_blocks s'" using all i by blast
    have "rs ! i \<le> frags_of (rs ! i) * MPFRAGSIZE"
      using assms(2) i below_page_frags frags_of_bounds by (metis nth_mem)
    then have "rs ! i \<le> n * MPFRAGSIZE" using n(1) by (meson le_trans mult_le_mono1)
    then show ?thesis using n(2) mp_frag_get_descr_block [OF _ n(2)] ok by (auto simp: frag_small_def)
  qed
  then show ?thesis using frags.disjoint [OF ok] frags.alloc_release_all [OF assms] by blast
qed

lemma frag_init_ok:
  assumes "MPPAGESIZE \<le> sz"
  shows "frag_small (mp_frag_allocator_init junk sz) \<and> frag_blocks (mp_frag_allocator_init junk sz) = {}"
proof -
  let ?s = "mp_frag_allocator_init junk sz"
  have nf: "num_frags ?s = sz div MPPAGESIZE * 32" "0 < sz div MPPAGESIZE"
    using assms by (simp_all add: num_frags_def mp_frag_allocator_init_def Let_def MP_BITMAP_BITS_def div_greater_zero_iff MPPAGESIZE_def)
  have fr: "k < num_frags ?s \<Longrightarrow> fd_type (mp_frags ?s ! k) = FRAG_UNALLOCATED" for k
    using nf by (simp add: mp_frag_allocator_init_def Let_def MP_BITMAP_BITS_def)
  have "items (mp_frag_bitmap ?s) = {}" by (auto simp: items_def mp_frag_allocator_init_def Let_def)
  moreover have "bitmap_ok (mp_frag_bitmap ?s)" by (auto simp: bitmap_ok_def mp_frag_allocator_init_def Let_def)
  moreover have "length (mp_frag_bitmap ?s) = sz div MPPAGESIZE" "length (mp_frags ?s) = num_frags ?s"
    using nf by (simp_all add: mp_frag_allocator_init_def Let_def MP_BITMAP_BITS_def)
  moreover have "frag_blocks ?s = {}" using fr by (auto simp: frag_blocks_def frag_consts)
  ultimately show ?thesis using nf fr by (auto simp: frag_small_def frag_ok_def frag_consts)
qed

theorem mp_frag_alloc_free_witness:
  "\<exists>s' s''. alloc_all frag_alloc_unit [300, 200] (mp_frag_allocator_init (\<lambda>_. 0) 8192) = Some ([0, 2], s')
    \<and> mp_frag_get_descr s' (0 * MPFRAGSIZE + 299) = Some 0
    \<and> release_all frag_free_unit [2, 0] s' = Some s'' \<and> frag_blocks s'' = {}"
proof -
  let ?s = "mp_frag_allocator_init (\<lambda>_. 0) 8192"
  have bm: "mp_bitmap_alloc [0] 32 2 = (0, [3])" "mp_bitmap_alloc [3] 32 1 = (2, [7])" by code_simp+
  have nf: "num_frags (?s\<lparr>mp_frag_bitmap := b, mp_frags := f\<rparr>) = 32" "num_frags ?s = 32" for b f
    by (simp_all add: num_frags_def mp_frag_allocator_init_def frag_consts)
  have init: "mp_frag_bitmap ?s = [0]" "mp_frags ?s = map (\<lambda>i. \<lparr>fd_type = FRAG_UNALLOCATED, fd_size = 0\<rparr>) [0..<32]"
    by (simp_all add: mp_frag_allocator_init_def frag_consts)
  have need: "frags_of 300 = 2" "frags_of 200 = 1" by (simp_all add: frags_of_def frag_consts)
  obtain s1 where s1: "frag_alloc_unit 300 ?s = Some (0, s1)" "mp_frag_bitmap s1 = [3]" "num_frags s1 = 32"
      "mp_frags s1 ! 2 = \<lparr>fd_type = FRAG_UNALLOCATED, fd_size = 0\<rparr>"
    using bm(1) nf by (simp add: frag_alloc_unit_def mp_frag_alloc_def need init frag_consts upt_conv_Cons)
  obtain s' where "frag_alloc_unit 200 s1 = Some (2, s')"
    using bm(2) s1(2-4) by (simp add: frag_alloc_unit_def mp_frag_alloc_def need frag_consts)
  then have s': "alloc_all frag_alloc_unit [300, 200] ?s = Some ([0, 2], s')" using s1(1) by simp
  have none: "frag_small ?s" "frag_blocks ?s = {}" using frag_init_ok [of 8192 "\<lambda>_. 0"] by (simp_all add: MPPAGESIZE_def)
  have valid: "\<forall>r \<in> set [300, 200]. below_page r" by (simp add: below_page_def frag_consts)
  have "mset [2, 0] = mset [0, 2 :: nat]" by simp
  note spec1 = mp_frag_alloc_free [OF none(1) valid s' this]
  have "\<forall>i < 2. \<exists>n. ([0, 2 :: nat] ! i, n) \<in> frag_blocks s' \<and> [300, 200] ! i \<le> n * MPFRAGSIZE
      \<and> (\<forall>off < n * MPFRAGSIZE. mp_frag_get_descr s' ([0, 2] ! i * MPFRAGSIZE + off) = Some ([0, 2] ! i))"
    using spec1 by simp
  then obtain n where "300 \<le> n * MPFRAGSIZE" "\<forall>off < n * MPFRAGSIZE. mp_frag_get_descr s' (0 * MPFRAGSIZE + off) = Some 0"
    by (fastforce dest: spec [of _ 0])
  then have "mp_frag_get_descr s' (0 * MPFRAGSIZE + 299) = Some 0" by simp
  then show ?thesis using s' spec1 none(2) by auto
qed

section \<open>Requests of no bytes\<close>

lemma cell_alloc_zero:
  assumes "cell_ok c" and "c \<noteq> MP_BITMAP_BUSY"
  shows "mp_bitmap_cell_alloc c 0 32 = (int (mp_bitmap_find_one c), c)"
    and "fst (mp_bitmap_cell_alloc c 1 32) = int (mp_bitmap_find_one c)"
proof -
  have k: "mp_bitmap_find_one c < 32" using free_bit [OF assms] by blast
  have "MP_BITMAP_BUSY AND c = c" by (rule cell_ok_mask [OF assms(1)])
  moreover have "MPREGMASK 0 b = 0" for b by (simp add: MPREGMASK_def)
  ultimately show "mp_bitmap_cell_alloc c 0 32 = (int (mp_bitmap_find_one c), c)"
    using assms(2) k find_region_first [of 0 c] by (simp add: mp_bitmap_cell_alloc_def cell_take_def MP_BITMAP_BITS_def)
  show "fst (mp_bitmap_cell_alloc c 1 32) = int (mp_bitmap_find_one c)"
    using assms(2) k by (simp add: mp_bitmap_cell_alloc_def cell_take_def Let_def)
qed

lemma alloc_pass_full:
  assumes "i < nc"
  shows "mp_alloc_pass nc 32 n i bm = (case mp_bitmap_cell_alloc (bm ! i) n 32 of
    (b, c) \<Rightarrow> if b \<noteq> - 1 then (int i * 32 + b, bm[i := c]) else mp_alloc_pass nc 32 n (Suc i) (bm[i := c]))"
  by (subst mp_alloc_pass.simps) (simp only: assms if_True Let_def MP_BITMAP_BITS_def if_cancel of_nat_numeral Suc_eq_plus1)

lemma alloc_pass_zero:
  assumes "bitmap_ok bm" and "length bm = nc"
  shows "mp_alloc_pass nc 32 0 i bm = (fst (mp_alloc_pass nc 32 1 i bm), bm)"
  using assms
proof (induction "nc - i" arbitrary: i)
  case 0
  then show ?case by (simp add: mp_alloc_pass.simps)
next
  case (Suc d)
  then have i: "i < nc" "cell_ok (bm ! i)" by (simp_all add: bitmap_ok_def)
  have IH: "mp_alloc_pass nc 32 0 (Suc i) bm = (fst (mp_alloc_pass nc 32 1 (Suc i) bm), bm)" using Suc by simp
  show ?case
  proof (cases "bm ! i = MP_BITMAP_BUSY")
    case True
    then have bm: "bm[i := MP_BITMAP_BUSY] = bm" by (metis list_update_id)
    have cell: "mp_bitmap_cell_alloc MP_BITMAP_BUSY n m = (- 1, MP_BITMAP_BUSY)" for n m by (simp add: mp_bitmap_cell_alloc_def)
    show ?thesis using i(1) IH True
      by (simp add: alloc_pass_full [of i] cell bm)
  next
    case False
    obtain c where c: "mp_bitmap_cell_alloc (bm ! i) 1 32 = (int (mp_bitmap_find_one (bm ! i)), c)"
      using cell_alloc_zero(2) [OF i(2) False] by (metis prod.collapse)
    show ?thesis using i(1) c cell_alloc_zero(1) [OF i(2) False]
      by (simp add: alloc_pass_full)
  qed
qed

lemma mp_bitmap_alloc_zero:
  assumes "bitmap_ok bm" and "length bm = nc" and "fst (mp_bitmap_alloc bm (nc * 32) 1) \<noteq> - 1"
  shows "mp_bitmap_alloc bm (nc * 32) 0 = (fst (mp_bitmap_alloc bm (nc * 32) 1), bm)"
proof -
  have retry: "mp_bitmap_alloc bm (nc * 32) n = mp_alloc_retry (Suc (Suc (Suc 0))) nc 32 n bm" for n
    by (simp add: mp_bitmap_alloc_def bitmap_cells_def MP_BITMAP_BITS_def MPMAXRETRIES_def numeral_3_eq_3)
  have same: "bm1 = bm" if "mp_alloc_pass nc 32 1 0 bm = (- 1, bm1)" for bm1
    using alloc_pass_took [OF assms(1,2) zero_less_one _ _ refl that] by (auto simp: took_def)
  have "fst (mp_alloc_pass nc 32 1 0 bm) \<noteq> - 1"
  proof
    assume "fst (mp_alloc_pass nc 32 1 0 bm) = - 1"
    then have "mp_alloc_pass nc 32 1 0 bm = (- 1, bm)" using same by (metis prod.collapse)
    then show False using assms(3) by (simp add: retry)
  qed
  then show ?thesis unfolding retry using alloc_pass_zero [OF assms(1,2), of 0] by (auto simp: split: prod.splits)
qed

text \<open>
  A request for no bytes takes the descriptor of the next free fragment without marking it in the bitmap,
  and freeing the pointer does not give the descriptor back: the next request for a fragment fails the assertion that the
  descriptor is unallocated.
\<close>

theorem mp_frag_alloc_nothing:
  assumes "frag_ok s" and "0 \<le> flags" and "0 \<le> flags'" and "0 < sz" and "sz \<le> MPFRAGSIZE"
    and "mp_frag_alloc sz flags' s \<noteq> Inl MP_ABORT"
  shows "\<exists>p s'. mp_frag_alloc 0 flags s = Inr (p, s') \<and> mp_frag_free p s' = Inr s' \<and> mp_frag_alloc sz flags' s' = Inl MP_ASSERT"
proof -
  note ok = frag_okD [OF assms(1)]
  define nc where "nc = mp_segment_size s div MPPAGESIZE"
  have nf: "num_frags s = nc * 32" by (simp add: num_frags_def nc_def MP_BITMAP_BITS_def)
  have len: "length (mp_frag_bitmap s) = nc" using ok(2) nf by simp
  have one: "frags_of sz = 1"
    using assms(4,5) frags_of_bounds [of sz] by (auto simp: frag_consts)
  obtain b bm where b: "mp_bitmap_alloc (mp_frag_bitmap s) (nc * 32) 1 = (b, bm)" by fastforce
  have "b \<noteq> - 1" using assms(3,6) b by (auto simp: mp_frag_alloc_def one nf MP_BITMAP_BITS_def)
  have zero: "mp_bitmap_alloc (mp_frag_bitmap s) (nc * 32) 0 = (b, mp_frag_bitmap s)"
    using mp_bitmap_alloc_zero [OF ok(4) len] b \<open>b \<noteq> - 1\<close> by simp
  have took: "took (nc * 32) 1 (mp_frag_bitmap s) b bm"
    using b ok(1,2,4) nf len by (intro mp_bitmap_alloc_took) (simp_all add: bitmap_cells_def MP_BITMAP_BITS_def)
  then have idx: "b = int (nat b)" "nat b < nc * 32" "nat b \<notin> items (mp_frag_bitmap s)"
    using \<open>b \<noteq> - 1\<close> by (auto simp: took_def)
  have free: "fd_type (mp_frags s ! nat b) = FRAG_UNALLOCATED" using ok(5) idx(2,3) nf by simp
  define s' where "s' = s\<lparr>mp_frag_bitmap := mp_frag_bitmap s, mp_frags := (mp_frags s)[nat b := \<lparr>fd_type = flags, fd_size = 0\<rparr>]\<rparr>"
  have nf': "num_frags s' = nc * 32" by (simp add: s'_def num_frags_def nc_def MP_BITMAP_BITS_def)
  have desc: "mp_frags s' ! nat b = \<lparr>fd_type = flags, fd_size = 0\<rparr>" using idx(2) ok(3) nf by (simp add: s'_def)
  have "mp_frag_alloc 0 flags s = Inr (nat b * MPFRAGSIZE, s')"
    using zero assms(2) free \<open>b \<noteq> - 1\<close> by (simp add: mp_frag_alloc_def frags_of_def nf s'_def)
  moreover have "mp_frag_free (nat b * MPFRAGSIZE) s' = Inr s'"
  proof -
    have "nat b * MPFRAGSIZE div MPFRAGSIZE = nat b" by (simp add: frag_consts)
    then show ?thesis using idx(2) nf' desc assms(2)
      by (simp add: mp_frag_free_def mp_bitmap_free_def MPREGMASK_def MP_BITMAP_BITS_def Let_def)
  qed
  moreover have "mp_frag_alloc sz flags' s' = Inl MP_ASSERT"
    using b \<open>b \<noteq> - 1\<close> desc assms(2,3) by (simp add: mp_frag_alloc_def one nf' MP_BITMAP_BITS_def) (simp add: s'_def frag_consts)
  ultimately show ?thesis by blast
qed

theorem mp_frag_alloc_nothing_witness:
  "\<exists>p s'. mp_frag_alloc 0 FRAG_COMMON (mp_frag_allocator_init (\<lambda>_. 7) 16384) = Inr (p, s')
    \<and> mp_frag_free p s' = Inr s' \<and> mp_frag_alloc 100 FRAG_SLAB s' = Inl MP_ASSERT"
proof (rule mp_frag_alloc_nothing)
  let ?s = "mp_frag_allocator_init (\<lambda>_. 7) 16384"
  show "frag_ok ?s" using frag_init_ok [of 16384] by (simp add: frag_small_def MPPAGESIZE_def)
  have "mp_bitmap_alloc [0, 0] 64 1 = (0, [1, 0])" by code_simp
  then show "mp_frag_alloc 100 FRAG_SLAB ?s \<noteq> Inl MP_ABORT"
    by (simp add: mp_frag_alloc_def frags_of_def num_frags_def frag_consts mp_frag_allocator_init_def numeral_2_eq_2 split: sum.splits)
qed (simp_all add: frag_consts)

end
