(* ===== verification/MpHeap.thy ===== *)
theory MpHeap
  imports MpTree MpFrag
begin

text \<open>
  The heap of the memory pool (\<open>libtscommon/mempool.c\<close>): pages tiled by fragments with headers, allocation with
  splitting, freeing with defragmentation, the list of pages, and the entry points that choose between heap and
  fragments. One thread: every lock is free when it is tried.
\<close>

section \<open>Pages\<close>

definition MPHEAPUNIT :: nat where "MPHEAPUNIT = 4"
definition MPHEAPMINUNITS :: nat where "MPHEAPMINUNITS = 4"
definition MPHEAPMAXALLOC :: nat where "MPHEAPMAXALLOC = 800 * MPHEAPUNIT"
definition MPHHDEFRAGFREE :: nat where "MPHHDEFRAGFREE = 16"
definition MPHHDEFRAGPERIOD :: int where "MPHHDEFRAGPERIOD = 8"
definition MPHEAPHHSIZE :: nat where "MPHEAPHHSIZE = MPHEAPUNIT"
definition MPHEAPPAGESIZE :: nat where "MPHEAPPAGESIZE = MPHEAPUNIT * MPHEAPMAXUNITS"

lemmas heap_consts = MPHEAPUNIT_def MPHEAPMINUNITS_def MPHEAPMAXALLOC_def MPHHDEFRAGFREE_def MPHHDEFRAGPERIOD_def
  MPHEAPHHSIZE_def MPHEAPPAGESIZE_def MPHEAPMAXUNITS_def

text \<open>\<open>hp_base\<close> is the address of the page, \<open>hp_store\<close> the headers in it.\<close>

record heap_page =
  hp_base :: addr
  hp_free :: nat
  hp_birth :: int
  hp_defrag_period :: int
  hp_allocated_count :: nat
  hp_free_count :: nat
  hp_root_free :: "nat option"
  hp_store :: hstore

text \<open>\<open>hdr\<close> is the size of \<open>mp_heap_page_t\<close> in units; the first header follows it.\<close>

definition page_init :: "nat \<Rightarrow> addr \<Rightarrow> int \<Rightarrow> hstore \<Rightarrow> heap_page" where
  "page_init hdr base now h =
     (let free = (MPHEAPPAGESIZE - hdr * MPHEAPUNIT - MPHEAPHHSIZE) div MPHEAPUNIT in
      \<lparr>hp_base = base, hp_free = free, hp_birth = now, hp_defrag_period = 1, hp_allocated_count = 0, hp_free_count = 1,
       hp_root_free = Some hdr, hp_store = MP_HEAP_HEADER_INIT hdr free h\<rparr>)"

definition heap_units :: "nat \<Rightarrow> nat" where
  "heap_units sz =
     (let units = sz div MPHEAPUNIT + (if sz mod MPHEAPUNIT \<noteq> 0 then 1 else 0) + MPHEAPHHSIZE div MPHEAPUNIT
      in if units < MPHEAPMINUNITS then MPHEAPMINUNITS else units)"

text \<open>The part of \<open>mp_heap_alloc\<close> on a page that is locked: the search, the mark, the split.\<close>

definition page_take :: "nat \<Rightarrow> heap_page \<Rightarrow> (nat option \<times> heap_page) option" where
  "page_take units pg =
     do { (res, root, h) \<leftarrow> mp_heap_btree_find_delete (hp_root_free pg) units (hp_store pg);
          (case res of
             None \<Rightarrow> Some (None, pg)
           | Some hh \<Rightarrow>
               (let h1 = MP_HH_MARK_ALLOCATED hh h; diff = hh_size (h1 hh) - units;
                    pg1 = pg\<lparr>hp_root_free := root, hp_store := h1, hp_allocated_count := hp_allocated_count pg + 1,
                             hp_free_count := hp_free_count pg - 1\<rparr>
                in if diff > MPHEAPMINUNITS then
                     (let h2 = h1(hh := (h1 hh)\<lparr>hh_size := units mod 1024\<rparr>);
                          hh_next = MP_HH_NEXT h2 hh;
                          h3 = MP_HEAP_HEADER_INIT hh_next diff h2
                      in do { (root2, h4) \<leftarrow> mp_heap_btree_insert root hh_next h3;
                              Some (Some hh, pg1\<lparr>hp_root_free := root2, hp_store := h4, hp_free_count := hp_free_count pg1 + 1,
                                                 hp_free := hp_free pg - hh_size (h4 hh)\<rparr>) })
                   else Some (Some hh, pg1\<lparr>hp_free := hp_free pg - hh_size (h1 hh)\<rparr>))) }"

text \<open>The part of \<open>mp_heap_free\<close> that gives a header back to the page.\<close>

definition page_put :: "nat \<Rightarrow> heap_page \<Rightarrow> heap_page option" where
  "page_put hh pg =
     do { (root, h) \<leftarrow> mp_heap_btree_insert (hp_root_free pg) hh (hp_store pg);
          Some (pg\<lparr>hp_root_free := root, hp_store := h, hp_free_count := hp_free_count pg + 1,
                   hp_free := hp_free pg + hh_size (h hh), hp_allocated_count := hp_allocated_count pg - 1\<rparr>) }"

section \<open>Defragmentation\<close>

partial_function (option) mp_heap_btree_linearize :: "hstore \<Rightarrow> nat \<Rightarrow> nat list option" where
  "mp_heap_btree_linearize h root =
     do { ls \<leftarrow> (if MP_HH_LEFT h root \<noteq> root then mp_heap_btree_linearize h (MP_HH_LEFT h root) else Some []);
          rs \<leftarrow> (if MP_HH_RIGHT h root \<noteq> root then mp_heap_btree_linearize h (MP_HH_RIGHT h root) else Some []);
          Some (root # ls @ rs) }"

text \<open>
  The comparison looks at the lowest 16 bits of the addresses. \<open>base\<close> counts from the start of the
  segment, which stands for an address that is a multiple of 65536; the order of the headers
  only decides which neighbours are merged in one run, and nothing below depends on it.
\<close>

definition mp_heap_header_key :: "addr \<Rightarrow> nat \<Rightarrow> nat" where
  "mp_heap_header_key base p = (base + p * MPHEAPUNIT) mod 65536"

fun merge_siblings :: "nat \<Rightarrow> nat \<Rightarrow> nat list \<Rightarrow> hstore \<Rightarrow> nat list \<times> hstore" where
  "merge_siblings hh hh_next [] h = ([], h)"
| "merge_siblings hh hh_next (f # fs) h =
     (if hh_next = f then
        (let h1 = h(hh := (h hh)\<lparr>hh_size := (hh_size (h hh) + hh_size (h hh_next)) mod 1024\<rparr>)
         in merge_siblings hh (MP_HH_NEXT h1 hh_next) fs h1)
      else (f # fs, h))"

lemma merge_siblings_length [termination_simp]: "length (fst (merge_siblings hh n fs h)) \<le> length fs"
  by (induction fs arbitrary: n h) (auto simp: Let_def intro: le_SucI)

function rebuild_tree :: "nat list \<Rightarrow> nat option \<Rightarrow> nat \<Rightarrow> hstore \<Rightarrow> (nat option \<times> nat \<times> hstore) option" where
  "rebuild_tree [] root n h = Some (root, n, h)"
| "rebuild_tree (hh # fs) root n h =
     (let m = merge_siblings hh (MP_HH_NEXT h hh) fs h in
      do { (root1, h1) \<leftarrow> mp_heap_btree_insert root hh (snd m);
           rebuild_tree (fst m) root1 (n + 1) h1 })"
  by pat_completeness auto
termination by (relation "measure (\<lambda>(fs, _). length fs)") (auto simp: le_imp_less_Suc merge_siblings_length)

text \<open>What \<open>mp_heap_page_defrag\<close> does to the page, between the allocation and the free of its list.\<close>

definition page_rebuild :: "heap_page \<Rightarrow> (mp_error + heap_page) option" where
  "page_rebuild pg =
     (case hp_root_free pg of
        None \<Rightarrow> Some (Inl MP_UNDEFINED)
      | Some root \<Rightarrow>
          do { lin \<leftarrow> mp_heap_btree_linearize (hp_store pg) root;
               if length lin \<noteq> hp_free_count pg then Some (Inl MP_ASSERT)
               else do { (root', n, h) \<leftarrow> rebuild_tree (sort_key (mp_heap_header_key (hp_base pg)) lin) None 0 (hp_store pg);
                         Some (Inr (pg\<lparr>hp_root_free := root', hp_free_count := n, hp_store := h, hp_defrag_period := MPHHDEFRAGPERIOD\<rparr>)) } })"

definition mp_heap_page_defrag :: "heap_page \<Rightarrow> frag_seg \<Rightarrow> (mp_error + heap_page \<times> frag_seg) option" where
  "mp_heap_page_defrag pg0 seg =
     (let pg = pg0\<lparr>hp_defrag_period := hp_defrag_period pg0 - 1\<rparr> in
      if hp_defrag_period pg > 0 then Some (Inr (pg, seg))
      else case mp_frag_alloc (hp_free_count pg * 8) FRAG_COMMON seg of
             Inl e \<Rightarrow> Some (Inl e)
           | Inr (free, seg1) \<Rightarrow>
               do { r \<leftarrow> page_rebuild pg;
                    (case r of
                       Inl e \<Rightarrow> Some (Inl e)
                     | Inr pg1 \<Rightarrow> (case mp_frag_free free seg1 of Inl e \<Rightarrow> Some (Inl e) | Inr seg2 \<Rightarrow> Some (Inr (pg1, seg2)))) })"

section \<open>The list of pages and the entry points\<close>

record heap_sys =
  hs_pages :: "heap_page list"
  hs_last :: "addr option"
  hs_seg :: frag_seg

definition MP_HEAP_PAGE_LIFETIME :: int where "MP_HEAP_PAGE_LIFETIME = 1000000000"

text \<open>\<open>junk\<close> is what the memory of the new page held before.\<close>

definition mp_heap_page_alloc :: "nat \<Rightarrow> int \<Rightarrow> hstore \<Rightarrow> heap_sys \<Rightarrow> mp_error + heap_sys" where
  "mp_heap_page_alloc hdr now junk s =
     (case mp_frag_alloc MPHEAPPAGESIZE FRAG_HEAP (hs_seg s) of
        Inl e \<Rightarrow> Inl e
      | Inr (base, seg) \<Rightarrow> Inr \<lparr>hs_pages = page_init hdr base now junk # hs_pages s, hs_last = Some base, hs_seg = seg\<rparr>)"

definition mp_heap_page_free :: "nat \<Rightarrow> int \<Rightarrow> heap_sys \<Rightarrow> mp_error + heap_sys" where
  "mp_heap_page_free i now s =
     (let pg = hs_pages s ! i in
      if now - hp_birth pg < MP_HEAP_PAGE_LIFETIME then Inr s
      else case mp_frag_free (hp_base pg) (hs_seg s) of
             Inl e \<Rightarrow> Inl e
           | Inr seg \<Rightarrow> Inr \<lparr>hs_pages = take i (hs_pages s) @ drop (Suc i) (hs_pages s),
                            hs_last = (if hs_last s = Some (hp_base pg) then None else hs_last s), hs_seg = seg\<rparr>)"

text \<open>
  \<open>list_for_each_entry_continue\<close> starts behind the current page, so the scan from the first entry starts at the
  second page; \<open>start\<close> is the place where it goes on.
\<close>

definition next_page :: "heap_page list \<Rightarrow> nat \<Rightarrow> nat option" where
  "next_page pgs start = List.find (\<lambda>j. hp_root_free (pgs ! j) \<noteq> None) [start..<length pgs]"

partial_function (option) heap_alloc_loop ::
  "nat \<Rightarrow> int \<Rightarrow> hstore \<Rightarrow> nat \<Rightarrow> nat \<Rightarrow> heap_sys \<Rightarrow> (mp_error + addr \<times> heap_sys) option" where
  "heap_alloc_loop hdr now junk units start s =
     (case (case next_page (hs_pages s) start of
              Some j \<Rightarrow> Inr (j, s)
            | None \<Rightarrow> (case mp_heap_page_alloc hdr now junk s of Inl e \<Rightarrow> Inl e | Inr s1 \<Rightarrow> Inr (0, s1))) of
        Inl e \<Rightarrow> Some (Inl e)
      | Inr (j, s1) \<Rightarrow>
          do { (res, pg) \<leftarrow> page_take units (hs_pages s1 ! j);
               (case res of
                  None \<Rightarrow> heap_alloc_loop hdr now junk units (Suc j) s1
                | Some hh \<Rightarrow> Some (Inr (hp_base pg + hh * MPHEAPUNIT + MPHEAPHHSIZE, s1\<lparr>hs_pages := (hs_pages s1)[j := pg]\<rparr>))) })"

definition mp_heap_alloc :: "nat \<Rightarrow> int \<Rightarrow> hstore \<Rightarrow> nat \<Rightarrow> heap_sys \<Rightarrow> (mp_error + addr \<times> heap_sys) option" where
  "mp_heap_alloc hdr now junk sz s = heap_alloc_loop hdr now junk (heap_units sz) 1 s"

definition MP_HH_IN_PAGE :: "addr \<Rightarrow> heap_page \<Rightarrow> bool" where
  "MP_HH_IN_PAGE hh pg \<longleftrightarrow> hp_base pg < hh \<and> hh < hp_base pg + MPHEAPPAGESIZE"

definition page_of :: "addr \<Rightarrow> heap_page list \<Rightarrow> nat option" where
  "page_of hh pgs = List.find (\<lambda>j. MP_HH_IN_PAGE hh (pgs ! j)) [0..<length pgs]"

text \<open>A header outside of all pages fails the last assertion, if not one of those on its contents.\<close>

definition mp_heap_free :: "addr \<Rightarrow> int \<Rightarrow> heap_sys \<Rightarrow> (mp_error + heap_sys) option" where
  "mp_heap_free ptr now s =
     (case page_of (ptr - MPHEAPHHSIZE) (hs_pages s) of
        None \<Rightarrow> Some (Inl MP_ASSERT)
      | Some j \<Rightarrow>
          (let pg = hs_pages s ! j; hh = (ptr - MPHEAPHHSIZE - hp_base pg) div MPHEAPUNIT in
           if \<not> (hh_size (hp_store pg hh) > 0 \<and> MP_HH_IS_ALLOCATED (hp_store pg) hh) then Some (Inl MP_ASSERT)
           else do { pg1 \<leftarrow> page_put hh pg;
                     (let s1 = s\<lparr>hs_pages := (hs_pages s)[j := pg1]\<rparr> in
                      if hp_allocated_count pg1 = 0 then Some (mp_heap_page_free j now s1)
                      else if hp_free_count pg1 > MPHHDEFRAGFREE then
                        do { r \<leftarrow> mp_heap_page_defrag pg1 (hs_seg s1);
                             Some (case r of Inl e \<Rightarrow> Inl e
                                   | Inr (pg2, seg) \<Rightarrow> Inr (s1\<lparr>hs_pages := (hs_pages s1)[j := pg2], hs_seg := seg\<rparr>)) }
                      else Some (Inr s1)) }))"

definition mp_heap_get_size :: "addr \<Rightarrow> heap_page \<Rightarrow> nat" where
  "mp_heap_get_size ptr pg = hh_size (hp_store pg ((ptr - MPHEAPHHSIZE - hp_base pg) div MPHEAPUNIT)) * MPHEAPUNIT"

definition mp_malloc :: "nat \<Rightarrow> int \<Rightarrow> hstore \<Rightarrow> nat \<Rightarrow> heap_sys \<Rightarrow> (mp_error + addr \<times> heap_sys) option" where
  "mp_malloc hdr now junk sz s =
     (if sz > MPHEAPMAXALLOC \<or> sz mod MPFRAGSIZE = 0 then
        Some (case mp_frag_alloc sz FRAG_COMMON (hs_seg s) of
                Inl e \<Rightarrow> Inl e
              | Inr (p, seg) \<Rightarrow> Inr (p, s\<lparr>hs_seg := seg\<rparr>))
      else mp_heap_alloc hdr now junk sz s)"

text \<open>The heap page of a pointer is where its fragment starts.\<close>

definition mp_get_size :: "addr \<Rightarrow> heap_sys \<Rightarrow> mp_error + nat" where
  "mp_get_size ptr s =
     (case mp_frag_get_descr (hs_seg s) ptr of
        None \<Rightarrow> Inl MP_ASSERT
      | Some d \<Rightarrow>
          if fd_type (mp_frags (hs_seg s) ! d) = FRAG_HEAP then
            (case List.find (\<lambda>pg. hp_base pg = d * MPFRAGSIZE) (hs_pages s) of
               None \<Rightarrow> Inl MP_UNDEFINED
             | Some pg \<Rightarrow> Inr (mp_heap_get_size ptr pg))
          else Inr (mp_frag_get_size (mp_frags (hs_seg s) ! d)))"

definition mp_free :: "addr \<Rightarrow> int \<Rightarrow> heap_sys \<Rightarrow> (mp_error + heap_sys) option" where
  "mp_free ptr now s =
     (case mp_frag_get_descr (hs_seg s) ptr of
        None \<Rightarrow> Some (Inl MP_ASSERT)
      | Some d \<Rightarrow>
          if fd_type (mp_frags (hs_seg s) ! d) = FRAG_HEAP then mp_heap_free ptr now s
          else Some (case mp_frag_free ptr (hs_seg s) of Inl e \<Rightarrow> Inl e | Inr seg \<Rightarrow> Inr (s\<lparr>hs_seg := seg\<rparr>)))"

text \<open>The contents of the blocks are not modelled: the result has the number of bytes that \<open>memcpy\<close> copies.\<close>

definition mp_realloc :: "nat \<Rightarrow> int \<Rightarrow> hstore \<Rightarrow> addr \<Rightarrow> nat \<Rightarrow> heap_sys \<Rightarrow> (mp_error + addr \<times> nat \<times> heap_sys) option" where
  "mp_realloc hdr now junk oldptr sz s =
     do { r \<leftarrow> mp_malloc hdr now junk sz s;
          (case r of
             Inl e \<Rightarrow> Some (Inl e)
           | Inr (newptr, s1) \<Rightarrow>
               (case mp_get_size oldptr s1 of
                  Inl e \<Rightarrow> Some (Inl e)
                | Inr oldsz \<Rightarrow>
                    if oldsz \<ge> sz then Some (Inr (oldptr, 0, s1))
                    else do { r2 \<leftarrow> mp_malloc hdr now junk sz s1;
                              (case r2 of
                                 Inl e \<Rightarrow> Some (Inl e)
                               | Inr (newptr2, s2) \<Rightarrow>
                                   do { r3 \<leftarrow> mp_free oldptr now s2;
                                        Some (case r3 of Inl e \<Rightarrow> Inl e | Inr s3 \<Rightarrow> Inr (newptr2, oldsz, s3)) }) })) }"

section \<open>Tiled areas\<close>

text \<open>Fragments of the given sizes, each at least the smallest allocation, cover an area without gaps.\<close>

fun tiled :: "(nat \<Rightarrow> nat) \<Rightarrow> nat \<Rightarrow> nat \<Rightarrow> nat list \<Rightarrow> bool" where
  "tiled sz p q [] \<longleftrightarrow> p = q"
| "tiled sz p q (x # xs) \<longleftrightarrow> x = p \<and> MPHEAPMINUNITS \<le> sz x \<and> tiled sz (p + sz x) q xs"

lemma tiled_append: "tiled sz p q (xs @ ys) \<longleftrightarrow> (\<exists>m. tiled sz p m xs \<and> tiled sz m q ys)"
  by (induction xs arbitrary: p) auto

lemma tiled_bounds: "tiled sz p q xs \<Longrightarrow> p \<le> q \<and> (\<forall>x \<in> set xs. p \<le> x \<and> MPHEAPMINUNITS \<le> sz x \<and> x + sz x \<le> q)"
  by (induction xs arbitrary: p) (auto, force+)

lemma tiled_cong: "(\<And>x. x \<in> set xs \<Longrightarrow> sz x = sz' x) \<Longrightarrow> tiled sz p q xs = tiled sz' p q xs"
  by (induction xs arbitrary: p) auto

lemma tiled_upd [simp]: "x \<notin> set xs \<Longrightarrow> tiled (sz(x := v)) p q xs = tiled sz p q xs"
  by (rule tiled_cong) auto

lemma tiled_unique: "tiled sz p q xs \<Longrightarrow> tiled sz p q ys \<Longrightarrow> xs = ys"
proof (induction xs arbitrary: p ys)
  case Nil
  then show ?case using tiled_bounds [of sz] by (cases ys) (auto simp: MPHEAPMINUNITS_def dest!: tiled_bounds)
next
  case (Cons x xs)
  then have "ys \<noteq> []" using tiled_bounds [of sz "p + sz x" q xs] by (auto simp: MPHEAPMINUNITS_def)
  then obtain zs where "ys = x # zs" "tiled sz (p + sz x) q zs" using Cons.prems by (cases ys) auto
  then show ?case using Cons.IH [of "p + sz x" zs] Cons.prems(1) by auto
qed

lemma tiled_apart:
  assumes "tiled sz p q xs" and "x \<in> set xs" and "y \<in> set xs" and "x < y"
  shows "x + sz x \<le> y"
  using assms
proof (induction xs arbitrary: p)
  case (Cons z zs)
  have "\<forall>u \<in> set zs. z + sz z \<le> u \<and> MPHEAPMINUNITS \<le> sz z" using Cons.prems(1) tiled_bounds by fastforce
  then show ?case using Cons by (force simp: MPHEAPMINUNITS_def)
qed simp

lemma tiled_distinct: "tiled sz p q xs \<Longrightarrow> distinct xs"
proof (induction xs arbitrary: p)
  case (Cons z zs)
  have "\<forall>u \<in> set zs. z + sz z \<le> u" "MPHEAPMINUNITS \<le> sz z" using Cons.prems tiled_bounds by fastforce+
  then show ?case using Cons by (force simp: MPHEAPMINUNITS_def)
qed simp

lemma tiled_split:
  assumes "tiled sz p q (xs @ x # ys)" and "MPHEAPMINUNITS \<le> u" and "u + MPHEAPMINUNITS \<le> sz x"
  shows "tiled (sz(x := u, x + u := sz x - u)) p q (xs @ x # (x + u) # ys)" and "x + u \<notin> set (xs @ x # ys)"
proof -
  have dist: "distinct (xs @ x # ys)" using assms(1) by (rule tiled_distinct)
  show new: "x + u \<notin> set (xs @ x # ys)"
    using tiled_apart [OF assms(1), of x "x + u"] assms(2,3) by (auto simp: MPHEAPMINUNITS_def)
  obtain m where m: "tiled sz p m xs" "x = m" "tiled sz (m + sz x) q ys" using assms(1) by (auto simp: tiled_append)
  let ?sz = "sz(x := u, x + u := sz x - u)"
  have "tiled ?sz p m xs" "tiled ?sz (m + sz x) q ys" using m dist new by (simp_all del: fun_upd_apply)
  then show "tiled ?sz p q (xs @ x # (x + u) # ys)" using m(2) assms(2,3) by (auto simp: tiled_append MPHEAPMINUNITS_def)
qed

lemma tiled_merge:
  assumes "tiled sz p q (xs @ x # y # ys)"
  shows "tiled (sz(x := sz x + sz y)) p q (xs @ x # ys)" and "y = x + sz x"
proof -
  have dist: "distinct (xs @ x # y # ys)" using assms by (rule tiled_distinct)
  obtain m where m: "tiled sz p m xs" "x = m" "y = m + sz x" "tiled sz (m + sz x + sz y) q ys" "MPHEAPMINUNITS \<le> sz x"
    using assms by (auto simp: tiled_append)
  let ?sz = "sz(x := sz x + sz y)"
  have "tiled ?sz p m xs" "tiled ?sz (m + sz x + sz y) q ys" using m(1,4) dist by (simp_all del: fun_upd_apply)
  then show "tiled ?sz p q (xs @ x # ys)" using m(2,5) by (auto simp: tiled_append add.assoc)
  show "y = x + sz x" using m(2,3) by simp
qed

lemma tiled_next:
  assumes "tiled sz p q xs" and "x \<in> set xs" and "x + sz x \<in> set xs"
  shows "\<exists>as bs. xs = as @ x # (x + sz x) # bs"
proof -
  obtain as bs where xs: "xs = as @ x # bs" using assms(2) by (meson split_list)
  obtain m where m: "tiled sz p m as" "x = m" "tiled sz (x + sz x) q bs" "MPHEAPMINUNITS \<le> sz x"
    using assms(1) by (auto simp: xs tiled_append)
  have "x + sz x \<notin> set as" using tiled_bounds [OF m(1)] m(2,4) by (force simp: MPHEAPMINUNITS_def)
  then have "x + sz x \<in> set bs" using assms(3) m(4) by (auto simp: xs MPHEAPMINUNITS_def)
  then show ?thesis using m(3) by (cases bs) (auto simp: xs)
qed

lemma tiled_length: "tiled sz p q xs \<Longrightarrow> MPHEAPMINUNITS * length xs \<le> q - p"
proof (induction xs arbitrary: p)
  case (Cons x xs)
  then have "MPHEAPMINUNITS * length xs \<le> q - (p + sz x)" "p + sz x \<le> q" "MPHEAPMINUNITS \<le> sz x" using tiled_bounds by auto
  then show ?case by simp
qed simp

section \<open>Pages as sets of blocks\<close>

text \<open>
  The fragments \<open>xs\<close> tile the page behind its header; those in \<open>A\<close> are allocated and marked, the others form the free tree.
\<close>

definition page_rep :: "nat \<Rightarrow> hstore \<Rightarrow> nat option \<Rightarrow> nat list \<Rightarrow> nat tree \<Rightarrow> nat set \<Rightarrow> bool" where
  "page_rep hdr h root xs t A \<longleftrightarrow> tiled (sizes h) hdr 1023 xs \<and> free_tree h root t
     \<and> set xs = A \<union> set_tree t \<and> A \<inter> set_tree t = {} \<and> (\<forall>x \<in> A. MP_HH_IS_ALLOCATED h x)"

definition page_ok :: "nat \<Rightarrow> heap_page \<Rightarrow> bool" where
  "page_ok hdr pg \<longleftrightarrow> (\<exists>xs t A. page_rep hdr (hp_store pg) (hp_root_free pg) xs t A
     \<and> hp_allocated_count pg = card A \<and> hp_free_count pg = card (set_tree t) \<and> hp_free pg = (\<Sum>x \<in> set_tree t. sizes (hp_store pg) x))"

definition page_blocks :: "nat \<Rightarrow> heap_page \<Rightarrow> (nat \<times> nat) set" where
  "page_blocks hdr pg = {(x, n). \<exists>xs. tiled (sizes (hp_store pg)) hdr 1023 xs \<and> x \<in> set xs
     \<and> MP_HH_IS_ALLOCATED (hp_store pg) x \<and> n = sizes (hp_store pg) x}"

lemma child_below: "holds h t \<Longrightarrow> p < MPHEAPMAXUNITS \<Longrightarrow> child p t < MPHEAPMAXUNITS"
  by (cases t) auto

lemma free_not_allocated:
  assumes "free_tree h root t" and "p \<in> set_tree t"
  shows "\<not> MP_HH_IS_ALLOCATED h p"
proof -
  have "holds h t" "distinct (inorder t)" using assms(1) by (auto simp: free_tree_def tree_rep_def)
  then show ?thesis using assms(2)
  proof (induction t)
    case (Node l a r)
    show ?case
    proof (cases "p = a")
      case True
      have "child a l \<noteq> child a r \<or> l = Leaf" 
        using Node.prems(2) child_neq [of a l] child_in [of l a] child_in [of r a] by (cases "r = Leaf") auto
      then show ?thesis using Node.prems(1) True by (auto simp: MP_HH_IS_ALLOCATED_def MPHEAPMAXUNITS_def)
    next
      case False
      then show ?thesis using Node by auto
    qed
  qed simp
qed

lemma free_tree_cong:
  assumes "free_tree h root t" and "\<And>p. p \<in> set_tree t \<Longrightarrow> h' p = h p"
  shows "free_tree h' root t"
proof -
  have "holds h' t = holds h t" by (rule holds_cong) (simp add: assms(2) same_links_def)
  moreover have "map (sizes h') (inorder t) = map (sizes h) (inorder t)" using assms(2) by (simp add: sizes_def)
  then have "ordered (sizes h') t = ordered (sizes h) t" unfolding ordered_def by (simp only:)
  ultimately show ?thesis using assms(1) by (simp add: free_tree_def tree_rep_def)
qed

lemma page_rep_allocated:
  assumes "page_rep hdr h root xs t A"
  shows "A = {x \<in> set xs. MP_HH_IS_ALLOCATED h x}"
  using assms free_not_allocated [of h root t] by (auto simp: page_rep_def)

lemma page_blocks_rep:
  assumes "page_rep hdr (hp_store pg) (hp_root_free pg) xs t A"
  shows "page_blocks hdr pg = (\<lambda>x. (x, sizes (hp_store pg) x)) ` A"
proof -
  have "tiled (sizes (hp_store pg)) hdr 1023 ys \<longleftrightarrow> ys = xs" for ys using assms tiled_unique by (auto simp: page_rep_def)
  then show ?thesis unfolding page_rep_allocated [OF assms] by (auto simp: page_blocks_def)
qed

text \<open>The tree loses a node: nothing else of the page changes.\<close>

lemma tree_removed:
  assumes "mset (inorder t) = add_mset x (mset (inorder t'))" and "distinct (inorder t)"
  shows "set_tree t = insert x (set_tree t')" and "x \<notin> set_tree t'"
proof -
  show "set_tree t = insert x (set_tree t')" using arg_cong [OF assms(1), of set_mset] by simp
  have "distinct (x # inorder t')" using mset_eq_imp_distinct_iff [of "inorder t" "x # inorder t'"] assms by simp
  then show "x \<notin> set_tree t'" by simp
qed

lemma page_rep_take:
  assumes rep: "page_rep hdr h root xs t A"
    and t: "free_tree h' root' t'" "mset (inorder t) = add_mset x (mset (inorder t'))" and h': "links_within (set_tree t) h h'"
  shows "page_rep hdr (MP_HH_MARK_ALLOCATED x h') root' xs t' (insert x A) \<and> x \<notin> A \<and> x \<notin> set_tree t'
    \<and> sizes (MP_HH_MARK_ALLOCATED x h') = sizes h \<and> set_tree t = insert x (set_tree t')"
proof -
  have dist: "distinct (inorder t)" using rep by (auto simp: page_rep_def free_tree_def tree_rep_def)
  note rem = tree_removed [OF t(2) dist]
  let ?h = "MP_HH_MARK_ALLOCATED x h'"
  have sz: "sizes ?h = sizes h" using h' by (auto simp: links_within_def sizes_def MP_HH_MARK_ALLOCATED_def fun_eq_iff)
  have "free_tree ?h root' t'" by (rule free_tree_cong [OF t(1)]) (use rem(2) in \<open>auto simp: MP_HH_MARK_ALLOCATED_def\<close>)
  moreover have "MP_HH_IS_ALLOCATED ?h y" if "y \<in> insert x A" for y
  proof (cases "y = x")
    case True
    then show ?thesis by (simp add: MP_HH_MARK_ALLOCATED_def MP_HH_IS_ALLOCATED_def)
  next
    case False
    then have "?h y = h y" using that rep h' by (auto simp: page_rep_def links_within_def MP_HH_MARK_ALLOCATED_def)
    then show ?thesis using that False rep by (simp add: page_rep_def MP_HH_IS_ALLOCATED_def)
  qed
  moreover have "x \<notin> A" using rep rem(1) by (auto simp: page_rep_def)
  ultimately show ?thesis using rep rem sz by (auto simp: page_rep_def)
qed

text \<open>A fragment is split: the rest becomes a free fragment of its own.\<close>

lemma page_rep_split:
  assumes rep: "page_rep hdr h root xs t A" and x: "x \<in> A" and u: "MPHEAPMINUNITS \<le> u" "u + MPHEAPMINUNITS \<le> sizes h x"
  defines "h1 \<equiv> (MP_HEAP_HEADER_INIT (x + u) (sizes h x - u) (h(x := (h x)\<lparr>hh_size := u mod 1024\<rparr>)))"
  shows "\<exists>root' h' t' xs'. mp_heap_btree_insert root (x + u) h1 = Some (root', h') \<and> page_rep hdr h' root' xs' t' A
    \<and> x + u \<notin> set_tree t \<and> x + u \<notin> A \<and> set_tree t' = insert (x + u) (set_tree t) \<and> sizes h' = (sizes h)(x := u, x + u := sizes h x - u)"
proof -
  have "x \<in> set xs" using rep x by (auto simp: page_rep_def)
  then obtain as bs where xs: "xs = as @ x # bs" by (meson split_list)
  have tile: "tiled (sizes h) hdr 1023 (as @ x # bs)" using rep by (simp add: page_rep_def xs)
  have bound: "x + sizes h x \<le> 1023" using tiled_bounds [OF tile] by simp
  have new: "x + u \<notin> set xs" using tiled_split(2) [OF tile u] by (simp add: xs)
  then have away: "x + u \<notin> set_tree t" "x + u \<notin> A" "x \<notin> set_tree t" using rep x by (auto simp: page_rep_def)
  have sz: "sizes h1 = (sizes h)(x := u, x + u := sizes h x - u)"
  proof -
    have "u mod 1024 = u" "(sizes h x - u) mod 1024 = sizes h x - u" using bound u(2) by simp_all
    then show ?thesis by (intro ext) (simp add: h1_def MP_HEAP_HEADER_INIT_def sizes_def)
  qed
  have "free_tree h1 root t"
  proof (rule free_tree_cong [of h])
    show "free_tree h root t" using rep by (simp add: page_rep_def)
    show "h1 p = h p" if "p \<in> set_tree t" for p
      using that away(1,3) by (cases "p = x"; cases "p = x + u") (simp_all add: h1_def MP_HEAP_HEADER_INIT_def)
  qed
  then obtain root' h' t' where ins: "mp_heap_btree_insert root (x + u) h1 = Some (root', h')" "free_tree h' root' t'"
      "mset (inorder t') = add_mset (x + u) (mset (inorder t))" "links_within (insert (x + u) (set_tree t)) h1 h'"
    using btree_insert_spec [of h1 root t "x + u"] away(1) bound u by (auto simp: MPHEAPMAXUNITS_def MPHEAPMINUNITS_def)
  have set': "set_tree t' = insert (x + u) (set_tree t)" using arg_cong [OF ins(3), of set_mset] by simp
  have sz': "sizes h' = (sizes h)(x := u, x + u := sizes h x - u)" using ins(4) sz by (simp add: links_within_def)
  have "MP_HH_IS_ALLOCATED h' y" if "y \<in> A" for y
  proof -
    have "y \<noteq> x + u" "y \<notin> set_tree t" using that away rep by (auto simp: page_rep_def)
    then have "h' y = h1 y" using ins(4) by (simp add: links_within_def)
    then show ?thesis using that rep \<open>y \<noteq> x + u\<close>
      by (auto simp: page_rep_def MP_HH_IS_ALLOCATED_def h1_def MP_HEAP_HEADER_INIT_def)
  qed
  moreover have "tiled (sizes h') hdr 1023 (as @ x # (x + u) # bs)" unfolding sz' by (rule tiled_split(1) [OF tile u])
  moreover have "set (as @ x # (x + u) # bs) = A \<union> set_tree t'" using rep set' by (auto simp: page_rep_def xs)
  ultimately have "page_rep hdr h' root' (as @ x # (x + u) # bs) t' A"
    using ins(2) set' away(2) rep by (auto simp: page_rep_def)
  then show ?thesis using ins(1) away set' sz' by blast
qed

lemma page_rep_below:
  assumes "page_rep hdr h root xs t A" and "x \<in> set xs"
  shows "x < MPHEAPMAXUNITS"
proof -
  have "x + sizes h x \<le> 1023" using assms tiled_bounds [of "sizes h" hdr 1023 xs] by (simp add: page_rep_def)
  then show ?thesis by (simp add: MPHEAPMAXUNITS_def)
qed

lemma page_rep_finite: "page_rep hdr h root xs t A \<Longrightarrow> finite A"
  by (metis List.finite_set finite_Un page_rep_def)

lemma page_okI:
  assumes "page_rep hdr (hp_store pg) (hp_root_free pg) xs t A"
    and "hp_allocated_count pg = card A" and "hp_free_count pg = card (set_tree t)" and "hp_free pg = (\<Sum>x \<in> set_tree t. sizes (hp_store pg) x)"
  shows "page_ok hdr pg"
  using assms unfolding page_ok_def by blast

lemma page_take_spec:
  assumes ok: "page_ok hdr pg" and root: "hp_root_free pg \<noteq> None" and units: "MPHEAPMINUNITS \<le> units"
  shows "\<exists>res pg'. page_take units pg = Some (res, pg') \<and> page_ok hdr pg' \<and> hp_base pg' = hp_base pg
    \<and> (case res of
         None \<Rightarrow> pg' = pg \<and> (\<forall>xs. tiled (sizes (hp_store pg)) hdr 1023 xs \<longrightarrow>
           (\<forall>x \<in> set xs. \<not> MP_HH_IS_ALLOCATED (hp_store pg) x \<longrightarrow> sizes (hp_store pg) x < units))
       | Some x \<Rightarrow> \<exists>n. units \<le> n \<and> n \<le> units + MPHEAPMINUNITS \<and> (x, n) \<notin> page_blocks hdr pg \<and> page_blocks hdr pg' = insert (x, n) (page_blocks hdr pg))"
proof -
  obtain xs t A where rep: "page_rep hdr (hp_store pg) (hp_root_free pg) xs t A" "hp_allocated_count pg = card A"
      "hp_free_count pg = card (set_tree t)" "hp_free pg = (\<Sum>x \<in> set_tree t. sizes (hp_store pg) x)"
    using ok by (auto simp: page_ok_def)
  let ?h = "hp_store pg"
  have tree: "free_tree ?h (hp_root_free pg) t" using rep(1) by (simp add: page_rep_def)
  have fin: "finite A" by (rule page_rep_finite [OF rep(1)])
  have "t \<noteq> Leaf" using tree root by (auto simp: free_tree_def tree_rep_def root_of_def)
  then obtain res root' h' t' where del: "mp_heap_btree_find_delete (hp_root_free pg) units ?h = Some (res, root', h')" "free_tree h' root' t'"
      "best_fit (sizes ?h) units (set_tree t) res"
      "mset (inorder t) = mset (case res of None \<Rightarrow> [] | Some x \<Rightarrow> [x]) + mset (inorder t')" "links_within (set_tree t) ?h h'"
    using btree_find_delete_spec [OF tree] by blast
  show ?thesis
  proof (cases res)
    case None
    have "sizes ?h x < units" if "tiled (sizes ?h) hdr 1023 ys" "x \<in> set ys" "\<not> MP_HH_IS_ALLOCATED ?h x" for x ys
    proof -
      have "ys = xs" using tiled_unique [OF that(1)] rep(1) by (auto simp: page_rep_def)
      then have "x \<in> set_tree t" using that(2,3) rep(1) by (auto simp: page_rep_def)
      then show ?thesis using del(3) None by (simp add: best_fit_def)
    qed
    then show ?thesis using None del(1) ok by (simp add: page_take_def)
  next
    case (Some x)
    define h1 where "h1 = MP_HH_MARK_ALLOCATED x h'"
    define n where "n = sizes ?h x"
    have marked: "page_rep hdr h1 root' xs t' (insert x A)" "x \<notin> A" "x \<notin> set_tree t'" "sizes h1 = sizes ?h" "set_tree t = insert x (set_tree t')"
      using page_rep_take [OF rep(1) del(2) _ del(5), of x] del(4) Some by (auto simp: h1_def)
    have fit: "units \<le> n" using del(3) Some by (simp add: best_fit_def n_def)
    have hx: "hh_size (h1 x) = n" using marked(4) by (metis n_def sizes_def)
    have old: "page_blocks hdr pg = (\<lambda>y. (y, sizes ?h y)) ` A" by (rule page_blocks_rep [OF rep(1)])
    have notin: "(x, m) \<notin> page_blocks hdr pg" for m using marked(2) by (auto simp: old)
    have counts: "hp_allocated_count pg + 1 = card (insert x A)" "hp_free_count pg - 1 = card (set_tree t')"
      "hp_free pg = n + (\<Sum>y \<in> set_tree t'. sizes ?h y)"
      using rep(2-4) marked(2,3,5) fin by (simp_all add: n_def)
    define pg1 where "pg1 = pg\<lparr>hp_root_free := root', hp_store := h1, hp_allocated_count := hp_allocated_count pg + 1,
        hp_free_count := hp_free_count pg - 1\<rparr>"
    show ?thesis
    proof (cases "n - units > MPHEAPMINUNITS")
      case False
      let ?pg = "pg1\<lparr>hp_free := hp_free pg - n\<rparr>"
      have run: "page_take units pg = Some (Some x, ?pg)"
        using del(1) Some False hx by (simp add: page_take_def h1_def [symmetric] Let_def pg1_def)
      have ok': "page_ok hdr ?pg"
        by (rule page_okI [of _ _ xs t' "insert x A"]) (use marked(1,4) counts in \<open>simp_all add: pg1_def\<close>)
      have "page_blocks hdr ?pg = insert (x, n) (page_blocks hdr pg)"
        using page_blocks_rep [of hdr ?pg xs t' "insert x A"] marked(1,4) by (simp add: old pg1_def n_def)
      then show ?thesis using run ok' notin fit False by (auto simp: pg1_def)
    next
      case True
      define h3 where "h3 = MP_HEAP_HEADER_INIT (x + units) (n - units) (h1(x := (h1 x)\<lparr>hh_size := units mod 1024\<rparr>))"
      have le: "units + MPHEAPMINUNITS \<le> sizes h1 x" using True fit marked(4) by (simp add: n_def)
      obtain root2 h4 t2 xs2 where split: "mp_heap_btree_insert root' (x + units) h3 = Some (root2, h4)" "page_rep hdr h4 root2 xs2 t2 (insert x A)"
          "x + units \<notin> set_tree t'" "set_tree t2 = insert (x + units) (set_tree t')" "sizes h4 = (sizes ?h)(x := units, x + units := n - units)"
          "x + units \<notin> insert x A"
        using page_rep_split [OF marked(1) insertI1 units le] marked(4) by (auto simp: h3_def n_def)
      let ?pg = "pg1\<lparr>hp_root_free := root2, hp_store := h4, hp_free_count := hp_free_count pg1 + 1, hp_free := hp_free pg - units\<rparr>"
      have small: "units mod 1024 = units"
        using tiled_bounds [of "sizes h1" hdr 1023 xs] marked(1,4) fit by (auto simp: page_rep_def n_def)
      have h4x: "hh_size (h4 x) = units" using split(5,6) by (metis fun_upd_other fun_upd_same insertCI sizes_def)
      have run: "page_take units pg = Some (Some x, ?pg)"
        using del(1) Some True hx split(1) [unfolded h3_def small] h4x small
        by (simp add: page_take_def h1_def [symmetric] Let_def pg1_def MP_HH_NEXT_def)
      have sums: "(\<Sum>y \<in> set_tree t2. sizes h4 y) = (n - units) + (\<Sum>y \<in> set_tree t'. sizes ?h y)"
        using split(3,4,5) marked(3) by (simp add: sum.remove [symmetric]) (rule sum.cong, auto)
      have ok': "page_ok hdr ?pg"
        by (rule page_okI [of _ _ xs2 t2 "insert x A"]) (use split(2-4) counts sums fit in \<open>simp_all add: pg1_def\<close>)
      have "page_blocks hdr ?pg = insert (x, units) (page_blocks hdr pg)"
        using page_blocks_rep [of hdr ?pg xs2 t2 "insert x A"] split(2,5,6) marked(2) by (auto simp: old pg1_def)
      then show ?thesis using run ok' notin by (auto simp: pg1_def)
    qed
  qed
qed

lemma page_take_fits:
  assumes "page_ok hdr pg" and "hp_root_free pg \<noteq> None" and "MPHEAPMINUNITS \<le> units"
    and "tiled (sizes (hp_store pg)) hdr 1023 xs" and "x \<in> set xs" and "\<not> MP_HH_IS_ALLOCATED (hp_store pg) x" and "units \<le> sizes (hp_store pg) x"
  shows "\<exists>y pg'. page_take units pg = Some (Some y, pg')"
proof -
  obtain res pg' where r: "page_take units pg = Some (res, pg')"
      "case res of None \<Rightarrow> pg' = pg \<and> (\<forall>xs. tiled (sizes (hp_store pg)) hdr 1023 xs \<longrightarrow>
         (\<forall>x \<in> set xs. \<not> MP_HH_IS_ALLOCATED (hp_store pg) x \<longrightarrow> sizes (hp_store pg) x < units)) | Some x \<Rightarrow> True"
    using page_take_spec [OF assms(1-3)] by (fastforce split: option.splits)
  have "res \<noteq> None"
  proof
    assume "res = None"
    then have "sizes (hp_store pg) x < units" using r(2) assms(4-6) by auto
    then show False using assms(7) by simp
  qed
  then show ?thesis using r(1) by auto
qed

lemma page_put_spec:
  assumes ok: "page_ok hdr pg" and blk: "(x, n) \<in> page_blocks hdr pg"
  shows "\<exists>pg'. page_put x pg = Some pg' \<and> page_ok hdr pg' \<and> page_blocks hdr pg' = page_blocks hdr pg - {(x, n)}
    \<and> hp_root_free pg' \<noteq> None \<and> hp_base pg' = hp_base pg \<and> hp_defrag_period pg' = hp_defrag_period pg"
proof -
  obtain xs t A where rep: "page_rep hdr (hp_store pg) (hp_root_free pg) xs t A" "hp_allocated_count pg = card A"
      "hp_free_count pg = card (set_tree t)" "hp_free pg = (\<Sum>x \<in> set_tree t. sizes (hp_store pg) x)"
    using ok by (auto simp: page_ok_def)
  let ?h = "hp_store pg"
  have old: "page_blocks hdr pg = (\<lambda>y. (y, sizes ?h y)) ` A" by (rule page_blocks_rep [OF rep(1)])
  then have x: "x \<in> A" "n = sizes ?h x" using blk by auto
  have away: "x \<notin> set_tree t" "x \<in> set xs" using rep(1) x(1) by (auto simp: page_rep_def)
  obtain root' h' t' where ins: "mp_heap_btree_insert (hp_root_free pg) x ?h = Some (root', h')" "free_tree h' root' t'"
      "mset (inorder t') = add_mset x (mset (inorder t))" "links_within (insert x (set_tree t)) ?h h'"
    using btree_insert_spec [of ?h "hp_root_free pg" t x] rep(1) away page_rep_below [OF rep(1)] by (auto simp: page_rep_def)
  have set': "set_tree t' = insert x (set_tree t)" using arg_cong [OF ins(3), of set_mset] by simp
  have sz: "sizes h' = sizes ?h" using ins(4) by (simp add: links_within_def)
  have "MP_HH_IS_ALLOCATED h' y" if "y \<in> A - {x}" for y
  proof -
    have "y \<notin> insert x (set_tree t)" using that rep(1) by (auto simp: page_rep_def)
    then have "h' y = ?h y" using ins(4) by (simp add: links_within_def)
    then show ?thesis using that rep(1) by (simp add: page_rep_def MP_HH_IS_ALLOCATED_def)
  qed
  then have rep': "page_rep hdr h' root' xs t' (A - {x})" using rep(1) ins(2) set' sz x(1) by (auto simp: page_rep_def)
  let ?pg = "pg\<lparr>hp_root_free := root', hp_store := h', hp_free_count := hp_free_count pg + 1,
    hp_free := hp_free pg + hh_size (h' x), hp_allocated_count := hp_allocated_count pg - 1\<rparr>"
  have hx: "hh_size (h' x) = sizes ?h x" using sz by (metis sizes_def)
  have "page_ok hdr ?pg"
    by (rule page_okI [of _ _ xs t' "A - {x}"])
      (use rep' rep(2-4) set' away(1) x(1) sz hx page_rep_finite [OF rep(1)] in simp_all)
  moreover have "page_blocks hdr ?pg = page_blocks hdr pg - {(x, n)}"
    using page_blocks_rep [of hdr ?pg xs t' "A - {x}"] rep' by (auto simp: old x(2) sz)
  moreover have "root' \<noteq> None" using ins(2) set' by (auto simp: free_tree_def tree_rep_def root_of_def split: tree.splits)
  moreover have "page_put x pg = Some ?pg" using ins(1) by (simp add: page_put_def)
  ultimately show ?thesis by auto
qed

section \<open>Defragmentation keeps the blocks\<close>

lemma mp_heap_btree_linearize_preorder:
  "holds h t \<Longrightarrow> distinct (inorder t) \<Longrightarrow> t \<noteq> Leaf \<Longrightarrow> mp_heap_btree_linearize h (child 0 t) = Some (preorder t)"
proof (induction t)
  case (Node l a r)
  have leaf: "child a l = a \<longleftrightarrow> l = Leaf" "child a r = a \<longleftrightarrow> r = Leaf" using Node.prems(2) by (auto simp: child_neq)
  have eq: "l \<noteq> Leaf \<Longrightarrow> child a l = child 0 l" "r \<noteq> Leaf \<Longrightarrow> child a r = child 0 r" by (cases l; simp) (cases r; simp)
  show ?case using Node leaf eq links [OF Node.prems(1)]
    by (cases "l = Leaf"; cases "r = Leaf") (simp_all add: mp_heap_btree_linearize.simps [of h a] del: links)
qed simp

text \<open>While the tree is rebuilt, the fragments in \<open>F\<close> are neither allocated nor in the tree.\<close>

definition page_mid :: "nat \<Rightarrow> hstore \<Rightarrow> nat option \<Rightarrow> nat list \<Rightarrow> nat tree \<Rightarrow> nat set \<Rightarrow> nat set \<Rightarrow> bool" where
  "page_mid hdr h root xs t F A \<longleftrightarrow> tiled (sizes h) hdr 1023 xs \<and> free_tree h root t \<and> set xs = A \<union> set_tree t \<union> F
     \<and> A \<inter> set_tree t = {} \<and> A \<inter> F = {} \<and> set_tree t \<inter> F = {} \<and> (\<forall>x \<in> A. MP_HH_IS_ALLOCATED h x)"

lemma page_mid_merge:
  assumes mid: "page_mid hdr h root xs t (insert x F) A" and f: "f = x + sizes h x" "f \<in> F" "x \<notin> F"
  defines "h1 \<equiv> h(x := (h x)\<lparr>hh_size := (hh_size (h x) + hh_size (h f)) mod 1024\<rparr>)"
  shows "\<exists>xs'. page_mid hdr h1 root xs' t (insert x (F - {f})) A" and "sizes h1 = (sizes h)(x := sizes h x + sizes h f)"
proof -
  have tile: "tiled (sizes h) hdr 1023 xs" and inx: "x \<in> set xs" "f \<in> set xs" using mid f by (auto simp: page_mid_def)
  obtain as bs where xs: "xs = as @ x # f # bs" using tiled_next [OF tile inx(1)] inx(2) f(1) by auto
  have ft: "tiled (sizes h) hdr 1023 (as @ x # f # bs)" using tile by (simp add: xs)
  have "f + sizes h f \<le> 1023" using tiled_bounds [OF tile] inx(2) by blast
  then have "(hh_size (h x) + hh_size (h f)) mod 1024 = sizes h x + sizes h f" using f(1) by (simp add: sizes_def)
  then show sz: "sizes h1 = (sizes h)(x := sizes h x + sizes h f)" by (intro ext) (simp add: h1_def sizes_def)
  have "free_tree h1 root t"
  proof (rule free_tree_cong [of h])
    show "free_tree h root t" using mid by (simp add: page_mid_def)
    show "h1 p = h p" if "p \<in> set_tree t" for p using that mid by (auto simp: h1_def page_mid_def)
  qed
  moreover have "tiled (sizes h1) hdr 1023 (as @ x # bs)" unfolding sz by (rule tiled_merge(1) [OF ft])
  moreover have "MP_HH_IS_ALLOCATED h1 y" if "y \<in> A" for y
  proof -
    have "y \<noteq> x" using that mid by (auto simp: page_mid_def)
    then show ?thesis using that mid by (simp add: page_mid_def MP_HH_IS_ALLOCATED_def h1_def)
  qed
  moreover have "set (as @ x # bs) = A \<union> set_tree t \<union> insert x (F - {f})"
  proof -
    have "distinct xs" by (rule tiled_distinct [OF tile])
    then have "set (as @ x # bs) = set xs - {f}" by (auto simp: xs)
    moreover have "f \<notin> A" "f \<notin> set_tree t" "f \<noteq> x" using mid f by (auto simp: page_mid_def)
    ultimately show ?thesis using mid by (auto simp: page_mid_def)
  qed
  ultimately show "\<exists>xs'. page_mid hdr h1 root xs' t (insert x (F - {f})) A" using mid by (intro exI [of _ "as @ x # bs"]) (auto simp: page_mid_def)
qed

lemma merge_siblings_mid:
  assumes "page_mid hdr h root xs t (insert x (set fs)) A" and "distinct fs" and "x \<notin> set fs" and "n = x + sizes h x"
  shows "\<exists>fs' h' xs'. merge_siblings x n fs h = (fs', h') \<and> page_mid hdr h' root xs' t (insert x (set fs')) A
    \<and> distinct fs' \<and> x \<notin> set fs' \<and> (\<Sum>y \<in> insert x (set fs'). sizes h' y) = (\<Sum>y \<in> insert x (set fs). sizes h y) \<and> (\<forall>p. p \<noteq> x \<longrightarrow> h' p = h p)"
  using assms
proof (induction fs arbitrary: n h xs)
  case Nil
  then show ?case by auto
next
  case (Cons f fs)
  show ?case
  proof (cases "n = f")
    case False
    then show ?thesis using Cons.prems by auto
  next
    case True
    define h1 where "h1 = h(x := (h x)\<lparr>hh_size := (hh_size (h x) + hh_size (h n)) mod 1024\<rparr>)"
    have F: "set (f # fs) - {f} = set fs" using Cons.prems(2) by auto
    have pre: "n = x + sizes h x" "n \<in> set (f # fs)" "x \<notin> set (f # fs)" using Cons.prems(3,4) True by auto
    note merge = page_mid_merge [OF Cons.prems(1) pre, folded h1_def]
    then obtain xs1 where mid: "page_mid hdr h1 root xs1 t (insert x (set fs)) A" using F True by auto
    have neq: "n \<noteq> x" using Cons.prems(3) True by auto
    have "sizes h1 n = sizes h n" "sizes h1 x = sizes h x + sizes h n" using merge(2) neq by simp_all
    then have next1: "MP_HH_NEXT h1 n = x + sizes h1 x" using Cons.prems(4) by (simp add: MP_HH_NEXT_def sizes_def)
    have "distinct fs" "x \<notin> set fs" using Cons.prems(2,3) by auto
    then obtain fs' h' xs' where IH: "merge_siblings x (MP_HH_NEXT h1 n) fs h1 = (fs', h')" "page_mid hdr h' root xs' t (insert x (set fs')) A"
        "distinct fs'" "x \<notin> set fs'" "(\<Sum>y \<in> insert x (set fs'). sizes h' y) = (\<Sum>y \<in> insert x (set fs). sizes h1 y)"
        "\<And>p. p \<noteq> x \<Longrightarrow> h' p = h1 p"
      using Cons.IH [OF mid _ _ next1] by auto
    have "(\<Sum>y \<in> set fs. sizes h1 y) = (\<Sum>y \<in> set fs. sizes h y)" using \<open>x \<notin> set fs\<close> merge(2) by (intro sum.cong) auto
    then have "(\<Sum>y \<in> insert x (set fs). sizes h1 y) = (\<Sum>y \<in> insert x (set (f # fs)). sizes h y)"
      using Cons.prems(2,3) True merge(2) by simp
    moreover have "merge_siblings x n (f # fs) h = (fs', h')" using IH(1) True by (simp add: h1_def Let_def)
    moreover have "h' p = h p" if "p \<noteq> x" for p using IH(6) [OF that] that by (simp add: h1_def)
    ultimately show ?thesis using IH by auto
  qed
qed

lemma page_mid_insert:
  assumes mid: "page_mid hdr h root xs t (insert x F) A" and x: "x \<notin> F"
  shows "\<exists>root' h' t'. mp_heap_btree_insert root x h = Some (root', h') \<and> page_mid hdr h' root' xs t' F A
    \<and> set_tree t' = insert x (set_tree t) \<and> x \<notin> set_tree t \<and> sizes h' = sizes h"
proof -
  have away: "x \<notin> set_tree t" "x \<in> set xs" "x \<notin> A" using mid by (auto simp: page_mid_def)
  have "x + sizes h x \<le> 1023" using mid away(2) tiled_bounds [of "sizes h" hdr 1023 xs] by (simp add: page_mid_def)
  then have "x < MPHEAPMAXUNITS" by (simp add: MPHEAPMAXUNITS_def)
  then obtain root' h' t' where ins: "mp_heap_btree_insert root x h = Some (root', h')" "free_tree h' root' t'"
      "mset (inorder t') = add_mset x (mset (inorder t))" "links_within (insert x (set_tree t)) h h'"
    using btree_insert_spec [of h root t x] mid away(1) by (auto simp: page_mid_def)
  have set': "set_tree t' = insert x (set_tree t)" using arg_cong [OF ins(3), of set_mset] by simp
  have sz: "sizes h' = sizes h" using ins(4) by (simp add: links_within_def)
  have "MP_HH_IS_ALLOCATED h' y" if "y \<in> A" for y
  proof -
    have "y \<notin> insert x (set_tree t)" using that away(3) mid by (auto simp: page_mid_def)
    then have "h' y = h y" using ins(4) by (simp add: links_within_def)
    then show ?thesis using that mid by (simp add: page_mid_def MP_HH_IS_ALLOCATED_def)
  qed
  then have "page_mid hdr h' root' xs t' F A" using mid ins(2) set' sz x by (auto simp: page_mid_def)
  then show ?thesis using ins(1) set' away(1) sz by blast
qed

lemma rebuild_tree_mid:
  assumes "page_mid hdr h root xs t (set fs) A" and "distinct fs"
  shows "\<exists>root' n' h' xs' t'. rebuild_tree fs root n h = Some (root', n', h') \<and> page_mid hdr h' root' xs' t' {} A
    \<and> n' + card (set_tree t) = n + card (set_tree t') \<and> (\<forall>x \<in> A. sizes h' x = sizes h x)
    \<and> (\<Sum>y \<in> set_tree t'. sizes h' y) = (\<Sum>y \<in> set_tree t \<union> set fs. sizes h y)"
  using assms
proof (induction fs root n h arbitrary: xs t rule: rebuild_tree.induct)
  case (1 root n h)
  then show ?case by auto
next
  case (2 x fs root n h)
  have "page_mid hdr h root xs t (insert x (set fs)) A" "distinct fs" "x \<notin> set fs" using "2.prems" by auto
  then obtain fs' h1 xs1 where m: "merge_siblings x (MP_HH_NEXT h x) fs h = (fs', h1)" "page_mid hdr h1 root xs1 t (insert x (set fs')) A"
      "distinct fs'" "x \<notin> set fs'" "(\<Sum>y \<in> insert x (set fs'). sizes h1 y) = (\<Sum>y \<in> insert x (set fs). sizes h y)"
      "\<And>p. p \<noteq> x \<Longrightarrow> h1 p = h p"
    using merge_siblings_mid [of hdr h root xs t x fs A "MP_HH_NEXT h x"] by (auto simp: MP_HH_NEXT_def sizes_def)
  obtain root2 h2 t2 where i: "mp_heap_btree_insert root x h1 = Some (root2, h2)" "page_mid hdr h2 root2 xs1 t2 (set fs') A"
      "set_tree t2 = insert x (set_tree t)" "x \<notin> set_tree t" "sizes h2 = sizes h1"
    using page_mid_insert [OF m(2,4)] by blast
  obtain root' n' h' xs' t' where IH: "rebuild_tree fs' root2 (n + 1) h2 = Some (root', n', h')" "page_mid hdr h' root' xs' t' {} A"
      "n' + card (set_tree t2) = n + 1 + card (set_tree t')" "\<And>y. y \<in> A \<Longrightarrow> sizes h' y = sizes h2 y"
      "(\<Sum>y \<in> set_tree t'. sizes h' y) = (\<Sum>y \<in> set_tree t2 \<union> set fs'. sizes h2 y)"
    using "2.IH" [OF refl, of "(root2, h2)" root2 h2 xs1 t2] i(1,2) m(1,3) by auto
  have disj: "set_tree t \<inter> insert x (set fs') = {}" "set_tree t \<inter> insert x (set fs) = {}" "x \<notin> A"
    using m(2) "2.prems"(1) by (auto simp: page_mid_def)
  have "(\<Sum>y \<in> set_tree t2 \<union> set fs'. sizes h2 y) = (\<Sum>y \<in> set_tree t \<union> insert x (set fs'). sizes h1 y)" by (simp add: i(3,5))
  also have "\<dots> = (\<Sum>y \<in> set_tree t. sizes h1 y) + (\<Sum>y \<in> insert x (set fs'). sizes h1 y)" by (rule sum.union_disjoint) (use disj in auto)
  also have "(\<Sum>y \<in> set_tree t. sizes h1 y) = (\<Sum>y \<in> set_tree t. sizes h y)" 
    using disj(1) m(6) by (intro sum.cong refl) (metis disjoint_insert(1) sizes_def)
  also have "\<dots> + (\<Sum>y \<in> insert x (set fs'). sizes h1 y) = (\<Sum>y \<in> set_tree t \<union> insert x (set fs). sizes h y)"
    unfolding m(5) by (rule sum.union_disjoint [symmetric]) (use disj in auto)
  finally have sums: "(\<Sum>y \<in> set_tree t'. sizes h' y) = (\<Sum>y \<in> set_tree t \<union> set (x # fs). sizes h y)" using IH(5) by simp
  have "sizes h' y = sizes h y" if "y \<in> A" for y
  proof -
    have "y \<noteq> x" using that disj(3) by auto
    then show ?thesis using IH(4) [OF that] i(5) m(6) by (simp add: sizes_def)
  qed
  moreover have "n' + card (set_tree t) = n + card (set_tree t')" using IH(3) i(3,4) by simp
  moreover have "rebuild_tree (x # fs) root n h = Some (root', n', h')" using m(1) i(1) IH(1) by simp
  ultimately show ?case using IH(2) sums by auto
qed

lemma page_rebuild_spec:
  assumes ok: "page_ok hdr pg" and root: "hp_root_free pg \<noteq> None"
  shows "\<exists>pg'. page_rebuild pg = Some (Inr pg') \<and> page_ok hdr pg' \<and> page_blocks hdr pg' = page_blocks hdr pg \<and> hp_base pg' = hp_base pg
    \<and> hp_free pg' = hp_free pg"
proof -
  let ?h = "hp_store pg"
  obtain xs t A where rep: "page_rep hdr ?h (hp_root_free pg) xs t A" "hp_allocated_count pg = card A"
      "hp_free_count pg = card (set_tree t)" "hp_free pg = (\<Sum>x \<in> set_tree t. sizes ?h x)"
    using ok by (auto simp: page_ok_def)
  have tree: "holds ?h t" "distinct (inorder t)" "hp_root_free pg = root_of t" using rep(1) by (auto simp: page_rep_def free_tree_def tree_rep_def)
  have ne: "t \<noteq> Leaf" using tree(3) root by (auto simp: root_of_def)
  let ?fs = "sort_key (mp_heap_header_key (hp_base pg)) (preorder t)"
  have lin: "mp_heap_btree_linearize ?h (child 0 t) = Some (preorder t)" by (rule mp_heap_btree_linearize_preorder [OF tree(1,2) ne])
  have mset: "mset (preorder t) = mset (inorder t)" by (induction t) auto
  have pre: "set (preorder t) = set_tree t" "distinct (preorder t)" using mset tree(2) mset_eq_imp_distinct_iff by (simp, blast)
  then have len: "length (preorder t) = hp_free_count pg" using rep(3) distinct_card by fastforce
  have "page_mid hdr ?h None xs Leaf (set ?fs) A"
    using rep(1) pre(1) by (auto simp: page_rep_def page_mid_def free_tree_def tree_rep_def root_of_def ordered_def)
  then obtain root' n' h' xs' t' where r: "rebuild_tree ?fs None 0 ?h = Some (root', n', h')" "page_mid hdr h' root' xs' t' {} A"
      "n' + card (set_tree (Leaf :: nat tree)) = 0 + card (set_tree t')" "\<And>x. x \<in> A \<Longrightarrow> sizes h' x = sizes ?h x"
      "(\<Sum>y \<in> set_tree t'. sizes h' y) = (\<Sum>y \<in> set_tree (Leaf :: nat tree) \<union> set ?fs. sizes ?h y)"
    using rebuild_tree_mid [of hdr ?h None xs Leaf ?fs A 0] pre(2) by (auto simp: distinct_sort)
  let ?pg = "pg\<lparr>hp_root_free := root', hp_free_count := n', hp_store := h', hp_defrag_period := MPHHDEFRAGPERIOD\<rparr>"
  have rep': "page_rep hdr h' root' xs' t' A" using r(2) by (auto simp: page_mid_def page_rep_def)
  have "page_ok hdr ?pg"
    by (rule page_okI [of _ _ xs' t' A]) (use rep' rep(2,4) r(3,5) pre(1) in simp_all)
  moreover have "page_blocks hdr ?pg = page_blocks hdr pg"
    using page_blocks_rep [of hdr ?pg xs' t' A] rep' page_blocks_rep [OF rep(1)] r(4) by auto
  moreover have "page_rebuild pg = Some (Inr ?pg)"
    using ne tree(3) lin len r(1) by (cases t) (simp_all add: page_rebuild_def root_of_def del: mp_heap_btree_linearize.simps)
  ultimately show ?thesis by auto
qed

section \<open>A page meets the allocator contract\<close>

definition page_alloc_unit :: "nat \<Rightarrow> heap_page \<Rightarrow> (nat \<times> heap_page) option" where
  "page_alloc_unit sz pg =
     (if hp_root_free pg = None then None
      else case page_take (heap_units sz) pg of Some (Some x, pg') \<Rightarrow> Some (x, pg') | _ \<Rightarrow> None)"

lemma heap_units_min: "MPHEAPMINUNITS \<le> heap_units sz"
  by (simp add: heap_units_def Let_def)

lemma page_blocks_apart:
  assumes "(x, n) \<in> page_blocks hdr pg" and "(y, m) \<in> page_blocks hdr pg" and "x < y"
  shows "x + n \<le> y"
proof -
  obtain xs where xs: "tiled (sizes (hp_store pg)) hdr 1023 xs" "x \<in> set xs" "n = sizes (hp_store pg) x" using assms(1) by (auto simp: page_blocks_def)
  obtain ys where ys: "tiled (sizes (hp_store pg)) hdr 1023 ys" "y \<in> set ys" using assms(2) by (auto simp: page_blocks_def)
  have "ys = xs" using tiled_unique [OF ys(1) xs(1)] .
  then show ?thesis using tiled_apart [OF xs(1,2)] ys(2) assms(3) xs(3) by simp
qed

lemma page_block_bounds:
  assumes "(x, n) \<in> page_blocks hdr pg"
  shows "hdr \<le> x \<and> MPHEAPMINUNITS \<le> n \<and> x + n \<le> 1023 \<and> MP_HH_IS_ALLOCATED (hp_store pg) x \<and> n = hh_size (hp_store pg x)"
proof -
  obtain xs where xs: "tiled (sizes (hp_store pg)) hdr 1023 xs" "x \<in> set xs" "MP_HH_IS_ALLOCATED (hp_store pg) x" "n = sizes (hp_store pg) x"
    using assms by (auto simp: page_blocks_def)
  then have "hdr \<le> x \<and> MPHEAPMINUNITS \<le> n \<and> x + n \<le> 1023" using tiled_bounds [OF xs(1)] by auto
  then show ?thesis using xs(3,4) by (simp add: sizes_def)
qed

interpretation hpage: block_allocator "page_ok hdr" "page_blocks hdr" "\<lambda>_. True" heap_units page_alloc_unit page_put for hdr
proof unfold_locales
  show "extent a \<inter> extent b = {}" if ab: "a \<in> page_blocks hdr pg" "b \<in> page_blocks hdr pg" "a \<noteq> b" for pg a b
  proof -
    obtain x n y m where xy: "a = (x, n)" "b = (y, m)" by (cases a; cases b)
    have "x \<noteq> y" using ab xy page_block_bounds [of x n hdr pg] page_block_bounds [of y m hdr pg] by auto
    then show ?thesis using ab xy page_blocks_apart [of x n hdr pg y m] page_blocks_apart [of y m hdr pg x n]
      by (cases x y rule: linorder_cases) (auto simp: extent_def)
  qed
  show "0 < snd a" if "a \<in> page_blocks hdr pg" for pg a
    using that page_block_bounds [of "fst a" "snd a" hdr pg] by (simp add: MPHEAPMINUNITS_def)
  show "page_ok hdr pg' \<and> (\<exists>n \<ge> heap_units r. (a, n) \<notin> page_blocks hdr pg \<and> page_blocks hdr pg' = insert (a, n) (page_blocks hdr pg))"
    if ok: "page_ok hdr pg" and run: "page_alloc_unit r pg = Some (a, pg')" for pg r a pg'
  proof -
    have root: "hp_root_free pg \<noteq> None" and take: "page_take (heap_units r) pg = Some (Some a, pg')"
      using run by (auto simp: page_alloc_unit_def split: if_splits option.splits)
    show ?thesis using page_take_spec [OF ok root heap_units_min [of r]] take by auto
  qed
  show "\<exists>pg'. page_put a pg = Some pg' \<and> page_ok hdr pg' \<and> page_blocks hdr pg' = page_blocks hdr pg - {(a, n)}"
    if "page_ok hdr pg" "(a, n) \<in> page_blocks hdr pg" for pg a n
    using page_put_spec [OF that] by blast
qed

lemma tiled_sum: "tiled sz p q xs \<Longrightarrow> p + sum sz (set xs) = q"
proof (induction xs arbitrary: p)
  case (Cons x xs)
  have "x \<notin> set xs" using tiled_distinct [OF Cons.prems] by simp
  then show ?case using Cons.IH [of "p + sz x"] Cons.prems by (auto simp: add.assoc)
qed simp

lemma page_conserved:
  assumes "page_ok hdr pg"
  shows "hdr + hp_free pg + (\<Sum>(x, n) \<in> page_blocks hdr pg. n) = 1023" and "hp_allocated_count pg = card (page_blocks hdr pg)"
proof -
  let ?sz = "sizes (hp_store pg)"
  obtain xs t A where rep: "page_rep hdr (hp_store pg) (hp_root_free pg) xs t A" "hp_allocated_count pg = card A" "hp_free pg = sum ?sz (set_tree t)"
    using assms by (auto simp: page_ok_def)
  have blocks: "page_blocks hdr pg = (\<lambda>x. (x, ?sz x)) ` A" by (rule page_blocks_rep [OF rep(1)])
  have inj: "inj_on (\<lambda>x. (x, ?sz x)) A" by (auto simp: inj_on_def)
  show "hp_allocated_count pg = card (page_blocks hdr pg)" using rep(2) by (simp add: blocks card_image [OF inj])
  have "hdr + sum ?sz (set xs) = 1023" by (rule tiled_sum) (use rep(1) in \<open>simp add: page_rep_def\<close>)
  moreover have "sum ?sz (set xs) = sum ?sz A + sum ?sz (set_tree t)"
    using rep(1) page_rep_finite [OF rep(1)] by (auto simp: page_rep_def intro!: sum.union_disjoint)
  moreover have "(\<Sum>(x, n) \<in> page_blocks hdr pg. n) = sum ?sz A" by (simp add: blocks sum.reindex [OF inj])
  ultimately show "hdr + hp_free pg + (\<Sum>(x, n) \<in> page_blocks hdr pg. n) = 1023" using rep(3) by simp
qed

lemma page_init_ok:
  assumes "0 < hdr" and "hdr \<le> 200"
  shows "page_ok hdr (page_init hdr base now junk)" and "page_blocks hdr (page_init hdr base now junk) = {}"
    and "tiled (sizes (hp_store (page_init hdr base now junk))) hdr 1023 [hdr]" and "sizes (hp_store (page_init hdr base now junk)) hdr = 1023 - hdr"
    and "\<not> MP_HH_IS_ALLOCATED (hp_store (page_init hdr base now junk)) hdr"
proof -
  let ?pg = "page_init hdr base now junk"
  have "(4096 - hdr * 4 - 4) div 4 = 1023 - hdr" "(1023 - hdr) mod 1024 = 1023 - hdr" using assms by auto
  then have h: "hp_store ?pg hdr = \<lparr>hh_size = 1023 - hdr, hh_left = 0, hh_right = 0\<rparr>" "hp_free ?pg = 1023 - hdr"
    by (simp_all add: page_init_def Let_def heap_consts MP_HEAP_HEADER_INIT_def)
  show sz: "sizes (hp_store ?pg) hdr = 1023 - hdr" by (simp add: sizes_def h)
  show tile: "tiled (sizes (hp_store ?pg)) hdr 1023 [hdr]" using assms sz by (simp add: MPHEAPMINUNITS_def)
  show na: "\<not> MP_HH_IS_ALLOCATED (hp_store ?pg) hdr" by (simp add: MP_HH_IS_ALLOCATED_def h MPHEAPMAXUNITS_def)
  have "free_tree (hp_store ?pg) (hp_root_free ?pg) (Node Leaf hdr Leaf)"
    using assms by (simp add: free_tree_def tree_rep_def root_of_def ordered_def h MPHEAPMAXUNITS_def) (simp add: page_init_def Let_def)
  then have rep: "page_rep hdr (hp_store ?pg) (hp_root_free ?pg) [hdr] (Node Leaf hdr Leaf) {}" using tile by (simp add: page_rep_def)
  show "page_ok hdr ?pg" by (rule page_okI [OF rep]) (simp_all add: sz h, simp_all add: page_init_def Let_def)
  show "page_blocks hdr ?pg = {}" using page_blocks_rep [OF rep] by simp
qed

text \<open>
  C29. A heap page is an allocator: whatever is allocated from it and freed again, in any order, the blocks that were in use before are in use
  after, and at every point the free units it counts, the units of the blocks in use and the page header
  add up to the page. Defragmentation changes none of this.
\<close>

theorem mp_heap_page_conserves:
  assumes "page_ok hdr pg" and "alloc_all page_alloc_unit rs pg = Some (as, pg')" and "mset as' = mset as"
  shows "\<exists>pg''. release_all page_put as' pg' = Some pg'' \<and> page_ok hdr pg'' \<and> page_blocks hdr pg'' = page_blocks hdr pg
    \<and> hp_free pg'' = hp_free pg \<and> hp_allocated_count pg'' = hp_allocated_count pg
    \<and> hdr + hp_free pg' + (\<Sum>(x, n) \<in> page_blocks hdr pg'. n) = 1023
    \<and> (hp_root_free pg' \<noteq> None \<longrightarrow> (\<exists>pg2. page_rebuild pg' = Some (Inr pg2) \<and> page_ok hdr pg2
         \<and> page_blocks hdr pg2 = page_blocks hdr pg' \<and> hp_free pg2 = hp_free pg'))"
proof -
  obtain pg'' where r: "release_all page_put as' pg' = Some pg''" "page_ok hdr pg''" "page_blocks hdr pg'' = page_blocks hdr pg"
    using hpage.alloc_release_all [OF assms(1) _ assms(2,3)] by auto
  have ok': "page_ok hdr pg'" using hpage.alloc_all_blocks [OF assms(1) _ assms(2)] by auto
  show ?thesis using r page_conserved [OF r(2)] page_conserved [OF assms(1)] page_conserved(1) [OF ok'] page_rebuild_spec [OF ok'] by auto
qed

theorem mp_heap_page_conserves_witness:
  "\<exists>a pg' pg''. alloc_all page_alloc_unit [100] (page_init 24 0 0 (\<lambda>_. \<lparr>hh_size = 0, hh_left = 0, hh_right = 0\<rparr>)) = Some ([a], pg')
    \<and> release_all page_put [a] pg' = Some pg'' \<and> hp_free pg'' = 999 \<and> page_blocks 24 pg'' = {}"
proof -
  let ?pg = "page_init 24 0 0 (\<lambda>_. \<lparr>hh_size = 0, hh_left = 0, hh_right = 0\<rparr>)"
  have init: "page_ok 24 ?pg" "page_blocks 24 ?pg = {}" "tiled (sizes (hp_store ?pg)) 24 1023 [24]" "sizes (hp_store ?pg) 24 = 999"
    "\<not> MP_HH_IS_ALLOCATED (hp_store ?pg) 24"
    using page_init_ok [of 24 0 0 "\<lambda>_. \<lparr>hh_size = 0, hh_left = 0, hh_right = 0\<rparr>"] by auto
  have root: "hp_root_free ?pg \<noteq> None" and free: "hp_free ?pg = 999" by (simp_all add: page_init_def Let_def heap_consts)
  have units: "heap_units 100 \<le> sizes (hp_store ?pg) 24" unfolding init(4) by (simp add: heap_units_def heap_consts)
  obtain a pg' where "page_take (heap_units 100) ?pg = Some (Some a, pg')"
    using page_take_fits [OF init(1) root heap_units_min init(3) _ init(5) units] by auto
  then have "alloc_all page_alloc_unit [100] ?pg = Some ([a], pg')" using root by (simp add: page_alloc_unit_def)
  then show ?thesis using mp_heap_page_conserves [OF init(1), of "[100]" "[a]" pg' "[a]"] init(2) free by auto
qed

end
