(* ===== verification/MpPool.thy ===== *)
theory MpPool
  imports MpHeap
begin

text \<open>
  The memory pool as a whole (\<open>libtscommon/mempool.c\<close>): the invariant that ties the pages of the heap to the
  segment, allocation and freeing through the list of pages, and \<open>mp_malloc\<close>, \<open>mp_free\<close> and \<open>mp_realloc\<close>.
\<close>

section \<open>The heap as a set of pointers\<close>

text \<open>The page header takes at most 200 units; a page has 16 fragments.\<close>

definition sys_ok :: "nat \<Rightarrow> heap_sys \<Rightarrow> bool" where
  "sys_ok hdr s \<longleftrightarrow> 0 < hdr \<and> hdr \<le> 200 \<and> frag_ok (hs_seg s) \<and> distinct (map hp_base (hs_pages s))
     \<and> (\<forall>pg \<in> set (hs_pages s). page_ok hdr pg
          \<and> (\<exists>i. hp_base pg = i * MPFRAGSIZE \<and> (i, 16) \<in> frag_blocks (hs_seg s) \<and> frag_kind (hs_seg s) i = FRAG_HEAP))"

definition page_ptrs :: "nat \<Rightarrow> heap_page \<Rightarrow> (addr \<times> nat) set" where
  "page_ptrs hdr pg = (\<lambda>(x, n). (hp_base pg + x * MPHEAPUNIT + MPHEAPHHSIZE, n * MPHEAPUNIT - MPHEAPHHSIZE)) ` page_blocks hdr pg"

text \<open>Pointers that were handed out, with the bytes behind them.\<close>

definition heap_ptrs :: "nat \<Rightarrow> heap_sys \<Rightarrow> (addr \<times> nat) set" where
  "heap_ptrs hdr s = (\<Union>pg \<in> set (hs_pages s). page_ptrs hdr pg)"

lemma sys_okD:
  assumes "sys_ok hdr s"
  shows "0 < hdr" "hdr \<le> 200" "frag_ok (hs_seg s)" "distinct (map hp_base (hs_pages s))"
    and "pg \<in> set (hs_pages s) \<Longrightarrow> page_ok hdr pg"
    and "pg \<in> set (hs_pages s) \<Longrightarrow> \<exists>i. hp_base pg = i * MPFRAGSIZE \<and> (i, 16) \<in> frag_blocks (hs_seg s) \<and> frag_kind (hs_seg s) i = FRAG_HEAP"
  using assms by (auto simp: sys_ok_def)

lemma pages_apart:
  assumes ok: "sys_ok hdr s" and pg: "pg \<in> set (hs_pages s)" "pg' \<in> set (hs_pages s)"
    and a: "hp_base pg \<le> a" "a < hp_base pg + MPHEAPPAGESIZE" "hp_base pg' \<le> a" "a < hp_base pg' + MPHEAPPAGESIZE"
  shows "pg = pg'"
proof -
  obtain i j where ij: "hp_base pg = i * MPFRAGSIZE" "(i, 16) \<in> frag_blocks (hs_seg s)" "hp_base pg' = j * MPFRAGSIZE" "(j, 16) \<in> frag_blocks (hs_seg s)"
    using sys_okD(6) [OF ok] pg by blast
  have "a div MPFRAGSIZE \<in> {i..<i + 16} \<inter> {j..<j + 16}"
    using a ij(1,3) by (auto simp: frag_consts heap_consts less_eq_div_iff_mult_less_eq div_less_iff_less_mult)
  then have "i = j" using frag_blocks_disjoint [OF sys_okD(3) [OF ok] ij(2,4)] by blast
  then have "hp_base pg = hp_base pg'" using ij(1,3) by simp
  then show ?thesis using sys_okD(4) [OF ok] pg by (simp add: distinct_map inj_on_def)
qed

lemma page_ptr_range:
  assumes "(p, n) \<in> page_ptrs hdr pg" and "0 < hdr"
  shows "hp_base pg < p - MPHEAPHHSIZE \<and> p - MPHEAPHHSIZE < hp_base pg + MPHEAPPAGESIZE \<and> MPHEAPHHSIZE \<le> p \<and> p + n \<le> hp_base pg + MPHEAPPAGESIZE - MPHEAPHHSIZE
    \<and> (((p - MPHEAPHHSIZE - hp_base pg) div MPHEAPUNIT, hh_size (hp_store pg ((p - MPHEAPHHSIZE - hp_base pg) div MPHEAPUNIT))) \<in> page_blocks hdr pg)
    \<and> n = hh_size (hp_store pg ((p - MPHEAPHHSIZE - hp_base pg) div MPHEAPUNIT)) * MPHEAPUNIT - MPHEAPHHSIZE"
proof -
  obtain x m where x: "(x, m) \<in> page_blocks hdr pg" "p = hp_base pg + x * MPHEAPUNIT + MPHEAPHHSIZE" "n = m * MPHEAPUNIT - MPHEAPHHSIZE"
    using assms(1) by (auto simp: page_ptrs_def)
  have "(p - MPHEAPHHSIZE - hp_base pg) div MPHEAPUNIT = x" using x(2) by (simp add: heap_consts)
  then show ?thesis using x page_block_bounds [OF x(1)] assms(2) by (auto simp: heap_consts)
qed

definition other_ptrs :: "nat \<Rightarrow> nat \<Rightarrow> heap_sys \<Rightarrow> (addr \<times> nat) set" where
  "other_ptrs hdr j s = (\<Union>k \<in> {..<length (hs_pages s)} - {j}. page_ptrs hdr (hs_pages s ! k))"

lemma heap_ptrs_nth:
  assumes "j < length (hs_pages s)"
  shows "heap_ptrs hdr s = page_ptrs hdr (hs_pages s ! j) \<union> other_ptrs hdr j s"
proof -
  have "set (hs_pages s) = insert (hs_pages s ! j) (nth (hs_pages s) ` ({..<length (hs_pages s)} - {j}))"
    using assms by (auto simp: in_set_conv_nth image_iff)
  then show ?thesis by (auto simp: heap_ptrs_def other_ptrs_def)
qed

lemma other_ptrs_update: "other_ptrs hdr j (s\<lparr>hs_pages := (hs_pages s)[j := pg]\<rparr>) = other_ptrs hdr j s"
  by (simp add: other_ptrs_def)

lemma sys_ok_update:
  assumes ok: "sys_ok hdr s" and j: "j < length (hs_pages s)" and pg: "page_ok hdr pg" "hp_base pg = hp_base (hs_pages s ! j)"
  shows "sys_ok hdr (s\<lparr>hs_pages := (hs_pages s)[j := pg]\<rparr>)"
    and "heap_ptrs hdr (s\<lparr>hs_pages := (hs_pages s)[j := pg]\<rparr>) = page_ptrs hdr pg \<union> other_ptrs hdr j s"
proof -
  have "map hp_base ((hs_pages s)[j := pg]) = map hp_base (hs_pages s)" using j pg(2) by (simp add: map_update) (metis list_update_id nth_map)
  moreover have "set ((hs_pages s)[j := pg]) \<subseteq> insert pg (set (hs_pages s))" by (rule set_update_subset_insert)
  moreover have "\<exists>i. hp_base pg = i * MPFRAGSIZE \<and> (i, 16) \<in> frag_blocks (hs_seg s) \<and> frag_kind (hs_seg s) i = FRAG_HEAP"
    unfolding pg(2) by (rule sys_okD(6) [OF ok]) (simp add: j)
  ultimately show "sys_ok hdr (s\<lparr>hs_pages := (hs_pages s)[j := pg]\<rparr>)" using ok pg(1) by (auto simp: sys_ok_def)
  show "heap_ptrs hdr (s\<lparr>hs_pages := (hs_pages s)[j := pg]\<rparr>) = page_ptrs hdr pg \<union> other_ptrs hdr j s"
    using heap_ptrs_nth [of j "s\<lparr>hs_pages := (hs_pages s)[j := pg]\<rparr>" hdr] j by (simp add: other_ptrs_update)
qed

lemma not_other:
  assumes ok: "sys_ok hdr s" and j: "j < length (hs_pages s)" and pg: "(p, n) \<in> page_ptrs hdr pg" "hp_base pg = hp_base (hs_pages s ! j)"
  shows "(p, m) \<notin> other_ptrs hdr j s"
proof
  assume "(p, m) \<in> other_ptrs hdr j s"
  then obtain k where k: "k < length (hs_pages s)" "k \<noteq> j" "(p, m) \<in> page_ptrs hdr (hs_pages s ! k)" by (auto simp: other_ptrs_def)
  note hdr = sys_okD(1) [OF ok]
  have "hs_pages s ! j = hs_pages s ! k"
    by (rule pages_apart [OF ok, of _ _ "p - MPHEAPHHSIZE"])
      (use page_ptr_range [OF pg(1) hdr] page_ptr_range [OF k(3) hdr] pg(2) j k(1) in simp_all)
  then show False using sys_okD(4) [OF ok] j k(1,2) by (metis distinct_conv_nth distinct_map)
qed

lemma heap_units_bounds:
  assumes "sz \<le> MPHEAPMAXALLOC"
  shows "MPHEAPMINUNITS \<le> heap_units sz" and "heap_units sz \<le> 801" and "sz \<le> heap_units sz * MPHEAPUNIT - MPHEAPHHSIZE"
proof -
  define q r where "q = sz div 4" and "r = sz mod 4"
  have "sz = q * 4 + r" "r < 4" by (simp_all add: q_def r_def)
  moreover have "heap_units sz = max 4 (q + (if r \<noteq> 0 then 1 else 0) + 1)" by (simp add: heap_units_def Let_def heap_consts q_def r_def)
  ultimately show "MPHEAPMINUNITS \<le> heap_units sz" "heap_units sz \<le> 801" "sz \<le> heap_units sz * MPHEAPUNIT - MPHEAPHHSIZE"
    using assms by (auto simp: heap_consts max_def)
qed

subsection \<open>Allocation\<close>

text \<open>Fragments that are not pages of the heap.\<close>

definition plain_frags :: "heap_sys \<Rightarrow> (nat \<times> nat) set" where
  "plain_frags s = {(i, n) \<in> frag_blocks (hs_seg s). frag_kind (hs_seg s) i \<noteq> FRAG_HEAP}"

lemma plain_frags_pages [simp]: "plain_frags (s\<lparr>hs_pages := pgs\<rparr>) = plain_frags s"
  by (simp add: plain_frags_def)

lemma next_page_Some: "next_page pgs start = Some j \<Longrightarrow> start \<le> j \<and> j < length pgs \<and> hp_root_free (pgs ! j) \<noteq> None"
  by (auto simp: next_page_def find_Some_iff)

text \<open>A new page is a new block of the segment, with one free fragment.\<close>

lemma mp_heap_page_alloc_spec:
  assumes ok: "sys_ok hdr s"
  shows "mp_heap_page_alloc hdr now junk s = Inl MP_ABORT \<or>
    (\<exists>base s'. mp_heap_page_alloc hdr now junk s = Inr s' \<and> hs_pages s' = page_init hdr base now junk # hs_pages s
      \<and> sys_ok hdr s' \<and> heap_ptrs hdr s' = heap_ptrs hdr s \<and> plain_frags s' = plain_frags s)"
proof -
  have req: "0 < MPHEAPPAGESIZE" "MPHEAPPAGESIZE \<le> MPPAGESIZE" "0 \<le> FRAG_HEAP" "frags_of MPHEAPPAGESIZE = 16"
    by (simp_all add: heap_consts frag_consts frags_of_def)
  note hdr = sys_okD(1,2) [OF ok] and seg = sys_okD(3) [OF ok]
  show ?thesis using mp_frag_alloc_block [OF seg req(1-3)]
  proof (elim disjE exE conjE)
    assume "mp_frag_alloc MPHEAPPAGESIZE FRAG_HEAP (hs_seg s) = Inl MP_ABORT"
    then show ?thesis by (simp add: mp_heap_page_alloc_def)
  next
    fix idx seg'
    assume a: "mp_frag_alloc MPHEAPPAGESIZE FRAG_HEAP (hs_seg s) = Inr (idx * MPFRAGSIZE, seg')" "frag_ok seg'"
      "frag_blocks seg' = insert (idx, frags_of MPHEAPPAGESIZE) (frag_blocks (hs_seg s))"
      "\<forall>(i, n) \<in> frag_blocks (hs_seg s). {idx..<idx + frags_of MPHEAPPAGESIZE} \<inter> {i..<i + n} = {}"
      "frag_kind seg' idx = FRAG_HEAP" "\<forall>(i, n) \<in> frag_blocks (hs_seg s). frag_kind seg' i = frag_kind (hs_seg s) i"
    let ?pg = "page_init hdr (idx * MPFRAGSIZE) now junk"
    let ?s = "\<lparr>hs_pages = ?pg # hs_pages s, hs_last = Some (idx * MPFRAGSIZE), hs_seg = seg'\<rparr>"
    have base: "hp_base ?pg = idx * MPFRAGSIZE" by (simp add: page_init_def Let_def)
    have fresh: "(idx, 16) \<notin> frag_blocks (hs_seg s)" using a(4) req(4) by fastforce
    have "idx * MPFRAGSIZE \<notin> hp_base ` set (hs_pages s)"
    proof
      assume "idx * MPFRAGSIZE \<in> hp_base ` set (hs_pages s)"
      then obtain pg where "pg \<in> set (hs_pages s)" "hp_base pg = idx * MPFRAGSIZE" by auto
      then show False using sys_okD(6) [OF ok, of pg] fresh by (auto simp: frag_consts)
    qed
    moreover have "\<exists>i. hp_base pg = i * MPFRAGSIZE \<and> (i, 16) \<in> frag_blocks seg' \<and> frag_kind seg' i = FRAG_HEAP" if "pg \<in> set (hs_pages s)" for pg
      using sys_okD(6) [OF ok that] a(3,6) by fastforce
    ultimately have "sys_ok hdr ?s"
      using hdr a(2,3,5) req(4) base page_init_ok(1) [OF hdr] sys_okD(4,5) [OF ok] by (auto simp: sys_ok_def)
    moreover have "heap_ptrs hdr ?s = heap_ptrs hdr s" using page_init_ok(2) [OF hdr] by (simp add: heap_ptrs_def page_ptrs_def)
    moreover have "plain_frags ?s = plain_frags s" using a(3,5,6) by (auto simp: plain_frags_def)
    moreover have "mp_heap_page_alloc hdr now junk s = Inr ?s" using a(1) by (simp add: mp_heap_page_alloc_def)
    ultimately show ?thesis by auto
  qed
qed

lemma page_take_sys:
  assumes ok: "sys_ok hdr s" and j: "j < length (hs_pages s)" "hp_root_free (hs_pages s ! j) \<noteq> None" and units: "MPHEAPMINUNITS \<le> units"
    and take: "page_take units (hs_pages s ! j) = Some (Some x, pg)"
  shows "\<exists>n. let s' = s\<lparr>hs_pages := (hs_pages s)[j := pg]\<rparr>; p = hp_base pg + x * MPHEAPUNIT + MPHEAPHHSIZE in
    sys_ok hdr s' \<and> units * MPHEAPUNIT - MPHEAPHHSIZE \<le> n \<and> n \<le> units * MPHEAPUNIT + 12 \<and> (\<forall>m. (p, m) \<notin> heap_ptrs hdr s) \<and> heap_ptrs hdr s' = insert (p, n) (heap_ptrs hdr s)"
proof -
  let ?pg = "hs_pages s ! j"
  have pok: "page_ok hdr ?pg" using sys_okD(5) [OF ok] j(1) by simp
  obtain n where n: "page_ok hdr pg" "hp_base pg = hp_base ?pg" "units \<le> n" "(x, n) \<notin> page_blocks hdr ?pg"
      "page_blocks hdr pg = insert (x, n) (page_blocks hdr ?pg)" "n \<le> units + MPHEAPMINUNITS"
    using page_take_spec [OF pok j(2) units] take by auto
  define p m where "p = hp_base pg + x * MPHEAPUNIT + MPHEAPHHSIZE" and "m = n * MPHEAPUNIT - MPHEAPHHSIZE"
  have ptrs: "page_ptrs hdr pg = insert (p, m) (page_ptrs hdr ?pg)" using n(2,5) by (simp add: page_ptrs_def p_def m_def)
  note upd = sys_ok_update [OF ok j(1) n(1,2)]
  have "(p, k) \<notin> page_ptrs hdr ?pg" for k
  proof
    assume "(p, k) \<in> page_ptrs hdr ?pg"
    then obtain k' where "(x, k') \<in> page_blocks hdr ?pg" using n(2) by (auto simp: page_ptrs_def p_def heap_consts)
    then have "k' = n" using page_block_bounds [of x k' hdr pg] page_block_bounds [of x n hdr pg] n(5) by auto
    then show False using \<open>(x, k') \<in> _\<close> n(4) by simp
  qed
  moreover have "(p, k) \<notin> other_ptrs hdr j s" for k using not_other [OF ok j(1), of p m pg] ptrs n(2) by blast
  moreover have "units * MPHEAPUNIT - MPHEAPHHSIZE \<le> m" "m \<le> units * MPHEAPUNIT + 12" using n(3,6) by (simp_all add: m_def heap_consts)
  ultimately show ?thesis using upd ptrs heap_ptrs_nth [OF j(1), of hdr] by (intro exI [of _ m]) (simp add: Let_def p_def)
qed

definition allocated_in :: "nat \<Rightarrow> nat \<Rightarrow> heap_sys \<Rightarrow> (mp_error + addr \<times> heap_sys) option \<Rightarrow> bool" where
  "allocated_in hdr bytes s r \<longleftrightarrow> r = Some (Inl MP_ABORT) \<or>
     (\<exists>p n s'. r = Some (Inr (p, s')) \<and> sys_ok hdr s' \<and> bytes \<le> n \<and> (\<forall>m. (p, m) \<notin> heap_ptrs hdr s)
        \<and> heap_ptrs hdr s' = insert (p, n) (heap_ptrs hdr s) \<and> plain_frags s' = plain_frags s)"

lemma allocated_in_mono: "allocated_in hdr b s r \<Longrightarrow> b' \<le> b \<Longrightarrow> allocated_in hdr b' s r"
  unfolding allocated_in_def using le_trans by blast

lemma heap_alloc_loop_spec:
  assumes "sys_ok hdr s" and "MPHEAPMINUNITS \<le> units" and "units \<le> 801"
  shows "allocated_in hdr (units * MPHEAPUNIT - MPHEAPHHSIZE) s (heap_alloc_loop hdr now junk units start s)"
  using assms(1)
proof (induction "length (hs_pages s) - start" arbitrary: start rule: less_induct)
  case less
  note ok = less.prems
  have found: ?case if run: "heap_alloc_loop hdr now junk units start s =
      Some (Inr (hp_base pg + x * MPHEAPUNIT + MPHEAPHHSIZE, s1\<lparr>hs_pages := (hs_pages s1)[j := pg]\<rparr>))"
    and s1: "sys_ok hdr s1" "j < length (hs_pages s1)" "hp_root_free (hs_pages s1 ! j) \<noteq> None"
      "page_take units (hs_pages s1 ! j) = Some (Some x, pg)" "heap_ptrs hdr s1 = heap_ptrs hdr s" "plain_frags s1 = plain_frags s" for pg x j s1
    using page_take_sys [OF s1(1-3) assms(2) s1(4)] s1(5,6) run by (auto simp: allocated_in_def Let_def)
  show ?case
  proof (cases "next_page (hs_pages s) start")
    case (Some j)
    have j: "start \<le> j" "j < length (hs_pages s)" "hp_root_free (hs_pages s ! j) \<noteq> None" using next_page_Some [OF Some] by auto
    have "page_ok hdr (hs_pages s ! j)" using sys_okD(5) [OF ok] j(2) by simp
    then obtain res pg where take: "page_take units (hs_pages s ! j) = Some (res, pg)" using page_take_spec [OF _ j(3) assms(2)] by blast
    show ?thesis
    proof (cases res)
      case None
      have "heap_alloc_loop hdr now junk units start s = heap_alloc_loop hdr now junk units (Suc j) s"
        using Some take None by (subst heap_alloc_loop.simps) simp
      then show ?thesis using less.hyps [OF _ ok, of "Suc j"] j by simp
    next
      case res: (Some x)
      have "heap_alloc_loop hdr now junk units start s =
          Some (Inr (hp_base pg + x * MPHEAPUNIT + MPHEAPHHSIZE, s\<lparr>hs_pages := (hs_pages s)[j := pg]\<rparr>))"
        using Some take res by (subst heap_alloc_loop.simps) simp
      then show ?thesis using take res by (intro found [OF _ ok j(2,3) _ refl refl]) simp_all
    qed
  next
    case None
    show ?thesis using mp_heap_page_alloc_spec [OF ok, of now junk]
    proof (elim disjE exE conjE)
      assume "mp_heap_page_alloc hdr now junk s = Inl MP_ABORT"
      then have "heap_alloc_loop hdr now junk units start s = Some (Inl MP_ABORT)" using None by (subst heap_alloc_loop.simps) simp
      then show ?thesis by (simp add: allocated_in_def)
    next
      fix base s1
      assume a: "mp_heap_page_alloc hdr now junk s = Inr s1" "hs_pages s1 = page_init hdr base now junk # hs_pages s"
        "sys_ok hdr s1" "heap_ptrs hdr s1 = heap_ptrs hdr s" "plain_frags s1 = plain_frags s"
      let ?pg = "page_init hdr base now junk"
      note hdr = sys_okD(1,2) [OF ok]
      note init = page_init_ok [OF hdr, of base now junk]
      have root: "hp_root_free ?pg \<noteq> None" by (simp add: page_init_def Let_def)
      have "units \<le> sizes (hp_store ?pg) hdr" using init(4) hdr assms(3) by simp
      then obtain x pg where x: "page_take units ?pg = Some (Some x, pg)"
        using page_take_fits [OF init(1) root assms(2) init(3) _ init(5)] by auto
      have "heap_alloc_loop hdr now junk units start s =
          Some (Inr (hp_base pg + x * MPHEAPUNIT + MPHEAPHHSIZE, s1\<lparr>hs_pages := (hs_pages s1)[0 := pg]\<rparr>))"
        using None x a(1,2) by (subst heap_alloc_loop.simps) simp
      then show ?thesis using x root a(2) by (intro found [of pg x s1 0, OF _ a(3) _ _ _ a(4,5)]) simp_all
    qed
  qed
qed

lemma mp_heap_alloc_spec:
  assumes "sys_ok hdr s" and "sz \<le> MPHEAPMAXALLOC"
  shows "allocated_in hdr sz s (mp_heap_alloc hdr now junk sz s)"
proof -
  note u = heap_units_bounds [OF assms(2)]
  show ?thesis unfolding mp_heap_alloc_def by (rule allocated_in_mono [OF heap_alloc_loop_spec [OF assms(1) u(1,2)] u(3)])
qed

subsection \<open>Freeing\<close>

lemma page_of_ptr:
  assumes ok: "sys_ok hdr s" and p: "(p, n) \<in> heap_ptrs hdr s"
  shows "\<exists>j. page_of (p - MPHEAPHHSIZE) (hs_pages s) = Some j \<and> j < length (hs_pages s) \<and> (p, n) \<in> page_ptrs hdr (hs_pages s ! j)"
proof -
  obtain k where k: "k < length (hs_pages s)" "(p, n) \<in> page_ptrs hdr (hs_pages s ! k)"
    using p by (auto simp: heap_ptrs_def in_set_conv_nth)
  note range = page_ptr_range [OF k(2) sys_okD(1) [OF ok]]
  then have "MP_HH_IN_PAGE (p - MPHEAPHHSIZE) (hs_pages s ! k)" by (simp add: MP_HH_IN_PAGE_def)
  then have "page_of (p - MPHEAPHHSIZE) (hs_pages s) \<noteq> None" using k(1) by (auto simp: page_of_def find_None_iff)
  then obtain j where j: "page_of (p - MPHEAPHHSIZE) (hs_pages s) = Some j" by auto
  then have in_j: "j < length (hs_pages s)" "MP_HH_IN_PAGE (p - MPHEAPHHSIZE) (hs_pages s ! j)" by (auto simp: page_of_def find_Some_iff)
  have "hs_pages s ! j = hs_pages s ! k"
    by (rule pages_apart [OF ok, of _ _ "p - MPHEAPHHSIZE"]) (use in_j k(1) range in \<open>simp_all add: MP_HH_IN_PAGE_def\<close>)
  then show ?thesis using j in_j(1) k(2) by auto
qed

lemma page_period [simp]:
  "page_ok hdr (pg\<lparr>hp_defrag_period := d\<rparr>) = page_ok hdr pg" "page_blocks hdr (pg\<lparr>hp_defrag_period := d\<rparr>) = page_blocks hdr pg"
  by (simp_all add: page_ok_def page_blocks_def)

lemma page_empty:
  assumes "page_ok hdr pg" and "hp_allocated_count pg = 0"
  shows "page_blocks hdr pg = {}"
proof -
  obtain xs t A where "page_rep hdr (hp_store pg) (hp_root_free pg) xs t A" "card A = 0" using assms by (auto simp: page_ok_def)
  then show ?thesis using page_blocks_rep [of hdr pg xs t A] page_rep_finite [of hdr _ _ xs t A] by simp
qed

lemma free_count_bound:
  assumes "page_ok hdr pg"
  shows "hp_free_count pg \<le> 255"
proof -
  obtain xs t A where rep: "page_rep hdr (hp_store pg) (hp_root_free pg) xs t A" "hp_free_count pg = card (set_tree t)"
    using assms by (auto simp: page_ok_def)
  have "card (set_tree t) \<le> card (set xs)" 
    by (rule card_mono [OF List.finite_set]) (use rep(1) in \<open>simp add: page_rep_def\<close>)
  also have "\<dots> \<le> length xs" by (rule card_length)
  also have "MPHEAPMINUNITS * length xs \<le> 1023" using tiled_length [of "sizes (hp_store pg)" hdr 1023 xs] rep(1) by (auto simp: page_rep_def)
  then have "length xs \<le> 255" by (simp add: MPHEAPMINUNITS_def)
  finally show ?thesis using rep(2) by simp
qed

lemma sys_ok_same_frags:
  assumes ok: "sys_ok hdr s" and seg: "frag_ok seg" "frag_blocks seg = frag_blocks (hs_seg s)"
    "\<And>i n. (i, n) \<in> frag_blocks (hs_seg s) \<Longrightarrow> frag_kind seg i = frag_kind (hs_seg s) i"
  shows "sys_ok hdr (s\<lparr>hs_seg := seg\<rparr>)" and "heap_ptrs hdr (s\<lparr>hs_seg := seg\<rparr>) = heap_ptrs hdr s" and "plain_frags (s\<lparr>hs_seg := seg\<rparr>) = plain_frags s"
proof -
  have "\<exists>i. hp_base pg = i * MPFRAGSIZE \<and> (i, 16) \<in> frag_blocks seg \<and> frag_kind seg i = FRAG_HEAP" if "pg \<in> set (hs_pages s)" for pg
    using sys_okD(6) [OF ok that] seg(2,3) by metis
  then show "sys_ok hdr (s\<lparr>hs_seg := seg\<rparr>)" using ok seg(1) by (simp add: sys_ok_def)
  show "heap_ptrs hdr (s\<lparr>hs_seg := seg\<rparr>) = heap_ptrs hdr s" by (simp add: heap_ptrs_def)
  show "plain_frags (s\<lparr>hs_seg := seg\<rparr>) = plain_frags s" using seg(2,3) by (auto simp: plain_frags_def)
qed

text \<open>Defragmentation uses a fragment for its list and gives it back.\<close>

lemma mp_heap_page_defrag_spec:
  assumes ok: "page_ok hdr pg" and root: "hp_root_free pg \<noteq> None" and cnt: "0 < hp_free_count pg" and seg: "frag_ok seg"
  shows "mp_heap_page_defrag pg seg = Some (Inl MP_ABORT) \<or>
    (\<exists>pg' seg'. mp_heap_page_defrag pg seg = Some (Inr (pg', seg')) \<and> page_ok hdr pg' \<and> page_blocks hdr pg' = page_blocks hdr pg
      \<and> hp_base pg' = hp_base pg \<and> frag_ok seg' \<and> frag_blocks seg' = frag_blocks seg
      \<and> (\<forall>(i, n) \<in> frag_blocks seg. frag_kind seg' i = frag_kind seg i))"
proof (cases "hp_defrag_period pg - 1 > 0")
  case True
  then show ?thesis using ok seg by (auto simp: mp_heap_page_defrag_def Let_def)
next
  case False
  let ?pg = "pg\<lparr>hp_defrag_period := hp_defrag_period pg - 1\<rparr>" and ?sz = "hp_free_count pg * 8"
  obtain pg' where pg': "page_rebuild ?pg = Some (Inr pg')" "page_ok hdr pg'" "page_blocks hdr pg' = page_blocks hdr pg" "hp_base pg' = hp_base pg"
    using page_rebuild_spec [of hdr ?pg] ok root by auto
  have below: "below_page ?sz" using free_count_bound [OF ok] cnt by (simp add: below_page_def frag_consts)
  have sz: "0 < ?sz" "?sz \<le> MPPAGESIZE" "frags_of ?sz < 32" "0 < frags_of ?sz" using below_page_frags [OF below] frags_of_bounds [of ?sz] by auto
  have "0 \<le> FRAG_COMMON" by (simp add: FRAG_COMMON_def)
  then show ?thesis using mp_frag_alloc_block [OF seg sz(1,2) \<open>0 \<le> FRAG_COMMON\<close>]
  proof (elim disjE exE conjE)
    assume "mp_frag_alloc ?sz FRAG_COMMON seg = Inl MP_ABORT"
    then show ?thesis using False by (simp add: mp_heap_page_defrag_def Let_def)
  next
    fix idx seg1
    assume a: "mp_frag_alloc ?sz FRAG_COMMON seg = Inr (idx * MPFRAGSIZE, seg1)" "frag_ok seg1"
      "frag_blocks seg1 = insert (idx, frags_of ?sz) (frag_blocks seg)"
      "\<forall>(i, n) \<in> frag_blocks seg. {idx..<idx + frags_of ?sz} \<inter> {i..<i + n} = {}"
      "\<forall>(i, n) \<in> frag_blocks seg. frag_kind seg1 i = frag_kind seg i"
    obtain seg2 where f: "mp_frag_free (idx * MPFRAGSIZE) seg1 = Inr seg2" "frag_ok seg2"
        "frag_blocks seg2 = frag_blocks seg1 - {(idx, frags_of ?sz)}" "\<forall>(i, m) \<in> frag_blocks seg2. frag_kind seg2 i = frag_kind seg1 i"
      using mp_frag_free_block(1) [OF a(2), of idx "frags_of ?sz"] sz(3) a(3) by auto
    have "(idx, frags_of ?sz) \<notin> frag_blocks seg" using a(4) sz(4) by fastforce
    then have same: "frag_blocks seg2 = frag_blocks seg" using f(3) a(3) by auto
    have "\<forall>(i, n) \<in> frag_blocks seg. frag_kind seg2 i = frag_kind seg i" using f(4) a(5) same by fastforce
    moreover have "mp_heap_page_defrag pg seg = Some (Inr (pg', seg2))"
      using False a(1) pg'(1) f(1) by (simp add: mp_heap_page_defrag_def Let_def)
    ultimately show ?thesis using pg' f(2) same by auto
  qed
qed

definition freed_from :: "nat \<Rightarrow> (addr \<times> nat) set \<Rightarrow> (nat \<times> nat) set \<Rightarrow> (mp_error + heap_sys) option \<Rightarrow> bool" where
  "freed_from hdr P F r \<longleftrightarrow> r = Some (Inl MP_ABORT) \<or>
     (\<exists>s'. r = Some (Inr s') \<and> sys_ok hdr s' \<and> heap_ptrs hdr s' = P \<and> plain_frags s' = F)"

lemma mp_heap_page_free_spec:
  assumes ok: "sys_ok hdr s" and j: "j < length (hs_pages s)" and empty: "page_blocks hdr (hs_pages s ! j) = {}"
  shows "freed_from hdr (heap_ptrs hdr s) (plain_frags s) (Some (mp_heap_page_free j now s))"
proof (cases "now - hp_birth (hs_pages s ! j) < MP_HEAP_PAGE_LIFETIME")
  case True
  then show ?thesis using ok by (auto simp: mp_heap_page_free_def Let_def freed_from_def)
next
  case False
  let ?pg = "hs_pages s ! j" and ?pgs = "take j (hs_pages s) @ drop (Suc j) (hs_pages s)"
  obtain i where i: "hp_base ?pg = i * MPFRAGSIZE" "(i, 16) \<in> frag_blocks (hs_seg s)" "frag_kind (hs_seg s) i = FRAG_HEAP"
    using sys_okD(6) [OF ok, of ?pg] j by auto
  obtain seg where f: "mp_frag_free (i * MPFRAGSIZE) (hs_seg s) = Inr seg" "frag_ok seg" "frag_blocks seg = frag_blocks (hs_seg s) - {(i, 16)}"
      "\<forall>(k, m) \<in> frag_blocks seg. frag_kind seg k = frag_kind (hs_seg s) k"
    using mp_frag_free_block(1) [OF sys_okD(3) [OF ok] i(2)] by auto
  have split: "hs_pages s = take j (hs_pages s) @ ?pg # drop (Suc j) (hs_pages s)" using j by (simp add: id_take_nth_drop)
  have "distinct (map hp_base (take j (hs_pages s) @ ?pg # drop (Suc j) (hs_pages s)))" using sys_okD(4) [OF ok] split by simp
  then have dist: "distinct (map hp_base ?pgs)" "hp_base ?pg \<notin> hp_base ` set ?pgs" by auto
  have sub: "set (hs_pages s) = insert ?pg (set ?pgs)" by (subst split) auto
  define s' where "s' = \<lparr>hs_pages = ?pgs, hs_last = (if hs_last s = Some (hp_base ?pg) then None else hs_last s), hs_seg = seg\<rparr>"
  have "\<exists>k. hp_base pg = k * MPFRAGSIZE \<and> (k, 16) \<in> frag_blocks seg \<and> frag_kind seg k = FRAG_HEAP" if pg: "pg \<in> set ?pgs" for pg
  proof -
    obtain k where k: "hp_base pg = k * MPFRAGSIZE" "(k, 16) \<in> frag_blocks (hs_seg s)" "frag_kind (hs_seg s) k = FRAG_HEAP"
      using sys_okD(6) [OF ok, of pg] pg sub by auto
    have "k \<noteq> i" using dist(2) pg k(1) i(1) by (metis imageI)
    then have "(k, 16) \<in> frag_blocks seg" using k(2) f(3) by simp
    moreover from this have "frag_kind seg k = FRAG_HEAP" using k(3) f(4) by auto
    ultimately show ?thesis using k(1) by blast
  qed
  then have "sys_ok hdr s'" using ok dist(1) f(2) sub by (auto simp: sys_ok_def s'_def)
  moreover have "heap_ptrs hdr s' = heap_ptrs hdr s" using empty sub by (simp add: heap_ptrs_def s'_def page_ptrs_def)
  moreover have "plain_frags s' = plain_frags s"
  proof -
    have "(k, m) \<in> plain_frags s' \<longleftrightarrow> (k, m) \<in> plain_frags s" for k m
      using f(3) bspec [OF f(4), of "(k, m)"] i(3) by (cases "(k, m) \<in> frag_blocks seg") (auto simp: plain_frags_def s'_def)
    then show ?thesis by auto
  qed
  moreover have "mp_heap_page_free j now s = Inr s'" using False f(1) i(1) by (simp add: mp_heap_page_free_def Let_def s'_def)
  ultimately show ?thesis by (auto simp: freed_from_def)
qed

lemma page_put_sys:
  assumes ok: "sys_ok hdr s" and j: "j < length (hs_pages s)" "(p, n) \<in> page_ptrs hdr (hs_pages s ! j)"
  defines "x \<equiv> (p - MPHEAPHHSIZE - hp_base (hs_pages s ! j)) div MPHEAPUNIT"
  shows "\<exists>pg. page_put x (hs_pages s ! j) = Some pg \<and> hh_size (hp_store (hs_pages s ! j) x) > 0 \<and> MP_HH_IS_ALLOCATED (hp_store (hs_pages s ! j)) x
    \<and> page_ok hdr pg \<and> hp_root_free pg \<noteq> None \<and> sys_ok hdr (s\<lparr>hs_pages := (hs_pages s)[j := pg]\<rparr>)
    \<and> heap_ptrs hdr (s\<lparr>hs_pages := (hs_pages s)[j := pg]\<rparr>) = heap_ptrs hdr s - {(p, n)}"
proof -
  let ?pg = "hs_pages s ! j"
  define m where "m = hh_size (hp_store ?pg x)"
  have x: "(x, m) \<in> page_blocks hdr ?pg" "p = hp_base ?pg + x * MPHEAPUNIT + MPHEAPHHSIZE" "n = m * MPHEAPUNIT - MPHEAPHHSIZE"
    using page_ptr_range [OF j(2) sys_okD(1) [OF ok]] j(2) by (auto simp: x_def m_def page_ptrs_def heap_consts)
  have pok: "page_ok hdr ?pg" using sys_okD(5) [OF ok] j(1) by simp
  obtain pg where pg: "page_put x ?pg = Some pg" "page_ok hdr pg" "page_blocks hdr pg = page_blocks hdr ?pg - {(x, m)}"
      "hp_root_free pg \<noteq> None" "hp_base pg = hp_base ?pg"
    using page_put_spec [OF pok x(1)] by blast
  have "inj_on (\<lambda>(x, n). (hp_base ?pg + x * MPHEAPUNIT + MPHEAPHHSIZE, n * MPHEAPUNIT - MPHEAPHHSIZE)) (page_blocks hdr ?pg)"
    by (auto simp: inj_on_def heap_consts) (metis page_block_bounds)
  then have "page_ptrs hdr pg = page_ptrs hdr ?pg - {(p, n)}" using x pg(3,5) by (simp add: page_ptrs_def inj_on_image_set_diff)
  then have "heap_ptrs hdr (s\<lparr>hs_pages := (hs_pages s)[j := pg]\<rparr>) = heap_ptrs hdr s - {(p, n)}"
    using sys_ok_update(2) [OF ok j(1) pg(2,5)] heap_ptrs_nth [OF j(1), of hdr] not_other [OF ok j refl, of n] by auto
  then show ?thesis using pg sys_ok_update(1) [OF ok j(1) pg(2,5)] page_block_bounds [OF x(1)] by (simp add: MPHEAPMINUNITS_def)
qed

lemma defrag_sys:
  assumes ok: "sys_ok hdr s" and j: "j < length (hs_pages s)" and pg: "hp_root_free (hs_pages s ! j) \<noteq> None" "0 < hp_free_count (hs_pages s ! j)"
  shows "freed_from hdr (heap_ptrs hdr s) (plain_frags s)
    (do { r \<leftarrow> mp_heap_page_defrag (hs_pages s ! j) (hs_seg s);
          Some (case r of Inl e \<Rightarrow> Inl e | Inr (pg2, seg) \<Rightarrow> Inr (s\<lparr>hs_pages := (hs_pages s)[j := pg2], hs_seg := seg\<rparr>)) })"
proof -
  have pok: "page_ok hdr (hs_pages s ! j)" using sys_okD(5) [OF ok] j by simp
  show ?thesis using mp_heap_page_defrag_spec [OF pok pg sys_okD(3) [OF ok]]
  proof (elim disjE exE conjE)
    assume "mp_heap_page_defrag (hs_pages s ! j) (hs_seg s) = Some (Inl MP_ABORT)"
    then show ?thesis by (simp add: freed_from_def)
  next
    fix pg2 seg
    assume d: "mp_heap_page_defrag (hs_pages s ! j) (hs_seg s) = Some (Inr (pg2, seg))" "page_ok hdr pg2"
      "page_blocks hdr pg2 = page_blocks hdr (hs_pages s ! j)" "hp_base pg2 = hp_base (hs_pages s ! j)"
      "frag_ok seg" "frag_blocks seg = frag_blocks (hs_seg s)" "\<forall>(i, n) \<in> frag_blocks (hs_seg s). frag_kind seg i = frag_kind (hs_seg s) i"
    define s2 where "s2 = s\<lparr>hs_pages := (hs_pages s)[j := pg2]\<rparr>"
    have s2: "sys_ok hdr s2" "heap_ptrs hdr s2 = heap_ptrs hdr s" "plain_frags s2 = plain_frags s" "hs_seg s2 = hs_seg s"
      using sys_ok_update [OF ok j d(2,4)] heap_ptrs_nth [OF j, of hdr] d(3,4) by (simp_all add: s2_def page_ptrs_def)
    have "frag_kind seg i = frag_kind (hs_seg s2) i" if "(i, n) \<in> frag_blocks (hs_seg s2)" for i n using that d(7) s2(4) by auto
    note s3 = sys_ok_same_frags [OF s2(1) d(5) d(6) [folded s2(4)] this]
    show ?thesis using s3 s2(2,3) d(1) by (simp add: freed_from_def s2_def)
  qed
qed

lemma mp_heap_free_spec:
  assumes ok: "sys_ok hdr s" and p: "(p, n) \<in> heap_ptrs hdr s"
  shows "freed_from hdr (heap_ptrs hdr s - {(p, n)}) (plain_frags s) (mp_heap_free p now s)"
proof -
  obtain j where j: "page_of (p - MPHEAPHHSIZE) (hs_pages s) = Some j" "j < length (hs_pages s)" "(p, n) \<in> page_ptrs hdr (hs_pages s ! j)"
    using page_of_ptr [OF assms] by blast
  define x where "x = (p - MPHEAPHHSIZE - hp_base (hs_pages s ! j)) div MPHEAPUNIT"
  obtain pg where pg: "page_put x (hs_pages s ! j) = Some pg" "hh_size (hp_store (hs_pages s ! j) x) > 0" "MP_HH_IS_ALLOCATED (hp_store (hs_pages s ! j)) x"
      "page_ok hdr pg" "hp_root_free pg \<noteq> None" "sys_ok hdr (s\<lparr>hs_pages := (hs_pages s)[j := pg]\<rparr>)"
      "heap_ptrs hdr (s\<lparr>hs_pages := (hs_pages s)[j := pg]\<rparr>) = heap_ptrs hdr s - {(p, n)}"
    using page_put_sys [OF ok j(2,3)] by (auto simp: x_def)
  define s1 where "s1 = s\<lparr>hs_pages := (hs_pages s)[j := pg]\<rparr>"
  have s1: "sys_ok hdr s1" "heap_ptrs hdr s1 = heap_ptrs hdr s - {(p, n)}" "plain_frags s1 = plain_frags s"
      "j < length (hs_pages s1)" "hs_pages s1 ! j = pg"
    using pg(6,7) j(2) by (simp_all add: s1_def)
  have run: "mp_heap_free p now s =
      (if hp_allocated_count pg = 0 then Some (mp_heap_page_free j now s1)
       else if hp_free_count pg > MPHHDEFRAGFREE then
         do { r \<leftarrow> mp_heap_page_defrag pg (hs_seg s1);
              Some (case r of Inl e \<Rightarrow> Inl e | Inr (pg2, seg) \<Rightarrow> Inr (s1\<lparr>hs_pages := (hs_pages s1)[j := pg2], hs_seg := seg\<rparr>)) }
       else Some (Inr s1))"
    unfolding mp_heap_free_def j(1) option.case Let_def x_def [symmetric] using pg(1-3)
    by (simp only: s1_def simp_thms if_False bind.bind_lunit)
  consider "hp_allocated_count pg = 0" | "hp_allocated_count pg \<noteq> 0" "hp_free_count pg > MPHHDEFRAGFREE"
    | "hp_allocated_count pg \<noteq> 0" "\<not> hp_free_count pg > MPHHDEFRAGFREE" by blast
  then show ?thesis
  proof cases
    case 1
    then show ?thesis using run mp_heap_page_free_spec [OF s1(1,4)] page_empty [OF pg(4)] s1(2,3,5) by simp
  next
    case 2
    then show ?thesis using run defrag_sys [OF s1(1,4)] s1(2,3,5) pg(5) by simp
  next
    case 3
    then show ?thesis using run s1 by (simp add: freed_from_def)
  qed
qed

section \<open>The pool as a whole\<close>

lemma find_distinct_map: "x \<in> set xs \<Longrightarrow> f x = k \<Longrightarrow> distinct (map f xs) \<Longrightarrow> List.find (\<lambda>y. f y = k) xs = Some x"
  by (induction xs) auto

text \<open>All byte ranges handed out, by the heap or as fragments.\<close>

definition live :: "nat \<Rightarrow> heap_sys \<Rightarrow> (addr \<times> nat) set" where
  "live hdr s = heap_ptrs hdr s \<union> (\<lambda>(i, n). (i * MPFRAGSIZE, n * MPFRAGSIZE)) ` plain_frags s"

lemma heap_ptr_page:
  assumes ok: "sys_ok hdr s" and p: "(p, n) \<in> heap_ptrs hdr s"
  shows "\<exists>i pg x m. pg \<in> set (hs_pages s) \<and> hp_base pg = i * MPFRAGSIZE \<and> (i, 16) \<in> frag_blocks (hs_seg s) \<and> frag_kind (hs_seg s) i = FRAG_HEAP
    \<and> (x, m) \<in> page_blocks hdr pg \<and> p = hp_base pg + x * 4 + 4 \<and> n = m * 4 - 4 \<and> hdr \<le> x \<and> 4 \<le> m \<and> x + m \<le> 1023"
proof -
  obtain pg where pg: "pg \<in> set (hs_pages s)" "(p, n) \<in> page_ptrs hdr pg" using p by (auto simp: heap_ptrs_def)
  obtain x m where x: "(x, m) \<in> page_blocks hdr pg" "p = hp_base pg + x * 4 + 4" "n = m * 4 - 4" using pg(2) by (auto simp: page_ptrs_def heap_consts)
  show ?thesis using sys_okD(6) [OF ok pg(1)] pg(1) x page_block_bounds [OF x(1)] by (auto simp: MPHEAPMINUNITS_def)
qed

lemma heap_ptrs_disjoint:
  assumes ok: "sys_ok hdr s" and "a \<in> heap_ptrs hdr s" and "b \<in> heap_ptrs hdr s" and "a \<noteq> b"
  shows "extent a \<inter> extent b = {}"
proof -
  obtain pg x m where a: "pg \<in> set (hs_pages s)" "(x, m) \<in> page_blocks hdr pg" "a = (hp_base pg + x * 4 + 4, m * 4 - 4)" "4 \<le> m" "x + m \<le> 1023"
    using heap_ptr_page [OF ok, of "fst a" "snd a"] assms(2) by (auto simp: prod_eq_iff)
  obtain pg' y k where b: "pg' \<in> set (hs_pages s)" "(y, k) \<in> page_blocks hdr pg'" "b = (hp_base pg' + y * 4 + 4, k * 4 - 4)" "4 \<le> k" "y + k \<le> 1023"
    using heap_ptr_page [OF ok, of "fst b" "snd b"] assms(3) by (auto simp: prod_eq_iff)
  show ?thesis
  proof (cases "pg = pg'")
    case True
    have "x \<noteq> y" using a(2,3) b(2,3) assms(4) True page_block_bounds [OF a(2)] page_block_bounds [of y k hdr pg] by auto
    then show ?thesis using a b True page_blocks_apart [of x m hdr pg y k] page_blocks_apart [of y k hdr pg x m]
      by (cases x y rule: linorder_cases) (auto simp: extent_def)
  next
    case False
    have "\<not> (c \<in> extent a \<and> c \<in> extent b)" for c
    proof
      assume "c \<in> extent a \<and> c \<in> extent b"
      then have "pg = pg'" using a b by (intro pages_apart [OF ok, of _ _ c]) (auto simp: extent_def heap_consts)
      then show False using False by simp
    qed
    then show ?thesis by auto
  qed
qed

lemma scaled_apart: "x + n \<le> y \<Longrightarrow> x * k + n * k \<le> y * (k :: nat)"
  by (metis add_mult_distrib mult_le_mono1)

lemma frag_ranges_disjoint:
  assumes "frag_ok seg" and "(i, n) \<in> frag_blocks seg" and "(j, m) \<in> frag_blocks seg" and "(i, n) \<noteq> (j, m)"
  shows "{i * MPFRAGSIZE..<(i + n) * MPFRAGSIZE} \<inter> {j * MPFRAGSIZE..<(j + m) * MPFRAGSIZE} = {}"
proof -
  have "0 < n" "0 < m" using frag_okD(7) [OF assms(1)] assms(2,3) by auto
  then have "i + n \<le> j \<or> j + m \<le> i" using frag_blocks_disjoint [OF assms] by (cases i j rule: linorder_cases) force+
  then show ?thesis using scaled_apart [of i n j MPFRAGSIZE] scaled_apart [of j m i MPFRAGSIZE] by (auto simp: add_mult_distrib)
qed

lemma live_disjoint:
  assumes ok: "sys_ok hdr s" and "a \<in> live hdr s" and "b \<in> live hdr s" and "a \<noteq> b"
  shows "extent a \<inter> extent b = {}"
proof -
  have plain: "extent (i * MPFRAGSIZE, n * MPFRAGSIZE) = {i * MPFRAGSIZE..<(i + n) * MPFRAGSIZE}" for i n by (simp add: extent_def add_mult_distrib)
  have mixed: "extent a \<inter> extent (i * MPFRAGSIZE, n * MPFRAGSIZE) = {}" if ha: "a \<in> heap_ptrs hdr s" and hf: "(i, n) \<in> plain_frags s" for a i n
  proof -
    obtain j x m and pg :: heap_page where a: "hp_base pg = j * MPFRAGSIZE" "(j, 16) \<in> frag_blocks (hs_seg s)" "frag_kind (hs_seg s) j = FRAG_HEAP"
        "a = (hp_base pg + x * 4 + 4, m * 4 - 4)" "4 \<le> m" "x + m \<le> 1023"
      using heap_ptr_page [OF ok, of "fst a" "snd a"] ha by (auto simp: prod_eq_iff)
    have "extent a \<subseteq> {j * MPFRAGSIZE..<(j + 16) * MPFRAGSIZE}" using a(1,4-6) by (auto simp: extent_def frag_consts)
    moreover have "(i, n) \<in> frag_blocks (hs_seg s)" "(j, 16) \<noteq> (i, n)" using hf a(3) by (auto simp: plain_frags_def)
    ultimately show ?thesis unfolding plain using frag_ranges_disjoint [OF sys_okD(3) [OF ok] a(2)] by blast
  qed
  have frags: "extent (i * MPFRAGSIZE, n * MPFRAGSIZE) \<inter> extent (j * MPFRAGSIZE, m * MPFRAGSIZE) = {}"
    if "(i, n) \<in> plain_frags s" "(j, m) \<in> plain_frags s" "(i, n) \<noteq> (j, m)" for i n j m
    unfolding plain using that frag_ranges_disjoint [OF sys_okD(3) [OF ok]] by (auto simp: plain_frags_def)
  consider "a \<in> heap_ptrs hdr s" "b \<in> heap_ptrs hdr s"
    | i n where "a \<in> heap_ptrs hdr s" "(i, n) \<in> plain_frags s" "b = (i * MPFRAGSIZE, n * MPFRAGSIZE)"
    | i n where "(i, n) \<in> plain_frags s" "a = (i * MPFRAGSIZE, n * MPFRAGSIZE)" "b \<in> heap_ptrs hdr s"
    | i n j m where "(i, n) \<in> plain_frags s" "a = (i * MPFRAGSIZE, n * MPFRAGSIZE)" "(j, m) \<in> plain_frags s" "b = (j * MPFRAGSIZE, m * MPFRAGSIZE)"
    using assms(2,3) by (auto simp: live_def)
  then show ?thesis
  proof cases
    case 1
    then show ?thesis using heap_ptrs_disjoint [OF ok] assms(4) by blast
  next
    case 2
    then show ?thesis using mixed by blast
  next
    case 3
    then show ?thesis using mixed by blast
  next
    case 4
    then show ?thesis using frags assms(4) by blast
  qed
qed

lemma heap_ptr_descr:
  assumes ok: "sys_ok hdr s" and p: "(p, n) \<in> heap_ptrs hdr s"
  shows "\<exists>d pg. mp_frag_get_descr (hs_seg s) p = Some d \<and> frag_kind (hs_seg s) d = FRAG_HEAP \<and> pg \<in> set (hs_pages s)
    \<and> hp_base pg = d * MPFRAGSIZE \<and> mp_heap_get_size p pg = n + MPHEAPHHSIZE"
proof -
  obtain i pg x m where a: "pg \<in> set (hs_pages s)" "hp_base pg = i * MPFRAGSIZE" "(i, 16) \<in> frag_blocks (hs_seg s)"
      "frag_kind (hs_seg s) i = FRAG_HEAP" "(x, m) \<in> page_blocks hdr pg" "p = hp_base pg + x * 4 + 4" "n = m * 4 - 4" "4 \<le> m" "x + m \<le> 1023"
    using heap_ptr_page [OF assms] by blast
  have "mp_frag_get_descr (hs_seg s) (i * MPFRAGSIZE + (x * 4 + 4)) = Some i"
    by (rule mp_frag_get_descr_block [OF sys_okD(3) [OF ok] a(3)]) (use a(8,9) in \<open>simp add: frag_consts\<close>)
  moreover have "mp_heap_get_size p pg = m * 4" using a(6) page_block_bounds [OF a(5)] by (simp add: mp_heap_get_size_def heap_consts)
  ultimately show ?thesis using a by (auto simp: heap_consts add.assoc)
qed

lemma heap_ptr_not_plain:
  assumes ok: "sys_ok hdr s" and p: "(p, n) \<in> heap_ptrs hdr s"
  shows "(p, n) \<notin> (\<lambda>(i, n). (i * MPFRAGSIZE, n * MPFRAGSIZE)) ` plain_frags s"
proof
  assume "(p, n) \<in> (\<lambda>(i, n). (i * MPFRAGSIZE, n * MPFRAGSIZE)) ` plain_frags s"
  then obtain i m where i: "(i, m) \<in> frag_blocks (hs_seg s)" "frag_kind (hs_seg s) i \<noteq> FRAG_HEAP" "p = i * MPFRAGSIZE" by (auto simp: plain_frags_def)
  obtain j x k and pg :: heap_page where j: "hp_base pg = j * MPFRAGSIZE" "(j, 16) \<in> frag_blocks (hs_seg s)" "frag_kind (hs_seg s) j = FRAG_HEAP"
      "p = hp_base pg + x * 4 + 4" "4 \<le> k" "x + k \<le> 1023"
    using heap_ptr_page [OF assms] by blast
  have "0 < m" using frag_okD(7) [OF sys_okD(3) [OF ok] i(1)] by simp
  moreover have "i \<in> {j..<j + 16}" using i(3) j(1,4-6) by (auto simp: frag_consts)
  ultimately have "i \<in> {i..<i + m} \<inter> {j..<j + 16}" by simp
  then have "(i, m) = (j, 16)" using frag_blocks_disjoint [OF sys_okD(3) [OF ok] i(1) j(2)] by blast
  then show False using i(2) j(3) by simp
qed

lemma mp_malloc_spec:
  assumes ok: "sys_ok hdr s" and sz: "below_page sz"
  shows "mp_malloc hdr now junk sz s = Some (Inl MP_ABORT) \<or>
    (\<exists>p n s'. mp_malloc hdr now junk sz s = Some (Inr (p, s')) \<and> sys_ok hdr s' \<and> sz \<le> n \<and> n < 32 * MPFRAGSIZE \<and> (p, n) \<notin> live hdr s
      \<and> live hdr s' = insert (p, n) (live hdr s))"
proof (cases "sz > MPHEAPMAXALLOC \<or> sz mod MPFRAGSIZE = 0")
  case True
  have r: "0 < sz" "sz \<le> MPPAGESIZE" "frags_of sz < 32" "0 \<le> FRAG_COMMON" using below_page_frags [OF sz] by (auto simp: FRAG_COMMON_def)
  note fr = frags_of_bounds [OF r(1,2)]
  show ?thesis using mp_frag_alloc_block [OF sys_okD(3) [OF ok] r(1,2,4)]
  proof (elim disjE exE conjE)
    assume "mp_frag_alloc sz FRAG_COMMON (hs_seg s) = Inl MP_ABORT"
    then show ?thesis using True by (simp add: mp_malloc_def)
  next
    fix idx seg
    assume a: "mp_frag_alloc sz FRAG_COMMON (hs_seg s) = Inr (idx * MPFRAGSIZE, seg)" "frag_ok seg"
      "frag_blocks seg = insert (idx, frags_of sz) (frag_blocks (hs_seg s))"
      "\<forall>(i, n) \<in> frag_blocks (hs_seg s). {idx..<idx + frags_of sz} \<inter> {i..<i + n} = {}"
      "frag_kind seg idx = FRAG_COMMON" "\<forall>(i, n) \<in> frag_blocks (hs_seg s). frag_kind seg i = frag_kind (hs_seg s) i"
    let ?s = "s\<lparr>hs_seg := seg\<rparr>" and ?r = "(idx * MPFRAGSIZE, frags_of sz * MPFRAGSIZE)"
    have kinds: "frag_kind seg i = frag_kind (hs_seg s) i" if "(i, n) \<in> frag_blocks (hs_seg s)" for i n using that a(6) by auto
    have "sys_ok hdr ?s"
    proof -
      have "\<exists>i. hp_base pg = i * MPFRAGSIZE \<and> (i, 16) \<in> frag_blocks seg \<and> frag_kind seg i = FRAG_HEAP" if "pg \<in> set (hs_pages s)" for pg
        using sys_okD(6) [OF ok that] a(3) kinds by (metis insertCI)
      then show ?thesis using ok a(2) by (simp add: sys_ok_def)
    qed
    moreover have "plain_frags ?s = insert (idx, frags_of sz) (plain_frags s)"
      using a(3,5) kinds by (auto simp: plain_frags_def frag_consts)
    then have live: "live hdr ?s = insert ?r (live hdr s)" by (auto simp: live_def heap_ptrs_def)
    moreover have "?r \<notin> live hdr s"
    proof
      assume r_live: "?r \<in> live hdr s"
      have fresh: "(idx, frags_of sz) \<notin> frag_blocks (hs_seg s)" using a(4) fr by fastforce
      then have "?r \<in> heap_ptrs hdr s" using r_live by (auto simp: live_def plain_frags_def frag_consts)
      then obtain j x m and pg :: heap_page where h: "hp_base pg = j * MPFRAGSIZE" "(j, 16) \<in> frag_blocks (hs_seg s)"
          "idx * MPFRAGSIZE = hp_base pg + x * 4 + 4" "x + m \<le> 1023" "4 \<le> m"
        using heap_ptr_page [OF ok] by blast
      then have "idx \<in> {j..<j + 16}" by (auto simp: frag_consts)
      then show False using a(4) h(2) fr by fastforce
    qed
    moreover have "mp_malloc hdr now junk sz s = Some (Inr (idx * MPFRAGSIZE, ?s))" using True a(1) by (simp add: mp_malloc_def)
    moreover have "frags_of sz * MPFRAGSIZE < 32 * MPFRAGSIZE" using r(3) by (simp add: frag_consts)
    ultimately show ?thesis using fr
      by (intro disjI2 exI [of _ "idx * MPFRAGSIZE"] exI [of _ "frags_of sz * MPFRAGSIZE"] exI [of _ ?s]) auto
  qed
next
  case False
  then have sz': "sz \<le> MPHEAPMAXALLOC" and run: "mp_malloc hdr now junk sz s = mp_heap_alloc hdr now junk sz s" by (auto simp: mp_malloc_def)
  have "allocated_in hdr sz s (mp_heap_alloc hdr now junk sz s)" by (rule mp_heap_alloc_spec [OF ok sz'])
  then consider "mp_malloc hdr now junk sz s = Some (Inl MP_ABORT)"
    | p n s' where "mp_malloc hdr now junk sz s = Some (Inr (p, s'))" "sys_ok hdr s'" "sz \<le> n" "\<forall>m. (p, m) \<notin> heap_ptrs hdr s"
        "heap_ptrs hdr s' = insert (p, n) (heap_ptrs hdr s)" "plain_frags s' = plain_frags s"
    unfolding allocated_in_def run by blast
  then show ?thesis
  proof cases
    case 1
    then show ?thesis by simp
  next
    case 2
    have new: "(p, n) \<in> heap_ptrs hdr s'" using 2(5) by simp
    have "(p, n) \<notin> live hdr s" using heap_ptr_not_plain [OF 2(2) new] 2(4,6) by (auto simp: live_def)
    moreover have "live hdr s' = insert (p, n) (live hdr s)" using 2(5,6) by (simp add: live_def)
    moreover have "n < 32 * MPFRAGSIZE" using heap_ptr_page [OF 2(2) new] by (auto simp: frag_consts)
    ultimately show ?thesis using 2(1-3) by blast
  qed
qed

text \<open>
  A pointer into the heap is found in the list of pages, any other one in the descriptors; each goes back where it came from.
\<close>

lemma mp_free_spec:
  assumes ok: "sys_ok hdr s" and p: "(p, n) \<in> live hdr s" and n: "n < 32 * MPFRAGSIZE"
  shows "mp_free p now s = Some (Inl MP_ABORT) \<or>
    (\<exists>s'. mp_free p now s = Some (Inr s') \<and> sys_ok hdr s' \<and> live hdr s' = live hdr s - {(p, n)})"
proof (cases "(p, n) \<in> heap_ptrs hdr s")
  case True
  obtain d where d: "mp_frag_get_descr (hs_seg s) p = Some d" "frag_kind (hs_seg s) d = FRAG_HEAP" using heap_ptr_descr [OF ok True] by blast
  then have run: "mp_free p now s = mp_heap_free p now s" by (simp add: mp_free_def frag_kind_def)
  have "freed_from hdr (heap_ptrs hdr s - {(p, n)}) (plain_frags s) (mp_heap_free p now s)" by (rule mp_heap_free_spec [OF ok True])
  then consider "mp_free p now s = Some (Inl MP_ABORT)"
    | s' where "mp_free p now s = Some (Inr s')" "sys_ok hdr s'" "heap_ptrs hdr s' = heap_ptrs hdr s - {(p, n)}" "plain_frags s' = plain_frags s"
    unfolding freed_from_def run by blast
  then show ?thesis
  proof cases
    case 1
    then show ?thesis by simp
  next
    case 2
    have "live hdr s' = live hdr s - {(p, n)}" using 2(3,4) heap_ptr_not_plain [OF ok True] by (auto simp: live_def)
    then show ?thesis using 2(1,2) by blast
  qed
next
  case False
  then obtain i m where i: "(i, m) \<in> plain_frags s" "p = i * MPFRAGSIZE" "n = m * MPFRAGSIZE" using p by (auto simp: live_def)
  have blk: "(i, m) \<in> frag_blocks (hs_seg s)" "frag_kind (hs_seg s) i \<noteq> FRAG_HEAP" using i(1) by (auto simp: plain_frags_def)
  have m: "0 < m" "m < 32" using frag_okD(7) [OF sys_okD(3) [OF ok] blk(1)] n i(3) by (auto simp: frag_consts)
  have "mp_frag_get_descr (hs_seg s) (i * MPFRAGSIZE + 0) = Some i"
    by (rule mp_frag_get_descr_block [OF sys_okD(3) [OF ok] blk(1)]) (use m(1) in \<open>simp add: frag_consts\<close>)
  then have d: "mp_frag_get_descr (hs_seg s) p = Some i" using i(2) by simp
  obtain seg where f: "mp_frag_free p (hs_seg s) = Inr seg" "frag_ok seg" "frag_blocks seg = frag_blocks (hs_seg s) - {(i, m)}"
      "\<forall>(k, j) \<in> frag_blocks seg. frag_kind seg k = frag_kind (hs_seg s) k"
    using mp_frag_free_block(1) [OF sys_okD(3) [OF ok] blk(1) m(2)] i(2) by auto
  let ?s = "s\<lparr>hs_seg := seg\<rparr>"
  have kinds: "frag_kind seg k = frag_kind (hs_seg s) k" if "(k, j) \<in> frag_blocks seg" for k j using that f(4) by auto
  have "\<exists>k. hp_base pg = k * MPFRAGSIZE \<and> (k, 16) \<in> frag_blocks seg \<and> frag_kind seg k = FRAG_HEAP" if pg: "pg \<in> set (hs_pages s)" for pg
  proof -
    obtain k where k: "hp_base pg = k * MPFRAGSIZE" "(k, 16) \<in> frag_blocks (hs_seg s)" "frag_kind (hs_seg s) k = FRAG_HEAP"
      using sys_okD(6) [OF ok pg] by blast
    then have "(k, 16) \<in> frag_blocks seg" using f(3) blk(2) by auto
    then show ?thesis using k(1,3) kinds by metis
  qed
  then have "sys_ok hdr ?s" using ok f(2) by (simp add: sys_ok_def)
  moreover have pl: "plain_frags ?s = plain_frags s - {(i, m)}"
  proof -
    have "(k, j) \<in> plain_frags ?s \<longleftrightarrow> (k, j) \<in> plain_frags s - {(i, m)}" for k j
    proof (cases "(k, j) \<in> frag_blocks seg")
      case True
      then show ?thesis using kinds [OF True] by (simp add: plain_frags_def f(3))
    next
      case False
      then show ?thesis by (auto simp: plain_frags_def f(3))
    qed
    then show ?thesis by auto
  qed
  moreover have "live hdr ?s = live hdr s - {(p, n)}"
  proof -
    have inj: "inj (\<lambda>(i, n). (i * MPFRAGSIZE, n * MPFRAGSIZE))" by (auto simp: inj_def frag_consts)
    have "live hdr ?s = heap_ptrs hdr s \<union> ((\<lambda>(i, n). (i * MPFRAGSIZE, n * MPFRAGSIZE)) ` plain_frags s - {(p, n)})"
      unfolding live_def pl image_set_diff [OF inj] by (simp add: heap_ptrs_def i(2,3))
    then show ?thesis using False by (auto simp: live_def)
  qed
  moreover have "mp_free p now s = Some (Inr ?s)" using d blk(2) f(1) by (simp add: mp_free_def frag_kind_def)
  ultimately show ?thesis by blast
qed

text \<open>
  C3. The memory pool seen by its clients, for requests below a page: in every state of the
  invariant the byte ranges handed out do not overlap. \<open>mp_malloc\<close> ends; it aborts the program for lack of
  memory, or hands out one new range that is large enough and leaves all others alone. \<open>mp_free\<close> of a range ends; it aborts
  (the list of a defragmentation may not fit), or takes exactly that range away. Both keep the invariant.
\<close>

theorem mp_pool_spec:
  assumes "sys_ok hdr s"
  shows "(\<forall>a \<in> live hdr s. \<forall>b \<in> live hdr s. a \<noteq> b \<longrightarrow> extent a \<inter> extent b = {})
    \<and> (below_page sz \<longrightarrow> mp_malloc hdr now junk sz s = Some (Inl MP_ABORT) \<or>
        (\<exists>p n s'. mp_malloc hdr now junk sz s = Some (Inr (p, s')) \<and> sys_ok hdr s' \<and> sz \<le> n \<and> (p, n) \<notin> live hdr s
          \<and> live hdr s' = insert (p, n) (live hdr s)))
    \<and> ((p, n) \<in> live hdr s \<and> n < 32 * MPFRAGSIZE \<longrightarrow> mp_free p now s = Some (Inl MP_ABORT) \<or>
        (\<exists>s'. mp_free p now s = Some (Inr s') \<and> sys_ok hdr s' \<and> live hdr s' = live hdr s - {(p, n)}))"
proof (intro conjI impI)
  show "\<forall>a \<in> live hdr s. \<forall>b \<in> live hdr s. a \<noteq> b \<longrightarrow> extent a \<inter> extent b = {}" using live_disjoint [OF assms] by blast
  show "mp_malloc hdr now junk sz s = Some (Inl MP_ABORT) \<or>
      (\<exists>p n s'. mp_malloc hdr now junk sz s = Some (Inr (p, s')) \<and> sys_ok hdr s' \<and> sz \<le> n \<and> (p, n) \<notin> live hdr s
        \<and> live hdr s' = insert (p, n) (live hdr s))" if "below_page sz"
    using mp_malloc_spec [OF assms that, of now junk] by blast
  show "mp_free p now s = Some (Inl MP_ABORT) \<or>
      (\<exists>s'. mp_free p now s = Some (Inr s') \<and> sys_ok hdr s' \<and> live hdr s' = live hdr s - {(p, n)})"
    if "(p, n) \<in> live hdr s \<and> n < 32 * MPFRAGSIZE"
    using mp_free_spec [OF assms, of p n now] that by blast
qed

definition pool_start :: "nat \<Rightarrow> heap_sys" where
  "pool_start sz = \<lparr>hs_pages = [], hs_last = None, hs_seg = mp_frag_allocator_init (\<lambda>_. 0) sz\<rparr>"

lemma pool_start_ok: "0 < hdr \<Longrightarrow> hdr \<le> 200 \<Longrightarrow> MPPAGESIZE \<le> sz \<Longrightarrow> sys_ok hdr (pool_start sz) \<and> live hdr (pool_start sz) = {}"
  using frag_init_ok [of sz "\<lambda>_. 0"] by (simp add: sys_ok_def pool_start_def live_def heap_ptrs_def plain_frags_def frag_small_def)

text \<open>A fragment request on a fresh segment of two pages does not abort.\<close>

lemma pool_start_malloc: "mp_malloc 24 0 junk 512 (pool_start 16384) \<noteq> Some (Inl MP_ABORT)"
proof -
  have bm: "mp_bitmap_alloc [0, 0] 64 2 = (0, [3, 0])" by code_simp
  have "mp_frag_alloc 512 FRAG_COMMON (mp_frag_allocator_init (\<lambda>_. 0) 16384) \<noteq> Inl MP_ABORT"
    using bm by (simp add: mp_frag_alloc_def frags_of_def num_frags_def frag_consts mp_frag_allocator_init_def numeral_2_eq_2 split: sum.splits)
  then show ?thesis by (auto simp: mp_malloc_def pool_start_def frag_consts split: sum.splits)
qed

theorem mp_pool_spec_witness:
  "\<exists>p n s'. mp_malloc 24 0 (\<lambda>_. \<lparr>hh_size = 0, hh_left = 0, hh_right = 0\<rparr>) 512 (pool_start 16384) = Some (Inr (p, s'))
    \<and> 512 \<le> n \<and> live 24 s' = {(p, n)}"
proof -
  have ok: "sys_ok 24 (pool_start 16384)" "live 24 (pool_start 16384) = {}" using pool_start_ok [of 24 16384] by (simp_all add: MPPAGESIZE_def)
  have "below_page 512" by (simp add: below_page_def frag_consts)
  then show ?thesis using mp_pool_spec [OF ok(1), of 512 0] pool_start_malloc ok(2) by fastforce
qed

text \<open>
  The size that is kept in a heap header counts the header, and \<open>mp_realloc\<close> compares it with the request: asked for up
  to four bytes more than a heap block holds, it returns the old block, which is too small; and the block it had
  allocated before the comparison stays allocated without a pointer to it.
\<close>

theorem mp_realloc_too_small:
  assumes ok: "sys_ok hdr s" and p: "(p, n) \<in> heap_ptrs hdr s" and sz: "n < sz" "sz \<le> n + MPHEAPHHSIZE" "sz \<le> MPHEAPMAXALLOC" "sz mod MPFRAGSIZE \<noteq> 0"
    and mem: "mp_malloc hdr now junk sz s \<noteq> Some (Inl MP_ABORT)"
  shows "\<exists>q m s'. mp_realloc hdr now junk p sz s = Some (Inr (p, 0, s')) \<and> (p, n) \<in> live hdr s' \<and> n < sz
    \<and> (q, m) \<notin> live hdr s \<and> live hdr s' = insert (q, m) (live hdr s)"
proof -
  have "allocated_in hdr sz s (mp_malloc hdr now junk sz s)"
    using mp_heap_alloc_spec [OF ok sz(3)] sz(3,4) by (simp add: mp_malloc_def)
  then obtain q m s' where a: "mp_malloc hdr now junk sz s = Some (Inr (q, s'))" "sys_ok hdr s'" "\<forall>k. (q, k) \<notin> heap_ptrs hdr s"
      "heap_ptrs hdr s' = insert (q, m) (heap_ptrs hdr s)" "plain_frags s' = plain_frags s"
    using mem unfolding allocated_in_def by blast
  have new: "(q, m) \<in> heap_ptrs hdr s'" and old: "(p, n) \<in> heap_ptrs hdr s'" using a(4) p by auto
  obtain d pg where d: "mp_frag_get_descr (hs_seg s') p = Some d" "frag_kind (hs_seg s') d = FRAG_HEAP" "pg \<in> set (hs_pages s')"
      "hp_base pg = d * MPFRAGSIZE" "mp_heap_get_size p pg = n + MPHEAPHHSIZE"
    using heap_ptr_descr [OF a(2) old] by blast
  have "List.find (\<lambda>pg. hp_base pg = d * MPFRAGSIZE) (hs_pages s') = Some pg"
    using d(3,4) sys_okD(4) [OF a(2)] by (rule find_distinct_map)
  then have "mp_get_size p s' = Inr (n + MPHEAPHHSIZE)" using d by (simp add: mp_get_size_def frag_kind_def)
  then have "mp_realloc hdr now junk p sz s = Some (Inr (p, 0, s'))" using a(1) sz(2) by (simp add: mp_realloc_def)
  moreover have "live hdr s' = insert (q, m) (live hdr s)" using a(4,5) by (simp add: live_def)
  moreover have "(q, m) \<notin> live hdr s" using heap_ptr_not_plain [OF a(2) new] a(3,5) by (auto simp: live_def)
  ultimately show ?thesis using old sz(1) by (auto simp: live_def)
qed

lemma mark_refs_no_abort: "mark_refs idx is fr \<noteq> Inl MP_ABORT"
  by (induction idx "is" fr rule: mark_refs.induct) auto

text \<open>Two heap requests on a fresh segment of two pages: each gets a page of its own.\<close>

lemma fresh_page_alloc:
  assumes ok: "sys_ok hdr s" and seg: "mp_heap_page_alloc hdr now junk s = Inr s1" and len: "length (hs_pages s) \<le> 1"
    and sz: "sz \<le> MPHEAPMAXALLOC" "sz mod MPFRAGSIZE \<noteq> 0"
  shows "\<exists>p n pg. mp_malloc hdr now junk sz s = Some (Inr (p, s1\<lparr>hs_pages := pg # hs_pages s\<rparr>)) \<and> sys_ok hdr (s1\<lparr>hs_pages := pg # hs_pages s\<rparr>)
    \<and> heap_ptrs hdr (s1\<lparr>hs_pages := pg # hs_pages s\<rparr>) = insert (p, n) (heap_ptrs hdr s) \<and> sz \<le> n \<and> n \<le> heap_units sz * MPHEAPUNIT + 12"
proof -
  obtain base where s1: "hs_pages s1 = page_init hdr base now junk # hs_pages s" "sys_ok hdr s1" "heap_ptrs hdr s1 = heap_ptrs hdr s"
    using mp_heap_page_alloc_spec [OF ok, of now junk] seg by auto
  note hdr = sys_okD(1,2) [OF ok] and u = heap_units_bounds [OF sz(1)]
  note init = page_init_ok [OF hdr, of base now junk]
  have root: "hp_root_free (page_init hdr base now junk) \<noteq> None" by (simp add: page_init_def Let_def)
  have "heap_units sz \<le> sizes (hp_store (page_init hdr base now junk)) hdr" using init(4) hdr u(2) by simp
  then obtain x pg where x: "page_take (heap_units sz) (page_init hdr base now junk) = Some (Some x, pg)"
    using page_take_fits [OF init(1) root u(1) init(3) _ init(5)] by auto
  have "next_page (hs_pages s) 1 = None" using len by (cases "hs_pages s") (simp_all add: next_page_def)
  then have "mp_malloc hdr now junk sz s = Some (Inr (hp_base pg + x * MPHEAPUNIT + MPHEAPHHSIZE, s1\<lparr>hs_pages := pg # hs_pages s\<rparr>))"
    using sz seg s1(1) x by (simp add: mp_malloc_def mp_heap_alloc_def heap_alloc_loop.simps [of hdr now junk "heap_units sz" "Suc 0"])
  moreover obtain n where "sys_ok hdr (s1\<lparr>hs_pages := (hs_pages s1)[0 := pg]\<rparr>)" "heap_units sz * MPHEAPUNIT - MPHEAPHHSIZE \<le> n" "n \<le> heap_units sz * MPHEAPUNIT + 12"
      "heap_ptrs hdr (s1\<lparr>hs_pages := (hs_pages s1)[0 := pg]\<rparr>) = insert (hp_base pg + x * MPHEAPUNIT + MPHEAPHHSIZE, n) (heap_ptrs hdr s1)"
    using page_take_sys [OF s1(2), of 0 "heap_units sz" x pg] s1(1) root x u(1) by (auto simp: Let_def)
  ultimately show ?thesis using s1(1,3) u(3) by fastforce
qed

theorem mp_realloc_too_small_witness:
  "\<exists>s p n q m s'. sys_ok 24 s \<and> (p, n) \<in> heap_ptrs 24 s \<and> 12 \<le> n
    \<and> mp_realloc 24 0 (\<lambda>_. \<lparr>hh_size = 0, hh_left = 0, hh_right = 0\<rparr>) p (n + 1) s = Some (Inr (p, 0, s')) \<and> live 24 s' = insert (q, m) (live 24 s)"
proof -
  let ?junk = "\<lambda>_. \<lparr>hh_size = 0, hh_left = 0, hh_right = 0\<rparr>"
  have bm: "mp_bitmap_alloc [0, 0] 64 16 = (0, [0xFFFF, 0])" "mp_bitmap_alloc [0xFFFF, 0] 64 16 = (16, [0xFFFFFFFF, 0])" by code_simp+
  have pages: "mp_heap_page_alloc 24 0 ?junk s \<noteq> Inl MP_ABORT"
    if "mp_bitmap_alloc (mp_frag_bitmap (hs_seg s)) 64 16 = (int i, b)" "num_frags (hs_seg s) = 64" for s i b
    using that mark_refs_no_abort [of i "[Suc 0..<16]"]
    by (auto simp: mp_heap_page_alloc_def mp_frag_alloc_def frags_of_def heap_consts frag_consts split: sum.splits)
  have ok: "sys_ok 24 (pool_start 16384)" using pool_start_ok [of 24 16384] by (simp add: MPPAGESIZE_def)
  have seg: "mp_frag_bitmap (hs_seg (pool_start 16384)) = [0, 0]" "num_frags (hs_seg (pool_start 16384)) = 64" "hs_pages (pool_start 16384) = []"
    by (simp_all add: pool_start_def mp_frag_allocator_init_def num_frags_def frag_consts numeral_2_eq_2)
  obtain s1 where s1: "mp_heap_page_alloc 24 0 ?junk (pool_start 16384) = Inr s1"
    using pages [of "pool_start 16384" 0] mp_heap_page_alloc_spec [OF ok, of 0 ?junk] bm(1) seg by auto
  then have seg1: "mp_frag_bitmap (hs_seg s1) = [0xFFFF, 0]" "num_frags (hs_seg s1) = 64"
    using bm(1) seg by (auto simp: mp_heap_page_alloc_def mp_frag_alloc_def frags_of_def heap_consts frag_consts num_frags_def split: sum.splits if_splits)
  obtain p n pg where m1: "sys_ok 24 (s1\<lparr>hs_pages := [pg]\<rparr>)" "(p, n) \<in> heap_ptrs 24 (s1\<lparr>hs_pages := [pg]\<rparr>)" "12 \<le> n" "n \<le> 28"
    using fresh_page_alloc [OF ok s1, of 12] seg(3) by (auto simp: heap_consts frag_consts heap_units_def)
  define s where "s = s1\<lparr>hs_pages := [pg]\<rparr>"
  obtain s2 where s2: "mp_heap_page_alloc 24 0 ?junk s = Inr s2"
    using pages [of s 16] mp_heap_page_alloc_spec [OF m1(1), of 0 ?junk] bm(2) seg1 by (auto simp: s_def)
  have sz: "n < n + 1" "n + 1 \<le> n + MPHEAPHHSIZE" "n + 1 \<le> MPHEAPMAXALLOC" "(n + 1) mod MPFRAGSIZE \<noteq> 0" using m1(4) by (simp_all add: heap_consts frag_consts)
  have "mp_malloc 24 0 ?junk (n + 1) s \<noteq> Some (Inl MP_ABORT)"
    using fresh_page_alloc [OF m1(1) [folded s_def] s2 _ sz(3,4)] by (auto simp: s_def)
  then show ?thesis using mp_realloc_too_small [OF m1(1,2) [folded s_def] sz] m1(1-3) s_def by blast
qed

end
