(* ===== verification/TsObj.thy ===== *)
theory TsObj
  imports JsonNode Complex_Main
begin

text \<open>
  What the processing of configurations shares (\<open>obj.h\<close>, \<open>errcode.h\<close>): error codes of the agent and
  their relation to the errors of JSON trees, the check for attributes that nobody used, and the
  arithmetic of \<open>double\<close> as a record of operations, so that models are independent of rounding. The
  record \<open>real_ops\<close> is exact arithmetic.
\<close>

datatype ts_errcode =
    TSE_OK | TSE_COMMAND_NOT_FOUND | TSE_MESSAGE_FORMAT | TSE_MISSING_ATTRIBUTE | TSE_UNUSED_ATTRIBUTE
  | TSE_INVALID_TYPE | TSE_INVALID_VALUE | TSE_NOT_FOUND | TSE_ALREADY_EXISTS | TSE_INTERNAL_ERROR
  | TSE_INVALID_STATE

definition tsobj_error_code :: "json_code \<Rightarrow> ts_errcode" where
  "tsobj_error_code error =
     (case error of
        JSON_INVALID_TYPE \<Rightarrow> TSE_INVALID_TYPE
      | JSON_NOT_FOUND \<Rightarrow> TSE_MISSING_ATTRIBUTE
      | JSON_UNUSED_CHILD \<Rightarrow> TSE_UNUSED_ATTRIBUTE
      | JSON_OK \<Rightarrow> TSE_OK
      | _ \<Rightarrow> TSE_INTERNAL_ERROR)"

text \<open>A check that fails also sets the error number of the thread.\<close>

definition set_errno :: "json_code \<Rightarrow> json_code \<Rightarrow> json_code" where
  "set_errno code e = (if code = JSON_OK then e else code)"

lemma set_errno_OK [simp]: "set_errno JSON_OK e = e"
  by (simp add: set_errno_def)

section \<open>Lookups keep what a node is\<close>

definition touches :: "'d json_node \<Rightarrow> 'd json_node \<Rightarrow> bool" where
  "touches p q \<longleftrightarrow> jn_type q = jn_type p \<and> jn_children_count q = jn_children_count p \<and>
     map (jn_set_touched True) (jn_child_head q) = map (jn_set_touched True) (jn_child_head p)"

lemma touches_refl [simp]: "touches p p"
  by (simp add: touches_def)

lemma touches_trans: "touches p q \<Longrightarrow> touches q r \<Longrightarrow> touches p r"
  by (simp add: touches_def)

lemma jn_sel_set_children [simp]:
  "jn_type (jn_set_children c ch p) = jn_type p"
  "jn_children_count (jn_set_children c ch p) = c"
  "jn_child_head (jn_set_children c ch p) = ch"
  by (cases p; simp)+

lemma jn_touched_touched [simp]: "jn_set_touched b (jn_set_touched c p) = jn_set_touched b p"
  by (cases p) simp

lemma touches_child: "touches p (json_touch_child p i)"
  by (cases "i < length (jn_child_head p)")
     (auto simp: touches_def json_touch_child_def Let_def map_update list_update_same_conv list_update_beyond)

lemma json_find_opt_touches: "json_find_opt p name e = Some (i, q, e') \<Longrightarrow> touches p q"
  by (auto simp: json_find_opt_def touches_child split: if_splits option.splits)

lemma json_find_touches: "json_find p name e = Some (i, q, e') \<Longrightarrow> touches p q"
  by (auto simp: json_find_def split: option.splits prod.splits dest: json_find_opt_touches)

lemma json_get_touches: "json_get ty conv p name e = Some (c, v, q, e') \<Longrightarrow> touches p q"
  by (auto simp: json_get_def Let_def split: option.splits prod.splits if_splits sum.splits dest: json_find_touches)

section \<open>Arithmetic of doubles\<close>

record 'd fpops =
  fp_of_int :: "int \<Rightarrow> 'd"
  fp_dec :: "int \<Rightarrow> nat \<Rightarrow> 'd"
  fp_add :: "'d \<Rightarrow> 'd \<Rightarrow> 'd"
  fp_sub :: "'d \<Rightarrow> 'd \<Rightarrow> 'd"
  fp_mul :: "'d \<Rightarrow> 'd \<Rightarrow> 'd"
  fp_div :: "'d \<Rightarrow> 'd \<Rightarrow> 'd"
  fp_neg :: "'d \<Rightarrow> 'd"
  fp_log :: "'d \<Rightarrow> 'd"
  fp_lt :: "'d \<Rightarrow> 'd \<Rightarrow> bool"
  fp_le :: "'d \<Rightarrow> 'd \<Rightarrow> bool"
  fp_round :: "'d \<Rightarrow> 'd"
  fp_trunc :: "'d \<Rightarrow> int"

text \<open>\<open>fp_dec m k\<close> is the literal \<open>m * 10\<^sup>-\<^sup>k\<close>; \<open>fp_trunc\<close> is the cast to an integer type.\<close>

definition real_ops :: "real fpops" where
  "real_ops = \<lparr>fp_of_int = of_int, fp_dec = (\<lambda>m k. of_int m / 10 ^ k), fp_add = (+), fp_sub = (-), fp_mul = (*),
     fp_div = (/), fp_neg = uminus, fp_log = ln, fp_lt = (<), fp_le = (\<le>), fp_round = (\<lambda>x. of_int (round x)),
     fp_trunc = (\<lambda>x. if x < 0 then \<lceil>x\<rceil> else \<lfloor>x\<rfloor>)\<rparr>"

lemma real_ops_simps [simp]:
  "fp_of_int real_ops n = of_int n" "fp_dec real_ops m k = of_int m / 10 ^ k" "fp_add real_ops x y = x + y"
  "fp_sub real_ops x y = x - y" "fp_mul real_ops x y = x * y" "fp_div real_ops x y = x / y"
  "fp_neg real_ops x = - x" "fp_log real_ops x = ln x" "fp_lt real_ops x y \<longleftrightarrow> x < y" "fp_le real_ops x y \<longleftrightarrow> x \<le> y"
  "fp_round real_ops x = of_int (round x)" "fp_trunc real_ops x = (if x < 0 then \<lceil>x\<rceil> else \<lfloor>x\<rfloor>)"
  by (simp_all add: real_ops_def)

end
