(* ===== verification/RandGen.thy ===== *)
theory RandGen
  imports TsObj "HOL-Library.Word"
begin

text \<open>
  Random generators and variators (\<open>randgen.c\<close>, \<open>randgen.h\<close> and the classes below \<open>randgen/\<close>). A class is a
  record with the functions that the structure points to; the private data of a generator is one
  64-bit word. The numbers that \<open>rand\<close> and \<open>/dev/urandom\<close> deliver are arguments. Loops that draw until a
  value is accepted are partial functions.
\<close>

section \<open>Generators\<close>

record randgen_class =
  rg_class_name :: string
  rg_is_singleton :: bool
  rg_ref_count :: int
  rg_object :: "addr option"
  rg_max :: "64 word"
  rg_init :: "64 word \<Rightarrow> int \<times> 64 word \<times> 64 word"
  rg_generate :: "64 word \<Rightarrow> 64 word \<times> 64 word"

text \<open>
  \<open>rg_init\<close> takes the seed and returns its result, the seed and the private data; \<open>rg_generate\<close> is the
  member \<open>rg_generate_int\<close> and takes the private data to the number and the new private data.
\<close>

record randgen =
  rg_class :: randgen_class
  rg_seed :: "64 word"
  rg_private :: "64 word"

definition RG_CLASS_HEAD ::
    "string \<Rightarrow> bool \<Rightarrow> 64 word \<Rightarrow> (64 word \<Rightarrow> int \<times> 64 word \<times> 64 word) \<Rightarrow> (64 word \<Rightarrow> 64 word \<times> 64 word) \<Rightarrow> randgen_class" where
  "RG_CLASS_HEAD name single m ini gen =
     \<lparr>rg_class_name = name, rg_is_singleton = single, rg_ref_count = 0, rg_object = None, rg_max = m,
      rg_init = ini, rg_generate = gen\<rparr>"

definition ULLONG_MAX :: "64 word" where "ULLONG_MAX = - 1"

subsection \<open>The classes\<close>

definition rg_lcg_multiplier :: "64 word" where "rg_lcg_multiplier = 6364136223846793005"

definition rg_lcg_increment :: "64 word" where "rg_lcg_increment = 1442695040888963407"

definition rg_init_lcg :: "64 word \<Rightarrow> int \<times> 64 word \<times> 64 word" where
  "rg_init_lcg seed = (let seed1 = (if seed = 0 then 1 else seed) in (0, seed1, seed1))"

definition rg_generate_int_lcg :: "64 word \<Rightarrow> 64 word \<times> 64 word" where
  "rg_generate_int_lcg lcg_seed =
     (let lcg_seed1 = rg_lcg_multiplier * lcg_seed + rg_lcg_increment in (lcg_seed1, lcg_seed1))"

definition rg_lcg_class :: randgen_class where
  "rg_lcg_class = RG_CLASS_HEAD ''lcg'' False ULLONG_MAX rg_init_lcg rg_generate_int_lcg"

definition rg_init_seq :: "64 word \<Rightarrow> int \<times> 64 word \<times> 64 word" where
  "rg_init_seq seed = (0, seed, seed)"

definition rg_generate_int_seq :: "64 word \<Rightarrow> 64 word \<times> 64 word" where
  "rg_generate_int_seq val = (val, val + 1)"

definition rg_seq_class :: randgen_class where
  "rg_seq_class = RG_CLASS_HEAD ''seq'' False ULLONG_MAX rg_init_seq rg_generate_int_seq"

text \<open>\<open>srand\<close> takes an \<open>unsigned\<close>; \<open>srnd\<close> and \<open>rnd\<close> stand for the state of the C library.\<close>

definition rg_init_libc :: "(32 word \<Rightarrow> 64 word) \<Rightarrow> 64 word \<Rightarrow> int \<times> 64 word \<times> 64 word" where
  "rg_init_libc srnd seed = (0, seed, srnd (ucast seed))"

definition rg_libc_class :: "(32 word \<Rightarrow> 64 word) \<Rightarrow> 64 word \<Rightarrow> (64 word \<Rightarrow> 64 word \<times> 64 word) \<Rightarrow> randgen_class" where
  "rg_libc_class srnd rand_max rnd = RG_CLASS_HEAD ''libc'' True rand_max (rg_init_libc srnd) rnd"

text \<open>\<open>open_ok\<close> is the result of opening the device; the private data counts the reads.\<close>

definition rg_init_devrandom :: "bool \<Rightarrow> 64 word \<Rightarrow> int \<times> 64 word \<times> 64 word" where
  "rg_init_devrandom open_ok seed = (if open_ok then 0 else - 1, seed, 0)"

definition rg_generate_int_devrandom :: "(64 word \<Rightarrow> 64 word) \<Rightarrow> 64 word \<Rightarrow> 64 word \<times> 64 word" where
  "rg_generate_int_devrandom dev n = (dev n, n + 1)"

definition rg_devrandom_class :: "bool \<Rightarrow> (64 word \<Rightarrow> 64 word) \<Rightarrow> randgen_class" where
  "rg_devrandom_class open_ok dev =
     RG_CLASS_HEAD ''devrandom'' True ULLONG_MAX (rg_init_devrandom open_ok) (rg_generate_int_devrandom dev)"

subsection \<open>Life of a generator\<close>

text \<open>
  The outcome of \<open>rg_create\<close>: no generator, a loop that waits for the object of a singleton which
  nobody is going to set, the object of the singleton, or a new object at an address.
\<close>

datatype rg_created = RG_NULL | RG_SPIN | RG_SHARED addr | RG_NEW addr randgen

definition rg_create :: "randgen_class \<Rightarrow> 64 word \<Rightarrow> addr option \<Rightarrow> rg_created \<times> randgen_class" where
  "rg_create cls seed mem =
     (let cls1 = (if rg_is_singleton cls then cls\<lparr>rg_ref_count := rg_ref_count cls + 1\<rparr> else cls) in
      if rg_is_singleton cls \<and> rg_ref_count cls > 0 then
        (case rg_object cls of None \<Rightarrow> RG_SPIN | Some a \<Rightarrow> RG_SHARED a, cls1)
      else case mem of
             None \<Rightarrow> (RG_NULL, cls1)
           | Some a \<Rightarrow>
               (case rg_init cls seed of
                  (ret, seed1, priv) \<Rightarrow>
                    if ret \<noteq> 0 then (RG_NULL, cls1)
                    else (RG_NEW a \<lparr>rg_class = cls1, rg_seed = seed1, rg_private = priv\<rparr>, cls1\<lparr>rg_object := Some a\<rparr>)))"

text \<open>The first result of \<open>rg_destroy\<close> says whether the object is freed.\<close>

definition rg_destroy :: "randgen_class \<Rightarrow> bool \<times> randgen_class" where
  "rg_destroy cls =
     (if \<not> rg_is_singleton cls then (True, cls)
      else (rg_ref_count cls = 1, cls\<lparr>rg_ref_count := rg_ref_count cls - 1\<rparr>))"

definition rg_generate_int :: "randgen \<Rightarrow> 64 word \<times> randgen" where
  "rg_generate_int rg = (case rg_generate (rg_class rg) (rg_private rg) of (r, priv) \<Rightarrow> (r, rg\<lparr>rg_private := priv\<rparr>))"

definition rg_generate_double :: "'d fpops \<Rightarrow> randgen \<Rightarrow> 'd \<times> randgen" where
  "rg_generate_double fp rg =
     (case rg_generate_int rg of
        (r, rg1) \<Rightarrow>
          if r = 0 then (fp_of_int fp 0, rg1)
          else (let x = rg_max (rg_class rg) div r; y = rg_max (rg_class rg) mod r
                in (fp_div fp (fp_of_int fp 1)
                      (fp_add fp (fp_of_int fp (uint x)) (fp_div fp (fp_of_int fp (uint y)) (fp_of_int fp (uint r)))), rg1)))"

section \<open>Variators\<close>

datatype rv_code = RV_PARAM_OK | RV_INVALID_PARAM_NAME | RV_INVALID_PARAM_VALUE

datatype tsload_param_type =
    TSLOAD_PARAM_BOOLEAN | TSLOAD_PARAM_INTEGER | TSLOAD_PARAM_FLOAT | TSLOAD_PARAM_STRING
  | TSLOAD_PARAM_RANDGEN | TSLOAD_PARAM_RANDVAR

type_synonym tsload_param = "tsload_param_type \<times> string \<times> string"

datatype 'd rv_private =
    RV_UNIFORM 'd 'd | RV_EXP 'd | RV_ERLANG 'd int | RV_NORMAL 'd 'd

text \<open>
  The array of parameters is a list without its terminator. \<open>rv_init\<close> takes what the fresh memory
  holds; \<open>rv_variate\<close> is the member \<open>rv_variate_double\<close>, which may draw from the generator; \<open>None\<close> is a loop that
  does not end.
\<close>

record 'd randvar_class =
  rv_class_name :: string
  rv_params :: "tsload_param list"
  rv_init :: "'d \<Rightarrow> 'd rv_private"
  rv_set_int :: "'d rv_private \<Rightarrow> string \<Rightarrow> int \<Rightarrow> rv_code \<times> 'd rv_private"
  rv_set_double :: "'d rv_private \<Rightarrow> string \<Rightarrow> 'd \<Rightarrow> rv_code \<times> 'd rv_private"
  rv_variate :: "'d rv_private \<Rightarrow> randgen \<Rightarrow> 'd \<Rightarrow> ('d \<times> randgen) option"

record 'd randvar =
  rv_class :: "'d randvar_class"
  rv_private :: "'d rv_private"

definition rv_set_int_dummy :: "'d rv_private \<Rightarrow> string \<Rightarrow> int \<Rightarrow> rv_code \<times> 'd rv_private" where
  "rv_set_int_dummy rv name val = (RV_INVALID_PARAM_NAME, rv)"

definition rv_set_double_dummy :: "'d rv_private \<Rightarrow> string \<Rightarrow> 'd \<Rightarrow> rv_code \<times> 'd rv_private" where
  "rv_set_double_dummy rv name val = (RV_INVALID_PARAM_NAME, rv)"

definition rv_create :: "'d randvar_class \<Rightarrow> 'd \<Rightarrow> 'd randvar" where
  "rv_create cls garbage = \<lparr>rv_class = cls, rv_private = rv_init cls garbage\<rparr>"

definition rv_variate_double :: "'d fpops \<Rightarrow> 'd randvar \<Rightarrow> randgen \<Rightarrow> ('d \<times> randgen) option" where
  "rv_variate_double fp rv rg =
     (case rg_generate_double fp rg of (u, rg1) \<Rightarrow> rv_variate (rv_class rv) (rv_private rv) rg1 u)"

subsection \<open>Uniform and exponential distribution\<close>

fun rv_set_double_uniform :: "'d rv_private \<Rightarrow> string \<Rightarrow> 'd \<Rightarrow> rv_code \<times> 'd rv_private" where
  "rv_set_double_uniform (RV_UNIFORM mn mx) name val =
     (if name = ''min'' then (RV_PARAM_OK, RV_UNIFORM val mx)
      else if name = ''max'' then (RV_PARAM_OK, RV_UNIFORM mn val)
      else (RV_INVALID_PARAM_NAME, RV_UNIFORM mn mx))"
| "rv_set_double_uniform rv name val = (RV_INVALID_PARAM_NAME, rv)"

fun rv_variate_double_uniform :: "'d fpops \<Rightarrow> 'd rv_private \<Rightarrow> randgen \<Rightarrow> 'd \<Rightarrow> ('d \<times> randgen) option" where
  "rv_variate_double_uniform fp (RV_UNIFORM mn mx) rg u = Some (fp_add fp (fp_mul fp u (fp_sub fp mx mn)) mn, rg)"
| "rv_variate_double_uniform fp rv rg u = None"

definition rv_uniform_class :: "'d fpops \<Rightarrow> 'd randvar_class" where
  "rv_uniform_class fp =
     \<lparr>rv_class_name = ''uniform'', rv_params = [(TSLOAD_PARAM_FLOAT, ''min'', ''''), (TSLOAD_PARAM_FLOAT, ''max'', '''')],
      rv_init = (\<lambda>_. RV_UNIFORM (fp_of_int fp 0) (fp_of_int fp 1)), rv_set_int = rv_set_int_dummy,
      rv_set_double = rv_set_double_uniform, rv_variate = rv_variate_double_uniform fp\<rparr>"

fun rv_set_double_exp :: "'d fpops \<Rightarrow> 'd rv_private \<Rightarrow> string \<Rightarrow> 'd \<Rightarrow> rv_code \<times> 'd rv_private" where
  "rv_set_double_exp fp (RV_EXP rate) name val =
     (if name = ''rate'' then
        (if fp_le fp val (fp_of_int fp 0) then (RV_INVALID_PARAM_VALUE, RV_EXP rate) else (RV_PARAM_OK, RV_EXP val))
      else (RV_INVALID_PARAM_NAME, RV_EXP rate))"
| "rv_set_double_exp fp rv name val = (RV_INVALID_PARAM_NAME, rv)"

fun rv_variate_double_exp :: "'d fpops \<Rightarrow> 'd rv_private \<Rightarrow> randgen \<Rightarrow> 'd \<Rightarrow> ('d \<times> randgen) option" where
  "rv_variate_double_exp fp (RV_EXP rate) rg u =
     Some (fp_div fp (fp_log fp (fp_sub fp (fp_of_int fp 1) u)) (fp_neg fp rate), rg)"
| "rv_variate_double_exp fp rv rg u = None"

definition rv_exponential_class :: "'d fpops \<Rightarrow> 'd randvar_class" where
  "rv_exponential_class fp =
     \<lparr>rv_class_name = ''exponential'', rv_params = [(TSLOAD_PARAM_FLOAT, ''rate'', ''cannot be negative'')],
      rv_init = (\<lambda>_. RV_EXP (fp_of_int fp 0)), rv_set_int = rv_set_int_dummy,
      rv_set_double = rv_set_double_exp fp, rv_variate = rv_variate_double_exp fp\<rparr>"

subsection \<open>Erlang distribution\<close>

fun rv_set_double_erlang :: "'d fpops \<Rightarrow> 'd rv_private \<Rightarrow> string \<Rightarrow> 'd \<Rightarrow> rv_code \<times> 'd rv_private" where
  "rv_set_double_erlang fp (RV_ERLANG rate shape) name val =
     (if name = ''rate'' then
        (if fp_le fp val (fp_of_int fp 0) then (RV_INVALID_PARAM_VALUE, RV_ERLANG rate shape)
         else (RV_PARAM_OK, RV_ERLANG val shape))
      else (RV_INVALID_PARAM_NAME, RV_ERLANG rate shape))"
| "rv_set_double_erlang fp rv name val = (RV_INVALID_PARAM_NAME, rv)"

fun rv_set_int_erlang :: "'d rv_private \<Rightarrow> string \<Rightarrow> int \<Rightarrow> rv_code \<times> 'd rv_private" where
  "rv_set_int_erlang (RV_ERLANG rate shape) name val =
     (if name = ''shape'' then
        (if val < 1 then (RV_INVALID_PARAM_VALUE, RV_ERLANG rate shape) else (RV_PARAM_OK, RV_ERLANG rate val))
      else (RV_INVALID_PARAM_NAME, RV_ERLANG rate shape))"
| "rv_set_int_erlang rv name val = (RV_INVALID_PARAM_NAME, rv)"

text \<open>The loop multiplies \<open>n\<close> positive numbers; a number that is not positive adds a round.\<close>

partial_function (option) erlang_loop :: "'d fpops \<Rightarrow> int \<Rightarrow> int \<Rightarrow> 'd \<Rightarrow> 'd \<Rightarrow> randgen \<Rightarrow> ('d \<times> randgen) option" where
  "erlang_loop fp i n u m rg =
     (if i < n then
        (let (u1, rg1) = (if i > 0 then rg_generate_double fp rg else (u, rg)) in
         if fp_lt fp (fp_of_int fp 0) u1 then erlang_loop fp (i + 1) n u1 (fp_mul fp m u1) rg1
         else erlang_loop fp (i + 1) (n + 1) u1 m rg1)
      else Some (m, rg))"

text \<open>\<open>int n = rve->shape\<close> keeps the low 32 bits of the \<open>long\<close>.\<close>

fun rv_variate_double_erlang :: "'d fpops \<Rightarrow> 'd rv_private \<Rightarrow> randgen \<Rightarrow> 'd \<Rightarrow> ('d \<times> randgen) option" where
  "rv_variate_double_erlang fp (RV_ERLANG rate shape) rg u =
     (case erlang_loop fp 0 (sint (of_int shape :: 32 word)) u (fp_of_int fp 1) rg of
        None \<Rightarrow> None
      | Some (m, rg1) \<Rightarrow> Some (fp_div fp (fp_log fp m) (fp_neg fp rate), rg1))"
| "rv_variate_double_erlang fp rv rg u = None"

definition rv_erlang_class :: "'d fpops \<Rightarrow> 'd randvar_class" where
  "rv_erlang_class fp =
     \<lparr>rv_class_name = ''erlang'',
      rv_params = [(TSLOAD_PARAM_INTEGER, ''shape'', ''must be greater than 1''), (TSLOAD_PARAM_FLOAT, ''rate'', ''cannot be negative'')],
      rv_init = (\<lambda>garbage. RV_ERLANG garbage 0), rv_set_int = rv_set_int_erlang,
      rv_set_double = rv_set_double_erlang fp, rv_variate = rv_variate_double_erlang fp\<rparr>"

subsection \<open>Normal distribution\<close>

fun rv_set_double_normal :: "'d fpops \<Rightarrow> 'd rv_private \<Rightarrow> string \<Rightarrow> 'd \<Rightarrow> rv_code \<times> 'd rv_private" where
  "rv_set_double_normal fp (RV_NORMAL mean stddev) name val =
     (if name = ''mean'' then (RV_PARAM_OK, RV_NORMAL val stddev)
      else if name = ''stddev'' then
        (if fp_lt fp val (fp_of_int fp 0) then (RV_INVALID_PARAM_VALUE, RV_NORMAL mean stddev)
         else (RV_PARAM_OK, RV_NORMAL mean val))
      else (RV_INVALID_PARAM_NAME, RV_NORMAL mean stddev))"
| "rv_set_double_normal fp rv name val = (RV_INVALID_PARAM_NAME, rv)"

definition rv_normal_magic_const :: "'d fpops \<Rightarrow> 'd" where
  "rv_normal_magic_const fp = fp_dec fp 17155277699214135 16"

partial_function (option) normal_loop :: "'d fpops \<Rightarrow> randgen \<Rightarrow> ('d \<times> randgen) option" where
  "normal_loop fp rg =
     (let (u, rg1) = rg_generate_double fp rg;
          (v, rg2) = rg_generate_double fp rg1;
          u2 = fp_sub fp (fp_of_int fp 1) v;
          z = fp_div fp (fp_mul fp (rv_normal_magic_const fp) (fp_sub fp u (fp_dec fp 5 1))) u2;
          zz = fp_div fp (fp_mul fp z z) (fp_of_int fp 4)
      in if fp_le fp zz (fp_neg fp (fp_log fp u2)) then Some (z, rg2) else normal_loop fp rg2)"

fun rv_variate_double_normal :: "'d fpops \<Rightarrow> 'd rv_private \<Rightarrow> randgen \<Rightarrow> 'd \<Rightarrow> ('d \<times> randgen) option" where
  "rv_variate_double_normal fp (RV_NORMAL mean stddev) rg u =
     (case normal_loop fp rg of None \<Rightarrow> None | Some (z, rg1) \<Rightarrow> Some (fp_add fp mean (fp_mul fp z stddev), rg1))"
| "rv_variate_double_normal fp rv rg u = None"

definition rv_normal_class :: "'d fpops \<Rightarrow> 'd randvar_class" where
  "rv_normal_class fp =
     \<lparr>rv_class_name = ''normal'',
      rv_params = [(TSLOAD_PARAM_FLOAT, ''mean'', ''''), (TSLOAD_PARAM_FLOAT, ''stddev'', ''should be positive'')],
      rv_init = (\<lambda>_. RV_NORMAL (fp_of_int fp 0) (fp_of_int fp 0)), rv_set_int = rv_set_int_dummy,
      rv_set_double = rv_set_double_normal fp, rv_variate = rv_variate_double_normal fp\<rparr>"

section \<open>Registries and configuration\<close>

text \<open>
  The hash maps of classes, which refine finite maps, are maps from names. \<open>dup\<close> of \<open>hash_map_insert\<close> is the
  code \<open>HASH_MAP_DUPLICATE\<close>, reported as \<open>False\<close>.
\<close>

type_synonym 'c registry = "string \<Rightarrow> 'c option"

definition randgen_register :: "randgen_class \<Rightarrow> randgen_class registry \<Rightarrow> bool \<times> randgen_class registry" where
  "randgen_register cls rgs =
     (if rgs (rg_class_name cls) \<noteq> None then (False, rgs) else (True, rgs(rg_class_name cls \<mapsto> cls)))"

definition randvar_register :: "'d randvar_class \<Rightarrow> 'd randvar_class registry \<Rightarrow> bool \<times> 'd randvar_class registry" where
  "randvar_register cls rvs =
     (if rvs (rv_class_name cls) \<noteq> None then (False, rvs) else (True, rvs(rv_class_name cls \<mapsto> cls)))"

definition randgen_init ::
    "'d fpops \<Rightarrow> randgen_class \<Rightarrow> randgen_class \<Rightarrow> randgen_class registry \<times> 'd randvar_class registry" where
  "randgen_init fp libc devrandom =
     (fold (\<lambda>c m. snd (randgen_register c m)) [libc, rg_lcg_class, rg_seq_class, devrandom] Map.empty,
      fold (\<lambda>c m. snd (randvar_register c m))
        [rv_erlang_class fp, rv_exponential_class fp, rv_normal_class fp, rv_uniform_class fp] Map.empty)"

definition randgen_unregister :: "randgen_class \<Rightarrow> randgen_class registry \<Rightarrow> randgen_class registry" where
  "randgen_unregister cls rgs = rgs(rg_class_name cls := None)"

definition randvar_unregister :: "'d randvar_class \<Rightarrow> 'd randvar_class registry \<Rightarrow> 'd randvar_class registry" where
  "randvar_unregister cls rvs = rvs(rv_class_name cls := None)"

definition randgen_fini ::
    "'d fpops \<Rightarrow> randgen_class \<Rightarrow> randgen_class \<Rightarrow> randgen_class registry \<times> 'd randvar_class registry \<Rightarrow>
     randgen_class registry \<times> 'd randvar_class registry" where
  "randgen_fini fp libc devrandom regs =
     (fold randgen_unregister [devrandom, rg_seq_class, rg_lcg_class, libc] (fst regs),
      fold randvar_unregister [rv_uniform_class fp, rv_normal_class fp, rv_exponential_class fp, rv_erlang_class fp] (snd regs))"

text \<open>
  The result of processing: what was made, the errors reported through \<open>tsload_error_msg\<close>, the node with
  its attributes marked and the error number of the thread; \<open>None\<close> is the use of a null name.
\<close>

type_synonym ('d, 'r) processed = "('r \<times> ts_errcode list \<times> 'd json_node \<times> json_code) option"

definition tsobj_randgen_proc ::
    "randgen_class registry \<Rightarrow> int \<Rightarrow> addr option \<Rightarrow> bool \<Rightarrow> 'd json_node \<Rightarrow> json_code \<Rightarrow>
     ('d, rg_created \<times> randgen_class registry) processed" where
  "tsobj_randgen_proc rgs clock mem ig node e =
     (case json_get_string node ''class'' e of
        None \<Rightarrow> None
      | Some (err0, name, node1, e1) \<Rightarrow>
          if err0 \<noteq> JSON_OK then Some ((RG_NULL, rgs), [tsobj_error_code e1], node1, e1)
          else case json_get_integer_i64 node1 ''seed'' e1 of
                 None \<Rightarrow> None
               | Some (err, sd, node2, e2) \<Rightarrow>
                   if err = JSON_INVALID_TYPE then Some ((RG_NULL, rgs), [tsobj_error_code e2], node2, e2)
                   else
                     let unused = json_check_unused ig node2; e3 = set_errno unused e2 in
                     if unused \<noteq> JSON_OK then Some ((RG_NULL, rgs), [tsobj_error_code e3], node2, e3)
                     else
                       let seed = (case sd of Some i \<Rightarrow> i | None \<Rightarrow> clock) in
                       (case rgs (the name) of
                          None \<Rightarrow> Some ((RG_NULL, rgs), [TSE_INVALID_VALUE], node2, e3)
                        | Some cls \<Rightarrow>
                            (case rg_create cls (of_int seed) mem of
                               (made, cls1) \<Rightarrow> Some ((made, rgs(the name \<mapsto> cls1)), [], node2, e3))))"

text \<open>The loop over the parameters of a variator; the sum is the error or the variator.\<close>

fun rv_params_loop ::
    "'d fpops \<Rightarrow> tsload_param list \<Rightarrow> 'd randvar \<Rightarrow> 'd json_node \<Rightarrow> json_code \<Rightarrow>
     ((rv_code option + 'd randvar) \<times> 'd json_node \<times> json_code) option" where
  "rv_params_loop fp [] rv node e = Some (Inr rv, node, e)"
| "rv_params_loop fp ((ty, name, hint) # ps) rv node e =
     (if ty = TSLOAD_PARAM_INTEGER then
        (case json_get_integer_i64 node name e of
           None \<Rightarrow> None
         | Some (err, lval, node1, e1) \<Rightarrow>
             if err \<noteq> JSON_OK then Some (Inl None, node1, e1)
             else case rv_set_int (rv_class rv) (rv_private rv) name (the lval) of
                    (ret, priv) \<Rightarrow>
                      if ret \<noteq> RV_PARAM_OK then Some (Inl (Some ret), node1, e1)
                      else rv_params_loop fp ps (rv\<lparr>rv_private := priv\<rparr>) node1 e1)
      else if ty = TSLOAD_PARAM_FLOAT then
        (case json_get_double_n (fp_of_int fp) (fp_of_int fp 0) node name e of
           None \<Rightarrow> None
         | Some (err, dval, node1, e1) \<Rightarrow>
             if err \<noteq> JSON_OK then Some (Inl None, node1, e1)
             else case rv_set_double (rv_class rv) (rv_private rv) name (the dval) of
                    (ret, priv) \<Rightarrow>
                      if ret \<noteq> RV_PARAM_OK then Some (Inl (Some ret), node1, e1)
                      else rv_params_loop fp ps (rv\<lparr>rv_private := priv\<rparr>) node1 e1)
      else rv_params_loop fp ps rv node e)"

definition rv_bad_param :: "rv_code \<Rightarrow> ts_errcode list" where
  "rv_bad_param ret =
     (case ret of RV_INVALID_PARAM_NAME \<Rightarrow> [TSE_INTERNAL_ERROR] | RV_INVALID_PARAM_VALUE \<Rightarrow> [TSE_INVALID_VALUE] | _ \<Rightarrow> [])"

definition tsobj_randvar_proc ::
    "'d fpops \<Rightarrow> 'd randvar_class registry \<Rightarrow> 'd \<Rightarrow> bool \<Rightarrow> 'd json_node \<Rightarrow> json_code \<Rightarrow> ('d, 'd randvar option) processed" where
  "tsobj_randvar_proc fp rvs garbage ig node e =
     (case json_get_string node ''class'' e of
        None \<Rightarrow> None
      | Some (err0, name, node1, e1) \<Rightarrow>
          if err0 \<noteq> JSON_OK then Some (None, [tsobj_error_code e1], node1, e1)
          else case rvs (the name) of
                 None \<Rightarrow> Some (None, [TSE_INVALID_VALUE], node1, e1)
               | Some cls \<Rightarrow>
                   (case rv_params_loop fp (rv_params cls) (rv_create cls garbage) node1 e1 of
                      None \<Rightarrow> None
                    | Some (Inl None, node2, e2) \<Rightarrow> Some (None, [tsobj_error_code e2], node2, e2)
                    | Some (Inl (Some ret), node2, e2) \<Rightarrow> Some (None, rv_bad_param ret, node2, e2)
                    | Some (Inr rv, node2, e2) \<Rightarrow>
                        let unused = json_check_unused ig node2; e3 = set_errno unused e2 in
                        if unused \<noteq> JSON_OK then Some (None, [tsobj_error_code e3], node2, e3)
                        else Some (Some rv, [], node2, e3)))"

end
