(* ===== verification/WlParam.thy ===== *)
theory WlParam
  imports TsNodes RandGen
begin

text \<open>
  Parameters of workloads (\<open>wlparam.h\<close>, \<open>wlparam.c\<close>): descriptors with type, range, default value and offset, their
  values from JSON, and the bytes they occupy in the structure of parameters. A write outside of a
  structure and the use of a null pointer are the outcome \<open>None\<close>. Objects of the host information library are
  found by functions that are arguments.
\<close>

section \<open>Descriptors\<close>

datatype wlp_type =
    WLP_NULL | WLP_BOOL | WLP_INTEGER | WLP_FLOAT | WLP_RAW_STRING | WLP_STRING_SET
  | WLP_SIZE | WLP_TIME | WLP_FILE_PATH | WLP_CPU_OBJECT | WLP_DISK | WLP_TYPE_MAX | WLP_HI_OBJECT

record 'd wlp_range =
  r_range :: bool
  str_length :: nat
  i_min :: int
  i_max :: int
  d_min :: 'd
  d_max :: 'd
  ss_num :: nat
  ss_strings :: "string list"

record 'd wlp_default =
  d_enabled :: bool
  d_b :: bool
  d_i :: int
  d_f :: 'd
  d_s :: "string option"
  d_ssi :: int

definition WLPF_OPTIONAL :: "64 word" where "WLPF_OPTIONAL = 0x01"
definition WLPF_REQUEST :: "64 word" where "WLPF_REQUEST = 0x02"
definition WLPF_OUTPUT :: "64 word" where "WLPF_OUTPUT = 0x06"

record 'd wlp_descr =
  wlp_type :: wlp_type
  wlp_flags :: "64 word"
  wlp_range :: "'d wlp_range"
  wlp_defval :: "'d wlp_default"
  wlp_name :: string
  wlp_description :: string
  wlp_off :: nat

unbundle bit_operations_syntax

abbreviation has_flag :: "'d wlp_descr \<Rightarrow> 64 word \<Rightarrow> bool" where
  "has_flag wlp f \<equiv> (wlp_flags wlp AND f) \<noteq> 0"

abbreviation is_output :: "'d wlp_descr \<Rightarrow> bool" where
  "is_output wlp \<equiv> (wlp_flags wlp AND WLPF_OUTPUT) = WLPF_OUTPUT"

definition wlp_base_types :: "wlp_type \<Rightarrow> wlp_type" where
  "wlp_base_types t =
     (case t of
        WLP_SIZE \<Rightarrow> WLP_INTEGER | WLP_TIME \<Rightarrow> WLP_INTEGER | WLP_FILE_PATH \<Rightarrow> WLP_RAW_STRING
      | WLP_CPU_OBJECT \<Rightarrow> WLP_HI_OBJECT | WLP_DISK \<Rightarrow> WLP_HI_OBJECT | _ \<Rightarrow> t)"

definition wlp_get_base_type :: "'d wlp_descr \<Rightarrow> wlp_type" where
  "wlp_get_base_type wlp = wlp_base_types (wlp_type wlp)"

definition wlp_tsobj_type :: "wlp_type \<Rightarrow> json_type" where
  "wlp_tsobj_type t =
     (case t of
        WLP_BOOL \<Rightarrow> JSON_BOOLEAN | WLP_INTEGER \<Rightarrow> JSON_NUMBER_INTEGER | WLP_FLOAT \<Rightarrow> JSON_NUMBER_FLOAT
      | WLP_RAW_STRING \<Rightarrow> JSON_STRING | WLP_STRING_SET \<Rightarrow> JSON_STRING
      | WLP_SIZE \<Rightarrow> JSON_NUMBER_INTEGER | WLP_TIME \<Rightarrow> JSON_NUMBER_INTEGER | WLP_FILE_PATH \<Rightarrow> JSON_STRING
      | WLP_CPU_OBJECT \<Rightarrow> JSON_STRING | WLP_DISK \<Rightarrow> JSON_STRING | _ \<Rightarrow> JSON_NULL)"

datatype wlparam_ret = WLPARAM_OK | WLPARAM_TSOBJ_BAD | WLPARAM_OUTSIDE_RANGE | WLPARAM_NO_DEFAULT | WLPARAM_ERROR

text \<open>\<open>WLPARAM_DEFAULT_OK\<close> and \<open>WLPARAM_TSOBJ_OK\<close> are both 0.\<close>

section \<open>Values in memory\<close>

text \<open>
  The environment: arithmetic and bytes of doubles, objects of the host, and what the configuration of random generators
  needs. \<open>we_fresh\<close> is what new memory of a size holds, \<open>we_garbage\<close> and \<open>we_ret\<close> are variables that are
  read before they are written.
\<close>

record 'd wlp_env =
  we_fp :: "'d fpops"
  we_dbl :: "'d \<Rightarrow> char list"
  we_cpu_find :: "string \<Rightarrow> 64 word option"
  we_dsk_find :: "string \<Rightarrow> 64 word option"
  we_rvs :: "'d randvar_class registry"
  we_clock :: int
  we_ignore_unused :: bool
  we_garbage :: 'd
  we_ret :: wlparam_ret
  we_fresh :: "nat \<Rightarrow> char list"

definition put_bool :: "nat \<Rightarrow> bool \<Rightarrow> char list \<Rightarrow> char list option" where
  "put_bool off b mem = mem_put off (word_bytes 4 (if b then 1 else 0 :: 32 word)) mem"

definition put_integer :: "nat \<Rightarrow> int \<Rightarrow> char list \<Rightarrow> char list option" where
  "put_integer off i mem = mem_put off (word_bytes 8 (of_int i :: 64 word)) mem"

definition put_float :: "'d wlp_env \<Rightarrow> nat \<Rightarrow> 'd \<Rightarrow> char list \<Rightarrow> char list option" where
  "put_float env off d mem = mem_put off (we_dbl env d) mem"

definition put_strset :: "nat \<Rightarrow> int \<Rightarrow> char list \<Rightarrow> char list option" where
  "put_strset off i mem = mem_put off (word_bytes 4 (of_int i :: 32 word)) mem"

definition put_hiobject :: "nat \<Rightarrow> 64 word \<Rightarrow> char list \<Rightarrow> char list option" where
  "put_hiobject off p mem = mem_put off (word_bytes 8 p) mem"

definition strcpy_to :: "nat \<Rightarrow> string \<Rightarrow> char list \<Rightarrow> char list option" where
  "strcpy_to off s mem = mem_put off (s @ [NUL]) mem"

section \<open>Processing of one value\<close>

text \<open>The result, the codes reported and the memory.\<close>

type_synonym wlparam_result = "(wlparam_ret \<times> ts_errcode list \<times> char list) option"

definition wlp_done :: "char list option \<Rightarrow> wlparam_result" where
  "wlp_done mem = map_option (\<lambda>m. (WLPARAM_OK, [], m)) mem"

fun strset_search :: "string \<Rightarrow> nat \<Rightarrow> nat \<Rightarrow> string list \<Rightarrow> nat option option" where
  "strset_search str i 0 ss = Some None"
| "strset_search str i (Suc n) [] = None"
| "strset_search str i (Suc n) (s # ss) = (if s = str then Some (Some i) else strset_search str (Suc i) n ss)"

definition tsobj_wlparam_strset_proc :: "string \<Rightarrow> 'd wlp_descr \<Rightarrow> nat \<Rightarrow> char list \<Rightarrow> wlparam_result" where
  "tsobj_wlparam_strset_proc str wlp off mem =
     (case strset_search str 0 (ss_num (wlp_range wlp)) (ss_strings (wlp_range wlp)) of
        None \<Rightarrow> None
      | Some None \<Rightarrow> Some (WLPARAM_OUTSIDE_RANGE, [TSE_INVALID_VALUE], mem)
      | Some (Some i) \<Rightarrow> wlp_done (put_strset off (int i) mem))"

definition tsobj_wlparam_hiobj_proc :: "'d wlp_env \<Rightarrow> string \<Rightarrow> 'd wlp_descr \<Rightarrow> nat \<Rightarrow> char list \<Rightarrow> wlparam_result" where
  "tsobj_wlparam_hiobj_proc env str wlp off mem =
     (case (if wlp_type wlp = WLP_CPU_OBJECT then we_cpu_find env str else we_dsk_find env str) of
        None \<Rightarrow> Some (WLPARAM_OUTSIDE_RANGE, [TSE_INVALID_VALUE], mem)
      | Some hiobj \<Rightarrow> wlp_done (put_hiobject off hiobj mem))"

definition tsobj_wlparam_proc ::
    "'d wlp_env \<Rightarrow> 'd json_node \<Rightarrow> 'd wlp_descr \<Rightarrow> nat \<Rightarrow> char list \<Rightarrow> wlparam_result" where
  "tsobj_wlparam_proc env node wlp off mem =
     (let rng = wlp_range wlp; fp = we_fp env; err = json_check_type (Some node) (wlp_tsobj_type (wlp_type wlp)) in
      if err \<noteq> JSON_OK then Some (WLPARAM_TSOBJ_BAD, [tsobj_error_code err], mem)
      else if wlp_type wlp = WLP_BOOL then wlp_done (put_bool off (json_as_boolean (Some node)) mem)
      else if wlp_type wlp \<in> {WLP_SIZE, WLP_TIME, WLP_INTEGER} then
        (let val = sint (of_int (json_as_integer (Some node)) :: 64 word) in
         if r_range rng \<and> (val < i_min rng \<or> val > i_max rng) then Some (WLPARAM_OUTSIDE_RANGE, [TSE_INVALID_VALUE], mem)
         else wlp_done (put_integer off val mem))
      else if wlp_type wlp = WLP_FLOAT then
        (let val = json_as_double (fp_of_int fp 0) (Some node) in
         if r_range rng \<and> (fp_lt fp val (d_min rng) \<or> fp_lt fp (d_max rng) val)
         then Some (WLPARAM_OUTSIDE_RANGE, [TSE_INVALID_VALUE], mem)
         else wlp_done (put_float env off val mem))
      else if wlp_type wlp \<in> {WLP_FILE_PATH, WLP_RAW_STRING} then
        (case json_as_string (Some node) of
           None \<Rightarrow> None
         | Some s \<Rightarrow>
             if length (cstr s) < str_length rng then wlp_done (strcpy_to off (cstr s) mem)
             else Some (WLPARAM_OUTSIDE_RANGE, [TSE_INVALID_VALUE], mem))
      else if wlp_type wlp = WLP_STRING_SET then
        (case json_as_string (Some node) of None \<Rightarrow> None | Some s \<Rightarrow> tsobj_wlparam_strset_proc (cstr s) wlp off mem)
      else if wlp_type wlp \<in> {WLP_CPU_OBJECT, WLP_DISK} then
        (case json_as_string (Some node) of None \<Rightarrow> None | Some s \<Rightarrow> tsobj_wlparam_hiobj_proc env (cstr s) wlp off mem)
      else Some (WLPARAM_OK, [], mem))"

text \<open>The switch of \<open>wlparam_set_default\<close> has no case for objects of the host.\<close>

definition wlparam_set_default :: "'d wlp_env \<Rightarrow> 'd wlp_descr \<Rightarrow> nat \<Rightarrow> char list \<Rightarrow> wlparam_result" where
  "wlparam_set_default env wlp off mem =
     (let dv = wlp_defval wlp in
      if \<not> d_enabled dv then Some (WLPARAM_NO_DEFAULT, [TSE_INTERNAL_ERROR], mem)
      else if wlp_type wlp = WLP_BOOL then wlp_done (put_bool off (d_b dv) mem)
      else if wlp_type wlp \<in> {WLP_SIZE, WLP_TIME, WLP_INTEGER} then wlp_done (put_integer off (d_i dv) mem)
      else if wlp_type wlp = WLP_FLOAT then wlp_done (put_float env off (d_f dv) mem)
      else if wlp_type wlp \<in> {WLP_FILE_PATH, WLP_RAW_STRING} then
        (case d_s dv of None \<Rightarrow> None | Some s \<Rightarrow> wlp_done (strcpy_to off s mem))
      else if wlp_type wlp = WLP_STRING_SET then wlp_done (put_strset off (d_ssi dv) mem)
      else Some (WLPARAM_OK, [], mem))"

section \<open>Description of parameters as JSON\<close>

definition wlt_type_tsobj_classes :: "wlp_type \<Rightarrow> string" where
  "wlt_type_tsobj_classes t = ''tsload.wlparam.WLParam'' @
     (case t of
        WLP_NULL \<Rightarrow> ''Null'' | WLP_BOOL \<Rightarrow> ''Boolean'' | WLP_INTEGER \<Rightarrow> ''Integer'' | WLP_FLOAT \<Rightarrow> ''Float''
      | WLP_RAW_STRING \<Rightarrow> ''String'' | WLP_STRING_SET \<Rightarrow> ''StringSet'' | WLP_SIZE \<Rightarrow> ''Size'' | WLP_TIME \<Rightarrow> ''Time''
      | WLP_FILE_PATH \<Rightarrow> ''FilePath'' | WLP_CPU_OBJECT \<Rightarrow> ''CPUObject'' | WLP_DISK \<Rightarrow> ''Disk'' | _ \<Rightarrow> [])"

fun strset_format_loop :: "nat \<Rightarrow> string list \<Rightarrow> 'd json_node \<Rightarrow> 'd json_node" where
  "strset_format_loop i [] node = node"
| "strset_format_loop i (s # ss) node =
     strset_format_loop (Suc i) ss (json_add_integer node (Some (json_str_create s)) (int i))"

definition tsobj_wlparam_strset_format :: "'d wlp_descr \<Rightarrow> 'd json_node" where
  "tsobj_wlparam_strset_format wlp =
     strset_format_loop 0 (take (ss_num (wlp_range wlp)) (ss_strings (wlp_range wlp))) (json_new_node None)"

definition add_attr :: "string \<Rightarrow> 'd json_node \<Rightarrow> 'd json_node \<Rightarrow> 'd json_node" where
  "add_attr name val node = json_add_node node (Some (JSON_STR name)) val"

definition add_if :: "bool \<Rightarrow> string \<Rightarrow> 'd json_node \<Rightarrow> 'd json_node \<Rightarrow> 'd json_node" where
  "add_if b name val node = (if b then add_attr name val node else node)"

definition tsobj_wlparam_format :: "'d wlp_descr \<Rightarrow> 'd json_node" where
  "tsobj_wlparam_format wlp =
     (let rng = wlp_range wlp; dv = wlp_defval wlp; t = wlp_type wlp;
          node = json_new_node (Some (wlt_type_tsobj_classes t));
          node1 =
            (if t = WLP_BOOL then add_if (d_enabled dv) ''default'' (json_new_boolean (d_b dv)) node
             else if t \<in> {WLP_SIZE, WLP_TIME, WLP_INTEGER} then
               add_if (d_enabled dv) ''default'' (json_new_integer (d_i dv))
                 (add_if (r_range rng) ''max'' (json_new_integer (i_max rng))
                   (add_if (r_range rng) ''min'' (json_new_integer (i_min rng)) node))
             else if t = WLP_FLOAT then
               add_if (d_enabled dv) ''default'' (json_new_double (d_f dv))
                 (add_if (r_range rng) ''max'' (json_new_double (d_max rng))
                   (add_if (r_range rng) ''min'' (json_new_double (d_min rng)) node))
             else if t \<in> {WLP_FILE_PATH, WLP_CPU_OBJECT, WLP_DISK, WLP_RAW_STRING} then
               add_if (d_enabled dv) ''default'' (json_new_string (json_str_create (the (d_s dv))))
                 (add_attr ''len'' (json_new_integer (int (str_length rng))) node)
             else if t = WLP_STRING_SET then
               add_if (d_enabled dv) ''default'' (json_new_integer (d_ssi dv))
                 (add_attr ''strset'' (tsobj_wlparam_strset_format wlp) node)
             else node)
      in add_attr ''description'' (json_new_string (json_str_create (wlp_description wlp)))
           (add_attr ''flags'' (json_new_integer (sint (wlp_flags wlp))) node1))"

fun tsobj_wlparam_format_all :: "'d wlp_descr list \<Rightarrow> 'd json_node \<Rightarrow> 'd json_node" where
  "tsobj_wlparam_format_all [] node = node"
| "tsobj_wlparam_format_all (wlp # wlps) node =
     tsobj_wlparam_format_all wlps (json_add_node node (Some (json_str_create (wlp_name wlp))) (tsobj_wlparam_format wlp))"

section \<open>Typing of the memory\<close>

text \<open>The bytes of a slot, and what they hold: a value of the type of the parameter.\<close>

definition wlp_size :: "'d wlp_descr \<Rightarrow> nat" where
  "wlp_size wlp =
     (case wlp_get_base_type wlp of
        WLP_BOOL \<Rightarrow> 4 | WLP_INTEGER \<Rightarrow> 8 | WLP_FLOAT \<Rightarrow> 8 | WLP_RAW_STRING \<Rightarrow> str_length (wlp_range wlp)
      | WLP_STRING_SET \<Rightarrow> 4 | WLP_HI_OBJECT \<Rightarrow> 8 | _ \<Rightarrow> 0)"

datatype 'd wlp_value = VBool bool | VInteger int | VFloat 'd | VString string | VStrset nat | VObject "64 word"

fun value_bytes :: "'d wlp_env \<Rightarrow> 'd wlp_value \<Rightarrow> char list" where
  "value_bytes env (VBool b) = word_bytes 4 (if b then 1 else 0 :: 32 word)"
| "value_bytes env (VInteger i) = word_bytes 8 (of_int i :: 64 word)"
| "value_bytes env (VFloat d) = we_dbl env d"
| "value_bytes env (VString s) = s @ [NUL]"
| "value_bytes env (VStrset i) = word_bytes 4 (of_nat i :: 32 word)"
| "value_bytes env (VObject p) = word_bytes 8 p"

definition value_of_type :: "'d wlp_descr \<Rightarrow> 'd wlp_value \<Rightarrow> bool" where
  "value_of_type wlp v =
     (case v of
        VBool b \<Rightarrow> wlp_get_base_type wlp = WLP_BOOL
      | VInteger i \<Rightarrow> wlp_get_base_type wlp = WLP_INTEGER \<and> - (2 ^ 63) \<le> i \<and> i < 2 ^ 63
      | VFloat d \<Rightarrow> wlp_get_base_type wlp = WLP_FLOAT
      | VString s \<Rightarrow> wlp_get_base_type wlp = WLP_RAW_STRING \<and> length s < str_length (wlp_range wlp) \<and> NUL \<notin> set s
      | VStrset i \<Rightarrow> wlp_get_base_type wlp = WLP_STRING_SET \<and> i < ss_num (wlp_range wlp)
      | VObject p \<Rightarrow> wlp_get_base_type wlp = WLP_HI_OBJECT)"

definition value_in_range :: "'d fpops \<Rightarrow> 'd wlp_descr \<Rightarrow> 'd wlp_value \<Rightarrow> bool" where
  "value_in_range fp wlp v =
     (let rng = wlp_range wlp in
      case v of
        VInteger i \<Rightarrow> r_range rng \<longrightarrow> i_min rng \<le> i \<and> i \<le> i_max rng
      | VFloat d \<Rightarrow> r_range rng \<longrightarrow> \<not> fp_lt fp d (d_min rng) \<and> \<not> fp_lt fp (d_max rng) d
      | _ \<Rightarrow> True)"

definition slot_holds :: "'d wlp_env \<Rightarrow> nat \<Rightarrow> 'd wlp_value \<Rightarrow> char list \<Rightarrow> bool" where
  "slot_holds env off v mem \<longleftrightarrow> off + length (value_bytes env v) \<le> length mem \<and>
     peek off (length (value_bytes env v)) mem = value_bytes env v"

lemma value_bytes_size:
  assumes "value_of_type wlp v" "\<And>d. length (we_dbl env d) = 8"
  shows "length (value_bytes env v) \<le> wlp_size wlp"
  using assms by (cases v) (auto simp: value_of_type_def wlp_size_def)

text \<open>What \<open>wlparam.c\<close> writes for one parameter: one value of its type, in its range.\<close>

definition stores_value :: "'d wlp_env \<Rightarrow> 'd wlp_descr \<Rightarrow> nat \<Rightarrow> char list \<Rightarrow> char list \<Rightarrow> bool" where
  "stores_value env wlp off mem mem' \<longleftrightarrow>
     (\<exists>v. value_of_type wlp v \<and> value_in_range (we_fp env) wlp v \<and> mem' = poke off (value_bytes env v) mem)"

definition descr_ok :: "'d wlp_env \<Rightarrow> 'd wlp_descr \<Rightarrow> bool" where
  "descr_ok env wlp \<longleftrightarrow> wlp_type wlp \<notin> {WLP_NULL, WLP_TYPE_MAX, WLP_HI_OBJECT} \<and>
     ss_num (wlp_range wlp) = length (ss_strings (wlp_range wlp))"

lemma strset_search_sound:
  "strset_search str i n ss = Some (Some j) \<Longrightarrow> i \<le> j \<and> j < i + n \<and> j - i < length ss \<and> ss ! (j - i) = str"
proof (induction str i n ss rule: strset_search.induct)
  case (3 str i n s ss)
  then show ?case by (auto simp: nth_Cons' split: if_splits)
qed auto

lemma strset_search_total: "n \<le> length ss \<Longrightarrow> strset_search str i n ss \<noteq> None"
  by (induction str i n ss rule: strset_search.induct) auto

lemma strset_search_complete:
  "n \<le> length ss \<Longrightarrow> strset_search str i n ss = Some None \<Longrightarrow> str \<notin> set (take n ss)"
  by (induction str i n ss rule: strset_search.induct) (auto split: if_splits)

lemma mem_put_fits: "off + length bs \<le> length mem \<Longrightarrow> mem_put off bs mem = Some (poke off bs mem)"
  by (simp add: mem_put_def)

lemmas put_defs = put_bool_def put_integer_def put_float_def put_strset_def put_hiobject_def strcpy_to_def

text \<open>A tree in which every string node has a string, and counts and names are right.\<close>

fun jn_strings :: "'d json_node \<Rightarrow> bool" where
  "jn_strings (Json_Node n t i u d c ch) \<longleftrightarrow>
     (case d of JStr _ \<Rightarrow> True | _ \<Rightarrow> t \<noteq> JSON_STRING) \<and> (\<forall>x \<in> set ch. jn_strings x)"

lemma json_as_string_some:
  assumes "jn_strings node" "json_check_type (Some node) JSON_STRING = JSON_OK"
  obtains s where "json_as_string (Some node) = Some s"
  using assms by (cases node) (auto simp: json_as_string_def json_check_type_def split: if_splits jn_data.splits)

lemma sint_of_int_bounds: "- (2 ^ 63) \<le> sint (of_int i :: 64 word)" "sint (of_int i :: 64 word) < 2 ^ 63"
  using sint_ge [of "of_int i :: 64 word"] sint_lt [of "of_int i :: 64 word"] by simp_all

lemma cstr_no_NUL: "NUL \<notin> set (cstr s)"
  by (auto simp: cstr_def dest: set_takeWhileD)

lemmas wlp_types = value_of_type_def value_in_range_def wlp_get_base_type_def wlp_base_types_def

text \<open>\<open>wlp_done\<close> of a write that fits stores the value.\<close>

lemma wlp_done_stores:
  assumes "put = mem_put off (value_bytes env v) mem" "value_of_type wlp v" "value_in_range (we_fp env) wlp v"
    "off + wlp_size wlp \<le> length mem" "\<And>d. length (we_dbl env d) = 8"
  shows "\<exists>mem'. wlp_done put = Some (WLPARAM_OK, [], mem') \<and> stores_value env wlp off mem mem'"
  using value_bytes_size [OF assms(2,5)] assms(1-4)
  by (auto simp: wlp_done_def mem_put_fits stores_value_def)

text \<open>
  A value from the configuration is stored, or rejected without a change of the memory; nothing is written
  outside of the slot.
\<close>

lemma tsobj_wlparam_proc_stores:
  assumes "jn_strings node" "descr_ok env wlp" "off + wlp_size wlp \<le> length mem" "\<And>d. length (we_dbl env d) = 8"
  shows "(\<exists>mem'. tsobj_wlparam_proc env node wlp off mem = Some (WLPARAM_OK, [], mem') \<and> stores_value env wlp off mem mem') \<or>
     (\<exists>ret err. tsobj_wlparam_proc env node wlp off mem = Some (ret, [err], mem) \<and> ret \<in> {WLPARAM_TSOBJ_BAD, WLPARAM_OUTSIDE_RANGE})"
    (is "?ok \<or> ?bad")
proof (cases "json_check_type (Some node) (wlp_tsobj_type (wlp_type wlp)) = JSON_OK")
  case False
  then show ?thesis by (simp add: tsobj_wlparam_proc_def Let_def)
next
  case True
  note stored = wlp_done_stores [OF _ _ _ assms(3,4)] and proc = tsobj_wlparam_proc_def Let_def
  have str: "\<exists>s. json_as_string (Some node) = Some s" if "wlp_tsobj_type (wlp_type wlp) = JSON_STRING"
    using json_as_string_some [OF assms(1)] True that by metis
  consider (bool) "wlp_type wlp = WLP_BOOL" | (int) "wlp_type wlp \<in> {WLP_SIZE, WLP_TIME, WLP_INTEGER}"
    | (float) "wlp_type wlp = WLP_FLOAT" | (string) "wlp_type wlp \<in> {WLP_FILE_PATH, WLP_RAW_STRING}"
    | (strset) "wlp_type wlp = WLP_STRING_SET" | (hiobj) "wlp_type wlp \<in> {WLP_CPU_OBJECT, WLP_DISK}"
    using assms(2) by (cases "wlp_type wlp") (auto simp: descr_ok_def)
  then show ?thesis
  proof cases
    case bool
    then have ?ok using True stored [where v = "VBool (json_as_boolean (Some node))"]
      by (simp add: proc put_defs wlp_types)
    then show ?thesis ..
  next
    case int
    define val where "val = sint (of_int (json_as_integer (Some node)) :: 64 word)"
    have b: "- (2 ^ 63) \<le> val" "val < 2 ^ 63" unfolding val_def by (rule sint_of_int_bounds)+
    have "tsobj_wlparam_proc env node wlp off mem =
        (if r_range (wlp_range wlp) \<and> (val < i_min (wlp_range wlp) \<or> val > i_max (wlp_range wlp))
         then Some (WLPARAM_OUTSIDE_RANGE, [TSE_INVALID_VALUE], mem) else wlp_done (put_integer off val mem))"
      using int True by (auto simp: proc val_def)
    then show ?thesis using int b stored [where v = "VInteger val"] by (auto simp: put_defs wlp_types)
  next
    case float
    then show ?thesis using True stored [where v = "VFloat (json_as_double (fp_of_int (we_fp env) 0) (Some node))"]
      by (auto simp: proc put_defs wlp_types)
  next
    case string
    then obtain s where "json_as_string (Some node) = Some s" using str by (auto simp: wlp_tsobj_type_def)
    then show ?thesis using string True stored [where v = "VString (cstr s)"] cstr_no_NUL [of s]
      by (auto simp: proc put_defs wlp_types)
  next
    case strset
    then obtain s where s: "json_as_string (Some node) = Some s" using str by (auto simp: wlp_tsobj_type_def)
    obtain r where r: "strset_search (cstr s) 0 (ss_num (wlp_range wlp)) (ss_strings (wlp_range wlp)) = Some r"
      using strset_search_total assms(2) by (fastforce simp: descr_ok_def)
    show ?thesis
    proof (cases r)
      case None
      then show ?thesis using strset True s r by (simp add: proc tsobj_wlparam_strset_proc_def)
    next
      case (Some i)
      then have ?ok using strset True s r strset_search_sound [OF r [unfolded Some]] stored [where v = "VStrset i"]
        by (simp add: proc tsobj_wlparam_strset_proc_def put_defs wlp_types)
      then show ?thesis ..
    qed
  next
    case hiobj
    then obtain s where s: "json_as_string (Some node) = Some s" using str by (auto simp: wlp_tsobj_type_def)
    define found where "found = (if wlp_type wlp = WLP_CPU_OBJECT then we_cpu_find env (cstr s) else we_dsk_find env (cstr s))"
    have p: "tsobj_wlparam_proc env node wlp off mem =
        (case found of None \<Rightarrow> Some (WLPARAM_OUTSIDE_RANGE, [TSE_INVALID_VALUE], mem)
         | Some q \<Rightarrow> wlp_done (put_hiobject off q mem))"
      using hiobj True s by (auto simp: proc tsobj_wlparam_hiobj_proc_def found_def)
    show ?thesis
    proof (cases found)
      case (Some q)
      then show ?thesis using p hiobj stored [where v = "VObject q"] by (auto simp: put_defs wlp_types)
    qed (simp add: p)
  qed
qed

text \<open>A default value that fits its parameter; there is none for an object of the host.\<close>

definition default_value :: "'d wlp_descr \<Rightarrow> 'd wlp_value option" where
  "default_value wlp =
     (let dv = wlp_defval wlp in
      case wlp_get_base_type wlp of
        WLP_BOOL \<Rightarrow> Some (VBool (d_b dv)) | WLP_INTEGER \<Rightarrow> Some (VInteger (d_i dv)) | WLP_FLOAT \<Rightarrow> Some (VFloat (d_f dv))
      | WLP_RAW_STRING \<Rightarrow> map_option VString (d_s dv)
      | WLP_STRING_SET \<Rightarrow> if d_ssi dv < 0 then None else Some (VStrset (nat (d_ssi dv))) | _ \<Rightarrow> None)"

definition default_ok :: "'d wlp_env \<Rightarrow> 'd wlp_descr \<Rightarrow> bool" where
  "default_ok env wlp \<longleftrightarrow> d_enabled (wlp_defval wlp) \<and>
     (case default_value wlp of None \<Rightarrow> False | Some v \<Rightarrow> value_of_type wlp v \<and> value_in_range (we_fp env) wlp v)"

lemma wlparam_set_default_eq:
  assumes "default_ok env wlp" "wlp_get_base_type wlp \<noteq> WLP_HI_OBJECT"
  shows "wlparam_set_default env wlp off mem = wlp_done (mem_put off (value_bytes env (the (default_value wlp))) mem)"
  using assms by (cases "wlp_type wlp")
    (simp_all add: default_ok_def default_value_def wlparam_set_default_def Let_def wlp_get_base_type_def
      wlp_base_types_def put_defs split: option.splits if_splits)

lemma wlparam_set_default_stores:
  assumes "default_ok env wlp" "off + wlp_size wlp \<le> length mem" "\<And>d. length (we_dbl env d) = 8"
  shows "\<exists>mem'. wlparam_set_default env wlp off mem = Some (WLPARAM_OK, [], mem') \<and> stores_value env wlp off mem mem'"
proof -
  have "wlp_get_base_type wlp \<noteq> WLP_HI_OBJECT" using assms(1) by (auto simp: default_ok_def default_value_def Let_def)
  moreover obtain v where "default_value wlp = Some v" "value_of_type wlp v" "value_in_range (we_fp env) wlp v"
    using assms(1) by (auto simp: default_ok_def split: option.splits)
  ultimately show ?thesis using wlp_done_stores [OF refl _ _ assms(2,3), of v] wlparam_set_default_eq [OF assms(1)] by simp
qed

lemma stores_value_holds:
  assumes "stores_value env wlp off mem mem'" "off + wlp_size wlp \<le> length mem" "\<And>d. length (we_dbl env d) = 8"
  shows "length mem' = length mem \<and>
     (\<exists>v. value_of_type wlp v \<and> value_in_range (we_fp env) wlp v \<and> slot_holds env off v mem')"
proof -
  obtain v where v: "value_of_type wlp v" "value_in_range (we_fp env) wlp v" "mem' = poke off (value_bytes env v) mem"
    using assms(1) by (auto simp: stores_value_def)
  have sz: "off + length (value_bytes env v) \<le> length mem" using value_bytes_size [OF v(1) assms(3)] assms(2) by simp
  then have "length mem' = length mem" by (simp add: v(3) length_poke)
  moreover have "slot_holds env off v mem'" using sz by (simp add: slot_holds_def v(3) peek_poke length_poke)
  ultimately show ?thesis using v by blast
qed

lemma slot_holds_poke_other:
  assumes "slot_holds env off v mem" "off' + length bs \<le> off \<or> off + length (value_bytes env v) \<le> off'"
    "off' + length bs \<le> length mem"
  shows "slot_holds env off v (poke off' bs mem)"
  using assms by (auto simp: slot_holds_def peek_poke_before peek_poke_behind length_poke)

end
