(* ===== verification/RandGenProps.thy ===== *)
theory RandGenProps
  imports RandGen
begin

text \<open>
  Properties of the generators and variators: the period of the linear congruential generator, the exact value
  and the bounds of the numbers from the unit interval, termination of the Erlang variator, and what a
  configured variator guarantees.
\<close>

section \<open>The numbers a generator delivers\<close>

definition rg_next :: "randgen \<Rightarrow> randgen" where
  "rg_next rg = snd (rg_generate_int rg)"

definition rg_nth_int :: "randgen \<Rightarrow> nat \<Rightarrow> 64 word" where
  "rg_nth_int rg n = fst (rg_generate_int ((rg_next ^^ n) rg))"

definition rg_new :: "randgen_class \<Rightarrow> 64 word \<Rightarrow> randgen" where
  "rg_new cls seed = (case rg_create cls seed (Some 0) of (RG_NEW a rg, _) \<Rightarrow> rg | _ \<Rightarrow> undefined)"

lemma rg_class_next [simp]: "rg_class (rg_next rg) = rg_class rg"
  by (simp add: rg_next_def rg_generate_int_def split: prod.split)

lemma rg_class_next_pow [simp]: "rg_class ((rg_next ^^ n) rg) = rg_class rg"
  by (induction n) simp_all

lemma rg_nth_int_Suc: "rg_nth_int rg (Suc n) = rg_nth_int (rg_next rg) n"
  by (simp add: rg_nth_int_def funpow_swap1)

lemma rg_nth_int_0: "rg_nth_int rg 0 = fst (rg_generate_int rg)"
  by (simp add: rg_nth_int_def)

subsection \<open>Geometric sums of a multiplier that is one modulo four\<close>

lemma odd_power_sum: "odd a \<Longrightarrow> even (\<Sum>i<n. a ^ i) \<longleftrightarrow> even n" for a :: int
  by (induction n) auto

lemma one_plus_power:
  fixes a :: int assumes "a mod 4 = 1"
  obtains q where "1 + a ^ m = 2 * q" "odd q"
proof -
  have "(a ^ m) mod 4 = 1" using power_mod [of a 4 m] assms by simp
  then obtain k where "a ^ m = 4 * k + 1" by (metis mult_div_mod_eq)
  then have "1 + a ^ m = 2 * (2 * k + 1)" by simp
  then show thesis using that [of "2 * k + 1"] by simp
qed

lemma power_sum_double: "(\<Sum>i<2 * m. a ^ i) = (\<Sum>i<m. a ^ i) * (1 + a ^ m)" for a :: int
proof -
  have "(\<Sum>i<2 * m. a ^ i) = (\<Sum>i<m. a ^ i) + (\<Sum>i=m..<m + m. a ^ i)"
    by (simp add: mult_2 lessThan_atLeast0 sum.atLeastLessThan_concat)
  also have "(\<Sum>i=m..<m + m. a ^ i) = (\<Sum>i<m. a ^ i) * a ^ m"
    using sum.shift_bounds_nat_ivl [of "\<lambda>i. a ^ i" 0 m m]
    by (simp add: lessThan_atLeast0 power_add sum_distrib_right)
  finally show ?thesis by (simp add: algebra_simps)
qed

lemma power_dvd_power_sum:
  fixes a :: int assumes "a mod 4 = 1"
  shows "2 ^ k dvd (\<Sum>i<n. a ^ i) \<longleftrightarrow> 2 ^ k dvd n"
proof (induction k arbitrary: n)
  case (Suc k)
  have odd: "odd a" using assms by presburger
  show ?case
  proof (cases "even n")
    case False
    then show ?thesis using odd_power_sum [OF odd, of n] by (metis dvd_mult_left power_Suc)
  next
    case True
    then obtain m where n: "n = 2 * m" by blast
    obtain q where q: "1 + a ^ m = 2 * q" "odd q" using one_plus_power [OF assms] .
    have "2 ^ Suc k dvd (\<Sum>i<n. a ^ i) \<longleftrightarrow> 2 * 2 ^ k dvd 2 * ((\<Sum>i<m. a ^ i) * q)"
      by (simp add: n power_sum_double q(1) mult.left_commute)
    also have "\<dots> \<longleftrightarrow> 2 ^ k dvd (\<Sum>i<m. a ^ i) * q" by simp
    also have "\<dots> \<longleftrightarrow> 2 ^ k dvd (\<Sum>i<m. a ^ i)"
      using q(2) by (simp add: coprime_dvd_mult_left_iff)
    finally show ?thesis by (simp add: Suc n)
  qed
qed simp

subsection \<open>The linear congruential generator\<close>

definition lcg_step :: "64 word \<Rightarrow> 64 word" where
  "lcg_step s = rg_lcg_multiplier * s + rg_lcg_increment"

lemma lcg_step_pow:
  "(lcg_step ^^ n) s = s + ((rg_lcg_multiplier - 1) * s + rg_lcg_increment) * (\<Sum>i<n. rg_lcg_multiplier ^ i)"
proof (induction n)
  case (Suc n)
  have sum: "(\<Sum>i<Suc n. rg_lcg_multiplier ^ i) = rg_lcg_multiplier * (\<Sum>i<n. rg_lcg_multiplier ^ i) + 1"
    by (subst sum.lessThan_Suc_shift) (simp add: sum_distrib_left)
  show ?case by (simp only: funpow.simps o_apply Suc sum) (simp add: lcg_step_def algebra_simps)
qed simp

lemma lcg_step_fix: "(lcg_step ^^ n) s = s \<longleftrightarrow> 2 ^ 64 dvd n"
proof -
  define A C :: int where AC: "A = 6364136223846793005" "C = 1442695040888963407"
  have w: "rg_lcg_multiplier = of_int A" "rg_lcg_increment = of_int C" "s = of_int (uint s)"
    by (simp_all add: AC rg_lcg_multiplier_def rg_lcg_increment_def)
  define D where "D = (A - 1) * uint s + C"
  have "odd D" by (simp add: D_def AC)
  have "(lcg_step ^^ n) s = s \<longleftrightarrow> (of_int (D * (\<Sum>i<n. A ^ i)) :: 64 word) = 0"
    by (subst lcg_step_pow) (simp add: D_def w(1,2))
  also have "\<dots> \<longleftrightarrow> 2 ^ 64 dvd D * (\<Sum>i<n. A ^ i)" by (simp only: word_of_int_eq_0_iff) simp
  also have "\<dots> \<longleftrightarrow> 2 ^ 64 dvd (\<Sum>i<n. A ^ i)"
    by (rule coprime_dvd_mult_right_iff) (use \<open>odd D\<close> in \<open>simp only: coprime_power_left_iff coprime_left_2_iff_odd simp_thms\<close>)
  also have "\<dots> \<longleftrightarrow> 2 ^ 64 dvd n" by (rule power_dvd_power_sum) (simp add: AC)
  finally show ?thesis .
qed

lemma rg_private_lcg: "rg_class rg = rg_lcg_class \<Longrightarrow> rg_private ((rg_next ^^ n) rg) = (lcg_step ^^ n) (rg_private rg)"
  by (induction n)
     (simp_all add: rg_next_def rg_generate_int_def rg_lcg_class_def RG_CLASS_HEAD_def rg_generate_int_lcg_def Let_def lcg_step_def)

lemma rg_nth_int_lcg: "rg_class rg = rg_lcg_class \<Longrightarrow> rg_nth_int rg n = (lcg_step ^^ Suc n) (rg_private rg)"
  by (simp add: rg_nth_int_def rg_generate_int_def rg_private_lcg)
     (simp add: rg_lcg_class_def RG_CLASS_HEAD_def rg_generate_int_lcg_def Let_def lcg_step_def)

lemma rg_private_seq: "rg_class rg = rg_seq_class \<Longrightarrow> rg_private ((rg_next ^^ n) rg) = rg_private rg + of_nat n"
  by (induction n)
     (simp_all add: rg_next_def rg_generate_int_def rg_seq_class_def RG_CLASS_HEAD_def rg_generate_int_seq_def)

lemma rg_nth_int_seq: "rg_class rg = rg_seq_class \<Longrightarrow> rg_nth_int rg n = rg_private rg + of_nat n"
  by (simp add: rg_nth_int_def rg_generate_int_def rg_private_seq)
     (simp add: rg_seq_class_def RG_CLASS_HEAD_def rg_generate_int_seq_def)

text \<open>A generator that repeats a number only after all \<open>2 ^ 64\<close> others.\<close>

definition full_period :: "randgen \<Rightarrow> bool" where
  "full_period rg \<longleftrightarrow> rg_max (rg_class rg) = ULLONG_MAX \<and>
     (\<forall>i j. i < j \<longrightarrow> rg_nth_int rg i = rg_nth_int rg j \<longrightarrow> 2 ^ 64 dvd j - i)"

lemma full_period_lcg: "rg_class rg = rg_lcg_class \<Longrightarrow> full_period rg"
proof (unfold full_period_def, intro conjI allI impI)
  fix i j :: nat assume rg: "rg_class rg = rg_lcg_class" and ij: "i < j" "rg_nth_int rg i = rg_nth_int rg j"
  define t where "t = (lcg_step ^^ Suc i) (rg_private rg)"
  have "(lcg_step ^^ (j - i)) t = (lcg_step ^^ Suc j) (rg_private rg)"
    using ij(1) by (simp only: t_def funpow_add [symmetric, THEN fun_cong, simplified o_apply]) simp
  then have "(lcg_step ^^ (j - i)) t = t" using ij(2) by (simp add: rg_nth_int_lcg [OF rg] t_def)
  then show "2 ^ 64 dvd j - i" by (simp only: lcg_step_fix)
qed (simp add: rg_lcg_class_def RG_CLASS_HEAD_def)

lemma full_period_seq: "rg_class rg = rg_seq_class \<Longrightarrow> full_period rg"
proof (unfold full_period_def, intro conjI allI impI)
  fix i j :: nat assume rg: "rg_class rg = rg_seq_class" and ij: "i < j" "rg_nth_int rg i = rg_nth_int rg j"
  from ij(2) have "(of_nat j :: 64 word) - of_nat i = 0" by (simp add: rg_nth_int_seq [OF rg])
  then have "(of_nat (j - i) :: 64 word) = 0" using ij(1) by (simp add: of_nat_diff)
  then show "2 ^ 64 dvd j - i" by (simp only: word_of_nat_eq_0_iff) simp
qed (simp add: rg_seq_class_def RG_CLASS_HEAD_def)

lemma full_period_next: "full_period rg \<Longrightarrow> full_period (rg_next rg)"
  unfolding full_period_def by (auto simp flip: rg_nth_int_Suc) (metis Suc_less_eq diff_Suc_Suc)

lemma full_period_bij:
  assumes "full_period rg"
  shows "bij_betw (rg_nth_int rg) {..<2 ^ 64} UNIV"
proof -
  have inj: "inj_on (rg_nth_int rg) {..<2 ^ 64}"
  proof (rule linorder_inj_onI')
    fix i j :: nat assume ij: "i \<in> {..<2 ^ 64}" "j \<in> {..<2 ^ 64}" "i < j"
    show "rg_nth_int rg i \<noteq> rg_nth_int rg j"
    proof
      assume "rg_nth_int rg i = rg_nth_int rg j"
      then have "2 ^ 64 dvd j - i" using assms ij(3) by (simp add: full_period_def)
      moreover have "0 < j - i" "j - i < 2 ^ 64" using ij by auto
      ultimately show False using dvd_imp_le by fastforce
    qed
  qed
  have "rg_nth_int rg ` {..<2 ^ 64} = UNIV"
    by (rule card_subset_eq) (simp_all only: card_image [OF inj] card_lessThan card_word finite_class.finite_UNIV, simp_all)
  then show ?thesis using inj by (simp add: bij_betw_def)
qed

text \<open>C23. The linear congruential generator delivers every 64-bit number exactly once in \<open>2 ^ 64\<close> calls, for every seed.\<close>

theorem rg_lcg_full_period: "bij_betw (rg_nth_int (rg_new rg_lcg_class seed)) {..<2 ^ 64} UNIV"
proof (rule full_period_bij, rule full_period_lcg)
  show "rg_class (rg_new rg_lcg_class seed) = rg_lcg_class"
    by (simp add: rg_new_def rg_create_def rg_lcg_class_def RG_CLASS_HEAD_def rg_init_lcg_def Let_def)
qed

section \<open>Numbers of the unit interval\<close>

lemma div_mod_quotient:
  fixes r m :: "64 word" assumes "r \<noteq> 0"
  shows "of_int (uint (m div r)) + of_int (uint (m mod r)) / of_int (uint r) = (of_int (uint m) / of_int (uint r) :: real)"
proof -
  have pos: "uint r \<noteq> 0" using assms by (simp add: uint_0_iff)
  have "uint (m div r) * uint r + uint (m mod r) = uint m" by (simp add: uint_div uint_mod)
  then have "of_int (uint (m div r)) * of_int (uint r) + of_int (uint (m mod r)) = (of_int (uint m) :: real)"
    by (metis of_int_add of_int_mult)
  then show ?thesis using pos by (simp add: field_simps del: of_int_uint)
qed

lemma rg_generate_double_real:
  "fst (rg_generate_double real_ops rg) = of_int (uint (fst (rg_generate_int rg))) / of_int (uint (rg_max (rg_class rg)))"
  "snd (rg_generate_double real_ops rg) = rg_next rg"
  by (auto simp: rg_generate_double_def rg_next_def Let_def div_mod_quotient simp del: of_int_uint split: prod.split)

lemma unit_quotient:
  fixes r m :: "64 word" assumes "r \<le> m" "m \<noteq> 0"
  defines "q \<equiv> of_int (uint r) / of_int (uint m) :: real"
  shows "0 \<le> q" "q \<le> 1" "q = 0 \<longleftrightarrow> r = 0" "q = 1 \<longleftrightarrow> r = m"
proof -
  have "0 < uint m" using assms(2) by (metis uint_0_iff uint_ge_0 order_le_less)
  moreover have "uint r \<le> uint m" using assms(1) by (simp add: word_le_def)
  ultimately show "0 \<le> q" "q \<le> 1" "q = 0 \<longleftrightarrow> r = 0" "q = 1 \<longleftrightarrow> r = m"
    by (auto simp: q_def uint_0_iff divide_le_eq word_uint_eqI simp del: of_int_uint)
qed

text \<open>
  In exact arithmetic the division with remainder of \<open>rg_generate_double\<close> yields the quotient of the number drawn
  and the maximum of the class: it lies between 0 and 1, it is 0 only for the number 0, and it is 1
  for the maximum, so that 1 itself is possible.
\<close>

theorem rg_generate_double_unit:
  assumes "rg_generate_double real_ops rg = (u, rg')" "rg_generate_int rg = (r, rg1)" "r \<le> rg_max (rg_class rg)"
    "rg_max (rg_class rg) \<noteq> 0"
  shows "u = of_int (uint r) / of_int (uint (rg_max (rg_class rg))) \<and> rg' = rg1 \<and> 0 \<le> u \<and> u \<le> 1 \<and>
     (u = 0 \<longleftrightarrow> r = 0) \<and> (u = 1 \<longleftrightarrow> r = rg_max (rg_class rg))"
proof -
  have u: "u = of_int (uint r) / of_int (uint (rg_max (rg_class rg)))" "rg' = rg1"
    using rg_generate_double_real [of rg] assms(1,2) by (simp_all add: rg_next_def del: of_int_uint)
  show ?thesis using unit_quotient [OF assms(3,4)] by (simp add: u del: of_int_uint)
qed

definition demo_rg :: randgen where
  "demo_rg = rg_new rg_seq_class 18446744073709551615"

theorem rg_generate_double_unit_witness:
  "rg_generate_double real_ops demo_rg = (1, demo_rg\<lparr>rg_private := 0\<rparr>)"
proof -
  have rg: "demo_rg = \<lparr>rg_class = rg_seq_class, rg_seed = - 1, rg_private = - 1\<rparr>"
    by (simp add: demo_rg_def rg_new_def rg_create_def rg_init_seq_def Let_def) (simp add: rg_seq_class_def RG_CLASS_HEAD_def rg_init_seq_def)
  have i: "rg_generate_int demo_rg = (- 1, demo_rg\<lparr>rg_private := 0\<rparr>)"
    by (simp add: rg_generate_int_def rg) (simp add: rg_seq_class_def RG_CLASS_HEAD_def rg_generate_int_seq_def)
  have m: "rg_max (rg_class demo_rg) = - 1" by (simp add: rg) (simp add: rg_seq_class_def RG_CLASS_HEAD_def ULLONG_MAX_def)
  obtain u rg' where d: "rg_generate_double real_ops demo_rg = (u, rg')" by fastforce
  show ?thesis using rg_generate_double_unit [OF d i] m d by simp
qed

section \<open>The Erlang variator\<close>

lemma full_period_positive:
  assumes "full_period rg"
  shows "0 < fst (rg_generate_double real_ops rg) \<longleftrightarrow> rg_nth_int rg 0 \<noteq> 0"
    "0 \<le> fst (rg_generate_double real_ops rg)" "fst (rg_generate_double real_ops rg) \<le> 1"
proof -
  have max: "rg_max (rg_class rg) = - 1" using assms by (simp add: full_period_def ULLONG_MAX_def)
  note unit = unit_quotient [of "fst (rg_generate_int rg)" "- 1"]
  show "0 < fst (rg_generate_double real_ops rg) \<longleftrightarrow> rg_nth_int rg 0 \<noteq> 0"
    "0 \<le> fst (rg_generate_double real_ops rg)" "fst (rg_generate_double real_ops rg) \<le> 1"
    using unit by (auto simp: rg_generate_double_real max rg_nth_int_0 order_less_le simp del: of_int_uint)
qed

lemma full_period_step:
  assumes "full_period rg"
  shows "\<exists>u. rg_generate_double real_ops rg = (u, rg_next rg) \<and> (0 < u \<longleftrightarrow> rg_nth_int rg 0 \<noteq> 0) \<and> 0 \<le> u \<and> u \<le> 1"
  using full_period_positive [OF assms] rg_generate_double_real(2) [of rg]
  by (cases "rg_generate_double real_ops rg") auto

text \<open>While no zero is drawn, each round brings the loop nearer to its end.\<close>

lemma erlang_loop_nonzero:
  assumes "full_period rg" "0 < i" "0 < m" "m \<le> 1" "\<And>j. j < nat (n - i) \<Longrightarrow> rg_nth_int rg j \<noteq> 0"
  shows "\<exists>m'. erlang_loop real_ops i n u m rg = Some (m', (rg_next ^^ nat (n - i)) rg) \<and> 0 < m' \<and> m' \<le> 1"
  using assms
proof (induction "nat (n - i)" arbitrary: i u m rg)
  case 0
  then show ?case by (subst erlang_loop.simps) simp
next
  case (Suc k)
  obtain v where v: "rg_generate_double real_ops rg = (v, rg_next rg)" "0 < v" "v \<le> 1"
    using full_period_step [OF Suc.prems(1)] Suc.prems(5) [of 0] Suc.hyps(2) by auto
  have n: "nat (n - i) = Suc (nat (n - (i + 1)))" and "i < n" using Suc.hyps(2) by linarith+
  have "m * v \<le> 1" using mult_mono [of m 1 v 1] Suc.prems(3,4) v by simp
  then have "\<exists>m'. erlang_loop real_ops (i + 1) n v (m * v) (rg_next rg) =
      Some (m', (rg_next ^^ nat (n - (i + 1))) (rg_next rg)) \<and> 0 < m' \<and> m' \<le> 1"
    using Suc.hyps(2) Suc.prems v n
    by (intro Suc.hyps(1)) (auto simp: full_period_next simp flip: rg_nth_int_Suc)
  then show ?case using v Suc.prems(2) n \<open>i < n\<close> by (subst erlang_loop.simps) (simp add: funpow_swap1)
qed

text \<open>At most one zero is drawn, because the next one is a whole period away.\<close>

lemma full_period_zero:
  assumes "full_period rg" "rg_nth_int rg 0 = 0" "j < 2 ^ 64 - 1"
  shows "rg_nth_int (rg_next rg) j \<noteq> 0"
proof
  assume "rg_nth_int (rg_next rg) j = 0"
  then have "2 ^ 64 dvd Suc j - 0" using assms(1,2) unfolding full_period_def by (metis rg_nth_int_Suc zero_less_Suc)
  then have "2 ^ 64 \<le> Suc j" using dvd_imp_le [of "2 ^ 64" "Suc j"] by simp
  then show False using assms(3) by simp
qed

lemma erlang_loop_returns:
  assumes "full_period rg" "0 < i" "0 < m" "m \<le> 1" "n - i < 2 ^ 63"
  shows "\<exists>m' k. erlang_loop real_ops i n u m rg = Some (m', (rg_next ^^ k) rg) \<and> 0 < m' \<and> m' \<le> 1 \<and>
     (k = nat (n - i) \<or> k = Suc (nat (n - i)))"
  using assms
proof (induction "nat (n - i)" arbitrary: i u m rg)
  case 0
  then show ?case by (subst erlang_loop.simps) (auto intro: exI [of _ 0])
next
  case (Suc k)
  obtain v where v: "rg_generate_double real_ops rg = (v, rg_next rg)" "0 < v \<longleftrightarrow> rg_nth_int rg 0 \<noteq> 0" "v \<le> 1"
    using full_period_step [OF Suc.prems(1)] by blast
  have n: "nat (n - i) = Suc (nat (n - (i + 1)))" and "i < n" using Suc.hyps(2) by linarith+
  note next_period = full_period_next [OF Suc.prems(1)]
  show ?case
  proof (cases "0 < v")
    case True
    have "m * v \<le> 1" using mult_mono [of m 1 v 1] Suc.prems(3,4) v(3) True by simp
    then obtain m' l where "erlang_loop real_ops (i + 1) n v (m * v) (rg_next rg) = Some (m', (rg_next ^^ l) (rg_next rg))"
      "0 < m'" "m' \<le> 1" "l = nat (n - (i + 1)) \<or> l = Suc (nat (n - (i + 1)))"
      using Suc.hyps(1) [of "i + 1" "rg_next rg" "m * v" v] Suc.hyps(2) Suc.prems n True next_period by auto
    then show ?thesis using v(1) True Suc.prems(2) n \<open>i < n\<close>
      by (intro exI [of _ m'] exI [of _ "Suc l"], subst erlang_loop.simps) (auto simp: funpow_swap1)
  next
    case False
    then have "rg_nth_int (rg_next rg) j \<noteq> 0" if "j < nat (n + 1 - (i + 1))" for j
      using full_period_zero [OF Suc.prems(1)] v(2) that Suc.prems(5) by simp
    then obtain m' where "erlang_loop real_ops (i + 1) (n + 1) v m (rg_next rg) =
        Some (m', (rg_next ^^ nat (n + 1 - (i + 1))) (rg_next rg))" "0 < m'" "m' \<le> 1"
      using erlang_loop_nonzero [OF next_period, of "i + 1" m "n + 1" v] Suc.prems by auto
    then show ?thesis using v(1) False Suc.prems(2) Suc.hyps(2) \<open>i < n\<close>
      by (intro exI [of _ m'] exI [of _ "Suc (nat (n - i))"], subst erlang_loop.simps) (auto simp: funpow_swap1)
  qed
qed

lemma rv_erlang_returns:
  assumes "full_period rg" "0 < rate" "1 \<le> shape" "shape < 2 ^ 31 - 1"
  shows "\<exists>x k. rv_variate_double real_ops \<lparr>rv_class = rv_erlang_class real_ops, rv_private = RV_ERLANG rate shape\<rparr> rg =
     Some (x, (rg_next ^^ k) rg) \<and> 0 \<le> x \<and> (k = nat shape \<or> k = Suc (nat shape))"
proof -
  obtain u where u: "rg_generate_double real_ops rg = (u, rg_next rg)" "0 < u \<longleftrightarrow> rg_nth_int rg 0 \<noteq> 0" "0 \<le> u" "u \<le> 1"
    using full_period_step [OF assms(1)] by blast
  have n: "sint (of_int shape :: 32 word) = shape" using assms(3,4) by (simp add: signed_of_int signed_take_bit_int_eq_self)
  note period = full_period_next [OF assms(1)]
  have "\<exists>m k. erlang_loop real_ops 0 shape u 1 (rg_next rg) = Some (m, (rg_next ^^ k) (rg_next rg)) \<and> 0 < m \<and> m \<le> 1 \<and>
      (k = nat shape \<or> Suc k = nat shape)"
  proof (cases "0 < u")
    case True
    then obtain m k where "erlang_loop real_ops 1 shape u u (rg_next rg) = Some (m, (rg_next ^^ k) (rg_next rg))"
      "0 < m" "m \<le> 1" "k = nat (shape - 1) \<or> k = Suc (nat (shape - 1))"
      using erlang_loop_returns [OF period, of 1 u shape u] u assms(3,4) by auto
    then show ?thesis using True assms(3) by (subst erlang_loop.simps) auto
  next
    case False
    then have "rg_nth_int (rg_next rg) j \<noteq> 0" if "j < nat (shape + 1 - 1)" for j
      using full_period_zero [OF assms(1)] u(2) that assms(4) by simp
    then obtain m where "erlang_loop real_ops 1 (shape + 1) u 1 (rg_next rg) = Some (m, (rg_next ^^ nat shape) (rg_next rg))"
      "0 < m" "m \<le> 1"
      using erlang_loop_nonzero [OF period, of 1 1 "shape + 1" u] by auto
    then show ?thesis using False assms(3) by (subst erlang_loop.simps) auto
  qed
  then obtain m k where m: "erlang_loop real_ops 0 shape u 1 (rg_next rg) = Some (m, (rg_next ^^ k) (rg_next rg))"
    "0 < m" "m \<le> 1" "k = nat shape \<or> Suc k = nat shape" by blast
  have "0 \<le> ln m / - rate" using m(2,3) assms(2) by (simp add: divide_nonpos_pos)
  then show ?thesis using m
    by (intro exI [of _ "ln m / - rate"] exI [of _ "Suc k"])
       (auto simp: rv_variate_double_def u(1) rv_erlang_class_def n funpow_swap1)
qed

section \<open>Configured variators\<close>

text \<open>The class and the private data fit, and the parameters are in their domain.\<close>

definition rv_ok :: "'d fpops \<Rightarrow> 'd randvar \<Rightarrow> bool" where
  "rv_ok fp rv =
     (case rv_private rv of
        RV_UNIFORM mn mx \<Rightarrow> rv_class rv = rv_uniform_class fp
      | RV_EXP rate \<Rightarrow> rv_class rv = rv_exponential_class fp \<and> \<not> fp_le fp rate (fp_of_int fp 0)
      | RV_ERLANG rate shape \<Rightarrow> rv_class rv = rv_erlang_class fp \<and> \<not> fp_le fp rate (fp_of_int fp 0) \<and> 1 \<le> shape
      | RV_NORMAL mean stddev \<Rightarrow> rv_class rv = rv_normal_class fp \<and> \<not> fp_lt fp stddev (fp_of_int fp 0))"

lemma randvar_registry:
  "snd (randgen_init fp libc dev) name = Some cls \<Longrightarrow>
     cls = rv_erlang_class fp \<or> cls = rv_exponential_class fp \<or> cls = rv_normal_class fp \<or> cls = rv_uniform_class fp"
  by (auto simp: randgen_init_def randvar_register_def rv_erlang_class_def rv_exponential_class_def rv_normal_class_def
      rv_uniform_class_def split: if_splits)

lemma rv_params_loop_ok:
  assumes "rv_params_loop fp (rv_params cls) (rv_create cls g) node e = Some (Inr rv, node', e')"
    "cls = rv_erlang_class fp \<or> cls = rv_exponential_class fp \<or> cls = rv_normal_class fp \<or> cls = rv_uniform_class fp"
  shows "rv_ok fp rv"
  using assms(2)
proof (elim disjE)
  assume c: "cls = rv_erlang_class fp"
  show ?thesis using assms(1) unfolding c
    by (auto simp: rv_erlang_class_def rv_create_def rv_ok_def split: option.splits prod.splits if_splits)
next
  assume c: "cls = rv_exponential_class fp"
  show ?thesis using assms(1) unfolding c
    by (auto simp: rv_exponential_class_def rv_create_def rv_ok_def split: option.splits prod.splits if_splits)
next
  assume c: "cls = rv_normal_class fp"
  show ?thesis using assms(1) unfolding c
    by (auto simp: rv_normal_class_def rv_create_def rv_ok_def split: option.splits prod.splits if_splits)
next
  assume c: "cls = rv_uniform_class fp"
  show ?thesis using assms(1) unfolding c
    by (auto simp: rv_uniform_class_def rv_create_def rv_ok_def split: option.splits prod.splits if_splits)
qed

lemma tsobj_randvar_proc_ok:
  assumes "tsobj_randvar_proc fp (snd (randgen_init fp libc dev)) g ig node e = Some (Some rv, errs, node', e')"
  shows "errs = [] \<and> rv_ok fp rv \<and> json_check_unused ig node' = JSON_OK"
  using assms unfolding tsobj_randvar_proc_def
  by (auto simp: Let_def split: option.splits prod.splits if_splits sum.splits
      dest!: randvar_registry intro: rv_params_loop_ok)

definition rv_in_support :: "real rv_private \<Rightarrow> real \<Rightarrow> bool" where
  "rv_in_support rv x =
     (case rv of
        RV_UNIFORM mn mx \<Rightarrow> min mn mx \<le> x \<and> x \<le> max mn mx
      | RV_EXP rate \<Rightarrow> 0 \<le> x
      | RV_ERLANG rate shape \<Rightarrow> 0 \<le> x
      | RV_NORMAL mean stddev \<Rightarrow> True)"

text \<open>The variators whose loop is bounded; \<open>int\<close> has room for one more round than the shape.\<close>

definition rv_bounded :: "'d rv_private \<Rightarrow> bool" where
  "rv_bounded rv = (case rv of RV_ERLANG rate shape \<Rightarrow> shape < 2 ^ 31 - 1 | RV_NORMAL mean stddev \<Rightarrow> False | _ \<Rightarrow> True)"

lemma uniform_between:
  fixes u a b :: real assumes "0 \<le> u" "u \<le> 1"
  shows "min a b \<le> u * (b - a) + a" "u * (b - a) + a \<le> max a b"
proof -
  have "min a b \<le> (1 - u) * a + u * b" using assms convex_bound_le [of "- a" "- min a b" "- b" "1 - u" u] by simp
  moreover have "(1 - u) * a + u * b \<le> max a b" using assms by (intro convex_bound_le) auto
  ultimately show "min a b \<le> u * (b - a) + a" "u * (b - a) + a \<le> max a b" by (simp_all add: algebra_simps)
qed

lemma rv_variate_returns:
  assumes "rv_ok real_ops rv" "rv_bounded (rv_private rv)" "full_period rg" "rg_nth_int rg 0 \<noteq> ULLONG_MAX"
  shows "\<exists>x k. rv_variate_double real_ops rv rg = Some (x, (rg_next ^^ Suc k) rg) \<and> rv_in_support (rv_private rv) x"
proof (cases "rv_private rv")
  case (RV_UNIFORM mn mx)
  obtain u where u: "rg_generate_double real_ops rg = (u, rg_next rg)" "0 \<le> u" "u \<le> 1"
    using full_period_step [OF assms(3)] by blast
  have "rv_variate_double real_ops rv rg = Some (u * (mx - mn) + mn, rg_next rg)"
    using assms(1) RV_UNIFORM u(1) by (simp add: rv_ok_def rv_variate_double_def rv_uniform_class_def)
  then show ?thesis using uniform_between [OF u(2,3), where a = mn and b = mx] RV_UNIFORM
    by (intro exI [of _ "u * (mx - mn) + mn"] exI [of _ 0]) (simp add: rv_in_support_def)
next
  case (RV_EXP rate)
  obtain u where u: "rg_generate_double real_ops rg = (u, rg_next rg)" "0 \<le> u" "u \<le> 1"
    using full_period_step [OF assms(3)] by blast
  have "u \<noteq> 1"
    using unit_quotient(4) [of "fst (rg_generate_int rg)" "- 1"] rg_generate_double_real(1) [of rg] u(1) assms(3,4)
    by (auto simp: full_period_def ULLONG_MAX_def rg_nth_int_0 simp del: of_int_uint)
  then have "0 \<le> ln (1 - u) / - rate" using u RV_EXP assms(1) by (simp add: rv_ok_def divide_nonpos_pos)
  then show ?thesis using assms(1) RV_EXP u(1)
    by (auto simp: rv_ok_def rv_variate_double_def rv_exponential_class_def rv_in_support_def intro!: exI [of _ 0])
next
  case (RV_ERLANG rate shape)
  then obtain x k where "rv_variate_double real_ops \<lparr>rv_class = rv_erlang_class real_ops, rv_private = RV_ERLANG rate shape\<rparr> rg =
      Some (x, (rg_next ^^ k) rg)" "0 \<le> x" "k = nat shape \<or> k = Suc (nat shape)" "0 < k"
    using rv_erlang_returns [OF assms(3), of rate shape] assms(1,2) by (auto simp: rv_ok_def rv_bounded_def)
  then show ?thesis using assms(1) RV_ERLANG
    by (intro exI [of _ x] exI [of _ "k - 1"]) (cases rv, auto simp: rv_ok_def rv_in_support_def)
qed (use assms(2) in \<open>simp add: rv_bounded_def\<close>)

text \<open>
  C24. A variator that the configuration accepts delivers a number of its distribution in exact arithmetic: the uniform
  variator between its bounds, the exponential and the Erlang variator a number that is not negative. The
  loop of the Erlang variator ends, since the generators \<open>lcg\<close> and \<open>seq\<close> draw zero once in a period; the
  number 1 of the unit interval, whose logarithm the exponential variator cannot take, is excluded.
\<close>

theorem rv_configured_returns:
  assumes "tsobj_randvar_proc real_ops (snd (randgen_init real_ops libc dev)) g ig node e = Some (Some rv, errs, node', e')"
    "rg_class rg \<in> {rg_lcg_class, rg_seq_class}" "rg_nth_int rg 0 \<noteq> ULLONG_MAX" "rv_bounded (rv_private rv)"
  shows "errs = [] \<and> json_check_unused ig node' = JSON_OK \<and>
     (\<exists>x k. rv_variate_double real_ops rv rg = Some (x, (rg_next ^^ Suc k) rg) \<and> rv_in_support (rv_private rv) x)"
  using tsobj_randvar_proc_ok [OF assms(1)] rv_variate_returns [OF _ assms(4) _ assms(3)] assms(2)
    full_period_lcg full_period_seq by auto

definition demo_randvar_node :: "real json_node" where
  "demo_randvar_node =
     json_add_node (json_add_node (json_add_node (json_new_node None)
       (Some (json_str_create ''class'')) (json_new_string (json_str_create ''erlang'')))
       (Some (json_str_create ''shape'')) (json_new_integer 2))
       (Some (json_str_create ''rate'')) (json_new_double 3)"

definition demo_randvar :: "real randvar" where
  "demo_randvar = \<lparr>rv_class = rv_erlang_class real_ops, rv_private = RV_ERLANG 3 2\<rparr>"

lemma demo_randvar_proc:
  "\<exists>errs node' e'. tsobj_randvar_proc real_ops (snd (randgen_init real_ops rg_lcg_class rg_seq_class)) 0 False demo_randvar_node JSON_OK =
     Some (Some demo_randvar, errs, node', e')"
  by (simp add: tsobj_randvar_proc_def demo_randvar_node_def json_add_node_def json_new_node_def json_node_create_def
      json_new_string_def json_new_integer_def json_new_double_def json_str_create_def json_get_string_def json_get_def json_find_def
      json_find_opt_def json_touch_child_def Let_def json_check_type_def randgen_init_def randvar_register_def
      rv_erlang_class_def rv_exponential_class_def rv_normal_class_def rv_uniform_class_def rv_create_def
      json_get_integer_i64_def json_get_double_n_def jn_int_def json_check_unused_def demo_randvar_def)

theorem rv_configured_returns_witness:
  "\<exists>x k. rv_variate_double real_ops demo_randvar (rg_new rg_seq_class 5) =
     Some (x, (rg_next ^^ Suc k) (rg_new rg_seq_class 5)) \<and> 0 \<le> x"
proof -
  obtain errs node' e' where p: "tsobj_randvar_proc real_ops (snd (randgen_init real_ops rg_lcg_class rg_seq_class)) 0 False
      demo_randvar_node JSON_OK = Some (Some demo_randvar, errs, node', e')" using demo_randvar_proc by blast
  have rg: "rg_class (rg_new rg_seq_class 5) = rg_seq_class" "rg_private (rg_new rg_seq_class 5) = 5"
    by (simp_all add: rg_new_def rg_create_def rg_seq_class_def RG_CLASS_HEAD_def rg_init_seq_def Let_def)
  show ?thesis using rv_configured_returns [OF p, of "rg_new rg_seq_class 5"]
    by (simp add: rg rg_nth_int_seq ULLONG_MAX_def rv_bounded_def demo_randvar_def rv_in_support_def del: funpow.simps)
qed

section \<open>A singleton that fails to initialize\<close>

text \<open>The reference that a failed initialization has taken is never dropped: the next creation waits for an object forever.\<close>

theorem rg_create_failed_spins:
  assumes "rg_is_singleton cls" "rg_ref_count cls = 0" "rg_object cls = None" "fst (rg_init cls seed) \<noteq> 0"
  shows "fst (rg_create cls seed (Some a)) = RG_NULL \<and> fst (rg_create (snd (rg_create cls seed (Some a))) seed' mem) = RG_SPIN"
  using assms by (cases "rg_init cls seed") (simp add: rg_create_def Let_def)

end
