(* ===== verification/WlpGen.thy ===== *)
theory WlpGen
  imports WlParam RandGenProps
begin

text \<open>
  Generators of request parameters (\<open>wlpgen.c\<close>) and the processing of all parameters of a workload
  (\<open>tsobj_wlparam_proc_all\<close> of \<open>wlparam.c\<close>). Random generators are objects in a store, since singletons are
  shared. The release of a string that was never allocated, a failed assertion, a write outside of a structure and a loop
  that does not end are the outcome \<open>None\<close>. The marks that lookups leave inside of the value of a parameter
  are not kept: nothing reads them again.
\<close>

section \<open>State\<close>

text \<open>The union \<open>wlpgen_value_t\<close>: 16 bytes, or a pointer to memory for a string.\<close>

datatype wlpgen_value = WV_UNSET | WV_BYTES "char list" | WV_STRING "char list"

record 'd wlpgen_probability =
  p_value :: wlpgen_value
  p_valarray :: "wlpgen_value list"
  p_length :: nat
  p_probability :: 'd

datatype 'd wlpgen =
    WLPG_VALUE wlpgen_value
  | WLPG_RANDOM addr "'d randvar option" "'d wlpgen_probability list"

record 'd wlp_generator =
  gen_wlp :: "'d wlp_descr"
  gen_generator :: "'d wlpgen"

text \<open>The workload with its parameters and generators, the classes and objects of random generators.\<close>

record 'd wlp_sys =
  ws_params :: "char list"
  ws_gens :: "'d wlp_generator list"
  ws_rgs :: "randgen_class registry"
  ws_store :: "addr \<Rightarrow> randgen option"
  ws_next :: addr
  ws_errs :: "ts_errcode list"
  ws_errno :: json_code

definition report :: "ts_errcode list \<Rightarrow> 'd wlp_sys \<Rightarrow> 'd wlp_sys" where
  "report es s = s\<lparr>ws_errs := ws_errs s @ es\<rparr>"

definition add_gen :: "'d wlp_descr \<Rightarrow> 'd wlpgen \<Rightarrow> 'd wlp_sys \<Rightarrow> 'd wlp_sys" where
  "add_gen wlp g s = s\<lparr>ws_gens := ws_gens s @ [\<lparr>gen_wlp = wlp, gen_generator = g\<rparr>]\<rparr>"

section \<open>Fixed values\<close>

definition wlpgen_create_default :: "'d wlp_env \<Rightarrow> 'd wlp_descr \<Rightarrow> 'd wlp_sys \<Rightarrow> (wlparam_ret \<times> 'd wlp_sys) option" where
  "wlpgen_create_default env wlp s =
     (if wlp_get_base_type wlp = WLP_RAW_STRING then
        (case d_s (wlp_defval wlp) of
           None \<Rightarrow> None
         | Some str \<Rightarrow> Some (WLPARAM_OK, add_gen wlp (WLPG_VALUE (WV_STRING (str @ [NUL]))) s))
      else case wlparam_set_default env wlp 0 (we_fresh env 16) of
             None \<Rightarrow> None
           | Some (ret, es, mem) \<Rightarrow> Some (ret, report es (add_gen wlp (WLPG_VALUE (WV_BYTES mem)) s)))"

definition tsobj_wlpgen_param_proc ::
    "'d wlp_env \<Rightarrow> 'd json_node \<Rightarrow> 'd wlp_descr \<Rightarrow> (wlparam_ret \<times> ts_errcode list \<times> wlpgen_value) option" where
  "tsobj_wlpgen_param_proc env node wlp =
     (if wlp_get_base_type wlp = WLP_RAW_STRING then
        map_option (\<lambda>(ret, es, mem). (ret, es, WV_STRING mem))
          (tsobj_wlparam_proc env node wlp 0 (we_fresh env (str_length (wlp_range wlp))))
      else
        map_option (\<lambda>(ret, es, mem). (ret, es, WV_BYTES mem)) (tsobj_wlparam_proc env node wlp 0 (we_fresh env 16)))"

section \<open>Probability maps\<close>

text \<open>The release of a map frees the strings of its first entries.\<close>

definition wlpgen_destroy_pmap :: "'d wlp_descr \<Rightarrow> 'd wlpgen_probability list \<Rightarrow> bool" where
  "wlpgen_destroy_pmap wlp pmap =
     (wlp_get_base_type wlp = WLP_RAW_STRING \<longrightarrow> (\<forall>p \<in> set pmap. p_length p = 0 \<longrightarrow> p_value p \<noteq> WV_UNSET))"

fun parray_loop ::
    "'d wlp_env \<Rightarrow> 'd wlp_descr \<Rightarrow> nat \<Rightarrow> wlparam_ret \<Rightarrow> wlpgen_value list \<Rightarrow> 'd json_node list \<Rightarrow>
     (wlparam_ret \<times> ts_errcode list \<times> wlpgen_value list) option" where
  "parray_loop env wlp n ret vals [] = Some (ret, [], vals)"
| "parray_loop env wlp n ret vals (el # els) =
     (if length vals \<ge> n then None
      else case tsobj_wlpgen_param_proc env el wlp of
             None \<Rightarrow> None
           | Some (ret1, es, v) \<Rightarrow>
               if ret1 \<noteq> WLPARAM_OK then Some (ret1, es, vals @ [v])
               else parray_loop env wlp n ret1 (vals @ [v]) els)"

definition tsobj_wlpgen_proc_parray ::
    "'d wlp_env \<Rightarrow> 'd json_node \<Rightarrow> 'd wlp_descr \<Rightarrow> 'd wlpgen_probability \<Rightarrow>
     (wlparam_ret \<times> ts_errcode list \<times> 'd wlpgen_probability) option" where
  "tsobj_wlpgen_proc_parray env node wlp p =
     (let n = jn_children_count node in
      if n = 0 then Some (WLPARAM_TSOBJ_BAD, [TSE_INVALID_VALUE], p)
      else case parray_loop env wlp n WLPARAM_ERROR [] (jn_child_head node) of
             None \<Rightarrow> None
           | Some (ret, es, vals) \<Rightarrow>
               Some (ret, es, p\<lparr>p_valarray := vals, p_length := (if ret \<noteq> WLPARAM_OK then length vals else n)\<rparr>))"

text \<open>
  One entry of the map. The first result is the return value; an entry with both \<open>value\<close> and \<open>valarray\<close> leaves the
  return value of the entry before it. The second result says whether the loop goes on.
\<close>

type_synonym 'd pmap_step = "(wlparam_ret \<times> bool \<times> ts_errcode list \<times> 'd wlpgen_probability \<times> 'd \<times> json_code) option"

definition pmap_value ::
    "'d wlp_env \<Rightarrow> 'd wlp_descr \<Rightarrow> wlparam_ret \<Rightarrow> 'd wlpgen_probability \<Rightarrow> 'd \<Rightarrow> 'd json_node option \<Rightarrow> 'd json_node option \<Rightarrow>
     json_code \<Rightarrow> 'd pmap_step" where
  "pmap_value env wlp ret p prob val valarray e =
     (case (val, valarray) of
        (Some _, Some _) \<Rightarrow> Some (ret, False, [TSE_INVALID_VALUE], p, prob, e)
      | (Some v, None) \<Rightarrow>
          map_option (\<lambda>(ret1, es, wv). (ret1, ret1 = WLPARAM_OK, es, p\<lparr>p_value := wv\<rparr>, prob, e))
            (tsobj_wlpgen_param_proc env v wlp)
      | (None, Some va) \<Rightarrow>
          map_option (\<lambda>(ret1, es, p1). (ret1, ret1 = WLPARAM_OK, es, p1, prob, e)) (tsobj_wlpgen_proc_parray env va wlp p)
      | (None, None) \<Rightarrow> Some (ret, True, [], p, prob, e))"

definition pmap_element ::
    "'d wlp_env \<Rightarrow> 'd wlp_descr \<Rightarrow> wlparam_ret \<Rightarrow> 'd json_node \<Rightarrow> json_code \<Rightarrow> 'd pmap_step" where
  "pmap_element env wlp ret el e =
     (let p = \<lparr>p_value = WV_UNSET, p_valarray = [], p_length = 0, p_probability = we_garbage env\<rparr>;
          zero = fp_of_int (we_fp env) 0;
          bad = (\<lambda>e prob. Some (WLPARAM_TSOBJ_BAD, False, [tsobj_error_code e], p, prob, e));
          err = json_check_type (Some el) JSON_NODE
      in if err \<noteq> JSON_OK then bad err zero
         else case json_get_double zero el ''probability'' e of
                None \<Rightarrow> None
              | Some (err1, prob, el1, e1) \<Rightarrow>
                  if err1 \<noteq> JSON_OK then bad e1 zero
                  else case json_find el1 ''value'' e1 of
                         None \<Rightarrow> None
                       | Some (val, el2, e2) \<Rightarrow>
                           (case json_find_opt el2 ''valarray'' e2 of
                              None \<Rightarrow> None
                            | Some (va, el3, e3) \<Rightarrow>
                                let child = map_option (\<lambda>i. jn_child_head el3 ! i);
                                    unused = json_check_unused (we_ignore_unused env) el3;
                                    va_err = json_check_type (child va) JSON_ARRAY
                                in if val = None \<and> va = None then bad e3 (the prob)
                                   else if unused \<noteq> JSON_OK then bad unused (the prob)
                                   else if va_err = JSON_INVALID_TYPE then bad va_err (the prob)
                                   else pmap_value env wlp ret p (the prob) (child val) (child va) e3))"

text \<open>The loop over the entries; the last result is the map so far, with the entry that failed.\<close>

fun pmap_loop ::
    "'d wlp_env \<Rightarrow> 'd wlp_descr \<Rightarrow> nat \<Rightarrow> wlparam_ret \<Rightarrow> 'd wlpgen_probability list \<Rightarrow> 'd \<Rightarrow> 'd json_node list \<Rightarrow> json_code \<Rightarrow>
     (wlparam_ret \<times> bool \<times> ts_errcode list \<times> 'd wlpgen_probability list \<times> 'd \<times> json_code) option" where
  "pmap_loop env wlp n ret pmap tot [] e = Some (ret, True, [], pmap, tot, e)"
| "pmap_loop env wlp n ret pmap tot (el # els) e =
     (if length pmap \<ge> n then None
      else case pmap_element env wlp ret el e of
             None \<Rightarrow> None
           | Some (ret1, goes_on, es, p, prob, e1) \<Rightarrow>
               let tot1 = fp_add (we_fp env) tot prob in
               if \<not> goes_on then Some (ret1, False, es, pmap @ [p], tot1, e1)
               else pmap_loop env wlp n ret1 (pmap @ [p\<lparr>p_probability := prob\<rparr>]) tot1 els e1)"

definition wlpgen_pmap_eps :: "'d fpops \<Rightarrow> 'd" where
  "wlpgen_pmap_eps fp = fp_dec fp 1 5"

definition tsobj_wlpgen_proc_pmap ::
    "'d wlp_env \<Rightarrow> 'd json_node \<Rightarrow> 'd wlp_descr \<Rightarrow> json_code \<Rightarrow>
     (wlparam_ret \<times> ts_errcode list \<times> 'd wlpgen_probability list \<times> json_code) option" where
  "tsobj_wlpgen_proc_pmap env node wlp e =
     (let n = jn_children_count node; fp = we_fp env in
      if n = 0 then Some (WLPARAM_TSOBJ_BAD, [TSE_INVALID_VALUE], [], e)
      else case pmap_loop env wlp n (we_ret env) [] (fp_of_int fp 0) (jn_child_head node) e of
             None \<Rightarrow> None
           | Some (ret, all, es, pmap, tot, e1) \<Rightarrow>
               let diff = fp_sub fp tot (fp_of_int fp 1); eps = wlpgen_pmap_eps fp in
               if \<not> all then (if wlpgen_destroy_pmap wlp pmap then Some (ret, es, [], e1) else None)
               else if fp_lt fp eps diff \<or> fp_lt fp diff (fp_neg fp eps) then
                 (if wlpgen_destroy_pmap wlp pmap then Some (WLPARAM_ERROR, [TSE_INVALID_VALUE], [], e1) else None)
               else Some (ret, es, pmap, e1))"

section \<open>Generators\<close>

text \<open>Dropping a reference to a random generator; the class in the registry counts them.\<close>

definition destroy_rg :: "addr \<Rightarrow> 'd wlp_sys \<Rightarrow> 'd wlp_sys" where
  "destroy_rg a s =
     (case ws_store s a of
        None \<Rightarrow> s
      | Some rg \<Rightarrow>
          (let name = rg_class_name (rg_class rg) in
           case ws_rgs s name of
             None \<Rightarrow> s
           | Some cls \<Rightarrow>
               (let (freed, cls1) = rg_destroy cls
                in s\<lparr>ws_rgs := (ws_rgs s)(name \<mapsto> cls1), ws_store := (if freed then (ws_store s)(a := None) else ws_store s)\<rparr>)))"

text \<open>\<open>wlpgen_destroy\<close> of a generator that is not yet complete: its map is empty, and its random generator is dropped.\<close>

definition random_or_destroy ::
    "'d wlp_descr \<Rightarrow> addr \<Rightarrow> 'd randvar option \<Rightarrow> wlparam_ret \<times> ts_errcode list \<times> 'd wlpgen_probability list \<times> json_code \<Rightarrow>
     'd wlp_sys \<Rightarrow> wlparam_ret \<times> 'd wlp_sys" where
  "random_or_destroy wlp a rv res s =
     (case res of
        (ret, es, pmap, e) \<Rightarrow>
          (let s1 = (report es s)\<lparr>ws_errno := e\<rparr> in
           (ret, if ret = WLPARAM_OK then add_gen wlp (WLPG_RANDOM a rv pmap) s1 else destroy_rg a s1)))"

definition wlpgen_random ::
    "'d wlp_env \<Rightarrow> 'd wlp_descr \<Rightarrow> addr \<Rightarrow> 'd json_node option \<Rightarrow> 'd json_node option \<Rightarrow> 'd wlp_sys \<Rightarrow>
     (wlparam_ret \<times> 'd wlp_sys) option" where
  "wlpgen_random env wlp a o_randvar o_pmap s =
     (let with_pmap = (\<lambda>rv s. case o_pmap of
            None \<Rightarrow> Some (random_or_destroy wlp a rv (WLPARAM_OK, [], [], ws_errno s) s)
          | Some node \<Rightarrow> map_option (\<lambda>res. random_or_destroy wlp a rv res s) (tsobj_wlpgen_proc_pmap env node wlp (ws_errno s)))
      in case o_randvar of
           None \<Rightarrow> with_pmap None s
         | Some node \<Rightarrow>
             (case tsobj_randvar_proc (we_fp env) (we_rvs env) (we_garbage env) (we_ignore_unused env) node (ws_errno s) of
                None \<Rightarrow> None
              | Some (None, es, _, e) \<Rightarrow>
                  Some (WLPARAM_ERROR, report (es @ [TSE_INVALID_VALUE]) (destroy_rg a s\<lparr>ws_errno := e\<rparr>))
              | Some (Some rv, es, _, e) \<Rightarrow> with_pmap (Some rv) ((report es s)\<lparr>ws_errno := e\<rparr>)))"

definition wlpgen_new_random ::
    "'d wlp_env \<Rightarrow> 'd wlp_descr \<Rightarrow> 'd json_node \<Rightarrow> 'd json_node option \<Rightarrow> 'd json_node option \<Rightarrow> 'd wlp_sys \<Rightarrow>
     (wlparam_ret \<times> 'd wlp_sys) option" where
  "wlpgen_new_random env wlp o_randgen o_randvar o_pmap s =
     (case tsobj_randgen_proc (ws_rgs s) (we_clock env) (Some (ws_next s)) (we_ignore_unused env) o_randgen (ws_errno s) of
        None \<Rightarrow> None
      | Some ((made, rgs), es, _, e) \<Rightarrow>
          (let s1 = (report es s)\<lparr>ws_rgs := rgs, ws_errno := e\<rparr> in
           case made of
             RG_NULL \<Rightarrow> Some (WLPARAM_ERROR, report [TSE_INVALID_VALUE] s1)
           | RG_SPIN \<Rightarrow> None
           | RG_SHARED a \<Rightarrow> wlpgen_random env wlp a o_randvar o_pmap s1
           | RG_NEW a rg \<Rightarrow>
               wlpgen_random env wlp a o_randvar o_pmap
                 (s1\<lparr>ws_store := (ws_store s1)(a \<mapsto> rg), ws_next := ws_next s1 + 1\<rparr>)))"

definition tsobj_wlpgen_proc ::
    "'d wlp_env \<Rightarrow> 'd json_node \<Rightarrow> 'd wlp_descr \<Rightarrow> 'd wlp_sys \<Rightarrow> (wlparam_ret \<times> 'd wlp_sys) option" where
  "tsobj_wlpgen_proc env node wlp s =
     (let bad = (\<lambda>e. Some (WLPARAM_TSOBJ_BAD, report [tsobj_error_code e] (s\<lparr>ws_errno := e\<rparr>))) in
      if jn_type node \<noteq> JSON_NODE then
        (case tsobj_wlpgen_param_proc env node wlp of
           None \<Rightarrow> None
         | Some (ret, es, v) \<Rightarrow> Some (ret, report es (if ret = WLPARAM_OK then add_gen wlp (WLPG_VALUE v) s else s)))
      else case json_get_node node ''randgen'' (ws_errno s) of
             None \<Rightarrow> None
           | Some (err0, o_randgen, node1, e1) \<Rightarrow>
               if err0 \<noteq> JSON_OK then bad e1
               else case json_get_array node1 ''pmap'' e1 of
                      None \<Rightarrow> None
                    | Some (err2, o_pmap, node2, e2) \<Rightarrow>
                        if err2 = JSON_INVALID_TYPE then bad e2
                        else if err2 \<noteq> JSON_OK \<and> wlp_get_base_type wlp \<notin> {WLP_INTEGER, WLP_FLOAT} then bad e2
                        else case json_get_node node2 ''randvar'' e2 of
                               None \<Rightarrow> None
                             | Some (err1, o_randvar, node3, e3) \<Rightarrow>
                                 if err1 = JSON_INVALID_TYPE then bad e3
                                 else if err2 = JSON_OK \<and> err1 = JSON_OK then
                                   Some (WLPARAM_TSOBJ_BAD, report [TSE_INVALID_VALUE] (s\<lparr>ws_errno := e3\<rparr>))
                                 else
                                   let unused = json_check_unused (we_ignore_unused env) node3 in
                                   if unused \<noteq> JSON_OK then bad unused
                                   else wlpgen_new_random env wlp (the o_randgen) o_randvar o_pmap (s\<lparr>ws_errno := e3\<rparr>))"

text \<open>
  \<open>wlpgen_destroy\<close> of a complete generator and \<open>wlpgen_destroy_all\<close>, which takes the generators off the list one by one; a string
  that was never set cannot be freed.
\<close>

definition wlpgen_destroy :: "'d wlp_generator \<Rightarrow> 'd wlp_sys \<Rightarrow> 'd wlp_sys option" where
  "wlpgen_destroy g s =
     (case gen_generator g of
        WLPG_RANDOM a rv pmap \<Rightarrow>
          if wlpgen_destroy_pmap (gen_wlp g) pmap then Some ((destroy_rg a s)\<lparr>ws_gens := remove1 g (ws_gens s)\<rparr>) else None
      | WLPG_VALUE v \<Rightarrow>
          if wlp_get_base_type (gen_wlp g) = WLP_RAW_STRING \<and> v = WV_UNSET then None
          else Some (s\<lparr>ws_gens := remove1 g (ws_gens s)\<rparr>))"

fun wlpgen_destroy_loop :: "'d wlp_generator list \<Rightarrow> 'd wlp_sys \<Rightarrow> 'd wlp_sys option" where
  "wlpgen_destroy_loop [] s = Some s"
| "wlpgen_destroy_loop (g # gs) s = (case wlpgen_destroy g s of None \<Rightarrow> None | Some s1 \<Rightarrow> wlpgen_destroy_loop gs s1)"

definition wlpgen_destroy_all :: "'d wlp_sys \<Rightarrow> 'd wlp_sys option" where
  "wlpgen_destroy_all s = wlpgen_destroy_loop (ws_gens s) s"

section \<open>All parameters of a workload\<close>

definition wlparam_proc_one ::
    "'d wlp_env \<Rightarrow> 'd wlp_descr \<Rightarrow> 'd json_node option \<Rightarrow> 'd wlp_sys \<Rightarrow> (wlparam_ret \<times> 'd wlp_sys) option" where
  "wlparam_proc_one env wlp param_node s =
     (let in_params = map_option (\<lambda>(ret, es, mem). (ret, report es (s\<lparr>ws_params := mem\<rparr>))) in
      if is_output wlp then
        (case param_node of
           Some _ \<Rightarrow> Some (WLPARAM_TSOBJ_BAD, report [TSE_UNUSED_ATTRIBUTE] s)
         | None \<Rightarrow> Some (WLPARAM_OK, s))
      else case param_node of
             None \<Rightarrow>
               if \<not> has_flag wlp WLPF_OPTIONAL then Some (WLPARAM_TSOBJ_BAD, report [tsobj_error_code (ws_errno s)] s)
               else if has_flag wlp WLPF_REQUEST then wlpgen_create_default env wlp s
               else in_params (wlparam_set_default env wlp (wlp_off wlp) (ws_params s))
           | Some node \<Rightarrow>
               if has_flag wlp WLPF_REQUEST then tsobj_wlpgen_proc env node wlp s
               else in_params (tsobj_wlparam_proc env node wlp (wlp_off wlp) (ws_params s)))"

fun wlparam_proc_loop ::
    "'d wlp_env \<Rightarrow> 'd wlp_descr list \<Rightarrow> 'd json_node \<Rightarrow> 'd wlp_sys \<Rightarrow> (wlparam_ret \<times> 'd json_node \<times> 'd wlp_sys) option" where
  "wlparam_proc_loop env [] node s = Some (WLPARAM_OK, node, s)"
| "wlparam_proc_loop env (wlp # wlps) node s =
     (case json_find node (wlp_name wlp) (ws_errno s) of
        None \<Rightarrow> None
      | Some (i, node1, e) \<Rightarrow>
          (case wlparam_proc_one env wlp (map_option (\<lambda>i. jn_child_head node1 ! i) i) (s\<lparr>ws_errno := e\<rparr>) of
             None \<Rightarrow> None
           | Some (ret, s1) \<Rightarrow>
               if ret \<noteq> WLPARAM_OK then Some (ret, node1, s1) else wlparam_proc_loop env wlps node1 s1))"

definition tsobj_wlparam_proc_all ::
    "'d wlp_env \<Rightarrow> 'd json_node \<Rightarrow> 'd wlp_descr list \<Rightarrow> 'd wlp_sys \<Rightarrow> (wlparam_ret \<times> 'd json_node \<times> 'd wlp_sys) option" where
  "tsobj_wlparam_proc_all env node wlps s =
     (let bad = (\<lambda>e s. report [tsobj_error_code e] (s\<lparr>ws_errno := e\<rparr>)); err = json_check_type (Some node) JSON_NODE in
      if err \<noteq> JSON_OK then Some (WLPARAM_TSOBJ_BAD, node, bad err s)
      else case wlparam_proc_loop env wlps node s of
             None \<Rightarrow> None
           | Some (ret, node1, s1) \<Rightarrow>
               let unused = json_check_unused (we_ignore_unused env) node1 in
               if ret = WLPARAM_OK \<and> unused \<noteq> JSON_OK then Some (WLPARAM_TSOBJ_BAD, node1, bad unused s1)
               else Some (ret, node1, s1))"

section \<open>Parameters of a request\<close>

definition wlpgen_gen_value :: "'d wlp_descr \<Rightarrow> wlpgen_value \<Rightarrow> nat \<Rightarrow> char list \<Rightarrow> char list option" where
  "wlpgen_gen_value wlp v off mem =
     (let copy = (\<lambda>n. case v of WV_BYTES bs \<Rightarrow> (if n \<le> length bs then mem_put off (take n bs) mem else None) | _ \<Rightarrow> None) in
      case wlp_get_base_type wlp of
        WLP_BOOL \<Rightarrow> copy 4
      | WLP_INTEGER \<Rightarrow> copy 8
      | WLP_FLOAT \<Rightarrow> copy 8
      | WLP_RAW_STRING \<Rightarrow>
          (case v of WV_STRING str \<Rightarrow> mem_put off (strncpy_buf (cstr str) (str_length (wlp_range wlp))) mem | _ \<Rightarrow> None)
      | WLP_STRING_SET \<Rightarrow> copy 4
      | WLP_HI_OBJECT \<Rightarrow> copy 8
      | _ \<Rightarrow> Some mem)"

text \<open>A failed assertion and a negative index are \<open>None\<close>.\<close>

definition wlpgen_gen_pmap_value ::
    "'d fpops \<Rightarrow> 'd wlp_descr \<Rightarrow> 'd \<Rightarrow> 'd wlpgen_probability \<Rightarrow> nat \<Rightarrow> char list \<Rightarrow> char list option" where
  "wlpgen_gen_pmap_value fp wlp val p off mem =
     (if p_length p = 0 then wlpgen_gen_value wlp (p_value p) off mem
      else
        let val1 = fp_div fp val (p_probability p); vi = fp_trunc fp (fp_mul fp val1 (fp_of_int fp (int (p_length p)))) in
        if vi < int (p_length p) \<and> 0 \<le> vi \<and> nat vi < length (p_valarray p)
        then wlpgen_gen_value wlp (p_valarray p ! nat vi) off mem else None)"

fun pmap_pick :: "'d fpops \<Rightarrow> 'd \<Rightarrow> 'd wlpgen_probability list \<Rightarrow> 'd wlpgen_probability option \<times> 'd" where
  "pmap_pick fp val [] = (None, val)"
| "pmap_pick fp val (p # ps) =
     (if fp_lt fp val (p_probability p) then (Some p, val) else pmap_pick fp (fp_sub fp val (p_probability p)) ps)"

definition wlpgen_gen_pmap ::
    "'d fpops \<Rightarrow> 'd wlp_descr \<Rightarrow> 'd \<Rightarrow> 'd wlpgen_probability list \<Rightarrow> nat \<Rightarrow> char list \<Rightarrow> char list option" where
  "wlpgen_gen_pmap fp wlp val pmap off mem =
     (case pmap_pick fp val pmap of
        (Some p, val1) \<Rightarrow> wlpgen_gen_pmap_value fp wlp val1 p off mem
      | (None, val1) \<Rightarrow> wlpgen_gen_pmap_value fp wlp val1 (last pmap) off mem)"

text \<open>A variate that does not fit a 64-bit integer has no defined conversion.\<close>

definition wlpgen_gen_random ::
    "'d wlp_env \<Rightarrow> 'd wlp_descr \<Rightarrow> randgen \<Rightarrow> 'd randvar option \<Rightarrow> 'd wlpgen_probability list \<Rightarrow> char list \<Rightarrow>
     (char list \<times> randgen) option" where
  "wlpgen_gen_random env wlp rg rv pmap mem =
     (let fp = we_fp env; off = wlp_off wlp in
      if pmap = [] then
        (case (wlp_get_base_type wlp, rv) of
           (WLP_INTEGER, None) \<Rightarrow>
             (case rg_generate_int rg of (ival, rg1) \<Rightarrow> map_option (\<lambda>m. (m, rg1)) (put_integer off (sint ival) mem))
         | (WLP_FLOAT, None) \<Rightarrow>
             (case rg_generate_double fp rg of (val, rg1) \<Rightarrow> map_option (\<lambda>m. (m, rg1)) (put_float env off val mem))
         | (WLP_INTEGER, Some v) \<Rightarrow>
             (case rv_variate_double fp v rg of
                None \<Rightarrow> None
              | Some (val, rg1) \<Rightarrow>
                  (let i = fp_trunc fp (fp_round fp val) in
                   if i < - (2 ^ 63) \<or> 2 ^ 63 \<le> i then None
                   else map_option (\<lambda>m. (m, rg1)) (put_integer off i mem)))
         | (WLP_FLOAT, Some v) \<Rightarrow>
             (case rv_variate_double fp v rg of
                None \<Rightarrow> None
              | Some (val, rg1) \<Rightarrow> map_option (\<lambda>m. (m, rg1)) (put_float env off val mem))
         | _ \<Rightarrow> Some (mem, rg))
      else case rg_generate_double fp rg of
             (val, rg1) \<Rightarrow> map_option (\<lambda>m. (m, rg1)) (wlpgen_gen_pmap fp wlp val pmap off mem))"

definition wlpgen_gen_one ::
    "'d wlp_env \<Rightarrow> 'd wlp_generator \<Rightarrow> (addr \<Rightarrow> randgen option) \<Rightarrow> char list \<Rightarrow> (char list \<times> (addr \<Rightarrow> randgen option)) option" where
  "wlpgen_gen_one env g st mem =
     (case gen_generator g of
        WLPG_VALUE v \<Rightarrow> map_option (\<lambda>m. (m, st)) (wlpgen_gen_value (gen_wlp g) v (wlp_off (gen_wlp g)) mem)
      | WLPG_RANDOM a rv pmap \<Rightarrow>
          (case st a of
             None \<Rightarrow> None
           | Some rg \<Rightarrow> map_option (\<lambda>(m, rg1). (m, st(a \<mapsto> rg1))) (wlpgen_gen_random env (gen_wlp g) rg rv pmap mem)))"

fun wlpgen_gen_loop ::
    "'d wlp_env \<Rightarrow> 'd wlp_generator list \<Rightarrow> (addr \<Rightarrow> randgen option) \<Rightarrow> char list \<Rightarrow>
     (char list \<times> (addr \<Rightarrow> randgen option)) option" where
  "wlpgen_gen_loop env [] st mem = Some (mem, st)"
| "wlpgen_gen_loop env (g # gs) st mem =
     (case wlpgen_gen_one env g st mem of None \<Rightarrow> None | Some (mem1, st1) \<Rightarrow> wlpgen_gen_loop env gs st1 mem1)"

text \<open>The structure of a request, or no structure for a type without request parameters.\<close>

definition wlpgen_generate ::
    "'d wlp_env \<Rightarrow> nat \<Rightarrow> 'd wlp_sys \<Rightarrow> (char list option \<times> 'd wlp_sys) option" where
  "wlpgen_generate env rqparams_size s =
     (if rqparams_size = 0 then Some (None, s)
      else map_option (\<lambda>(mem, st). (Some mem, s\<lparr>ws_store := st\<rparr>))
             (wlpgen_gen_loop env (ws_gens s) (ws_store s) (we_fresh env rqparams_size)))"

end
