(* ===== verification/WlpTypes.thy ===== *)
theory WlpTypes
  imports WlpGen
begin

text \<open>
  Type safety of workload parameters: what the configuration accepts is stored as values of the declared types, within their
  ranges and slots, and the structure generated for a request is well typed.
\<close>

section \<open>Configurations\<close>

definition child_named :: "'d json_node \<Rightarrow> string \<Rightarrow> bool" where
  "child_named node name = list_ex (\<lambda>n. case n of Some (_, s) \<Rightarrow> s = name | None \<Rightarrow> False) (map jn_name (jn_child_head node))"

text \<open>No entry gives both a value and an array of values.\<close>

fun exclusive :: "'d json_node \<Rightarrow> bool" where
  "exclusive (Json_Node n t i u d c ch) \<longleftrightarrow>
     \<not> (child_named (Json_Node n t i u d c ch) ''value'' \<and> child_named (Json_Node n t i u d c ch) ''valarray'') \<and>
     (\<forall>x \<in> set ch. exclusive x)"

text \<open>A node of the parser; \<open>ex\<close> says that its entries are also exclusive.\<close>

definition node_ok :: "bool \<Rightarrow> 'd json_node \<Rightarrow> bool" where
  "node_ok ex node \<longleftrightarrow> jn_wf node \<and> jn_strings node \<and> (ex \<longrightarrow> exclusive node)"

lemma node_ok_set_touched [simp]: "node_ok ex (jn_set_touched b x) = node_ok ex x"
  by (cases x) (simp add: node_ok_def child_named_def)

lemma node_ok_children: "node_ok ex p \<Longrightarrow> x \<in> set (jn_child_head p) \<Longrightarrow> node_ok ex x"
  by (cases p) (auto simp: node_ok_def)

lemma node_ok_touches:
  assumes "touches p q" "node_ok ex p" "x \<in> set (jn_child_head q)"
  shows "node_ok ex x"
proof -
  have "jn_set_touched True x \<in> jn_set_touched True ` set (jn_child_head p)"
    using assms(1,3) by (metis image_eqI list.set_map touches_def)
  then show ?thesis using node_ok_children [OF assms(2)] by (metis imageE node_ok_set_touched)
qed

lemma json_find_walk_at:
  "json_find_walk name k cs = Some (Some i) \<Longrightarrow>
     k \<le> i \<and> i - k < length cs \<and> (\<exists>t. jn_name (cs ! (i - k)) = Some (t, name))"
proof (induction cs arbitrary: k)
  case (Cons c cs)
  from Cons.prems obtain t s where c: "jn_name c = Some (t, s)" by (auto split: option.splits)
  show ?case
  proof (cases "s = name")
    case True
    then show ?thesis using Cons.prems c by auto
  next
    case False
    then have "json_find_walk name (Suc k) cs = Some (Some i)" using Cons.prems c by simp
    from Cons.IH [OF this] show ?thesis by (auto simp: nth_Cons' Suc_diff_le split: if_splits)
  qed
qed simp

lemma json_touch_child_child:
  "i < length (jn_child_head p) \<Longrightarrow> jn_child_head (json_touch_child p i) ! i = jn_set_touched True (jn_child_head p ! i)"
  by (simp add: json_touch_child_def Let_def)

lemma json_find_opt_some:
  assumes "json_find_opt p name e = Some (Some i, q, e')"
  shows "child_named p name \<and> i < length (jn_child_head q) \<and> touches p q"
proof -
  have w: "json_find_walk name 0 (jn_child_head p) = Some (Some i)" and q: "q = json_touch_child p i"
    using assms by (auto simp: json_find_opt_def split: if_splits option.splits)
  note n = json_find_walk_at [OF w]
  then obtain t where "Some (t, name) \<in> set (map jn_name (jn_child_head p))" by (metis diff_zero length_map nth_map nth_mem)
  then have "child_named p name" unfolding child_named_def list_ex_iff
    by (rule bexI [rotated]) simp
  then show ?thesis using n by (simp add: q touches_child) (simp add: json_touch_child_def Let_def)
qed

lemma json_find_some:
  assumes "json_find p name e = Some (Some i, q, e')"
  shows "child_named p name \<and> i < length (jn_child_head q) \<and> touches p q"
  using assms by (auto simp: json_find_def split: option.splits prod.splits dest!: json_find_opt_some)

lemma touches_named:
  assumes "touches p q"
  shows "child_named q name = child_named p name"
proof -
  have "map jn_name (jn_child_head q) = map jn_name (jn_child_head p)"
    using arg_cong [OF conjunct2 [OF conjunct2 [OF assms [unfolded touches_def]]], of "map jn_name"] by (simp add: o_def)
  then show ?thesis by (simp only: child_named_def)
qed

lemma json_get_some:
  assumes "json_get ty Inr p name e = Some (c, Some v, q, e')"
  shows "c = JSON_OK \<and> v \<in> set (jn_child_head q) \<and> touches p q \<and> json_check_type (Some v) ty = JSON_OK"
proof -
  obtain i e1 where f: "json_find p name e = Some (i, q, e1)" and ok: "c = JSON_OK"
    "json_check_type (map_option ((!) (jn_child_head q)) i) ty = JSON_OK" "v = the (map_option ((!) (jn_child_head q)) i)"
    using assms by (auto simp: json_get_def Let_def split: option.splits if_splits)
  then obtain k where i: "i = Some k" by (cases i) (auto simp: json_check_type_def)
  show ?thesis using json_find_some [OF f [unfolded i]] ok by (simp add: i)
qed

section \<open>Values of generators\<close>

definition wv_ok :: "'d wlp_env \<Rightarrow> 'd wlp_descr \<Rightarrow> wlpgen_value \<Rightarrow> bool" where
  "wv_ok env wlp wv \<longleftrightarrow>
     (\<exists>v. value_of_type wlp v \<and> value_in_range (we_fp env) wlp v \<and>
        (case wv of
           WV_UNSET \<Rightarrow> False
         | WV_BYTES bs \<Rightarrow> wlp_get_base_type wlp \<noteq> WLP_RAW_STRING \<and> take (length (value_bytes env v)) bs = value_bytes env v
         | WV_STRING bs \<Rightarrow> v = VString (cstr bs)))"

definition entry_ok :: "'d wlp_env \<Rightarrow> 'd wlp_descr \<Rightarrow> 'd wlpgen_probability \<Rightarrow> bool" where
  "entry_ok env wlp p \<longleftrightarrow>
     (if p_length p = 0 then wv_ok env wlp (p_value p)
      else p_length p = length (p_valarray p) \<and> (\<forall>v \<in> set (p_valarray p). wv_ok env wlp v))"

definition gen_ok :: "'d wlp_env \<Rightarrow> 'd wlp_generator \<Rightarrow> bool" where
  "gen_ok env g \<longleftrightarrow> descr_ok env (gen_wlp g) \<and>
     (case gen_generator g of
        WLPG_VALUE v \<Rightarrow> wv_ok env (gen_wlp g) v
      | WLPG_RANDOM a rv pmap \<Rightarrow>
          (pmap = [] \<longrightarrow> wlp_get_base_type (gen_wlp g) \<in> {WLP_INTEGER, WLP_FLOAT}) \<and>
          (\<forall>p \<in> set pmap. entry_ok env (gen_wlp g) p))"

text \<open>What is documented of the environment: doubles have eight bytes, and new memory has the size asked for.\<close>

definition env_ok :: "'d wlp_env \<Rightarrow> bool" where
  "env_ok env \<longleftrightarrow> (\<forall>d. length (we_dbl env d) = 8) \<and> (\<forall>n. length (we_fresh env n) = n)"

lemma cstr_string: "NUL \<notin> set s \<Longrightarrow> cstr (s @ NUL # r) = s"
  by (induction s) (auto simp: cstr_def)

lemma poke_0: "bs \<noteq> [] \<Longrightarrow> poke 0 bs mem = bs @ drop (length bs) mem"
  by (simp add: poke_def)

lemma wlp_size_16: "descr_ok env wlp \<Longrightarrow> wlp_get_base_type wlp \<noteq> WLP_RAW_STRING \<Longrightarrow> wlp_size wlp \<le> 16"
  by (cases "wlp_type wlp") (auto simp: descr_ok_def wlp_size_def wlp_get_base_type_def wlp_base_types_def)

lemma stores_value_bytes:
  assumes "stores_value env wlp 0 mem mem'" "wlp_get_base_type wlp \<noteq> WLP_RAW_STRING" "env_ok env"
  shows "wv_ok env wlp (WV_BYTES mem')"
proof -
  obtain v where v: "value_of_type wlp v" "value_in_range (we_fp env) wlp v" "mem' = poke 0 (value_bytes env v) mem"
    using assms(1) by (auto simp: stores_value_def)
  have "take (length (value_bytes env v)) mem' = value_bytes env v"
    by (cases "value_bytes env v = []") (simp_all add: v(3) poke_0)
  then show ?thesis using v assms(2) by (auto simp: wv_ok_def)
qed

lemma stores_value_string:
  assumes "stores_value env wlp 0 mem mem'" "wlp_get_base_type wlp = WLP_RAW_STRING"
  shows "wv_ok env wlp (WV_STRING mem')"
proof -
  obtain v where v: "value_of_type wlp v" "value_in_range (we_fp env) wlp v" "mem' = poke 0 (value_bytes env v) mem"
    using assms(1) by (auto simp: stores_value_def)
  then obtain s where s: "v = VString s" "NUL \<notin> set s" using assms(2) by (cases v) (auto simp: value_of_type_def)
  then show ?thesis using v by (auto simp: wv_ok_def poke_0 cstr_string)
qed

lemma tsobj_wlpgen_param_proc_ok:
  assumes "env_ok env" "jn_strings node" "descr_ok env wlp"
    "tsobj_wlpgen_param_proc env node wlp = Some (WLPARAM_OK, es, v)"
  shows "wv_ok env wlp v"
proof (cases "wlp_get_base_type wlp = WLP_RAW_STRING")
  case True
  define mem where "mem = we_fresh env (str_length (wlp_range wlp))"
  have "0 + wlp_size wlp \<le> length mem" using True assms(1) by (simp add: wlp_size_def env_ok_def mem_def)
  then show ?thesis
    using tsobj_wlparam_proc_stores [OF assms(2,3), of 0 mem] assms(1,4) True stores_value_string [OF _ True]
    by (auto simp: tsobj_wlpgen_param_proc_def mem_def [symmetric] env_ok_def)
next
  case False
  define mem where "mem = we_fresh env 16"
  have "0 + wlp_size wlp \<le> length mem" using wlp_size_16 [OF assms(3) False] assms(1) by (simp add: env_ok_def mem_def)
  then show ?thesis
    using tsobj_wlparam_proc_stores [OF assms(2,3), of 0 mem] assms(1,4) False stores_value_bytes [OF _ False assms(1)]
    by (auto simp: tsobj_wlpgen_param_proc_def mem_def [symmetric] env_ok_def)
qed

lemma parray_loop_ok:
  assumes "env_ok env" "descr_ok env wlp" "parray_loop env wlp n ret vals els = Some (WLPARAM_OK, es, vals')"
    "\<forall>el \<in> set els. jn_strings el" "\<forall>v \<in> set vals. wv_ok env wlp v"
  shows "length vals' = length vals + length els \<and> (\<forall>v \<in> set vals'. wv_ok env wlp v)"
  using assms(3-5)
proof (induction els arbitrary: ret vals)
  case (Cons el els)
  from Cons.prems(1) obtain es1 v where p: "tsobj_wlpgen_param_proc env el wlp = Some (WLPARAM_OK, es1, v)"
    and rest: "parray_loop env wlp n WLPARAM_OK (vals @ [v]) els = Some (WLPARAM_OK, es, vals')"
    by (auto split: if_splits option.splits)
  have "wv_ok env wlp v" using tsobj_wlpgen_param_proc_ok [OF assms(1) _ assms(2) p] Cons.prems(2) by simp
  then have "\<forall>w \<in> set (vals @ [v]). wv_ok env wlp w" using Cons.prems(3) by auto
  moreover have "\<forall>el \<in> set els. jn_strings el" using Cons.prems(2) by auto
  ultimately have "length vals' = length (vals @ [v]) + length els \<and> (\<forall>v \<in> set vals'. wv_ok env wlp v)"
    by (rule Cons.IH [OF rest, rotated])
  then show ?case by simp
qed simp

lemma tsobj_wlpgen_proc_parray_ok:
  assumes "env_ok env" "descr_ok env wlp" "node_ok True node"
    "tsobj_wlpgen_proc_parray env node wlp p = Some (WLPARAM_OK, es, p')"
  shows "entry_ok env wlp p'"
proof -
  obtain vals where l: "parray_loop env wlp (jn_children_count node) WLPARAM_ERROR [] (jn_child_head node) = Some (WLPARAM_OK, es, vals)"
    and p': "p' = p\<lparr>p_valarray := vals, p_length := jn_children_count node\<rparr>" "jn_children_count node \<noteq> 0"
    using assms(4) by (auto simp: tsobj_wlpgen_proc_parray_def Let_def split: if_splits option.splits)
  have "jn_children_count node = length (jn_child_head node)" using assms(3) by (cases node) (simp add: node_ok_def)
  moreover have "\<forall>el \<in> set (jn_child_head node). jn_strings el"
    using node_ok_children [OF assms(3)] by (simp add: node_ok_def)
  ultimately show ?thesis using parray_loop_ok [OF assms(1,2) l] p' by (simp add: entry_ok_def)
qed

section \<open>Probability maps\<close>

definition step_ok :: "'d wlp_env \<Rightarrow> 'd wlp_descr \<Rightarrow> wlparam_ret \<Rightarrow> bool \<Rightarrow> 'd wlpgen_probability \<Rightarrow> bool" where
  "step_ok env wlp ret goes_on p \<longleftrightarrow> (if goes_on then ret = WLPARAM_OK \<and> entry_ok env wlp p else ret \<noteq> WLPARAM_OK)"

lemma pmap_value_ok:
  assumes "env_ok env" "descr_ok env wlp" "\<And>x. val = Some x \<Longrightarrow> node_ok True x" "\<And>x. va = Some x \<Longrightarrow> node_ok True x"
    "(val = None) \<noteq> (va = None)" "p_length p = 0"
    "pmap_value env wlp ret p prob val va e = Some (ret1, goes_on, es, p1, prob1, e1)"
  shows "step_ok env wlp ret1 goes_on p1"
proof (cases val)
  case None
  then obtain x where va: "va = Some x" "node_ok True x" using assms(4,5) by auto
  obtain r where "tsobj_wlpgen_proc_parray env x wlp p = Some (ret1, es, p1)" "goes_on \<longleftrightarrow> ret1 = WLPARAM_OK"
    using assms(7) None va by (auto simp: pmap_value_def)
  then show ?thesis using tsobj_wlpgen_proc_parray_ok [OF assms(1,2) va(2)] by (auto simp: step_ok_def)
next
  case (Some x)
  then have x: "va = None" "node_ok True x" using assms(3,5) by auto
  then obtain v where "tsobj_wlpgen_param_proc env x wlp = Some (ret1, es, v)" "goes_on \<longleftrightarrow> ret1 = WLPARAM_OK"
    "p1 = p\<lparr>p_value := v\<rparr>" using assms(7) Some by (auto simp: pmap_value_def)
  then show ?thesis using tsobj_wlpgen_param_proc_ok [OF assms(1) _ assms(2)] x(2) assms(6)
    by (auto simp: step_ok_def entry_ok_def node_ok_def)
qed

lemma exclusive_children: "exclusive p \<Longrightarrow> \<not> (child_named p ''value'' \<and> child_named p ''valarray'')"
  by (cases p) simp

lemma pmap_element_ok:
  assumes "env_ok env" "descr_ok env wlp" "node_ok True el"
    "pmap_element env wlp ret el e = Some (ret1, goes_on, es, p, prob, e1)"
  shows "step_ok env wlp ret1 goes_on p"
proof (rule ccontr)
  assume no: "\<not> ?thesis"
  define p0 where "p0 = \<lparr>p_value = WV_UNSET, p_valarray = [], p_length = 0, p_probability = we_garbage env\<rparr>"
  define zero where "zero = fp_of_int (we_fp env) 0"
  note el = assms(4) [unfolded pmap_element_def Let_def, folded p0_def zero_def]
  have bad: "step_ok env wlp WLPARAM_TSOBJ_BAD False q" for q by (simp add: step_ok_def)
  from el no bad obtain err1 pr el1 ea val el2 eb va el3 ec where
    a: "json_get_double zero el ''probability'' e = Some (err1, pr, el1, ea)"
    and b: "json_find el1 ''value'' ea = Some (val, el2, eb)"
    and c: "json_find_opt el2 ''valarray'' eb = Some (va, el3, ec)"
    and v: "pmap_value env wlp ret p0 (the pr) (map_option (\<lambda>i. jn_child_head el3 ! i) val)
      (map_option (\<lambda>i. jn_child_head el3 ! i) va) ec = Some (ret1, goes_on, es, p, prob, e1)"
    and some: "\<not> (val = None \<and> va = None)"
    by (fastforce split: if_splits option.splits)
  let ?child = "map_option (\<lambda>i. jn_child_head el3 ! i)"
  have t1: "touches el el1" using json_get_touches a unfolding json_get_double_def by blast
  have t2: "touches el1 el2" by (rule json_find_touches [OF b])
  have t3: "touches el2 el3" by (rule json_find_opt_touches [OF c])
  have t: "touches el el3" using t1 t2 t3 touches_trans by blast
  have lens: "length (jn_child_head el3) = length (jn_child_head el2)" using t3 unfolding touches_def by (metis length_map)
  have val: "node_ok True x" if "?child val = Some x" for x
    using that json_find_some [of el1 "''value''" ea _ el2 eb] b lens node_ok_touches [OF t assms(3)] by auto
  have va: "node_ok True x" if "?child va = Some x" for x
    using that json_find_opt_some [of el2 "''valarray''" eb _ el3 ec] c node_ok_touches [OF t assms(3)] by auto
  have "child_named el ''value''" if "val = Some i" for i
    using json_find_some [OF b [unfolded that]] touches_named [OF t1] by simp
  moreover have "child_named el ''valarray''" if "va = Some i" for i
    using json_find_opt_some [OF c [unfolded that]] touches_named [OF touches_trans [OF t1 t2]] by simp
  ultimately have "\<not> (val \<noteq> None \<and> va \<noteq> None)"
    using exclusive_children [of el] assms(3) by (cases val; cases va) (auto simp: node_ok_def)
  then have "(?child val = None) \<noteq> (?child va = None)" using some by auto
  from pmap_value_ok [OF assms(1,2) val va this _ v] show False using no by (simp add: p0_def)
qed

lemma entry_ok_probability [simp]: "entry_ok env wlp (p\<lparr>p_probability := x\<rparr>) = entry_ok env wlp p"
  by (simp add: entry_ok_def)

lemma pmap_loop_ok:
  assumes "env_ok env" "descr_ok env wlp"
    "pmap_loop env wlp n ret pmap tot els e = Some (ret', goes_on, es, pmap', tot', e')"
    "\<forall>el \<in> set els. node_ok True el" "\<forall>p \<in> set pmap. entry_ok env wlp p"
  shows "if goes_on then length pmap' = length pmap + length els \<and> (els \<noteq> [] \<longrightarrow> ret' = WLPARAM_OK) \<and>
           (\<forall>p \<in> set pmap'. entry_ok env wlp p) else ret' \<noteq> WLPARAM_OK"
  using assms(3-5)
proof (induction els arbitrary: ret pmap tot e)
  case (Cons el els)
  from Cons.prems(1) obtain ret1 go es1 p prob e1 where s: "pmap_element env wlp ret el e = Some (ret1, go, es1, p, prob, e1)"
    by (auto split: if_splits option.splits)
  have ok: "step_ok env wlp ret1 go p" using pmap_element_ok [OF assms(1,2) _ s] Cons.prems(2) by simp
  show ?case
  proof (cases go)
    case False
    then show ?thesis using Cons.prems(1) s ok by (auto simp: Let_def step_ok_def split: if_splits)
  next
    case True
    let ?pmap = "pmap @ [p\<lparr>p_probability := prob\<rparr>]"
    have l: "pmap_loop env wlp n ret1 ?pmap (fp_add (we_fp env) tot prob) els e1 = Some (ret', goes_on, es, pmap', tot', e')"
      using Cons.prems(1) s True by (simp add: Let_def split: if_splits)
    have els: "\<forall>el \<in> set els. node_ok True el" and p: "\<forall>p \<in> set ?pmap. entry_ok env wlp p" and r: "ret1 = WLPARAM_OK"
      using Cons.prems(2,3) ok True by (auto simp: step_ok_def)
    show ?thesis using Cons.IH [OF l els p] l r by (cases els) auto
  qed
qed auto

lemma tsobj_wlpgen_proc_pmap_ok:
  assumes "env_ok env" "descr_ok env wlp" "node_ok True node"
    "tsobj_wlpgen_proc_pmap env node wlp e = Some (WLPARAM_OK, es, pmap, e')"
  shows "pmap \<noteq> [] \<and> (\<forall>p \<in> set pmap. entry_ok env wlp p)"
proof -
  have n: "jn_children_count node = length (jn_child_head node)" using assms(3) by (cases node) (simp add: node_ok_def)
  obtain ret go es1 pm tot e1 where l: "pmap_loop env wlp (jn_children_count node) (we_ret env) [] (fp_of_int (we_fp env) 0)
      (jn_child_head node) e = Some (ret, go, es1, pm, tot, e1)"
    using assms(4) by (auto simp: tsobj_wlpgen_proc_pmap_def Let_def split: if_splits option.splits)
  note ok = pmap_loop_ok [OF assms(1,2) l]
  have "\<forall>el \<in> set (jn_child_head node). node_ok True el" using node_ok_children [OF assms(3)] by blast
  then show ?thesis using ok assms(4) n l
    by (auto simp: tsobj_wlpgen_proc_pmap_def Let_def split: if_splits)
qed

section \<open>Generators\<close>

lemma report_simps [simp]:
  "ws_params (report es s) = ws_params s" "ws_gens (report es s) = ws_gens s" "ws_errno (report es s) = ws_errno s"
  "ws_rgs (report es s) = ws_rgs s" "ws_store (report es s) = ws_store s"
  by (simp_all add: report_def)

lemma destroy_rg_simps [simp]: "ws_params (destroy_rg a s) = ws_params s" "ws_gens (destroy_rg a s) = ws_gens s"
  by (simp_all add: destroy_rg_def Let_def split: option.splits prod.splits)

lemma add_gen_simps [simp]:
  "ws_params (add_gen wlp g s) = ws_params s" "ws_gens (add_gen wlp g s) = ws_gens s @ [\<lparr>gen_wlp = wlp, gen_generator = g\<rparr>]"
  by (simp_all add: add_gen_def)

text \<open>A request parameter adds one well-typed generator, or nothing on failure.\<close>

definition extends :: "'d wlp_env \<Rightarrow> 'd wlp_descr \<Rightarrow> wlparam_ret \<Rightarrow> 'd wlp_sys \<Rightarrow> 'd wlp_sys \<Rightarrow> bool" where
  "extends env wlp ret s s' \<longleftrightarrow> ws_params s' = ws_params s \<and>
     (if ret = WLPARAM_OK then \<exists>g. ws_gens s' = ws_gens s @ [g] \<and> gen_wlp g = wlp \<and> gen_ok env g
      else ws_gens s' = ws_gens s)"

lemma random_or_destroy_extends:
  assumes "descr_ok env wlp" "random_or_destroy wlp a rv (ret0, es, pmap, e) s = (ret, s')"
    "ret0 = WLPARAM_OK \<Longrightarrow> (pmap = [] \<longrightarrow> wlp_get_base_type wlp \<in> {WLP_INTEGER, WLP_FLOAT}) \<and> (\<forall>p \<in> set pmap. entry_ok env wlp p)"
  shows "extends env wlp ret s s'"
  using assms by (auto simp: random_or_destroy_def extends_def gen_ok_def Let_def)

lemma wlpgen_random_extends:
  assumes "env_ok env" "descr_ok env wlp" "\<And>n. o_pmap = Some n \<Longrightarrow> node_ok True n"
    "o_pmap = None \<Longrightarrow> wlp_get_base_type wlp \<in> {WLP_INTEGER, WLP_FLOAT}"
    "wlpgen_random env wlp a o_randvar o_pmap s = Some (ret, s')"
  shows "extends env wlp ret s s'"
proof -
  define go where "go rv s = (case o_pmap of
      None \<Rightarrow> Some (random_or_destroy wlp a rv (WLPARAM_OK, [], [], ws_errno s) s)
    | Some node \<Rightarrow> map_option (\<lambda>res. random_or_destroy wlp a rv res s) (tsobj_wlpgen_proc_pmap env node wlp (ws_errno s)))" for rv s
  have go: "extends env wlp r t t'" if run: "go rv t = Some (r, t')" for rv t r t'
  proof (cases o_pmap)
    case None
    then show ?thesis using run assms(4) by (intro random_or_destroy_extends [OF assms(2)]) (auto simp: go_def)
  next
    case (Some n)
    then obtain ret0 es pm e where p: "tsobj_wlpgen_proc_pmap env n wlp (ws_errno t) = Some (ret0, es, pm, e)"
      and r: "random_or_destroy wlp a rv (ret0, es, pm, e) t = (r, t')"
      using run by (cases "tsobj_wlpgen_proc_pmap env n wlp (ws_errno t)") (auto simp: go_def)
    show ?thesis
      by (rule random_or_destroy_extends [OF assms(2) r])
         (use tsobj_wlpgen_proc_pmap_ok [OF assms(1,2) assms(3) [OF Some]] p in blast)
  qed
  show ?thesis
  proof (cases o_randvar)
    case None
    then show ?thesis using assms(5) go by (simp add: wlpgen_random_def go_def [symmetric] Let_def)
  next
    case (Some nd)
    then consider es e nd1 where "ret = WLPARAM_ERROR" "s' = report (es @ [TSE_INVALID_VALUE]) (destroy_rg a s\<lparr>ws_errno := e\<rparr>)"
      | rv es e where "go (Some rv) ((report es s)\<lparr>ws_errno := e\<rparr>) = Some (ret, s')"
      using assms(5) by (auto simp: wlpgen_random_def go_def [symmetric] Let_def split: option.splits)
    then show ?thesis by cases (auto simp: extends_def dest!: go)
  qed
qed

lemma wlpgen_new_random_extends:
  assumes "env_ok env" "descr_ok env wlp" "\<And>n. o_pmap = Some n \<Longrightarrow> node_ok True n"
    "o_pmap = None \<Longrightarrow> wlp_get_base_type wlp \<in> {WLP_INTEGER, WLP_FLOAT}"
    "wlpgen_new_random env wlp o_randgen o_randvar o_pmap s = Some (ret, s')"
  shows "extends env wlp ret s s'"
  using assms(5) wlpgen_random_extends [OF assms(1-4)]
  by (fastforce simp: wlpgen_new_random_def Let_def extends_def split: option.splits rg_created.splits)

lemma json_get_code: "json_get ty Inr p name e = Some (c, v, q, e') \<Longrightarrow> (v \<noteq> None) = (c = JSON_OK)"
  by (auto simp: json_get_def Let_def split: option.splits if_splits)

lemma tsobj_wlpgen_proc_extends:
  assumes "env_ok env" "descr_ok env wlp" "node_ok True node" "tsobj_wlpgen_proc env node wlp s = Some (ret, s')"
  shows "extends env wlp ret s s'"
proof (cases "jn_type node = JSON_NODE")
  case False
  then obtain es v where v: "tsobj_wlpgen_param_proc env node wlp = Some (ret, es, v)"
    and s': "s' = report es (if ret = WLPARAM_OK then add_gen wlp (WLPG_VALUE v) s else s)"
    using assms(4) by (auto simp: tsobj_wlpgen_proc_def Let_def split: option.splits)
  show ?thesis using tsobj_wlpgen_param_proc_ok [OF assms(1) _ assms(2)] assms(2,3) v
    by (auto simp: s' extends_def gen_ok_def node_ok_def)
next
  case True
  show ?thesis
  proof (rule ccontr)
    assume no: "\<not> ?thesis"
    have fails: "extends env wlp WLPARAM_TSOBJ_BAD s (report es (s\<lparr>ws_errno := e\<rparr>))" for es e by (simp add: extends_def)
    note run = assms(4) [unfolded tsobj_wlpgen_proc_def Let_def json_get_node_def json_get_array_def]
    from run True no fails obtain err0 rg node1 e1 err2 pm node2 e2 err1 rv node3 e3 where
      g: "json_get JSON_NODE Inr node ''randgen'' (ws_errno s) = Some (err0, rg, node1, e1)"
      and p: "json_get JSON_ARRAY Inr node1 ''pmap'' e1 = Some (err2, pm, node2, e2)"
      and num: "err2 = JSON_OK \<or> wlp_get_base_type wlp \<in> {WLP_INTEGER, WLP_FLOAT}"
      and n: "wlpgen_new_random env wlp (the rg) rv pm (s\<lparr>ws_errno := e3\<rparr>) = Some (ret, s')"
      by (fastforce split: if_splits option.splits)
    have pm: "node_ok True x" if "pm = Some x" for x
      using json_get_some [OF p [unfolded that]] node_ok_touches [OF touches_trans, OF json_get_touches [OF g]] assms(3) by blast
    have "extends env wlp ret (s\<lparr>ws_errno := e3\<rparr>) s'"
      by (rule wlpgen_new_random_extends [OF assms(1,2) pm _ n]) (use num json_get_code [OF p] in auto)
    then show False using no by (auto simp: extends_def split: if_splits)
  qed
qed

lemma wlpgen_create_default_extends:
  assumes "env_ok env" "descr_ok env wlp" "default_ok env wlp" "wlpgen_create_default env wlp s = Some (ret, s')"
  shows "extends env wlp ret s s'"
proof (cases "wlp_get_base_type wlp = WLP_RAW_STRING")
  case True
  then obtain str where str: "d_s (wlp_defval wlp) = Some str" "value_of_type wlp (VString str)" "value_in_range (we_fp env) wlp (VString str)"
    using assms(3) by (auto simp: default_ok_def default_value_def Let_def split: option.splits)
  then have "cstr (str @ [NUL]) = str" by (intro cstr_string) (simp add: value_of_type_def)
  then show ?thesis using str True assms(2,4) by (auto simp: wlpgen_create_default_def extends_def gen_ok_def wv_ok_def)
next
  case False
  have "0 + wlp_size wlp \<le> length (we_fresh env 16)" using wlp_size_16 [OF assms(2) False] assms(1) by (simp add: env_ok_def)
  then obtain mem where m: "wlparam_set_default env wlp 0 (we_fresh env 16) = Some (WLPARAM_OK, [], mem)"
    "stores_value env wlp 0 (we_fresh env 16) mem"
    using wlparam_set_default_stores [OF assms(3), of 0 "we_fresh env 16"] assms(1) by (auto simp: env_ok_def)
  then show ?thesis using stores_value_bytes [OF m(2) False assms(1)] False assms(2,4)
    by (auto simp: wlpgen_create_default_def extends_def gen_ok_def)
qed

text \<open>A parameter of requests leaves the parameters of the workload alone.\<close>

lemma wlpgen_random_params: "wlpgen_random env wlp a rv pm s = Some (ret, s') \<Longrightarrow> ws_params s' = ws_params s"
  by (auto simp: wlpgen_random_def random_or_destroy_def Let_def split: option.splits prod.splits if_splits)

lemma wlpgen_new_random_params: "wlpgen_new_random env wlp rg rv pm s = Some (ret, s') \<Longrightarrow> ws_params s' = ws_params s"
  by (auto simp: wlpgen_new_random_def Let_def split: option.splits prod.splits rg_created.splits dest!: wlpgen_random_params)

lemma tsobj_wlpgen_proc_params: "tsobj_wlpgen_proc env node wlp s = Some (ret, s') \<Longrightarrow> ws_params s' = ws_params s"
  by (auto simp: tsobj_wlpgen_proc_def Let_def split: option.splits prod.splits if_splits dest!: wlpgen_new_random_params)

lemma wlpgen_create_default_params: "wlpgen_create_default env wlp s = Some (ret, s') \<Longrightarrow> ws_params s' = ws_params s"
  by (auto simp: wlpgen_create_default_def split: option.splits if_splits)

section \<open>All parameters\<close>

abbreviation is_request :: "'d wlp_descr \<Rightarrow> bool" where
  "is_request wlp \<equiv> has_flag wlp WLPF_REQUEST \<and> \<not> is_output wlp"

abbreviation is_plain :: "'d wlp_descr \<Rightarrow> bool" where
  "is_plain wlp \<equiv> \<not> has_flag wlp WLPF_REQUEST \<and> \<not> is_output wlp"

definition slots_apart :: "'d wlp_descr \<Rightarrow> 'd wlp_descr \<Rightarrow> bool" where
  "slots_apart a b \<longleftrightarrow> wlp_off a + wlp_size a \<le> wlp_off b \<or> wlp_off b + wlp_size b \<le> wlp_off a"

text \<open>
  A table of descriptors: optional parameters have a default value that fits, and the slots of the parameters of the workload
  and those of the parameters of a request lie in their structures without overlap.
\<close>

definition table_ok :: "'d wlp_env \<Rightarrow> nat \<Rightarrow> nat \<Rightarrow> 'd wlp_descr list \<Rightarrow> bool" where
  "table_ok env params_size rqparams_size wlps \<longleftrightarrow>
     (\<forall>wlp \<in> set wlps. descr_ok env wlp \<and> (has_flag wlp WLPF_OPTIONAL \<longrightarrow> default_ok env wlp) \<and>
        wlp_off wlp + wlp_size wlp \<le> (if has_flag wlp WLPF_REQUEST then rqparams_size else params_size)) \<and>
     sorted_wrt slots_apart (filter is_plain wlps) \<and> sorted_wrt slots_apart (filter is_request wlps)"

definition param_typed :: "'d wlp_env \<Rightarrow> 'd wlp_descr \<Rightarrow> char list \<Rightarrow> bool" where
  "param_typed env wlp mem \<longleftrightarrow>
     (\<exists>v. value_of_type wlp v \<and> value_in_range (we_fp env) wlp v \<and> slot_holds env (wlp_off wlp) v mem)"

lemma wlparam_proc_one_plain:
  assumes "env_ok env" "descr_ok env wlp" "has_flag wlp WLPF_OPTIONAL \<longrightarrow> default_ok env wlp"
    "wlp_off wlp + wlp_size wlp \<le> length (ws_params s)" "is_plain wlp" "\<And>x. nd = Some x \<Longrightarrow> node_ok ex x"
    "wlparam_proc_one env wlp nd s = Some (WLPARAM_OK, s')"
  shows "ws_gens s' = ws_gens s \<and> stores_value env wlp (wlp_off wlp) (ws_params s) (ws_params s')"
proof -
  have dbl: "length (we_dbl env d) = 8" for d using assms(1) by (simp add: env_ok_def)
  show ?thesis
  proof (cases nd)
    case None
    then have "default_ok env wlp" using assms(3,5,7) by (auto simp: wlparam_proc_one_def Let_def split: if_splits)
    from wlparam_set_default_stores [OF this assms(4) dbl] show ?thesis using None assms(5,7)
      by (auto simp: wlparam_proc_one_def Let_def split: if_splits)
  next
    case (Some x)
    then have "jn_strings x" using assms(6) by (simp add: node_ok_def)
    from tsobj_wlparam_proc_stores [OF this assms(2,4) dbl] show ?thesis using Some assms(5,7)
      by (auto simp: wlparam_proc_one_def Let_def)
  qed
qed

lemma wlparam_proc_one_request:
  assumes "env_ok env" "descr_ok env wlp" "has_flag wlp WLPF_OPTIONAL \<longrightarrow> default_ok env wlp"
    "is_request wlp" "\<And>x. nd = Some x \<Longrightarrow> node_ok True x" "wlparam_proc_one env wlp nd s = Some (WLPARAM_OK, s')"
  shows "extends env wlp WLPARAM_OK s s'"
proof (cases nd)
  case None
  then show ?thesis using assms(3,4,6) wlpgen_create_default_extends [OF assms(1,2)]
    by (auto simp: wlparam_proc_one_def Let_def split: if_splits)
next
  case (Some x)
  then show ?thesis using assms(4-6) tsobj_wlpgen_proc_extends [OF assms(1,2)]
    by (auto simp: wlparam_proc_one_def Let_def)
qed

lemma wlparam_proc_one_request_params:
  "is_request wlp \<Longrightarrow> wlparam_proc_one env wlp nd s = Some (ret, s') \<Longrightarrow> ws_params s' = ws_params s"
  by (auto simp: wlparam_proc_one_def Let_def split: option.splits if_splits
      dest!: tsobj_wlpgen_proc_params wlpgen_create_default_params)

lemma wlparam_proc_one_output:
  "is_output wlp \<Longrightarrow> wlparam_proc_one env wlp nd s = Some (WLPARAM_OK, s') \<Longrightarrow> s' = s"
  by (auto simp: wlparam_proc_one_def Let_def split: option.splits)

lemma table_ok_Cons:
  assumes "table_ok env ps rs (w # ws)"
  shows "table_ok env ps rs ws" "descr_ok env w" "has_flag w WLPF_OPTIONAL \<longrightarrow> default_ok env w"
    "\<not> has_flag w WLPF_REQUEST \<Longrightarrow> wlp_off w + wlp_size w \<le> ps"
    "is_plain w \<Longrightarrow> \<forall>x \<in> set ws. is_plain x \<longrightarrow> slots_apart w x"
  using assms by (auto simp: table_ok_def split: if_splits)

lemma param_typed_other:
  assumes "param_typed env w mem" "slots_apart w x" "stores_value env x (wlp_off x) mem mem'"
    "wlp_off x + wlp_size x \<le> length mem" "env_ok env"
  shows "param_typed env w mem'"
proof -
  have dbl: "\<And>d. length (we_dbl env d) = 8" using assms(5) by (simp add: env_ok_def)
  obtain v where v: "value_of_type w v" "value_in_range (we_fp env) w v" "slot_holds env (wlp_off w) v mem"
    using assms(1) by (auto simp: param_typed_def)
  obtain u where u: "value_of_type x u" "mem' = poke (wlp_off x) (value_bytes env u) mem"
    using assms(3) by (auto simp: stores_value_def)
  note sz = value_bytes_size [OF v(1) dbl] value_bytes_size [OF u(1) dbl]
  have "slot_holds env (wlp_off w) v mem'"
    unfolding u(2) using sz assms(2,4) by (intro slot_holds_poke_other [OF v(3)]) (auto simp: slots_apart_def)
  then show ?thesis using v by (auto simp: param_typed_def)
qed

lemma stores_param_typed:
  assumes "stores_value env w (wlp_off w) mem mem'" "wlp_off w + wlp_size w \<le> length mem" "env_ok env"
  shows "length mem' = length mem \<and> param_typed env w mem'"
  using stores_value_holds [OF assms(1,2)] assms(3) by (auto simp: param_typed_def env_ok_def)

text \<open>
  What an accepted table leaves behind; the generators of the requests are only claimed to be
  well typed when the configuration is exclusive (\<open>ex\<close>).
\<close>

definition params_done ::
    "bool \<Rightarrow> 'd wlp_env \<Rightarrow> 'd wlp_descr list \<Rightarrow> 'd wlp_sys \<Rightarrow> 'd wlp_sys \<Rightarrow> bool" where
  "params_done ex env wlps s s' \<longleftrightarrow> length (ws_params s') = length (ws_params s) \<and>
     (\<forall>w \<in> set wlps. is_plain w \<longrightarrow> param_typed env w (ws_params s')) \<and>
     (ex \<longrightarrow> (\<exists>gs. ws_gens s' = ws_gens s @ gs \<and> map gen_wlp gs = filter is_request wlps \<and> (\<forall>g \<in> set gs. gen_ok env g)))"

definition params_kept :: "'d wlp_env \<Rightarrow> 'd wlp_descr list \<Rightarrow> 'd wlp_sys \<Rightarrow> 'd wlp_sys \<Rightarrow> bool" where
  "params_kept env wlps s s' \<longleftrightarrow>
     (\<forall>w. (\<forall>x \<in> set wlps. is_plain x \<longrightarrow> slots_apart w x) \<longrightarrow> param_typed env w (ws_params s) \<longrightarrow>
        param_typed env w (ws_params s'))"

text \<open>One parameter, as one step of the loop.\<close>

lemma wlparam_proc_one_done:
  assumes "env_ok env" "table_ok env (length (ws_params s)) rs (w # ws)" "\<And>x. nd = Some x \<Longrightarrow> node_ok ex x"
    "wlparam_proc_one env w nd s = Some (WLPARAM_OK, s')"
  shows "params_done ex env [w] s s' \<and> params_kept env [w] s s'"
proof -
  note t = table_ok_Cons [OF assms(2)]
  consider "is_output w" | "is_plain w" | "is_request w" by blast
  then show ?thesis
  proof cases
    case 1
    then show ?thesis using wlparam_proc_one_output [OF 1 assms(4)] by (simp add: params_done_def params_kept_def)
  next
    case 2
    have fits: "wlp_off w + wlp_size w \<le> length (ws_params s)" using t(4) 2 by simp
    have st: "ws_gens s' = ws_gens s" "stores_value env w (wlp_off w) (ws_params s) (ws_params s')"
      using wlparam_proc_one_plain [OF assms(1) t(2,3) fits 2 assms(3,4)] by auto
    show ?thesis using 2 st stores_param_typed [OF st(2) fits assms(1)] param_typed_other [OF _ _ st(2) fits assms(1)]
      by (auto simp: params_done_def params_kept_def)
  next
    case 3
    then have "ws_params s' = ws_params s" using assms(4) wlparam_proc_one_request_params by blast
    moreover have "extends env w WLPARAM_OK s s'" if ex
      using that assms(3) by (intro wlparam_proc_one_request [OF assms(1) t(2,3) 3 _ assms(4)]) (auto simp: node_ok_def)
    ultimately show ?thesis using 3 by (auto simp: extends_def params_done_def params_kept_def)
  qed
qed

lemma params_done_trans:
  assumes "params_done ex env [w] s s1" "params_done ex env ws s1 s2" "params_kept env ws s1 s2"
    "is_plain w \<Longrightarrow> \<forall>x \<in> set ws. is_plain x \<longrightarrow> slots_apart w x"
  shows "params_done ex env (w # ws) s s2"
  unfolding params_done_def
proof (intro conjI)
  show "\<forall>x \<in> set (w # ws). is_plain x \<longrightarrow> param_typed env x (ws_params s2)"
  proof (intro ballI impI)
    fix x assume x: "x \<in> set (w # ws)" "is_plain x"
    show "param_typed env x (ws_params s2)"
    proof (cases "x \<in> set ws")
      case True
      then show ?thesis using assms(2) x(2) by (simp add: params_done_def)
    next
      case False
      then have "x = w" using x(1) by simp
      moreover have "param_typed env w (ws_params s1)" using assms(1) x(2) \<open>x = w\<close> by (simp add: params_done_def)
      ultimately show ?thesis using assms(3,4) x(2) unfolding params_kept_def by blast
    qed
  qed
  show "ex \<longrightarrow> (\<exists>gs. ws_gens s2 = ws_gens s @ gs \<and> map gen_wlp gs = filter is_request (w # ws) \<and> (\<forall>g \<in> set gs. gen_ok env g))"
  proof
  assume ex
  with assms(1,2) obtain g1 g2 where g1: "ws_gens s1 = ws_gens s @ g1" "map gen_wlp g1 = filter is_request [w]" "\<forall>g \<in> set g1. gen_ok env g"
    and g2: "ws_gens s2 = ws_gens s1 @ g2" "map gen_wlp g2 = filter is_request ws" "\<forall>g \<in> set g2. gen_ok env g"
    unfolding params_done_def by blast
  have "map gen_wlp (g1 @ g2) = filter is_request (w # ws)" using g1(2) g2(2) by (simp split: if_splits)
  moreover have "ws_gens s2 = ws_gens s @ (g1 @ g2)" "\<forall>g \<in> set (g1 @ g2). gen_ok env g" using g1 g2 by auto
  ultimately show "\<exists>gs. ws_gens s2 = ws_gens s @ gs \<and> map gen_wlp gs = filter is_request (w # ws) \<and> (\<forall>g \<in> set gs. gen_ok env g)"
    by blast
  qed
qed (use assms(1,2) in \<open>simp add: params_done_def\<close>)

lemma params_kept_Cons:
  "params_kept env [w] s s1 \<Longrightarrow> params_kept env ws s1 s2 \<Longrightarrow> params_kept env (w # ws) s s2"
  by (simp add: params_kept_def)

lemma wlparam_proc_loop_done:
  assumes "env_ok env" "node_ok ex node0"
  shows "table_ok env (length (ws_params s)) rs wlps \<Longrightarrow> touches node0 node \<Longrightarrow>
     wlparam_proc_loop env wlps node s = Some (WLPARAM_OK, node', s') \<Longrightarrow>
     params_done ex env wlps s s' \<and> params_kept env wlps s s' \<and> touches node0 node'"
proof (induction wlps arbitrary: node s)
  case (Cons w ws)
  from Cons.prems(3) obtain i node1 e s1 where f: "json_find node (wlp_name w) (ws_errno s) = Some (i, node1, e)"
    and one: "wlparam_proc_one env w (map_option (\<lambda>i. jn_child_head node1 ! i) i) (s\<lparr>ws_errno := e\<rparr>) = Some (WLPARAM_OK, s1)"
    and rest: "wlparam_proc_loop env ws node1 s1 = Some (WLPARAM_OK, node', s')"
    by (auto split: option.splits if_splits)
  have t: "touches node0 node1" using touches_trans [OF Cons.prems(2) json_find_touches [OF f]] .
  have nd: "node_ok ex x" if "map_option (\<lambda>i. jn_child_head node1 ! i) i = Some x" for x
    using that json_find_some [of node "wlp_name w" "ws_errno s" _ node1 e] f node_ok_touches [OF t assms(2)] by auto
  have one_done: "params_done ex env [w] s s1" "params_kept env [w] s s1"
    using wlparam_proc_one_done [OF assms(1) _ nd one] Cons.prems(1) by (simp_all add: params_done_def params_kept_def)
  have len: "length (ws_params s1) = length (ws_params s)" using one_done(1) by (simp add: params_done_def)
  have "table_ok env (length (ws_params s1)) rs ws" using table_ok_Cons(1) [OF Cons.prems(1)] by (simp add: len)
  from Cons.IH [OF this t rest] one_done table_ok_Cons(5) [OF Cons.prems(1)] show ?case
    using params_done_trans params_kept_Cons by blast
qed (auto simp: params_done_def params_kept_def)

section \<open>Requests\<close>

text \<open>A slot that holds a value of its type; \<open>inr\<close> says that the value also lies in its range.\<close>

definition slot_typed :: "'d wlp_env \<Rightarrow> bool \<Rightarrow> 'd wlp_descr \<Rightarrow> char list \<Rightarrow> bool" where
  "slot_typed env inr wlp mem \<longleftrightarrow>
     (\<exists>v. value_of_type wlp v \<and> (inr \<longrightarrow> value_in_range (we_fp env) wlp v) \<and> slot_holds env (wlp_off wlp) v mem)"

definition writes_value :: "'d wlp_env \<Rightarrow> bool \<Rightarrow> 'd wlp_descr \<Rightarrow> char list \<Rightarrow> char list \<Rightarrow> bool" where
  "writes_value env inr wlp mem mem' \<longleftrightarrow>
     (\<exists>bs v. length bs \<le> wlp_size wlp \<and> mem' = poke (wlp_off wlp) bs mem \<and> value_of_type wlp v \<and>
        (inr \<longrightarrow> value_in_range (we_fp env) wlp v) \<and> take (length (value_bytes env v)) bs = value_bytes env v)"

lemma writes_value_typed:
  assumes "writes_value env inr w mem mem'" "wlp_off w + wlp_size w \<le> length mem"
  shows "length mem' = length mem \<and> slot_typed env inr w mem'"
proof -
  obtain bs v where v: "length bs \<le> wlp_size w" "mem' = poke (wlp_off w) bs mem" "value_of_type w v"
    "inr \<longrightarrow> value_in_range (we_fp env) w v" "take (length (value_bytes env v)) bs = value_bytes env v"
    using assms(1) by (auto simp: writes_value_def)
  have fits: "wlp_off w + length bs \<le> length mem" using v(1) assms(2) by simp
  have "length (value_bytes env v) \<le> length bs" using v(5) by (metis length_take min.cobounded1)
  moreover have "peek (wlp_off w) (length bs) mem' = bs" using fits by (simp add: v(2) peek_poke)
  ultimately have "peek (wlp_off w) (length (value_bytes env v)) mem' = value_bytes env v"
    using v(5) unfolding peek_def by (metis min.absorb1 take_take)
  then show ?thesis using v fits \<open>length (value_bytes env v) \<le> length bs\<close>
    by (auto simp: slot_typed_def slot_holds_def length_poke)
qed

lemma writes_value_other:
  assumes "slot_typed env inr w mem" "slots_apart w x" "writes_value env b x mem mem'"
    "wlp_off x + wlp_size x \<le> length mem" "env_ok env"
  shows "slot_typed env inr w mem'"
proof -
  have dbl: "\<And>d. length (we_dbl env d) = 8" using assms(5) by (simp add: env_ok_def)
  obtain v where v: "value_of_type w v" "inr \<longrightarrow> value_in_range (we_fp env) w v" "slot_holds env (wlp_off w) v mem"
    using assms(1) by (auto simp: slot_typed_def)
  obtain bs where u: "length bs \<le> wlp_size x" "mem' = poke (wlp_off x) bs mem"
    using assms(3) by (auto simp: writes_value_def)
  have "slot_holds env (wlp_off w) v mem'"
    unfolding u(2) using value_bytes_size [OF v(1) dbl] u(1) assms(2,4)
    by (intro slot_holds_poke_other [OF v(3)]) (auto simp: slots_apart_def)
  then show ?thesis using v by (auto simp: slot_typed_def)
qed

lemma value_bytes_exact:
  assumes "value_of_type wlp v" "wlp_get_base_type wlp \<noteq> WLP_RAW_STRING" "env_ok env"
  shows "length (value_bytes env v) = wlp_size wlp"
  using assms by (cases v) (auto simp: value_of_type_def wlp_size_def env_ok_def)

lemma strncpy_buf_string: "length s < n \<Longrightarrow> take (Suc (length s)) (strncpy_buf s n) = s @ [NUL]" "length (strncpy_buf s n) = n"
  by (auto simp: strncpy_buf_def Suc_diff_le take_Suc_conv_app_nth nth_append)

lemma wv_ok_bytes:
  assumes "wv_ok env wlp wv" "wlp_get_base_type wlp \<noteq> WLP_RAW_STRING"
  obtains bs v where "wv = WV_BYTES bs" "value_of_type wlp v" "value_in_range (we_fp env) wlp v"
    "take (length (value_bytes env v)) bs = value_bytes env v"
proof (cases wv)
  case (WV_BYTES bs)
  then show thesis using assms(1) that by (auto simp: wv_ok_def)
qed (use assms in \<open>simp_all add: wv_ok_def value_of_type_def\<close>)

lemma wlpgen_gen_value_writes:
  assumes "wv_ok env wlp wv" "env_ok env" "wlpgen_gen_value wlp wv (wlp_off wlp) mem = Some mem'"
  shows "writes_value env True wlp mem mem'"
proof (cases "wlp_get_base_type wlp = WLP_RAW_STRING")
  case True
  have "\<exists>str. wv = WV_STRING str \<and> value_of_type wlp (VString (cstr str)) \<and> value_in_range (we_fp env) wlp (VString (cstr str))"
    using assms(1) True by (cases wv) (auto simp: wv_ok_def)
  then obtain str where str: "wv = WV_STRING str" "value_of_type wlp (VString (cstr str))"
    "value_in_range (we_fp env) wlp (VString (cstr str))" by blast
  have "mem' = poke (wlp_off wlp) (strncpy_buf (cstr str) (str_length (wlp_range wlp))) mem"
    using assms(3) True str(1) by (auto simp: wlpgen_gen_value_def mem_put_def split: if_splits)
  moreover have "length (cstr str) < str_length (wlp_range wlp)" using str(2) by (simp add: value_of_type_def)
  ultimately show ?thesis unfolding writes_value_def using str True
    by (intro exI [of _ "strncpy_buf (cstr str) (str_length (wlp_range wlp))"] exI [of _ "VString (cstr str)"])
       (auto simp: strncpy_buf_string wlp_size_def)
next
  case False
  then obtain bs v where v: "wv = WV_BYTES bs" "value_of_type wlp v" "value_in_range (we_fp env) wlp v"
    "take (length (value_bytes env v)) bs = value_bytes env v"
    using wv_ok_bytes [OF assms(1)] by blast
  have "mem' = poke (wlp_off wlp) (take (wlp_size wlp) bs) mem"
    using assms(3) False v(1,2)
    by (cases v) (auto simp: value_of_type_def wlpgen_gen_value_def wlp_size_def mem_put_def Let_def split: if_splits)
  then show ?thesis unfolding writes_value_def using v value_bytes_exact [OF v(2) False assms(2)]
    by (intro exI [of _ "take (wlp_size wlp) bs"] exI [of _ v]) auto
qed

lemma pmap_pick_member: "pmap_pick fp val ps = (Some p, val') \<Longrightarrow> p \<in> set ps"
  by (induction fp val ps rule: pmap_pick.induct) (auto split: if_splits)

lemma wlpgen_gen_pmap_value_writes:
  assumes "entry_ok env wlp p" "env_ok env" "wlpgen_gen_pmap_value fp wlp val p (wlp_off wlp) mem = Some mem'"
  shows "writes_value env True wlp mem mem'"
proof (cases "p_length p = 0")
  case True
  then show ?thesis using assms wlpgen_gen_value_writes [of env wlp "p_value p"] by (simp add: entry_ok_def wlpgen_gen_pmap_value_def)
next
  case False
  then obtain i where "i < length (p_valarray p)" "wlpgen_gen_value wlp (p_valarray p ! i) (wlp_off wlp) mem = Some mem'"
    using assms(3) by (auto simp: wlpgen_gen_pmap_value_def Let_def split: if_splits)
  then show ?thesis using False assms(1,2) wlpgen_gen_value_writes [of env wlp "p_valarray p ! i"] by (simp add: entry_ok_def)
qed

lemma wlpgen_gen_pmap_writes:
  assumes "pmap \<noteq> []" "\<forall>p \<in> set pmap. entry_ok env wlp p" "env_ok env"
    "wlpgen_gen_pmap fp wlp val pmap (wlp_off wlp) mem = Some mem'"
  shows "writes_value env True wlp mem mem'"
proof -
  obtain p val1 where p: "p \<in> set pmap" "wlpgen_gen_pmap_value fp wlp val1 p (wlp_off wlp) mem = Some mem'"
  proof (cases "pmap_pick fp val pmap")
    case (Pair q val1)
    then show thesis using that [of "last pmap" val1] that [of "the q" val1] assms(1,4) pmap_pick_member [of fp val pmap "the q" val1]
      by (cases q) (simp_all add: wlpgen_gen_pmap_def)
  qed
  then show ?thesis using wlpgen_gen_pmap_value_writes [OF _ assms(3) p(2)] assms(2) by blast
qed

text \<open>A random number without a map is stored whatever the range says.\<close>

definition ranged :: "'d wlp_generator \<Rightarrow> bool" where
  "ranged g = (case gen_generator g of WLPG_RANDOM a rv pmap \<Rightarrow> pmap \<noteq> [] | _ \<Rightarrow> True)"

lemma put_integer_writes:
  assumes "wlp_get_base_type wlp = WLP_INTEGER" "put_integer (wlp_off wlp) i mem = Some mem'"
  shows "writes_value env False wlp mem mem'"
proof -
  have v: "value_of_type wlp (VInteger (sint (of_int i :: 64 word)))"
    using assms(1) sint_of_int_bounds [of i] by (simp add: value_of_type_def)
  have "mem' = poke (wlp_off wlp) (word_bytes 8 (of_int i :: 64 word)) mem"
    using assms(2) by (simp add: put_integer_def mem_put_def split: if_splits)
  then show ?thesis unfolding writes_value_def using v assms(1)
    by (intro exI [of _ "word_bytes 8 (of_int i :: 64 word)"] exI [of _ "VInteger (sint (of_int i :: 64 word))"])
       (simp add: wlp_size_def)
qed

lemma put_float_writes:
  assumes "wlp_get_base_type wlp = WLP_FLOAT" "put_float env (wlp_off wlp) d mem = Some mem'" "env_ok env"
  shows "writes_value env False wlp mem mem'"
  unfolding writes_value_def using assms
  by (intro exI [of _ "we_dbl env d"] exI [of _ "VFloat d"])
     (auto simp: put_float_def mem_put_def wlp_size_def value_of_type_def env_ok_def split: if_splits)

lemma wlpgen_gen_random_writes:
  assumes "gen_ok env g" "gen_generator g = WLPG_RANDOM a rv pmap" "env_ok env"
    "wlpgen_gen_random env (gen_wlp g) rg rv pmap mem = Some (mem', rg')"
  shows "writes_value env (ranged g) (gen_wlp g) mem mem'"
proof (cases "pmap = []")
  case True
  then have "wlp_get_base_type (gen_wlp g) = WLP_INTEGER \<or> wlp_get_base_type (gen_wlp g) = WLP_FLOAT"
    using assms(1,2) by (simp add: gen_ok_def)
  then show ?thesis using assms(4) True
    by (cases rv) (auto simp: wlpgen_gen_random_def Let_def ranged_def assms(2) split: option.splits prod.splits if_splits
      dest: put_integer_writes put_float_writes [OF _ _ assms(3)])
next
  case False
  then show ?thesis using assms wlpgen_gen_pmap_writes [OF False _ assms(3)]
    by (auto simp: wlpgen_gen_random_def Let_def ranged_def gen_ok_def split: prod.splits)
qed

lemma wlpgen_gen_one_writes:
  assumes "gen_ok env g" "env_ok env" "wlpgen_gen_one env g st mem = Some (mem', st')"
  shows "writes_value env (ranged g) (gen_wlp g) mem mem'"
proof (cases "gen_generator g")
  case (WLPG_VALUE v)
  then show ?thesis using assms wlpgen_gen_value_writes [of env "gen_wlp g" v]
    by (auto simp: wlpgen_gen_one_def gen_ok_def ranged_def)
next
  case (WLPG_RANDOM a rv pmap)
  then show ?thesis using assms(3) wlpgen_gen_random_writes [OF assms(1) WLPG_RANDOM assms(2)]
    by (auto simp: wlpgen_gen_one_def split: option.splits)
qed

lemma wlpgen_gen_loop_typed:
  assumes "env_ok env"
  shows "\<forall>g \<in> set gs. gen_ok env g \<and> wlp_off (gen_wlp g) + wlp_size (gen_wlp g) \<le> length mem \<Longrightarrow>
     sorted_wrt slots_apart (map gen_wlp gs) \<Longrightarrow> wlpgen_gen_loop env gs st mem = Some (mem', st') \<Longrightarrow>
     length mem' = length mem \<and> (\<forall>g \<in> set gs. slot_typed env (ranged g) (gen_wlp g) mem') \<and>
     (\<forall>w b. (\<forall>g \<in> set gs. slots_apart w (gen_wlp g)) \<longrightarrow> slot_typed env b w mem \<longrightarrow> slot_typed env b w mem')"
proof (induction gs arbitrary: st mem)
  case (Cons g gs)
  from Cons.prems(3) obtain mem1 st1 where one: "wlpgen_gen_one env g st mem = Some (mem1, st1)"
    and rest: "wlpgen_gen_loop env gs st1 mem1 = Some (mem', st')" by (auto split: option.splits)
  have fits: "wlp_off (gen_wlp g) + wlp_size (gen_wlp g) \<le> length mem" and ok: "gen_ok env g" using Cons.prems(1) by auto
  have w: "writes_value env (ranged g) (gen_wlp g) mem mem1" by (rule wlpgen_gen_one_writes [OF ok assms one])
  have t: "length mem1 = length mem" "slot_typed env (ranged g) (gen_wlp g) mem1" using writes_value_typed [OF w fits] by auto
  have other: "slot_typed env b x mem1" if "slots_apart x (gen_wlp g)" "slot_typed env b x mem" for x b
    by (rule writes_value_other [OF that(2,1) w fits assms])
  have "\<forall>g \<in> set gs. gen_ok env g \<and> wlp_off (gen_wlp g) + wlp_size (gen_wlp g) \<le> length mem1"
    and "sorted_wrt slots_apart (map gen_wlp gs)" and apart: "\<forall>x \<in> set gs. slots_apart (gen_wlp g) (gen_wlp x)"
    using Cons.prems(1,2) t(1) by auto
  note ih = Cons.IH [OF this(1,2) rest]
  then have "slot_typed env (ranged g) (gen_wlp g) mem'" using t(2) apart by blast
  then show ?case using ih t(1) other by auto
qed simp

section \<open>Type safety\<close>

lemma tsobj_wlparam_proc_all_done:
  assumes "env_ok env" "table_ok env (length (ws_params s)) rs wlps" "node_ok ex node"
    "tsobj_wlparam_proc_all env node wlps s = Some (WLPARAM_OK, node', s')"
  shows "params_done ex env wlps s s' \<and> json_check_unused (we_ignore_unused env) node' = JSON_OK"
proof -
  have l: "wlparam_proc_loop env wlps node s = Some (WLPARAM_OK, node', s')"
    and u: "json_check_unused (we_ignore_unused env) node' = JSON_OK"
    using assms(4) by (auto simp: tsobj_wlparam_proc_all_def Let_def split: if_splits option.splits)
  show ?thesis using wlparam_proc_loop_done [OF assms(1,3,2) touches_refl l] u by blast
qed

text \<open>
  C21. When the parameters of a workload are accepted, the slot of every parameter holds a value of its declared type and within its
  declared range, whether it comes from the configuration or is a default value; nothing is written outside of the
  structure, and every attribute of the configuration was used. The table is one whose default values fit and whose slots do
  not overlap (\<open>table_ok\<close>); the configuration is any tree of the parser.
\<close>

theorem wlparam_proc_all_typed:
  assumes "env_ok env" "table_ok env (length (ws_params s)) rs wlps" "jn_wf node" "jn_strings node"
    "tsobj_wlparam_proc_all env node wlps s = Some (WLPARAM_OK, node', s')"
  shows "length (ws_params s') = length (ws_params s) \<and>
     (\<forall>w \<in> set wlps. is_plain w \<longrightarrow> param_typed env w (ws_params s')) \<and>
     json_check_unused (we_ignore_unused env) node' = JSON_OK"
  using tsobj_wlparam_proc_all_done [OF assms(1,2) _ assms(5), of False] assms(3,4) by (simp add: params_done_def node_ok_def)

text \<open>
  C22. After that, every structure that is generated for a request holds a value of its declared type in the slot of
  every request parameter; the value lies in its range unless it is a random number without a map of probabilities. This
  is claimed for configurations in which no entry gives both \<open>value\<close> and \<open>valarray\<close> (\<open>exclusive\<close>): such an entry of a map is
  refused by the code with the result of the entry before it, so the parameter can be accepted with a generator that
  writes nothing (\<open>wlpgen_pmap_both_accepted\<close>).
\<close>

theorem wlpgen_request_typed:
  assumes "env_ok env" "table_ok env (length (ws_params s)) rs wlps" "jn_wf node" "jn_strings node" "ws_gens s = []"
    and no_entry_with_both: "exclusive node"
    and "tsobj_wlparam_proc_all env node wlps s = Some (WLPARAM_OK, node', s')"
    "ws_gens t = ws_gens s'" "wlpgen_generate env rs t = Some (rq, t')"
  shows "ws_gens t' = ws_gens s' \<and>
     (case rq of
        None \<Rightarrow> rs = 0
      | Some mem \<Rightarrow> length mem = rs \<and>
          (\<forall>w \<in> set wlps. is_request w \<longrightarrow>
             (\<exists>g \<in> set (ws_gens s'). gen_wlp g = w \<and> slot_typed env (ranged g) w mem)))"
proof -
  obtain gs where gs: "ws_gens s' = gs" "map gen_wlp gs = filter is_request wlps" "\<forall>g \<in> set gs. gen_ok env g"
    using tsobj_wlparam_proc_all_done [OF assms(1,2) _ assms(7), of True] assms(3-6) by (auto simp: params_done_def node_ok_def)
  show ?thesis
  proof (cases rq)
    case None
    then show ?thesis using assms(8,9) by (auto simp: wlpgen_generate_def split: if_splits)
  next
    case (Some mem)
    then obtain st where l: "wlpgen_gen_loop env gs (ws_store t) (we_fresh env rs) = Some (mem, st)"
      and t': "t' = t\<lparr>ws_store := st\<rparr>"
      using assms(8,9) gs(1) by (auto simp: wlpgen_generate_def split: if_splits)
    have len: "length (we_fresh env rs) = rs" using assms(1) by (simp add: env_ok_def)
    have mem: "g \<in> set gs \<Longrightarrow> gen_wlp g \<in> set wlps \<and> is_request (gen_wlp g)" for g
      using arg_cong [OF gs(2), of set] by auto
    have fits: "\<forall>g \<in> set gs. gen_ok env g \<and> wlp_off (gen_wlp g) + wlp_size (gen_wlp g) \<le> length (we_fresh env rs)"
    proof
      fix g assume g: "g \<in> set gs"
      then show "gen_ok env g \<and> wlp_off (gen_wlp g) + wlp_size (gen_wlp g) \<le> length (we_fresh env rs)"
        using mem [OF g] gs(3) assms(2) by (auto simp: table_ok_def len)
    qed
    have apart: "sorted_wrt slots_apart (map gen_wlp gs)" using assms(2) by (simp add: table_ok_def gs(2))
    note typed = wlpgen_gen_loop_typed [OF assms(1) fits apart l]
    have "\<exists>g \<in> set gs. gen_wlp g = w \<and> slot_typed env (ranged g) w mem" if w: "w \<in> set wlps" "is_request w" for w
    proof -
      have "w \<in> set (map gen_wlp gs)" unfolding gs(2) using w by simp
      then show ?thesis using typed by auto
    qed
    then show ?thesis using Some typed t' assms(8) gs(1) len by simp
  qed
qed

section \<open>Choice by probability\<close>

definition prob_sum :: "real wlpgen_probability list \<Rightarrow> nat \<Rightarrow> real" where
  "prob_sum pmap k = (\<Sum>p \<leftarrow> take k pmap. p_probability p)"

lemma pmap_pick_interval:
  "\<forall>p \<in> set ps. 0 < p_probability p \<Longrightarrow> 0 \<le> val \<Longrightarrow> val < prob_sum ps (length ps) \<Longrightarrow>
     \<exists>k < length ps. prob_sum ps k \<le> val \<and> val < prob_sum ps (Suc k) \<and>
       pmap_pick real_ops val ps = (Some (ps ! k), val - prob_sum ps k)"
proof (induction ps arbitrary: val)
  case (Cons p ps)
  show ?case
  proof (cases "val < p_probability p")
    case True
    then show ?thesis using Cons.prems by (intro exI [of _ 0]) (simp add: prob_sum_def)
  next
    case False
    then obtain k where "k < length ps" "prob_sum ps k \<le> val - p_probability p" "val - p_probability p < prob_sum ps (Suc k)"
      "pmap_pick real_ops (val - p_probability p) ps = (Some (ps ! k), val - p_probability p - prob_sum ps k)"
      using Cons.IH [of "val - p_probability p"] Cons.prems by (auto simp: prob_sum_def)
    then show ?thesis using False by (intro exI [of _ "Suc k"]) (auto simp: prob_sum_def)
  qed
qed (simp add: prob_sum_def)

definition picked :: "real \<Rightarrow> real wlpgen_probability \<Rightarrow> wlpgen_value" where
  "picked x p = (if p_length p = 0 then p_value p else p_valarray p ! nat \<lfloor>x / p_probability p * p_length p\<rfloor>)"

text \<open>
  C25. In exact arithmetic the entry \<open>k\<close> of the map is chosen exactly for the numbers between the sum of the probabilities before it
  and the sum that includes it, and the elements of its array share that interval evenly; the assertion on
  the index holds.
\<close>

theorem wlpgen_pmap_distribution:
  assumes "\<forall>p \<in> set pmap. 0 < p_probability p \<and> (p_length p = 0 \<or> p_length p = length (p_valarray p))"
    "0 \<le> u" "u < prob_sum pmap (length pmap)"
  shows "\<exists>k < length pmap. prob_sum pmap k \<le> u \<and> u < prob_sum pmap (Suc k) \<and>
     \<lfloor>(u - prob_sum pmap k) / p_probability (pmap ! k) * p_length (pmap ! k)\<rfloor> < max 1 (int (p_length (pmap ! k))) \<and>
     wlpgen_gen_pmap real_ops wlp u pmap off mem = wlpgen_gen_value wlp (picked (u - prob_sum pmap k) (pmap ! k)) off mem"
proof -
  have pos: "\<forall>p \<in> set pmap. 0 < p_probability p" using assms(1) by blast
  obtain k where k: "k < length pmap" "prob_sum pmap k \<le> u" "u < prob_sum pmap (Suc k)"
    "pmap_pick real_ops u pmap = (Some (pmap ! k), u - prob_sum pmap k)"
    using pmap_pick_interval [OF pos assms(2,3)] by blast
  define p x where "p = pmap ! k" and "x = u - prob_sum pmap k"
  have p: "0 < p_probability p" "p_length p = 0 \<or> p_length p = length (p_valarray p)"
    using assms(1) k(1) by (simp_all add: p_def)
  have x: "0 \<le> x" "x < p_probability p" using k(1-3) by (simp_all add: x_def p_def prob_sum_def take_Suc_conv_app_nth)
  define y where "y = x / p_probability p * real (p_length p)"
  have y: "0 \<le> y" "p_length p \<noteq> 0 \<longrightarrow> y < real (p_length p)"
    using x p(1) by (simp_all add: y_def divide_simps)
  then have fl: "0 \<le> \<lfloor>y\<rfloor>" "p_length p \<noteq> 0 \<longrightarrow> \<lfloor>y\<rfloor> < int (p_length p)" by linarith+
  have "wlpgen_gen_pmap_value real_ops wlp x p off mem = wlpgen_gen_value wlp (picked x p) off mem"
  proof (cases "p_length p = 0")
    case False
    moreover have "fp_trunc real_ops (fp_mul real_ops (fp_div real_ops x (p_probability p)) (fp_of_int real_ops (int (p_length p)))) = \<lfloor>y\<rfloor>"
      using y(1) by (simp add: y_def)
    moreover have "nat \<lfloor>y\<rfloor> < length (p_valarray p)" using False p(2) fl by (auto simp: nat_less_iff)
    ultimately show ?thesis using fl by (simp add: wlpgen_gen_pmap_value_def Let_def picked_def y_def)
  qed (simp add: wlpgen_gen_pmap_value_def picked_def)
  moreover have "\<lfloor>y\<rfloor> < max 1 (int (p_length p))"
    using fl by (cases "p_length p = 0") (auto simp: y_def)
  ultimately show ?thesis using k by (intro exI [of _ k]) (simp add: wlpgen_gen_pmap_def x_def p_def y_def)
qed

section \<open>An example\<close>

definition demo_range :: "real wlp_range" where
  "demo_range = \<lparr>r_range = False, str_length = 0, i_min = 0, i_max = 0, d_min = 0, d_max = 0, ss_num = 0, ss_strings = []\<rparr>"

definition demo_default :: "real wlp_default" where
  "demo_default = \<lparr>d_enabled = False, d_b = False, d_i = 0, d_f = 0, d_s = None, d_ssi = 0\<rparr>"

definition demo_count :: "real wlp_descr" where
  "demo_count = \<lparr>wlp_type = WLP_SIZE, wlp_flags = 0, wlp_range = demo_range\<lparr>r_range := True, i_min := 1, i_max := 10\<rparr>,
     wlp_defval = demo_default, wlp_name = ''count'', wlp_description = [], wlp_off = 0\<rparr>"

definition demo_mode :: "real wlp_descr" where
  "demo_mode = \<lparr>wlp_type = WLP_STRING_SET, wlp_flags = WLPF_OPTIONAL,
     wlp_range = demo_range\<lparr>r_range := True, ss_num := 2, ss_strings := [''a'', ''b'']\<rparr>,
     wlp_defval = demo_default\<lparr>d_enabled := True, d_ssi := 1\<rparr>, wlp_name = ''mode'', wlp_description = [], wlp_off = 8\<rparr>"

definition demo_path :: "real wlp_descr" where
  "demo_path = \<lparr>wlp_type = WLP_FILE_PATH, wlp_flags = WLPF_REQUEST, wlp_range = demo_range\<lparr>r_range := True, str_length := 4\<rparr>,
     wlp_defval = demo_default, wlp_name = ''path'', wlp_description = [], wlp_off = 0\<rparr>"

definition demo_env :: "real wlp_env" where
  "demo_env = \<lparr>we_fp = real_ops, we_dbl = (\<lambda>d. word_bytes 8 (of_int \<lfloor>d\<rfloor> :: 64 word)), we_cpu_find = Map.empty, we_dsk_find = Map.empty,
     we_rvs = Map.empty, we_clock = 0, we_ignore_unused = False, we_garbage = 0, we_ret = WLPARAM_ERROR,
     we_fresh = (\<lambda>n. replicate n NUL)\<rparr>"

definition demo_wl :: "real wlp_sys" where
  "demo_wl = \<lparr>ws_params = replicate 12 NUL, ws_gens = [], ws_rgs = Map.empty, ws_store = Map.empty, ws_next = 0, ws_errs = [],
     ws_errno = JSON_OK\<rparr>"

definition demo_config :: "real json_node" where
  "demo_config = json_add_node (json_add_node (json_new_node None) (Some (JSON_STR ''count'')) (json_new_integer 5))
     (Some (JSON_STR ''path'')) (json_new_string (JSON_STR ''abc''))"

lemmas demo_descrs = demo_count_def demo_mode_def demo_path_def demo_range_def demo_default_def
  WLPF_OPTIONAL_def WLPF_REQUEST_def WLPF_OUTPUT_def

lemma demo_env_ok: "env_ok demo_env"
  by (simp add: env_ok_def demo_env_def)

lemma demo_table_ok: "table_ok demo_env (length (ws_params demo_wl)) 4 [demo_count, demo_mode, demo_path]"
  by (simp add: table_ok_def demo_descrs descr_ok_def default_ok_def default_value_def value_of_type_def value_in_range_def
      wlp_get_base_type_def wlp_base_types_def wlp_size_def demo_wl_def slots_apart_def)

lemma demo_config_ok: "jn_wf demo_config" "jn_strings demo_config" "exclusive demo_config"
  by (simp_all add: demo_config_def json_add_node_def json_new_node_def json_node_create_def JSON_STR_def
      json_new_integer_def json_new_string_def child_named_def)

definition demo_done :: "real wlp_sys" where
  "demo_done = demo_wl\<lparr>ws_params := poke 8 (word_bytes 4 (1 :: 32 word)) (poke 0 (word_bytes 8 (5 :: 64 word)) (replicate 12 NUL)),
     ws_errno := JSON_NOT_FOUND, ws_gens := [\<lparr>gen_wlp = demo_path, gen_generator = WLPG_VALUE (WV_STRING (''abc'' @ [NUL]))\<rparr>]\<rparr>"

lemma demo_accepted:
  "\<exists>node'. tsobj_wlparam_proc_all demo_env demo_config [demo_count, demo_mode, demo_path] demo_wl = Some (WLPARAM_OK, node', demo_done)"
  by (simp add: tsobj_wlparam_proc_all_def demo_config_def json_add_node_def json_new_node_def json_node_create_def JSON_STR_def
      json_new_integer_def json_new_string_def json_check_type_def Let_def json_find_def json_find_opt_def json_touch_child_def
      wlparam_proc_one_def demo_descrs tsobj_wlparam_proc_def wlp_tsobj_type_def json_as_integer_def jn_int_def
      wlp_done_def put_integer_def mem_put_def length_poke demo_wl_def demo_env_def wlparam_set_default_def put_strset_def report_def
      tsobj_wlpgen_proc_def tsobj_wlpgen_param_proc_def wlp_get_base_type_def wlp_base_types_def json_as_string_def
      cstr_def strcpy_to_def NUL_def json_check_unused_def demo_done_def add_gen_def poke_0)

theorem wlparam_proc_all_typed_witness:
  "length (ws_params demo_done) = 12 \<and> param_typed demo_env demo_count (ws_params demo_done) \<and>
   param_typed demo_env demo_mode (ws_params demo_done)"
proof -
  obtain node' where p: "tsobj_wlparam_proc_all demo_env demo_config [demo_count, demo_mode, demo_path] demo_wl =
      Some (WLPARAM_OK, node', demo_done)" using demo_accepted by blast
  have "is_plain demo_count" "is_plain demo_mode" "length (ws_params demo_wl) = 12" by (simp_all add: demo_descrs demo_wl_def)
  then show ?thesis using wlparam_proc_all_typed [OF demo_env_ok demo_table_ok demo_config_ok(1,2) p] by simp
qed

theorem wlpgen_request_typed_witness:
  "\<exists>mem t'. wlpgen_generate demo_env 4 demo_done = Some (Some mem, t') \<and> slot_typed demo_env True demo_path mem"
proof -
  obtain node' where p: "tsobj_wlparam_proc_all demo_env demo_config [demo_count, demo_mode, demo_path] demo_wl =
      Some (WLPARAM_OK, node', demo_done)" using demo_accepted by blast
  obtain mem t' where g: "wlpgen_generate demo_env 4 demo_done = Some (Some mem, t')"
    by (simp add: wlpgen_generate_def demo_done_def demo_wl_def wlpgen_gen_one_def wlpgen_gen_value_def wlp_get_base_type_def
        wlp_base_types_def demo_descrs mem_put_def strncpy_buf_def cstr_def NUL_def demo_env_def)
  have r: "ws_gens demo_wl = []" "is_request demo_path" "ranged \<lparr>gen_wlp = demo_path, gen_generator = WLPG_VALUE v\<rparr>" for v
    by (simp_all add: demo_wl_def demo_descrs ranged_def)
  show ?thesis
    using wlpgen_request_typed [OF demo_env_ok demo_table_ok demo_config_ok(1,2) r(1) demo_config_ok(3) p refl g] g r(2,3)
    by (auto simp: demo_done_def)
qed

definition demo_pmap :: "real wlpgen_probability list" where
  "demo_pmap = [\<lparr>p_value = WV_BYTES ''x'', p_valarray = [], p_length = 0, p_probability = 1 / 4\<rparr>,
     \<lparr>p_value = WV_UNSET, p_valarray = [WV_BYTES ''y'', WV_BYTES ''z''], p_length = 2, p_probability = 3 / 4\<rparr>]"

theorem wlpgen_pmap_distribution_witness:
  "\<exists>k < 2. prob_sum demo_pmap k \<le> 1 / 2 \<and> 1 / 2 < prob_sum demo_pmap (Suc k) \<and>
     wlpgen_gen_pmap real_ops demo_count (1 / 2) demo_pmap 0 [] =
       wlpgen_gen_value demo_count (picked (1 / 2 - prob_sum demo_pmap k) (demo_pmap ! k)) 0 []"
proof -
  have l: "length demo_pmap = 2" by (simp add: demo_pmap_def)
  have a: "\<forall>p \<in> set demo_pmap. 0 < p_probability p \<and> (p_length p = 0 \<or> p_length p = length (p_valarray p))"
    "(1 / 2 :: real) < prob_sum demo_pmap (length demo_pmap)" by (simp_all add: demo_pmap_def prob_sum_def)
  show ?thesis using wlpgen_pmap_distribution [OF a(1) _ a(2), of demo_count 0 "[]"] l by auto
qed

text \<open>
  A draw that is not below the sum of all probabilities, such as 1, takes the last entry with what is left, so that it gets
  the first elements of its array.
\<close>

lemma pmap_pick_none:
  "\<forall>p \<in> set ps. 0 < p_probability p \<Longrightarrow> prob_sum ps (length ps) \<le> val \<Longrightarrow>
     pmap_pick real_ops val ps = (None, val - prob_sum ps (length ps))"
proof (induction ps arbitrary: val)
  case (Cons p ps)
  have "0 \<le> prob_sum ps (length ps)" using Cons.prems(1) by (auto simp: prob_sum_def less_imp_le intro!: sum_list_nonneg)
  then have "\<not> val < p_probability p" using Cons.prems(2) by (simp add: prob_sum_def)
  then show ?case using Cons.IH [of "val - p_probability p"] Cons.prems by (simp add: prob_sum_def)
qed (simp add: prob_sum_def)

text \<open>
  The entry of a map that has both \<open>value\<close> and \<open>valarray\<close> is refused with the result of the entry before it: behind a good
  entry the map is dropped, and the parameter is accepted with a generator that writes nothing.
\<close>

definition demo_entry :: "real json_node \<Rightarrow> real json_node" where
  "demo_entry el = json_add_node (json_add_node el (Some (JSON_STR ''probability'')) (json_new_double (1 / 2)))
     (Some (JSON_STR ''value'')) (json_new_string (JSON_STR ''a''))"

definition demo_bad_pmap :: "real json_node" where
  "demo_bad_pmap = json_add_node (json_add_node json_new_array None (demo_entry (json_new_node None))) None
     (json_add_node (demo_entry (json_new_node None)) (Some (JSON_STR ''valarray'')) json_new_array)"

theorem wlpgen_pmap_both_accepted:
  "tsobj_wlpgen_proc_pmap demo_env demo_bad_pmap demo_mode JSON_OK = Some (WLPARAM_OK, [TSE_INVALID_VALUE], [], JSON_OK)"
  by (simp add: tsobj_wlpgen_proc_pmap_def demo_bad_pmap_def demo_entry_def json_add_node_def json_new_node_def
      json_node_create_def JSON_STR_def json_new_array_def json_new_string_def json_new_double_def pmap_element_def
      json_check_type_def Let_def json_get_double_def json_get_def json_find_def json_find_opt_def json_touch_child_def
      json_check_unused_def demo_env_def pmap_value_def tsobj_wlpgen_param_proc_def demo_descrs wlp_get_base_type_def
      wlp_base_types_def tsobj_wlparam_proc_def wlp_tsobj_type_def json_as_string_def cstr_def NUL_def
      tsobj_wlparam_strset_proc_def put_strset_def mem_put_def wlp_done_def wlpgen_destroy_pmap_def numeral_2_eq_2)

section \<open>Errors\<close>

lemma jn_strings_set_children: "jn_strings (jn_set_children c ch p) \<longleftrightarrow>
    (case jn_data p of JStr _ \<Rightarrow> True | _ \<Rightarrow> jn_type p \<noteq> JSON_STRING) \<and> (\<forall>x \<in> set ch. jn_strings x)"
  by (cases p) (auto split: jn_data.splits)

lemma exclusive_iff: "exclusive p \<longleftrightarrow> \<not> (child_named p ''value'' \<and> child_named p ''valarray'') \<and> (\<forall>x \<in> set (jn_child_head p). exclusive x)"
  by (cases p) simp

lemma node_ok_touch_child:
  assumes "node_ok ex p" "jn_type p = JSON_NODE" "i < length (jn_child_head p)"
  shows "node_ok ex (json_touch_child p i)"
proof -
  have ch: "\<forall>x \<in> set (jn_child_head (json_touch_child p i)). node_ok ex x"
    using node_ok_touches [OF touches_child assms(1)] by blast
  have "jn_strings (json_touch_child p i)"
    using ch assms(1,2) by (auto simp: node_ok_def json_touch_child_def Let_def jn_strings_set_children split: jn_data.splits)
  moreover have "exclusive (json_touch_child p i)" if ex
    using that ch assms(1) exclusive_iff [of p] by (subst exclusive_iff) (auto simp: touches_named [OF touches_child] node_ok_def)
  ultimately show ?thesis using json_touch_child_wf [of p i] assms by (simp add: node_ok_def)
qed

lemma json_find_node_ok:
  assumes "node_ok ex node" "jn_type node = JSON_NODE"
  shows "\<exists>i node1 e1. json_find node name e = Some (i, node1, e1) \<and> node_ok ex node1 \<and> jn_type node1 = JSON_NODE \<and>
     (\<forall>k. i = Some k \<longrightarrow> node_ok ex (jn_child_head node1 ! k)) \<and> (i = None \<longrightarrow> e1 = JSON_NOT_FOUND)"
proof (cases "json_first_named name (jn_child_head node)")
  case None
  then show ?thesis using json_find_node [of node name e] assms by (simp add: node_ok_def)
next
  case (Some k)
  have k: "k < length (jn_child_head node)" by (rule json_first_named_Some(1) [OF Some])
  have "node_ok ex (jn_child_head (json_touch_child node k) ! k)"
    using json_touch_child_child [OF k] node_ok_children [OF assms(1)] k by simp
  then show ?thesis using json_find_node [of node name e] Some assms node_ok_touch_child [OF assms k]
    by (simp add: node_ok_def json_touch_child_def Let_def)
qed

definition one_error :: "wlparam_ret \<Rightarrow> 'd wlp_sys \<Rightarrow> 'd wlp_sys \<Rightarrow> bool" where
  "one_error ret s s' \<longleftrightarrow> length (ws_params s') = length (ws_params s) \<and>
     (\<exists>es. ws_errs s' = ws_errs s @ es \<and> length es = (if ret = WLPARAM_OK then 0 else 1))"

lemma wlparam_proc_one_returns:
  assumes "env_ok env" "descr_ok env w" "has_flag w WLPF_OPTIONAL \<longrightarrow> default_ok env w"
    "wlp_off w + wlp_size w \<le> length (ws_params s)" "is_plain w" "\<And>x. nd = Some x \<Longrightarrow> node_ok ex x"
  shows "\<exists>ret s'. wlparam_proc_one env w nd s = Some (ret, s') \<and> one_error ret s s'"
proof -
  have dbl: "length (we_dbl env d) = 8" for d using assms(1) by (simp add: env_ok_def)
  have len: "length mem' = length (ws_params s)" if "stores_value env w (wlp_off w) (ws_params s) mem'" for mem'
    using stores_value_holds [OF that assms(4) dbl] by blast
  show ?thesis
  proof (cases nd)
    case None
    show ?thesis
    proof (cases "has_flag w WLPF_OPTIONAL")
      case True
      then obtain mem' where "wlparam_set_default env w (wlp_off w) (ws_params s) = Some (WLPARAM_OK, [], mem')"
        "stores_value env w (wlp_off w) (ws_params s) mem'"
        using wlparam_set_default_stores [OF _ assms(4) dbl] assms(3) by blast
      then show ?thesis using None True assms(5) len by (simp add: wlparam_proc_one_def Let_def one_error_def report_def)
    next
      case False
      then show ?thesis using None assms(5) by (simp add: wlparam_proc_one_def Let_def one_error_def report_def)
    qed
  next
    case (Some x)
    then have "jn_strings x" using assms(6) by (simp add: node_ok_def)
    from tsobj_wlparam_proc_stores [OF this assms(2,4) dbl] show ?thesis using Some assms(5) len
      by (auto simp: wlparam_proc_one_def Let_def one_error_def report_def)
  qed
qed

lemma wlparam_proc_loop_returns:
  assumes "env_ok env"
  shows "table_ok env (length (ws_params s)) rs wlps \<Longrightarrow> \<forall>w \<in> set wlps. is_plain w \<Longrightarrow> node_ok ex node \<Longrightarrow> jn_type node = JSON_NODE \<Longrightarrow>
     \<exists>ret node' s'. wlparam_proc_loop env wlps node s = Some (ret, node', s') \<and> one_error ret s s'"
proof (induction wlps arbitrary: node s)
  case (Cons w ws)
  obtain i node1 e where f: "json_find node (wlp_name w) (ws_errno s) = Some (i, node1, e)" "node_ok ex node1" "jn_type node1 = JSON_NODE"
    "\<forall>k. i = Some k \<longrightarrow> node_ok ex (jn_child_head node1 ! k)"
    using json_find_node_ok [OF Cons.prems(3,4)] by blast
  note t = table_ok_Cons [OF Cons.prems(1)]
  have w: "is_plain w" using Cons.prems(2) by simp
  have fits: "wlp_off w + wlp_size w \<le> length (ws_params (s\<lparr>ws_errno := e\<rparr>))" using t(4) w by simp
  obtain ret s1 where one: "wlparam_proc_one env w (map_option (\<lambda>i. jn_child_head node1 ! i) i) (s\<lparr>ws_errno := e\<rparr>) = Some (ret, s1)"
    "one_error ret (s\<lparr>ws_errno := e\<rparr>) s1"
    using wlparam_proc_one_returns [OF assms t(2,3) fits w, of "map_option (\<lambda>i. jn_child_head node1 ! i) i" ex] f(4) by auto
  show ?case
  proof (cases "ret = WLPARAM_OK")
    case True
    then have s1: "ws_errs s1 = ws_errs s" "length (ws_params s1) = length (ws_params s)" using one(2) by (simp_all add: one_error_def)
    then show ?thesis using Cons.IH [of s1 node1] t(1) Cons.prems(2) f one True by (auto simp: one_error_def)
  next
    case False
    then show ?thesis using f one by (simp add: one_error_def)
  qed
qed (simp add: one_error_def)

text \<open>
  C40. For a table without request and output parameters, the processing of workload parameters always returns: it accepts the
  configuration without a report, or refuses it and reports exactly one error. (With parameters of requests the
  code may report twice, or accept with a report.)
\<close>

theorem wlparam_proc_all_returns:
  assumes "env_ok env" "table_ok env (length (ws_params s)) rs wlps" "jn_wf node" "jn_strings node"
    and no_request_or_output: "\<forall>w \<in> set wlps. is_plain w"
  shows "\<exists>ret node' s'. tsobj_wlparam_proc_all env node wlps s = Some (ret, node', s') \<and>
     length (ws_params s') = length (ws_params s) \<and>
     (\<exists>es. ws_errs s' = ws_errs s @ es \<and> length es = (if ret = WLPARAM_OK then 0 else 1))"
proof (cases "jn_type node = JSON_NODE")
  case False
  then have "json_check_type (Some node) JSON_NODE = JSON_INVALID_TYPE" by (simp add: json_check_type_def)
  then show ?thesis by (simp add: tsobj_wlparam_proc_all_def Let_def report_def)
next
  case True
  then have "json_check_type (Some node) JSON_NODE = JSON_OK" by (simp add: json_check_type_def)
  then show ?thesis using wlparam_proc_loop_returns [OF assms(1,2,5) _ True, of False] assms(3,4)
    by (auto simp: tsobj_wlparam_proc_all_def Let_def one_error_def report_def node_ok_def)
qed

theorem wlparam_proc_all_returns_witness:
  "\<exists>ret node' s'. tsobj_wlparam_proc_all demo_env demo_config [demo_count, demo_mode] demo_wl = Some (ret, node', s') \<and>
     length (ws_params s') = 12 \<and> (\<exists>es. ws_errs s' = es \<and> length es = (if ret = WLPARAM_OK then 0 else 1))"
proof -
  have "table_ok demo_env (length (ws_params demo_wl)) 4 [demo_count, demo_mode]"
    using demo_table_ok by (simp add: table_ok_def demo_descrs slots_apart_def)
  moreover have "\<forall>w \<in> set [demo_count, demo_mode]. is_plain w" by (simp add: demo_descrs)
  ultimately show ?thesis using wlparam_proc_all_returns [OF demo_env_ok _ demo_config_ok(1,2)] by (fastforce simp: demo_wl_def)
qed

section \<open>Deviations\<close>

text \<open>A bad entry in the map of a string parameter frees a pointer that was never set.\<close>

theorem wlpgen_pmap_bad_string_free:
  "tsobj_wlpgen_proc_pmap demo_env (json_add_node json_new_array None (json_new_node None)) demo_path JSON_OK = None"
  by (simp add: tsobj_wlpgen_proc_pmap_def json_add_node_def json_new_node_def json_node_create_def json_new_array_def
      pmap_element_def json_check_type_def Let_def json_get_double_def json_get_def json_find_def json_find_opt_def
      wlpgen_destroy_pmap_def demo_descrs wlp_get_base_type_def wlp_base_types_def)

text \<open>An optional string parameter of a request without a default value reads a null pointer.\<close>

theorem wlpgen_default_null:
  "wlp_get_base_type wlp = WLP_RAW_STRING \<Longrightarrow> d_s (wlp_defval wlp) = None \<Longrightarrow> wlpgen_create_default env wlp s = None"
  by (simp add: wlpgen_create_default_def)

text \<open>The default value of an object of the host is accepted, and nothing is written.\<close>

theorem wlparam_default_object:
  "wlp_get_base_type wlp = WLP_HI_OBJECT \<Longrightarrow> d_enabled (wlp_defval wlp) \<Longrightarrow> wlp_type wlp \<noteq> WLP_HI_OBJECT \<Longrightarrow>
     wlparam_set_default env wlp off mem = Some (WLPARAM_OK, [], mem)"
  by (cases "wlp_type wlp") (simp_all add: wlparam_set_default_def Let_def wlp_get_base_type_def wlp_base_types_def)

text \<open>The generators of accepted parameters can all be destroyed.\<close>

lemma wlpgen_destroy_ok:
  assumes "gen_ok env g"
  shows "\<exists>s'. wlpgen_destroy g s = Some s' \<and> ws_gens s' = remove1 g (ws_gens s) \<and> ws_params s' = ws_params s"
proof (cases "gen_generator g")
  case (WLPG_VALUE v)
  then have "v \<noteq> WV_UNSET" using assms by (auto simp: gen_ok_def wv_ok_def)
  then show ?thesis using WLPG_VALUE by (simp add: wlpgen_destroy_def)
next
  case (WLPG_RANDOM a rv pmap)
  then have "wlpgen_destroy_pmap (gen_wlp g) pmap"
    using assms by (fastforce simp: gen_ok_def wlpgen_destroy_pmap_def entry_ok_def wv_ok_def)
  then show ?thesis using WLPG_RANDOM by (simp add: wlpgen_destroy_def)
qed

lemma wlpgen_destroy_loop_ok:
  "\<forall>g \<in> set gs. gen_ok env g \<Longrightarrow> ws_gens s = gs @ rest \<Longrightarrow>
     \<exists>s'. wlpgen_destroy_loop gs s = Some s' \<and> ws_gens s' = rest \<and> ws_params s' = ws_params s"
proof (induction gs arbitrary: s)
  case (Cons g gs)
  then obtain s1 where "wlpgen_destroy g s = Some s1" "ws_gens s1 = gs @ rest" "ws_params s1 = ws_params s"
    using wlpgen_destroy_ok [of env g s] by auto
  then show ?case using Cons.IH [of s1] Cons.prems(1) by auto
qed simp

lemma wlpgen_destroy_all_ok:
  "\<forall>g \<in> set (ws_gens s). gen_ok env g \<Longrightarrow>
     \<exists>s'. wlpgen_destroy_all s = Some s' \<and> ws_gens s' = [] \<and> ws_params s' = ws_params s"
  unfolding wlpgen_destroy_all_def using wlpgen_destroy_loop_ok [of "ws_gens s" env s "[]"] by simp

end
