(* ===== verification/ExpConfig.thy ===== *)
theory ExpConfig
  imports JsonRoundTrip TsObj "HOL-Library.Monad_Syntax"
begin

text \<open>
  The configuration of an experiment (\<open>cmd/tsexperiment/experiment.c\<close>): nodes of the configuration under names with colons,
  changing and walking over the configuration, and the workloads and thread pools read from it. A pointer to a
  node inside of the configuration is its path, the list of child positions from the root. A failed assertion,
  a buffer that is left and the use of a null name are the outcome \<open>None\<close>.
\<close>

section \<open>Nodes at a path\<close>

fun node_at :: "nat list \<Rightarrow> 'd json_node \<Rightarrow> 'd json_node option" where
  "node_at [] node = Some node"
| "node_at (i # path) node =
     (if i < length (jn_child_head node) then node_at path (jn_child_head node ! i) else None)"

fun node_upd :: "nat list \<Rightarrow> ('d json_node \<Rightarrow> 'd json_node) \<Rightarrow> 'd json_node \<Rightarrow> 'd json_node" where
  "node_upd [] f node = f node"
| "node_upd (i # path) f node =
     (if i < length (jn_child_head node)
      then jn_set_children (jn_children_count node)
             ((jn_child_head node)[i := node_upd path f (jn_child_head node ! i)]) node
      else node)"

section \<open>Finding a node\<close>

definition PATHPARTMAXLEN :: nat where "PATHPARTMAXLEN = 256"
definition PATHMAXLEN :: nat where "PATHMAXLEN = 1024"

text \<open>\<open>strtol(node_name, NULL, 10)\<close>, converted to \<open>int\<close>.\<close>

definition strtol_int :: "string \<Rightarrow> int" where
  "strtol_int s = sint (of_int (fst (strtoll (s @ [NUL]))) :: 32 word)"

text \<open>
  One round of the loop of \<open>experiment_cfg_find\<close> at a node: the position of the child, the node with its
  marks, and the error number.
\<close>

definition cfg_find_child ::
    "'d json_node \<Rightarrow> string \<Rightarrow> bool \<Rightarrow> json_type \<Rightarrow> json_code \<Rightarrow> (nat option \<times> 'd json_node \<times> json_code) option" where
  "cfg_find_child node node_name is_last type e =
     (if jn_type node = JSON_NODE then
        (if \<not> is_last then json_find_opt node node_name e
         else case json_find node node_name e of
                None \<Rightarrow> None
              | Some (i, node1, e1) \<Rightarrow>
                  let iter = map_option (\<lambda>i. jn_child_head node1 ! i) i; err = json_check_type iter type
                  in Some (if err \<noteq> JSON_OK then None else i, node1, if iter = None then e1 else set_errno err e1))
      else if jn_type node = JSON_ARRAY then
        (let itemid = strtol_int node_name in
         if itemid = - 1 then Some (None, node, e)
         else if itemid < 0 then Some (None, node, JSON_INTERNAL_ERROR)
         else (case json_getitem node (nat itemid) e of (i, e1) \<Rightarrow> Some (i, node, e1)))
      else Some (None, node, e))"

abbreviation colon :: char where "colon \<equiv> CHR '':''"

function cfg_find_loop ::
    "'d json_node \<Rightarrow> nat list \<Rightarrow> string \<Rightarrow> json_type \<Rightarrow> json_code \<Rightarrow>
     (nat list option \<times> nat list \<times> 'd json_node \<times> json_code) option" where
  "cfg_find_loop config path prev type e =
     (let node_name = takeWhile (\<lambda>c. c \<noteq> colon) prev; rest = dropWhile (\<lambda>c. c \<noteq> colon) prev in
      if length node_name \<ge> PATHPARTMAXLEN then None
      else case node_at path config of
             None \<Rightarrow> None
           | Some node \<Rightarrow>
               (case cfg_find_child node node_name (rest = []) type e of
                  None \<Rightarrow> None
                | Some (i, node1, e1) \<Rightarrow>
                    let config1 = node_upd path (\<lambda>_. node1) config in
                    (case i of
                       None \<Rightarrow> Some (None, path, config1, e1)
                     | Some i \<Rightarrow>
                         (case rest of
                            [] \<Rightarrow> Some (Some (path @ [i]), path, config1, e1)
                          | _ # prev1 \<Rightarrow> cfg_find_loop config1 (path @ [i]) prev1 type e1))))"
  by pat_completeness auto

lemma dropWhile_Cons_shorter: "dropWhile P xs = y # ys \<Longrightarrow> length ys < length xs"
  by (metis Suc_le_eq length_Cons length_dropWhile_le)

termination cfg_find_loop
  by (relation "measure (\<lambda>(config, path, prev, type, e). length prev)") (auto dest!: dropWhile_Cons_shorter [OF sym])

declare cfg_find_loop.simps [simp del]

text \<open>The result is the path of the node, if it was found, the path of its parent, and the configuration with its marks.\<close>

definition experiment_cfg_find ::
    "'d json_node \<Rightarrow> string \<Rightarrow> json_type \<Rightarrow> json_code \<Rightarrow> (nat list option \<times> nat list \<times> 'd json_node \<times> json_code) option" where
  "experiment_cfg_find node name type e = cfg_find_loop node [] name type e"

section \<open>Changing the configuration\<close>

datatype exp_config_ret =
    EXP_CONFIG_OK | EXP_CONFIG_DUPLICATE | EXP_CONFIG_NOT_FOUND | EXP_CONFIG_INVALID_NODE | EXP_CONFIG_INVALID_VALUE
  | EXP_CONFIG_BAD_JSON

text \<open>The value of the node that was found is replaced by one of its own type; \<open>refs\<close> counts the references to the parsed text.\<close>

definition cfg_set_value ::
    "'d strtod_fun \<Rightarrow> 'd json_node \<Rightarrow> string \<Rightarrow> int \<Rightarrow> exp_config_ret \<times> 'd json_node \<times> int" where
  "cfg_set_value strtod node val refs =
     (if jn_type node = JSON_STRING then
        (case json_set_string node (json_str_create val) refs of (node1, _, rc) \<Rightarrow> (EXP_CONFIG_OK, node1, rc))
      else if jn_type node = JSON_NUMBER then
        (case json_set_number strtod node val of
           (node1, err) \<Rightarrow> if err \<noteq> JSON_OK then (EXP_CONFIG_INVALID_VALUE, node1, refs) else (EXP_CONFIG_OK, node1, refs))
      else if jn_type node = JSON_BOOLEAN then
        (if val = ''true'' then (EXP_CONFIG_OK, fst (json_set_boolean node True JSON_OK), refs)
         else if val = ''false'' then (EXP_CONFIG_OK, fst (json_set_boolean node False JSON_OK), refs)
         else (EXP_CONFIG_INVALID_VALUE, node, refs))
      else (EXP_CONFIG_INVALID_NODE, node, refs))"

definition experiment_cfg_set ::
    "'d strtod_fun \<Rightarrow> 'd json_node \<Rightarrow> string \<Rightarrow> string \<Rightarrow> json_code \<Rightarrow> int \<Rightarrow> (exp_config_ret \<times> 'd json_node \<times> int) option" where
  "experiment_cfg_set strtod config name val e refs =
     (case experiment_cfg_find config name JSON_ANY e of
        None \<Rightarrow> None
      | Some (None, _, config1, _) \<Rightarrow> Some (EXP_CONFIG_NOT_FOUND, config1, refs)
      | Some (Some path, _, config1, _) \<Rightarrow>
          (case node_at path config1 of
             None \<Rightarrow> None
           | Some node \<Rightarrow>
               (case cfg_set_value strtod node val refs of
                  (ret, node1, rc) \<Rightarrow> Some (ret, node_upd path (\<lambda>_. node1) config1, rc))))"

text \<open>A node is added at its parent, after the one with the same name was taken away.\<close>

definition cfg_add_child ::
    "'d json_node \<Rightarrow> json_str \<Rightarrow> 'd json_node \<Rightarrow> bool \<Rightarrow> json_code \<Rightarrow> (exp_config_ret \<times> 'd json_node) option" where
  "cfg_add_child parent name node replace e =
     (if jn_type parent \<noteq> JSON_NODE then Some (EXP_CONFIG_INVALID_NODE, parent)
      else case json_find_opt parent (snd name) e of
             None \<Rightarrow> None
           | Some (None, parent1, _) \<Rightarrow> Some (EXP_CONFIG_OK, json_add_node parent1 (Some name) node)
           | Some (Some i, parent1, _) \<Rightarrow>
               if \<not> replace then Some (EXP_CONFIG_DUPLICATE, parent1)
               else Some (EXP_CONFIG_OK, json_add_node (fst (json_remove_node parent1 (Some i))) (Some name) node))"

definition experiment_cfg_add ::
    "'d json_node \<Rightarrow> string option \<Rightarrow> json_str \<Rightarrow> 'd json_node \<Rightarrow> bool \<Rightarrow> json_code \<Rightarrow> (exp_config_ret \<times> 'd json_node) option" where
  "experiment_cfg_add config parent_name name node replace e =
     (let add = (\<lambda>path config. case node_at path config of
            None \<Rightarrow> None
          | Some parent \<Rightarrow>
              map_option (\<lambda>(ret, parent1). (ret, node_upd path (\<lambda>_. parent1) config)) (cfg_add_child parent name node replace e))
      in case parent_name of
           None \<Rightarrow> add [] config
         | Some pn \<Rightarrow>
             (case experiment_cfg_find config pn JSON_ANY e of
                None \<Rightarrow> None
              | Some (None, _, config1, _) \<Rightarrow> Some (EXP_CONFIG_NOT_FOUND, config1)
              | Some (Some path, _, config1, _) \<Rightarrow> add path config1))"

section \<open>Walking over the configuration\<close>

datatype exp_walk_ret = EXP_WALK_CONTINUE | EXP_WALK_RETURN | EXP_WALK_BREAK | EXP_WALK_NEXT

text \<open>
  A walker gets the name of the path, the node and its context. The prefix of the parent ends with a colon, and is
  empty at the root. The result is the return value, the path of the node that a walker returned, and the context.
\<close>

type_synonym ('d, 'c) cfg_walker = "string \<Rightarrow> 'd json_node \<Rightarrow> 'c \<Rightarrow> exp_walk_ret \<times> 'c"

definition cfg_child_name :: "'d json_node \<Rightarrow> nat \<Rightarrow> 'd json_node \<Rightarrow> string option" where
  "cfg_child_name parent itemid node =
     (if jn_type parent = JSON_NODE then map_option snd (jn_name node) else Some (nat_text itemid))"

function cfg_walk_children ::
    "('d, 'c) cfg_walker \<Rightarrow> ('d, 'c) cfg_walker option \<Rightarrow> 'd json_node \<Rightarrow> string \<Rightarrow> nat list \<Rightarrow> nat \<Rightarrow> 'd json_node list \<Rightarrow>
     nat list option \<Rightarrow> 'c \<Rightarrow> (exp_walk_ret \<times> nat list option \<times> 'c) option" where
  "cfg_walk_children pre post parent prefix path itemid [] child ctx = Some (EXP_WALK_CONTINUE, child, ctx)"
| "cfg_walk_children pre post parent prefix path itemid (node # nodes) child ctx =
     (case cfg_child_name parent itemid node of
        None \<Rightarrow> None
      | Some name \<Rightarrow>
          if length prefix + length name \<ge> PATHMAXLEN then None
          else
            let node_path = prefix @ name; (ret, ctx1) = pre node_path node ctx;
                below = (if ret = EXP_WALK_CONTINUE \<and> jn_type node \<in> {JSON_ARRAY, JSON_NODE}
                         then cfg_walk_children pre post node (node_path @ [colon]) (path @ [itemid]) 0 (jn_child_head node) child ctx1
                         else Some (ret, child, ctx1))
            in case below of
                 None \<Rightarrow> None
               | Some (ret1, child1, ctx2) \<Rightarrow>
                   let (ret2, ctx3) = (case post of
                         Some f \<Rightarrow> if ret1 = EXP_WALK_CONTINUE then f node_path node ctx2 else (ret1, ctx2)
                       | None \<Rightarrow> (ret1, ctx2))
                   in if ret2 = EXP_WALK_RETURN then Some (EXP_WALK_BREAK, Some (path @ [itemid]), ctx3)
                      else if ret2 = EXP_WALK_BREAK then Some (EXP_WALK_BREAK, child1, ctx3)
                      else cfg_walk_children pre post parent prefix path (Suc itemid) nodes child1 ctx3)"
  by pat_completeness auto

lemma jn_child_head_size: "size_list size (jn_child_head node) < size node"
  by (cases node) simp

termination cfg_walk_children
  by (relation "measure (\<lambda>(pre, post, parent, prefix, path, itemid, nodes, child, ctx). size_list size nodes)")
     (auto simp: trans_less_add1 [OF jn_child_head_size] intro: le_less_trans [OF _ jn_child_head_size] less_SucI)

definition experiment_cfg_walk ::
    "'d json_node \<Rightarrow> ('d, 'c) cfg_walker \<Rightarrow> ('d, 'c) cfg_walker option \<Rightarrow> 'c \<Rightarrow> (nat list option \<times> 'c) option" where
  "experiment_cfg_walk config pre post ctx =
     map_option (\<lambda>(ret, child, ctx). (child, ctx))
       (cfg_walk_children pre post config [] [] 0 (jn_child_head config) None ctx)"

section \<open>Workloads and thread pools\<close>

text \<open>
  The attributes that a configuration sets. The members that only a run uses (status, links of the chains, step
  generator, TSFile and its schema) keep the constants of the constructors here and are left out.
\<close>

record 'd exp_threadpool =
  etp_name :: string
  etp_num_threads :: int
  etp_quantum :: int
  etp_discard :: bool
  etp_disp :: "'d json_node option"
  etp_sched :: "'d json_node option"

record 'd exp_workload =
  ewl_name :: string
  ewl_type :: "string option"
  ewl_tp_name :: "string option"
  ewl_deadline :: int
  ewl_chain :: "'d json_node option"
  ewl_rqsched :: "'d json_node option"
  ewl_params :: "'d json_node option"
  ewl_chain_name :: "string option"
  ewl_steps_cfg :: "'d json_node option"
  ewl_tp :: "string option"
  ewl_is_chained :: bool

text \<open>The pointer to the thread pool of a workload is its name; \<open>tp_num_threads\<close> is not initialised by the constructor.\<close>

definition exp_tp_create :: "string \<Rightarrow> 'd exp_threadpool" where
  "exp_tp_create name =
     \<lparr>etp_name = name, etp_num_threads = 0, etp_quantum = 0, etp_discard = False, etp_disp = None, etp_sched = None\<rparr>"

definition exp_wl_create :: "string \<Rightarrow> 'd exp_workload" where
  "exp_wl_create name =
     \<lparr>ewl_name = name, ewl_type = None, ewl_tp_name = None, ewl_deadline = 2 ^ 63 - 1, ewl_chain = None, ewl_rqsched = None,
      ewl_params = None, ewl_chain_name = None, ewl_steps_cfg = None, ewl_tp = None, ewl_is_chained = False\<rparr>"

text \<open>The first result is 0, or the number of the attribute that is wrong.\<close>

definition exp_tp_proc :: "'d json_node \<Rightarrow> 'd exp_threadpool \<Rightarrow> json_code \<Rightarrow> (int \<times> 'd exp_threadpool \<times> json_code) option" where
  "exp_tp_proc node0 etp0 e0 =
     do { (c1, threads, node1, e1) \<leftarrow> json_get_integer_u32 node0 ''num_threads'' e0;
          if c1 \<noteq> JSON_OK then Some (- 1, etp0, e1)
          else do {
            let etp1 = etp0\<lparr>etp_num_threads := the threads\<rparr>;
            (c2, quantum, node2, e2) \<leftarrow> json_get_integer_tm node1 ''quantum'' e1;
            if c2 \<noteq> JSON_OK then Some (- 2, etp1, e2)
            else do {
              let etp2 = etp1\<lparr>etp_quantum := the quantum\<rparr>;
              (c3, disp, node3, e3) \<leftarrow> json_get_node node2 ''disp'' e2;
              if c3 \<noteq> JSON_OK then Some (- 3, etp2, e3)
              else do {
                let etp3 = etp2\<lparr>etp_disp := disp\<rparr>;
                (c4, discard, node4, e4) \<leftarrow> json_get_boolean node3 ''discard'' e3;
                if c4 = JSON_INVALID_TYPE then Some (- 4, etp3, e4)
                else do {
                  let etp4 = (case discard of Some b \<Rightarrow> etp3\<lparr>etp_discard := b\<rparr> | None \<Rightarrow> etp3);
                  (c5, sched, node5, e5) \<leftarrow> json_get_array node4 ''sched'' e4;
                  if c5 = JSON_INVALID_TYPE then Some (- 5, etp4, e5)
                  else Some (0, etp4\<lparr>etp_sched := sched\<rparr>, e5) } } } } }"

text \<open>The attributes that depend on the chain.\<close>

definition exp_wl_proc_chain ::
    "'d json_node \<Rightarrow> 'd json_node option \<Rightarrow> json_code \<Rightarrow> 'd exp_workload \<Rightarrow> json_code \<Rightarrow> (int \<times> 'd exp_workload \<times> json_code) option" where
  "exp_wl_proc_chain node chain tp_error ewl e =
     (case chain of
        Some ch \<Rightarrow>
          do { (c, name, _, e1) \<leftarrow> json_get_string ch ''workload'' e;
               if c \<noteq> JSON_OK then Some (- 1, ewl, e1)
               else Some (0, ewl\<lparr>ewl_chain_name := name, ewl_chain := Some ch, ewl_is_chained := True\<rparr>, e1) }
      | None \<Rightarrow>
          if tp_error \<noteq> JSON_OK then Some (- 2, ewl, e)
          else do { (c, rqsched, _, e1) \<leftarrow> json_get_node node ''rqsched'' e;
                    if c \<noteq> JSON_OK then Some (- 7, ewl, e1) else Some (0, ewl\<lparr>ewl_rqsched := rqsched\<rparr>, e1) })"

definition exp_wl_proc :: "'d json_node \<Rightarrow> 'd exp_workload \<Rightarrow> json_code \<Rightarrow> (int \<times> 'd exp_workload \<times> json_code) option" where
  "exp_wl_proc node0 ewl0 e0 =
     do { (c1, wltype, node1, e1) \<leftarrow> json_get_string node0 ''wltype'' e0;
          if c1 \<noteq> JSON_OK then Some (- 1, ewl0, e1)
          else do {
            let ewl1 = ewl0\<lparr>ewl_type := wltype\<rparr>;
            (tp_error, tp, node2, e2) \<leftarrow> json_get_string node1 ''threadpool'' e1;
            if tp_error = JSON_INVALID_TYPE then Some (- 2, ewl1, e2)
            else do {
              let ewl2 = ewl1\<lparr>ewl_tp_name := tp\<rparr>;
              (c3, chain, node3, e3) \<leftarrow> json_get_node node2 ''chain'' e2;
              if c3 = JSON_INVALID_TYPE then Some (- 3, ewl2, e3)
              else do {
                (c4, deadline, node4, e4) \<leftarrow> json_get_integer_tm node3 ''deadline'' e3;
                if c4 = JSON_INVALID_TYPE then Some (- 4, ewl2, e4)
                else do {
                  let ewl4 = (case deadline of Some t \<Rightarrow> ewl2\<lparr>ewl_deadline := t\<rparr> | None \<Rightarrow> ewl2);
                  (c5, params, node5, e5) \<leftarrow> json_get_node node4 ''params'' e4;
                  if c5 \<noteq> JSON_OK then Some (- 5, ewl4, e5)
                  else exp_wl_proc_chain node5 chain tp_error (ewl4\<lparr>ewl_params := params\<rparr>) e5 } } } } }"

datatype exp_proc_ret =
    EXPERR_PROC_OK | EXPERR_PROC_NO_WLS | EXPERR_PROC_NO_TPS | EXPERR_PROC_NO_STEPS | EXPERR_PROC_DUPLICATE_WL
  | EXPERR_PROC_DUPLICATE_TP | EXPERR_PROC_INVALID_WL | EXPERR_PROC_INVALID_TP | EXPERR_PROC_NO_STEP_WL | EXPERR_PROC_WL_NO_TP

text \<open>The hash maps of thread pools and workloads, which refine finite maps.\<close>

type_synonym 'd exp_tps = "string \<Rightarrow> 'd exp_threadpool option"
type_synonym 'd exp_wls = "string \<Rightarrow> 'd exp_workload option"

fun exp_tp_loop :: "'d json_node list \<Rightarrow> 'd exp_tps \<Rightarrow> json_code \<Rightarrow> (exp_proc_ret \<times> 'd exp_tps \<times> json_code) option" where
  "exp_tp_loop [] tps e = Some (EXPERR_PROC_OK, tps, e)"
| "exp_tp_loop (node # nodes) tps e =
     (case jn_name node of
        None \<Rightarrow> None
      | Some (_, name) \<Rightarrow>
          do { (err, etp, e1) \<leftarrow> exp_tp_proc node (exp_tp_create name) e;
               if err \<noteq> 0 then Some (EXPERR_PROC_INVALID_TP, tps, e1)
               else if tps name \<noteq> None then Some (EXPERR_PROC_DUPLICATE_TP, tps, e1)
               else exp_tp_loop nodes (tps(name \<mapsto> etp)) e1 })"

fun exp_wl_loop ::
    "'d exp_tps \<Rightarrow> 'd json_node list \<Rightarrow> 'd exp_wls \<Rightarrow> json_code \<Rightarrow> (exp_proc_ret \<times> 'd exp_wls \<times> json_code) option" where
  "exp_wl_loop tps [] wls e = Some (EXPERR_PROC_OK, wls, e)"
| "exp_wl_loop tps (node # nodes) wls e =
     (case jn_name node of
        None \<Rightarrow> None
      | Some (_, name) \<Rightarrow>
          do { (err, ewl, e1) \<leftarrow> exp_wl_proc node (exp_wl_create name) e;
               if err \<noteq> 0 then Some (EXPERR_PROC_INVALID_WL, wls, e1)
               else if wls name \<noteq> None then Some (EXPERR_PROC_DUPLICATE_WL, wls, e1)
               else case ewl_tp_name ewl of
                      None \<Rightarrow> exp_wl_loop tps nodes (wls(name \<mapsto> ewl)) e1
                    | Some tp \<Rightarrow>
                        if tps tp = None then Some (EXPERR_PROC_WL_NO_TP, wls(name \<mapsto> ewl), e1)
                        else exp_wl_loop tps nodes (wls(name \<mapsto> ewl\<lparr>ewl_tp := Some tp\<rparr>)) e1 })"

fun exp_steps_loop :: "'d json_node list \<Rightarrow> 'd exp_wls \<Rightarrow> (exp_proc_ret \<times> 'd exp_wls) option" where
  "exp_steps_loop [] wls = Some (EXPERR_PROC_OK, wls)"
| "exp_steps_loop (step # steps) wls =
     (case jn_name step of
        None \<Rightarrow> None
      | Some (_, name) \<Rightarrow>
          (case wls name of
             None \<Rightarrow> Some (EXPERR_PROC_NO_STEP_WL, wls)
           | Some ewl \<Rightarrow> exp_steps_loop steps (wls(name \<mapsto> ewl\<lparr>ewl_steps_cfg := Some step\<rparr>))))"

text \<open>The result, and the maps when they were created.\<close>

definition experiment_process_config ::
    "'d json_node \<Rightarrow> json_code \<Rightarrow> (exp_proc_ret \<times> ('d exp_tps \<times> 'd exp_wls) option) option" where
  "experiment_process_config config0 e0 =
     do { (c1, workloads, config1, e1) \<leftarrow> json_get_node config0 ''workloads'' e0;
          if c1 \<noteq> JSON_OK then Some (EXPERR_PROC_NO_WLS, None)
          else do {
            (c2, threadpools, config2, e2) \<leftarrow> json_get_node config1 ''threadpools'' e1;
            if c2 \<noteq> JSON_OK then Some (EXPERR_PROC_NO_TPS, None)
            else do {
              (c3, steps, config3, e3) \<leftarrow> json_get_node config2 ''steps'' e2;
              if c3 \<noteq> JSON_OK then Some (EXPERR_PROC_NO_STEPS, None)
              else do {
                (ret1, tps, e4) \<leftarrow> exp_tp_loop (jn_child_head (the threadpools)) Map.empty e3;
                if ret1 \<noteq> EXPERR_PROC_OK then Some (ret1, Some (tps, Map.empty))
                else do {
                  (ret2, wls, e5) \<leftarrow> exp_wl_loop tps (jn_child_head (the workloads)) Map.empty e4;
                  if ret2 \<noteq> EXPERR_PROC_OK then Some (ret2, Some (tps, wls))
                  else do {
                    (ret3, wls1) \<leftarrow> exp_steps_loop (jn_child_head (the steps)) wls;
                    Some (ret3, Some (tps, wls1)) } } } } } }"

section \<open>Reading a configuration\<close>

lemma json_get_value:
  assumes "json_get ty conv p name e = Some (c, v, q, e')" and "\<And>x err. conv x = Inl err \<Longrightarrow> err \<noteq> JSON_OK"
  shows "v \<noteq> None \<longleftrightarrow> c = JSON_OK"
  using assms by (auto simp: json_get_def Let_def split: option.splits prod.splits if_splits sum.splits)

lemma json_find_total:
  assumes "jn_wf p"
  shows "\<exists>i q e'. json_find p name e = Some (i, q, e') \<and> jn_wf q \<and> (\<forall>k. i = Some k \<longrightarrow> k < length (jn_child_head q))"
proof (cases "jn_type p = JSON_NODE")
  case True
  show ?thesis
  proof (cases "json_first_named name (jn_child_head p)")
    case None
    then show ?thesis using assms by (simp add: json_find_node [OF assms True])
  next
    case (Some i)
    note i = json_first_named_Some(1) [OF Some]
    then have "i < length (jn_child_head (json_touch_child p i))" by (simp add: json_touch_child_def Let_def)
    then show ?thesis using json_touch_child_wf [OF assms True i] by (simp add: json_find_node [OF assms True] Some)
  qed
next
  case False
  then show ?thesis using assms by (simp add: json_find_def json_find_opt_def)
qed

lemma json_get_total:
  assumes "jn_wf p"
  obtains c v q e' where "json_get ty conv p name e = Some (c, v, q, e')" and "jn_wf q"
proof -
  from json_find_total [OF assms] obtain i q e' where "json_find p name e = Some (i, q, e')" and "jn_wf q" by blast
  then have "\<exists>r. json_get ty conv p name e = Some r \<and> fst (snd (snd r)) = q"
    by (simp add: json_get_def Let_def split: sum.split)
  then show ?thesis using that \<open>jn_wf q\<close> by (metis prod.collapse)
qed

lemma jn_child_head_touched [simp]: "jn_child_head (jn_set_touched b x) = jn_child_head x"
  by (cases x) simp

text \<open>The child under a name that \<open>json_get_node\<close> yields is that of the configuration, but for its mark.\<close>

lemma json_get_node_value:
  assumes "jn_wf p" and "json_get_node p name e = Some (c, Some x, q, e')"
  shows "\<exists>i. json_first_named name (jn_child_head p) = Some i \<and> x = jn_set_touched True (jn_child_head p ! i) \<and>
    jn_wf x \<and> jn_type x = JSON_NODE"
proof (cases "jn_type p = JSON_NODE")
  case True
  show ?thesis
  proof (cases "json_first_named name (jn_child_head p)")
    case None
    then show ?thesis using assms(2) by (simp add: json_get_node_def json_get_def json_find_node [OF assms(1) True] json_check_type_def)
  next
    case (Some i)
    note i = json_first_named_Some(1) [OF Some]
    have x: "jn_child_head (json_touch_child p i) ! i = jn_set_touched True (jn_child_head p ! i)"
      using i by (simp add: json_touch_child_def Let_def)
    have "jn_wf (jn_child_head p ! i)" using i jn_wf_children(2) [OF assms(1)] by simp
    with assms(2) show ?thesis
      by (auto simp: json_get_node_def json_get_def json_find_node [OF assms(1) True] Some json_check_type_def Let_def x
          split: if_splits)
  qed
next
  case False
  then show ?thesis using assms(2) by (simp add: json_get_node_def json_get_def json_find_def json_find_opt_def json_check_type_def)
qed

lemma json_get_string_value: "json_get_string p name e = Some (c, v, q, e') \<Longrightarrow> v \<noteq> None \<longleftrightarrow> c = JSON_OK"
  unfolding json_get_string_def by (erule json_get_value) (auto split: jn_data.splits)

lemma json_get_node_code: "json_get_node p name e = Some (c, v, q, e') \<Longrightarrow> v \<noteq> None \<longleftrightarrow> c = JSON_OK"
  unfolding json_get_node_def by (erule json_get_value) auto

lemma json_get_integer_value:
  "json_get_integer lo hi p name e = Some (c, v, q, e') \<Longrightarrow> (v \<noteq> None \<longleftrightarrow> c = JSON_OK) \<and> (\<forall>t. v = Some t \<longrightarrow> lo \<le> t \<and> t \<le> hi)"
  by (auto simp: json_get_integer_def json_get_def Let_def split: option.splits prod.splits if_splits sum.splits)

text \<open>What a thread pool and a workload have after they were read.\<close>

definition exp_tp_ok :: "string \<Rightarrow> 'd exp_threadpool \<Rightarrow> bool" where
  "exp_tp_ok name etp \<longleftrightarrow>
     etp_name etp = name \<and> 0 \<le> etp_num_threads etp \<and> etp_num_threads etp < 2 ^ 32 \<and>
     0 \<le> etp_quantum etp \<and> etp_quantum etp < 2 ^ 63 \<and> etp_disp etp \<noteq> None"

definition exp_wl_ok :: "string \<Rightarrow> 'd exp_workload \<Rightarrow> bool" where
  "exp_wl_ok name ewl \<longleftrightarrow>
     ewl_name ewl = name \<and> ewl_type ewl \<noteq> None \<and> ewl_params ewl \<noteq> None \<and> 0 \<le> ewl_deadline ewl \<and> ewl_deadline ewl < 2 ^ 63 \<and>
     (ewl_is_chained ewl \<longleftrightarrow> ewl_chain ewl \<noteq> None) \<and>
     (if ewl_is_chained ewl then ewl_chain_name ewl \<noteq> None \<and> ewl_rqsched ewl = None
      else ewl_tp_name ewl \<noteq> None \<and> ewl_rqsched ewl \<noteq> None \<and> ewl_chain_name ewl = None)"

lemma exp_tp_proc_ok:
  assumes "exp_tp_proc node (exp_tp_create name) e = Some (0, etp, e')"
  shows "exp_tp_ok name etp"
proof -
  from assms obtain threads n1 e1 quantum n2 e2 disp where
      g: "json_get_integer_u32 node ''num_threads'' e = Some (JSON_OK, threads, n1, e1)"
        "json_get_integer_tm n1 ''quantum'' e1 = Some (JSON_OK, quantum, n2, e2)"
      and disp: "etp_disp etp = disp" "disp \<noteq> None"
      and "etp_name etp = name" "etp_num_threads etp = the threads" "etp_quantum etp = the quantum"
    by (auto simp: exp_tp_proc_def exp_tp_create_def bind_eq_Some_conv Let_def split: if_splits option.splits dest!: json_get_node_code)
  with json_get_integer_value [OF g(1) [unfolded json_get_integer_u32_def]]
    json_get_integer_value [OF g(2) [unfolded json_get_integer_tm_def]]
  show ?thesis by (auto simp: exp_tp_ok_def)
qed

lemma exp_wl_proc_chain_ok:
  assumes "exp_wl_proc_chain node chain tp_error ewl e = Some (0, ewl', e')"
    and "ewl_name ewl = name" "ewl_type ewl \<noteq> None" "ewl_params ewl \<noteq> None" "0 \<le> ewl_deadline ewl" "ewl_deadline ewl < 2 ^ 63"
      "\<not> ewl_is_chained ewl" "ewl_chain ewl = None" "ewl_chain_name ewl = None" "ewl_rqsched ewl = None"
      "ewl_tp_name ewl \<noteq> None \<longleftrightarrow> tp_error = JSON_OK"
  shows "exp_wl_ok name ewl' \<and> ewl_tp ewl' = ewl_tp ewl \<and> ewl_steps_cfg ewl' = ewl_steps_cfg ewl"
proof (cases chain)
  case None
  with assms(1) obtain rqsched n where "tp_error = JSON_OK" and g: "json_get_node node ''rqsched'' e = Some (JSON_OK, rqsched, n, e')"
      and "ewl' = ewl\<lparr>ewl_rqsched := rqsched\<rparr>"
    by (auto simp: exp_wl_proc_chain_def bind_eq_Some_conv split: if_splits)
  then show ?thesis using json_get_node_code [OF g] assms(2-) by (simp add: exp_wl_ok_def)
next
  case (Some ch)
  with assms(1) obtain cname n where g: "json_get_string ch ''workload'' e = Some (JSON_OK, cname, n, e')"
      and "ewl' = ewl\<lparr>ewl_chain_name := cname, ewl_chain := Some ch, ewl_is_chained := True\<rparr>"
    by (auto simp: exp_wl_proc_chain_def bind_eq_Some_conv split: if_splits)
  then show ?thesis using json_get_string_value [OF g] assms(2-) by (simp add: exp_wl_ok_def)
qed

lemma exp_wl_proc_ok:
  assumes "exp_wl_proc node (exp_wl_create name) e = Some (0, ewl, e')"
  shows "exp_wl_ok name ewl \<and> ewl_tp ewl = None \<and> ewl_steps_cfg ewl = None"
proof -
  let ?ewl2 = "\<lambda>wltype tp. (exp_wl_create name)\<lparr>ewl_type := wltype, ewl_tp_name := tp\<rparr>"
  from assms obtain wltype n1 e1 tp_error tp n2 e2 c3 chain n3 e3 c4 deadline n4 e4 params n5 e5 where
      g: "json_get_string node ''wltype'' e = Some (JSON_OK, wltype, n1, e1)"
        "json_get_string n1 ''threadpool'' e1 = Some (tp_error, tp, n2, e2)"
        "json_get_integer_tm n3 ''deadline'' e3 = Some (c4, deadline, n4, e4)"
        "json_get_node n4 ''params'' e4 = Some (JSON_OK, params, n5, e5)"
      and ch: "exp_wl_proc_chain n5 chain tp_error
        ((case deadline of Some t \<Rightarrow> (?ewl2 wltype tp)\<lparr>ewl_deadline := t\<rparr> | None \<Rightarrow> ?ewl2 wltype tp)\<lparr>ewl_params := params\<rparr>) e5 = Some (0, ewl, e')"
    by (auto simp: exp_wl_proc_def bind_eq_Some_conv Let_def split: if_splits)
  note v = json_get_string_value [OF g(1)] json_get_string_value [OF g(2)] json_get_node_code [OF g(4)]
    json_get_integer_value [OF g(3) [unfolded json_get_integer_tm_def]]
  show ?thesis using exp_wl_proc_chain_ok [OF ch, of name] v
    by (cases deadline) (simp_all add: exp_wl_create_def)
qed

lemma json_get_bind_total:
  assumes "jn_wf p" and "\<And>c v q e'. jn_wf q \<Longrightarrow> json_get ty conv p name e = Some (c, v, q, e') \<Longrightarrow> g c v q e' \<noteq> None"
  shows "json_get ty conv p name e \<bind> (\<lambda>(c, v, q, e'). g c v q e') \<noteq> None"
  using json_get_total [OF assms(1), of ty conv name e] assms(2) by (metis (no_types, lifting) bind.bind_lunit case_prod_conv)

lemma if_not_None: "(P \<Longrightarrow> x \<noteq> None) \<Longrightarrow> (\<not> P \<Longrightarrow> y \<noteq> None) \<Longrightarrow> (if P then x else y) \<noteq> None"
  by simp

lemmas json_getters = json_get_integer_u32_def json_get_integer_tm_def json_get_integer_def json_get_string_def
  json_get_boolean_def json_get_array_def json_get_node_def

lemmas get_total = json_get_bind_total if_not_None option.distinct(2)

lemma exp_tp_proc_total: "jn_wf node \<Longrightarrow> exp_tp_proc node etp e \<noteq> None"
  unfolding exp_tp_proc_def json_getters Let_def by (intro get_total)

lemma exp_wl_proc_chain_total:
  "jn_wf node \<Longrightarrow> (\<And>ch. chain = Some ch \<Longrightarrow> jn_wf ch) \<Longrightarrow> exp_wl_proc_chain node chain tp_error ewl e \<noteq> None"
  unfolding exp_wl_proc_chain_def json_getters
  by (cases chain) (simp_all only: option.case, (intro get_total; simp)+)

lemma exp_wl_proc_total: "jn_wf node \<Longrightarrow> exp_wl_proc node ewl e \<noteq> None"
  unfolding exp_wl_proc_def json_getters Let_def
  by (intro get_total exp_wl_proc_chain_total) (auto dest!: json_get_node_value [unfolded json_get_node_def, rotated])

abbreviation child_names :: "'d json_node list \<Rightarrow> string list" where
  "child_names \<equiv> map (\<lambda>x. snd (the (jn_name x)))"

text \<open>The loops over the children of the sections: the maps have the names of the children, and no name occurs twice.\<close>

lemma exp_tp_loop_total:
  "(\<forall>x \<in> set nodes. jn_wf x \<and> jn_name x \<noteq> None) \<Longrightarrow> exp_tp_loop nodes tps e \<noteq> None"
proof (induction nodes arbitrary: tps e)
  case (Cons node nodes)
  then obtain tag name where "jn_name node = Some (tag, name)" by auto
  moreover obtain err etp e1 where "exp_tp_proc node (exp_tp_create name) e = Some (err, etp, e1)"
    using exp_tp_proc_total [of node] Cons.prems by (metis list.set_intros(1) not_None_eq prod.collapse)
  ultimately show ?case using Cons.IH Cons.prems by simp
qed simp

lemma exp_tp_loop_ok:
  assumes "exp_tp_loop nodes tps e = Some (EXPERR_PROC_OK, tps', e')" and "\<forall>name etp. tps name = Some etp \<longrightarrow> exp_tp_ok name etp"
  shows "dom tps' = dom tps \<union> set (child_names nodes) \<and> distinct (child_names nodes) \<and> dom tps \<inter> set (child_names nodes) = {} \<and>
    (\<forall>name etp. tps' name = Some etp \<longrightarrow> exp_tp_ok name etp)"
  using assms
proof (induction nodes arbitrary: tps e)
  case (Cons node nodes)
  from Cons.prems(1) obtain tag name etp e1 where name: "jn_name node = Some (tag, name)"
      and etp: "exp_tp_proc node (exp_tp_create name) e = Some (0, etp, e1)" and new: "tps name = None"
      and rest: "exp_tp_loop nodes (tps(name \<mapsto> etp)) e1 = Some (EXPERR_PROC_OK, tps', e')"
    by (auto simp: bind_eq_Some_conv split: option.splits if_splits)
  have "\<forall>n t. (tps(name \<mapsto> etp)) n = Some t \<longrightarrow> exp_tp_ok n t" using Cons.prems(2) exp_tp_proc_ok [OF etp] by simp
  from Cons.IH [OF rest this, unfolded dom_fun_upd] name new show ?case by auto
qed simp

lemma exp_wl_loop_total:
  "(\<forall>x \<in> set nodes. jn_wf x \<and> jn_name x \<noteq> None) \<Longrightarrow> exp_wl_loop tps nodes wls e \<noteq> None"
proof (induction nodes arbitrary: wls e)
  case (Cons node nodes)
  then obtain tag name where "jn_name node = Some (tag, name)" by auto
  moreover obtain err ewl e1 where "exp_wl_proc node (exp_wl_create name) e = Some (err, ewl, e1)"
    using exp_wl_proc_total [of node] Cons.prems by (metis list.set_intros(1) not_None_eq prod.collapse)
  ultimately show ?case using Cons.IH Cons.prems by (simp split: option.split)
qed simp

text \<open>A workload in the map points to the thread pool it names, which exists; its steps are not set yet.\<close>

definition exp_wl_attached :: "'d exp_tps \<Rightarrow> 'd exp_workload \<Rightarrow> bool" where
  "exp_wl_attached tps ewl \<longleftrightarrow> ewl_tp ewl = ewl_tp_name ewl \<and> (\<forall>tp. ewl_tp_name ewl = Some tp \<longrightarrow> tps tp \<noteq> None)"

lemma exp_wl_loop_ok:
  assumes "exp_wl_loop tps nodes wls e = Some (EXPERR_PROC_OK, wls', e')"
    and "\<forall>name ewl. wls name = Some ewl \<longrightarrow> exp_wl_ok name ewl \<and> exp_wl_attached tps ewl \<and> ewl_steps_cfg ewl = None"
  shows "dom wls' = dom wls \<union> set (child_names nodes) \<and> distinct (child_names nodes) \<and> dom wls \<inter> set (child_names nodes) = {} \<and>
    (\<forall>name ewl. wls' name = Some ewl \<longrightarrow> exp_wl_ok name ewl \<and> exp_wl_attached tps ewl \<and> ewl_steps_cfg ewl = None)"
  using assms
proof (induction nodes arbitrary: wls e)
  case (Cons node nodes)
  from Cons.prems(1) obtain tag name ewl e1 ewl1 where name: "jn_name node = Some (tag, name)"
      and ewl: "exp_wl_proc node (exp_wl_create name) e = Some (0, ewl, e1)" and new: "wls name = None"
      and ewl1: "ewl1 = (case ewl_tp_name ewl of None \<Rightarrow> ewl | Some tp \<Rightarrow> ewl\<lparr>ewl_tp := Some tp\<rparr>)"
        "\<forall>tp. ewl_tp_name ewl = Some tp \<longrightarrow> tps tp \<noteq> None"
      and rest: "exp_wl_loop tps nodes (wls(name \<mapsto> ewl1)) e1 = Some (EXPERR_PROC_OK, wls', e')"
    by (fastforce simp: bind_eq_Some_conv split: option.splits if_splits)
  have "exp_wl_ok name ewl1 \<and> exp_wl_attached tps ewl1 \<and> ewl_steps_cfg ewl1 = None"
    using exp_wl_proc_ok [OF ewl] ewl1 by (auto simp: exp_wl_ok_def exp_wl_attached_def split: option.splits)
  then have "\<forall>n w. (wls(name \<mapsto> ewl1)) n = Some w \<longrightarrow> exp_wl_ok n w \<and> exp_wl_attached tps w \<and> ewl_steps_cfg w = None"
    using Cons.prems(2) by simp
  from Cons.IH [OF rest this, unfolded dom_fun_upd] name new show ?case by auto
qed simp

lemma exp_steps_loop_total: "(\<forall>x \<in> set steps. jn_name x \<noteq> None) \<Longrightarrow> exp_steps_loop steps wls \<noteq> None"
  by (induction steps arbitrary: wls) (auto split: option.split)

lemma exp_steps_loop_ok:
  assumes "exp_steps_loop steps wls = Some (EXPERR_PROC_OK, wls')"
  shows "dom wls' = dom wls \<and> set (child_names steps) \<subseteq> dom wls \<and>
    (\<forall>name ewl. wls' name = Some ewl \<longrightarrow>
       (\<exists>ewl0. wls name = Some ewl0 \<and> ewl = ewl0\<lparr>ewl_steps_cfg := ewl_steps_cfg ewl\<rparr> \<and>
          (if name \<in> set (child_names steps) then ewl_steps_cfg ewl \<noteq> None else ewl_steps_cfg ewl = ewl_steps_cfg ewl0)))"
  using assms
proof (induction steps arbitrary: wls)
  case (Cons step steps)
  from Cons.prems obtain tag name ewl where name: "jn_name step = Some (tag, name)" and ewl: "wls name = Some ewl"
      and rest: "exp_steps_loop steps (wls(name \<mapsto> ewl\<lparr>ewl_steps_cfg := Some step\<rparr>)) = Some (EXPERR_PROC_OK, wls')"
    by (auto split: option.splits)
  note IH = Cons.IH [OF rest, unfolded dom_fun_upd]
  have "\<exists>ewl0. wls n = Some ewl0 \<and> w = ewl0\<lparr>ewl_steps_cfg := ewl_steps_cfg w\<rparr> \<and>
      (if n \<in> set (child_names (step # steps)) then ewl_steps_cfg w \<noteq> None else ewl_steps_cfg w = ewl_steps_cfg ewl0)"
    if "wls' n = Some w" for n w
    using IH that name ewl by (cases "n = name") (fastforce split: if_splits)+
  moreover have "name \<in> dom wls" using ewl by auto
  ultimately show ?case using IH name by (auto simp: insert_absorb)
qed simp

text \<open>The children of the section with a name.\<close>

definition cfg_section :: "'d json_node \<Rightarrow> string \<Rightarrow> 'd json_node list" where
  "cfg_section config name =
     (case json_first_named name (jn_child_head config) of
        None \<Rightarrow> [] | Some i \<Rightarrow> jn_child_head (jn_child_head config ! i))"

lemma json_has_name_touched [simp]: "json_has_name name (jn_set_touched b x) = json_has_name name x"
  by (simp add: json_has_name_def)

lemma json_first_named_touched: "json_first_named name (map (jn_set_touched b) ch) = json_first_named name ch"
  by (simp add: json_first_named_def takeWhile_map comp_def)

lemma cfg_section_touches:
  assumes "touches p q"
  shows "cfg_section q name = cfg_section p name"
proof -
  have m: "map (jn_set_touched True) (jn_child_head q) = map (jn_set_touched True) (jn_child_head p)"
    using assms by (simp add: touches_def)
  then have n: "json_first_named name (jn_child_head q) = json_first_named name (jn_child_head p)"
    by (metis json_first_named_touched)
  have "jn_child_head (jn_child_head q ! i) = jn_child_head (jn_child_head p ! i)" if "i < length (jn_child_head p)" for i
    using m that by (metis jn_child_head_touched length_map nth_map)
  with n json_first_named_Some(1) show ?thesis by (fastforce simp: cfg_section_def split: option.split)
qed

lemma json_get_node_section:
  assumes "jn_wf p" and "json_get_node p name e = Some (c, Some x, q, e')"
  shows "jn_child_head x = cfg_section p name" and "\<forall>y \<in> set (cfg_section p name). jn_wf y \<and> jn_name y \<noteq> None"
proof -
  from json_get_node_value [OF assms] show x: "jn_child_head x = cfg_section p name" by (auto simp: cfg_section_def)
  from json_get_node_value [OF assms] have "jn_wf x" and "jn_type x = JSON_NODE" by auto
  then show "\<forall>y \<in> set (cfg_section p name). jn_wf y \<and> jn_name y \<noteq> None"
    using jn_wf_children(2,3) [of x] unfolding x by blast
qed

lemma json_get_node_cases:
  assumes "jn_wf p"
  obtains (found) x q e' where "json_get_node p name e = Some (JSON_OK, Some x, q, e')" "jn_wf q" "touches p q"
  | (failed) c q e' where "json_get_node p name e = Some (c, None, q, e')" "c \<noteq> JSON_OK"
proof -
  obtain c v q e' where g: "json_get_node p name e = Some (c, v, q, e')" "jn_wf q"
    unfolding json_get_node_def by (rule json_get_total [OF assms])
  moreover have "touches p q" using g(1) json_get_touches unfolding json_get_node_def by blast
  ultimately show ?thesis using json_get_node_code [OF g(1)] that by (cases v) auto
qed

text \<open>The result of a configuration that was accepted.\<close>

definition exp_config_read :: "'d json_node \<Rightarrow> 'd exp_tps \<Rightarrow> 'd exp_wls \<Rightarrow> bool" where
  "exp_config_read config tps wls \<longleftrightarrow>
     dom tps = set (child_names (cfg_section config ''threadpools'')) \<and>
     distinct (child_names (cfg_section config ''threadpools'')) \<and>
     dom wls = set (child_names (cfg_section config ''workloads'')) \<and>
     distinct (child_names (cfg_section config ''workloads'')) \<and>
     (\<forall>name etp. tps name = Some etp \<longrightarrow> exp_tp_ok name etp) \<and>
     (\<forall>name ewl. wls name = Some ewl \<longrightarrow> exp_wl_ok name ewl \<and> exp_wl_attached tps ewl \<and>
        (ewl_steps_cfg ewl \<noteq> None \<longleftrightarrow> name \<in> set (child_names (cfg_section config ''steps'')))) \<and>
     set (child_names (cfg_section config ''steps'')) \<subseteq> dom wls"

lemma exp_loops_read:
  assumes "exp_tp_loop (cfg_section config ''threadpools'') Map.empty e = Some (EXPERR_PROC_OK, tps, e1)"
    and "exp_wl_loop tps (cfg_section config ''workloads'') Map.empty e1 = Some (EXPERR_PROC_OK, wls, e2)"
    and "exp_steps_loop (cfg_section config ''steps'') wls = Some (EXPERR_PROC_OK, wls1)"
  shows "exp_config_read config tps wls1"
proof -
  note tp = exp_tp_loop_ok [OF assms(1)] and wl = exp_wl_loop_ok [OF assms(2)] and st = exp_steps_loop_ok [OF assms(3)]
  have "exp_wl_ok name ewl \<and> exp_wl_attached tps ewl \<and>
      (ewl_steps_cfg ewl \<noteq> None \<longleftrightarrow> name \<in> set (child_names (cfg_section config ''steps'')))" if w: "wls1 name = Some ewl" for name ewl
  proof -
    from st w obtain ewl0 where "wls name = Some ewl0" and e: "ewl = ewl0\<lparr>ewl_steps_cfg := ewl_steps_cfg ewl\<rparr>"
        and s: "if name \<in> set (child_names (cfg_section config ''steps'')) then ewl_steps_cfg ewl \<noteq> None
                else ewl_steps_cfg ewl = ewl_steps_cfg ewl0" by blast
    with wl have w0: "exp_wl_ok name ewl0" "exp_wl_attached tps ewl0" "ewl_steps_cfg ewl0 = None" by auto
    have "exp_wl_ok name (ewl0\<lparr>ewl_steps_cfg := ewl_steps_cfg ewl\<rparr>) \<and>
        exp_wl_attached tps (ewl0\<lparr>ewl_steps_cfg := ewl_steps_cfg ewl\<rparr>)"
      using w0(1,2) by (simp add: exp_wl_ok_def exp_wl_attached_def)
    from this [folded e] show ?thesis using s w0(3) by (simp split: if_splits)
  qed
  moreover have "dom wls1 = dom wls \<and> set (child_names (cfg_section config ''steps'')) \<subseteq> dom wls" using st by blast
  moreover have "dom tps = set (child_names (cfg_section config ''threadpools''))"
      "distinct (child_names (cfg_section config ''threadpools''))"
      "\<forall>name etp. tps name = Some etp \<longrightarrow> exp_tp_ok name etp" using tp by simp_all
  moreover have "dom wls = set (child_names (cfg_section config ''workloads''))"
      "distinct (child_names (cfg_section config ''workloads''))" using wl by simp_all
  ultimately show ?thesis unfolding exp_config_read_def by (intro conjI allI impI) metis+
qed

section \<open>Properties\<close>

text \<open>
  C26. Every well-formed configuration is processed without the use of a null name. When the result is
  \<open>EXPERR_PROC_OK\<close>, the maps have exactly the thread pools and workloads of the configuration, none of them twice; the
  numbers of a thread pool fit their types and it has a dispatcher; a workload has its type and parameters, one that is
  not chained has a request scheduler and is attached to the thread pool it names, which exists, one that is chained has the
  name of its chain, and it has steps exactly when the section with steps names it, which names workloads only.
\<close>

theorem experiment_process_config_read:
  assumes "jn_wf config"
  shows "\<exists>ret maps. experiment_process_config config e = Some (ret, maps) \<and>
    (ret = EXPERR_PROC_OK \<longrightarrow> (\<exists>tps wls. maps = Some (tps, wls) \<and> exp_config_read config tps wls))"
proof (cases rule: json_get_node_cases [OF assms, of "''workloads''" e, case_names wl no_wl])
  case (wl w q1 e1)
  note s1 = json_get_node_section [OF assms wl(1)]
  show ?thesis
  proof (cases rule: json_get_node_cases [OF wl(2), of "''threadpools''" e1, case_names tp no_tp])
    case (tp t q2 e2)
    note s2 = json_get_node_section [OF wl(2) tp(1), unfolded cfg_section_touches [OF wl(3)]]
    show ?thesis
    proof (cases rule: json_get_node_cases [OF tp(2), of "''steps''" e2, case_names st no_st])
      case (st s q3 e3)
      note s3 = json_get_node_section [OF tp(2) st(1), unfolded cfg_section_touches [OF touches_trans [OF wl(3) tp(3)]]]
      obtain ret1 tps e4 where tl: "exp_tp_loop (cfg_section config ''threadpools'') Map.empty e3 = Some (ret1, tps, e4)"
        using exp_tp_loop_total [OF s2(2)] by (metis not_None_eq prod.collapse)
      obtain ret2 wls e5 where wll: "exp_wl_loop tps (cfg_section config ''workloads'') Map.empty e4 = Some (ret2, wls, e5)"
        using exp_wl_loop_total [OF s1(2)] by (metis not_None_eq prod.collapse)
      obtain ret3 wls1 where sl: "exp_steps_loop (cfg_section config ''steps'') wls = Some (ret3, wls1)"
        using exp_steps_loop_total [of "cfg_section config ''steps''" wls] s3(2) by (metis not_None_eq prod.collapse)
      show ?thesis
        using exp_loops_read [of config e3 tps e4 wls e5 wls1] tl wll sl
        by (simp add: experiment_process_config_def wl(1) tp(1) st(1) s1(1) s2(1) s3(1))
    qed (simp add: experiment_process_config_def wl(1) tp(1))
  qed (simp add: experiment_process_config_def wl(1))
qed (simp add: experiment_process_config_def)

definition demo_obj :: "string \<Rightarrow> nat json_node list \<Rightarrow> nat json_node" where
  "demo_obj name ch = Json_Node (Some (JSON_STR_DYNAMIC, name)) JSON_NODE False False JUnset (length ch) ch"

definition demo_str :: "string \<Rightarrow> string \<Rightarrow> nat json_node" where
  "demo_str name s = Json_Node (Some (JSON_STR_DYNAMIC, name)) JSON_STRING False False (JStr (JSON_STR_DYNAMIC, s)) 0 []"

definition demo_int :: "string \<Rightarrow> int \<Rightarrow> nat json_node" where
  "demo_int name i = Json_Node (Some (JSON_STR_DYNAMIC, name)) JSON_NUMBER True False (JInt i) 0 []"

definition demo_config :: "nat json_node" where
  "demo_config = demo_obj ''config''
     [demo_obj ''workloads''
        [demo_obj ''w'' [demo_str ''wltype'' ''busy'', demo_str ''threadpool'' ''p'', demo_obj ''params'' [], demo_obj ''rqsched'' []],
         demo_obj ''c'' [demo_str ''wltype'' ''busy'', demo_obj ''params'' [], demo_obj ''chain'' [demo_str ''workload'' ''w'']]],
      demo_obj ''threadpools'' [demo_obj ''p'' [demo_int ''num_threads'' 2, demo_int ''quantum'' 1000, demo_obj ''disp'' []]],
      demo_obj ''steps'' [demo_obj ''w'' []]]"

lemma demo_config_wf: "jn_wf demo_config"
  by (simp add: demo_config_def demo_obj_def demo_str_def demo_int_def)

theorem experiment_process_config_read_witness:
  "\<exists>tps wls. experiment_process_config demo_config JSON_OK = Some (EXPERR_PROC_OK, Some (tps, wls)) \<and>
     exp_config_read demo_config tps wls \<and> dom wls = {''w'', ''c''}"
proof -
  have ok: "map_option fst (experiment_process_config demo_config JSON_OK) = Some EXPERR_PROC_OK" by code_simp
  from experiment_process_config_read [OF demo_config_wf, of JSON_OK] obtain ret maps where
      r: "experiment_process_config demo_config JSON_OK = Some (ret, maps)"
      "ret = EXPERR_PROC_OK \<longrightarrow> (\<exists>tps wls. maps = Some (tps, wls) \<and> exp_config_read demo_config tps wls)" by blast
  with ok obtain tps wls where m: "maps = Some (tps, wls)" "ret = EXPERR_PROC_OK" and c: "exp_config_read demo_config tps wls" by auto
  have "set (child_names (cfg_section demo_config ''workloads'')) = {''w'', ''c''}" by code_simp
  then have "dom wls = {''w'', ''c''}" using c by (simp add: exp_config_read_def)
  then show ?thesis using r(1) m c by blast
qed

section \<open>Names of paths\<close>

text \<open>The name of the node at a path, its components separated by colons.\<close>

fun path_name :: "'d json_node \<Rightarrow> nat list \<Rightarrow> string" where
  "path_name node [] = []"
| "path_name node (i # path) =
     the (cfg_child_name node i (jn_child_head node ! i)) @
     (if path = [] then [] else colon # path_name (jn_child_head node ! i) path)"

text \<open>Names that a path can be split into again: no colon in a name, no name twice in a node.\<close>

fun cfg_plain :: "'d json_node \<Rightarrow> bool" where
  "cfg_plain (Json_Node n t i u d c ch) \<longleftrightarrow>
     (t = JSON_NODE \<longrightarrow> distinct (child_names ch) \<and> (\<forall>x \<in> set (child_names ch). colon \<notin> set x \<and> length x < PATHPARTMAXLEN)) \<and>
     (t = JSON_ARRAY \<longrightarrow> length ch < 2 ^ 31) \<and> (\<forall>x \<in> set ch. cfg_plain x)"

lemma cfg_plain_node:
  "cfg_plain node \<longleftrightarrow>
     (jn_type node = JSON_NODE \<longrightarrow> distinct (child_names (jn_child_head node)) \<and>
        (\<forall>x \<in> set (child_names (jn_child_head node)). colon \<notin> set x \<and> length x < PATHPARTMAXLEN)) \<and>
     (jn_type node = JSON_ARRAY \<longrightarrow> length (jn_child_head node) < 2 ^ 31) \<and> (\<forall>x \<in> set (jn_child_head node). cfg_plain x)"
  by (cases node) simp

lemma jn_touched_view [simp]:
  "cfg_plain (jn_set_touched b node) = cfg_plain node" "path_name (jn_set_touched b node) q = path_name node q"
  "q \<noteq> [] \<Longrightarrow> node_at q (jn_set_touched b node) = node_at q node" "jn_fresh (jn_set_touched b node) = jn_fresh node"
  by (cases node; cases q; simp add: cfg_child_name_def)+

lemma node_at_append: "node_at (p @ q) node = node_at p node \<bind> node_at q"
  by (induction p arbitrary: node) auto

lemma node_at_upd: "node_at p node = Some x \<Longrightarrow> node_at p (node_upd p f node) = Some (f x)"
  by (induction p arbitrary: node) (auto split: if_splits)

lemma jn_fresh_children:
  assumes "map jn_fresh ch = map jn_fresh (jn_child_head node)"
  shows "jn_fresh (jn_set_children (jn_children_count node) ch node) = jn_fresh node"
  using assms map_eq_imp_length_eq [OF assms] by (cases node) simp

lemma jn_fresh_upd:
  "node_at p node = Some x \<Longrightarrow> jn_fresh y = jn_fresh x \<Longrightarrow> jn_fresh (node_upd p (\<lambda>_. y) node) = jn_fresh node"
proof (induction p arbitrary: node)
  case (Cons i p)
  then have i: "i < length (jn_child_head node)" and "node_at p (jn_child_head node ! i) = Some x" by (auto split: if_splits)
  with Cons.IH Cons.prems(2) show ?case
    by (auto intro!: jn_fresh_children simp: map_update list_update_same_conv)
qed simp

lemma jn_fresh_touch_child: "i < length (jn_child_head node) \<Longrightarrow> jn_fresh (json_touch_child node i) = jn_fresh node"
  unfolding json_touch_child_def Let_def by (rule jn_fresh_children) (simp add: map_update list_update_same_conv)

lemma nat_text_length: "n < 10 ^ k \<Longrightarrow> 0 < k \<Longrightarrow> length (nat_text n) \<le> k"
proof (induction k arbitrary: n)
  case (Suc k)
  show ?case
  proof (cases "n < 10")
    case False
    then have "n div 10 < 10 ^ k" "0 < k" using Suc.prems by (auto intro: gr0I)
    with Suc.IH False show ?thesis by (subst nat_text.simps) simp
  qed (subst nat_text.simps, simp)
qed simp

lemma not_digit_NUL: "\<not> is_digit NUL"
  by code_simp

lemma strtol_int_nat_text:
  assumes "n < 2 ^ 31"
  shows "strtol_int (nat_text n) = int n"
proof -
  have t: "nat_text n = int_text (int n)" by (simp add: int_text_def)
  have "strtoll (nat_text n @ [NUL]) = (int n, length (nat_text n), False)"
    unfolding t by (rule strtoll_int_text) (use assms not_digit_NUL in auto)
  moreover have "sint (word_of_int (int n) :: 32 word) = int n"
    unfolding sint_sbintrunc' using assms by (intro signed_take_bit_int_eq_self) auto
  ultimately show ?thesis by (simp add: strtol_int_def)
qed


lemma json_first_named_distinct:
  assumes "distinct (child_names ch)" and "\<forall>x \<in> set ch. jn_name x \<noteq> None" and "i < length ch"
  shows "json_first_named (snd (the (jn_name (ch ! i)))) ch = Some i"
proof -
  let ?n = "snd (the (jn_name (ch ! i)))"
  have named: "json_has_name ?n (ch ! j) \<longleftrightarrow> child_names ch ! j = child_names ch ! i" if "j < length ch" for j
  proof -
    from assms(2) that obtain s where "jn_name (ch ! j) = Some s" by force
    then show ?thesis using that assms(3) by (simp add: json_has_name_def)
  qed
  have "\<exists>x \<in> set ch. json_has_name ?n x" using named [OF assms(3)] assms(3) nth_mem by blast
  then obtain k where k: "json_first_named ?n ch = Some k" by (simp add: json_first_named_def)
  from json_first_named_Some(1,2) [OF k] named have "child_names ch ! k = child_names ch ! i" and l: "k < length ch" by auto
  then have "k = i" using nth_eq_iff_index_eq [OF assms(1), of k i] assms(3) by simp
  with k show ?thesis by simp
qed

text \<open>The child that a component of a name leads to, up to the mark it gets.\<close>

definition child_found :: "'d json_node \<Rightarrow> nat \<Rightarrow> 'd json_node \<Rightarrow> bool" where
  "child_found node i node1 \<longleftrightarrow> jn_fresh node1 = jn_fresh node \<and> length (jn_child_head node1) = length (jn_child_head node) \<and>
     (\<exists>b. jn_child_head node1 ! i = jn_set_touched b (jn_child_head node ! i))"

abbreviation comp_name :: "'d json_node \<Rightarrow> nat \<Rightarrow> string" where
  "comp_name node i \<equiv> the (cfg_child_name node i (jn_child_head node ! i))"

lemma cfg_find_child_object:
  assumes wf: "jn_wf node" and plain: "cfg_plain node" and i: "i < length (jn_child_head node)" and t: "jn_type node = JSON_NODE"
  shows "colon \<notin> set (comp_name node i) \<and> length (comp_name node i) < PATHPARTMAXLEN \<and>
    (\<exists>node1. cfg_find_child node (comp_name node i) is_last JSON_ANY e = Some (Some i, node1, e) \<and> child_found node i node1)"
proof -
  let ?ch = "jn_child_head node"
  have named: "\<forall>x \<in> set ?ch. jn_name x \<noteq> None" using jn_wf_children(3) [OF wf] t by blast
  have dist: "distinct (child_names ?ch)" and ok: "\<forall>x \<in> set (child_names ?ch). colon \<notin> set x \<and> length x < PATHPARTMAXLEN"
    using plain t cfg_plain_node [of node] by simp_all
  have name: "comp_name node i = snd (the (jn_name (?ch ! i)))"
    using named i t by (auto simp: cfg_child_name_def option.map_sel)
  have "json_first_named (comp_name node i) ?ch = Some i"
    unfolding name by (rule json_first_named_distinct [OF dist named i])
  then have "json_find_walk (comp_name node i) 0 ?ch = Some (Some i)" by (simp add: json_find_walk_named [OF named])
  then have "cfg_find_child node (comp_name node i) is_last JSON_ANY e = Some (Some i, json_touch_child node i, e)"
    by (simp add: cfg_find_child_def json_find_def json_find_opt_def t json_check_type_def)
  moreover have "child_found node i (json_touch_child node i)"
    using i jn_fresh_touch_child [OF i] by (auto simp: child_found_def json_touch_child_def Let_def)
  ultimately show ?thesis using ok i name by auto
qed

lemma cfg_find_child_array:
  assumes wf: "jn_wf node" and plain: "cfg_plain node" and i: "i < length (jn_child_head node)" and t: "jn_type node = JSON_ARRAY"
  shows "colon \<notin> set (comp_name node i) \<and> length (comp_name node i) < PATHPARTMAXLEN \<and>
    (\<exists>node1. cfg_find_child node (comp_name node i) is_last JSON_ANY e = Some (Some i, node1, e) \<and> child_found node i node1)"
proof -
  have name: "comp_name node i = nat_text i" using t by (simp add: cfg_child_name_def)
  have i31: "i < 2 ^ 31" using plain t i cfg_plain_node [of node] by simp
  have "colon \<notin> set (nat_text i)" using nat_text_digits [of i] by (auto simp: is_digit_def char_in_def char_val_def)
  moreover have "length (nat_text i) < PATHPARTMAXLEN" using nat_text_length [of i 10] i31 by (simp add: PATHPARTMAXLEN_def)
  moreover have "\<exists>b. jn_child_head node ! i = jn_set_touched b (jn_child_head node ! i)"
    by (cases "jn_child_head node ! i") auto
  moreover have "cfg_find_child node (nat_text i) is_last JSON_ANY e = Some (Some i, node, e)"
    using t i jn_wf_children(1) [OF wf] by (simp add: cfg_find_child_def strtol_int_nat_text [OF i31] json_getitem_def Let_def)
  ultimately show ?thesis unfolding name by (auto simp: child_found_def)
qed

lemma cfg_find_child_name:
  assumes "jn_wf node" and "cfg_plain node" and "i < length (jn_child_head node)"
  shows "colon \<notin> set (comp_name node i) \<and> length (comp_name node i) < PATHPARTMAXLEN \<and>
    (\<exists>node1. cfg_find_child node (comp_name node i) is_last JSON_ANY e = Some (Some i, node1, e) \<and> child_found node i node1)"
proof -
  have "jn_type node = JSON_NODE \<or> jn_type node = JSON_ARRAY" using assms(1,3) by (cases node) auto
  then show ?thesis using cfg_find_child_object [OF assms] cfg_find_child_array [OF assms] by metis
qed

lemma split_colon:
  assumes "colon \<notin> set name"
  shows "takeWhile (\<lambda>c. c \<noteq> colon) (name @ colon # rest) = name" "dropWhile (\<lambda>c. c \<noteq> colon) (name @ colon # rest) = colon # rest"
    "takeWhile (\<lambda>c. c \<noteq> colon) name = name" "dropWhile (\<lambda>c. c \<noteq> colon) name = []"
proof -
  have n: "\<And>x. x \<in> set name \<Longrightarrow> x \<noteq> colon" using assms by blast
  show "takeWhile (\<lambda>c. c \<noteq> colon) (name @ colon # rest) = name" using n by (subst takeWhile_append2) auto
  show "dropWhile (\<lambda>c. c \<noteq> colon) (name @ colon # rest) = colon # rest" using n by (subst dropWhile_append2) auto
  show "takeWhile (\<lambda>c. c \<noteq> colon) name = name" "dropWhile (\<lambda>c. c \<noteq> colon) name = []" using n by simp_all
qed

text \<open>The name of a path leads to the path, and only marks change.\<close>

lemma cfg_find_loop_name:
  assumes "node_at path config = Some node" and "jn_wf node" and "cfg_plain node" and "q \<noteq> []" and "node_at q node \<noteq> None"
  shows "\<exists>config1. cfg_find_loop config path (path_name node q) JSON_ANY e = Some (Some (path @ q), path @ butlast q, config1, e) \<and>
    jn_fresh config1 = jn_fresh config"
  using assms
proof (induction q arbitrary: path config node)
  case (Cons i q)
  then have i: "i < length (jn_child_head node)" and at: "node_at q (jn_child_head node ! i) \<noteq> None" by (auto split: if_splits)
  note found = cfg_find_child_name [OF Cons.prems(2,3) i]
  from found obtain node1 where f: "cfg_find_child node (comp_name node i) (q = []) JSON_ANY e = Some (Some i, node1, e)"
    and c: "child_found node i node1" by blast
  let ?config1 = "node_upd path (\<lambda>_. node1) config"
  have fresh: "jn_fresh ?config1 = jn_fresh config" using jn_fresh_upd [OF Cons.prems(1)] c by (simp add: child_found_def)
  note split = split_colon [OF conjunct1 [OF found]]
  have len: "\<not> length (comp_name node i) \<ge> PATHPARTMAXLEN" using found by (meson not_le)
  show ?case
  proof (cases "q = []")
    case True
    then show ?thesis using f len Cons.prems(1) fresh by (subst cfg_find_loop.simps) (simp add: split)
  next
    case False
    let ?x = "jn_child_head node ! i"
    have step: "cfg_find_loop config path (path_name node (i # q)) JSON_ANY e =
        cfg_find_loop ?config1 (path @ [i]) (path_name ?x q) JSON_ANY e"
      using False f len Cons.prems(1) by (subst cfg_find_loop.simps) (simp add: split)
    from c obtain b where x: "jn_child_head node1 ! i = jn_set_touched b ?x" "i < length (jn_child_head node1)"
      using i by (auto simp: child_found_def)
    have "node_at (path @ [i]) ?config1 = Some (jn_set_touched b ?x)"
      using x by (simp add: node_at_append node_at_upd [OF Cons.prems(1)])
    moreover have "jn_wf (jn_set_touched b ?x)" "cfg_plain (jn_set_touched b ?x)"
      using jn_wf_children(2) [OF Cons.prems(2)] Cons.prems(3) i cfg_plain_node [of node] by simp_all
    ultimately have "\<exists>config2. cfg_find_loop ?config1 (path @ [i]) (path_name (jn_set_touched b ?x) q) JSON_ANY e =
        Some (Some ((path @ [i]) @ q), (path @ [i]) @ butlast q, config2, e) \<and> jn_fresh config2 = jn_fresh ?config1"
      by (rule Cons.IH) (use False at in simp_all)
    with fresh False show ?thesis unfolding step by simp
  qed
qed simp

section \<open>The walk visits the nodes under their names\<close>

text \<open>The paths below a node from its child \<open>i\<close> on, in the order of the walk.\<close>

function node_paths :: "nat \<Rightarrow> 'd json_node list \<Rightarrow> nat list list" where
  "node_paths i [] = []"
| "node_paths i (node # nodes) = [i] # map ((#) i) (node_paths 0 (jn_child_head node)) @ node_paths (Suc i) nodes"
  by pat_completeness auto

termination node_paths
  by (relation "measure (\<lambda>(i, nodes). size_list size nodes)")
     (auto simp: trans_less_add1 [OF jn_child_head_size] intro: le_less_trans [OF _ jn_child_head_size] less_SucI)

lemma node_paths_set:
  "q \<in> set (node_paths i nodes) \<longleftrightarrow>
     (\<exists>k p. q = k # p \<and> i \<le> k \<and> k - i < length nodes \<and> node_at p (nodes ! (k - i)) \<noteq> None)"
proof (induction i nodes arbitrary: q rule: node_paths.induct)
  case (2 i node nodes)
  have below: "p \<in> set (node_paths 0 (jn_child_head node)) \<longleftrightarrow> p \<noteq> [] \<and> node_at p node \<noteq> None" for p
    using "2.IH"(1) [of p] by (cases p) auto
  have rest: "q \<in> set (node_paths (Suc i) nodes) \<longleftrightarrow>
     (\<exists>k p. q = k # p \<and> i < k \<and> k - i < length (node # nodes) \<and> node_at p ((node # nodes) ! (k - i)) \<noteq> None)"
    unfolding "2.IH"(2) by (intro ex_cong1 conj_cong refl) (auto simp: nth_Cons' Suc_le_eq)
  have "q \<in> set (node_paths i (node # nodes)) \<longleftrightarrow> (\<exists>p. q = i # p \<and> node_at p node \<noteq> None) \<or> q \<in> set (node_paths (Suc i) nodes)"
    using below by (cases q) auto
  then show ?case unfolding rest by (auto simp: le_less)
qed simp

lemma node_paths_children: "set (node_paths 0 (jn_child_head node)) = {p. p \<noteq> [] \<and> node_at p node \<noteq> None}"
proof (rule set_eqI)
  fix p show "p \<in> set (node_paths 0 (jn_child_head node)) \<longleftrightarrow> p \<in> {p. p \<noteq> [] \<and> node_at p node \<noteq> None}"
    by (cases p) (simp_all add: node_paths_set)
qed

lemma node_paths_distinct: "distinct (node_paths i nodes)"
proof (induction i nodes rule: node_paths.induct)
  case (2 i node nodes)
  have "[] \<notin> set (node_paths 0 (jn_child_head node))" by (simp add: node_paths_set)
  moreover have "q \<in> set (node_paths (Suc i) nodes) \<Longrightarrow> hd q \<noteq> i" for q by (auto simp: node_paths_set)
  ultimately show ?case using 2 by (fastforce simp: distinct_map)
qed simp

text \<open>A walker that notes the names and nodes it gets.\<close>

definition noting :: "('d, (string \<times> 'd json_node) list) cfg_walker" where
  "noting name node seen = (EXP_WALK_CONTINUE, seen @ [(name, node)])"

lemma cfg_walk_children_notes:
  assumes "cfg_walk_children noting None parent prefix path i nodes child seen = Some r"
    and "drop i (jn_child_head parent) = nodes" and "\<forall>x \<in> set nodes. jn_wf x"
  shows "r = (EXP_WALK_CONTINUE, child,
    seen @ map (\<lambda>q. (prefix @ path_name parent q, the (node_at q parent))) (node_paths i nodes))"
  using assms
proof (induction i nodes arbitrary: parent prefix path child seen r rule: node_paths.induct)
  case (2 i node nodes)
  have i: "i < length (jn_child_head parent)" and x: "jn_child_head parent ! i = node"
    and rest: "drop (Suc i) (jn_child_head parent) = nodes"
    using "2.prems"(2) by (metis drop_eq_Nil list.distinct(1) not_le, metis nth_via_drop, metis Cons_nth_drop_Suc drop_eq_Nil list.distinct(1) list.inject not_le)
  have wf: "jn_wf node" and wfs: "\<forall>x \<in> set nodes. jn_wf x" using "2.prems"(3) by auto
  from "2.prems"(1) obtain name where name: "cfg_child_name parent i node = Some name" by (auto split: option.splits)
  let ?below = "seen @ [(prefix @ name, node)] @
    map (\<lambda>q. (prefix @ name @ [colon] @ path_name node q, the (node_at q node))) (node_paths 0 (jn_child_head node))"
  have walk: "cfg_walk_children noting None parent prefix path (Suc i) nodes child ?below = Some r"
  proof (cases "jn_type node \<in> {JSON_ARRAY, JSON_NODE}")
    case True
    let ?walk = "cfg_walk_children noting None node (prefix @ name @ [colon]) (path @ [i]) 0 (jn_child_head node) child
      (seen @ [(prefix @ name, node)])"
    from "2.prems"(1) name True obtain b where b: "?walk = Some b"
      by (auto simp: noting_def [of "prefix @ name"] split: option.splits if_splits)
    with "2.IH"(1) [OF b] jn_wf_children(2) [OF wf] have "?walk = Some (EXP_WALK_CONTINUE, child, ?below)" by simp
    then show ?thesis using "2.prems"(1) name True by (auto simp: noting_def [of "prefix @ name"] split: if_splits)
  next
    case False
    then have "jn_child_head node = []" using wf by (cases node) auto
    then show ?thesis using "2.prems"(1) name False by (auto simp: noting_def [of "prefix @ name"] split: if_splits)
  qed
  have "q \<noteq> []" if "q \<in> set (node_paths 0 (jn_child_head node))" for q using that by (auto simp: node_paths_set)
  then have "map (\<lambda>q. (prefix @ path_name parent q, the (node_at q parent))) (map ((#) i) (node_paths 0 (jn_child_head node))) =
      map (\<lambda>q. (prefix @ name @ [colon] @ path_name node q, the (node_at q node))) (node_paths 0 (jn_child_head node))"
    using i x name by simp
  then show ?case using "2.IH"(2) [OF walk rest wfs] i x name by simp
qed simp

text \<open>
  C27. The walk over a well-formed configuration whose names have no colons and are unique visits every node below the root
  exactly once, and \<open>experiment_cfg_find\<close> with the name that the walker got returns that node, changing nothing but marks.
\<close>

theorem experiment_cfg_walk_find:
  assumes "jn_wf config" and "cfg_plain config" and "experiment_cfg_walk config noting None [] = Some (child, visited)"
  shows "child = None \<and> (\<exists>paths. distinct paths \<and> set paths = {p. p \<noteq> [] \<and> node_at p config \<noteq> None} \<and>
    list_all2 (\<lambda>p (name, node). node_at p config = Some node \<and>
      (\<exists>config1. experiment_cfg_find config name JSON_ANY e = Some (Some p, butlast p, config1, e) \<and> jn_fresh config1 = jn_fresh config))
      paths visited)"
proof -
  let ?paths = "node_paths 0 (jn_child_head config)"
  have v: "child = None \<and> visited = map (\<lambda>q. (path_name config q, the (node_at q config))) ?paths"
    using assms(3) cfg_walk_children_notes [of config "[]" "[]" 0 "jn_child_head config" None "[]"] jn_wf_children(2) [OF assms(1)]
    by (auto simp: experiment_cfg_walk_def)
  have "node_at p config = Some (the (node_at p config)) \<and> (\<exists>config1. experiment_cfg_find config (path_name config p) JSON_ANY e =
      Some (Some p, butlast p, config1, e) \<and> jn_fresh config1 = jn_fresh config)" if "p \<in> set ?paths" for p
    using that cfg_find_loop_name [of "[]" config config p e] assms(1,2) by (simp add: node_paths_children experiment_cfg_find_def)
  then have "list_all2 (\<lambda>p (name, node). node_at p config = Some node \<and>
      (\<exists>config1. experiment_cfg_find config name JSON_ANY e = Some (Some p, butlast p, config1, e) \<and> jn_fresh config1 = jn_fresh config))
      ?paths visited"
    using v by (simp add: list_all2_conv_all_nth)
  with v node_paths_distinct node_paths_children show ?thesis by blast
qed

lemma demo_config_plain: "cfg_plain demo_config"
  by (simp add: demo_config_def demo_obj_def demo_str_def demo_int_def PATHPARTMAXLEN_def)

theorem experiment_cfg_walk_find_witness:
  "\<exists>visited. experiment_cfg_walk demo_config noting None [] = Some (None, visited) \<and> length visited = 18 \<and>
     fst (visited ! 3) = ''workloads:w:threadpool'' \<and> node_at [0, 0, 1] demo_config = Some (snd (visited ! 3)) \<and>
     (\<exists>config1. experiment_cfg_find demo_config ''workloads:w:threadpool'' JSON_ANY JSON_OK = Some (Some [0, 0, 1], [0, 0], config1, JSON_OK))"
proof -
  let ?walk = "experiment_cfg_walk demo_config noting None []"
  have "map_option (\<lambda>(c, v). (length v, fst (v ! 3), snd (v ! 3))) ?walk = Some (18, ''workloads:w:threadpool'', demo_str ''threadpool'' ''p'')"
    by code_simp
  then obtain child visited where w: "?walk = Some (child, visited)" and v: "length visited = 18"
    "fst (visited ! 3) = ''workloads:w:threadpool''" "snd (visited ! 3) = demo_str ''threadpool'' ''p''" by auto
  from experiment_cfg_walk_find [OF demo_config_wf demo_config_plain w, of JSON_OK] obtain paths where c: "child = None"
    and all: "list_all2 (\<lambda>p (name, node). node_at p demo_config = Some node \<and> (\<exists>config1. experiment_cfg_find demo_config name JSON_ANY JSON_OK =
      Some (Some p, butlast p, config1, JSON_OK) \<and> jn_fresh config1 = jn_fresh demo_config)) paths visited" by blast
  from list_all2_nthD2 [OF all, of 3] v obtain config1 where
      f: "experiment_cfg_find demo_config ''workloads:w:threadpool'' JSON_ANY JSON_OK = Some (Some (paths ! 3), butlast (paths ! 3), config1, JSON_OK)"
      "node_at (paths ! 3) demo_config = Some (snd (visited ! 3))"
    by (auto simp: split_beta)
  moreover have "map_option fst (experiment_cfg_find demo_config ''workloads:w:threadpool'' JSON_ANY JSON_OK) = Some (Some [0, 0, 1])"
    by code_simp
  ultimately have "paths ! 3 = [0, 0, 1]" by simp
  with f w c v show ?thesis by auto
qed

end
