(* ===== verification/TsList.thy ===== *)
theory TsList
  imports TsPrelude
begin

text \<open>
  The doubly linked lists of \<open>include/tsload/list.h\<close>: an explicit store of the members \<open>next\<close> and \<open>prev\<close>, the
  operations as sequences of assignments to it, and the refinement of sequences: a list head with its nodes is a ring in
  the store. Addresses are a type parameter; the address of a list head is that of its node \<open>l_head\<close>.
\<close>

section \<open>The store\<close>

record 'a list_mem =
  l_next :: "'a \<Rightarrow> 'a"
  l_prev :: "'a \<Rightarrow> 'a"
  l_name :: "'a \<Rightarrow> string"

definition set_next :: "'a \<Rightarrow> 'a \<Rightarrow> 'a list_mem \<Rightarrow> 'a list_mem" where
  "set_next a b s = s\<lparr>l_next := (l_next s)(a := b)\<rparr>"

definition set_prev :: "'a \<Rightarrow> 'a \<Rightarrow> 'a list_mem \<Rightarrow> 'a list_mem" where
  "set_prev a b s = s\<lparr>l_prev := (l_prev s)(a := b)\<rparr>"

definition LISTNAMELEN :: nat where "LISTNAMELEN = 24"

section \<open>Operations\<close>

definition list_node_init :: "'a \<Rightarrow> 'a list_mem \<Rightarrow> 'a list_mem" where
  "list_node_init node s = set_prev node node (set_next node node s)"

text \<open>The formatted name, if there is a format.\<close>

definition list_head_init :: "'a \<Rightarrow> string option \<Rightarrow> 'a list_mem \<Rightarrow> 'a list_mem" where
  "list_head_init head name s =
     (let s1 = list_node_init head s
      in case name of None \<Rightarrow> s1 | Some t \<Rightarrow> s1\<lparr>l_name := (l_name s1)(head := take (LISTNAMELEN - 1) t)\<rparr>)"

definition list_head_reset :: "'a \<Rightarrow> 'a list_mem \<Rightarrow> 'a list_mem" where
  "list_head_reset head s = list_node_init head s"

definition list_insert_between :: "'a \<Rightarrow> 'a \<Rightarrow> 'a \<Rightarrow> 'a list_mem \<Rightarrow> 'a list_mem" where
  "list_insert_between node p n s = set_next p node (set_prev node p (set_next node n (set_prev n node s)))"

definition list_add :: "'a \<Rightarrow> 'a \<Rightarrow> 'a list_mem \<Rightarrow> 'a list_mem" where
  "list_add node head s = list_insert_between node head (l_next s head) s"

definition list_add_tail :: "'a \<Rightarrow> 'a \<Rightarrow> 'a list_mem \<Rightarrow> 'a list_mem" where
  "list_add_tail node head s = list_insert_between node (l_prev s head) head s"

definition list_insert_front :: "'a \<Rightarrow> 'a \<Rightarrow> 'a list_mem \<Rightarrow> 'a list_mem" where
  "list_insert_front node iter s = list_insert_between node iter (l_next s iter) s"

definition list_insert_back :: "'a \<Rightarrow> 'a \<Rightarrow> 'a list_mem \<Rightarrow> 'a list_mem" where
  "list_insert_back node iter s = list_insert_between node (l_prev s iter) iter s"

definition list_del_between :: "'a \<Rightarrow> 'a \<Rightarrow> 'a list_mem \<Rightarrow> 'a list_mem" where
  "list_del_between p n s = set_next p n (set_prev n p s)"

definition list_del_entry :: "'a \<Rightarrow> 'a list_mem \<Rightarrow> 'a list_mem" where
  "list_del_entry entry s = list_del_between (l_prev s entry) (l_next s entry) s"

definition list_del :: "'a \<Rightarrow> 'a list_mem \<Rightarrow> 'a list_mem" where
  "list_del entry s = set_prev entry entry (set_next entry entry (list_del_between (l_prev s entry) (l_next s entry) s))"

definition list_replace :: "'a \<Rightarrow> 'a \<Rightarrow> 'a list_mem \<Rightarrow> 'a list_mem" where
  "list_replace old node s =
     (let s1 = set_next node (l_next s old) s; s2 = set_prev (l_next s1 node) node s1; s3 = set_prev node (l_prev s2 old) s2
      in set_next (l_prev s3 node) node s3)"

definition list_replace_init :: "'a \<Rightarrow> 'a \<Rightarrow> 'a list_mem \<Rightarrow> 'a list_mem" where
  "list_replace_init old node s = list_node_init old (list_replace old node s)"

definition list_del_init :: "'a \<Rightarrow> 'a list_mem \<Rightarrow> 'a list_mem" where
  "list_del_init entry s = list_node_init entry (list_del_entry entry s)"

definition list_move :: "'a \<Rightarrow> 'a \<Rightarrow> 'a list_mem \<Rightarrow> 'a list_mem" where
  "list_move node head s = list_add node head (list_del_entry node s)"

definition list_move_tail :: "'a \<Rightarrow> 'a \<Rightarrow> 'a list_mem \<Rightarrow> 'a list_mem" where
  "list_move_tail node head s = list_add_tail node head (list_del_entry node s)"

definition list_is_last :: "'a \<Rightarrow> 'a \<Rightarrow> 'a list_mem \<Rightarrow> bool" where
  "list_is_last node head s \<longleftrightarrow> l_next s node = head"

definition list_is_first :: "'a \<Rightarrow> 'a \<Rightarrow> 'a list_mem \<Rightarrow> bool" where
  "list_is_first node head s \<longleftrightarrow> l_prev s node = head"

definition list_is_head :: "'a \<Rightarrow> 'a \<Rightarrow> bool" where
  "list_is_head node head \<longleftrightarrow> node = head"

definition list_empty :: "'a \<Rightarrow> 'a list_mem \<Rightarrow> bool" where
  "list_empty head s \<longleftrightarrow> l_next s head = head"

definition list_empty_careful :: "'a \<Rightarrow> 'a list_mem \<Rightarrow> bool" where
  "list_empty_careful head s \<longleftrightarrow> (let n = l_next s head in n = head \<and> n = l_prev s head)"

definition list_node_alone :: "'a \<Rightarrow> 'a list_mem \<Rightarrow> bool" where
  "list_node_alone node s \<longleftrightarrow> l_next s node = node \<and> l_prev s node = node"

definition list_rotate_left :: "'a \<Rightarrow> 'a list_mem \<Rightarrow> 'a list_mem" where
  "list_rotate_left head s = (if \<not> list_empty head s then list_move_tail (l_next s head) head s else s)"

definition list_is_singular :: "'a \<Rightarrow> 'a list_mem \<Rightarrow> bool" where
  "list_is_singular head s \<longleftrightarrow> \<not> list_empty head s \<and> l_next s head = l_prev s head"

definition list_cut_at :: "'a \<Rightarrow> 'a \<Rightarrow> 'a \<Rightarrow> 'a list_mem \<Rightarrow> 'a list_mem" where
  "list_cut_at list head entry s0 =
     (let new_first = l_next s0 entry;
          s1 = list_head_init list (Some (l_name s0 head @ ''#'')) s0;
          s2 = set_next list (l_next s1 head) s1;
          s3 = set_prev (l_next s2 list) list s2;
          s4 = set_prev list entry s3;
          s5 = set_next entry list s4;
          s6 = set_next head new_first s5
      in set_prev new_first head s6)"

definition list_cut_position :: "'a \<Rightarrow> 'a \<Rightarrow> 'a \<Rightarrow> 'a list_mem \<Rightarrow> 'a list_mem" where
  "list_cut_position list head entry s =
     (if list_empty head s then s
      else if list_is_singular head s \<and> l_next s head \<noteq> entry \<and> head \<noteq> entry then s
      else if entry = head then list_head_reset list s
      else list_cut_at list head entry s)"

definition list_splice_between :: "'a \<Rightarrow> 'a \<Rightarrow> 'a \<Rightarrow> 'a list_mem \<Rightarrow> 'a list_mem" where
  "list_splice_between list p n s =
     (let first = l_next s list; last = l_prev s list
      in set_prev n last (set_next last n (set_next p first (set_prev first p s))))"

definition list_splice :: "'a \<Rightarrow> 'a \<Rightarrow> 'a list_mem \<Rightarrow> 'a list_mem" where
  "list_splice list node s = (if \<not> list_empty list s then list_splice_between list node (l_next s node) s else s)"

definition list_splice_tail :: "'a \<Rightarrow> 'a \<Rightarrow> 'a list_mem \<Rightarrow> 'a list_mem" where
  "list_splice_tail list node s = (if \<not> list_empty list s then list_splice_between list (l_prev s node) node s else s)"

definition list_splice_init :: "'a \<Rightarrow> 'a \<Rightarrow> 'a list_mem \<Rightarrow> 'a list_mem" where
  "list_splice_init list node s =
     (if \<not> list_empty list s then list_head_reset list (list_splice_between list node (l_next s node) s) else s)"

definition list_splice_tail_init :: "'a \<Rightarrow> 'a \<Rightarrow> 'a list_mem \<Rightarrow> 'a list_mem" where
  "list_splice_tail_init list node s =
     (if \<not> list_empty list s then list_head_init list None (list_splice_between list (l_prev s node) node s) else s)"

definition list_merge_impl :: "'a \<Rightarrow> 'a \<Rightarrow> 'a \<Rightarrow> 'a list_mem \<Rightarrow> 'a list_mem" where
  "list_merge_impl root list1 list2 s =
     (let first = l_next s list1; m1 = l_prev s list1; m2 = l_next s list2; last = l_prev s list2
      in set_prev m2 m1 (set_next m1 m2 (set_next last root (set_prev root last (set_next root first (set_prev first root s))))))"

definition list_merge :: "'a \<Rightarrow> 'a \<Rightarrow> 'a \<Rightarrow> 'a list_mem \<Rightarrow> 'a list_mem" where
  "list_merge head list1 list2 s =
     (if list_empty list1 s then list_splice_init list2 head s
      else if list_empty list2 s then list_splice_init list1 head s
      else list_head_reset list2 (list_head_reset list1 (list_merge_impl head list1 list2 s)))"

section \<open>Iteration\<close>

text \<open>
  \<open>list_for_each\<close>, \<open>list_for_each_entry\<close> and their reverse variants: the body gets the position, a context and the
  store. The \<open>safe\<close> variants read the next position before the body runs; a loop that does not end is \<open>None\<close>.
\<close>

partial_function (option) for_each_from ::
    "('a list_mem \<Rightarrow> 'a \<Rightarrow> 'a) \<Rightarrow> ('a \<Rightarrow> 'c \<Rightarrow> 'a list_mem \<Rightarrow> 'c \<times> 'a list_mem) \<Rightarrow> 'a \<Rightarrow> 'a \<Rightarrow> 'c \<Rightarrow> 'a list_mem \<Rightarrow> ('c \<times> 'a list_mem) option" where
  "for_each_from dir body head pos ctx s =
     (if pos = head then Some (ctx, s)
      else let (ctx1, s1) = body pos ctx s in for_each_from dir body head (dir s1 pos) ctx1 s1)"

definition list_for_each :: "('a \<Rightarrow> 'c \<Rightarrow> 'a list_mem \<Rightarrow> 'c \<times> 'a list_mem) \<Rightarrow> 'a \<Rightarrow> 'c \<Rightarrow> 'a list_mem \<Rightarrow> ('c \<times> 'a list_mem) option" where
  "list_for_each body head ctx s = for_each_from l_next body head (l_next s head) ctx s"

definition list_for_each_prev :: "('a \<Rightarrow> 'c \<Rightarrow> 'a list_mem \<Rightarrow> 'c \<times> 'a list_mem) \<Rightarrow> 'a \<Rightarrow> 'c \<Rightarrow> 'a list_mem \<Rightarrow> ('c \<times> 'a list_mem) option" where
  "list_for_each_prev body head ctx s = for_each_from l_prev body head (l_prev s head) ctx s"

definition list_for_each_continue ::
    "('a \<Rightarrow> 'c \<Rightarrow> 'a list_mem \<Rightarrow> 'c \<times> 'a list_mem) \<Rightarrow> 'a \<Rightarrow> 'a \<Rightarrow> 'c \<Rightarrow> 'a list_mem \<Rightarrow> ('c \<times> 'a list_mem) option" where
  "list_for_each_continue body head pos ctx s = for_each_from l_next body head (l_next s pos) ctx s"

partial_function (option) for_each_safe_from ::
    "('a list_mem \<Rightarrow> 'a \<Rightarrow> 'a) \<Rightarrow> ('a \<Rightarrow> 'c \<Rightarrow> 'a list_mem \<Rightarrow> 'c \<times> 'a list_mem) \<Rightarrow> 'a \<Rightarrow> 'a \<Rightarrow> 'a \<Rightarrow> 'c \<Rightarrow> 'a list_mem \<Rightarrow>
     ('c \<times> 'a list_mem) option" where
  "for_each_safe_from dir body head pos n ctx s =
     (if pos = head then Some (ctx, s)
      else let (ctx1, s1) = body pos ctx s in for_each_safe_from dir body head n (dir s1 n) ctx1 s1)"

definition list_for_each_entry_safe ::
    "('a \<Rightarrow> 'c \<Rightarrow> 'a list_mem \<Rightarrow> 'c \<times> 'a list_mem) \<Rightarrow> 'a \<Rightarrow> 'c \<Rightarrow> 'a list_mem \<Rightarrow> ('c \<times> 'a list_mem) option" where
  "list_for_each_entry_safe body head ctx s =
     (let pos = l_next s head in for_each_safe_from l_next body head pos (l_next s pos) ctx s)"

section \<open>Rings\<close>

text \<open>Neighbours of a sequence of addresses point to each other.\<close>

fun linked :: "'a list_mem \<Rightarrow> 'a list \<Rightarrow> bool" where
  "linked s (a # b # xs) \<longleftrightarrow> l_next s a = b \<and> l_prev s b = a \<and> linked s (b # xs)"
| "linked s _ \<longleftrightarrow> True"

definition ring :: "'a list_mem \<Rightarrow> 'a \<Rightarrow> 'a list \<Rightarrow> bool" where
  "ring s h xs \<longleftrightarrow> linked s (h # xs @ [h]) \<and> distinct (h # xs)"

lemma set_next_prev_simps [simp]:
  "l_next (set_next a b s) = (l_next s)(a := b)" "l_prev (set_next a b s) = l_prev s"
  "l_prev (set_prev a b s) = (l_prev s)(a := b)" "l_next (set_prev a b s) = l_next s"
  "l_name (set_next a b s) = l_name s" "l_name (set_prev a b s) = l_name s"
  by (simp_all add: set_next_def set_prev_def)

lemma in_set_tlD: "a \<in> set (tl ys) \<Longrightarrow> a \<in> set ys"
  by (cases ys) auto

lemma linked_append: "linked s (xs @ a # ys) \<longleftrightarrow> linked s (xs @ [a]) \<and> linked s (a # ys)"
proof (induction xs)
  case (Cons x xs)
  then show ?case by (cases xs) auto
qed simp

lemma linked_cong:
  "(\<And>a. a \<in> set (butlast ys) \<Longrightarrow> l_next t a = l_next s a) \<Longrightarrow> (\<And>a. a \<in> set (tl ys) \<Longrightarrow> l_prev t a = l_prev s a) \<Longrightarrow>
   linked t ys = linked s ys"
proof (induction s ys rule: linked.induct)
  case (1 s a b xs)
  then have "linked t (b # xs) = linked s (b # xs)" by (cases xs) auto
  with "1.prems" show ?case by auto
qed auto

lemma linked_set_next [simp]: "a \<notin> set (butlast ys) \<Longrightarrow> linked (set_next a b s) ys = linked s ys"
  by (rule linked_cong) auto

lemma linked_set_prev [simp]: "a \<notin> set (tl ys) \<Longrightarrow> linked (set_prev a b s) ys = linked s ys"
  by (rule linked_cong) auto

text \<open>Insertion, removal and splicing between neighbours. The sources of \<open>next\<close> are all but the last address,
  the sources of \<open>prev\<close> all but the first.\<close>

definition ends_distinct :: "'a list \<Rightarrow> bool" where
  "ends_distinct ys \<longleftrightarrow> distinct (butlast ys) \<and> distinct (tl ys)"

lemma ends_distinct_split:
  "ends_distinct (us @ p # n # vs) \<longleftrightarrow>
     distinct (us @ p # butlast (n # vs)) \<and> distinct (tl (us @ [p]) @ n # vs)"
  by (cases us) (auto simp: ends_distinct_def butlast_append)

lemma linked_between:
  assumes "linked s (us @ p # n # vs)" and "ends_distinct (us @ p # n # vs)"
    and "linked s (n # vs) \<Longrightarrow> linked s (us @ [p]) \<Longrightarrow> linked t (us @ [p]) \<and> linked t (n # vs) \<and> linked t (p # ms @ [n])"
  shows "linked t (us @ p # ms @ n # vs)"
proof -
  from assms(1) have "linked s (us @ [p])" "linked s (n # vs)" using linked_append [of s us p "n # vs"] by auto
  with assms(3) have t: "linked t (us @ [p])" "linked t (n # vs)" "linked t (p # ms @ [n])" by auto
  have "linked t ((p # ms) @ n # vs)" using t(2,3) linked_append [of t "p # ms" n vs] by simp
  then show ?thesis using t(1) linked_append [of t us p "ms @ n # vs"] by simp
qed

lemma list_insert_between_linked:
  assumes "linked s (us @ p # n # vs)" and "ends_distinct (us @ p # n # vs)" and "node \<notin> set (us @ p # n # vs)"
  shows "linked (list_insert_between node p n s) (us @ p # node # n # vs)"
proof -
  have "linked (list_insert_between node p n s) (us @ p # [node] @ n # vs)"
    using assms(1,2)
  proof (rule linked_between)
    assume l: "linked s (n # vs)" "linked s (us @ [p])"
    have "p \<notin> set us" "p \<notin> set (butlast (n # vs))" "n \<notin> set vs" "n \<notin> set (tl (us @ [p]))"
      using assms(2) by (auto simp: ends_distinct_split)
    moreover have "node \<notin> set us" "node \<notin> set (butlast (n # vs))" "node \<notin> set vs" "node \<notin> set (tl (us @ [p]))" "node \<noteq> p" "node \<noteq> n"
      using assms(3) by (auto dest: in_set_butlastD in_set_tlD)
    ultimately show "linked (list_insert_between node p n s) (us @ [p]) \<and> linked (list_insert_between node p n s) (n # vs) \<and>
        linked (list_insert_between node p n s) (p # [node] @ [n])"
      using l by (simp add: list_insert_between_def)
  qed
  then show ?thesis by simp
qed

lemma list_del_between_linked:
  assumes "linked s (us @ p # node # n # vs)" and "ends_distinct (us @ p # node # n # vs)"
  shows "linked (list_del_between p n s) (us @ p # n # vs)"
proof -
  have d: "p \<notin> set us" "p \<notin> set (butlast (n # vs))" "n \<notin> set vs" "n \<notin> set (tl (us @ [p]))"
    using assms(2) by (auto simp: ends_distinct_split)
  have "linked s (us @ [p])" "linked s (n # vs)" using assms(1) linked_append [of s us p "node # n # vs"] by auto
  with d have "linked (list_del_between p n s) (us @ [p])" "linked (list_del_between p n s) (p # n # vs)"
    by (simp_all add: list_del_between_def)
  then show ?thesis using linked_append [of _ us p "n # vs"] by blast
qed

lemma linked_Cons: "ys \<noteq> [] \<Longrightarrow> linked s (a # ys) \<longleftrightarrow> l_next s a = hd ys \<and> l_prev s (hd ys) = a \<and> linked s ys"
  by (cases ys) auto

lemma linked_snoc: "ys \<noteq> [] \<Longrightarrow> linked s (ys @ [b]) \<longleftrightarrow> linked s ys \<and> l_next s (last ys) = b \<and> l_prev s b = last ys"
  by (induction ys rule: induct_list012) auto

lemma list_splice_between_linked:
  assumes "linked s (us @ p # n # vs)" and "ends_distinct (us @ p # n # vs)"
    and "linked s (l # ys @ [l])" and "distinct ys" and "ys \<noteq> []" and "set ys \<inter> set (us @ p # n # vs) = {}"
  shows "linked (list_splice_between l p n s) (us @ p # ys @ n # vs)"
  using assms(1,2)
proof (rule linked_between)
  let ?t = "list_splice_between l p n s"
  assume l: "linked s (n # vs)" "linked s (us @ [p])"
  have fl: "l_next s l = hd ys" "l_prev s l = last ys" and y: "linked s ys"
    using assms(3,5) linked_snoc [of "l # ys" s l] by (auto simp: linked_Cons)
  have t: "?t = set_prev n (last ys) (set_next (last ys) n (set_next p (hd ys) (set_prev (hd ys) p s)))"
    by (simp add: list_splice_between_def fl Let_def)
  have in_ys: "hd ys \<in> set ys" "last ys \<in> set ys" using assms(5) by auto
  then have ne: "hd ys \<notin> set (us @ p # n # vs)" "last ys \<notin> set (us @ p # n # vs)" using assms(6) by blast+
  have "p \<notin> set us" "p \<notin> set (butlast (n # vs))" "n \<notin> set vs" "n \<notin> set (tl (us @ [p]))"
    using assms(2) by (auto simp: ends_distinct_split)
  moreover have "hd ys \<notin> set (tl (us @ [p]))" "last ys \<notin> set (butlast (n # vs))"
    using ne by (auto dest: in_set_butlastD in_set_tlD)
  ultimately have ends: "linked ?t (us @ [p])" "linked ?t (n # vs)" using l ne by (auto simp: t)
  have "hd ys \<notin> set (tl ys)" "last ys \<notin> set (butlast ys)"
    using assms(4,5) by (metis distinct.simps(2) list.collapse, metis append_butlast_last_id distinct_butlast not_distinct_conv_prefix)
  moreover have "p \<notin> set ys" "n \<notin> set ys" using assms(6) by auto
  moreover have "p \<notin> set (butlast ys)" "n \<notin> set (tl ys)" using calculation assms(5) by (meson in_set_butlastD, meson list.set_sel(2))
  ultimately have "linked ?t ys" using y by (simp add: t)
  then have "linked ?t (p # ys @ [n])"
    using ne assms(5) \<open>n \<notin> set ys\<close> in_ys by (auto simp: linked_Cons linked_snoc t)
  with ends show "linked ?t (us @ [p]) \<and> linked ?t (n # vs) \<and> linked ?t (p # ys @ [n])" by blast
qed

text \<open>Nodes are put after or before one of a sequence.\<close>

fun put_after :: "'a \<Rightarrow> 'a list \<Rightarrow> 'a list \<Rightarrow> 'a list" where
  "put_after a ys [] = []"
| "put_after a ys (x # xs) = (if x = a then x # ys @ xs else x # put_after a ys xs)"

fun put_before :: "'a \<Rightarrow> 'a list \<Rightarrow> 'a list \<Rightarrow> 'a list" where
  "put_before a ys [] = []"
| "put_before a ys (x # xs) = (if x = a then ys @ x # xs else x # put_before a ys xs)"

lemma put_after_split: "a \<notin> set us \<Longrightarrow> put_after a ys (us @ a # vs) = us @ a # ys @ vs"
  by (induction us) auto

lemma put_before_split: "a \<notin> set us \<Longrightarrow> put_before a ys (us @ a # vs) = us @ ys @ a # vs"
  by (induction us) auto

lemma put_after_absent [simp]: "a \<notin> set xs \<Longrightarrow> put_after a ys xs = xs"
  by (induction xs) auto

lemma put_before_absent [simp]: "a \<notin> set xs \<Longrightarrow> put_before a ys xs = xs"
  by (induction xs) auto

lemma ring_ends: "ring s h xs \<Longrightarrow> ends_distinct (h # xs @ [h])"
  by (auto simp: ring_def ends_distinct_def butlast_append)

lemma ring_put_after:
  assumes "ring s h xs" and "a \<in> set (h # xs)" and "distinct ys" and "set ys \<inter> set (h # xs) = {}"
    and step: "\<And>us n vs. linked s (us @ a # n # vs) \<Longrightarrow> ends_distinct (us @ a # n # vs) \<Longrightarrow> n = l_next s a \<Longrightarrow>
      set ys \<inter> set (us @ a # n # vs) = {} \<Longrightarrow> linked t (us @ a # ys @ n # vs)"
  shows "ring t h (tl (put_after a ys (h # xs)))" and "set (h # tl (put_after a ys (h # xs))) = set (h # xs) \<union> set ys"
proof -
  from assms(2) obtain us vs where d: "h # xs = us @ a # vs" by (meson split_list)
  obtain n ws where n: "vs @ [h] = n # ws" by (cases "vs @ [h]") auto
  have r: "h # xs @ [h] = us @ a # n # ws" using d n by (metis append_Cons append_assoc)
  have a: "a \<notin> set us" using assms(1) d unfolding ring_def by (metis distinct_append disjoint_iff list.set_intros(1))
  have "linked s (us @ a # n # ws)" using assms(1) r by (simp add: ring_def)
  moreover have "linked s (a # n # ws)" using calculation linked_append by fast
  then have "n = l_next s a" by simp
  moreover have "ends_distinct (us @ a # n # ws)" using ring_ends [OF assms(1)] r by simp
  moreover have "set ys \<inter> set (us @ a # n # ws) = {}" using assms(4) r by (metis append.right_neutral list.set(1) set_append append_Cons rotate1.simps(2) set_rotate1 sup.idem insert_absorb2 list.simps(15) Un_insert_right)
  ultimately have l: "linked t (us @ a # ys @ vs @ [h])" using step n by metis
  obtain zs where z: "us @ a # ys @ vs = h # zs" using d by (cases us) auto
  then have p: "put_after a ys (h # xs) = h # zs" unfolding d by (simp add: put_after_split [OF a])
  have "distinct (h # zs)" using assms(1,3,4) unfolding z [symmetric] ring_def d by auto
  moreover have "linked t (h # zs @ [h])" using l z by (metis append_Cons append_assoc)
  ultimately show "ring t h (tl (put_after a ys (h # xs)))" unfolding p ring_def by simp
  have "set (h # zs) = set (h # xs) \<union> set ys" unfolding z [symmetric] d by auto
  then show "set (h # tl (put_after a ys (h # xs))) = set (h # xs) \<union> set ys" by (simp only: p list.sel)
qed

lemma ring_put_before:
  assumes "ring s h xs" and "a \<in> set (h # xs)" and "distinct ys" and "set ys \<inter> set (h # xs) = {}"
    and step: "\<And>us p vs. linked s (us @ p # a # vs) \<Longrightarrow> ends_distinct (us @ p # a # vs) \<Longrightarrow> p = l_prev s a \<Longrightarrow>
      set ys \<inter> set (us @ p # a # vs) = {} \<Longrightarrow> linked t (us @ p # ys @ a # vs)"
  shows "ring t h (butlast (put_before a ys (xs @ [h])))" and "set (h # butlast (put_before a ys (xs @ [h]))) = set (h # xs) \<union> set ys"
proof -
  from assms(2) obtain us vs where d: "xs @ [h] = us @ a # vs" by (metis list.simps(15) rotate1.simps(2) set_rotate1 split_list)
  obtain ws p where p: "h # us = ws @ [p]" by (cases "h # us" rule: rev_cases) auto
  have r: "h # xs @ [h] = ws @ p # a # vs" using d p by (metis append_Cons append_assoc append_Nil)
  have "distinct (xs @ [h])" using assms(1) by (auto simp: ring_def)
  then have a: "a \<notin> set us" unfolding d by auto
  have l: "linked s (ws @ p # a # vs)" using assms(1) r by (simp add: ring_def)
  then have "p = l_prev s a" using linked_append [of s ws p "a # vs"] by simp
  moreover have "ends_distinct (ws @ p # a # vs)" using ring_ends [OF assms(1)] r by simp
  moreover have "set ys \<inter> set (ws @ p # a # vs) = {}" using assms(4) unfolding r [symmetric] by auto
  ultimately have t: "linked t (ws @ p # ys @ a # vs)" using step l by blast
  obtain zs where z: "us @ ys @ a # vs = zs @ [h]" using d by (cases vs rule: rev_cases) auto
  then have b: "butlast (put_before a ys (xs @ [h])) = zs" unfolding d by (simp add: put_before_split [OF a])
  have "linked t (h # zs @ [h])" using t p z by (metis append_Cons append_assoc append_Nil)
  moreover have "set ys \<inter> set (us @ a # vs) = {}" using assms(4) unfolding d [symmetric] by auto
  then have dz: "distinct (zs @ [h]) \<and> set (zs @ [h]) = set (xs @ [h]) \<union> set ys"
    using assms(3) \<open>distinct (xs @ [h])\<close> unfolding z [symmetric] d by auto
  ultimately show "ring t h (butlast (put_before a ys (xs @ [h])))" unfolding b ring_def by auto
  show "set (h # butlast (put_before a ys (xs @ [h]))) = set (h # xs) \<union> set ys" using dz unfolding b by auto
qed

text \<open>The neighbours of a node of a ring.\<close>

lemma ring_neighbours:
  assumes "ring s h (us @ a # vs)"
  obtains ws p n zs where "h # us = ws @ [p]" "vs @ [h] = n # zs" "l_prev s a = p" "l_next s a = n"
    "linked s (ws @ p # a # n # zs)" "ends_distinct (ws @ p # a # n # zs)"
proof -
  obtain ws p where p: "h # us = ws @ [p]" by (cases "h # us" rule: rev_cases) auto
  obtain n zs where n: "vs @ [h] = n # zs" by (cases "vs @ [h]") auto
  have r: "h # (us @ a # vs) @ [h] = ws @ p # a # n # zs" using p n by (metis append.assoc append_Cons append_Nil)
  have l: "linked s (ws @ p # a # n # zs)" using assms r by (simp add: ring_def)
  then have "linked s (p # a # n # zs)" using linked_append [of s ws p "a # n # zs"] by simp
  moreover have "ends_distinct (ws @ p # a # n # zs)" using ring_ends [OF assms] r by simp
  ultimately show ?thesis using that p n l by auto
qed

lemma ring_del:
  assumes "ring s h (us @ a # vs)"
  shows "ring (list_del_entry a s) h (us @ vs)"
proof -
  from ring_neighbours [OF assms] obtain ws p n zs where r: "h # us = ws @ [p]" "vs @ [h] = n # zs"
    "l_prev s a = p" "l_next s a = n" "linked s (ws @ p # a # n # zs)" "ends_distinct (ws @ p # a # n # zs)" .
  have "linked (list_del_entry a s) (ws @ p # n # zs)"
    unfolding list_del_entry_def r(3,4) by (rule list_del_between_linked [OF r(5,6)])
  moreover have "ws @ p # n # zs = h # (us @ vs) @ [h]" using r(1,2) by (metis append.assoc append_Cons append_Nil)
  ultimately show ?thesis using assms by (auto simp: ring_def)
qed

lemma ring_replace:
  assumes "ring s h (us @ a # vs)" and "node \<notin> set (h # us @ a # vs)"
  shows "ring (list_replace a node s) h (us @ node # vs)"
proof -
  from ring_neighbours [OF assms(1)] obtain ws p n zs where r: "h # us = ws @ [p]" "vs @ [h] = n # zs"
    "l_prev s a = p" "l_next s a = n" "linked s (ws @ p # a # n # zs)" "ends_distinct (ws @ p # a # n # zs)" .
  have e: "ws @ p # a # n # zs = h # (us @ a # vs) @ [h]" using r(1,2) by (metis append.assoc append_Cons append_Nil)
  have ne: "n \<noteq> a" "node \<noteq> p" "node \<noteq> n" "node \<noteq> a"
    using r(6) assms(2) arg_cong [OF e, of set] by (auto simp: ends_distinct_split)
  have "list_replace a node s = list_insert_between node p n (list_del_between p n s)"
    using ne by (simp add: list_replace_def list_insert_between_def list_del_between_def set_next_def set_prev_def r(3,4) Let_def fun_upd_twist)
  moreover have "linked (list_insert_between node p n (list_del_between p n s)) (ws @ p # node # n # zs)"
  proof (rule list_insert_between_linked)
    show "linked (list_del_between p n s) (ws @ p # n # zs)" by (rule list_del_between_linked [OF r(5,6)])
    have "distinct (h # us @ vs)" using assms(1) by (auto simp: ring_def)
    moreover have "ws @ p # n # zs = h # (us @ vs) @ [h]" using r(1,2) by (metis append.assoc append_Cons append_Nil)
    ultimately show "ends_distinct (ws @ p # n # zs)" by (auto simp: ends_distinct_def butlast_append)
    show "node \<notin> set (ws @ p # n # zs)" using assms(2) arg_cong [OF e, of set] by auto
  qed
  moreover have "ws @ p # node # n # zs = h # (us @ node # vs) @ [h]" using r(1,2) by (metis append.assoc append_Cons append_Nil)
  ultimately show ?thesis using assms by (auto simp: ring_def)
qed

lemma list_head_init_simps [simp]:
  "l_next (list_head_init h name s) = (l_next s)(h := h)" "l_prev (list_head_init h name s) = (l_prev s)(h := h)"
  "l_next (list_node_init h s) = (l_next s)(h := h)" "l_prev (list_node_init h s) = (l_prev s)(h := h)"
  "list_head_reset h s = list_node_init h s"
  by (simp_all add: list_head_init_def list_node_init_def list_head_reset_def Let_def split: option.split)

lemma linked_init [simp]: "h \<notin> set ys \<Longrightarrow> linked (list_head_init h name s) ys = linked s ys"
  "h \<notin> set ys \<Longrightarrow> linked (list_node_init h s) ys = linked s ys"
  by (rule linked_cong; auto dest: in_set_butlastD in_set_tlD)+

lemma ring_ptrs:
  assumes "ring s h xs"
  shows "l_next s h = hd (xs @ [h])" and "l_prev s h = last (h # xs)" and "xs \<noteq> [] \<Longrightarrow> linked s xs"
  using assms linked_Cons [of "xs @ [h]" s h] linked_snoc [of "h # xs" s h] linked_snoc [of xs s h]
  by (simp_all add: ring_def)

lemma ring_empty: "ring s h xs \<Longrightarrow> list_empty h s \<longleftrightarrow> xs = []"
  using ring_ptrs(1) [of s h xs] by (cases xs) (auto simp: list_empty_def ring_def)

lemma distinct_ends: "distinct ys \<Longrightarrow> ys \<noteq> [] \<Longrightarrow> hd ys \<notin> set (tl ys) \<and> last ys \<notin> set (butlast ys)"
  by (metis append_butlast_last_id disjoint_insert(1) distinct.simps(2) distinct_append list.collapse list.set(2))

lemma list_cut_at_ring:
  assumes r: "ring s h (zs @ ys)" and zs: "zs \<noteq> []" and l: "l \<notin> set (h # zs @ ys)"
  defines "t \<equiv> list_cut_at l h (last zs) s"
  shows "ring t l zs" and "ring t h ys"
proof -
  have ys: "ys @ [h] \<noteq> []" by simp
  have e: "(h # zs) @ ys @ [h] = (h # butlast zs) @ last zs # ys @ [h]"
    using zs by (metis append.assoc append_Cons append_Nil append_butlast_last_id)
  have "linked s ((h # zs) @ ys @ [h])" using r by (simp add: ring_def)
  then have "linked s ((h # butlast zs) @ last zs # ys @ [h])" by (simp only: e)
  then have lz: "linked s (h # zs)" and ly: "linked s (last zs # ys @ [h])"
    using linked_append [of s "h # butlast zs" "last zs" "ys @ [h]"] zs by simp_all
  then have n: "l_next s (last zs) = hd (ys @ [h])" and ly: "linked s (ys @ [h])" and lz: "linked s zs"
    using linked_Cons [OF ys] linked_Cons [OF zs] by simp_all
  have f: "l_next s h = hd zs" using ring_ptrs(1) [OF r] zs by simp
  have d: "distinct zs" "distinct (ys @ [h])" "set zs \<inter> set (ys @ [h]) = {}" using r by (auto simp: ring_def)
  have mem: "hd zs \<in> set zs" "last zs \<in> set zs" "hd (ys @ [h]) \<in> set (ys @ [h])" using zs hd_in_set [OF ys] by auto
  have ne: "hd zs \<noteq> h" "last zs \<noteq> h" "l \<noteq> h" "l \<noteq> hd zs" "l \<noteq> last zs" "l \<noteq> hd (ys @ [h])" "hd zs \<noteq> hd (ys @ [h])"
    using mem d l by (auto simp del: hd_append)
  have next_t: "l_next t = (l_next s)(l := hd zs, last zs := l, h := hd (ys @ [h]))"
    and prev_t: "l_prev t = (l_prev s)(l := last zs, hd zs := l, hd (ys @ [h]) := h)"
    using ne unfolding t_def list_cut_at_def Let_def by (auto simp: n f fun_upd_twist simp del: hd_append)
  have "linked t zs = linked s zs"
    using distinct_ends [OF d(1) zs] d(3) mem(3) l
    by (intro linked_cong) (auto simp: next_t prev_t simp del: hd_append dest: in_set_butlastD in_set_tlD)
  with lz ne have "linked t (l # zs @ [l])"
    using zs by (simp add: linked_Cons linked_snoc next_t prev_t del: hd_append)
  then show "ring t l zs" using d l by (simp add: ring_def)
  have "linked t (ys @ [h]) = linked s (ys @ [h])"
  proof (rule linked_cong)
    show "l_next t a = l_next s a" if "a \<in> set (butlast (ys @ [h]))" for a
      using that r mem(2) d(3) l by (auto simp: next_t ring_def simp del: hd_append)
    show "l_prev t a = l_prev s a" if "a \<in> set (tl (ys @ [h]))" for a
      using that in_set_tlD [OF that] distinct_ends [OF d(2) ys] d(3) mem(1) l by (auto simp: prev_t simp del: hd_append)
  qed
  with ly have "linked t (h # ys @ [h])" using ne by (simp add: linked_Cons [OF ys] next_t prev_t del: hd_append)
  then show "ring t h ys" using r by (simp add: ring_def)
qed

lemma list_merge_impl_ring:
  assumes r1: "ring s l1 xs" and r2: "ring s l2 ys" and ne: "xs \<noteq> []" "ys \<noteq> []"
    and d: "set (l1 # xs) \<inter> set (l2 # ys) = {}" and h: "h \<notin> set (l1 # xs) \<union> set (l2 # ys)"
  shows "ring (list_merge_impl h l1 l2 s) h (xs @ ys)"
proof -
  define t where "t = list_merge_impl h l1 l2 s"
  have ptrs: "l_next s l1 = hd xs" "l_prev s l1 = last xs" "l_next s l2 = hd ys" "l_prev s l2 = last ys"
    using ring_ptrs(1,2) [OF r1] ring_ptrs(1,2) [OF r2] ne by simp_all
  have dx: "distinct xs" "distinct ys" using r1 r2 by (simp_all add: ring_def)
  have mem: "hd xs \<in> set xs" "last xs \<in> set xs" "hd ys \<in> set ys" "last ys \<in> set ys" using ne by auto
  have next_t: "l_next t = (l_next s)(h := hd xs, last ys := h, last xs := hd ys)"
    and prev_t: "l_prev t = (l_prev s)(hd xs := h, h := last ys, hd ys := last xs)"
    unfolding t_def list_merge_impl_def Let_def ptrs by simp_all
  have "linked t xs = linked s xs" "linked t ys = linked s ys"
    using distinct_ends [OF dx(1) ne(1)] distinct_ends [OF dx(2) ne(2)] mem d h
    by (intro linked_cong; auto simp: next_t prev_t dest: in_set_butlastD in_set_tlD)+
  then have l: "linked t xs" "linked t ys" using ring_ptrs(3) [OF r1 ne(1)] ring_ptrs(3) [OF r2 ne(2)] by auto
  have n: "hd xs \<noteq> hd ys" "last xs \<noteq> last ys" "h \<noteq> last xs" "h \<noteq> last ys" "h \<noteq> hd xs" "h \<noteq> hd ys"
    using mem d h by auto
  have "linked t (last xs # ys)" using l(2) ne by (simp add: linked_Cons next_t prev_t)
  then have "linked t (xs @ ys)"
    using l(1) ne linked_append [of t "butlast xs" "last xs" ys] by (metis append.assoc append_Cons append_Nil append_butlast_last_id)
  then have "linked t (h # (xs @ ys) @ [h])"
    using ne n linked_snoc [of "xs @ ys" t h] linked_Cons [of "xs @ ys @ [h]" t h] by (simp add: next_t prev_t)
  then show ?thesis using dx d h by (auto simp: ring_def t_def)
qed

section \<open>Abstraction\<close>

text \<open>
  The lists of a program: the sequence of each list head. They are rings in the store and share no node.
\<close>

type_synonym 'a lists = "'a \<Rightarrow> 'a list option"

definition foot :: "'a lists \<Rightarrow> 'a \<Rightarrow> 'a set" where
  "foot L h = (case L h of None \<Rightarrow> {} | Some xs \<Rightarrow> set (h # xs))"

definition owned :: "'a lists \<Rightarrow> 'a set" where
  "owned L = (\<Union>h. foot L h)"

definition entries :: "'a lists \<Rightarrow> 'a set" where
  "entries L = {a. \<exists>h xs. L h = Some xs \<and> a \<in> set xs}"

definition lists_ok :: "'a list_mem \<Rightarrow> 'a lists \<Rightarrow> bool" where
  "lists_ok s L \<longleftrightarrow> (\<forall>h xs. L h = Some xs \<longrightarrow> ring s h xs) \<and> (\<forall>h h'. h \<noteq> h' \<longrightarrow> foot L h \<inter> foot L h' = {})"

text \<open>Assignments to other nodes keep a ring.\<close>

definition changes_in :: "'a set \<Rightarrow> 'a list_mem \<Rightarrow> 'a list_mem \<Rightarrow> bool" where
  "changes_in A s t \<longleftrightarrow> (\<forall>a. a \<notin> A \<longrightarrow> l_next t a = l_next s a \<and> l_prev t a = l_prev s a)"

lemma ring_frame: "changes_in A s t \<Longrightarrow> A \<inter> set (h # xs) = {} \<Longrightarrow> ring t h xs = ring s h xs"
  unfolding ring_def changes_in_def
  by (subst linked_cong [of _ t s]) (auto simp: butlast_append)

lemma foot_Some [simp]: "L h = Some xs \<Longrightarrow> foot L h = insert h (set xs)"
  by (simp add: foot_def)

lemma foot_None [simp]: "L h = None \<Longrightarrow> foot L h = {}"
  by (simp add: foot_def)

lemma foot_upd [simp]: "foot (L(h := x)) k = (if k = h then (case x of None \<Rightarrow> {} | Some xs \<Rightarrow> set (h # xs)) else foot L k)"
  by (auto simp: foot_def)

lemma lists_ring: "lists_ok s L \<Longrightarrow> L h = Some xs \<Longrightarrow> ring s h xs"
  by (simp add: lists_ok_def)

lemma lists_apart: "lists_ok s L \<Longrightarrow> h \<noteq> h' \<Longrightarrow> foot L h \<inter> foot L h' = {}"
  by (simp add: lists_ok_def)

text \<open>A step on the lists of \<open>H\<close>, which may take new nodes \<open>N\<close>, leaves the other lists as they are.\<close>

lemma lists_ok_step:
  assumes ok: "lists_ok s L" and new: "N \<inter> owned L = {}"
    and ch: "changes_in (N \<union> (\<Union>h \<in> H. foot L h)) s t"
    and same: "\<And>h. h \<notin> H \<Longrightarrow> L' h = L h"
    and rings: "\<And>h ys. h \<in> H \<Longrightarrow> L' h = Some ys \<Longrightarrow> ring t h ys"
    and sub: "\<And>h. h \<in> H \<Longrightarrow> foot L' h \<subseteq> N \<union> (\<Union>h \<in> H. foot L h)"
    and disj: "\<And>h h'. h \<in> H \<Longrightarrow> h' \<in> H \<Longrightarrow> h \<noteq> h' \<Longrightarrow> foot L' h \<inter> foot L' h' = {}"
  shows "lists_ok t L'"
proof -
  let ?A = "N \<union> (\<Union>h \<in> H. foot L h)"
  have out: "?A \<inter> foot L h = {}" if "h \<notin> H" for h
  proof -
    have "N \<inter> foot L h = {}" using new unfolding owned_def by blast
    moreover have "foot L k \<inter> foot L h = {}" if "k \<in> H" for k using lists_apart [OF ok, of k h] that \<open>h \<notin> H\<close> by metis
    ultimately show ?thesis by blast
  qed
  have foot: "foot L' h = foot L h" if "h \<notin> H" for h using same [OF that] by (simp add: foot_def)
  have "ring t h xs" if "L' h = Some xs" for h xs
  proof (cases "h \<in> H")
    case False
    then have "L h = Some xs" using same that by simp
    then have "ring s h xs" and "?A \<inter> set (h # xs) = {}" using lists_ring [OF ok] out [OF False] by auto
    then show ?thesis using ring_frame [OF ch] by blast
  qed (use rings that in blast)
  moreover have "foot L' h \<inter> foot L' h' = {}" if "h \<noteq> h'" for h h'
  proof -
    have "foot L' k \<inter> foot L' k' = {}" if "k \<in> H" "k' \<notin> H" for k k'
      using sub [OF that(1)] out [OF that(2)] foot [OF that(2)] by blast
    note mixed = this
    show ?thesis
    proof (cases "h \<in> H")
      case True
      then show ?thesis using mixed disj that by metis
    next
      case False
      then show ?thesis using mixed [of h' h] lists_apart [OF ok that] foot by (metis inf_commute)
    qed
  qed
  ultimately show ?thesis unfolding lists_ok_def by blast
qed

lemma lists_ok_upd:
  assumes ok: "lists_ok s L" and L: "L h = Some xs" and new: "N \<inter> owned L = {}"
    and ch: "changes_in (N \<union> set (h # xs)) s t" and "ring t h ys" and "set (h # ys) \<subseteq> N \<union> set (h # xs)"
  shows "lists_ok t (L(h \<mapsto> ys))"
  by (rule lists_ok_step [OF ok new, where H = "{h}"]) (use assms in auto)

lemma owned_not: "a \<notin> owned L \<Longrightarrow> L h = Some xs \<Longrightarrow> a \<noteq> h \<and> a \<notin> set xs"
  unfolding owned_def by (metis UNIV_I UN_I foot_Some insertCI)

lemma ring_closed:
  assumes "ring s h xs" and "a \<in> set (h # xs)"
  shows "l_next s a \<in> set (h # xs) \<and> l_prev s a \<in> set (h # xs)"
proof (cases "a = h")
  case True
  have "hd (xs @ [h]) \<in> set (xs @ [h])" "last (h # xs) \<in> set (h # xs)" by (rule hd_in_set last_in_set; simp)+
  then show ?thesis using ring_ptrs(1,2) [OF assms(1)] True by (simp del: hd_append)
next
  case False
  with assms(2) obtain us vs where d: "xs = us @ a # vs" by (auto dest: split_list)
  from ring_neighbours [OF assms(1) [unfolded d]] obtain ws p n zs where
    "h # us = ws @ [p]" "vs @ [h] = n # zs" "l_prev s a = p" "l_next s a = n" by metis
  then have "p \<in> set (h # us)" "n \<in> set (vs @ [h])" "l_prev s a = p" "l_next s a = n" by simp_all
  then show ?thesis unfolding d by auto
qed

lemma changes_add: "{node, p, n} \<subseteq> A \<Longrightarrow> changes_in A s (list_insert_between node p n s)"
  by (auto simp: changes_in_def list_insert_between_def)

lemma changes_del: "{p, n} \<subseteq> A \<Longrightarrow> changes_in A s (list_del_between p n s)"
  by (auto simp: changes_in_def list_del_between_def)

lemma lists_ok_fresh:
  assumes ok: "lists_ok s L" and ch: "changes_in N s t" and new: "N \<inter> owned L = {}"
  shows "lists_ok t L"
  by (rule lists_ok_step [OF ok new, where H = "{}"]) (use ch in auto)

lemma lists_ok_init:
  assumes ok: "lists_ok s L" and new: "h \<notin> owned L" and ch: "changes_in {h} s t" and r: "ring t h []"
  shows "lists_ok t (L(h \<mapsto> []))"
proof (rule lists_ok_step [OF ok, where H = "{h}" and N = "{h}"])
  show "changes_in ({h} \<union> (\<Union>k \<in> {h}. foot L k)) s t" using ch by (auto simp: changes_in_def)
qed (use new r in auto)

lemma lists_ok_after:
  assumes ok: "lists_ok s L" and L: "L h = Some xs" and a: "a \<in> set (h # xs)" and new: "node \<notin> owned L"
  shows "lists_ok (list_insert_front node a s) (L(h \<mapsto> tl (put_after a [node] (h # xs))))"
proof -
  let ?t = "list_insert_between node a (l_next s a) s"
  note r = lists_ring [OF ok L]
  have d: "distinct [node]" "set [node] \<inter> set (h # xs) = {}" using owned_not [OF new L] by auto
  have step: "linked ?t (us @ a # [node] @ n # vs)" if "linked s (us @ a # n # vs)" "ends_distinct (us @ a # n # vs)"
      "n = l_next s a" "set [node] \<inter> set (us @ a # n # vs) = {}" for us n vs
    using list_insert_between_linked [OF that(1,2), of node] that(3,4) by auto
  have "ring ?t h (tl (put_after a [node] (h # xs)))"
    and "set (h # tl (put_after a [node] (h # xs))) = set (h # xs) \<union> {node}"
    using ring_put_after [OF r a d step] by simp_all
  moreover have "changes_in ({node} \<union> set (h # xs)) s ?t"
    by (rule changes_add) (use a ring_closed [OF r a] in auto)
  ultimately show ?thesis unfolding list_insert_front_def
    by (intro lists_ok_upd [OF ok L, where N = "{node}"]) (use new in auto)
qed

lemma lists_ok_before:
  assumes ok: "lists_ok s L" and L: "L h = Some xs" and a: "a \<in> set (h # xs)" and new: "node \<notin> owned L"
  shows "lists_ok (list_insert_back node a s) (L(h \<mapsto> butlast (put_before a [node] (xs @ [h]))))"
proof -
  let ?t = "list_insert_between node (l_prev s a) a s"
  note r = lists_ring [OF ok L]
  have d: "distinct [node]" "set [node] \<inter> set (h # xs) = {}" using owned_not [OF new L] by auto
  have step: "linked ?t (us @ p # [node] @ a # vs)" if "linked s (us @ p # a # vs)" "ends_distinct (us @ p # a # vs)"
      "p = l_prev s a" "set [node] \<inter> set (us @ p # a # vs) = {}" for us p vs
    using list_insert_between_linked [OF that(1,2), of node] that(3,4) by auto
  have "ring ?t h (butlast (put_before a [node] (xs @ [h])))"
    and "set (h # butlast (put_before a [node] (xs @ [h]))) = set (h # xs) \<union> {node}"
    using ring_put_before [OF r a d step] by simp_all
  moreover have "changes_in ({node} \<union> set (h # xs)) s ?t"
    by (rule changes_add) (use a ring_closed [OF r a] in auto)
  ultimately show ?thesis unfolding list_insert_back_def
    by (intro lists_ok_upd [OF ok L, where N = "{node}"]) (use new in auto)
qed

lemma lists_ok_del:
  assumes ok: "lists_ok s L" and L: "L h = Some xs" and a: "a \<in> set xs"
  shows "lists_ok (list_del_entry a s) (L(h \<mapsto> remove1 a xs))" and "a \<notin> owned (L(h \<mapsto> remove1 a xs))"
proof -
  note r = lists_ring [OF ok L]
  from a obtain us vs where d: "xs = us @ a # vs" by (meson split_list)
  from r have dist: "distinct (h # us @ a # vs)" by (simp add: ring_def d)
  then have rem: "remove1 a xs = us @ vs" unfolding d by (simp add: remove1_append)
  have "changes_in ({} \<union> set (h # xs)) s (list_del_entry a s)"
    unfolding list_del_entry_def by (rule changes_del) (use a ring_closed [OF r, of a] in auto)
  then show "lists_ok (list_del_entry a s) (L(h \<mapsto> remove1 a xs))"
    by (rule lists_ok_upd [OF ok L, rotated]) (use ring_del [OF r [unfolded d]] rem d in auto)
  have "a \<notin> foot L k" if "k \<noteq> h" for k using lists_apart [OF ok that] L a by auto
  then show "a \<notin> owned (L(h \<mapsto> remove1 a xs))" using dist rem unfolding owned_def by auto
qed

lemma lists_ok_replace:
  assumes ok: "lists_ok s L" and L: "L h = Some xs" and a: "a \<in> set xs" and new: "node \<notin> owned L"
  shows "lists_ok (list_replace a node s) (L(h \<mapsto> map (\<lambda>x. if x = a then node else x) xs))"
    and "a \<notin> owned (L(h \<mapsto> map (\<lambda>x. if x = a then node else x) xs))"
proof -
  note r = lists_ring [OF ok L]
  from a obtain us vs where d: "xs = us @ a # vs" by (meson split_list)
  from r have dist: "distinct (h # us @ a # vs)" by (simp add: ring_def d)
  have n: "node \<noteq> h" "node \<notin> set xs" using owned_not [OF new L] by auto
  have m: "map (\<lambda>x. if x = a then node else x) xs = us @ node # vs"
    unfolding d using dist by (auto intro: map_idI)
  have "changes_in ({node} \<union> set (h # xs)) s (list_replace a node s)"
    using a n ring_closed [OF r, of a] by (auto simp: changes_in_def list_replace_def Let_def)
  then show "lists_ok (list_replace a node s) (L(h \<mapsto> map (\<lambda>x. if x = a then node else x) xs))"
    by (rule lists_ok_upd [OF ok L, rotated]) (use ring_replace [OF r [unfolded d], of node] new n m d in auto)
  have "a \<notin> foot L k" if "k \<noteq> h" for k using lists_apart [OF ok that] L a by auto
  then show "a \<notin> owned (L(h \<mapsto> map (\<lambda>x. if x = a then node else x) xs))" using dist n a m unfolding owned_def by auto
qed

text \<open>Splicing moves the nodes of a list; its head is no list afterwards.\<close>

lemma changes_splice:
  assumes "ring s l ys" and "ys \<noteq> []" and "{p, n} \<union> set ys \<subseteq> A"
  shows "changes_in A s (list_splice_between l p n s)"
proof -
  have "hd ys \<in> A" "last ys \<in> A" "p \<in> A" "n \<in> A" using assms(2,3) by (auto dest: hd_in_set last_in_set)
  then show ?thesis
    using assms ring_ptrs(1,2) [OF assms(1)] by (auto simp: changes_in_def list_splice_between_def Let_def)
qed

lemma lists_ok_spliced:
  assumes ok: "lists_ok s L" and L: "L h = Some xs" "L l = Some ys" and ne: "h \<noteq> l"
    and ch: "changes_in (set (h # xs) \<union> set (l # ys)) s t" and r: "ring t h zs" and sub: "set zs \<subseteq> set (h # xs) \<union> set ys"
  shows "lists_ok t (L(h \<mapsto> zs, l := None))" and "l \<notin> owned (L(h \<mapsto> zs, l := None))"
proof -
  have lne: "l \<notin> set (h # xs)" "l \<notin> set ys"
    using lists_apart [OF ok ne] L lists_ring [OF ok L(2)] by (auto simp: ring_def)
  show "lists_ok t (L(h \<mapsto> zs, l := None))"
    by (rule lists_ok_step [OF ok, where H = "{h, l}" and N = "{}"]) (use ch r sub ne L in \<open>auto simp: insert_commute Un_commute\<close>)
  have "l \<notin> foot L k" if "k \<noteq> l" for k using lists_apart [OF ok that] L by auto
  then show "l \<notin> owned (L(h \<mapsto> zs, l := None))" using ne lne sub unfolding owned_def by auto
qed

lemma lists_ok_splice:
  assumes ok: "lists_ok s L" and L: "L h = Some xs" "L l = Some ys" and ne: "h \<noteq> l" "ys \<noteq> []" and a: "a \<in> set (h # xs)"
  shows "lists_ok (list_splice_between l a (l_next s a) s) (L(h \<mapsto> tl (put_after a ys (h # xs)), l := None))"
    and "l \<notin> owned (L(h \<mapsto> tl (put_after a ys (h # xs)), l := None))"
proof -
  let ?t = "list_splice_between l a (l_next s a) s"
  note r = lists_ring [OF ok L(1)] and rl = lists_ring [OF ok L(2)]
  have d: "distinct ys" "set ys \<inter> set (h # xs) = {}" using rl lists_apart [OF ok ne(1)] L by (auto simp: ring_def)
  have step: "linked ?t (us @ a # ys @ n # vs)" if "linked s (us @ a # n # vs)" "ends_distinct (us @ a # n # vs)"
      "n = l_next s a" "set ys \<inter> set (us @ a # n # vs) = {}" for us n vs
    using list_splice_between_linked [OF that(1,2), of l ys] that(3,4) rl d ne by (auto simp: ring_def)
  have put: "ring ?t h (tl (put_after a ys (h # xs)))" "set (h # tl (put_after a ys (h # xs))) = set (h # xs) \<union> set ys"
    using ring_put_after [OF r a d step] by simp_all
  have sub: "set (tl (put_after a ys (h # xs))) \<subseteq> set (h # xs) \<union> set ys" using put(2) by (metis set_subset_Cons)
  have ch: "changes_in (set (h # xs) \<union> set (l # ys)) s ?t"
    by (rule changes_splice [OF rl ne(2)]) (use a ring_closed [OF r a] in auto)
  show "lists_ok ?t (L(h \<mapsto> tl (put_after a ys (h # xs)), l := None))" and "l \<notin> owned (L(h \<mapsto> tl (put_after a ys (h # xs)), l := None))"
    by (rule lists_ok_spliced [OF ok L ne(1) ch put(1) sub])+
qed

lemma lists_ok_splice_tail:
  assumes ok: "lists_ok s L" and L: "L h = Some xs" "L l = Some ys" and ne: "h \<noteq> l" "ys \<noteq> []" and a: "a \<in> set (h # xs)"
  shows "lists_ok (list_splice_between l (l_prev s a) a s) (L(h \<mapsto> butlast (put_before a ys (xs @ [h])), l := None))"
    and "l \<notin> owned (L(h \<mapsto> butlast (put_before a ys (xs @ [h])), l := None))"
proof -
  let ?t = "list_splice_between l (l_prev s a) a s"
  note r = lists_ring [OF ok L(1)] and rl = lists_ring [OF ok L(2)]
  have d: "distinct ys" "set ys \<inter> set (h # xs) = {}" using rl lists_apart [OF ok ne(1)] L by (auto simp: ring_def)
  have step: "linked ?t (us @ p # ys @ a # vs)" if "linked s (us @ p # a # vs)" "ends_distinct (us @ p # a # vs)"
      "p = l_prev s a" "set ys \<inter> set (us @ p # a # vs) = {}" for us p vs
    using list_splice_between_linked [OF that(1,2), of l ys] that(3,4) rl d ne by (auto simp: ring_def)
  have put: "ring ?t h (butlast (put_before a ys (xs @ [h])))" "set (h # butlast (put_before a ys (xs @ [h]))) = set (h # xs) \<union> set ys"
    using ring_put_before [OF r a d step] by simp_all
  have sub: "set (butlast (put_before a ys (xs @ [h]))) \<subseteq> set (h # xs) \<union> set ys" using put(2) by (metis set_subset_Cons)
  have ch: "changes_in (set (h # xs) \<union> set (l # ys)) s ?t"
    by (rule changes_splice [OF rl ne(2)]) (use a ring_closed [OF r a] in auto)
  show "lists_ok ?t (L(h \<mapsto> butlast (put_before a ys (xs @ [h])), l := None))" and "l \<notin> owned (L(h \<mapsto> butlast (put_before a ys (xs @ [h])), l := None))"
    by (rule lists_ok_spliced [OF ok L ne(1) ch put(1) sub])+
qed

text \<open>A list is cut behind one of its nodes; the other head drops its nodes.\<close>

lemma lists_ok_cut:
  assumes ok: "lists_ok s L" and L: "L h = Some (zs @ ys)" "L l = Some ws" and ne: "h \<noteq> l" "zs \<noteq> []"
  shows "lists_ok (list_cut_at l h (last zs) s) (L(l \<mapsto> zs, h \<mapsto> ys))"
proof (rule lists_ok_step [OF ok, where H = "{h, l}" and N = "{}"])
  note r = lists_ring [OF ok L(1)]
  have l: "l \<notin> set (h # zs @ ys)" using lists_apart [OF ok ne(1)] L by auto
  note cut = list_cut_at_ring [OF r ne(2) l]
  show "ring (list_cut_at l h (last zs) s) k us" if "k \<in> {h, l}" "(L(l \<mapsto> zs, h \<mapsto> ys)) k = Some us" for k us
    using that cut ne by (auto split: if_splits)
  have "last zs \<in> set zs" "hd zs \<in> set zs" using ne by auto
  moreover have "l_next s h = hd zs" using ring_ptrs(1) [OF r] ne by simp
  moreover have "l_next s (last zs) \<in> set (h # zs @ ys)" using ring_closed [OF r, of "last zs"] calculation(1) by simp
  ultimately show "changes_in ({} \<union> (\<Union>k \<in> {h, l}. foot L k)) s (list_cut_at l h (last zs) s)"
    using L l by (auto simp: changes_in_def list_cut_at_def Let_def)
  have "distinct (zs @ ys)" using r by (simp add: ring_def)
  then show "foot (L(l \<mapsto> zs, h \<mapsto> ys)) k \<inter> foot (L(l \<mapsto> zs, h \<mapsto> ys)) k' = {}" if "k \<in> {h, l}" "k' \<in> {h, l}" "k \<noteq> k'" for k k'
    using that l r by (auto simp: ring_def)
  show "foot (L(l \<mapsto> zs, h \<mapsto> ys)) k \<subseteq> {} \<union> (\<Union>k \<in> {h, l}. foot L k)" if "k \<in> {h, l}" for k
    using that L ne by auto
qed auto

text \<open>Two lists become one; the list at the head is dropped.\<close>

lemma lists_ok_merge:
  assumes ok: "lists_ok s L" and L: "L h = Some zs" "L l1 = Some xs" "L l2 = Some ys"
    and ne: "h \<noteq> l1" "h \<noteq> l2" "l1 \<noteq> l2" "xs \<noteq> []" "ys \<noteq> []"
  shows "lists_ok (list_merge_impl h l1 l2 s) (L(h \<mapsto> xs @ ys, l1 := None, l2 := None))"
    and "l1 \<notin> owned (L(h \<mapsto> xs @ ys, l1 := None, l2 := None))" and "l2 \<notin> owned (L(h \<mapsto> xs @ ys, l1 := None, l2 := None))"
proof -
  note r1 = lists_ring [OF ok L(2)] and r2 = lists_ring [OF ok L(3)]
  have d: "set (l1 # xs) \<inter> set (l2 # ys) = {}" and h: "h \<notin> set (l1 # xs) \<union> set (l2 # ys)"
    using lists_apart [OF ok ne(3)] lists_apart [OF ok ne(1)] lists_apart [OF ok ne(2)] L by auto
  have mem: "hd xs \<in> set xs" "last xs \<in> set xs" "hd ys \<in> set ys" "last ys \<in> set ys" using ne by auto
  have ptrs: "l_next s l1 = hd xs" "l_prev s l1 = last xs" "l_next s l2 = hd ys" "l_prev s l2 = last ys"
    using ring_ptrs(1,2) [OF r1] ring_ptrs(1,2) [OF r2] ne by simp_all
  have "changes_in ({} \<union> (\<Union>k \<in> {h, l1, l2}. foot L k)) s (list_merge_impl h l1 l2 s)"
    using mem L by (auto simp: changes_in_def list_merge_impl_def Let_def ptrs)
  then show "lists_ok (list_merge_impl h l1 l2 s) (L(h \<mapsto> xs @ ys, l1 := None, l2 := None))"
    by (rule lists_ok_step [OF ok, rotated])
      (use list_merge_impl_ring [OF r1 r2 ne(4,5) d h] ne L in \<open>auto split: if_splits\<close>)
  have l: "l1 \<notin> set (xs @ ys)" "l2 \<notin> set (xs @ ys)" using d r1 r2 by (auto simp: ring_def)
  have "l1 \<notin> foot L k" "l2 \<notin> foot L k" if "k \<noteq> l1" "k \<noteq> l2" for k
    using lists_apart [OF ok that(1)] lists_apart [OF ok that(2)] L by auto
  then show "l1 \<notin> owned (L(h \<mapsto> xs @ ys, l1 := None, l2 := None))" "l2 \<notin> owned (L(h \<mapsto> xs @ ys, l1 := None, l2 := None))"
    using l ne unfolding owned_def by auto
qed

section \<open>Operations on sequences\<close>

datatype 'a list_op =
    Op_Init 'a | Op_Add 'a 'a | Op_Add_Tail 'a 'a | Op_Insert_Front 'a 'a | Op_Insert_Back 'a 'a | Op_Del 'a | Op_Del_Init 'a
  | Op_Replace 'a 'a | Op_Replace_Init 'a 'a | Op_Move 'a 'a | Op_Move_Tail 'a 'a | Op_Rotate 'a | Op_Cut 'a 'a 'a
  | Op_Splice 'a 'a | Op_Splice_Tail 'a 'a | Op_Splice_Init 'a 'a | Op_Splice_Tail_Init 'a 'a | Op_Merge 'a 'a 'a

fun list_exec :: "'a list_op \<Rightarrow> 'a list_mem \<Rightarrow> 'a list_mem" where
  "list_exec (Op_Init h) s = list_head_reset h s"
| "list_exec (Op_Add node h) s = list_add node h s"
| "list_exec (Op_Add_Tail node h) s = list_add_tail node h s"
| "list_exec (Op_Insert_Front node a) s = list_insert_front node a s"
| "list_exec (Op_Insert_Back node a) s = list_insert_back node a s"
| "list_exec (Op_Del a) s = list_del a s"
| "list_exec (Op_Del_Init a) s = list_del_init a s"
| "list_exec (Op_Replace old node) s = list_replace old node s"
| "list_exec (Op_Replace_Init old node) s = list_replace_init old node s"
| "list_exec (Op_Move a h) s = list_move a h s"
| "list_exec (Op_Move_Tail a h) s = list_move_tail a h s"
| "list_exec (Op_Rotate h) s = list_rotate_left h s"
| "list_exec (Op_Cut l h a) s = list_cut_position l h a s"
| "list_exec (Op_Splice l a) s = list_splice l a s"
| "list_exec (Op_Splice_Tail l a) s = list_splice_tail l a s"
| "list_exec (Op_Splice_Init l a) s = list_splice_init l a s"
| "list_exec (Op_Splice_Tail_Init l a) s = list_splice_tail_init l a s"
| "list_exec (Op_Merge h l1 l2) s = list_merge h l1 l2 s"

text \<open>The list that holds a node, as its head or in its sequence, is changed.\<close>

definition at_node :: "'a \<Rightarrow> ('a \<Rightarrow> 'a list \<Rightarrow> 'a list) \<Rightarrow> 'a lists \<Rightarrow> 'a lists" where
  "at_node a f L = (\<lambda>h. map_option (\<lambda>xs. if a \<in> set (h # xs) then f h xs else xs) (L h))"

definition after_node :: "'a \<Rightarrow> 'a list \<Rightarrow> 'a lists \<Rightarrow> 'a lists" where
  "after_node a ys = at_node a (\<lambda>h xs. tl (put_after a ys (h # xs)))"

definition before_node :: "'a \<Rightarrow> 'a list \<Rightarrow> 'a lists \<Rightarrow> 'a lists" where
  "before_node a ys = at_node a (\<lambda>h xs. butlast (put_before a ys (xs @ [h])))"

definition without_node :: "'a \<Rightarrow> 'a lists \<Rightarrow> 'a lists" where
  "without_node a = at_node a (\<lambda>_. remove1 a)"

definition guard_some :: "bool \<Rightarrow> 'b \<Rightarrow> 'b option" where
  "guard_some b x = (if b then Some x else None)"

text \<open>What an operation does to the sequences; \<open>None\<close> where it must not be called.\<close>

fun list_spec :: "'a list_op \<Rightarrow> 'a lists \<Rightarrow> 'a lists option" where
  "list_spec (Op_Init h) L = guard_some (h \<notin> owned L) (L(h \<mapsto> []))"
| "list_spec (Op_Add node h) L = guard_some (L h \<noteq> None \<and> node \<notin> owned L) (L(h \<mapsto> node # the (L h)))"
| "list_spec (Op_Add_Tail node h) L = guard_some (L h \<noteq> None \<and> node \<notin> owned L) (L(h \<mapsto> the (L h) @ [node]))"
| "list_spec (Op_Insert_Front node a) L = guard_some (a \<in> owned L \<and> node \<notin> owned L) (after_node a [node] L)"
| "list_spec (Op_Insert_Back node a) L = guard_some (a \<in> owned L \<and> node \<notin> owned L) (before_node a [node] L)"
| "list_spec (Op_Del a) L = guard_some (a \<in> entries L) (without_node a L)"
| "list_spec (Op_Del_Init a) L = guard_some (a \<in> entries L) (without_node a L)"
| "list_spec (Op_Replace old node) L =
     guard_some (old \<in> entries L \<and> node \<notin> owned L) (at_node old (\<lambda>_. map (\<lambda>x. if x = old then node else x)) L)"
| "list_spec (Op_Replace_Init old node) L =
     guard_some (old \<in> entries L \<and> node \<notin> owned L) (at_node old (\<lambda>_. map (\<lambda>x. if x = old then node else x)) L)"
| "list_spec (Op_Move a h) L =
     guard_some (a \<in> entries L \<and> L h \<noteq> None) ((without_node a L)(h \<mapsto> a # the (without_node a L h)))"
| "list_spec (Op_Move_Tail a h) L =
     guard_some (a \<in> entries L \<and> L h \<noteq> None) ((without_node a L)(h \<mapsto> the (without_node a L h) @ [a]))"
| "list_spec (Op_Rotate h) L = guard_some (L h \<noteq> None) (L(h \<mapsto> rotate1 (the (L h))))"
| "list_spec (Op_Cut l h a) L =
     (case (L l, L h) of
        (Some _, Some xs) \<Rightarrow> guard_some (l \<noteq> h \<and> a \<in> set (h # xs))
          (if xs = [] then L else if a = h then L(l \<mapsto> [])
           else L(l \<mapsto> takeWhile (\<lambda>x. x \<noteq> a) xs @ [a], h \<mapsto> tl (dropWhile (\<lambda>x. x \<noteq> a) xs)))
      | _ \<Rightarrow> None)"
| "list_spec (Op_Splice l a) L =
     (case L l of Some ys \<Rightarrow> guard_some (a \<in> owned L - foot L l) (if ys = [] then L else (after_node a ys L)(l := None)) | None \<Rightarrow> None)"
| "list_spec (Op_Splice_Tail l a) L =
     (case L l of Some ys \<Rightarrow> guard_some (a \<in> owned L - foot L l) (if ys = [] then L else (before_node a ys L)(l := None)) | None \<Rightarrow> None)"
| "list_spec (Op_Splice_Init l a) L =
     (case L l of Some ys \<Rightarrow> guard_some (a \<in> owned L - foot L l) ((after_node a ys L)(l \<mapsto> [])) | None \<Rightarrow> None)"
| "list_spec (Op_Splice_Tail_Init l a) L =
     (case L l of Some ys \<Rightarrow> guard_some (a \<in> owned L - foot L l) ((before_node a ys L)(l \<mapsto> [])) | None \<Rightarrow> None)"
| "list_spec (Op_Merge h l1 l2) L =
     (case (L h, L l1, L l2) of
        (Some zs, Some xs, Some ys) \<Rightarrow> guard_some (distinct [h, l1, l2])
          (L(h \<mapsto> (if xs = [] then ys @ zs else if ys = [] then xs @ zs else xs @ ys), l1 \<mapsto> [], l2 \<mapsto> []))
      | _ \<Rightarrow> None)"

lemma guard_some_eq [simp]: "guard_some b x = Some y \<longleftrightarrow> b \<and> y = x"
  by (auto simp: guard_some_def)

lemma ownedE:
  assumes "a \<in> owned L"
  obtains h xs where "L h = Some xs" "a \<in> set (h # xs)"
proof -
  from assms obtain h where "a \<in> foot L h" unfolding owned_def by blast
  then show ?thesis using that [of h] by (cases "L h") auto
qed

lemma at_node_upd:
  assumes ok: "lists_ok s L" and "L h = Some xs" and "a \<in> set (h # xs)"
  shows "at_node a f L = L(h \<mapsto> f h xs)"
proof
  fix k
  show "at_node a f L k = (L(h \<mapsto> f h xs)) k"
    using assms lists_apart [OF ok, of h k] by (cases "L k") (auto simp: at_node_def)
qed

lemma entriesE:
  assumes ok: "lists_ok s L" and "a \<in> entries L"
  obtains h xs where "L h = Some xs" "a \<in> set xs" "a \<in> set (h # xs)"
  using assms(2) that by (auto simp: entries_def)

lemma lists_ok_reinit:
  assumes "lists_ok s L" and "h \<notin> owned L"
  shows "lists_ok (list_node_init h s) (L(h \<mapsto> []))" and "lists_ok (list_head_init h name s) (L(h \<mapsto> []))"
  by (rule lists_ok_init [OF assms]; simp add: changes_in_def ring_def)+

lemma lists_ok_lone:
  assumes ok: "lists_ok s L" and new: "a \<notin> owned L"
  shows "lists_ok (set_prev a a (set_next a a s)) L" and "lists_ok (list_node_init a s) L"
  by (rule lists_ok_fresh [OF ok, of "{a}"]; use new in \<open>simp add: changes_in_def\<close>)+

lemma list_del_entry_eq: "list_del_init a s = list_node_init a (list_del_entry a s)"
  "list_del a s = list_node_init a (list_del_entry a s)"
  by (simp_all add: list_del_init_def list_del_def list_del_entry_def list_node_init_def)

lemma without_node_upd:
  assumes "lists_ok s L" and "L h = Some xs" and "a \<in> set xs"
  shows "without_node a L = L(h \<mapsto> remove1 a xs)"
  unfolding without_node_def using assms by (subst at_node_upd [OF assms(1,2)]) auto

lemma lists_ok_without:
  assumes ok: "lists_ok s L" and a: "a \<in> entries L"
  shows "lists_ok (list_del_entry a s) (without_node a L)" and "a \<notin> owned (without_node a L)"
proof -
  obtain h xs where L: "L h = Some xs" "a \<in> set xs" by (rule entriesE [OF ok a])
  show "lists_ok (list_del_entry a s) (without_node a L)" "a \<notin> owned (without_node a L)"
    unfolding without_node_upd [OF ok L] by (rule lists_ok_del [OF ok L])+
qed

lemma without_node_dom: "without_node a L h = None \<longleftrightarrow> L h = None"
  by (simp add: without_node_def at_node_def)

lemma lists_ok_add:
  assumes ok: "lists_ok s L" and L: "L h = Some xs" and new: "node \<notin> owned L"
  shows "lists_ok (list_add node h s) (L(h \<mapsto> node # xs))" and "lists_ok (list_add_tail node h s) (L(h \<mapsto> xs @ [node]))"
proof -
  have "h \<notin> set xs" using lists_ring [OF ok L] by (simp add: ring_def)
  then have "butlast (put_before h [node] (xs @ [h])) = xs @ [node]"
    using put_before_split [of h xs "[node]" "[]"] by (simp add: butlast_append)
  then show "lists_ok (list_add_tail node h s) (L(h \<mapsto> xs @ [node]))"
    using lists_ok_before [OF ok L _ new, of h] by (simp add: list_insert_back_def list_add_tail_def)
  show "lists_ok (list_add node h s) (L(h \<mapsto> node # xs))"
    using lists_ok_after [OF ok L _ new, of h] by (simp add: list_insert_front_def list_add_def)
qed

lemma lists_ok_move:
  assumes ok: "lists_ok s L" and a: "a \<in> entries L" and L: "L h \<noteq> None"
  shows "lists_ok (list_move a h s) ((without_node a L)(h \<mapsto> a # the (without_node a L h)))"
    and "lists_ok (list_move_tail a h s) ((without_node a L)(h \<mapsto> the (without_node a L h) @ [a]))"
  using lists_ok_add [OF lists_ok_without(1) [OF ok a] _ lists_ok_without(2) [OF ok a], of h] L without_node_dom [of a L h]
  by (auto simp: list_move_def list_move_tail_def)

lemma lists_ok_rotate:
  assumes ok: "lists_ok s L" and L: "L h = Some xs"
  shows "lists_ok (list_rotate_left h s) (L(h \<mapsto> rotate1 xs))"
proof (cases xs)
  case Nil
  then show ?thesis using ok L ring_empty [OF lists_ring [OF ok L]] by (simp add: list_rotate_left_def fun_upd_idem)
next
  case (Cons a zs)
  have e: "\<not> list_empty h s" and n: "l_next s h = a"
    using ring_empty [OF lists_ring [OF ok L]] ring_ptrs(1) [OF lists_ring [OF ok L]] Cons by simp_all
  have "without_node a L = L(h \<mapsto> zs)" using without_node_upd [OF ok L, of a] Cons by simp
  moreover have "a \<in> entries L" unfolding entries_def using L Cons by (intro CollectI exI [of _ h] exI [of _ xs]) simp
  ultimately show ?thesis using lists_ok_move(2) [OF ok, of a h] L Cons e n by (simp add: list_rotate_left_def)
qed

lemma lists_ok_cut_position:
  assumes ok: "lists_ok s L" and L: "L h = Some xs" "L l = Some ws" and ne: "l \<noteq> h" and a: "a \<in> set (h # xs)"
  shows "lists_ok (list_cut_position l h a s)
    (if xs = [] then L else if a = h then L(l \<mapsto> [])
     else L(l \<mapsto> takeWhile (\<lambda>x. x \<noteq> a) xs @ [a], h \<mapsto> tl (dropWhile (\<lambda>x. x \<noteq> a) xs)))"
proof -
  note r = lists_ring [OF ok L(1)]
  note empty = ring_empty [OF r] and ptrs = ring_ptrs(1,2) [OF r]
  have "lists_ok (list_head_reset l s) (L(l \<mapsto> []))"
  proof (rule lists_ok_step [OF ok, where H = "{l}" and N = "{}"])
    show "changes_in ({} \<union> (\<Union>k \<in> {l}. foot L k)) s (list_head_reset l s)" using L by (auto simp: changes_in_def)
  qed (use L in \<open>auto simp: ring_def split: if_splits\<close>)
  moreover have "lists_ok (list_cut_at l h a s) (L(l \<mapsto> takeWhile (\<lambda>x. x \<noteq> a) xs @ [a], h \<mapsto> tl (dropWhile (\<lambda>x. x \<noteq> a) xs)))"
    if "a \<noteq> h"
  proof -
    from a that have "a \<in> set xs" by simp
    then have "xs = (takeWhile (\<lambda>x. x \<noteq> a) xs @ [a]) @ tl (dropWhile (\<lambda>x. x \<noteq> a) xs)"
      by (metis (mono_tags, lifting) append.assoc append_Cons append_Nil dropWhile_eq_Nil_conv hd_dropWhile list.collapse takeWhile_dropWhile_id)
    with L(1) have "L h = Some ((takeWhile (\<lambda>x. x \<noteq> a) xs @ [a]) @ tl (dropWhile (\<lambda>x. x \<noteq> a) xs))" by simp
    from lists_ok_cut [OF ok this L(2)] ne show ?thesis by simp
  qed
  moreover have "l_next s h = a \<or> h = a" if "list_is_singular h s"
  proof -
    have "xs \<noteq> []" "hd xs = last xs" using that empty ptrs by (auto simp: list_is_singular_def)
    moreover have "hd xs \<notin> set (tl xs)" using r distinct_ends [OF _ \<open>xs \<noteq> []\<close>] by (simp add: ring_def)
    ultimately have "tl xs = []" by (metis last_in_set last_tl)
    then have "xs = [hd xs]" using \<open>xs \<noteq> []\<close> by (metis list.collapse)
    with a ptrs \<open>xs \<noteq> []\<close> show ?thesis by (cases xs) auto
  qed
  ultimately show ?thesis using ok empty by (auto simp: list_cut_position_def)
qed

lemma after_node_upd: "lists_ok s L \<Longrightarrow> L h = Some xs \<Longrightarrow> a \<in> set (h # xs) \<Longrightarrow> after_node a ys L = L(h \<mapsto> tl (put_after a ys (h # xs)))"
  unfolding after_node_def by (rule at_node_upd)

lemma before_node_upd:
  "lists_ok s L \<Longrightarrow> L h = Some xs \<Longrightarrow> a \<in> set (h # xs) \<Longrightarrow> before_node a ys L = L(h \<mapsto> butlast (put_before a ys (xs @ [h])))"
  unfolding before_node_def by (rule at_node_upd)

lemma put_nothing: "put_after a [] xs = xs" "put_before a [] xs = xs"
  by (induction xs) auto

lemma node_nothing: "after_node a [] L = L" "before_node a [] L = L"
  by (simp_all add: after_node_def before_node_def at_node_def put_nothing option.map_ident del: put_after.simps put_before.simps)

lemma lists_ok_splices:
  assumes ok: "lists_ok s L" and L: "L l = Some ys" and a: "a \<in> owned L - foot L l"
  shows "lists_ok (list_splice l a s) (if ys = [] then L else (after_node a ys L)(l := None))"
    and "lists_ok (list_splice_tail l a s) (if ys = [] then L else (before_node a ys L)(l := None))"
    and "lists_ok (list_splice_init l a s) ((after_node a ys L)(l \<mapsto> []))"
    and "lists_ok (list_splice_tail_init l a s) ((before_node a ys L)(l \<mapsto> []))"
proof -
  from a obtain h xs where h: "L h = Some xs" "a \<in> set (h # xs)" by (auto elim!: ownedE)
  then have ne: "h \<noteq> l" using a by auto
  note empty = ring_empty [OF lists_ring [OF ok L]] and upd = after_node_upd [OF ok h, of ys] before_node_upd [OF ok h, of ys]
  have nil: "lists_ok s (L(l \<mapsto> []))" if "ys = []" using that ok L by (simp add: fun_upd_idem)
  have "lists_ok (list_head_init l None t) (M(l \<mapsto> [])) \<and> lists_ok (list_head_reset l t) (M(l \<mapsto> []))"
    if "lists_ok t (M(l := None))" "l \<notin> owned (M(l := None))" for t M
    using lists_ok_reinit(2) [OF that, of None] lists_ok_reinit(1) [OF that] by simp
  note init = this
  note splice = lists_ok_splice [OF ok h(1) L ne _ h(2)] lists_ok_splice_tail [OF ok h(1) L ne _ h(2)]
  show "lists_ok (list_splice l a s) (if ys = [] then L else (after_node a ys L)(l := None))"
    "lists_ok (list_splice_tail l a s) (if ys = [] then L else (before_node a ys L)(l := None))"
    using ok splice empty upd by (simp_all add: list_splice_def list_splice_tail_def)
  show "lists_ok (list_splice_init l a s) ((after_node a ys L)(l \<mapsto> []))"
    using nil init [OF splice(1,2)] empty upd(1) by (cases "ys = []") (simp_all add: list_splice_init_def node_nothing del: list_head_init_simps)
  show "lists_ok (list_splice_tail_init l a s) ((before_node a ys L)(l \<mapsto> []))"
    using nil init [OF splice(3,4)] empty upd(2) by (cases "ys = []") (simp_all add: list_splice_tail_init_def node_nothing del: list_head_init_simps)
qed

lemma lists_ok_merged:
  assumes ok: "lists_ok s L" and L: "L h = Some zs" "L l1 = Some xs" "L l2 = Some ys" and ne: "h \<noteq> l1" "h \<noteq> l2" "l1 \<noteq> l2"
  shows "lists_ok (list_merge h l1 l2 s)
    (L(h \<mapsto> (if xs = [] then ys @ zs else if ys = [] then xs @ zs else xs @ ys), l1 \<mapsto> [], l2 \<mapsto> []))"
proof -
  note e1 = ring_empty [OF lists_ring [OF ok L(2)]] and e2 = ring_empty [OF lists_ring [OF ok L(3)]]
  have head: "h \<in> owned L - foot L l" if "h \<noteq> l" for l
    using lists_apart [OF ok that] L(1) foot_Some [of L h zs] unfolding owned_def by blast
  have after: "after_node h us L = L(h \<mapsto> us @ zs)" for us using after_node_upd [OF ok L(1), of h us] by simp
  consider "xs = []" | "xs \<noteq> []" "ys = []" | "xs \<noteq> []" "ys \<noteq> []" by blast
  then show ?thesis
  proof cases
    case 1
    have "L(h \<mapsto> ys @ zs, l2 \<mapsto> []) = L(h \<mapsto> ys @ zs, l1 \<mapsto> [], l2 \<mapsto> [])" using L ne 1 by (auto simp: fun_eq_iff)
    then show ?thesis using lists_ok_splices(3) [OF ok L(3) head [OF ne(2)]] after 1 e1 by (simp add: list_merge_def)
  next
    case 2
    have "L(h \<mapsto> xs @ zs, l1 \<mapsto> []) = L(h \<mapsto> xs @ zs, l1 \<mapsto> [], l2 \<mapsto> [])" using L ne 2 by (auto simp: fun_eq_iff)
    then show ?thesis using lists_ok_splices(3) [OF ok L(2) head [OF ne(1)]] after 2 e1 e2 by (simp add: list_merge_def)
  next
    case 3
    let ?M = "L(h \<mapsto> xs @ ys, l1 := None, l2 := None)"
    note m = lists_ok_merge [OF ok L ne 3]
    have "lists_ok (list_head_reset l1 (list_merge_impl h l1 l2 s)) (?M(l1 \<mapsto> []))"
      using lists_ok_reinit(1) [OF m(1,2)] by simp
    moreover have "l2 \<notin> owned (?M(l1 \<mapsto> []))"
      using m(3) ne unfolding owned_def by (auto split: if_splits)
    ultimately have "lists_ok (list_head_reset l2 (list_head_reset l1 (list_merge_impl h l1 l2 s))) (?M(l1 \<mapsto> [], l2 \<mapsto> []))"
      using lists_ok_reinit(1) by fastforce
    moreover have "?M(l1 \<mapsto> [], l2 \<mapsto> []) = L(h \<mapsto> xs @ ys, l1 \<mapsto> [], l2 \<mapsto> [])" using ne by (auto simp: fun_eq_iff)
    ultimately show ?thesis using 3 e1 e2 by (simp add: list_merge_def del: list_head_init_simps)
  qed
qed

lemma owned_head: "L h = Some xs \<Longrightarrow> h \<in> owned L"
  unfolding owned_def using foot_Some [of L h xs] by blast

lemma list_exec_refines:
  assumes ok: "lists_ok s L" and spec: "list_spec op L = Some L'"
  shows "lists_ok (list_exec op s) L'"
proof (cases op)
  case (Op_Init h)
  then show ?thesis using spec lists_ok_reinit(1) [OF ok] by simp
next
  case (Op_Add node h)
  then show ?thesis using spec lists_ok_add(1) [OF ok] by auto
next
  case (Op_Add_Tail node h)
  then show ?thesis using spec lists_ok_add(2) [OF ok] by auto
next
  case (Op_Insert_Front node a)
  then show ?thesis using spec lists_ok_after [OF ok] after_node_upd [OF ok] by (auto elim!: ownedE)
next
  case (Op_Insert_Back node a)
  then show ?thesis using spec lists_ok_before [OF ok] before_node_upd [OF ok] by (auto elim!: ownedE)
next
  case (Op_Del a)
  then show ?thesis using spec lists_ok_lone(2) [OF lists_ok_without [OF ok]] by (simp add: list_del_entry_eq)
next
  case (Op_Del_Init a)
  then show ?thesis using spec lists_ok_lone(2) [OF lists_ok_without [OF ok]] by (simp add: list_del_entry_eq)
next
  case (Op_Replace old node)
  with spec obtain h xs where h: "L h = Some xs" "old \<in> set xs" "old \<in> set (h # xs)" and "node \<notin> owned L"
    by (auto elim: entriesE [OF ok])
  then show ?thesis using Op_Replace spec lists_ok_replace(1) [OF ok h(1,2)] at_node_upd [OF ok h(1,3)] by simp
next
  case (Op_Replace_Init old node)
  with spec obtain h xs where h: "L h = Some xs" "old \<in> set xs" "old \<in> set (h # xs)" and "node \<notin> owned L"
    by (auto elim: entriesE [OF ok])
  then show ?thesis
    using Op_Replace_Init spec lists_ok_lone(2) [OF lists_ok_replace [OF ok h(1,2)]] at_node_upd [OF ok h(1,3)]
    by (simp add: list_replace_init_def)
next
  case (Op_Move a h)
  then show ?thesis using spec lists_ok_move(1) [OF ok] by auto
next
  case (Op_Move_Tail a h)
  then show ?thesis using spec lists_ok_move(2) [OF ok] by auto
next
  case (Op_Rotate h)
  then show ?thesis using spec lists_ok_rotate [OF ok] by auto
next
  case (Op_Cut l h a)
  with spec obtain ws xs where "L l = Some ws" "L h = Some xs" by (auto split: option.splits)
  then show ?thesis using Op_Cut spec lists_ok_cut_position [OF ok, of h xs l ws a] by simp
next
  case (Op_Splice l a)
  then show ?thesis using spec lists_ok_splices(1) [OF ok] by (auto split: option.splits)
next
  case (Op_Splice_Tail l a)
  then show ?thesis using spec lists_ok_splices(2) [OF ok] by (auto split: option.splits)
next
  case (Op_Splice_Init l a)
  then show ?thesis using spec lists_ok_splices(3) [OF ok] by (auto split: option.splits)
next
  case (Op_Splice_Tail_Init l a)
  then show ?thesis using spec lists_ok_splices(4) [OF ok] by (auto split: option.splits)
next
  case (Op_Merge h l1 l2)
  with spec obtain zs xs ys where "L h = Some zs" "L l1 = Some xs" "L l2 = Some ys" by (auto split: option.splits)
  then show ?thesis using Op_Merge spec lists_ok_merged [OF ok, of h zs l1 xs l2 ys] by simp
qed

text \<open>Iteration.\<close>

abbreviation visit :: "('a \<Rightarrow> 'c \<Rightarrow> 'a list_mem \<Rightarrow> 'c \<times> 'a list_mem) \<Rightarrow> 'a list \<Rightarrow> 'c \<Rightarrow> 'a list_mem \<Rightarrow> 'c \<times> 'a list_mem" where
  "visit body xs ctx s \<equiv> fold (\<lambda>x (c, t). body x c t) xs (ctx, s)"


lemma ring_next: "ring s h (us @ a # vs) \<Longrightarrow> l_next s a = hd (vs @ [h])"
  by (erule ring_neighbours) (metis list.sel(1))

lemma ring_prev: "ring s h (us @ a # vs) \<Longrightarrow> l_prev s a = last (h # us)"
  by (erule ring_neighbours) (metis last_snoc)

lemma for_each_from_next:
  assumes "ring s h (us @ vs)" and "\<And>x c t. ring t h (us @ vs) \<Longrightarrow> ring (snd (body x c t)) h (us @ vs)"
  shows "for_each_from l_next body h (hd (vs @ [h])) ctx s = Some (visit body vs ctx s)"
  using assms
proof (induction vs arbitrary: us ctx s)
  case (Cons x vs)
  obtain c t where b: "body x ctx s = (c, t)" by fastforce
  then have t: "ring t h (us @ x # vs)" using Cons.prems by (metis snd_conv)
  have "x \<noteq> h" using Cons.prems(1) by (auto simp: ring_def)
  then show ?case
    using Cons.IH [of t "us @ [x]" c] Cons.prems(2) t ring_next [OF t] b by (subst for_each_from.simps) simp
qed (simp add: for_each_from.simps)

lemma for_each_from_prev:
  assumes "ring s h (us @ vs)" and "\<And>x c t. ring t h (us @ vs) \<Longrightarrow> ring (snd (body x c t)) h (us @ vs)"
  shows "for_each_from l_prev body h (last (h # us)) ctx s = Some (visit body (rev us) ctx s)"
  using assms
proof (induction us arbitrary: vs ctx s rule: rev_induct)
  case (snoc x us)
  obtain c t where b: "body x ctx s = (c, t)" by fastforce
  then have t: "ring t h (us @ x # vs)" using snoc.prems by (metis snd_conv append.assoc append_Cons append_Nil)
  have "x \<noteq> h" using snoc.prems(1) by (auto simp: ring_def)
  then show ?case
    using snoc.IH [of t "x # vs" c] snoc.prems(2) t ring_prev [OF t] b by (subst for_each_from.simps) simp
qed (simp add: for_each_from.simps)

text \<open>A body that keeps or takes away the node it is called with.\<close>

definition removes_or_keeps :: "('a \<Rightarrow> 'c \<Rightarrow> 'a list_mem \<Rightarrow> 'c \<times> 'a list_mem) \<Rightarrow> ('a \<Rightarrow> bool) \<Rightarrow> 'a \<Rightarrow> bool" where
  "removes_or_keeps body P h \<longleftrightarrow>
     (\<forall>c s L us x vs. lists_ok s L \<longrightarrow> L h = Some (us @ x # vs) \<longrightarrow>
        (\<exists>L'. lists_ok (snd (body x c s)) L' \<and> L' h = Some (us @ (if P x then [x] else []) @ vs)))"

lemma hd_append_singleton: "hd (xs @ [h]) = (if xs = [] then h else hd xs)"
  by (cases xs) auto

lemma for_each_safe_from_filters:
  assumes body: "removes_or_keeps body P h" and "lists_ok s L" and "L h = Some (us @ vs)"
  shows "\<exists>s' L'. for_each_safe_from l_next body h (hd (vs @ [h])) (l_next s (hd (vs @ [h]))) ctx s = Some (fst (visit body vs ctx s), s') \<and>
    s' = snd (visit body vs ctx s) \<and> lists_ok s' L' \<and> L' h = Some (us @ filter P vs)"
  using assms(2,3)
proof (induction vs arbitrary: us ctx s L)
  case Nil
  then show ?case by (subst for_each_safe_from.simps) auto
next
  case (Cons x vs)
  obtain c t where b: "body x ctx s = (c, t)" by fastforce
  from body Cons.prems b obtain L1 where t: "lists_ok t L1" "L1 h = Some ((us @ (if P x then [x] else [])) @ vs)"
    unfolding removes_or_keeps_def by (metis snd_conv append.assoc)
  note r = lists_ring [OF Cons.prems]
  then have n: "l_next s x = hd (vs @ [h])" and x: "x \<noteq> h" using ring_next [OF r] by (auto simp: ring_def)
  from Cons.IH [OF t, of c] x n b show ?case by (subst for_each_safe_from.simps) (auto split: if_splits)
qed

lemma list_del_removes_or_keeps: "removes_or_keeps (\<lambda>x c t. (f x c, if P x then t else list_del x t)) P h"
  unfolding removes_or_keeps_def
proof (intro allI impI)
  fix c s L us x vs assume ok: "lists_ok s L" and L: "L h = Some (us @ x # vs)"
  have "distinct (us @ x # vs)" using lists_ring [OF ok L] by (simp add: ring_def)
  then have rem: "remove1 x (us @ x # vs) = us @ vs" by (simp add: remove1_append)
  have "lists_ok (list_del x s) (L(h \<mapsto> us @ vs))"
    using lists_ok_lone(2) [OF lists_ok_del [OF ok L, of x]] rem by (simp add: list_del_entry_eq)
  then show "\<exists>L'. lists_ok (snd (f x c, if P x then s else list_del x s)) L' \<and> L' h = Some (us @ (if P x then [x] else []) @ vs)"
    using ok L by (cases "P x") auto
qed

fun list_spec_run :: "'a list_op list \<Rightarrow> 'a lists \<Rightarrow> 'a lists option" where
  "list_spec_run [] L = Some L"
| "list_spec_run (op # ops) L = (case list_spec op L of None \<Rightarrow> None | Some L1 \<Rightarrow> list_spec_run ops L1)"

lemma list_run_refines: "lists_ok s L \<Longrightarrow> list_spec_run ops L = Some L' \<Longrightarrow> lists_ok (fold list_exec ops s) L'"
  by (induction ops arbitrary: s L) (auto split: option.splits dest: list_exec_refines)

text \<open>The loops gather the nodes.\<close>

abbreviation gather :: "'a \<Rightarrow> 'a list \<Rightarrow> 'a list_mem \<Rightarrow> 'a list \<times> 'a list_mem" where
  "gather x c t \<equiv> (c @ [x], t)"

lemma visit_gather: "visit gather xs c t = (c @ xs, t)"
  by (induction xs arbitrary: c) auto

lemma ring_reads:
  assumes r: "ring t h xs"
  shows "list_for_each gather h [] t = Some (xs, t)" and "list_for_each_prev gather h [] t = Some (rev xs, t)"
    and "list_empty h t \<longleftrightarrow> xs = []" and "list_is_singular h t \<longleftrightarrow> length xs = 1"
proof -
  have "l_next t h = hd (xs @ [h])" using ring_ptrs(1) [OF r] .
  then show "list_for_each gather h [] t = Some (xs, t)"
    using for_each_from_next [of t h "[]" xs gather "[]"] r by (simp add: list_for_each_def visit_gather)
  show "list_for_each_prev gather h [] t = Some (rev xs, t)"
    using for_each_from_prev [of t h xs "[]" gather "[]"] r ring_ptrs(2) [OF r] by (simp add: list_for_each_prev_def visit_gather)
  show e: "list_empty h t \<longleftrightarrow> xs = []" by (rule ring_empty [OF r])
  show "list_is_singular h t \<longleftrightarrow> length xs = 1"
  proof (cases "xs = []")
    case False
    have "hd xs = last xs \<longleftrightarrow> tl xs = []"
      using False r distinct_ends [OF _ False] by (metis distinct.simps(2) last_ConsL last_in_set last_tl list.collapse list.sel(1) ring_def)
    moreover have "tl xs = [] \<longleftrightarrow> length xs = 1" using False by (cases xs) auto
    ultimately show ?thesis using False e ring_ptrs(1,2) [OF r] by (simp add: list_is_singular_def)
  qed (use e in \<open>simp add: list_is_singular_def\<close>)
qed

section \<open>Properties\<close>

text \<open>
  C8. Every sequence of operations on the store does what the operations on sequences say, wherever these may be called: all
  lists stay rings that share no node, the loops in both directions end and read exactly the sequence of a list, and
  \<open>list_empty\<close> and \<open>list_is_singular\<close> tell its length.
\<close>

theorem list_operations_refine:
  assumes "lists_ok s L" and "list_spec_run ops L = Some L'"
  shows "lists_ok (fold list_exec ops s) L' \<and>
    (\<forall>h xs. L' h = Some xs \<longrightarrow>
       list_for_each gather h [] (fold list_exec ops s) = Some (xs, fold list_exec ops s) \<and>
       list_for_each_prev gather h [] (fold list_exec ops s) = Some (rev xs, fold list_exec ops s) \<and>
       list_empty h (fold list_exec ops s) = (xs = []) \<and> list_is_singular h (fold list_exec ops s) = (length xs = 1))"
proof -
  have ok: "lists_ok (fold list_exec ops s) L'" by (rule list_run_refines [OF assms])
  with ring_reads [OF lists_ring [OF ok]] show ?thesis by simp
qed

definition demo_mem :: "nat list_mem" where
  "demo_mem = \<lparr>l_next = (\<lambda>a. a), l_prev = (\<lambda>a. a), l_name = (\<lambda>_. [])\<rparr>"

definition demo_lists :: "nat lists" where
  "demo_lists = [0 \<mapsto> [], 1 \<mapsto> []]"

lemma demo_lists_ok: "lists_ok demo_mem demo_lists"
  by (auto simp: lists_ok_def demo_lists_def demo_mem_def ring_def foot_def)

definition demo_ops :: "nat list_op list" where
  "demo_ops = [Op_Add_Tail 10 0, Op_Add_Tail 11 0, Op_Add 12 1, Op_Move_Tail 10 1, Op_Replace 12 13, Op_Splice_Init 1 0, Op_Rotate 0]"

lemma demo_run: "\<exists>L'. list_spec_run demo_ops demo_lists = Some L' \<and> L' 0 = Some [10, 11, 13] \<and> L' 1 = Some []"
  by (simp add: demo_ops_def demo_lists_def owned_def entries_def foot_def without_node_def after_node_def at_node_def fun_upd_def guard_some_def) auto

theorem list_operations_refine_witness:
  "\<exists>L'. list_spec_run demo_ops demo_lists = Some L' \<and> lists_ok (fold list_exec demo_ops demo_mem) L' \<and>
     L' 0 = Some [10, 11, 13] \<and> L' 1 = Some [] \<and>
     map_option fst (list_for_each gather 0 [] (fold list_exec demo_ops demo_mem)) = Some [10, 11, 13]"
proof -
  from demo_run obtain L' where L': "list_spec_run demo_ops demo_lists = Some L'" "L' 0 = Some [10, 11, 13]" "L' 1 = Some []" by blast
  with list_operations_refine [OF demo_lists_ok L'(1)] show ?thesis by auto
qed

text \<open>
  C28. \<open>list_for_each_entry_safe\<close> ends and calls its body once for every node, in order, also when the body takes nodes away;
  the list keeps exactly the nodes that the body keeps.
\<close>

theorem list_for_each_safe_filters:
  assumes "lists_ok s L" and "L h = Some xs" and "removes_or_keeps body P h"
  shows "list_for_each_entry_safe body h ctx s = Some (visit body xs ctx s) \<and>
    (\<exists>L'. lists_ok (snd (visit body xs ctx s)) L' \<and> L' h = Some (filter P xs))"
proof -
  have "l_next s h = hd (xs @ [h])" by (rule ring_ptrs(1) [OF lists_ring [OF assms(1,2)]])
  with for_each_safe_from_filters [OF assms(3,1), of "[]" xs ctx] assms(2) show ?thesis
    by (auto simp: list_for_each_entry_safe_def)
qed

abbreviation drop_odd :: "nat \<Rightarrow> nat list \<Rightarrow> nat list_mem \<Rightarrow> nat list \<times> nat list_mem" where
  "drop_odd x c t \<equiv> (c @ [x], if even x then t else list_del x t)"

theorem list_for_each_safe_filters_witness:
  "\<exists>t L'. list_for_each_entry_safe drop_odd 0 [] (fold list_exec demo_ops demo_mem) = Some ([10, 11, 13], t) \<and>
     lists_ok t L' \<and> L' 0 = Some [10]"
proof -
  let ?s = "fold list_exec demo_ops demo_mem"
  from demo_run obtain L where L: "list_spec_run demo_ops demo_lists = Some L" "L 0 = Some [10, 11, 13]" by blast
  have ok: "lists_ok ?s L" by (rule list_run_refines [OF demo_lists_ok L(1)])
  note run = list_for_each_safe_filters [OF ok L(2) list_del_removes_or_keeps [of "\<lambda>x c. c @ [x]" even], of "[]"]
  have "fst (visit drop_odd [10, 11, 13] [] ?s) = [10, 11, 13]" by simp
  with run show ?thesis by (metis (no_types, lifting) filter.simps even_numeral odd_numeral prod.collapse)
qed

end
