(* ===== verification/Spec2Isabelle.thy ===== *)
theory Spec2Isabelle
  imports TsPrelude HashMap RequestQueue TpDispatch SyncQueue JsonRoundTrip JsonError StepFeed TsNodes MpPool WlpTypes ExpConfig TsList
begin

text \<open>
  A model of the core of the TSLoad agent, a generator of simulated workloads, with the theorems
  that make it correct. An experiment (\<open>tsexperiment\<close>) reads its configuration as JSON, creates workloads on
  thread pools, and feeds each workload with steps (numbers of requests per quantum) from a file,
  a constant or a recorded trace. The control thread of a pool advances the steps, distributes the
  requests of a step over the quantum and hands them to workers through a dispatcher; requests
  that were served are reported and written to a TSFile, from which a trace is replayed later.

  \<^bold>\<open>The theories.\<close> Source files are named below \<open>src/agent\<close>.
  \<^item> \<open>TsPrelude\<close>: the C data model (addresses, NUL-terminated strings, \<open>size_t\<close>) and shared list lemmas.
    \<open>ByteLayout\<close>: little-endian words, layouts of structures as a locale, memory at an offset.
  \<^item> \<open>HashMap\<close> (\<open>lib/libtscommon/hashmap.c\<close>): the intrusive hash map over a store of objects. The
    bucket chains refine a finite map; insertion, removal, lookup and the walk with removal.
  \<^item> \<open>SyncQueue\<close> (\<open>lib/libtscommon/syncqueue.c\<close>): the blocking queue as linked elements and as a step
    relation of producers, consumers and the destroying thread, with undefined uses of mutex and condition
    variable as faulty states: first in first out, no lost wakeup for one consumer, what a destroy does to
    waiting consumers.
  \<^item> \<open>RequestQueue\<close>, \<open>TpDispatch\<close> (\<open>lib/libtsload/threadpool.c\<close>, \<open>tpdisp.c\<close>, \<open>tpdisp/queue.c\<close>): requests sorted by
    arrival with hints, distribution of a step, the worker selectors, requests left over from a step,
    the registry of dispatchers.
  \<^item> \<open>JsonNode\<close>, \<open>JsonParser\<close>, \<open>JsonWriter\<close>, \<open>JsonRoundTrip\<close>, \<open>JsonError\<close> (\<open>lib/libtsjson\<close>): trees with reference
    counts, the parser working in the buffer, the writer over three sinks (a locale), reading back
    what was written, the error messages.
  \<^item> \<open>TsSchema\<close>, \<open>TsFile\<close>, \<open>TsNodes\<close> (\<open>lib/libtsfile/schema.c\<close>, \<open>tsfile.c\<close>, \<open>nodes.c\<close>): schemas from and to JSON,
    the file with superblocks and entries as a log (a locale), entries as JSON nodes.
  \<^item> \<open>Workload\<close> (\<open>lib/libtsload/workload.c\<close>, \<open>worker.c\<close>): status, notifications and the ring of steps, a
    bounded buffer (a locale). \<open>Steps\<close> (\<open>cmd/tsexperiment/steps.c\<close>): the step generators. \<open>StepFeed\<close>
    (\<open>cmd/tsexperiment/run.c\<close>, \<open>lib/libtsload/tsload.c\<close>): the experiment and the control thread together.
  \<^item> \<open>MpBitmap\<close>, \<open>MpFrag\<close>, \<open>MpTree\<close>, \<open>MpHeap\<close>, \<open>MpPool\<close> (\<open>lib/libtscommon/mempool.c\<close>): the memory pool. Bitmap cells shared by
    threads (a step relation), bitmaps and page fragments, the tree of free fragments over a store of
    headers refining binary trees, heap pages tiled by blocks, the list of pages and \<open>mp_malloc\<close>, \<open>mp_free\<close>,
    \<open>mp_realloc\<close>. \<open>BlockAlloc\<close> is the contract of an allocator (a locale), met by fragments and by heap pages.
  \<^item> \<open>TsObj\<close>, \<open>RandGen\<close>, \<open>RandGenProps\<close> (\<open>lib/libtsload/randgen.c\<close>, \<open>randgen/\<close>): random generators and variators over a record of
    floating-point operations, with exact arithmetic as one instance: the period of the congruential generator,
    numbers of the unit interval, variators that return.
  \<^item> \<open>WlParam\<close>, \<open>WlpGen\<close>, \<open>WlpTypes\<close> (\<open>lib/libtsload/wlparam.c\<close>, \<open>wlpgen.c\<close>): workload parameters from JSON into the bytes of their
    structures, generators of request parameters, and type safety of both.
  \<^item> \<open>ExpConfig\<close> (\<open>cmd/tsexperiment/experiment.c\<close>): the configuration of an experiment, a JSON tree in which a pointer
    is a path: nodes found under names with colons, changes, the walk over all nodes, and the thread pools and workloads that
    \<open>experiment_process_config\<close> reads from it.
  \<^item> \<open>TsList\<close> (\<open>include/tsload/list.h\<close>): doubly linked lists as pointers in a store, refining finite maps from list heads to
    sequences, for every operation and for the loops.
  \<^bold>\<open>How the code is represented.\<close> Structures are records, enumerations datatypes, the objects of the
  hash map and of the queues live in a store indexed by addresses; the kernel-style lists of
  \<open>list.h\<close> are sequences where their order is what matters. Words keep their width where the code
  relies on it (bit masks, the 32-bit counts of files, comparisons of signed with unsigned results).
  Dereferencing null, leaving an array and failing an assertion are outcomes of the model: an error
  value or \<open>None\<close>. Mutexes are flags where a path can leave them locked, and otherwise an operation is
  one atomic step. Library functions whose code is not in the repository are arguments: \<open>strtod\<close> and
  the formatting of doubles, the memory that the allocator returns, the clock and the results of system
  calls; the theorems hold for all of them, or name what they need.

  \<^bold>\<open>Fuel and termination.\<close> Loops are structural or have a measure. The bucket walks of the hash map are
  partial functions; they return on every represented table. The JSON parser runs with \<open>2 * length + 1\<close>
  rounds of fuel, which is proved to be enough for every buffer. The loops over the tree of a heap page and over
  the list of pages are partial functions; they return on every tree and every page that the pool can reach.

  \<^bold>\<open>Not modelled.\<close> Reading and writing of files, sockets and directories, threads and signals of the
  operating systems, the host information libraries, the command lines, the load modules and the network
  agent: they do input and output or call the operating system. Rounding of doubles is not modelled: theorems hold for all
  operations on doubles, or for exact arithmetic where they say so.
  Of the memory pool the slab caches, the contents of blocks and contention of threads on one heap page are left out.
  The build tool \<open>tsgenmodsrc\<close>, the directories of experiment runs and the commands on them are left out of this development.
\<close>

end
